(* ===== verification/JS_Prelude.thy ===== *)
theory JS_Prelude
  imports Main "HOL-Library.AList" "HOL-Library.Sublist"
begin

text \<open>
  Shared vocabulary of the development: the JavaScript strings, arrays and Maps the code
  uses. Strings are HOL strings (character codes below 256, so the text handled by the
  modelled code is read as Latin-1 code units); \<open>toLowerCase\<close> and \<open>trim\<close> are written
  out for that range. A JavaScript \<^verbatim>\<open>Map\<close> is an association list in insertion order:
  \<^verbatim>\<open>get\<close> is \<open>map_of\<close>, \<^verbatim>\<open>set\<close> is \<open>AList.update\<close> (an existing key keeps its place, a new
  one is appended), \<^verbatim>\<open>delete\<close> is \<open>AList.delete\<close>. The locale \<open>keyed_map\<close> states what the
  caches and registries rely on; it is interpreted here on association lists.
  Milliseconds and other JavaScript integers are \<open>int\<close> (they stay far below \<open>2 ^ 53\<close>).
\<close>

named_theorems js_simps \<open>rewriting rules for the JavaScript operations\<close>

type_synonym ms = int
type_synonym ('k, 'v) jmap = "('k \<times> 'v) list"

section \<open>Strings\<close>

definition code :: "char \<Rightarrow> nat" where
  "code c = of_char c"

definition is_upper :: "char \<Rightarrow> bool" where
  "is_upper c \<longleftrightarrow> 65 \<le> code c \<and> code c \<le> 90"

definition lower_char :: "char \<Rightarrow> char" where
  "lower_char c = (if is_upper c then char_of (code c + 32) else c)"

definition lower :: "string \<Rightarrow> string" where
  "lower s = map lower_char s"

definition upper_char :: "char \<Rightarrow> char" where
  "upper_char c = (if 97 \<le> code c \<and> code c \<le> 122 then char_of (code c - 32) else c)"

definition upper :: "string \<Rightarrow> string" where
  "upper s = map upper_char s"

definition is_space :: "char \<Rightarrow> bool" where
  "is_space c \<longleftrightarrow> (9 \<le> code c \<and> code c \<le> 13) \<or> code c = 32 \<or> code c = 160"

definition trim :: "string \<Rightarrow> string" where
  "trim s = rev (dropWhile is_space (rev (dropWhile is_space s)))"

definition is_digit :: "char \<Rightarrow> bool" where
  "is_digit c \<longleftrightarrow> 48 \<le> code c \<and> code c \<le> 57"

definition starts_with :: "string \<Rightarrow> string \<Rightarrow> bool" where
  "starts_with s p \<longleftrightarrow> take (length p) s = p"

definition ends_with :: "string \<Rightarrow> string \<Rightarrow> bool" where
  "ends_with s p \<longleftrightarrow> length p \<le> length s \<and> drop (length s - length p) s = p"

fun split_on :: "char \<Rightarrow> string \<Rightarrow> string list" where
  "split_on d [] = [[]]"
| "split_on d (c # s) =
     (if c = d then [] # split_on d s
      else (case split_on d s of [] \<Rightarrow> [[c]] | w # ws \<Rightarrow> (c # w) # ws))"

fun join :: "string \<Rightarrow> string list \<Rightarrow> string" where
  "join sep [] = []"
| "join sep [w] = w"
| "join sep (w # ws) = w @ sep @ join sep ws"

text \<open>\<^verbatim>\<open>[...new Set(xs)]\<close>: the first occurrence of every element, in order.\<close>

fun dedupe :: "'a list \<Rightarrow> 'a list" where
  "dedupe [] = []"
| "dedupe (x # xs) = x # removeAll x (dedupe xs)"

text \<open>A string is truthy when it is present and not empty.\<close>

fun truthy :: "string option \<Rightarrow> bool" where
  "truthy None = False"
| "truthy (Some s) = (s \<noteq> [])"

text \<open>\<^verbatim>\<open>parseInt(s, radix)\<close>: leading space, a sign, \<^verbatim>\<open>0x\<close> for radix 16, then the longest run of
  digits; \<open>None\<close> is \<^verbatim>\<open>NaN\<close>. \<open>show_int\<close> prints a number in a template literal.\<close>

definition digit_val :: "char \<Rightarrow> nat" where
  "digit_val c = (if is_digit c then code c - 48
     else if 97 \<le> code (lower_char c) \<and> code (lower_char c) \<le> 122
     then code (lower_char c) - 87 else 99)"

definition digits_value :: "nat \<Rightarrow> string \<Rightarrow> int" where
  "digits_value radix ds = foldl (\<lambda>a c. a * int radix + int (digit_val c)) 0 ds"

definition parse_int :: "nat \<Rightarrow> string \<Rightarrow> int option" where
  "parse_int radix s =
     (let t = dropWhile is_space s;
          neg = (starts_with t ''-'');
          u = (if neg \<or> starts_with t ''+'' then drop 1 t else t);
          v = (if radix = 16 \<and> starts_with (lower u) ''0x'' then drop 2 u else u);
          ds = takeWhile (\<lambda>c. digit_val c < radix) v in
      if ds = [] then None
      else Some (if neg then - digits_value radix ds else digits_value radix ds))"

function show_int :: "int \<Rightarrow> string" where
  "show_int n = (if n < 0 then CHR ''-'' # show_int (- n)
     else if n < 10 then [char_of (48 + nat n)]
     else show_int (n div 10) @ [char_of (48 + nat (n mod 10))])"
  by pat_completeness auto
termination by (relation "measure (\<lambda>n. nat (2 * \<bar>n\<bar>) + (if n < 0 then 1 else 0))") auto

declare show_int.simps [simp del]

text \<open>\<^verbatim>\<open>lastIndexOf\<close> of one character (\<open>None\<close> is \<open>-1\<close>), and \<^verbatim>\<open>split("::")\<close>.\<close>

definition last_index :: "char \<Rightarrow> string \<Rightarrow> nat option" where
  "last_index c s = (if c \<in> set s
     then Some (length s - Suc (length (takeWhile (\<lambda>x. x \<noteq> c) (rev s)))) else None)"

fun split_dcolon :: "string \<Rightarrow> string list" where
  "split_dcolon [] = [[]]"
| "split_dcolon [c] = [[c]]"
| "split_dcolon (c # d # s) =
     (if c = CHR '':'' \<and> d = CHR '':'' then [] # split_dcolon s
      else (case split_dcolon (d # s) of [] \<Rightarrow> [[c]] | w # ws \<Rightarrow> (c # w) # ws))"

lemma code_less_256: "code c < 256"
  by (simp add: code_def)

lemma code_char_of [simp]: "n < 256 \<Longrightarrow> code (char_of n) = n"
  by (simp add: code_def)

lemma lower_char_idem [simp]: "lower_char (lower_char c) = lower_char c"
proof (cases "is_upper c")
  case True
  then have "code (lower_char c) = code c + 32"
    by (simp add: lower_char_def is_upper_def)
  with True show ?thesis by (simp add: lower_char_def [of "lower_char c"] is_upper_def)
qed (simp add: lower_char_def)

lemma lower_idem [simp]: "lower (lower s) = lower s"
  by (simp add: lower_def)

lemma lower_Nil [simp]: "lower [] = []" "lower s = [] \<longleftrightarrow> s = []" "[] = lower s \<longleftrightarrow> s = []"
  by (simp_all add: lower_def)

lemma lower_append: "lower (s @ t) = lower s @ lower t"
  by (simp add: lower_def)

lemma lower_Cons: "lower (c # s) = lower_char c # lower s"
  by (simp add: lower_def)

lemma length_lower [simp]: "length (lower s) = length s"
  by (simp add: lower_def)

lemma lower_char_dot [simp]: "lower_char CHR ''.'' = CHR ''.''"
  by (simp add: lower_char_def is_upper_def code_def)

lemma lower_char_eq_low:
  assumes "code d < 65"
  shows "lower_char c = d \<longleftrightarrow> c = d"
proof (cases "is_upper c")
  case True
  then have "97 \<le> code (lower_char c)" "65 \<le> code c"
    by (simp_all add: lower_char_def is_upper_def)
  with assms show ?thesis by auto
qed (simp add: lower_char_def)

lemma lower_char_eq_dot: "lower_char c = CHR ''.'' \<longleftrightarrow> c = CHR ''.''"
proof (cases "is_upper c")
  case True
  then have "97 \<le> code (lower_char c)"
    by (simp add: lower_char_def is_upper_def)
  moreover have "code CHR ''.'' = 46" by (simp add: code_def)
  moreover from True have "code c \<ge> 65" by (simp add: is_upper_def)
  ultimately show ?thesis by auto
qed (simp add: lower_char_def)

lemma starts_with_iff: "starts_with s p \<longleftrightarrow> (\<exists>r. s = p @ r)"
  unfolding starts_with_def by (metis append_eq_conv_conj append_take_drop_id)

lemma ends_with_iff: "ends_with s p \<longleftrightarrow> (\<exists>r. s = r @ p)"
proof
  assume "ends_with s p"
  then show "\<exists>r. s = r @ p" unfolding ends_with_def by (metis append_take_drop_id)
qed (auto simp: ends_with_def)

lemma starts_with_dot_iff: "starts_with s ''.'' \<longleftrightarrow> (\<exists>r. s = CHR ''.'' # r)"
  by (simp add: starts_with_iff)

lemma starts_with_Nil [simp]: "starts_with s []"
  by (simp add: starts_with_def)

lemma split_on_not_Nil [simp]: "split_on d s \<noteq> []"
  by (induction s) (auto split: list.splits)

lemma split_on_no_sep: "d \<notin> set s \<Longrightarrow> split_on d s = [s]"
  by (induction s) auto

lemma split_on_append_sep:
  "split_on d (s @ d # t) = split_on d s @ split_on d t"
  by (induction s) (auto split: list.splits)

lemma join_split_on [simp]: "join [d] (split_on d s) = s"
proof (induction s)
  case (Cons c s)
  obtain w ws where w: "split_on d s = w # ws"
    by (cases "split_on d s") auto
  with Cons.IH show ?case by (cases ws) auto
qed simp

lemma split_on_inject: "split_on d s = split_on d t \<longleftrightarrow> s = t"
  by (metis join_split_on)

lemma split_on_join:
  "ws \<noteq> [] \<Longrightarrow> \<forall>w \<in> set ws. d \<notin> set w \<Longrightarrow> split_on d (join [d] ws) = ws"
  by (induction ws rule: induct_list012) (simp_all add: split_on_no_sep split_on_append_sep)

lemma set_dedupe [simp]: "set (dedupe xs) = set xs"
  by (induction xs) auto

lemma distinct_removeAll_list: "distinct xs \<Longrightarrow> distinct (removeAll x xs)"
  by (simp add: distinct_removeAll)

lemma distinct_dedupe [simp]: "distinct (dedupe xs)"
  by (induction xs) (auto simp: distinct_removeAll)

lemma dedupe_idem [simp]: "distinct xs \<Longrightarrow> dedupe xs = xs"
  by (induction xs) auto

lemma dropWhile_twice [simp]: "dropWhile P (dropWhile P xs) = dropWhile P xs"
  by (induction xs) auto

lemma dropWhile_prefix:
  assumes "\<not> P (hd xs)" and "ys \<noteq> []" and "prefix ys xs"
  shows "dropWhile P ys = ys"
  using assms by (cases ys) (auto simp: prefix_def)

lemma trim_idem [simp]: "trim (trim s) = trim s"
proof -
  let ?u = "dropWhile is_space s" and ?v = "rev (dropWhile is_space (rev (dropWhile is_space s)))"
  have pre: "prefix ?v ?u"
    by (metis rev_rev_ident suffix_dropWhile suffix_to_prefix)
  have "dropWhile is_space ?v = ?v"
  proof (cases "?v = []")
    case False
    with pre have "?u \<noteq> []" by (metis prefix_bot.extremum_unique)
    then have "\<not> is_space (hd ?u)" by (rule hd_dropWhile)
    then show ?thesis using False pre by (rule dropWhile_prefix)
  next
    case True
    then show ?thesis by (simp only: dropWhile.simps)
  qed
  then show ?thesis unfolding trim_def by simp
qed

lemma find_SomeD: "find P xs = Some x \<Longrightarrow> x \<in> set xs \<and> P x"
  by (auto simp: find_Some_iff)

lemma find_unique:
  assumes "x \<in> set xs" and "P x" and "\<And>y. y \<in> set xs \<Longrightarrow> P y \<Longrightarrow> y = x"
  shows "find P xs = Some x"
proof (cases "find P xs")
  case None
  with assms(1,2) show ?thesis by (auto simp: find_None_iff)
next
  case (Some y)
  with assms(3) show ?thesis by (auto dest: find_SomeD)
qed

lemma last_index_append: "c \<notin> set t \<Longrightarrow> last_index c (s @ c # t) = Some (length s)"
proof -
  assume "c \<notin> set t"
  then have "takeWhile (\<lambda>x. x \<noteq> c) (rev t @ [c] @ rev s) = rev t"
    by (subst takeWhile_append2) auto
  then show ?thesis by (simp add: last_index_def)
qed

lemma last_index_None [simp]: "c \<notin> set s \<Longrightarrow> last_index c s = None"
  by (simp add: last_index_def)

lemma split_dcolon_not_Nil [simp]: "split_dcolon s \<noteq> []"
  by (induction s rule: split_dcolon.induct) (auto split: list.splits)

lemma split_dcolon_sep: "split_dcolon (CHR '':'' # CHR '':'' # s) = [] # split_dcolon s"
  by simp

lemma split_dcolon_Cons:
  assumes "c \<noteq> CHR '':'' \<or> \<not> starts_with s '':''"
  shows "split_dcolon (c # s) = (c # hd (split_dcolon s)) # tl (split_dcolon s)"
  using assms by (cases s) (auto simp: starts_with_iff split: list.splits)

lemma set_split_on: "w \<in> set (split_on d s) \<Longrightarrow> d \<notin> set w \<and> set w \<subseteq> set s"
  by (induction s arbitrary: w) (auto split: if_splits list.splits, blast)

section \<open>Maps in insertion order\<close>

fun jm_first :: "('k, 'v) jmap \<Rightarrow> 'k option" where
  "jm_first [] = None"
| "jm_first (p # _) = Some (fst p)"

definition jm_wf :: "('k, 'v) jmap \<Rightarrow> bool" where
  "jm_wf m \<longleftrightarrow> distinct (map fst m)"

text \<open>
  What the caches of the program use of a Map. \<open>evict\<close> is the idiom the code repeats: when
  the map is full, drop the key that was inserted first, then insert.
\<close>

locale keyed_map =
  fixes get :: "'m \<Rightarrow> 'k \<Rightarrow> 'v option"
    and put :: "'k \<Rightarrow> 'v \<Rightarrow> 'm \<Rightarrow> 'm"
    and del :: "'k \<Rightarrow> 'm \<Rightarrow> 'm"
    and count :: "'m \<Rightarrow> nat"
    and oldest :: "'m \<Rightarrow> 'k option"
    and wf :: "'m \<Rightarrow> bool"
  assumes get_put: "get (put k v m) k' = (if k' = k then Some v else get m k')"
    and get_del: "get (del k m) k' = (if k' = k then None else get m k')"
    and count_put: "wf m \<Longrightarrow>
          count (put k v m) = (if get m k = None then Suc (count m) else count m)"
    and count_del: "wf m \<Longrightarrow>
          count (del k m) = (if get m k = None then count m else count m - 1)"
    and oldest_Some: "wf m \<Longrightarrow> 0 < count m \<Longrightarrow> \<exists>k. oldest m = Some k \<and> get m k \<noteq> None"
    and wf_put: "wf m \<Longrightarrow> wf (put k v m)"
    and wf_del: "wf m \<Longrightarrow> wf (del k m)"
begin

lemma put_del_count:
  "wf m \<Longrightarrow> get m k \<noteq> None \<Longrightarrow> 0 < count m \<Longrightarrow> count (put k v (del k m)) = count m"
  by (auto simp: count_put count_del wf_del get_del)

lemma evict_count:
  assumes "wf m" and "count m \<le> max 1 n" and "get m k = None"
  shows "count (put k v (if n \<le> count m
           then (case oldest m of None \<Rightarrow> m | Some q \<Rightarrow> del q m) else m)) \<le> max 1 n"
proof (cases "n \<le> count m \<and> 0 < count m")
  case True
  with assms(1) obtain q where q: "oldest m = Some q" "get m q \<noteq> None"
    using oldest_Some by blast
  with True assms show ?thesis by (auto simp: count_put count_del wf_del get_del)
next
  case False
  with assms show ?thesis
    by (auto simp: count_put count_del wf_del get_del split: option.splits)
qed

lemma evict_get:
  "get (put k v (if full then (case oldest m of None \<Rightarrow> m | Some q \<Rightarrow> del q m) else m)) k' =
     (if k' = k then Some v
      else if full \<and> oldest m = Some k' then None else get m k')"
  by (auto simp: get_put get_del split: option.splits)

lemma evict_wf:
  "wf m \<Longrightarrow> wf (put k v (if full then (case oldest m of None \<Rightarrow> m | Some q \<Rightarrow> del q m) else m))"
  by (auto simp: wf_put wf_del split: option.splits)

end

lemma jm_get_set: "map_of (AList.update k v m) k' = (if k' = k then Some v else map_of m k')"
  by (simp add: update_conv')

lemma jm_get_del: "map_of (AList.delete k m) k' = (if k' = k then None else map_of m k')"
  by (simp add: delete_conv')

lemma jm_keys_set:
  "map fst (AList.update k v m) = (if k \<in> fst ` set m then map fst m else map fst m @ [k])"
  by (induction m) auto

lemma jm_wf_set [simp, intro]: "jm_wf m \<Longrightarrow> jm_wf (AList.update k v m)"
  by (simp add: jm_wf_def distinct_update)

lemma jm_wf_del [simp, intro]: "jm_wf m \<Longrightarrow> jm_wf (AList.delete k m)"
  by (simp add: jm_wf_def distinct_delete)

lemma jm_wf_Nil [simp]: "jm_wf []"
  by (simp add: jm_wf_def)

lemma jm_length_set:
  "length (AList.update k v m) = (if map_of m k = None then Suc (length m) else length m)"
proof -
  have "length (map fst (AList.update k v m)) =
      (if k \<in> fst ` set m then length m else Suc (length m))"
    by (simp add: jm_keys_set)
  then show ?thesis by (simp add: map_of_eq_None_iff)
qed

lemma jm_length_del:
  assumes "jm_wf m"
  shows "length (AList.delete k m) = (if map_of m k = None then length m else length m - 1)"
proof -
  have "length (AList.delete k m) = length (remove1 k (map fst m))"
    using assms by (metis delete_keys distinct_remove1_removeAll jm_wf_def length_map)
  then show ?thesis by (simp add: length_remove1 map_of_eq_None_iff)
qed

lemma jm_get_rev: "distinct (map fst xs) \<Longrightarrow> map_of (rev xs) k = map_of xs k"
proof (cases "map_of xs k")
  case None
  then have "map_of (rev xs) k = None" by (simp add: map_of_eq_None_iff)
  with None show ?thesis by simp
next
  case (Some v)
  assume d: "distinct (map fst xs)"
  from Some have "(k, v) \<in> set (rev xs)" by (simp add: map_of_SomeD)
  with d have "map_of (rev xs) k = Some v"
    by (intro map_of_is_SomeI) (simp_all add: rev_map [symmetric])
  with Some show ?thesis by simp
qed

interpretation jsm: keyed_map
  "map_of :: ('k, 'v) jmap \<Rightarrow> 'k \<Rightarrow> 'v option" AList.update AList.delete length jm_first jm_wf
proof (unfold_locales, goal_cases)
  case (5 m)
  then obtain p ps where "m = p # ps" by (cases m) auto
  then show ?case by (cases p) simp
qed (simp_all add: jm_get_set jm_get_del jm_length_set jm_length_del jm_wf_set jm_wf_del)

lemmas jm_simps [js_simps] =
  jm_get_set jm_get_del jm_length_set jm_length_del jm_wf_set jm_wf_del

end
