(* ===== verification/Domains.thy ===== *)
theory Domains
  imports JS_Prelude
begin

text \<open>
  Host names and domain patterns: \<^verbatim>\<open>packages/core/src/utils/network-domains.ts\<close>,
  \<^verbatim>\<open>packages/server/src/gateway/config/network-allowlist.ts\<close> and the matching functions of
  \<^verbatim>\<open>packages/server/src/gateway/proxy/http-proxy.ts\<close>. Node's \<^verbatim>\<open>domainToASCII\<close> is the
  parameter \<open>dta\<close>, the host name parser of \<^verbatim>\<open>new URL\<close> the parameter \<open>url_host\<close> (\<open>None\<close> where
  the constructor throws); environment variables are arguments.
\<close>

section \<open>Patterns\<close>

definition toAscii :: "(string \<Rightarrow> string) \<Rightarrow> string \<Rightarrow> string" where
  "toAscii dta host = (let ascii = dta host in if ascii \<noteq> [] then ascii else lower host)"

definition normalizeDomainPattern :: "(string \<Rightarrow> string) \<Rightarrow> string \<Rightarrow> string" where
  "normalizeDomainPattern dta pattern =
     (let trimmed = trim pattern in
      if starts_with trimmed ''/'' then trimmed
      else let normalized = lower trimmed in
        if starts_with normalized ''*.'' then ''.'' @ toAscii dta (drop 2 normalized)
        else toAscii dta normalized)"

definition normalizeDomainPatterns ::
    "(string \<Rightarrow> string) \<Rightarrow> string list option \<Rightarrow> string list option" where
  "normalizeDomainPatterns dta patterns =
     (case patterns of None \<Rightarrow> None
      | Some ps \<Rightarrow> Some (dedupe (filter (\<lambda>p. p \<noteq> []) (map (normalizeDomainPattern dta) ps))))"

section \<open>The lists from the environment\<close>

definition getSentryIngestHost ::
    "(string \<Rightarrow> string option) \<Rightarrow> string option \<Rightarrow> string option" where
  "getSentryIngestHost url_host dsn =
     (if \<not> truthy dsn then None
      else case url_host (the dsn) of None \<Rightarrow> None
        | Some h \<Rightarrow> (let l = lower h in if l = [] then None else Some l))"

definition comma_items :: "string \<Rightarrow> string list" where
  "comma_items s = filter (\<lambda>d. 0 < length d) (map trim (split_on CHR '','' s))"

definition loadAllowedDomains ::
    "(string \<Rightarrow> string) \<Rightarrow> (string \<Rightarrow> string option) \<Rightarrow> string option \<Rightarrow> string option
       \<Rightarrow> string list" where
  "loadAllowedDomains dta url_host dsn allowedDomains =
     (let sentryHost = getSentryIngestHost url_host dsn in
      if \<not> truthy allowedDomains
      then (case sentryHost of Some h \<Rightarrow> [h] | None \<Rightarrow> [])
      else let trimmed = trim (the allowedDomains) in
        if trimmed = ''*'' then [''*'']
        else let parsed = (case normalizeDomainPatterns dta (Some (comma_items trimmed)) of
                             Some ps \<Rightarrow> ps | None \<Rightarrow> [])
          in case sentryHost of
               None \<Rightarrow> parsed
             | Some h \<Rightarrow> if h \<in> set parsed then parsed else parsed @ [h])"

definition isUnrestrictedMode :: "string list \<Rightarrow> bool" where
  "isUnrestrictedMode allowedDomains \<longleftrightarrow>
     length allowedDomains = 1 \<and> allowedDomains ! 0 = ''*''"

definition loadDisallowedDomains :: "(string \<Rightarrow> string) \<Rightarrow> string option \<Rightarrow> string list" where
  "loadDisallowedDomains dta disallowedDomains =
     (if \<not> truthy disallowedDomains then []
      else case normalizeDomainPatterns dta (Some (comma_items (the disallowedDomains))) of
             Some ps \<Rightarrow> ps | None \<Rightarrow> [])"

record network_config =
  allowedDomains :: "string list"
  deniedDomains :: "string list"

definition getGlobalConfig ::
    "(string \<Rightarrow> string) \<Rightarrow> (string \<Rightarrow> string option) \<Rightarrow> string option \<Rightarrow> string option
       \<Rightarrow> string option \<Rightarrow> network_config" where
  "getGlobalConfig dta url_host dsn allowed disallowed =
     \<lparr>allowedDomains = map lower (loadAllowedDomains dta url_host dsn allowed),
      deniedDomains = map lower (loadDisallowedDomains dta disallowed)\<rparr>"

section \<open>Matching\<close>

definition strip_trailing_dots :: "string \<Rightarrow> string" where
  "strip_trailing_dots s = rev (dropWhile (\<lambda>c. c = CHR ''.'') (rev s))"

definition canonicalizeHostname :: "(string \<Rightarrow> string) \<Rightarrow> string \<Rightarrow> string" where
  "canonicalizeHostname dta hostname =
     (let stripped = strip_trailing_dots hostname; ascii = dta stripped
      in lower (if ascii \<noteq> [] then ascii else stripped))"

fun matchesDomainPattern :: "string \<Rightarrow> string list \<Rightarrow> bool" where
  "matchesDomainPattern hostname [] = False"
| "matchesDomainPattern hostname (pattern # patterns) =
     (let lowerHostname = lower hostname; lowerPattern = lower pattern in
      if starts_with lowerPattern ''.''
      then (let domain = drop 1 lowerPattern in
            if lowerHostname = domain \<or> ends_with lowerHostname (''.'' @ domain) then True
            else matchesDomainPattern hostname patterns)
      else if lowerPattern = lowerHostname then True
      else matchesDomainPattern hostname patterns)"

definition isHostnameAllowed :: "string \<Rightarrow> string list \<Rightarrow> string list \<Rightarrow> bool" where
  "isHostnameAllowed hostname allowed denied =
     (if isUnrestrictedMode allowed
      then (if length denied = 0 then True else \<not> matchesDomainPattern hostname denied)
      else if length allowed = 0 then False
      else let isAllowed = matchesDomainPattern hostname allowed in
        if isAllowed \<and> 0 < length denied then \<not> matchesDomainPattern hostname denied
        else isAllowed)"

section \<open>Lemmas\<close>

abbreviation labels :: "string \<Rightarrow> string list" where
  "labels s \<equiv> split_on CHR ''.'' s"

lemma join_append:
  "xs \<noteq> [] \<Longrightarrow> ys \<noteq> [] \<Longrightarrow> join sep (xs @ ys) = join sep xs @ sep @ join sep ys"
proof (induction sep xs rule: join.induct)
  case (2 sep w)
  then show ?case by (cases ys) auto
qed auto

text \<open>A dot-separated suffix of the text is a suffix of the list of labels.\<close>

lemma label_suffix:
  "(h = d \<or> ends_with h (''.'' @ d)) \<longleftrightarrow> suffix (labels d) (labels h)"
proof
  assume "h = d \<or> ends_with h (''.'' @ d)"
  then show "suffix (labels d) (labels h)"
    by (auto simp: ends_with_iff split_on_append_sep suffix_def)
next
  assume "suffix (labels d) (labels h)"
  then obtain xs where xs: "labels h = xs @ labels d" by (auto simp: suffix_def)
  then have h: "h = join ''.'' (xs @ labels d)" by (metis join_split_on)
  show "h = d \<or> ends_with h (''.'' @ d)"
  proof (cases "xs = []")
    case True
    with xs show ?thesis by (simp add: split_on_inject)
  next
    case False
    with h have "h = join ''.'' xs @ ''.'' @ d" by (simp add: join_append)
    then show ?thesis by (auto simp: ends_with_iff)
  qed
qed

definition pattern_covers :: "string \<Rightarrow> string \<Rightarrow> bool" where
  "pattern_covers p h \<longleftrightarrow>
     (case lower p of
        [] \<Rightarrow> lower h = []
      | c # d \<Rightarrow> if c = CHR ''.'' then suffix (labels d) (labels (lower h))
                 else lower h = c # d)"

lemma matches_Cons:
  "matchesDomainPattern h (p # ps) \<longleftrightarrow> pattern_covers p h \<or> matchesDomainPattern h ps"
proof (cases "lower p")
  case Nil
  then show ?thesis by (simp add: pattern_covers_def Let_def starts_with_def)
next
  case (Cons c d)
  then show ?thesis
    using label_suffix [of "lower h" d]
    by (auto simp: pattern_covers_def Let_def starts_with_def)
qed

lemma matches_iff:
  "matchesDomainPattern h ps \<longleftrightarrow> (\<exists>p \<in> set ps. pattern_covers p h)"
  by (induction ps) (simp_all add: matches_Cons del: matchesDomainPattern.simps(2))

lemma pattern_covers_lower [simp]: "pattern_covers (lower p) h = pattern_covers p h"
  by (simp add: pattern_covers_def)

lemma pattern_covers_lower_host [simp]: "pattern_covers p (lower h) = pattern_covers p h"
  by (simp add: pattern_covers_def split: list.splits)

lemma matches_map_lower [simp]:
  "matchesDomainPattern h (map lower ps) = matchesDomainPattern h ps"
  by (simp add: matches_iff)

lemma pattern_covers_self:
  "pattern_covers p h" if "lower p = lower h" "\<not> starts_with (lower p) ''.''"
  using that by (auto simp: pattern_covers_def starts_with_def split: list.splits)

lemma isHostnameAllowed_iff:
  "isHostnameAllowed h allowed denied \<longleftrightarrow>
     \<not> matchesDomainPattern h denied \<and>
     (isUnrestrictedMode allowed \<or> matchesDomainPattern h allowed)"
  by (auto simp: isHostnameAllowed_def Let_def)

lemma isUnrestrictedMode_iff: "isUnrestrictedMode xs \<longleftrightarrow> xs = [''*'']"
  by (auto simp: isUnrestrictedMode_def length_Suc_conv)

lemma strip_trailing_dots_append:
  "strip_trailing_dots (h @ replicate n CHR ''.'') = strip_trailing_dots h"
proof -
  have "dropWhile (\<lambda>c. c = CHR ''.'') (replicate n CHR ''.'' @ t) = dropWhile (\<lambda>c. c = CHR ''.'') t"
    for t by (induction n) auto
  then show ?thesis by (simp add: strip_trailing_dots_def)
qed

lemma strip_trailing_dots_id:
  "\<not> ends_with h ''.'' \<Longrightarrow> strip_trailing_dots h = h"
  by (cases h rule: rev_cases) (auto simp: strip_trailing_dots_def ends_with_iff)

lemma canonicalizeHostname_dots:
  "canonicalizeHostname dta (h @ replicate n CHR ''.'') = canonicalizeHostname dta h"
  by (simp add: canonicalizeHostname_def strip_trailing_dots_append)

lemma lower_canonicalizeHostname [simp]:
  "lower (canonicalizeHostname dta h) = canonicalizeHostname dta h"
  by (simp add: canonicalizeHostname_def Let_def)

section \<open>Properties\<close>

text \<open>
  matching is by whole labels: a host matches a list of patterns exactly when, for
  some pattern and ignoring case, it is the pattern itself, or the pattern starts with a
  dot and the labels after the dot are the last labels of the host. So \<open>.example.com\<close>
  covers \<open>example.com\<close> and \<open>a.b.example.com\<close>, and never \<open>evil-example.com\<close>.
\<close>

theorem matchesDomainPattern_labels:
  "matchesDomainPattern h ps =
     (\<exists>p \<in> set ps. if starts_with (lower p) ''.''
        then suffix (split_on CHR ''.'' (drop 1 (lower p))) (split_on CHR ''.'' (lower h))
        else lower p = lower h)"
proof -
  have "pattern_covers p h =
      (if starts_with (lower p) ''.''
       then suffix (labels (drop 1 (lower p))) (labels (lower h)) else lower p = lower h)" for p
    by (cases "lower p") (auto simp: pattern_covers_def starts_with_def)
  then show ?thesis by (simp add: matches_iff)
qed

text \<open>
  the allow and deny lists of the process decide a host as documented: a denied host
  is never allowed, whatever else matches; otherwise it is allowed in unrestricted mode
  (the list is exactly \<open>*\<close>) or when a pattern matches; the empty list allows nothing.
  The verdict is the same for the lower-cased lists the proxy caches.
\<close>

theorem isHostnameAllowed_spec:
  "isHostnameAllowed h allowed denied =
     (\<not> matchesDomainPattern h denied \<and> (allowed = [''*''] \<or> matchesDomainPattern h allowed))
   \<and> isHostnameAllowed h (map lower allowed) (map lower denied) =
       isHostnameAllowed h allowed denied"
proof -
  have "lower ''*'' = ''*''" by (simp add: lower_def lower_char_def is_upper_def code_def)
  moreover have "lower x = ''*'' \<longleftrightarrow> x = ''*''" for x
  proof
    assume x: "lower x = ''*''"
    then obtain c where c: "x = [c]" "lower_char c = CHR ''*''"
      by (cases x) (auto simp: lower_def)
    have "\<not> is_upper c"
    proof
      assume "is_upper c"
      then have "97 \<le> code (lower_char c)" by (simp add: lower_char_def is_upper_def)
      with c show False by (simp add: code_def)
    qed
    with c show "x = ''*''" by (simp add: lower_char_def)
  qed (use calculation in simp)
  ultimately have "map lower allowed = [''*''] \<longleftrightarrow> allowed = [''*'']"
    by (auto simp: map_eq_Cons_conv)
  then show ?thesis
    by (simp add: isHostnameAllowed_iff isUnrestrictedMode_iff)
qed

text \<open>
  without WORKER_ALLOWED_DOMAINS the workers are isolated: the proxy's global lists
  allow no host at all, except the one exact Sentry ingest host when a DSN names one
  (a host name that is not itself a pattern), and nothing the deny list matches.
\<close>

theorem isolation_without_allowlist:
  assumes "\<And>s. getSentryIngestHost url_host dsn = Some s \<Longrightarrow>
             s \<noteq> ''*'' \<and> \<not> starts_with s ''.''"
  shows "isHostnameAllowed h (loadAllowedDomains dta url_host dsn None) denied \<longleftrightarrow>
     getSentryIngestHost url_host dsn = Some (lower h) \<and> \<not> matchesDomainPattern h denied"
proof (cases "getSentryIngestHost url_host dsn")
  case None
  then show ?thesis
    by (simp add: loadAllowedDomains_def isHostnameAllowed_iff isUnrestrictedMode_iff)
next
  case (Some s)
  then have low: "lower s = s"
    by (auto simp: getSentryIngestHost_def Let_def split: if_splits option.splits)
  have "loadAllowedDomains dta url_host dsn None = [s]"
    by (simp add: loadAllowedDomains_def Some)
  with Some assms [OF Some] low show ?thesis
    by (auto simp: isHostnameAllowed_iff isUnrestrictedMode_iff Let_def)
qed

theorem isolation_without_allowlist_witness:
  "isHostnameAllowed ''O1.sentry.io''
     (loadAllowedDomains id (\<lambda>_. Some ''o1.sentry.io'') (Some ''https://k@o1.sentry.io/4'') None) []"
proof -
  have low: "lower ''O1.sentry.io'' = ''o1.sentry.io''" "lower ''o1.sentry.io'' = ''o1.sentry.io''"
    by code_simp+
  then have "getSentryIngestHost (\<lambda>_. Some ''o1.sentry.io'') (Some ''https://k@o1.sentry.io/4'') =
      Some ''o1.sentry.io''"
    by (simp add: getSentryIngestHost_def)
  with low show ?thesis
    by (subst isolation_without_allowlist) (auto simp: starts_with_def)
qed

text \<open>
  a trailing dot does not slip past the lists: every spelling of a host with extra
  trailing dots, in any case, is canonicalized to one lower-case name.
\<close>

theorem canonicalizeHostname_trailing_dots:
  "canonicalizeHostname dta (h @ replicate n CHR ''.'') = canonicalizeHostname dta h
   \<and> lower (canonicalizeHostname dta h) = canonicalizeHostname dta h"
  by (simp add: canonicalizeHostname_dots)

text \<open>
  the value \<open>*,\<close> of WORKER_ALLOWED_DOMAINS is unrestricted mode when no Sentry DSN is
  configured, and stops being so (no host but the Sentry host, or the literal \<open>*\<close>, is
  allowed) when one is: the Sentry host is appended to the list after the \<open>*\<close>.
\<close>

theorem star_list_depends_on_sentry:
  assumes "dta ''*'' = [] \<or> dta ''*'' = ''*''"
    and "getSentryIngestHost url_host (Some dsn) = Some s" and "s \<noteq> ''*''"
  shows "isUnrestrictedMode (loadAllowedDomains dta url_host None (Some ''*,''))
     \<and> loadAllowedDomains dta url_host (Some dsn) (Some ''*,'') = [''*'', s]
     \<and> \<not> isUnrestrictedMode (loadAllowedDomains dta url_host (Some dsn) (Some ''*,''))"
proof -
  have t: "trim ''*,'' = ''*,''" "trim ''*'' = ''*''"
    by (simp_all add: trim_def is_space_def code_def)
  have l: "lower ''*'' = ''*''" by (simp add: lower_def lower_char_def is_upper_def code_def)
  have "normalizeDomainPattern dta ''*'' = ''*''"
    using assms(1) by (auto simp: normalizeDomainPattern_def t l starts_with_def toAscii_def Let_def)
  moreover have "comma_items ''*,'' = [''*'']"
    by (simp add: comma_items_def t) (simp add: trim_def)
  ultimately have n: "normalizeDomainPatterns dta (Some (comma_items ''*,'')) = Some [''*'']"
    by (simp add: normalizeDomainPatterns_def)
  have none: "getSentryIngestHost url_host None = None" by (simp add: getSentryIngestHost_def)
  have 1: "loadAllowedDomains dta url_host None (Some ''*,'') = [''*'']"
    by (simp add: loadAllowedDomains_def none t n)
  have 2: "loadAllowedDomains dta url_host (Some dsn) (Some ''*,'') = [''*'', s]"
    using assms(2,3) by (simp add: loadAllowedDomains_def t n)
  show ?thesis by (simp add: 1 2 isUnrestrictedMode_iff)
qed

theorem star_list_depends_on_sentry_witness:
  "\<not> isUnrestrictedMode
     (loadAllowedDomains lower (\<lambda>_. Some ''o1.sentry.io'') (Some ''d'') (Some ''*,''))"
proof -
  have "getSentryIngestHost (\<lambda>_. Some ''o1.sentry.io'') (Some ''d'') = Some ''o1.sentry.io''"
    by code_simp
  moreover have "lower ''*'' = ''*''"
    by (simp add: lower_def lower_char_def is_upper_def code_def)
  ultimately show ?thesis
    by (intro conjunct2 [OF conjunct2 [OF star_list_depends_on_sentry]]) auto
qed

end
