(* ===== verification/Grants.thy ===== *)
theory Grants
  imports Domains
begin

text \<open>
  The grant store, \<^verbatim>\<open>packages/server/src/gateway/permissions/grant-store.ts\<close>, with
  \<^verbatim>\<open>inferGrantKind\<close> of \<^verbatim>\<open>packages/core/src/agent-store.ts\<close>. The table \<^verbatim>\<open>public.grants\<close> is a
  list of rows, unique by organisation, agent, kind and pattern; a query against a database
  that fails is the table \<open>None\<close>, and takes the \<^verbatim>\<open>catch\<close> branch of the code. \<open>als\<close> is the
  organisation of the ambient \<^verbatim>\<open>orgContext\<close>, \<open>now\<close> the clock.
\<close>

section \<open>Data\<close>

datatype grant_kind = Domain_Kind | Mcp_Tool

record grant_row =
  g_org :: string
  g_agent :: string
  g_kind :: grant_kind
  g_pattern :: string
  g_expires :: "ms option"
  g_granted :: ms
  g_denied :: bool

datatype grant_error = Org_Required

definition inferGrantKind :: "string \<Rightarrow> grant_kind" where
  "inferGrantKind pattern = (if starts_with pattern ''/'' then Mcp_Tool else Domain_Kind)"

section \<open>Patterns that can satisfy a lookup\<close>

definition global_tool_pattern :: string where
  "global_tool_pattern = ''/mcp/*/tools/*''"

definition isGlobalToolAutoApprovalPattern :: "(string \<Rightarrow> string) \<Rightarrow> string \<Rightarrow> bool" where
  "isGlobalToolAutoApprovalPattern dta pattern \<longleftrightarrow>
     normalizeDomainPattern dta pattern = global_tool_pattern"

definition isSpecificMcpToolPattern :: "(string \<Rightarrow> string) \<Rightarrow> string \<Rightarrow> bool" where
  "isSpecificMcpToolPattern dta pattern =
     (let parts = split_on CHR ''/'' (normalizeDomainPattern dta pattern) in
      length parts = 5 \<and> parts ! 0 = [] \<and> parts ! 1 = ''mcp'' \<and> parts ! 2 \<noteq> [] \<and>
      parts ! 3 = ''tools'' \<and> parts ! 4 \<noteq> [] \<and> parts ! 2 \<noteq> ''*'' \<and> parts ! 4 \<noteq> ''*'')"

definition getDomainGrantCandidates :: "(string \<Rightarrow> string) \<Rightarrow> string \<Rightarrow> string list" where
  "getDomainGrantCandidates dta pattern =
     (let normalized = normalizeDomainPattern dta pattern in
      if starts_with normalized ''/'' then [normalized]
      else dedupe (normalized #
             (if starts_with normalized ''.'' then [''*.'' @ drop 1 normalized] else [])))"

text \<open>\<^verbatim>\<open>s.lastIndexOf(c)\<close>, \<open>None\<close> for \<open>-1\<close>.\<close>

definition lastIndexOf :: "char \<Rightarrow> string \<Rightarrow> nat option" where
  "lastIndexOf c s =
     (case filter (\<lambda>i. s ! i = c) [0..<length s] of [] \<Rightarrow> None | i # is \<Rightarrow> Some (last (i # is)))"

definition buildGrantCandidates ::
    "(string \<Rightarrow> string) \<Rightarrow> string \<Rightarrow> grant_kind \<Rightarrow> string list" where
  "buildGrantCandidates dta pattern kind =
     getDomainGrantCandidates dta pattern
     @ (if kind = Mcp_Tool
        then (case lastIndexOf CHR ''/'' pattern of None \<Rightarrow> []
              | Some i \<Rightarrow> if 0 < i then [take i pattern @ ''/*''] else [])
             @ (if isSpecificMcpToolPattern dta pattern then [global_tool_pattern] else [])
        else [])
     @ (if kind = Domain_Kind
        then (let parts = split_on CHR ''.'' pattern in
              if 2 < length parts
              then (let tail = join ''.'' (drop 1 parts) in
                    [normalizeDomainPattern dta (''.'' @ tail),
                     normalizeDomainPattern dta (''*.'' @ tail)])
              else [])
        else [])"

section \<open>The table and its operations\<close>

definition row_key :: "grant_row \<Rightarrow> string \<times> string \<times> grant_kind \<times> string" where
  "row_key r = (g_org r, g_agent r, g_kind r, g_pattern r)"

fun upsert :: "grant_row \<Rightarrow> grant_row list \<Rightarrow> grant_row list" where
  "upsert r [] = [r]"
| "upsert r (x # xs) =
     (if row_key x = row_key r
      then x\<lparr>g_expires := g_expires r, g_granted := g_granted r, g_denied := g_denied r\<rparr> # xs
      else x # upsert r xs)"

definition active :: "ms \<Rightarrow> grant_row \<Rightarrow> bool" where
  "active now r \<longleftrightarrow> (case g_expires r of None \<Rightarrow> True | Some e \<Rightarrow> now < e)"

definition orgScope :: "string option \<Rightarrow> grant_row \<Rightarrow> bool" where
  "orgScope orgId r \<longleftrightarrow> (if truthy orgId then g_org r = the orgId else True)"

definition org_or_ambient :: "string option \<Rightarrow> string option \<Rightarrow> string option" where
  "org_or_ambient organizationId als = (case organizationId of Some x \<Rightarrow> Some x | None \<Rightarrow> als)"

definition grant ::
    "(string \<Rightarrow> string) \<Rightarrow> string option \<Rightarrow> ms \<Rightarrow> string \<Rightarrow> string \<Rightarrow> ms option \<Rightarrow> bool option
       \<Rightarrow> string option \<Rightarrow> grant_row list \<Rightarrow> grant_error + grant_row list" where
  "grant dta als now agentId pattern expiresAt denied organizationId db =
     (let pattern = normalizeDomainPattern dta pattern;
          kind = inferGrantKind pattern;
          orgId = org_or_ambient organizationId als in
      if \<not> truthy orgId then Inl Org_Required
      else Inr (upsert \<lparr>g_org = the orgId, g_agent = agentId, g_kind = kind,
                  g_pattern = pattern, g_expires = expiresAt, g_granted = now,
                  g_denied = (case denied of None \<Rightarrow> False | Some d \<Rightarrow> d)\<rparr> db))"

definition grant_rows ::
    "ms \<Rightarrow> string \<Rightarrow> grant_kind \<Rightarrow> string list \<Rightarrow> string option \<Rightarrow> grant_row list \<Rightarrow> grant_row list"
where
  "grant_rows now agentId kind candidates orgId db =
     filter (\<lambda>r. g_agent r = agentId \<and> g_kind r = kind \<and> g_pattern r \<in> set candidates
               \<and> active now r \<and> orgScope orgId r) db"

fun first_candidate :: "string list \<Rightarrow> grant_row list \<Rightarrow> grant_row option" where
  "first_candidate [] rows = None"
| "first_candidate (c # cs) rows =
     (case find (\<lambda>r. g_pattern r = c) rows of Some r \<Rightarrow> Some r
      | None \<Rightarrow> first_candidate cs rows)"

definition hasGrant ::
    "(string \<Rightarrow> string) \<Rightarrow> string option \<Rightarrow> ms \<Rightarrow> grant_row list option \<Rightarrow> string \<Rightarrow> string
       \<Rightarrow> string option \<Rightarrow> bool" where
  "hasGrant dta als now db agentId pattern organizationId =
     (let pattern = normalizeDomainPattern dta pattern;
          kind = inferGrantKind pattern;
          orgId = org_or_ambient organizationId als;
          candidates = buildGrantCandidates dta pattern kind in
      case db of None \<Rightarrow> False
      | Some table \<Rightarrow>
         (let rows = grant_rows now agentId kind candidates orgId table in
          if length rows = 0 then False
          else case find (\<lambda>r. g_pattern r = pattern) rows of
                 Some exact \<Rightarrow> \<not> g_denied exact
               | None \<Rightarrow> (case first_candidate candidates rows of
                            Some match \<Rightarrow> \<not> g_denied match
                          | None \<Rightarrow> \<not> g_denied (hd rows))))"

definition isDenied ::
    "(string \<Rightarrow> string) \<Rightarrow> string option \<Rightarrow> ms \<Rightarrow> grant_row list option \<Rightarrow> string \<Rightarrow> string
       \<Rightarrow> string option \<Rightarrow> bool" where
  "isDenied dta als now db agentId pattern organizationId =
     (let pattern = normalizeDomainPattern dta pattern;
          kind = inferGrantKind pattern;
          candidates = buildGrantCandidates dta pattern kind;
          orgId = org_or_ambient organizationId als in
      case db of None \<Rightarrow> False
      | Some table \<Rightarrow>
         0 < length (filter g_denied (grant_rows now agentId kind candidates orgId table)))"

record grant_info =
  gi_pattern :: string
  gi_kind :: grant_kind
  gi_expiresAt :: "ms option"
  gi_grantedAt :: ms
  gi_denied :: bool

definition listGrants ::
    "string option \<Rightarrow> ms \<Rightarrow> grant_row list option \<Rightarrow> string \<Rightarrow> string option \<Rightarrow> grant_info list"
where
  "listGrants als now db agentId organizationId =
     (let orgId = org_or_ambient organizationId als in
      case db of None \<Rightarrow> []
      | Some table \<Rightarrow>
          map (\<lambda>r. \<lparr>gi_pattern = g_pattern r, gi_kind = g_kind r, gi_expiresAt = g_expires r,
                    gi_grantedAt = g_granted r, gi_denied = g_denied r\<rparr>)
            (sort_key (\<lambda>r. - g_granted r)
              (filter (\<lambda>r. g_agent r = agentId \<and> active now r \<and> orgScope orgId r) table)))"

definition revoke ::
    "(string \<Rightarrow> string) \<Rightarrow> string option \<Rightarrow> string \<Rightarrow> string \<Rightarrow> string option
       \<Rightarrow> grant_row list \<Rightarrow> grant_row list" where
  "revoke dta als agentId pattern organizationId db =
     (let candidates = getDomainGrantCandidates dta pattern;
          kind = inferGrantKind pattern;
          orgId = org_or_ambient organizationId als in
      filter (\<lambda>r. \<not> (g_agent r = agentId \<and> g_kind r = kind \<and> g_pattern r \<in> set candidates
                    \<and> orgScope orgId r)) db)"

definition sweepExpiredGrants :: "ms \<Rightarrow> grant_row list \<Rightarrow> nat \<times> grant_row list" where
  "sweepExpiredGrants now db =
     (length (filter (\<lambda>r. \<not> active now r) db), filter (active now) db)"

section \<open>Lemmas\<close>

definition grants_wf :: "grant_row list \<Rightarrow> bool" where
  "grants_wf db \<longleftrightarrow> distinct (map row_key db)"

lemma row_key_update [simp]:
  "row_key (x\<lparr>g_expires := e, g_granted := t, g_denied := d\<rparr>) = row_key x"
  by (simp add: row_key_def)

lemma keys_upsert:
  "map row_key (upsert r db) =
     (if row_key r \<in> set (map row_key db) then map row_key db else map row_key db @ [row_key r])"
  by (induction db) auto

lemma grants_wf_upsert: "grants_wf db \<Longrightarrow> grants_wf (upsert r db)"
  by (simp add: grants_wf_def keys_upsert)

lemma grants_wf_filter: "grants_wf db \<Longrightarrow> grants_wf (filter P db)"
  unfolding grants_wf_def by (rule distinct_map_filter)

lemma same_row:
  "grants_wf db \<Longrightarrow> r \<in> set db \<Longrightarrow> r' \<in> set db \<Longrightarrow> row_key r = row_key r' \<Longrightarrow> r = r'"
  unfolding grants_wf_def by (metis distinct_map inj_onD)

lemma upsert_in: "r \<in> set (upsert r db)"
proof (induction db)
  case (Cons x xs)
  show ?case
  proof (cases "row_key x = row_key r")
    case True
    then have "x\<lparr>g_expires := g_expires r, g_granted := g_granted r, g_denied := g_denied r\<rparr> = r"
      by (cases x; cases r) (simp add: row_key_def)
    with True show ?thesis by simp
  qed (simp add: Cons.IH)
qed simp

lemma upsert_other:
  "row_key x \<noteq> row_key r \<Longrightarrow> x \<in> set (upsert r db) \<longleftrightarrow> x \<in> set db"
  by (induction db) auto

lemma normalize_path: "starts_with (trim p) ''/'' \<Longrightarrow> normalizeDomainPattern dta p = trim p"
  by (simp add: normalizeDomainPattern_def Let_def)

lemma normalize_path_idem:
  "starts_with (trim p) ''/'' \<Longrightarrow>
     normalizeDomainPattern dta (normalizeDomainPattern dta p) = normalizeDomainPattern dta p"
  by (simp add: normalize_path)

lemma candidates_self:
  "normalizeDomainPattern dta p \<in> set (getDomainGrantCandidates dta p)"
  by (simp add: getDomainGrantCandidates_def Let_def)

lemma candidates_build:
  "set (getDomainGrantCandidates dta p) \<subseteq> set (buildGrantCandidates dta p k)"
  by (auto simp: buildGrantCandidates_def)

lemma grant_rows_restrict:
  "truthy orgId \<Longrightarrow>
     grant_rows now a kind cs orgId (filter (\<lambda>r. g_org r = the orgId \<and> g_agent r = a) db)
     = grant_rows now a kind cs orgId db"
  by (induction db) (auto simp: grant_rows_def orgScope_def)

lemma first_candidate_find:
  "first_candidate cs rows = Some r \<Longrightarrow> r \<in> set rows \<and> g_pattern r \<in> set cs"
  by (induction cs) (auto split: option.splits dest: find_SomeD)

lemma first_candidate_None:
  "first_candidate cs rows = None \<longleftrightarrow> (\<forall>r \<in> set rows. g_pattern r \<notin> set cs)"
  by (induction cs) (auto split: option.splits simp: find_None_iff dest: find_SomeD)

text \<open>The \<^verbatim>\<open>return !rows[0]?.denied\<close> at the end of \<^verbatim>\<open>hasGrant\<close> is never reached.\<close>

lemma grant_rows_candidate:
  assumes "grant_rows now a k cs orgId db \<noteq> []"
  shows "first_candidate cs (grant_rows now a k cs orgId db) \<noteq> None"
proof -
  from assms obtain r where "r \<in> set (grant_rows now a k cs orgId db)"
    by (cases "grant_rows now a k cs orgId db") auto
  then show ?thesis by (auto simp: first_candidate_None grant_rows_def)
qed

section \<open>The interface the egress proxy uses\<close>

text \<open>
  The proxy asks a permission store two questions and relies on the answers being scoped:
  only the rows of the asking organisation and agent matter. \<open>restrict\<close> keeps those rows.
\<close>

locale permission_store =
  fixes has :: "'s \<Rightarrow> string \<Rightarrow> string \<Rightarrow> string option \<Rightarrow> bool"
    and denied :: "'s \<Rightarrow> string \<Rightarrow> string \<Rightarrow> string option \<Rightarrow> bool"
    and restrict :: "string \<Rightarrow> string \<Rightarrow> 's \<Rightarrow> 's"
  assumes has_scoped: "org \<noteq> [] \<Longrightarrow> has (restrict org a s) a p (Some org) = has s a p (Some org)"
    and denied_scoped:
      "org \<noteq> [] \<Longrightarrow> denied (restrict org a s) a p (Some org) = denied s a p (Some org)"
begin

lemma same_scope:
  "org \<noteq> [] \<Longrightarrow> restrict org a s = restrict org a s' \<Longrightarrow>
     has s a p (Some org) = has s' a p (Some org) \<and>
     denied s a p (Some org) = denied s' a p (Some org)"
  by (metis has_scoped denied_scoped)

end

definition restrict_grants ::
    "string \<Rightarrow> string \<Rightarrow> grant_row list option \<Rightarrow> grant_row list option" where
  "restrict_grants org a db = map_option (filter (\<lambda>r. g_org r = org \<and> g_agent r = a)) db"

lemma hasGrant_scoped:
  assumes "org \<noteq> []"
  shows "hasGrant dta als now (restrict_grants org a db) a p (Some org)
       = hasGrant dta als now db a p (Some org)"
  using assms grant_rows_restrict [of "Some org" now a]
  by (cases db)
     (simp_all add: hasGrant_def restrict_grants_def org_or_ambient_def Let_def
        cong: option.case_cong if_cong)

lemma isDenied_scoped:
  assumes "org \<noteq> []"
  shows "isDenied dta als now (restrict_grants org a db) a p (Some org)
       = isDenied dta als now db a p (Some org)"
  using assms grant_rows_restrict [of "Some org" now a]
  by (cases db) (simp_all add: isDenied_def restrict_grants_def org_or_ambient_def Let_def)

interpretation grants: permission_store
  "hasGrant dta als now" "isDenied dta als now" restrict_grants
  for dta als now
  by unfold_locales (simp_all add: hasGrant_scoped isDenied_scoped)

section \<open>Properties\<close>

lemma org_rows_key:
  assumes "r \<in> set (grant_rows now a k cs (Some org) db)" and "org \<noteq> []"
    and "g_pattern r = p"
  shows "r \<in> set db \<and> row_key r = (org, a, k, p)"
  using assms by (auto simp: grant_rows_def orgScope_def row_key_def)

lemma grants_rt:
  assumes wf: "grants_wf db"
    and g: "grant dta als t a p expiresAt d (Some org) db = Inr db'"
    and stable: "normalizeDomainPattern dta (normalizeDomainPattern dta p)
                   = normalizeDomainPattern dta p"
    and live: "case expiresAt of None \<Rightarrow> True | Some e \<Rightarrow> now < e"
  shows "hasGrant dta als now (Some db') a p (Some org) = (d \<noteq> Some True)
       \<and> (d = Some True \<longrightarrow> isDenied dta als now (Some db') a p (Some org))"
proof -
  let ?p = "normalizeDomainPattern dta p"
  let ?k = "inferGrantKind ?p"
  let ?cs = "buildGrantCandidates dta ?p ?k"
  define r where "r = \<lparr>g_org = org, g_agent = a, g_kind = ?k, g_pattern = ?p,
    g_expires = expiresAt, g_granted = t, g_denied = (case d of None \<Rightarrow> False | Some b \<Rightarrow> b)\<rparr>"
  from g have org: "org \<noteq> []" and db': "db' = upsert r db"
    by (auto simp: grant_def Let_def org_or_ambient_def r_def split: if_splits)
  let ?rows = "grant_rows now a ?k ?cs (Some org) db'"
  have "?p \<in> set ?cs"
    using candidates_self [of dta ?p] candidates_build [of dta ?p ?k] by (auto simp: stable)
  then have r: "r \<in> set ?rows"
    using upsert_in [of r db] org live
    by (auto simp: db' grant_rows_def r_def active_def orgScope_def)
  have "y = r" if y: "y \<in> set ?rows" "g_pattern y = ?p" for y
    using same_row [OF grants_wf_upsert [OF wf, of r]] org_rows_key [OF y(1) org y(2)]
      upsert_in [of r db] by (auto simp: db' r_def row_key_def)
  then have "find (\<lambda>x. g_pattern x = ?p) ?rows = Some r"
    by (intro find_unique [OF r]) (auto simp: r_def)
  moreover from r have "?rows \<noteq> []" by auto
  ultimately have "hasGrant dta als now (Some db') a p (Some org) = (\<not> g_denied r)"
    by (simp add: hasGrant_def Let_def org_or_ambient_def)
  moreover have "isDenied dta als now (Some db') a p (Some org)" if "g_denied r"
    using r that by (auto simp: isDenied_def Let_def org_or_ambient_def filter_empty_conv)
  ultimately show ?thesis by (auto simp: r_def split: option.splits)
qed

text \<open>
  a grant is found again: after \<open>grant\<close> of a pattern for an agent in an organisation, and
  until it expires, \<open>hasGrant\<close> for the same pattern answers according to that grant's
  \<open>denied\<close> flag, whatever wildcard rows the table holds, and a denial is seen by \<open>isDenied\<close>.
  The pattern's normal form must be stable under normalization (an MCP path always is).
\<close>

theorem grant_then_hasGrant:
  assumes "grants_wf db"
    and "grant dta als t a p expiresAt d (Some org) db = Inr db'"
    and "normalizeDomainPattern dta (normalizeDomainPattern dta p) = normalizeDomainPattern dta p"
    and "case expiresAt of None \<Rightarrow> True | Some e \<Rightarrow> now < e"
  shows "hasGrant dta als now (Some db') a p (Some org) = (d \<noteq> Some True)
       \<and> (d = Some True \<longrightarrow> isDenied dta als now (Some db') a p (Some org))"
  using assms by (rule grants_rt)

theorem grant_then_hasGrant_witness:
  "\<exists>db'. grant id None 5 ''ag'' ''/mcp/gmail/tools/send'' (Some 100) None (Some ''org'')
           [\<lparr>g_org = ''org'', g_agent = ''ag'', g_kind = Mcp_Tool, g_pattern = ''/mcp/gmail/tools/*'',
             g_expires = None, g_granted = 1, g_denied = True\<rparr>] = Inr db'
     \<and> hasGrant id None 50 (Some db') ''ag'' ''/mcp/gmail/tools/send'' (Some ''org'')"
proof -
  let ?p = "''/mcp/gmail/tools/send''"
  let ?db = "[\<lparr>g_org = ''org'', g_agent = ''ag'', g_kind = Mcp_Tool,
    g_pattern = ''/mcp/gmail/tools/*'', g_expires = None, g_granted = 1, g_denied = True\<rparr>]"
  obtain db' where db': "grant id None 5 ''ag'' ?p (Some 100) None (Some ''org'') ?db = Inr db'"
    by (simp add: grant_def Let_def org_or_ambient_def)
  moreover have "hasGrant id None 50 (Some db') ''ag'' ?p (Some ''org'')"
    using grant_then_hasGrant [OF _ db', of 50]
    by (simp add: grants_wf_def normalize_path_idem trim_def is_space_def code_def starts_with_def)
  ultimately show ?thesis by blast
qed

text \<open>
  C33: tenants do not see each other's grants: granting or revoking under one organisation
  changes neither \<open>hasGrant\<close> nor \<open>isDenied\<close> of any pattern for an agent of another
  organisation, even when both organisations use the same agent id.
\<close>

theorem grants_org_isolation:
  assumes "org \<noteq> org'" and "org \<noteq> []" and "org' \<noteq> []"
  shows "(\<forall>db'. grant dta als t a p expiresAt d (Some org') db = Inr db' \<longrightarrow>
            hasGrant dta als now (Some db') b q (Some org) = hasGrant dta als now (Some db) b q (Some org) \<and>
            isDenied dta als now (Some db') b q (Some org) = isDenied dta als now (Some db) b q (Some org))
       \<and> hasGrant dta als now (Some (revoke dta als a p (Some org') db)) b q (Some org)
           = hasGrant dta als now (Some db) b q (Some org)
       \<and> isDenied dta als now (Some (revoke dta als a p (Some org') db)) b q (Some org)
           = isDenied dta als now (Some db) b q (Some org)"
proof -
  have ups: "filter (\<lambda>x. g_org x = org \<and> g_agent x = b) (upsert r db)
           = filter (\<lambda>x. g_org x = org \<and> g_agent x = b) db" if "g_org r = org'" for r
    using that assms(1) by (induction db) (auto simp: row_key_def)
  have rev: "filter (\<lambda>x. g_org x = org \<and> g_agent x = b) (revoke dta als a p (Some org') db)
           = filter (\<lambda>x. g_org x = org \<and> g_agent x = b) db"
    using assms(1,3)
    by (auto simp: revoke_def Let_def org_or_ambient_def orgScope_def intro!: filter_cong)
  have "restrict_grants org b (Some db') = restrict_grants org b (Some db)"
    if "grant dta als t a p expiresAt d (Some org') db = Inr db'" for db'
    using that ups
    by (auto simp: grant_def Let_def org_or_ambient_def restrict_grants_def split: if_splits)
  moreover have "restrict_grants org b (Some (revoke dta als a p (Some org') db))
      = restrict_grants org b (Some db)"
    by (simp add: restrict_grants_def rev)
  ultimately show ?thesis
    using grants.same_scope [OF assms(2), of _ _ _ dta als now] by blast
qed

theorem grants_org_isolation_witness:
  "\<not> hasGrant id None 0 (Some (upsert \<lparr>g_org = ''o2'', g_agent = ''ag'', g_kind = Domain_Kind,
       g_pattern = ''x.io'', g_expires = None, g_granted = 0, g_denied = False\<rparr> []))
     ''ag'' ''x.io'' (Some ''o1'')"
proof -
  let ?r = "\<lparr>g_org = ''o2'', g_agent = ''ag'', g_kind = Domain_Kind,
       g_pattern = ''x.io'', g_expires = None, g_granted = 0, g_denied = False\<rparr>"
  have "grant id None 0 ''ag'' ''x.io'' None None (Some ''o2'') [] = Inr (upsert ?r [])"
    by code_simp
  moreover have "''o1'' \<noteq> ''o2''" by simp
  ultimately have "hasGrant id None 0 (Some (upsert ?r [])) ''ag'' ''x.io'' (Some ''o1'')
      = hasGrant id None 0 (Some []) ''ag'' ''x.io'' (Some ''o1'')"
    using grants_org_isolation [of "''o1''" "''o2''"] by blast
  then show ?thesis by (simp add: hasGrant_def grant_rows_def Let_def)
qed

text \<open>
  \<open>revoke\<close> of a pattern written in its normal form withdraws the agent's grant: nothing
  but a wildcard parent can still answer, so when no other candidate row is active the agent
  is neither granted nor denied the pattern.
\<close>

theorem revoke_withdraws:
  assumes "normalizeDomainPattern dta p = p" and "org \<noteq> []"
    and "\<And>r. r \<in> set (grant_rows now a (inferGrantKind p)
                     (buildGrantCandidates dta p (inferGrantKind p)) (Some org) db) \<Longrightarrow>
           g_pattern r = p"
  shows "\<not> hasGrant dta als now (Some (revoke dta als a p (Some org) db)) a p (Some org)
       \<and> \<not> isDenied dta als now (Some (revoke dta als a p (Some org) db)) a p (Some org)"
proof -
  have p: "p \<in> set (getDomainGrantCandidates dta p)"
    using candidates_self [of dta p] by (simp add: assms(1))
  have "grant_rows now a (inferGrantKind p) (buildGrantCandidates dta p (inferGrantKind p))
          (Some org) (revoke dta als a p (Some org) db) = []"
    using assms(3) p
    by (auto simp: grant_rows_def revoke_def Let_def org_or_ambient_def filter_empty_conv)
  then show ?thesis
    by (simp_all add: hasGrant_def isDenied_def assms(1) Let_def org_or_ambient_def)
qed

abbreviation sample_row :: "grant_kind \<Rightarrow> string \<Rightarrow> bool \<Rightarrow> grant_row" where
  "sample_row k p d \<equiv> \<lparr>g_org = ''org'', g_agent = ''ag'', g_kind = k, g_pattern = p,
     g_expires = None, g_granted = 0, g_denied = d\<rparr>"

theorem revoke_withdraws_witness:
  "hasGrant id None 0 (Some [sample_row Domain_Kind ''x.io'' False]) ''ag'' ''x.io'' (Some ''org'')
   \<and> \<not> hasGrant id None 0
        (Some (revoke id None ''ag'' ''x.io'' (Some ''org'') [sample_row Domain_Kind ''x.io'' False]))
        ''ag'' ''x.io'' (Some ''org'')"
proof
  show "hasGrant id None 0 (Some [sample_row Domain_Kind ''x.io'' False]) ''ag'' ''x.io'' (Some ''org'')"
    by code_simp
  have "normalizeDomainPattern id ''x.io'' = ''x.io''" by code_simp
  then show "\<not> hasGrant id None 0
        (Some (revoke id None ''ag'' ''x.io'' (Some ''org'') [sample_row Domain_Kind ''x.io'' False]))
        ''ag'' ''x.io'' (Some ''org'')"
    by (intro conjunct1 [OF revoke_withdraws]) (auto simp: grant_rows_def split: if_splits)
qed

text \<open>
  \<open>revoke\<close> infers the kind from the pattern as written, \<open>grant\<close> from its trimmed form. So
  for an MCP tool path with a leading blank, \<open>grant\<close> stores a row that allows the tool and
  \<open>revoke\<close> with the very same argument leaves the table as it was.
\<close>

theorem revoke_untrimmed_keeps_grant:
  assumes "starts_with path ''/''" and "trim path = path"
    and "grants_wf db" and "\<And>r. r \<in> set db \<Longrightarrow> g_kind r = Domain_Kind \<Longrightarrow> g_pattern r \<noteq> path"
    and "grant dta als t a ('' '' @ path) None None (Some org) db = Inr db'"
  shows "revoke dta als a ('' '' @ path) (Some org) db' = db'
       \<and> hasGrant dta als now (Some (revoke dta als a ('' '' @ path) (Some org) db')) a path (Some org)"
proof -
  have tr: "trim (CHR '' '' # path) = path"
    using assms(2) by (simp add: trim_def is_space_def code_def)
  have n: "normalizeDomainPattern dta ('' '' @ path) = path" "normalizeDomainPattern dta path = path"
    using assms(1,2) by (simp_all add: normalize_path tr)
  have k: "inferGrantKind ('' '' @ path) = Domain_Kind" "inferGrantKind path = Mcp_Tool"
    using assms(1) by (simp_all add: inferGrantKind_def starts_with_def)
  have cs: "getDomainGrantCandidates dta ('' '' @ path) = [path]"
    using assms(1) n by (simp add: getDomainGrantCandidates_def Let_def)
  have g': "grant dta als t a path None None (Some org) db = Inr db'"
    using assms(5) n by (simp add: grant_def Let_def split: if_splits)
  have "g_kind r = Domain_Kind \<longrightarrow> g_pattern r \<noteq> path" if r: "r \<in> set db'" for r
  proof (cases "row_key r = (org, a, Mcp_Tool, path)")
    case False
    with r g' k have "r \<in> set db"
      by (auto simp: grant_def n Let_def org_or_ambient_def row_key_def split: if_splits
            dest!: upsert_other [THEN iffD1, rotated])
    with assms(4) show ?thesis by blast
  qed (auto simp: row_key_def)
  then have "revoke dta als a ('' '' @ path) (Some org) db' = db'"
    unfolding revoke_def Let_def k cs by (intro filter_True) auto
  moreover have "hasGrant dta als now (Some db') a path (Some org)"
    using grants_rt [OF assms(3) g', of now] by (simp add: n)
  ultimately show ?thesis by simp
qed

theorem revoke_untrimmed_keeps_grant_witness:
  "\<exists>db'. grant id None 0 ''ag'' '' /mcp/gmail/tools/send'' None None (Some ''org'') [] = Inr db'
     \<and> hasGrant id None 9 (Some (revoke id None ''ag'' '' /mcp/gmail/tools/send'' (Some ''org'') db'))
          ''ag'' ''/mcp/gmail/tools/send'' (Some ''org'')"
proof -
  let ?path = "''/mcp/gmail/tools/send''"
  obtain db' where db': "grant id None 0 ''ag'' ('' '' @ ?path) None None (Some ''org'') [] = Inr db'"
    by (simp add: grant_def Let_def org_or_ambient_def)
  have "starts_with ?path ''/''" "trim ?path = ?path" by code_simp+
  then have "hasGrant id None 9 (Some (revoke id None ''ag'' ('' '' @ ?path) (Some ''org'') db'))
      ''ag'' ?path (Some ''org'')"
    using revoke_untrimmed_keeps_grant [OF _ _ _ _ db', where now = 9]
    by (auto simp: grants_wf_def)
  with db' show ?thesis by auto
qed

text \<open>
  A wildcard row reaches one level only: a denial of \<open>.example.com\<close> stops \<open>b.example.com\<close>, but
  neither \<open>a.b.example.com\<close> nor \<open>example.com\<close>, though the same pattern on the process's deny
  list stops all three.
\<close>

theorem wildcard_denial_one_level:
  "isDenied id None 0 (Some [sample_row Domain_Kind ''.example.com'' True]) ''ag'' ''b.example.com'' (Some ''org'')
   \<and> \<not> isDenied id None 0 (Some [sample_row Domain_Kind ''.example.com'' True]) ''ag'' ''a.b.example.com'' (Some ''org'')
   \<and> \<not> isDenied id None 0 (Some [sample_row Domain_Kind ''.example.com'' True]) ''ag'' ''example.com'' (Some ''org'')
   \<and> matchesDomainPattern ''b.example.com'' [''.example.com'']
   \<and> matchesDomainPattern ''a.b.example.com'' [''.example.com'']
   \<and> matchesDomainPattern ''example.com'' [''.example.com'']"
  by (intro conjI) code_simp+

end
