(* ===== verification/Policies.thy ===== *)
theory Policies
  imports Domains
begin

text \<open>
  Judge policies per agent: \<^verbatim>\<open>packages/server/src/gateway/permissions/policy-store.ts\<close>.
  The store is a Map from the composed key \<^verbatim>\<open>org|agent\<close> to the prepared bundle; SHA-256 in
  hexadecimal is the parameter \<open>sha\<close>. The record of named judges is an association list (the
  members a JavaScript object inherits from its prototype are not part of it).
\<close>

section \<open>Data\<close>

record judge_rule =
  jr_domain :: string
  jr_judge :: "string option"

record policy_bundle =
  pb_judgedDomains :: "judge_rule list"
  pb_judges :: "(string, string) jmap"
  pb_extraPolicy :: "string option"
  pb_judgeModel :: "string option"

record prepared_judge =
  pj_policy :: string
  pj_policyHash :: string

record prepared_bundle =
  pr_judgedDomains :: "judge_rule list"
  pr_preparedJudges :: "(string, prepared_judge) jmap"
  pr_judgeModel :: "string option"

record resolved_rule =
  rr_judgeName :: string
  rr_policy :: string
  rr_policyHash :: string
  rr_judgeModel :: "string option"

record egress_config =
  ec_extraPolicy :: "string option"
  ec_judgeModel :: "string option"

type_synonym policy_store = "(string, prepared_bundle) jmap"

section \<open>Operations\<close>

definition composeKey :: "string \<Rightarrow> string \<Rightarrow> string" where
  "composeKey organizationId agentId = organizationId @ ''|'' @ agentId"

definition hashPolicy :: "(string \<Rightarrow> string) \<Rightarrow> string \<Rightarrow> string \<Rightarrow> string \<Rightarrow> string \<Rightarrow> string" where
  "hashPolicy sha organizationId agentId judgeName policy =
     take 16 (sha (organizationId @ '' '' @ agentId @ '' '' @ judgeName @ '' '' @ policy))"

definition composed_policy :: "string option \<Rightarrow> string \<Rightarrow> string" where
  "composed_policy extraPolicy rawPolicy =
     (if truthy extraPolicy
      then trim rawPolicy @ [CHR 0x0A, CHR 0x0A] @ ''Additional operator policy:'' @ [CHR 0x0A]
             @ trim (the extraPolicy)
      else trim rawPolicy)"

definition prepareBundle ::
    "(string \<Rightarrow> string) \<Rightarrow> string \<Rightarrow> string \<Rightarrow> policy_bundle \<Rightarrow> prepared_bundle" where
  "prepareBundle sha organizationId agentId bundle =
     \<lparr>pr_judgedDomains = pb_judgedDomains bundle,
      pr_preparedJudges = fold (\<lambda>(name, rawPolicy) acc.
          let composed = composed_policy (pb_extraPolicy bundle) rawPolicy in
          AList.update name
            \<lparr>pj_policy = composed,
             pj_policyHash = hashPolicy sha organizationId agentId name composed\<rparr> acc)
        (pb_judges bundle) [],
      pr_judgeModel = (if truthy (pb_judgeModel bundle) then pb_judgeModel bundle else None)\<rparr>"

fun set_rule :: "(string \<Rightarrow> string) \<Rightarrow> judge_rule \<Rightarrow> (string, judge_rule) jmap
    \<Rightarrow> (string, judge_rule) jmap" where
  "set_rule dta r acc =
     (if jr_domain r = [] then acc
      else let normalized = normalizeDomainPattern dta (jr_domain r) in
        AList.update normalized
          \<lparr>jr_domain = normalized,
           jr_judge = (if truthy (jr_judge r) then jr_judge r else None)\<rparr> acc)"

definition buildPolicyBundle ::
    "(string \<Rightarrow> string) \<Rightarrow> judge_rule list option \<Rightarrow> (string, string) jmap option
       \<Rightarrow> egress_config option \<Rightarrow> policy_bundle option" where
  "buildPolicyBundle dta judgedDomains judges egressConfig =
     (let rules = map snd (fold (set_rule dta)
            (case judgedDomains of None \<Rightarrow> [] | Some rs \<Rightarrow> rs) []);
          present = (\<lambda>f. case egressConfig of None \<Rightarrow> None
                     | Some c \<Rightarrow> (if truthy (f c) then f c else None)) in
      if length rules = 0 then None
      else Some \<lparr>pb_judgedDomains = rules,
                 pb_judges = (case judges of None \<Rightarrow> [] | Some j \<Rightarrow> j),
                 pb_extraPolicy = present ec_extraPolicy,
                 pb_judgeModel = present ec_judgeModel\<rparr>)"

fun wildcard_match :: "string \<Rightarrow> judge_rule list \<Rightarrow> judge_rule option" where
  "wildcard_match normalized [] = None"
| "wildcard_match normalized (rule # rules) =
     (let suffix = lower (drop 1 (jr_domain rule)) in
      if normalized = suffix \<or> ends_with normalized (''.'' @ suffix) then Some rule
      else wildcard_match normalized rules)"

definition findMatchingRule :: "string \<Rightarrow> judge_rule list \<Rightarrow> judge_rule option" where
  "findMatchingRule hostname rules =
     (let normalized = lower hostname in
      case find (\<lambda>r. \<not> starts_with (jr_domain r) ''.'' \<and> lower (jr_domain r) = normalized) rules of
        Some exact \<Rightarrow> Some exact
      | None \<Rightarrow>
          wildcard_match normalized
            (sort_key (\<lambda>r. - int (length (jr_domain r)))
              (filter (\<lambda>r. starts_with (jr_domain r) ''.'') rules)))"

definition ps_set :: "(string \<Rightarrow> string) \<Rightarrow> string \<Rightarrow> string \<Rightarrow> policy_bundle \<Rightarrow> policy_store
    \<Rightarrow> policy_store" where
  "ps_set sha organizationId agentId bundle store =
     AList.update (composeKey organizationId agentId)
       (prepareBundle sha organizationId agentId bundle) store"

definition ps_clear :: "string \<Rightarrow> string \<Rightarrow> policy_store \<Rightarrow> policy_store" where
  "ps_clear organizationId agentId store = AList.delete (composeKey organizationId agentId) store"

definition ps_resolve :: "policy_store \<Rightarrow> string \<Rightarrow> string \<Rightarrow> string \<Rightarrow> resolved_rule option" where
  "ps_resolve store organizationId agentId hostname =
     (case map_of store (composeKey organizationId agentId) of
        None \<Rightarrow> None
      | Some prepared \<Rightarrow>
          if length (pr_judgedDomains prepared) = 0 then None
          else (case findMatchingRule hostname (pr_judgedDomains prepared) of
                  None \<Rightarrow> None
                | Some matched \<Rightarrow>
                    (let judgeName = (case jr_judge matched of None \<Rightarrow> ''default'' | Some j \<Rightarrow> j) in
                     case map_of (pr_preparedJudges prepared) judgeName of
                       None \<Rightarrow> None
                     | Some judge \<Rightarrow>
                         Some \<lparr>rr_judgeName = judgeName, rr_policy = pj_policy judge,
                               rr_policyHash = pj_policyHash judge,
                               rr_judgeModel = pr_judgeModel prepared\<rparr>)))"

section \<open>Lemmas\<close>

text \<open>Keys of different organisations differ when the organisation ids hold no bar.\<close>

lemma bar_prefix_inject:
  "d \<notin> set x \<Longrightarrow> d \<notin> set y \<Longrightarrow> x @ d # s = y @ d # t \<longleftrightarrow> x = y \<and> s = t"
proof (induction x arbitrary: y)
  case Nil
  then show ?case by (cases y) auto
next
  case (Cons c x)
  then show ?case by (cases y) auto
qed

lemma composeKey_inject:
  "CHR ''|'' \<notin> set o1 \<Longrightarrow> CHR ''|'' \<notin> set o2 \<Longrightarrow>
     composeKey o1 a1 = composeKey o2 a2 \<longleftrightarrow> o1 = o2 \<and> a1 = a2"
  by (simp add: composeKey_def bar_prefix_inject)

lemma wildcard_covers:
  assumes "starts_with (jr_domain r) ''.''"
  shows "(lower h = lower (drop 1 (jr_domain r))
          \<or> ends_with (lower h) (''.'' @ lower (drop 1 (jr_domain r))))
         \<longleftrightarrow> pattern_covers (jr_domain r) h"
proof -
  obtain d where d: "jr_domain r = CHR ''.'' # d"
    using assms by (auto simp: starts_with_dot_iff)
  show ?thesis
    using label_suffix [of "lower h" "lower d"] by (simp add: d pattern_covers_def lower_Cons)
qed

lemma exact_covers:
  assumes "\<not> starts_with (jr_domain r) ''.''"
  shows "lower (jr_domain r) = lower h \<longleftrightarrow> pattern_covers (jr_domain r) h"
proof (cases "jr_domain r")
  case (Cons c d)
  with assms have "c \<noteq> CHR ''.''" by (auto simp: starts_with_dot_iff)
  with Cons show ?thesis
    by (auto simp: pattern_covers_def lower_Cons lower_char_eq_dot)
qed (auto simp: pattern_covers_def)

lemma wildcard_match_find:
  assumes "\<forall>r \<in> set rs. starts_with (jr_domain r) ''.''"
  shows "wildcard_match (lower h) rs = find (\<lambda>r. pattern_covers (jr_domain r) h) rs"
  using assms
proof (induction rs)
  case (Cons r rs)
  then show ?case using wildcard_covers [of r h] by (simp add: Let_def)
qed simp

text \<open>The first hit in a list sorted by key has the least key among all hits.\<close>

lemma find_sort_key_least:
  fixes f :: "'a \<Rightarrow> 'b::linorder"
  assumes "find P (sort_key f xs) = Some x"
  shows "x \<in> set xs \<and> P x \<and> (\<forall>y \<in> set xs. P y \<longrightarrow> f x \<le> f y)"
proof -
  obtain i where i: "i < length (sort_key f xs)" "P (sort_key f xs ! i)" "x = sort_key f xs ! i"
      "\<forall>j<i. \<not> P (sort_key f xs ! j)"
    using assms by (auto simp: find_Some_iff)
  have "f x \<le> f y" if "y \<in> set xs" "P y" for y
  proof -
    from that(1) have "y \<in> set (sort_key f xs)" by simp
    then obtain j where j: "j < length (sort_key f xs)" "y = sort_key f xs ! j"
      by (metis in_set_conv_nth)
    with i(4) that(2) have "i \<le> j" by (metis leI)
    with j i have "map f (sort_key f xs) ! i \<le> map f (sort_key f xs) ! j"
      by (intro sorted_nth_mono) auto
    with i j show ?thesis by simp
  qed
  moreover from i have "x \<in> set xs" by (metis nth_mem set_sort)
  ultimately show ?thesis using i by blast
qed

lemma findMatchingRule_cases:
  "findMatchingRule h rules =
     (case find (\<lambda>r. \<not> starts_with (jr_domain r) ''.'' \<and> pattern_covers (jr_domain r) h) rules of
        Some exact \<Rightarrow> Some exact
      | None \<Rightarrow> find (\<lambda>r. pattern_covers (jr_domain r) h)
          (sort_key (\<lambda>r. - int (length (jr_domain r)))
            (filter (\<lambda>r. starts_with (jr_domain r) ''.'') rules)))"
proof -
  have "find (\<lambda>r. \<not> starts_with (jr_domain r) ''.'' \<and> lower (jr_domain r) = lower h) rules
      = find (\<lambda>r. \<not> starts_with (jr_domain r) ''.'' \<and> pattern_covers (jr_domain r) h) rules"
    using exact_covers by (intro arg_cong2 [where f = find]) auto
  then show ?thesis
    by (simp add: findMatchingRule_def Let_def wildcard_match_find cong: option.case_cong)
qed

lemma findMatchingRule_None:
  "findMatchingRule h rules = None \<longleftrightarrow> (\<forall>r \<in> set rules. \<not> pattern_covers (jr_domain r) h)"
  by (auto simp: findMatchingRule_cases find_None_iff split: option.splits dest: find_SomeD)

lemma findMatchingRule_Some:
  assumes "findMatchingRule h rules = Some r"
  shows "r \<in> set rules \<and> pattern_covers (jr_domain r) h \<and>
     (starts_with (jr_domain r) ''.'' \<longrightarrow>
        (\<forall>q \<in> set rules. pattern_covers (jr_domain q) h \<longrightarrow>
           starts_with (jr_domain q) ''.'' \<and> length (jr_domain q) \<le> length (jr_domain r)))"
proof (cases "find (\<lambda>r. \<not> starts_with (jr_domain r) ''.'' \<and> pattern_covers (jr_domain r) h) rules")
  case None
  then have only: "starts_with (jr_domain q) ''.''"
    if "q \<in> set rules" "pattern_covers (jr_domain q) h" for q
    using that by (auto simp: find_None_iff)
  from None assms have "find (\<lambda>r. pattern_covers (jr_domain r) h)
      (sort_key (\<lambda>r. - int (length (jr_domain r)))
        (filter (\<lambda>r. starts_with (jr_domain r) ''.'') rules)) = Some r"
    by (simp add: findMatchingRule_cases)
  from find_sort_key_least [OF this] only show ?thesis by auto
next
  case (Some x)
  with assms show ?thesis by (auto simp: findMatchingRule_cases dest: find_SomeD)
qed

lemma ps_resolve_cong:
  "map_of s (composeKey org a) = map_of s' (composeKey org a) \<Longrightarrow>
     ps_resolve s org a h = ps_resolve s' org a h"
  by (simp add: ps_resolve_def)

lemma prepared_judges_get:
  "map_of (fold (\<lambda>(name, raw) acc. AList.update name (f name raw) acc) js acc) n =
     (case map_of (rev js) n of Some raw \<Rightarrow> Some (f n raw) | None \<Rightarrow> map_of acc n)"
proof (induction js arbitrary: acc)
  case (Cons j js)
  then show ?case
    by (cases j) (auto simp: jm_get_set map_add_def split: option.splits)
qed simp

section \<open>Properties\<close>

text \<open>
  the rule the judge runs with is the most specific one: a rule is found exactly when
  some rule's pattern covers the host (by the label rule of the allow and deny lists); an
  exact rule is preferred to any wildcard, and among wildcards none that covers the host is
  longer than the one chosen.
\<close>

theorem findMatchingRule_most_specific:
  "case findMatchingRule h rules of
     None \<Rightarrow> \<not> matchesDomainPattern h (map jr_domain rules)
   | Some r \<Rightarrow> r \<in> set rules \<and> matchesDomainPattern h [jr_domain r] \<and>
       (starts_with (jr_domain r) ''.'' \<longrightarrow>
          (\<forall>q \<in> set rules. matchesDomainPattern h [jr_domain q] \<longrightarrow>
             starts_with (jr_domain q) ''.'' \<and> length (jr_domain q) \<le> length (jr_domain r)))"
proof (cases "findMatchingRule h rules")
  case None
  then have "\<forall>r \<in> set rules. \<not> pattern_covers (jr_domain r) h"
    by (simp only: findMatchingRule_None)
  with None show ?thesis by (simp add: matches_iff)
next
  case (Some r)
  from findMatchingRule_Some [OF this] Some show ?thesis
    by (simp add: matches_iff del: matchesDomainPattern.simps)
qed

theorem findMatchingRule_most_specific_witness:
  "findMatchingRule ''A.api.example.com''
     [\<lparr>jr_domain = ''.example.com'', jr_judge = None\<rparr>,
      \<lparr>jr_domain = ''.api.example.com'', jr_judge = Some ''strict''\<rparr>]
   = Some \<lparr>jr_domain = ''.api.example.com'', jr_judge = Some ''strict''\<rparr>
   \<and> matchesDomainPattern ''A.api.example.com'' [''.api.example.com'']"
proof -
  let ?rs = "[\<lparr>jr_domain = ''.example.com'', jr_judge = None\<rparr>,
      \<lparr>jr_domain = ''.api.example.com'', jr_judge = Some ''strict''\<rparr>]"
  have f: "findMatchingRule ''A.api.example.com'' ?rs
      = Some \<lparr>jr_domain = ''.api.example.com'', jr_judge = Some ''strict''\<rparr>"
    by code_simp
  with findMatchingRule_most_specific [of "''A.api.example.com''" ?rs] show ?thesis by simp
qed

text \<open>
  policies of different tenants are kept apart: setting or clearing the bundle of an
  agent never changes what another organisation's agent resolves, even one with the same
  agent id, provided organisation ids contain no bar (the separator of the composed key).
\<close>

theorem policy_store_tenant_isolation:
  assumes "org \<noteq> org'" and "CHR ''|'' \<notin> set org" and "CHR ''|'' \<notin> set org'"
  shows "ps_resolve (ps_set sha org' a' bundle store) org a h = ps_resolve store org a h
       \<and> ps_resolve (ps_clear org' a' store) org a h = ps_resolve store org a h"
proof -
  have "composeKey org a \<noteq> composeKey org' a'"
    using assms by (simp add: composeKey_inject)
  then show ?thesis
    by (intro conjI ps_resolve_cong) (simp_all add: ps_set_def ps_clear_def jm_simps)
qed

theorem policy_store_tenant_isolation_witness:
  "ps_resolve (ps_set (\<lambda>s. s) ''o2'' ''ag''
      \<lparr>pb_judgedDomains = [\<lparr>jr_domain = ''.x'', jr_judge = None\<rparr>], pb_judges = [(''default'', ''p'')],
       pb_extraPolicy = None, pb_judgeModel = None\<rparr> []) ''o1'' ''ag'' ''h.x'' = None"
proof -
  have "''o1'' \<noteq> ''o2''" "CHR ''|'' \<notin> set ''o1''" "CHR ''|'' \<notin> set ''o2''" by simp_all
  then have "ps_resolve (ps_set (\<lambda>s. s) ''o2'' ''ag''
      \<lparr>pb_judgedDomains = [\<lparr>jr_domain = ''.x'', jr_judge = None\<rparr>], pb_judges = [(''default'', ''p'')],
       pb_extraPolicy = None, pb_judgeModel = None\<rparr> []) ''o1'' ''ag'' ''h.x''
      = ps_resolve [] ''o1'' ''ag'' ''h.x''"
    using policy_store_tenant_isolation [of "''o1''" "''o2''"] by blast
  also have "\<dots> = None" by (simp add: ps_resolve_def)
  finally show ?thesis .
qed

text \<open>
  what an agent resolves after its bundle is set: the most specific rule decides the
  judge by name (\<open>default\<close> when it names none); the policy returned is that judge's text with
  the operator's extra policy appended, under the hash of organisation, agent, judge and
  composed text; a rule that names no configured judge resolves to nothing.
\<close>

theorem policy_store_resolve_after_set:
  assumes "distinct (map fst (pb_judges bundle))"
  shows "ps_resolve (ps_set sha org a bundle store) org a h =
    (case findMatchingRule h (pb_judgedDomains bundle) of
       None \<Rightarrow> None
     | Some r \<Rightarrow>
        (let name = (case jr_judge r of None \<Rightarrow> ''default'' | Some j \<Rightarrow> j) in
         map_option (\<lambda>raw. let text = composed_policy (pb_extraPolicy bundle) raw in
             \<lparr>rr_judgeName = name, rr_policy = text, rr_policyHash = hashPolicy sha org a name text,
              rr_judgeModel = (if truthy (pb_judgeModel bundle) then pb_judgeModel bundle else None)\<rparr>)
           (map_of (pb_judges bundle) name)))"
proof -
  have rev: "map_of (rev (pb_judges bundle)) k = map_of (pb_judges bundle) k" for k
    using assms by (rule jm_get_rev)
  have nil: "findMatchingRule h [] = None" by (simp add: findMatchingRule_None)
  show ?thesis
    by (auto simp: ps_resolve_def ps_set_def jsm.get_put prepareBundle_def Let_def rev nil
          prepared_judges_get split: option.splits)
qed

theorem policy_store_resolve_after_set_witness:
  "ps_resolve (ps_set (\<lambda>s. s) ''o1'' ''ag''
      \<lparr>pb_judgedDomains = [\<lparr>jr_domain = ''.x'', jr_judge = None\<rparr>], pb_judges = [(''default'', ''p'')],
       pb_extraPolicy = None, pb_judgeModel = None\<rparr> []) ''o1'' ''ag'' ''h.x''
   = Some \<lparr>rr_judgeName = ''default'', rr_policy = ''p'', rr_policyHash = ''o1 ag default p'',
           rr_judgeModel = None\<rparr>"
proof -
  let ?b = "\<lparr>pb_judgedDomains = [\<lparr>jr_domain = ''.x'', jr_judge = None\<rparr>], pb_judges = [(''default'', ''p'')],
       pb_extraPolicy = None, pb_judgeModel = None\<rparr>"
  have d: "distinct (map fst (pb_judges ?b))" by simp
  have f: "findMatchingRule ''h.x'' (pb_judgedDomains ?b) = Some \<lparr>jr_domain = ''.x'', jr_judge = None\<rparr>"
    by code_simp
  have c: "composed_policy None ''p'' = ''p''" "hashPolicy (\<lambda>s. s) ''o1'' ''ag'' ''default'' ''p'' = ''o1 ag default p''"
    by code_simp+
  from policy_store_resolve_after_set [OF d, of "\<lambda>s. s" "''o1''" "''ag''" "[]" "''h.x''"] f c
  show ?thesis by (simp add: Let_def)
qed

end
