(* ===== verification/Egress_Judge.thy ===== *)
theory Egress_Judge
  imports Policies
begin

text \<open>
  The LLM egress judge, \<^verbatim>\<open>packages/server/src/gateway/proxy/egress-judge/\<close>: the verdict cache
  (\<^verbatim>\<open>cache.ts\<close>), the circuit breaker (\<^verbatim>\<open>circuit-breaker.ts\<close>) and the judge itself
  (\<^verbatim>\<open>judge.ts\<close>). \<^verbatim>\<open>Date.now()\<close> is the argument \<open>now\<close>. The judge is asynchronous: \<^verbatim>\<open>decide\<close> up
  to its first \<^verbatim>\<open>await\<close> is the step \<open>decide_start\<close>, the continuation once the model's promise
  settles is \<open>judge_done\<close>, and the \<^verbatim>\<open>finally\<close> of a call the breaker refused is \<open>open_done\<close>.
  The model's answer is an argument of \<open>judge_done\<close>.
\<close>

section \<open>The verdict cache\<close>

datatype verdict_kind = Allow | Deny

record judge_verdict =
  jv_verdict :: verdict_kind
  jv_reason :: string

record cache_entry =
  ce_verdict :: judge_verdict
  ce_expiresAt :: ms

record verdict_cache =
  vc_entries :: "(string, cache_entry) jmap"
  vc_ttlMs :: ms
  vc_maxEntries :: nat

definition vc_key :: "string \<Rightarrow> string \<Rightarrow> string \<Rightarrow> string option \<Rightarrow> string option \<Rightarrow> string" where
  "vc_key orgId policyHash hostname method path =
     join ''|'' [orgId, policyHash, lower hostname,
       (case method of None \<Rightarrow> [] | Some m \<Rightarrow> upper m),
       (case path of None \<Rightarrow> [] | Some p \<Rightarrow> p)]"

definition vc_get :: "ms \<Rightarrow> string \<Rightarrow> verdict_cache \<Rightarrow> judge_verdict option \<times> verdict_cache" where
  "vc_get now key c =
     (case map_of (vc_entries c) key of
        None \<Rightarrow> (None, c)
      | Some entry \<Rightarrow>
          if ce_expiresAt entry \<le> now
          then (None, c\<lparr>vc_entries := AList.delete key (vc_entries c)\<rparr>)
          else (Some (ce_verdict entry),
                c\<lparr>vc_entries := AList.update key entry (AList.delete key (vc_entries c))\<rparr>))"

definition vc_set :: "ms \<Rightarrow> string \<Rightarrow> judge_verdict \<Rightarrow> verdict_cache \<Rightarrow> verdict_cache" where
  "vc_set now key verdict c =
     (let entries =
        (if map_of (vc_entries c) key \<noteq> None then AList.delete key (vc_entries c)
         else if vc_maxEntries c \<le> length (vc_entries c)
         then (case jm_first (vc_entries c) of None \<Rightarrow> vc_entries c
               | Some oldest \<Rightarrow> AList.delete oldest (vc_entries c))
         else vc_entries c)
      in c\<lparr>vc_entries := AList.update key
             \<lparr>ce_verdict = verdict, ce_expiresAt = now + vc_ttlMs c\<rparr> entries\<rparr>)"

definition vc_clear :: "verdict_cache \<Rightarrow> verdict_cache" where
  "vc_clear c = c\<lparr>vc_entries := []\<rparr>"

section \<open>The circuit breaker\<close>

record breaker_entry =
  be_consecutiveFailures :: nat
  be_openUntil :: ms
  be_halfOpenInFlight :: bool

record circuit_breaker =
  cb_state :: "(string, breaker_entry) jmap"
  cb_failureThreshold :: nat
  cb_cooldownMs :: ms

definition max_tracked_policies :: nat where
  "max_tracked_policies = 1000"

definition canProceed :: "ms \<Rightarrow> string \<Rightarrow> circuit_breaker \<Rightarrow> bool \<times> circuit_breaker" where
  "canProceed now policyHash b =
     (case map_of (cb_state b) policyHash of
        None \<Rightarrow> (True, b)
      | Some entry \<Rightarrow>
          if be_openUntil entry = 0 then (True, b)
          else if be_openUntil entry \<le> now
          then (if be_halfOpenInFlight entry then (False, b)
                else (True, b\<lparr>cb_state := AList.update policyHash
                              (entry\<lparr>be_halfOpenInFlight := True\<rparr>) (cb_state b)\<rparr>))
          else (False, b))"

definition onSuccess :: "string \<Rightarrow> circuit_breaker \<Rightarrow> circuit_breaker" where
  "onSuccess policyHash b = b\<lparr>cb_state := AList.delete policyHash (cb_state b)\<rparr>"

definition onFailure :: "ms \<Rightarrow> string \<Rightarrow> circuit_breaker \<Rightarrow> circuit_breaker" where
  "onFailure now policyHash b =
     (let entry = (case map_of (cb_state b) policyHash of Some e \<Rightarrow> e
           | None \<Rightarrow> \<lparr>be_consecutiveFailures = 0, be_openUntil = 0, be_halfOpenInFlight = False\<rparr>);
          failures = be_consecutiveFailures entry + 1;
          nxt = \<lparr>be_consecutiveFailures = failures,
                 be_openUntil = (if cb_failureThreshold b \<le> failures then now + cb_cooldownMs b
                                 else be_openUntil entry),
                 be_halfOpenInFlight = False\<rparr>;
          st = (if map_of (cb_state b) policyHash = None
                     \<and> max_tracked_policies \<le> length (cb_state b)
                then (case jm_first (cb_state b) of None \<Rightarrow> cb_state b
                      | Some oldest \<Rightarrow> AList.delete oldest (cb_state b))
                else cb_state b)
      in b\<lparr>cb_state := AList.update policyHash nxt st\<rparr>)"

definition isOpen :: "ms \<Rightarrow> string \<Rightarrow> circuit_breaker \<Rightarrow> bool" where
  "isOpen now policyHash b =
     (case map_of (cb_state b) policyHash of None \<Rightarrow> False
      | Some entry \<Rightarrow> 0 < be_openUntil entry \<and> now < be_openUntil entry)"

section \<open>The judge\<close>

record judge_request =
  jq_agentId :: string
  jq_organizationId :: string
  jq_hostname :: string
  jq_method :: "string option"
  jq_path :: "string option"

datatype decision_source = Src_Judge | Src_Cache | Src_Circuit_Open | Src_Judge_Error

record judge_decision =
  jd_verdict :: verdict_kind
  jd_reason :: string
  jd_source :: decision_source
  jd_latencyMs :: ms
  jd_policyHash :: string
  jd_judgeName :: string

record pending_call =
  pc_policyHash :: string
  pc_judgeName :: string
  pc_started :: ms
  pc_refused :: bool

record egress_judge =
  ej_cache :: verdict_cache
  ej_breaker :: circuit_breaker
  ej_inFlight :: "(string, pending_call) jmap"

datatype decide_result =
    Decided judge_decision
  | Joined string
  | Circuit_Denied judge_decision
  | Judge_Called string

datatype judge_outcome = Returned judge_verdict | Failed | Timed_Out

definition new_judge :: "ms option \<Rightarrow> nat option \<Rightarrow> nat option \<Rightarrow> ms option \<Rightarrow> egress_judge" where
  "new_judge cacheTtlMs cacheMaxEntries breakerFailureThreshold breakerCooldownMs =
     \<lparr>ej_cache = \<lparr>vc_entries = [],
        vc_ttlMs = (case cacheTtlMs of None \<Rightarrow> 300000 | Some t \<Rightarrow> t),
        vc_maxEntries = (case cacheMaxEntries of None \<Rightarrow> 2000 | Some n \<Rightarrow> n)\<rparr>,
      ej_breaker = \<lparr>cb_state = [],
        cb_failureThreshold = (case breakerFailureThreshold of None \<Rightarrow> 5 | Some n \<Rightarrow> n),
        cb_cooldownMs = (case breakerCooldownMs of None \<Rightarrow> 30000 | Some t \<Rightarrow> t)\<rparr>,
      ej_inFlight = []\<rparr>"

definition request_key :: "judge_request \<Rightarrow> resolved_rule \<Rightarrow> string" where
  "request_key request rule =
     vc_key (jq_organizationId request) (rr_policyHash rule) (jq_hostname request)
       (jq_method request) (jq_path request)"

definition circuit_open_reason :: string where
  "circuit_open_reason = ''Judge unavailable (circuit breaker open); request denied''"

definition decide_start ::
    "ms \<Rightarrow> judge_request \<Rightarrow> resolved_rule \<Rightarrow> egress_judge \<Rightarrow> decide_result \<times> egress_judge" where
  "decide_start now request rule s =
     (let cacheKey = request_key request rule;
          (cached, cache) = vc_get now cacheKey (ej_cache s);
          s = s\<lparr>ej_cache := cache\<rparr> in
      case cached of
        Some v \<Rightarrow> (Decided \<lparr>jd_verdict = jv_verdict v, jd_reason = jv_reason v,
            jd_source = Src_Cache, jd_latencyMs = 0, jd_policyHash = rr_policyHash rule,
            jd_judgeName = rr_judgeName rule\<rparr>, s)
      | None \<Rightarrow>
         (case map_of (ej_inFlight s) cacheKey of
            Some _ \<Rightarrow> (Joined cacheKey, s)
          | None \<Rightarrow>
             (let (go, breaker) = canProceed now (rr_policyHash rule) (ej_breaker s);
                  call = \<lparr>pc_policyHash = rr_policyHash rule, pc_judgeName = rr_judgeName rule,
                          pc_started = now, pc_refused = \<not> go\<rparr>;
                  s = s\<lparr>ej_breaker := breaker,
                        ej_inFlight := AList.update cacheKey call (ej_inFlight s)\<rparr> in
              if \<not> go
              then (Circuit_Denied \<lparr>jd_verdict = Deny, jd_reason = circuit_open_reason,
                      jd_source = Src_Circuit_Open, jd_latencyMs = 0,
                      jd_policyHash = rr_policyHash rule, jd_judgeName = rr_judgeName rule\<rparr>, s)
              else (Judge_Called cacheKey, s))))"

definition judge_done ::
    "ms \<Rightarrow> string \<Rightarrow> judge_outcome \<Rightarrow> egress_judge \<Rightarrow> (judge_decision \<times> egress_judge) option" where
  "judge_done now cacheKey outcome s =
     (case map_of (ej_inFlight s) cacheKey of
        None \<Rightarrow> None
      | Some call \<Rightarrow>
         if pc_refused call then None
         else
          (let rest = AList.delete cacheKey (ej_inFlight s); latency = now - pc_started call in
           case outcome of
             Returned v \<Rightarrow> Some
               (\<lparr>jd_verdict = jv_verdict v, jd_reason = jv_reason v, jd_source = Src_Judge,
                 jd_latencyMs = latency, jd_policyHash = pc_policyHash call,
                 jd_judgeName = pc_judgeName call\<rparr>,
                s\<lparr>ej_breaker := onSuccess (pc_policyHash call) (ej_breaker s),
                  ej_cache := vc_set now cacheKey v (ej_cache s), ej_inFlight := rest\<rparr>)
           | _ \<Rightarrow> Some
               (\<lparr>jd_verdict = Deny,
                 jd_reason = (if outcome = Timed_Out then ''Judge call timed out; request denied''
                              else ''Judge call failed; request denied''),
                 jd_source = Src_Judge_Error, jd_latencyMs = latency,
                 jd_policyHash = pc_policyHash call, jd_judgeName = pc_judgeName call\<rparr>,
                s\<lparr>ej_breaker := onFailure now (pc_policyHash call) (ej_breaker s),
                  ej_inFlight := rest\<rparr>)))"

definition open_done :: "string \<Rightarrow> egress_judge \<Rightarrow> egress_judge" where
  "open_done cacheKey s =
     (case map_of (ej_inFlight s) cacheKey of
        Some call \<Rightarrow> if pc_refused call
          then s\<lparr>ej_inFlight := AList.delete cacheKey (ej_inFlight s)\<rparr> else s
      | None \<Rightarrow> s)"


text \<open>
  Runs of the judge: a \<open>judge_event\<close> is what the event loop hands it, with its clock reading;
  \<open>judge_step\<close> relates the state before, the event, the observable result and the state after.
\<close>

datatype judge_event =
    Decide ms judge_request resolved_rule
  | Settle ms string judge_outcome
  | Refusal_Settled string

inductive judge_step ::
    "egress_judge \<Rightarrow> judge_event \<Rightarrow> decide_result option \<Rightarrow> egress_judge \<Rightarrow> bool" where
  js_decide: "decide_start now rq rule s = (r, s') \<Longrightarrow> judge_step s (Decide now rq rule) (Some r) s'"
| js_settle: "judge_done now k oc s = Some (d, s') \<Longrightarrow>
     judge_step s (Settle now k oc) (Some (Decided d)) s'"
| js_refused: "judge_step s (Refusal_Settled k) None (open_done k s)"

inductive_cases judge_step_elims:
  "judge_step s (Decide now rq rule) r s'"
  "judge_step s (Settle now k oc) r s'"
  "judge_step s (Refusal_Settled k) r s'"

inductive judge_run ::
    "egress_judge \<Rightarrow> (judge_event \<times> decide_result option) list \<Rightarrow> egress_judge \<Rightarrow> bool"
  for s0 where
  jr_start: "judge_run s0 [] s0"
| jr_step: "judge_run s0 tr s \<Longrightarrow> judge_step s e r s' \<Longrightarrow> judge_run s0 (tr @ [(e, r)]) s'"

section \<open>What the judge relies on: a store of live verdicts\<close>

locale verdict_store =
  fixes get :: "ms \<Rightarrow> string \<Rightarrow> 'c \<Rightarrow> judge_verdict option \<times> 'c"
    and put :: "ms \<Rightarrow> string \<Rightarrow> judge_verdict \<Rightarrow> 'c \<Rightarrow> 'c"
    and live :: "'c \<Rightarrow> ms \<Rightarrow> string \<Rightarrow> judge_verdict option"
    and ttl :: "'c \<Rightarrow> ms"
  assumes get_live: "fst (get now k c) = live c now k"
    and get_keeps: "live (snd (get now k c)) t k' = Some v \<Longrightarrow> live c t k' = Some v"
    and get_ttl: "ttl (snd (get now k c)) = ttl c"
    and put_live: "live (put now k v c) t k' = Some w \<Longrightarrow>
          (k' = k \<and> w = v \<and> t < now + ttl c) \<or> live c t k' = Some w"
    and put_ttl: "ttl (put now k v c) = ttl c"
begin

text \<open>\<open>sourced c A\<close>: every verdict live in \<open>c\<close> stems from an answer of \<open>A\<close> still in its TTL.\<close>

definition sourced :: "'c \<Rightarrow> (ms \<times> string \<times> judge_verdict) set \<Rightarrow> bool" where
  "sourced c A \<longleftrightarrow>
     (\<forall>t k v. live c t k = Some v \<longrightarrow> (\<exists>t0. (t0, k, v) \<in> A \<and> t < t0 + ttl c))"

lemma sourced_get: "sourced c A \<Longrightarrow> sourced (snd (get now k c)) A"
  using get_keeps get_ttl unfolding sourced_def by metis

lemma sourced_put: "sourced c A \<Longrightarrow> sourced (put now k v c) (insert (now, k, v) A)"
  unfolding sourced_def using put_live put_ttl by (metis insertI1 insertI2)

lemma sourced_mono: "sourced c A \<Longrightarrow> A \<subseteq> B \<Longrightarrow> sourced c B"
  unfolding sourced_def by blast

lemma sourced_hit:
  "sourced c A \<Longrightarrow> fst (get now k c) = Some v \<Longrightarrow> \<exists>t0. (t0, k, v) \<in> A \<and> now < t0 + ttl c"
  unfolding sourced_def get_live by blast

end

definition vc_live :: "verdict_cache \<Rightarrow> ms \<Rightarrow> string \<Rightarrow> judge_verdict option" where
  "vc_live c now k =
     (case map_of (vc_entries c) k of None \<Rightarrow> None
      | Some e \<Rightarrow> if ce_expiresAt e \<le> now then None else Some (ce_verdict e))"

lemma vc_live_get:
  "vc_live (snd (vc_get now k c)) t k' = Some v \<Longrightarrow> vc_live c t k' = Some v"
  by (auto simp: vc_live_def vc_get_def jm_get_set jm_get_del split: option.splits if_splits)

lemma vc_set_get:
  "map_of (vc_entries (vc_set now k v c)) k' =
     (if k' = k then Some \<lparr>ce_verdict = v, ce_expiresAt = now + vc_ttlMs c\<rparr>
      else if map_of (vc_entries c) k = None \<and> vc_maxEntries c \<le> length (vc_entries c)
              \<and> jm_first (vc_entries c) = Some k' then None
      else map_of (vc_entries c) k')"
  by (auto simp: vc_set_def Let_def jm_get_set jm_get_del split: option.splits)

lemma vc_live_set:
  "vc_live (vc_set now k v c) t k' = Some w \<Longrightarrow>
     (k' = k \<and> w = v \<and> t < now + vc_ttlMs c) \<or> vc_live c t k' = Some w"
  by (auto simp: vc_live_def vc_set_get split: option.splits if_splits)

lemma vc_ttl [simp]:
  "vc_ttlMs (vc_set now k v c) = vc_ttlMs c" "vc_ttlMs (snd (vc_get now k c)) = vc_ttlMs c"
  "vc_maxEntries (vc_set now k v c) = vc_maxEntries c"
  "vc_maxEntries (snd (vc_get now k c)) = vc_maxEntries c"
  by (auto simp: vc_set_def vc_get_def Let_def split: option.splits)

interpretation verdicts: verdict_store vc_get vc_set vc_live vc_ttlMs
proof (unfold_locales, goal_cases)
  case (1 now k c)
  then show ?case by (auto simp: vc_get_def vc_live_def split: option.splits)
qed (simp_all, (erule vc_live_get | erule vc_live_set)+)

section \<open>Size bounds\<close>

definition cache_ok :: "verdict_cache \<Rightarrow> bool" where
  "cache_ok c \<longleftrightarrow> jm_wf (vc_entries c) \<and> length (vc_entries c) \<le> max 1 (vc_maxEntries c)"

definition breaker_ok :: "circuit_breaker \<Rightarrow> bool" where
  "breaker_ok b \<longleftrightarrow> jm_wf (cb_state b) \<and> length (cb_state b) \<le> max_tracked_policies"

lemma cache_ok_get: "cache_ok c \<Longrightarrow> cache_ok (snd (vc_get now k c))"
  by (auto simp: cache_ok_def vc_get_def jm_simps split: option.splits)

lemma cache_ok_set: "cache_ok c \<Longrightarrow> cache_ok (vc_set now k v c)"
proof (cases "map_of (vc_entries c) k")
  case None
  assume ok: "cache_ok c"
  with None jsm.evict_count [of "vc_entries c" "vc_maxEntries c" k]
    jsm.evict_wf [of "vc_entries c"]
  show ?thesis by (simp add: cache_ok_def vc_set_def)
next
  case (Some e)
  then have "0 < length (vc_entries c)" by (cases "vc_entries c") auto
  moreover assume "cache_ok c"
  ultimately show ?thesis using Some
    by (auto simp: cache_ok_def vc_set_def jm_simps)
qed

lemma breaker_ok_steps:
  assumes "breaker_ok b"
  shows "breaker_ok (snd (canProceed now h b))" "breaker_ok (onSuccess h b)"
    "breaker_ok (onFailure now h b)"
proof -
  show "breaker_ok (snd (canProceed now h b))"
    using assms by (auto simp: breaker_ok_def canProceed_def jm_simps split: option.splits)
  show "breaker_ok (onSuccess h b)"
    using assms by (auto simp: breaker_ok_def onSuccess_def jm_simps)
  let ?st = "cb_state b"
  show "breaker_ok (onFailure now h b)"
  proof (cases "map_of ?st h")
    case None
    with assms jsm.evict_count [of ?st max_tracked_policies h] jsm.evict_wf [of ?st]
    show ?thesis
      by (auto simp: breaker_ok_def onFailure_def Let_def max_tracked_policies_def)
  next
    case (Some e)
    with assms show ?thesis by (auto simp: breaker_ok_def onFailure_def Let_def jm_simps)
  qed
qed


section \<open>Invariants of runs\<close>

text \<open>
  \<open>answers\<close>: the verdicts the model returned in a run; \<open>called\<close>: the requests it was called
  for. A decision is \<open>backed\<close> when an allow stems from an allow the model returned for the
  same key, at that moment or less than the cache's TTL before.
\<close>

type_synonym judge_trace = "(judge_event \<times> decide_result option) list"

definition answers :: "judge_trace \<Rightarrow> (ms \<times> string \<times> judge_verdict) set" where
  "answers tr = {(t, k, v) | t k v r. (Settle t k (Returned v), r) \<in> set tr}"

definition called :: "judge_trace \<Rightarrow> (judge_request \<times> resolved_rule) set" where
  "called tr = {(rq, rule) | t rq rule k. (Decide t rq rule, Some (Judge_Called k)) \<in> set tr}"

fun event_time :: "judge_event \<Rightarrow> ms" where
  "event_time (Decide t rq rule) = t"
| "event_time (Settle t k oc) = t"
| "event_time (Refusal_Settled k) = 0"

fun event_key :: "judge_event \<Rightarrow> string" where
  "event_key (Decide t rq rule) = request_key rq rule"
| "event_key (Settle t k oc) = k"
| "event_key (Refusal_Settled k) = k"

fun decision_of :: "decide_result option \<Rightarrow> judge_decision option" where
  "decision_of (Some (Decided d)) = Some d"
| "decision_of (Some (Circuit_Denied d)) = Some d"
| "decision_of _ = None"

definition backed :: "ms \<Rightarrow> (ms \<times> string \<times> judge_verdict) set
    \<Rightarrow> judge_event \<times> decide_result option \<Rightarrow> bool" where
  "backed ttl A er \<longleftrightarrow>
     (\<forall>d. decision_of (snd er) = Some d \<and> jd_verdict d = Allow \<longrightarrow>
        (\<exists>t0 v. (t0, event_key (fst er), v) \<in> A \<and> jv_verdict v = Allow
           \<and> (jd_source d = Src_Cache \<and> event_time (fst er) < t0 + ttl
              \<or> jd_source d = Src_Judge \<and> event_time (fst er) = t0)))"

lemma backed_mono: "backed ttl A er \<Longrightarrow> A \<subseteq> B \<Longrightarrow> backed ttl B er"
  unfolding backed_def by blast

lemma answers_snoc:
  "answers (tr @ [(e, r)]) = answers tr \<union>
     (case e of Settle t k (Returned v) \<Rightarrow> {(t, k, v)} | _ \<Rightarrow> {})"
  unfolding answers_def by (auto split: judge_event.splits judge_outcome.splits)

lemma called_snoc: "called tr \<subseteq> called (tr @ x)"
  unfolding called_def by auto

lemma decide_start_cases:
  assumes "decide_start now rq rule s = (r, s')"
  shows "ej_cache s' = snd (vc_get now (request_key rq rule) (ej_cache s)) \<and>
    ((\<exists>v. fst (vc_get now (request_key rq rule) (ej_cache s)) = Some v \<and>
        r = Decided \<lparr>jd_verdict = jv_verdict v, jd_reason = jv_reason v, jd_source = Src_Cache,
          jd_latencyMs = 0, jd_policyHash = rr_policyHash rule, jd_judgeName = rr_judgeName rule\<rparr> \<and>
        ej_inFlight s' = ej_inFlight s \<and> ej_breaker s' = ej_breaker s)
     \<or> (map_of (ej_inFlight s) (request_key rq rule) \<noteq> None \<and>
          r = Joined (request_key rq rule) \<and> ej_inFlight s' = ej_inFlight s
          \<and> ej_breaker s' = ej_breaker s)
     \<or> (map_of (ej_inFlight s) (request_key rq rule) = None \<and>
        ej_breaker s' = snd (canProceed now (rr_policyHash rule) (ej_breaker s)) \<and>
        (\<exists>c. ej_inFlight s' = AList.update (request_key rq rule) c (ej_inFlight s) \<and>
          (pc_refused c \<and> (\<exists>d. r = Circuit_Denied d \<and> jd_verdict d = Deny)
           \<or> \<not> pc_refused c \<and> r = Judge_Called (request_key rq rule)))))"
proof (cases "fst (vc_get now (request_key rq rule) (ej_cache s))")
  case None
  with assms show ?thesis
    by (cases "map_of (ej_inFlight s) (request_key rq rule)";
        cases "fst (canProceed now (rr_policyHash rule) (ej_breaker s))")
       (auto simp: decide_start_def Let_def split_beta)
next
  case (Some v)
  with assms show ?thesis
    by (auto simp: decide_start_def Let_def split_beta)
qed

lemma judge_done_cases:
  assumes "judge_done now k oc s = Some (d, s')"
  shows "(\<exists>c. map_of (ej_inFlight s) k = Some c \<and> \<not> pc_refused c \<and>
      ej_inFlight s' = AList.delete k (ej_inFlight s) \<and>
      ((\<exists>v. oc = Returned v \<and> ej_cache s' = vc_set now k v (ej_cache s) \<and>
          ej_breaker s' = onSuccess (pc_policyHash c) (ej_breaker s) \<and>
          jd_verdict d = jv_verdict v \<and> jd_source d = Src_Judge)
       \<or> (\<forall>v. oc \<noteq> Returned v) \<and> ej_cache s' = ej_cache s \<and> jd_verdict d = Deny \<and>
          ej_breaker s' = onFailure now (pc_policyHash c) (ej_breaker s)))"
  using assms
  by (auto simp: judge_done_def Let_def split: option.splits if_splits judge_outcome.splits)

lemma open_done_fields [simp]:
  "ej_cache (open_done k s) = ej_cache s" "ej_breaker (open_done k s) = ej_breaker s"
  by (auto simp: open_done_def split: option.splits)

lemma judge_step_cache:
  assumes "judge_step s e r s'" and "verdicts.sourced (ej_cache s) (answers tr)"
  shows "verdicts.sourced (ej_cache s') (answers (tr @ [(e, r)]))
       \<and> vc_ttlMs (ej_cache s') = vc_ttlMs (ej_cache s)
       \<and> backed (vc_ttlMs (ej_cache s)) (answers (tr @ [(e, r)])) (e, r)"
  using assms(1)
proof cases
  case (js_decide now rq rule r1)
  note step = decide_start_cases [OF js_decide(3)]
  from step assms(2) have "verdicts.sourced (ej_cache s') (answers tr)"
    by (simp add: verdicts.sourced_get)
  moreover have "backed (vc_ttlMs (ej_cache s)) (answers tr) (e, r)"
    using step js_decide
    by (fastforce simp: backed_def dest!: verdicts.sourced_hit [OF assms(2)])
  ultimately show ?thesis using js_decide step by (simp add: answers_snoc)
next
  case (js_settle now k oc d)
  note step = judge_done_cases [OF js_settle(3)]
  show ?thesis
  proof (cases "\<exists>v. oc = Returned v")
    case True
    with step js_settle verdicts.sourced_put [OF assms(2)] show ?thesis
      by (auto simp: answers_snoc backed_def) metis
  next
    case False
    with step js_settle assms(2) show ?thesis
      by (auto simp: answers_snoc backed_def split: judge_outcome.splits)
  qed
next
  case (js_refused k)
  with assms(2) show ?thesis by (simp add: answers_snoc backed_def)
qed

lemma judge_run_cache:
  assumes "judge_run s0 tr s" and "vc_entries (ej_cache s0) = []"
  shows "verdicts.sourced (ej_cache s) (answers tr)
       \<and> vc_ttlMs (ej_cache s) = vc_ttlMs (ej_cache s0)
       \<and> (\<forall>er \<in> set tr. backed (vc_ttlMs (ej_cache s0)) (answers tr) er)"
  using assms(1)
proof induction
  case jr_start
  from assms(2) have "\<forall>t k. vc_live (ej_cache s0) t k = None" by (simp add: vc_live_def)
  then show ?case by (simp add: verdicts.sourced_def)
next
  case (jr_step tr s e r s')
  have "answers tr \<subseteq> answers (tr @ [(e, r)])" by (simp add: answers_snoc)
  with jr_step judge_step_cache [of s e r s' tr] show ?case
    by (auto intro: backed_mono)
qed

lemma judge_step_bounds:
  assumes "judge_step s e r s'" "cache_ok (ej_cache s)" "breaker_ok (ej_breaker s)"
    "jm_wf (ej_inFlight s)"
  shows "cache_ok (ej_cache s') \<and> breaker_ok (ej_breaker s') \<and> jm_wf (ej_inFlight s')
    \<and> vc_maxEntries (ej_cache s') = vc_maxEntries (ej_cache s)"
  using assms(1)
proof cases
  case (js_decide now rq rule r1)
  from decide_start_cases [OF js_decide(3)] assms breaker_ok_steps(1) show ?thesis
    by (auto simp: cache_ok_get)
next
  case (js_settle now k oc d)
  from judge_done_cases [OF js_settle(3)] assms breaker_ok_steps(2,3) show ?thesis
    by (auto simp: cache_ok_set)
next
  case (js_refused k)
  with assms show ?thesis by (auto simp: open_done_def split: option.splits)
qed

lemma judge_run_bounds:
  assumes "judge_run s0 tr s" and "vc_entries (ej_cache s0) = []" "cb_state (ej_breaker s0) = []"
    "ej_inFlight s0 = []"
  shows "cache_ok (ej_cache s) \<and> breaker_ok (ej_breaker s) \<and> jm_wf (ej_inFlight s)
    \<and> vc_maxEntries (ej_cache s) = vc_maxEntries (ej_cache s0)"
  using assms(1)
proof induction
  case jr_start
  with assms show ?case by (simp add: cache_ok_def breaker_ok_def)
next
  case (jr_step tr s e r s')
  with judge_step_bounds [of s e r s'] show ?case by simp
qed

text \<open>How often the model was called for a key, and how often such a call settled.\<close>

definition model_calls :: "string \<Rightarrow> judge_trace \<Rightarrow> nat" where
  "model_calls k tr = length (filter (\<lambda>er. snd er = Some (Judge_Called k)) tr)"

fun settles :: "string \<Rightarrow> judge_event \<Rightarrow> bool" where
  "settles k (Settle t k' oc) = (k' = k)"
| "settles k e = False"

definition settlements :: "string \<Rightarrow> judge_trace \<Rightarrow> nat" where
  "settlements k tr = length (filter (\<lambda>er. settles k (fst er)) tr)"

definition in_flight :: "string \<Rightarrow> egress_judge \<Rightarrow> nat" where
  "in_flight k s = (case map_of (ej_inFlight s) k of None \<Rightarrow> 0
     | Some c \<Rightarrow> if pc_refused c then 0 else 1)"

lemma judge_step_flight:
  assumes "judge_step s e r s'"
  shows "(if r = Some (Judge_Called k) then 1 else 0) + in_flight k s
       = (if settles k e then 1 else 0) + in_flight k s'"
  using assms
proof cases
  case (js_decide now rq rule r1)
  from decide_start_cases [OF js_decide(3)] js_decide show ?thesis
    by (cases "k = request_key rq rule")
       (auto simp: in_flight_def jm_get_set split: option.splits)
next
  case (js_settle now k' oc d)
  from judge_done_cases [OF js_settle(3)] js_settle show ?thesis
    by (auto simp: in_flight_def jm_get_del)
next
  case (js_refused k')
  then show ?thesis
    by (auto simp: in_flight_def open_done_def jm_get_del split: option.splits)
qed

lemma judge_run_flight:
  assumes "judge_run s0 tr s" and "ej_inFlight s0 = []"
  shows "model_calls k tr = settlements k tr + in_flight k s"
  using assms(1)
proof induction
  case jr_start
  with assms(2) show ?case by (simp add: model_calls_def settlements_def in_flight_def)
next
  case (jr_step tr s e r s')
  with judge_step_flight [of s e r s' k] show ?case
    by (auto simp: model_calls_def settlements_def split: if_splits)
qed

text \<open>
  The call in flight for a key: the last call made for it that has not settled. A refusal of the open breaker stands in
  the same place until its promise settles.
\<close>

definition open_call :: "string \<Rightarrow> judge_trace \<Rightarrow> judge_request \<Rightarrow> resolved_rule \<Rightarrow> bool" where
  "open_call k tr rq rule \<longleftrightarrow> request_key rq rule = k \<and> (\<exists>xs t ys. tr = xs @ (Decide t rq rule, Some (Judge_Called k)) # ys
     \<and> (\<forall>er \<in> set ys. \<not> settles k (fst er)))"

definition open_refusal :: "string \<Rightarrow> judge_trace \<Rightarrow> judge_request \<Rightarrow> resolved_rule \<Rightarrow> bool" where
  "open_refusal k tr rq rule \<longleftrightarrow> request_key rq rule = k \<and> (\<exists>xs t d ys. tr = xs @ (Decide t rq rule, Some (Circuit_Denied d)) # ys
     \<and> jd_verdict d = Deny \<and> (\<forall>er \<in> set ys. fst er \<noteq> Refusal_Settled k))"

lemma open_call_snoc: "open_call k tr rq rule \<Longrightarrow> \<not> settles k e \<Longrightarrow> open_call k (tr @ [(e, r)]) rq rule"
  unfolding open_call_def by fastforce

lemma open_refusal_snoc: "open_refusal k tr rq rule \<Longrightarrow> e \<noteq> Refusal_Settled k \<Longrightarrow> open_refusal k (tr @ [(e, r)]) rq rule"
  unfolding open_refusal_def by fastforce

lemma open_new:
  "open_call (request_key rq rule) (tr @ [(Decide t rq rule, Some (Judge_Called (request_key rq rule)))]) rq rule"
  "jd_verdict d = Deny \<Longrightarrow> open_refusal (request_key rq rule) (tr @ [(Decide t rq rule, Some (Circuit_Denied d))]) rq rule"
  unfolding open_call_def open_refusal_def by fastforce+

definition stands :: "string \<Rightarrow> pending_call \<Rightarrow> judge_trace \<Rightarrow> judge_request \<Rightarrow> resolved_rule \<Rightarrow> bool" where
  "stands k c tr rq rule \<longleftrightarrow> (if pc_refused c then open_refusal k tr rq rule else open_call k tr rq rule)"

lemma stands_snoc:
  "stands k c tr rq rule \<Longrightarrow> settles k e \<longrightarrow> pc_refused c \<Longrightarrow> e = Refusal_Settled k \<longrightarrow> \<not> pc_refused c \<Longrightarrow>
   stands k c (tr @ [(e, r)]) rq rule"
  unfolding stands_def using open_call_snoc open_refusal_snoc by presburger

lemma run_in_flight:
  assumes "judge_run s0 tr s" and "ej_inFlight s0 = []" and "map_of (ej_inFlight s) k = Some c"
  shows "\<exists>rq rule. stands k c tr rq rule"
  using assms(1,3)
proof (induction arbitrary: k c)
  case jr_start
  with assms(2) show ?case by simp
next
  case (jr_step tr s e r s')
  have keep: ?case if "map_of (ej_inFlight s) k = Some c" "settles k e \<longrightarrow> pc_refused c"
      "e = Refusal_Settled k \<longrightarrow> \<not> pc_refused c"
    using jr_step.IH [OF that(1)] stands_snoc [OF _ that(2,3)] by blast
  from jr_step(2) show ?case
  proof cases
    case (js_decide now rq rule r1)
    show ?thesis
    proof (cases "map_of (ej_inFlight s) k = Some c")
      case True
      with keep js_decide(1) show ?thesis by simp
    next
      case False
      with decide_start_cases [OF js_decide(3)] jr_step.prems have
        "k = request_key rq rule \<and> (pc_refused c \<and> (\<exists>d. r1 = Circuit_Denied d \<and> jd_verdict d = Deny)
           \<or> \<not> pc_refused c \<and> r1 = Judge_Called (request_key rq rule))"
        by (auto simp: jm_get_set split: if_splits)
      with js_decide(1,2) open_new have "stands k c (tr @ [(e, r)]) rq rule" unfolding stands_def by auto
      then show ?thesis by blast
    qed
  next
    case (js_settle now k' oc d)
    with judge_done_cases [OF js_settle(3)] jr_step.prems have "k \<noteq> k'" "map_of (ej_inFlight s) k = Some c"
      by (auto simp: jm_get_del split: if_splits)
    with keep js_settle(1) show ?thesis by simp
  next
    case (js_refused k')
    then have k: "map_of (ej_inFlight s) k = Some c" "k = k' \<longrightarrow> \<not> pc_refused c"
      using jr_step.prems by (auto simp: open_done_def jm_get_del split: option.splits if_splits)
    with keep js_refused(1) show ?thesis by simp
  qed
qed

lemma run_prefix:
  "judge_run s0 tr s \<Longrightarrow> tr = xs @ (e, r) # ys \<Longrightarrow> \<exists>s1 s2. judge_run s0 xs s1 \<and> judge_step s1 e r s2"
proof (induction arbitrary: ys rule: judge_run.induct)
  case (jr_step tr s e' r' s')
  show ?case
  proof (cases ys rule: rev_cases)
    case Nil
    with jr_step show ?thesis by auto
  next
    case (snoc zs z)
    then have "tr = xs @ (e, r) # zs" using jr_step.prems by simp
    then show ?thesis by (rule jr_step.IH)
  qed
qed simp

text \<open>An answer of the model settles the open call of its key.\<close>

lemma answer_of_open_call:
  assumes "judge_run s0 (xs @ (Settle t k oc, r) # ys) s" "ej_inFlight s0 = []"
  shows "\<exists>rq rule. open_call k xs rq rule"
proof -
  obtain s1 s2 where s1: "judge_run s0 xs s1" "judge_step s1 (Settle t k oc) r s2" using run_prefix [OF assms(1) refl] by blast
  from s1(2) obtain d where "judge_done t k oc s1 = Some (d, s2)" by (auto elim: judge_step_elims)
  from judge_done_cases [OF this] obtain c where "map_of (ej_inFlight s1) k = Some c" "\<not> pc_refused c" by blast
  with run_in_flight [OF s1(1) assms(2)] show ?thesis unfolding stands_def by fastforce
qed

text \<open>Two requests that put the same question to the model for the same organisation.\<close>

definition same_question :: "judge_request \<Rightarrow> resolved_rule \<Rightarrow> judge_request \<Rightarrow> resolved_rule \<Rightarrow> bool" where
  "same_question rq rule rq' rule' \<longleftrightarrow> jq_organizationId rq = jq_organizationId rq' \<and> rr_policyHash rule = rr_policyHash rule'
     \<and> lower (jq_hostname rq) = lower (jq_hostname rq')"

definition no_bar :: "judge_request \<Rightarrow> resolved_rule \<Rightarrow> bool" where
  "no_bar rq rule \<longleftrightarrow> CHR ''|'' \<notin> set (jq_organizationId rq) \<and> CHR ''|'' \<notin> set (rr_policyHash rule)
     \<and> CHR ''|'' \<notin> set (lower (jq_hostname rq))"

lemma same_key_same_question:
  assumes "request_key rq rule = request_key rq' rule'" "no_bar rq rule" "no_bar rq' rule'"
  shows "same_question rq rule rq' rule'"
  using assms unfolding no_bar_def same_question_def
  by (simp add: request_key_def vc_key_def bar_prefix_inject)

lemma request_key_org:
  assumes "request_key rq rule = request_key rq' rule'"
    and "CHR ''|'' \<notin> set (jq_organizationId rq)" "CHR ''|'' \<notin> set (jq_organizationId rq')"
  shows "jq_organizationId rq = jq_organizationId rq'"
  using assms by (simp add: request_key_def vc_key_def bar_prefix_inject)

section \<open>Breaker lemmas\<close>

text \<open>What the judge needs of the breaker: a gate per policy that failures close.\<close>

locale failure_gate =
  fixes proceed :: "ms \<Rightarrow> string \<Rightarrow> 'b \<Rightarrow> bool \<times> 'b"
    and success :: "string \<Rightarrow> 'b \<Rightarrow> 'b"
    and failure :: "ms \<Rightarrow> string \<Rightarrow> 'b \<Rightarrow> 'b"
    and failures :: "'b \<Rightarrow> string \<Rightarrow> nat"
    and reopens :: "'b \<Rightarrow> string \<Rightarrow> ms option"
    and threshold :: "'b \<Rightarrow> nat" and cooldown :: "'b \<Rightarrow> ms"
  assumes proceed_closed: "reopens b h = None \<Longrightarrow> proceed now h b = (True, b)"
    and proceed_open: "reopens b h = Some t \<Longrightarrow> now < t \<Longrightarrow> proceed now h b = (False, b)"
    and failure_count: "failures (failure now h b) h = Suc (failures b h)"
    and failure_reopens: "reopens (failure now h b) h =
          (if threshold b \<le> Suc (failures b h) \<and> now + cooldown b \<noteq> 0 then Some (now + cooldown b)
           else if threshold b \<le> Suc (failures b h) then None else reopens b h)"
    and failure_params: "threshold (failure now h b) = threshold b"
          "cooldown (failure now h b) = cooldown b"
    and success_resets: "failures (success h b) h = 0" "reopens (success h b) h = None"
begin

text \<open>A burst of failures of one policy: the gate stays open until the threshold-th.\<close>

definition burst :: "string \<Rightarrow> ms list \<Rightarrow> 'b \<Rightarrow> 'b" where
  "burst h ts b = fold (\<lambda>t. failure t h) ts b"

lemma burst_snoc [simp]: "burst h (ts @ [t]) b = failure t h (burst h ts b)"
  by (simp add: burst_def)

lemma burst_Nil [simp]: "burst h [] b = b"
  by (simp add: burst_def)

lemma burst_params [simp]:
  "threshold (burst h ts b) = threshold b" "cooldown (burst h ts b) = cooldown b"
  "failures (burst h ts b) h = length ts + failures b h"
  by (induction ts rule: rev_induct) (simp_all add: failure_params failure_count)

lemma burst_reopens:
  assumes "failures b h = 0" and "reopens b h = None" and "\<forall>t \<in> set ts. 0 < t + cooldown b"
  shows "reopens (burst h ts b) h =
    (if ts \<noteq> [] \<and> threshold b \<le> length ts then Some (last ts + cooldown b) else None)"
  using assms(3)
proof (induction ts rule: rev_induct)
  case (snoc t ts)
  then show ?case by (auto simp: failure_reopens assms)
qed (simp add: assms)

lemma burst_blocks:
  assumes "failures b h = 0" and "reopens b h = None" and "\<forall>t \<in> set ts. 0 < t + cooldown b"
  shows "(ts = [] \<or> length ts < threshold b \<longrightarrow> fst (proceed now h (burst h ts b)))
       \<and> (ts \<noteq> [] \<and> threshold b \<le> length ts \<and> now < last ts + cooldown b \<longrightarrow>
            \<not> fst (proceed now h (burst h ts b)))"
  using burst_reopens [OF assms] proceed_closed proceed_open by auto

end

definition cb_failures :: "circuit_breaker \<Rightarrow> string \<Rightarrow> nat" where
  "cb_failures b h = (case map_of (cb_state b) h of None \<Rightarrow> 0
     | Some e \<Rightarrow> be_consecutiveFailures e)"

definition cb_reopens :: "circuit_breaker \<Rightarrow> string \<Rightarrow> ms option" where
  "cb_reopens b h = (case map_of (cb_state b) h of None \<Rightarrow> None
     | Some e \<Rightarrow> if be_openUntil e = 0 then None else Some (be_openUntil e))"

lemma onFailure_get:
  "map_of (cb_state (onFailure now h b)) h =
     Some \<lparr>be_consecutiveFailures = Suc (cb_failures b h),
       be_openUntil = (if cb_failureThreshold b \<le> Suc (cb_failures b h)
         then now + cb_cooldownMs b
         else (case map_of (cb_state b) h of None \<Rightarrow> 0 | Some e \<Rightarrow> be_openUntil e)),
       be_halfOpenInFlight = False\<rparr>"
  by (simp add: onFailure_def Let_def jm_get_set cb_failures_def split: option.splits)

lemma onFailure_params [simp]:
  "cb_failureThreshold (onFailure now h b) = cb_failureThreshold b"
  "cb_cooldownMs (onFailure now h b) = cb_cooldownMs b"
  by (simp_all add: onFailure_def Let_def)

interpretation breaker: failure_gate canProceed onSuccess onFailure cb_failures cb_reopens
    cb_failureThreshold cb_cooldownMs
proof (unfold_locales, goal_cases)
  case (1 b h now)
  then show ?case by (auto simp: cb_reopens_def canProceed_def split: option.splits if_splits)
next
  case (2 b h t now)
  then show ?case by (auto simp: cb_reopens_def canProceed_def split: option.splits if_splits)
next
  case (3 now h b)
  then show ?case by (simp add: cb_failures_def [of "onFailure now h b"] onFailure_get)
next
  case (4 now h b)
  then show ?case
    by (simp add: cb_reopens_def [of "onFailure now h b"] onFailure_get)
       (simp add: cb_reopens_def split: option.splits)
qed (simp_all add: cb_failures_def cb_reopens_def onSuccess_def jm_get_del)

section \<open>Properties\<close>

text \<open>A short run used by the witnesses: a call, its allow verdict, and a hit in the cache.\<close>

definition sample_request :: judge_request where
  "sample_request = \<lparr>jq_agentId = ''a'', jq_organizationId = ''o1'', jq_hostname = ''H.x'',
     jq_method = None, jq_path = None\<rparr>"

definition sample_rule :: resolved_rule where
  "sample_rule = \<lparr>rr_judgeName = ''default'', rr_policy = ''p'', rr_policyHash = ''h1'',
     rr_judgeModel = None\<rparr>"

definition sample_start :: egress_judge where
  "sample_start = new_judge (Some 100) (Some 2) (Some 2) (Some 50)"

definition sample_called :: egress_judge where
  "sample_called = snd (decide_start 10 sample_request sample_rule sample_start)"

definition sample_answered :: egress_judge where
  "sample_answered = snd (the (judge_done 20 ''o1|h1|h.x||''
     (Returned \<lparr>jv_verdict = Allow, jv_reason = ''ok''\<rparr>) sample_called))"

definition sample_hit :: judge_decision where
  "sample_hit = \<lparr>jd_verdict = Allow, jd_reason = ''ok'', jd_source = Src_Cache,
     jd_latencyMs = 0, jd_policyHash = ''h1'', jd_judgeName = ''default''\<rparr>"

definition sample_trace :: judge_trace where
  "sample_trace =
     [(Decide 10 sample_request sample_rule, Some (Judge_Called ''o1|h1|h.x||'')),
      (Settle 20 ''o1|h1|h.x||'' (Returned \<lparr>jv_verdict = Allow, jv_reason = ''ok''\<rparr>),
        Some (Decided \<lparr>jd_verdict = Allow, jd_reason = ''ok'', jd_source = Src_Judge,
          jd_latencyMs = 10, jd_policyHash = ''h1'', jd_judgeName = ''default''\<rparr>)),
      (Decide 30 sample_request sample_rule, Some (Decided sample_hit))]"

lemma sample_run:
  "judge_run sample_start sample_trace (snd (decide_start 30 sample_request sample_rule sample_answered))"
proof -
  let ?k = "''o1|h1|h.x||''" and ?v = "\<lparr>jv_verdict = Allow, jv_reason = ''ok''\<rparr>"
  let ?d = "\<lparr>jd_verdict = Allow, jd_reason = ''ok'', jd_source = Src_Judge,
          jd_latencyMs = 10, jd_policyHash = ''h1'', jd_judgeName = ''default''\<rparr>"
  have "fst (decide_start 10 sample_request sample_rule sample_start) = Judge_Called ?k"
    by code_simp
  then have s1: "judge_step sample_start (Decide 10 sample_request sample_rule)
      (Some (Judge_Called ?k)) sample_called"
    by (metis js_decide prod.collapse sample_called_def)
  have "map_option fst (judge_done 20 ?k (Returned ?v) sample_called) = Some ?d"
    by code_simp
  then have s2: "judge_step sample_called (Settle 20 ?k (Returned ?v))
      (Some (Decided ?d)) sample_answered"
    by (auto simp: sample_answered_def intro!: js_settle)
  have "fst (decide_start 30 sample_request sample_rule sample_answered) = Decided sample_hit"
    by code_simp
  then have s3: "judge_step sample_answered (Decide 30 sample_request sample_rule)
      (Some (Decided sample_hit)) (snd (decide_start 30 sample_request sample_rule sample_answered))"
    by (metis js_decide prod.collapse)
  from jr_step [OF jr_step [OF jr_step [OF jr_start s1] s2] s3]
  show ?thesis by (simp add: sample_trace_def)
qed

text \<open>
  C18: the judge fails closed. In every run from a fresh judge, whatever events arrive in
  whatever order, a decision that allows a request was backed by the model: the model
  returned allow for exactly that cache key, and the decision is either that call's own or
  a cache hit less than the TTL after it. Errors, timeouts and an open breaker never allow.
\<close>

theorem judge_fail_closed:
  assumes "judge_run (new_judge ttl mx thr cd) tr s" and "(e, r) \<in> set tr"
    and "decision_of r = Some d" and "jd_verdict d = Allow"
  shows "\<exists>t0 v. (t0, event_key e, v) \<in> answers tr \<and> jv_verdict v = Allow
    \<and> (jd_source d = Src_Cache
         \<and> event_time e < t0 + (case ttl of None \<Rightarrow> 300000 | Some t \<Rightarrow> t)
       \<or> jd_source d = Src_Judge \<and> event_time e = t0)"
proof -
  have "vc_entries (ej_cache (new_judge ttl mx thr cd)) = []"
    "vc_ttlMs (ej_cache (new_judge ttl mx thr cd)) = (case ttl of None \<Rightarrow> 300000 | Some t \<Rightarrow> t)"
    by (simp_all add: new_judge_def)
  with judge_run_cache [OF assms(1)] assms show ?thesis
    unfolding backed_def by force
qed

theorem judge_fail_closed_witness:
  "\<exists>t0 v. (t0, ''o1|h1|h.x||'', v) \<in> answers sample_trace \<and> jv_verdict v = Allow \<and> 30 < t0 + 100"
proof -
  have mem: "(Decide 30 sample_request sample_rule, Some (Decided sample_hit)) \<in> set sample_trace"
    by (simp add: sample_trace_def)
  have key: "event_key (Decide 30 sample_request sample_rule) = ''o1|h1|h.x||''" by code_simp
  have d: "decision_of (Some (Decided sample_hit)) = Some sample_hit"
    "jd_verdict sample_hit = Allow" "jd_source sample_hit = Src_Cache"
    by (simp_all add: sample_hit_def)
  from judge_fail_closed [OF sample_run [unfolded sample_start_def] mem d(1,2)] key d(3)
  show ?thesis by auto
qed

text \<open>
  concurrent identical requests cost one call: in every run, for every cache key, the
  model calls begun exceed the calls settled by at most one, so no call for a key starts
  while another for it is outstanding.
\<close>

theorem judge_single_flight:
  assumes "judge_run (new_judge ttl mx thr cd) tr s"
  shows "settlements k tr \<le> model_calls k tr \<and> model_calls k tr \<le> settlements k tr + 1"
proof -
  have "ej_inFlight (new_judge ttl mx thr cd) = []" by (simp add: new_judge_def)
  from judge_run_flight [OF assms this] show ?thesis
    by (simp add: in_flight_def split: option.splits)
qed

theorem judge_single_flight_witness:
  "settlements ''o1|h1|h.x||'' sample_trace = 1 \<and> model_calls ''o1|h1|h.x||'' sample_trace \<le> 2"
proof -
  have "settlements ''o1|h1|h.x||'' sample_trace = 1"
    by (simp add: settlements_def sample_trace_def)
  with judge_single_flight [OF sample_run [unfolded sample_start_def], of "''o1|h1|h.x||''"]
  show ?thesis by simp
qed

text \<open>
  C17: verdicts do not cross tenants. Whatever a request is given, it stems from a model call made for the same organisation,
  the same policy and the same host: a verdict from the cache is the model's answer to such a call, a request that joins a
  call in flight joins such a call (or the refusal of the breaker for such a request), and the key of its own call is its own.
  Organisation ids, policy hashes and host names are assumed to contain no bar.
\<close>

theorem judge_tenant_isolation:
  assumes "judge_run (new_judge ttl mx thr cd) tr s" and "tr = xs @ (Decide t rq rule, Some res) # ys"
    and "\<forall>t rq rule r. (Decide t rq rule, r) \<in> set tr \<longrightarrow> no_bar rq rule"
  shows "case res of
      Decided d \<Rightarrow> (\<exists>as t0 v r bs rq0 rule0. xs = as @ (Settle t0 (request_key rq rule) (Returned v), r) # bs
        \<and> jd_verdict d = jv_verdict v \<and> open_call (request_key rq rule) as rq0 rule0 \<and> same_question rq0 rule0 rq rule)
    | Joined k \<Rightarrow> (\<exists>rq0 rule0. (open_call k xs rq0 rule0 \<or> open_refusal k xs rq0 rule0) \<and> same_question rq0 rule0 rq rule)
    | Circuit_Denied d \<Rightarrow> jd_verdict d = Deny
    | Judge_Called k \<Rightarrow> k = request_key rq rule"
proof -
  have init: "vc_entries (ej_cache (new_judge ttl mx thr cd)) = []" "ej_inFlight (new_judge ttl mx thr cd) = []"
    by (simp_all add: new_judge_def)
  obtain s1 s2 where s1: "judge_run (new_judge ttl mx thr cd) xs s1" "judge_step s1 (Decide t rq rule) (Some res) s2"
    using run_prefix [OF assms(1,2)] by blast
  have "(Decide t rq rule, Some res) \<in> set tr" using assms(2) by simp
  then have clean: "no_bar rq rule" using assms(3) by blast
  have member: "no_bar rq0 rule0" if "open_call k as rq0 rule0 \<or> open_refusal k as rq0 rule0" "set as \<subseteq> set tr" for k as rq0 rule0
    using that assms(3) unfolding open_call_def open_refusal_def by fastforce
  have same: "same_question rq0 rule0 rq rule"
    if "open_call (request_key rq rule) as rq0 rule0 \<or> open_refusal (request_key rq rule) as rq0 rule0" "set as \<subseteq> set tr" for as rq0 rule0
    using same_key_same_question [OF _ member [OF that] clean] that(1) unfolding open_call_def open_refusal_def by blast
  have step: "decide_start t rq rule s1 = (res, s2)" using s1(2) by (auto elim: judge_step_elims)
  note cases = decide_start_cases [OF step]
  show ?thesis
  proof (cases res)
    case (Decided d)
    then obtain v where v: "fst (vc_get t (request_key rq rule) (ej_cache s1)) = Some v" "jd_verdict d = jv_verdict v"
      using cases by auto
    have "verdicts.sourced (ej_cache s1) (answers xs)" using judge_run_cache [OF s1(1) init(1)] by blast
    from verdicts.sourced_hit [OF this v(1)] obtain t0 r where "(Settle t0 (request_key rq rule) (Returned v), r) \<in> set xs"
      unfolding answers_def by blast
    then obtain as bs where as: "xs = as @ (Settle t0 (request_key rq rule) (Returned v), r) # bs" by (auto dest: split_list)
    from answer_of_open_call [OF s1(1) [unfolded as] init(2)] obtain rq0 rule0 where
      "open_call (request_key rq rule) as rq0 rule0" by blast
    moreover have "set as \<subseteq> set tr" using as assms(2) by auto
    ultimately have "\<exists>as t0 v r bs rq0 rule0. xs = as @ (Settle t0 (request_key rq rule) (Returned v), r) # bs
        \<and> jd_verdict d = jv_verdict v \<and> open_call (request_key rq rule) as rq0 rule0 \<and> same_question rq0 rule0 rq rule"
      using as v(2) same by blast
    then show ?thesis using Decided by simp
  next
    case (Joined k)
    then have k: "k = request_key rq rule" "map_of (ej_inFlight s1) (request_key rq rule) \<noteq> None" using cases by auto
    then obtain c where "map_of (ej_inFlight s1) (request_key rq rule) = Some c" by blast
    from run_in_flight [OF s1(1) init(2) this] obtain rq0 rule0 where
      "open_call (request_key rq rule) xs rq0 rule0 \<or> open_refusal (request_key rq rule) xs rq0 rule0" unfolding stands_def by (auto split: if_splits)
    moreover have "set xs \<subseteq> set tr" using assms(2) by auto
    ultimately have "\<exists>rq0 rule0. (open_call k xs rq0 rule0 \<or> open_refusal k xs rq0 rule0) \<and> same_question rq0 rule0 rq rule"
      using same k(1) by blast
    then show ?thesis using Joined by simp
  next
    case (Circuit_Denied d) then show ?thesis using cases by auto
  next
    case (Judge_Called k) then show ?thesis using cases by auto
  qed
qed

theorem judge_tenant_isolation_witness:
  "\<exists>as t0 v r bs rq0 rule0. take 2 sample_trace = as @ (Settle t0 ''o1|h1|h.x||'' (Returned v), r) # bs
     \<and> jv_verdict v = Allow \<and> open_call ''o1|h1|h.x||'' as rq0 rule0 \<and> same_question rq0 rule0 sample_request sample_rule"
proof -
  have split: "sample_trace = take 2 sample_trace @ (Decide 30 sample_request sample_rule, Some (Decided sample_hit)) # []"
    by (simp add: sample_trace_def)
  have "no_bar sample_request sample_rule" by code_simp
  then have clean: "\<forall>t rq rule r. (Decide t rq rule, r) \<in> set sample_trace \<longrightarrow> no_bar rq rule" by (auto simp: sample_trace_def)
  have key: "request_key sample_request sample_rule = ''o1|h1|h.x||''" by code_simp
  from judge_tenant_isolation [OF sample_run [unfolded sample_start_def] split clean] show ?thesis
    unfolding decide_result.case key by (simp add: sample_hit_def eq_commute [of Allow])
qed

text \<open>
  memory stays bounded: in every run the cache holds at most its maximum (one entry
  when the maximum is zero), the breaker tracks at most 1000 policies, and no key occurs
  twice in the cache, the breaker or the table of calls in flight.
\<close>

theorem judge_memory_bounded:
  assumes "judge_run (new_judge ttl mx thr cd) tr s"
  shows "length (vc_entries (ej_cache s)) \<le> max 1 (case mx of None \<Rightarrow> 2000 | Some n \<Rightarrow> n)
    \<and> length (cb_state (ej_breaker s)) \<le> 1000
    \<and> distinct (map fst (vc_entries (ej_cache s)))
    \<and> distinct (map fst (cb_state (ej_breaker s)))
    \<and> distinct (map fst (ej_inFlight s))"
proof -
  have "vc_entries (ej_cache (new_judge ttl mx thr cd)) = []"
    "cb_state (ej_breaker (new_judge ttl mx thr cd)) = []"
    "ej_inFlight (new_judge ttl mx thr cd) = []"
    "vc_maxEntries (ej_cache (new_judge ttl mx thr cd)) = (case mx of None \<Rightarrow> 2000 | Some n \<Rightarrow> n)"
    by (simp_all add: new_judge_def)
  with judge_run_bounds [OF assms] show ?thesis
    unfolding cache_ok_def breaker_ok_def jm_wf_def max_tracked_policies_def by metis
qed

theorem judge_memory_bounded_witness:
  "length (vc_entries (ej_cache
     (snd (decide_start 30 sample_request sample_rule sample_answered)))) \<le> 2"
  using judge_memory_bounded [OF sample_run [unfolded sample_start_def]] by simp

text \<open>
  the breaker trips at its threshold: after a run of consecutive failures of a policy
  not seen before, the policy may proceed exactly while fewer than the threshold have
  failed, and from then on it is refused until the cooldown after the last failure is over.
\<close>

theorem breaker_trips_at_threshold:
  assumes "map_of (cb_state b) h = None" and "ts \<noteq> []"
    and "\<forall>t \<in> set ts. 0 < t + cb_cooldownMs b" and "now < last ts + cb_cooldownMs b"
  shows "fst (canProceed now h (fold (\<lambda>t. onFailure t h) ts b))
     \<longleftrightarrow> length ts < cb_failureThreshold b"
proof -
  have "cb_failures b h = 0" "cb_reopens b h = None"
    using assms(1) by (simp_all add: cb_failures_def cb_reopens_def)
  from breaker.burst_blocks [OF this assms(3), of now] assms(2,4) show ?thesis
    by (auto simp: breaker.burst_def)
qed

theorem breaker_trips_at_threshold_witness:
  "\<not> fst (canProceed 60 ''h'' (fold (\<lambda>t. onFailure t ''h'') [10, 20]
      \<lparr>cb_state = [], cb_failureThreshold = 2, cb_cooldownMs = 50\<rparr>))"
  using breaker_trips_at_threshold
    [of "\<lparr>cb_state = [], cb_failureThreshold = 2, cb_cooldownMs = 50\<rparr>" "''h''" "[10, 20]" 60]
  by simp

text \<open>
  half-open lets one probe through: once the cooldown is over, the first caller may
  proceed and no further caller of that policy may, at any later time, until the probe
  settles; its success closes the breaker, its failure refuses everyone for another cooldown.
\<close>

theorem breaker_single_probe:
  assumes "map_of (cb_state b) h = Some e" and "be_openUntil e \<noteq> 0" and "be_openUntil e \<le> now"
    and "\<not> be_halfOpenInFlight e" and "cb_failureThreshold b \<le> Suc (be_consecutiveFailures e)"
    and "0 < t + cb_cooldownMs b"
  shows "fst (canProceed now h b)
    \<and> (\<forall>now'. \<not> fst (canProceed now' h (snd (canProceed now h b))))
    \<and> fst (canProceed now'' h (onSuccess h (snd (canProceed now h b))))
    \<and> (now'' < t + cb_cooldownMs b \<longrightarrow>
         \<not> fst (canProceed now'' h (onFailure t h (snd (canProceed now h b)))))"
proof -
  let ?b = "snd (canProceed now h b)"
  have b: "?b = b\<lparr>cb_state := AList.update h (e\<lparr>be_halfOpenInFlight := True\<rparr>) (cb_state b)\<rparr>"
    using assms by (simp add: canProceed_def)
  have "fst (canProceed now h b)" using assms by (simp add: canProceed_def)
  moreover have "\<not> fst (canProceed now' h ?b)" for now'
    using assms(2) unfolding b by (simp add: canProceed_def jm_get_set)
  moreover have "fst (canProceed now'' h (onSuccess h ?b))"
    by (simp add: canProceed_def onSuccess_def jm_get_del)
  moreover have "\<not> fst (canProceed now'' h (onFailure t h ?b))" if "now'' < t + cb_cooldownMs b"
  proof -
    have "cb_reopens (onFailure t h ?b) h = Some (t + cb_cooldownMs b)"
      using assms(5,6) unfolding b
      by (simp add: breaker.failure_reopens cb_failures_def jm_get_set)
    with that breaker.proceed_open show ?thesis by simp
  qed
  ultimately show ?thesis by blast
qed

theorem breaker_single_probe_witness:
  "let b = \<lparr>cb_state = [(''h'', \<lparr>be_consecutiveFailures = 5, be_openUntil = 100,
                          be_halfOpenInFlight = False\<rparr>)],
            cb_failureThreshold = 5, cb_cooldownMs = 50\<rparr>
   in fst (canProceed 100 ''h'' b) \<and> \<not> fst (canProceed 500 ''h'' (snd (canProceed 100 ''h'' b)))"
  using breaker_single_probe
    [of "\<lparr>cb_state = [(''h'', \<lparr>be_consecutiveFailures = 5, be_openUntil = 100,
                          be_halfOpenInFlight = False\<rparr>)],
            cb_failureThreshold = 5, cb_cooldownMs = 50\<rparr>" "''h''"
       "\<lparr>be_consecutiveFailures = 5, be_openUntil = 100, be_halfOpenInFlight = False\<rparr>" 100 200]
  by (simp add: Let_def)

end
