(* ===== verification/Ip_Guard.thy ===== *)
theory Ip_Guard
  imports JS_Prelude "HOL-Library.Word"
begin

unbundle bit_operations_syntax

text \<open>
  The guards against requests to internal addresses: the literal funnel of
  \<^verbatim>\<open>packages/server/src/gateway/proxy/http-proxy.ts\<close> (\<^verbatim>\<open>normalizeIpLiteral\<close>,
  \<^verbatim>\<open>isBlockedIpAddress\<close>, \<^verbatim>\<open>resolveAndValidateTarget\<close>) and \<^verbatim>\<open>proxy/ssrf-guard.ts\<close>, which holds
  its own copy of the same functions. Node's \<^verbatim>\<open>net.isIP\<close> and \<^verbatim>\<open>net.BlockList\<close> are written out
  (\<open>inet4\<close>, \<open>inet6\<close>, \<open>block_rule\<close>): addresses are words, a subnet matches by its prefix bits.
  DNS is an argument: \<open>None\<close> when the lookup throws, else its answers in order. A number that
  may be \<^verbatim>\<open>NaN\<close> or \<^verbatim>\<open>undefined\<close> is an option.
\<close>

section \<open>net.isIP\<close>

definition octet :: "string \<Rightarrow> int option" where
  "octet w = (if w \<noteq> [] \<and> list_all is_digit w \<and> length w \<le> 3
        \<and> (length w = 1 \<or> hd w \<noteq> CHR ''0'') \<and> digits_value 10 w \<le> 255
     then Some (digits_value 10 w) else None)"

definition inet4 :: "string \<Rightarrow> (int \<times> int \<times> int \<times> int) option" where
  "inet4 s = (case map octet (split_on CHR ''.'' s) of
       [Some a, Some b, Some c, Some d] \<Rightarrow> Some (a, b, c, d) | _ \<Rightarrow> None)"

definition hextet :: "string \<Rightarrow> int option" where
  "hextet w = (if w \<noteq> [] \<and> length w \<le> 4 \<and> list_all (\<lambda>c. digit_val c < 16) w
     then Some (digits_value 16 w) else None)"

fun hextets :: "string list \<Rightarrow> int list option" where
  "hextets [] = Some []"
| "hextets (w # ws) = (case hextet w of None \<Rightarrow> None
     | Some h \<Rightarrow> map_option (\<lambda>hs. h # hs) (hextets ws))"

text \<open>The groups of the last half of an address: its last one may be a dotted quad.\<close>

fun tail_hextets :: "string list \<Rightarrow> int list option" where
  "tail_hextets [] = Some []"
| "tail_hextets [w] = (case inet4 w of
       Some (a, b, c, d) \<Rightarrow> Some [a * 256 + b, c * 256 + d]
     | None \<Rightarrow> map_option (\<lambda>h. [h]) (hextet w))"
| "tail_hextets (w # ws) = (case hextet w of None \<Rightarrow> None
     | Some h \<Rightarrow> map_option (\<lambda>hs. h # hs) (tail_hextets ws))"

definition groups :: "string \<Rightarrow> string list" where
  "groups s = (if s = [] then [] else split_on CHR '':'' s)"

definition inet6 :: "string \<Rightarrow> int list option" where
  "inet6 s = (case split_dcolon (lower s) of
       [a] \<Rightarrow> (case tail_hextets (groups a) of
           Some g \<Rightarrow> if length g = 8 then Some g else None | None \<Rightarrow> None)
     | [a, b] \<Rightarrow> (case (hextets (groups a), tail_hextets (groups b)) of
           (Some l, Some r) \<Rightarrow> if length l + length r \<le> 7
             then Some (l @ replicate (8 - length l - length r) 0 @ r) else None
         | _ \<Rightarrow> None)
     | _ \<Rightarrow> None)"

definition isIP :: "string \<Rightarrow> nat" where
  "isIP s = (if inet4 s \<noteq> None then 4 else if inet6 s \<noteq> None then 6 else 0)"

section \<open>net.BlockList\<close>

datatype 'w block_rule = Address 'w | Subnet 'w nat

fun rule_matches :: "'a::len word block_rule \<Rightarrow> 'a word \<Rightarrow> bool" where
  "rule_matches (Address a) w = (w = a)"
| "rule_matches (Subnet a p) w = (drop_bit (LENGTH('a) - p) w = drop_bit (LENGTH('a) - p) a)"

definition addr4 :: "int \<Rightarrow> int \<Rightarrow> int \<Rightarrow> int \<Rightarrow> 32 word" where
  "addr4 a b c d = word_of_int (((a * 256 + b) * 256 + c) * 256 + d)"

definition addr6 :: "int list \<Rightarrow> 128 word" where
  "addr6 g = word_of_int (foldl (\<lambda>v h. v * 65536 + h) 0 g)"

definition blockedIpv4List :: "32 word block_rule list" where
  "blockedIpv4List =
     [Subnet (addr4 0 0 0 0) 8, Subnet (addr4 10 0 0 0) 8, Subnet (addr4 100 64 0 0) 10,
      Subnet (addr4 127 0 0 0) 8, Subnet (addr4 169 254 0 0) 16, Subnet (addr4 172 16 0 0) 12,
      Subnet (addr4 192 168 0 0) 16, Subnet (addr4 198 18 0 0) 15, Subnet (addr4 224 0 0 0) 4,
      Subnet (addr4 240 0 0 0) 4]"

definition blockedIpv6List :: "128 word block_rule list" where
  "blockedIpv6List =
     [Address (addr6 [0, 0, 0, 0, 0, 0, 0, 0]), Address (addr6 [0, 0, 0, 0, 0, 0, 0, 1]),
      Subnet (addr6 [0xfc00, 0, 0, 0, 0, 0, 0, 0]) 7,
      Subnet (addr6 [0xfe80, 0, 0, 0, 0, 0, 0, 0]) 10,
      Subnet (addr6 [0xff00, 0, 0, 0, 0, 0, 0, 0]) 8]"

definition check4 :: "string \<Rightarrow> bool" where
  "check4 s = (case inet4 s of None \<Rightarrow> False
     | Some (a, b, c, d) \<Rightarrow> list_ex (\<lambda>r. rule_matches r (addr4 a b c d)) blockedIpv4List)"

definition check6 :: "string \<Rightarrow> bool" where
  "check6 s = (case inet6 s of None \<Rightarrow> False
     | Some g \<Rightarrow> list_ex (\<lambda>r. rule_matches r (addr6 g)) blockedIpv6List)"

section \<open>The literal funnel\<close>

datatype normalized_host = Ipv4 string | Ipv6 string | Not_Ip | Invalid_Ip

text \<open>The bit operations coerce a missing or \<^verbatim>\<open>NaN\<close> operand to zero.\<close>

definition to_int32 :: "int option \<Rightarrow> int" where
  "to_int32 n = (case n of None \<Rightarrow> 0 | Some k \<Rightarrow> k)"

definition at :: "'a option list \<Rightarrow> nat \<Rightarrow> 'a option" where
  "at xs i = (if i < length xs then xs ! i else None)"

definition hextetsToIpv4 :: "int option \<Rightarrow> int option \<Rightarrow> string" where
  "hextetsToIpv4 high low =
     show_int (drop_bit 8 (to_int32 high) AND 255) @ ''.'' @ show_int (to_int32 high AND 255)
     @ ''.'' @ show_int (drop_bit 8 (to_int32 low) AND 255) @ ''.'' @ show_int (to_int32 low AND 255)"

definition parse_groups :: "string \<Rightarrow> int option list" where
  "parse_groups half = (if half = [] then [] else map (parse_int 16) (split_on CHR '':'' half))"

definition expandIpv6ToHextets :: "string \<Rightarrow> int option list" where
  "expandIpv6ToHextets addr =
     (let lw = lower addr;
          (hexPart, ipv4Suffix) =
            (case last_index CHR ''.'' lw of
               None \<Rightarrow> (lw, [])
             | Some dotIdx \<Rightarrow>
                (let cut = (case last_index CHR '':'' (take (Suc dotIdx) lw) of
                        None \<Rightarrow> 0 | Some i \<Rightarrow> Suc i);
                     octets = map (parse_int 10) (split_on CHR ''.'' (drop cut lw));
                     oc = (\<lambda>i. to_int32 (at octets i));
                     hp = take cut lw in
                 (if ends_with hp '':'' \<and> \<not> ends_with hp ''::'' then butlast hp else hp,
                  [Some (push_bit 8 (oc 0) OR oc 1), Some (push_bit 8 (oc 2) OR oc 3)])));
          halves = split_dcolon hexPart;
          left = parse_groups (halves ! 0);
          right = (if length halves = 2 then parse_groups (halves ! 1) else []) @ ipv4Suffix
      in left @ replicate (8 - length left - length right) (Some 0) @ right)"

definition in_hextet :: "int option \<Rightarrow> bool" where
  "in_hextet n = (case n of None \<Rightarrow> False | Some k \<Rightarrow> 0 \<le> k \<and> k \<le> 0xffff)"

definition normalizeIpLiteral :: "string \<Rightarrow> normalized_host" where
  "normalizeIpLiteral host =
     (let zoned = (CHR ''%'' \<in> set host);
          bare = trim (if zoned then takeWhile (\<lambda>c. c \<noteq> CHR ''%'') host else host) in
      if length bare = 0 then (if zoned then Invalid_Ip else Not_Ip)
      else if isIP bare = 4 then Ipv4 bare
      else if isIP bare = 0 then (if CHR '':'' \<in> set bare then Invalid_Ip else Not_Ip)
      else
       (let lw = lower bare in
        if starts_with lw ''::ffff:''
        then
         (let mapped = drop 7 lw in
          if CHR ''.'' \<in> set mapped
          then (if isIP mapped = 4 then Ipv4 mapped else Invalid_Ip)
          else
           (let parts = split_on CHR '':'' mapped in
            if length parts \<noteq> 2 then Invalid_Ip
            else
             (let high = parse_int 16 (parts ! 0); low = parse_int 16 (parts ! 1) in
              if \<not> in_hextet high \<or> \<not> in_hextet low then Invalid_Ip
              else Ipv4 (hextetsToIpv4 high low))))
        else
         (let h = expandIpv6ToHextets bare in
          if at h 0 = Some 0x0064 \<and> at h 1 = Some 0xff9b \<and> at h 2 = Some 0 \<and> at h 3 = Some 0
               \<and> at h 4 = Some 0 \<and> at h 5 = Some 0
          then Ipv4 (hextetsToIpv4 (at h 6) (at h 7))
          else Ipv6 bare)))"

definition isBlockedIpAddress :: "string \<Rightarrow> bool" where
  "isBlockedIpAddress ip =
     (case normalizeIpLiteral ip of
        Ipv4 v \<Rightarrow> check4 v
      | Ipv6 v \<Rightarrow> check6 v
      | Invalid_Ip \<Rightarrow> True
      | Not_Ip \<Rightarrow> False)"

section \<open>Targets of the proxy\<close>

datatype target_resolution =
    Target_Ok string
  | Target_Refused nat string

definition stripIpv6Brackets :: "string \<Rightarrow> string" where
  "stripIpv6Brackets host =
     (if 2 \<le> length host \<and> starts_with host ''['' \<and> ends_with host '']''
      then butlast (tl host) else host)"

definition resolveAndValidateTarget ::
    "(string \<Rightarrow> string list option) \<Rightarrow> string \<Rightarrow> target_resolution" where
  "resolveAndValidateTarget lookup rawHostname =
     (let hostname = stripIpv6Brackets rawHostname;
          forbidden = (\<lambda>why. Target_Refused 403 (''403 Forbidden - '' @ why @ hostname));
          dns = (case lookup hostname of
             None \<Rightarrow> Target_Refused 502 (''Bad Gateway: Could not resolve target host '' @ hostname)
           | Some addresses \<Rightarrow>
               if length addresses = 0
               then Target_Refused 502 (''Bad Gateway: No DNS results for '' @ hostname)
               else if find isBlockedIpAddress addresses \<noteq> None
               then forbidden ''Target resolves to local/private IP: ''
               else Target_Ok (addresses ! 0)) in
      case normalizeIpLiteral hostname of
        Invalid_Ip \<Rightarrow> forbidden ''Malformed target host: ''
      | Not_Ip \<Rightarrow> dns
      | Ipv4 v \<Rightarrow> if isBlockedIpAddress hostname then forbidden ''Target IP not allowed: ''
                  else Target_Ok v
      | Ipv6 v \<Rightarrow> if isBlockedIpAddress hostname then forbidden ''Target IP not allowed: ''
                  else Target_Ok v)"

section \<open>ssrf-guard.ts\<close>

definition isReservedIp :: "string \<Rightarrow> bool" where
  "isReservedIp ip =
     (case normalizeIpLiteral ip of
        Ipv4 v \<Rightarrow> check4 v
      | Ipv6 v \<Rightarrow> check6 v
      | Invalid_Ip \<Rightarrow> True
      | Not_Ip \<Rightarrow> False)"

text \<open>\<open>host_of\<close> is the host name of \<^verbatim>\<open>new URL(url)\<close>, \<open>None\<close> when it throws.\<close>

definition isInternalUrl ::
    "(string \<Rightarrow> string option) \<Rightarrow> (string \<Rightarrow> string list option) \<Rightarrow> (string \<Rightarrow> string list option)
       \<Rightarrow> string \<Rightarrow> bool" where
  "isInternalUrl host_of resolve4 resolve6 url =
     (case host_of url of
        None \<Rightarrow> True
      | Some h \<Rightarrow>
         (let hostname = (if starts_with h ''['' \<and> ends_with h '']'' then butlast (tl h) else h);
              answers = (\<lambda>r. case r hostname of None \<Rightarrow> [] | Some as \<Rightarrow> as) in
          isReservedIp hostname \<or> list_ex isReservedIp (answers resolve4 @ answers resolve6)))"

section \<open>Bytes and their printed form\<close>

lemma and_255: "(x :: int) AND 255 = x mod 256"
  using take_bit_eq_mask [of 8 x] by (simp add: take_bit_eq_mod mask_eq_exp_minus_1)

lemma octets_or: "0 \<le> b \<Longrightarrow> b < 256 \<Longrightarrow> push_bit 8 a OR b = a * 256 + (b :: int)"
  using concat_bit_eq [of 8 b a] concat_bit_def [of 8 b a]
  by (simp add: take_bit_eq_mod push_bit_eq_mult ac_simps)

lemma digit_char:
  assumes "0 \<le> n" "n < 10"
  shows "is_digit (char_of (48 + nat n))" "int (digit_val (char_of (48 + nat n))) = n"
    "code (char_of (48 + nat n)) = 48 + nat n"
proof -
  obtain k where "n = int k" "k < 10" using assms by (cases n) auto
  then show "is_digit (char_of (48 + nat n))" "int (digit_val (char_of (48 + nat n))) = n"
    "code (char_of (48 + nat n)) = 48 + nat n"
    by (simp_all add: is_digit_def digit_val_def)
qed

lemma show_int_small: "0 \<le> n \<Longrightarrow> n < 10 \<Longrightarrow> show_int n = [char_of (48 + nat n)]"
  by (simp add: show_int.simps)

lemma show_int_snoc:
  "10 \<le> n \<Longrightarrow> show_int n = show_int (n div 10) @ [char_of (48 + nat (n mod 10))]"
  by (subst show_int.simps) simp

lemma digits_value_snoc:
  "digits_value r (ds @ [c]) = digits_value r ds * int r + int (digit_val c)"
  by (simp add: digits_value_def)

lemma digits_value_Nil [simp]: "digits_value r [] = 0"
  by (simp add: digits_value_def)

lemma show_int_digits:
  "0 \<le> n \<Longrightarrow> show_int n \<noteq> [] \<and> list_all is_digit (show_int n) \<and> digits_value 10 (show_int n) = n
     \<and> (hd (show_int n) = CHR ''0'' \<longrightarrow> n = 0)"
proof (induction "nat n" arbitrary: n rule: less_induct)
  case less
  have zero: "digit_val CHR ''0'' = 0" by (simp add: digit_val_def is_digit_def code_def)
  show ?case
  proof (cases "n < 10")
    case True
    with less.prems digit_char [of n] zero show ?thesis
      by (auto simp: show_int_small digits_value_def)
  next
    case False
    with less.hyps [of "n div 10"] have
      "show_int (n div 10) \<noteq> []" "list_all is_digit (show_int (n div 10))"
      "digits_value 10 (show_int (n div 10)) = n div 10"
      "hd (show_int (n div 10)) = CHR ''0'' \<longrightarrow> n div 10 = 0"
      by auto
    moreover from False have "n div 10 \<noteq> 0" by linarith
    ultimately show ?thesis using False digit_char [of "n mod 10"]
      by (simp add: show_int_snoc digits_value_snoc)
  qed
qed

lemma show_byte_length: "0 \<le> n \<Longrightarrow> n < 256 \<Longrightarrow> length (show_int n) \<le> 3"
  by (cases "n < 10"; cases "n < 100") (simp_all add: show_int_small show_int_snoc)

lemma show_byte_one: "0 \<le> n \<Longrightarrow> hd (show_int n) = CHR ''0'' \<Longrightarrow> length (show_int n) = 1"
  using show_int_digits [of n] by (auto simp: show_int_small)

lemma octet_show: "0 \<le> n \<Longrightarrow> n < 256 \<Longrightarrow> octet (show_int n) = Some n"
  using show_int_digits [of n] show_byte_length [of n] show_byte_one [of n]
  by (auto simp: octet_def)

lemma is_digit_not: "is_digit c \<Longrightarrow> c \<noteq> CHR ''.'' \<and> c \<noteq> CHR '':'' \<and> c \<noteq> CHR ''%'' \<and> \<not> is_space c"
  by (auto simp: is_digit_def is_space_def code_def)

lemma digits_no_dot: "list_all is_digit w \<Longrightarrow> CHR ''.'' \<notin> set w \<and> CHR '':'' \<notin> set w"
  using is_digit_not by (fastforce simp: list_all_iff)

lemma split_dots:
  "CHR ''.'' \<notin> set a \<Longrightarrow> CHR ''.'' \<notin> set b \<Longrightarrow> CHR ''.'' \<notin> set c \<Longrightarrow> CHR ''.'' \<notin> set d \<Longrightarrow>
     split_on CHR ''.'' (a @ CHR ''.'' # b @ CHR ''.'' # c @ CHR ''.'' # d) = [a, b, c, d]"
  by (simp add: split_on_append_sep split_on_no_sep)

lemma inet4_hextets:
  assumes "0 \<le> h" "h < 65536" "0 \<le> l" "l < 65536"
  shows "inet4 (hextetsToIpv4 (Some h) (Some l)) =
    Some (h div 256, h mod 256, l div 256, l mod 256)"
proof -
  have b: "0 \<le> h div 256" "h div 256 < 256" "0 \<le> h mod 256" "h mod 256 < 256"
    "0 \<le> l div 256" "l div 256 < 256" "0 \<le> l mod 256" "l mod 256 < 256"
    "h div 256 mod 256 = h div 256" "l div 256 mod 256 = l div 256"
    using assms by auto
  have dots: "CHR ''.'' \<notin> set (show_int n)" if "0 \<le> n" for n
    using show_int_digits [OF that] digits_no_dot by blast
  show ?thesis
    using b by (simp add: inet4_def hextetsToIpv4_def to_int32_def and_255 drop_bit_eq_div
        split_dots dots octet_show)
qed

section \<open>Groups of an address\<close>

lemma hex_char:
  assumes "digit_val c < 16"
  shows "\<not> is_space c" "c \<noteq> CHR ''-''" "c \<noteq> CHR ''+''" "c \<noteq> CHR '':''" "c \<noteq> CHR ''.''"
    "c \<noteq> CHR ''%''" "lower_char c \<noteq> CHR ''x''"
proof -
  have c: "(48 \<le> code c \<and> code c \<le> 57) \<or> (65 \<le> code c \<and> code c \<le> 70) \<or> (97 \<le> code c \<and> code c \<le> 102)"
    using assms by (auto simp: digit_val_def is_digit_def lower_char_def is_upper_def split: if_splits)
  show "\<not> is_space c" using c by (auto simp: is_space_def)
  show "c \<noteq> CHR ''-''" "c \<noteq> CHR ''+''" "c \<noteq> CHR '':''" "c \<noteq> CHR ''.''" "c \<noteq> CHR ''%''"
    using c by (auto simp: code_def)
  have "code (lower_char c) \<noteq> code CHR ''x''"
    using c by (auto simp: lower_char_def is_upper_def) (auto simp: code_def)
  then show "lower_char c \<noteq> CHR ''x''" by metis
qed

lemma parse_int_digits:
  assumes "w \<noteq> []" and "list_all (\<lambda>c. digit_val c < r) w" and "r \<le> 16"
  shows "parse_int r w = Some (digits_value r w)"
proof -
  have hex: "digit_val c < 16" if "c \<in> set w" for c
    using assms that by (auto simp: list_all_iff)
  obtain c cs where w: "w = c # cs" using assms(1) by (cases w) auto
  have "dropWhile is_space w = w" "\<not> starts_with w ''-''" "\<not> starts_with w ''+''"
    using hex_char [OF hex [of c]] by (auto simp: w starts_with_iff)
  moreover have "\<not> starts_with (lower w) ''0x''"
  proof
    assume "starts_with (lower w) ''0x''"
    then obtain d ds where "cs = d # ds" "lower_char d = CHR ''x''"
      by (cases cs) (auto simp: w starts_with_iff lower_Cons)
    with hex_char(7) [OF hex [of d]] w show False by simp
  qed
  moreover have "takeWhile (\<lambda>c. digit_val c < r) w = w"
    using assms(2) by (metis list_all_iff takeWhile_eq_all_conv)
  ultimately show ?thesis using assms(1)
    by (simp add: parse_int_def Let_def del: takeWhile_eq_all_conv)
qed

lemma hextet_SomeD:
  assumes "hextet w = Some h"
  shows "parse_int 16 w = Some h" "w \<noteq> []" "\<forall>c \<in> set w. digit_val c < 16"
  using assms parse_int_digits [of w 16]
  by (auto simp: hextet_def list_all_iff split: if_splits)

lemma digits_value_bound:
  "list_all (\<lambda>c. digit_val c < r) w \<Longrightarrow> 0 \<le> digits_value r w \<and> digits_value r w < int r ^ length w"
proof (induction w rule: rev_induct)
  case (snoc c w)
  then have "digits_value r w + 1 \<le> int r ^ length w" "int (digit_val c) < int r" by auto
  then have "(digits_value r w + 1) * int r \<le> int r ^ length w * int r"
    by (intro mult_right_mono) auto
  with snoc show ?case by (simp add: digits_value_snoc algebra_simps)
qed simp

lemma hextet_bound: "hextet w = Some h \<Longrightarrow> 0 \<le> h \<and> h < 65536"
proof -
  assume h: "hextet w = Some h"
  then have "0 \<le> h \<and> h < 16 ^ length w" "length w \<le> 4"
    using digits_value_bound [of 16 w] by (auto simp: hextet_def split: if_splits)
  moreover have "(16::int) ^ length w \<le> 16 ^ 4"
    using \<open>length w \<le> 4\<close> by (intro power_increasing) auto
  ultimately show ?thesis by auto
qed

lemma octet_SomeD:
  assumes "octet w = Some n"
  shows "parse_int 10 w = Some n" "0 \<le> n" "n < 256" "list_all is_digit w" "w \<noteq> []"
proof -
  have dv: "digit_val c < 10" if "is_digit c" for c
    using that by (auto simp: digit_val_def is_digit_def)
  have w: "w \<noteq> []" "list_all is_digit w" "n = digits_value 10 w" "n \<le> 255"
    using assms by (auto simp: octet_def split: if_splits)
  then have all: "list_all (\<lambda>c. digit_val c < 10) w"
    using dv by (auto simp: list_all_iff)
  show "parse_int 10 w = Some n" using parse_int_digits [OF w(1) all] w(3) by simp
  show "0 \<le> n" using digits_value_bound [OF all] w(3) by simp
  show "n < 256" "list_all is_digit w" "w \<noteq> []" using w by simp_all
qed

lemma inet4_SomeD:
  assumes "inet4 w = Some (a, b, c, d)"
  shows "map (parse_int 10) (split_on CHR ''.'' w) = [Some a, Some b, Some c, Some d]"
    "0 \<le> a \<and> a < 256 \<and> 0 \<le> b \<and> b < 256 \<and> 0 \<le> c \<and> c < 256 \<and> 0 \<le> d \<and> d < 256"
    "CHR ''.'' \<in> set w" "CHR '':'' \<notin> set w" "\<forall>x \<in> set w. is_digit x \<or> x = CHR ''.''"
proof -
  obtain p q r s where sp: "split_on CHR ''.'' w = [p, q, r, s]"
    "octet p = Some a" "octet q = Some b" "octet r = Some c" "octet s = Some d"
    using assms by (auto simp: inet4_def split: list.splits option.splits)
  note o = octet_SomeD [OF sp(2)] octet_SomeD [OF sp(3)] octet_SomeD [OF sp(4)] octet_SomeD [OF sp(5)]
  from sp(1) o show "map (parse_int 10) (split_on CHR ''.'' w) = [Some a, Some b, Some c, Some d]"
    by simp
  from o show "0 \<le> a \<and> a < 256 \<and> 0 \<le> b \<and> b < 256 \<and> 0 \<le> c \<and> c < 256 \<and> 0 \<le> d \<and> d < 256"
    by simp
  have w: "w = p @ ''.'' @ q @ ''.'' @ r @ ''.'' @ s"
    using join_split_on [of "CHR ''.''" w] by (simp add: sp(1))
  then show "CHR ''.'' \<in> set w" by simp
  from w o digits_no_dot show "CHR '':'' \<notin> set w" by auto
  from w o show "\<forall>x \<in> set w. is_digit x \<or> x = CHR ''.''" by (auto simp: list_all_iff)
qed

section \<open>Expansion\<close>

definition word_ok :: "string \<Rightarrow> bool" where
  "word_ok w \<longleftrightarrow> w \<noteq> [] \<and> CHR '':'' \<notin> set w"

lemma split_dcolon_word:
  "CHR '':'' \<notin> set w \<Longrightarrow>
     split_dcolon (w @ s) = (w @ hd (split_dcolon s)) # tl (split_dcolon s)"
proof (induction w)
  case Nil
  then show ?case by (cases "split_dcolon s") auto
next
  case (Cons c w)
  then have "c \<noteq> CHR '':''" by auto
  with Cons show ?case by (simp add: split_dcolon_Cons del: split_dcolon.simps)
qed

lemma split_dcolon_single:
  assumes "s \<noteq> []" "hd s \<noteq> CHR '':''"
  shows "split_dcolon (CHR '':'' # s) = (CHR '':'' # hd (split_dcolon s)) # tl (split_dcolon s)"
  using assms by (intro split_dcolon_Cons) (auto simp: starts_with_iff)

lemma join_hd: "list_all word_ok (w # ws) \<Longrightarrow>
    join sep (w # ws) @ r \<noteq> [] \<and> hd (join sep (w # ws) @ r) \<noteq> CHR '':''"
  by (cases ws; cases w) (auto simp: word_ok_def)

lemma split_dcolon_join:
  "list_all word_ok ws \<Longrightarrow> split_dcolon (join '':'' ws @ r) =
     (if ws = [] then split_dcolon r
      else (join '':'' ws @ hd (split_dcolon r)) # tl (split_dcolon r))"
proof (induction ws rule: induct_list012)
  case (2 w)
  then show ?case by (simp add: split_dcolon_word word_ok_def)
next
  case (3 w v ws)
  have j: "split_dcolon (CHR '':'' # join '':'' (v # ws) @ r)
      = (CHR '':'' # hd (split_dcolon (join '':'' (v # ws) @ r)))
        # tl (split_dcolon (join '':'' (v # ws) @ r))"
    using 3(3) join_hd [of v ws "'':''" r] by (intro split_dcolon_single) auto
  from 3 have w: "CHR '':'' \<notin> set w" by (simp add: word_ok_def)
  from 3 show ?case using split_dcolon_word [OF w] by (simp add: j)
qed simp

lemma hextets_ok: "hextets ws = Some l \<Longrightarrow>
    list_all word_ok ws \<and> map (parse_int 16) ws = map Some l
    \<and> (\<forall>w \<in> set ws. \<forall>c \<in> set w. digit_val c < 16) \<and> list_all (\<lambda>h. 0 \<le> h \<and> h < 65536) l"
proof (induction ws arbitrary: l)
  case (Cons w ws)
  then obtain h hs where h: "hextet w = Some h" "hextets ws = Some hs" "l = h # hs"
    by (auto split: option.splits)
  then have "CHR '':'' \<notin> set w" using hextet_SomeD(3) [OF h(1)] hex_char(4) by blast
  with h Cons.IH hextet_SomeD [OF h(1)] hextet_bound [OF h(1)] show ?case
    by (auto simp: word_ok_def)
qed simp

lemma tail_hextets_cases:
  assumes "tail_hextets ws = Some r"
  shows "hextets ws = Some r \<or>
    (\<exists>us q hs a b c d. ws = us @ [q] \<and> hextets us = Some hs \<and> inet4 q = Some (a, b, c, d)
       \<and> r = hs @ [a * 256 + b, c * 256 + d])"
  using assms
proof (induction ws arbitrary: r rule: tail_hextets.induct)
  case (2 w)
  then show ?case by (fastforce split: option.splits)
next
  case (3 w v ws)
  then obtain h hs where h: "hextet w = Some h" "tail_hextets (v # ws) = Some hs" "r = h # hs"
    by (auto split: option.splits)
  from "3.IH" [OF h(1,2)] show ?case
  proof (elim disjE exE conjE)
    assume "hextets (v # ws) = Some hs"
    with h show ?thesis by simp
  next
    fix us q gs a b c d
    assume "v # ws = us @ [q]" "hextets us = Some gs" "inet4 q = Some (a, b, c, d)"
      "hs = gs @ [a * 256 + b, c * 256 + d]"
    with h show ?thesis by (intro disjI2 exI [of _ "w # us"] exI) auto
  qed
qed simp

lemma groups_parse:
  assumes "hextets ws = Some l"
  shows "parse_groups (join '':'' ws) = map Some l"
proof (cases ws)
  case Nil
  with assms show ?thesis by (simp add: parse_groups_def)
next
  case (Cons w ws')
  note ok = hextets_ok [OF assms]
  have "join '':'' ws \<noteq> []" using join_hd [of w ws' "'':''" "[]"] ok Cons by auto
  moreover have "split_on CHR '':'' (join '':'' ws) = ws"
    using ok Cons by (intro split_on_join) (auto simp: word_ok_def list_all_iff)
  ultimately show ?thesis using ok by (simp add: parse_groups_def)
qed

lemma groups_join: "join '':'' (groups s) = s"
  by (simp add: groups_def)

lemma split_dcolon_join_all: "join ''::'' (split_dcolon s) = s"
proof (induction s rule: split_dcolon.induct)
  case (3 c d s)
  then show ?case
  proof (cases "c = CHR '':'' \<and> d = CHR '':''")
    case True
    with 3 show ?thesis by (cases "split_dcolon s") auto
  next
    case False
    obtain w ws where "split_dcolon (d # s) = w # ws" by (cases "split_dcolon (d # s)") auto
    with False 3 show ?thesis by (cases ws) auto
  qed
qed simp_all

text \<open>The three shapes of a valid address, by where the dotted quad and the \<^verbatim>\<open>::\<close> are.\<close>

lemma inet6_cases:
  assumes "inet6 s = Some g"
  shows "(\<exists>ws. lower s = join '':'' ws \<and> tail_hextets ws = Some g \<and> length g = 8)
    \<or> (\<exists>us ws l r. lower s = join '':'' us @ ''::'' @ join '':'' ws \<and> hextets us = Some l
         \<and> tail_hextets ws = Some r \<and> length l + length r \<le> 7 \<and>
         g = l @ replicate (8 - length l - length r) 0 @ r)"
proof -
  let ?p = "split_dcolon (lower s)"
  from assms consider (one) a where "?p = [a]" | (two) a b where "?p = [a, b]"
    by (auto simp: inet6_def split: list.splits)
  then show ?thesis
  proof cases
    case one
    with split_dcolon_join_all [of "lower s"] have "lower s = a" by simp
    with one assms groups_join [of a] show ?thesis
      by (auto simp: inet6_def split: option.splits if_splits intro!: exI [of _ "groups a"])
  next
    case two
    with split_dcolon_join_all [of "lower s"] have "lower s = a @ ''::'' @ b" by simp
    moreover obtain l r where "hextets (groups a) = Some l" "tail_hextets (groups b) = Some r"
      "length l + length r \<le> 7" "g = l @ replicate (8 - length l - length r) 0 @ r"
      using two assms by (auto simp: inet6_def split: option.splits if_splits)
    ultimately show ?thesis
      using groups_join [of a] groups_join [of b] by (metis (no_types, lifting))
  qed
qed

definition expand_parts :: "string \<Rightarrow> int option list \<Rightarrow> int option list" where
  "expand_parts hexPart tl4 =
     (let halves = split_dcolon hexPart;
          left = parse_groups (halves ! 0);
          right = (if length halves = 2 then parse_groups (halves ! 1) else []) @ tl4
      in left @ replicate (8 - length left - length right) (Some 0) @ right)"

lemma expand_no_dot:
  "CHR ''.'' \<notin> set (lower s) \<Longrightarrow> expandIpv6ToHextets s = expand_parts (lower s) []"
  by (simp add: expandIpv6ToHextets_def expand_parts_def Let_def)

definition cut_colon :: "string \<Rightarrow> string" where
  "cut_colon hp = (if ends_with hp '':'' \<and> \<not> ends_with hp ''::'' then butlast hp else hp)"

lemma expand_quad:
  assumes "lower s = pre @ q" and "inet4 q = Some (a, b, c, d)"
    and "pre = [] \<or> (\<exists>p. pre = p @ '':'')"
  shows "expandIpv6ToHextets s =
    expand_parts (cut_colon pre) [Some (a * 256 + b), Some (c * 256 + d)]"
proof -
  note q = inet4_SomeD [OF assms(2)]
  obtain q1 q2 where q12: "q = q1 @ CHR ''.'' # q2" "CHR ''.'' \<notin> set q2"
    using split_list_last [OF q(3)] by blast
  then have dot: "last_index CHR ''.'' (pre @ q) = Some (length (pre @ q1))"
    using last_index_append [of "CHR ''.''" q2 "pre @ q1"] by simp
  have tk: "take (Suc (length (pre @ q1))) (pre @ q) = pre @ q1 @ ''.''"
    by (simp add: q12)
  have q1: "CHR '':'' \<notin> set (q1 @ ''.'')" using q(4) q12 by auto
  have cut: "(case last_index CHR '':'' (pre @ q1 @ ''.'') of None \<Rightarrow> 0 | Some i \<Rightarrow> Suc i) = length pre"
    using assms(3)
  proof
    assume "pre = []"
    then show ?thesis using q1 by simp
  next
    assume "\<exists>p. pre = p @ '':''"
    then obtain p where "pre = p @ '':''" by blast
    with last_index_append [OF q1, of p] show ?thesis by simp
  qed
  show ?thesis
    using q(1,2)
    unfolding expandIpv6ToHextets_def Let_def assms(1) dot option.case tk cut
    by (simp add: at_def to_int32_def octets_or expand_parts_def cut_colon_def Let_def)
qed

lemma expand_parts_one:
  assumes "hextets ws = Some l" and "length l + length suf = 8"
  shows "expand_parts (join '':'' ws) suf = map Some l @ suf"
  using assms split_dcolon_join [of ws "[]"] hextets_ok [OF assms(1)] groups_parse [OF assms(1)]
  by (cases "ws = []") (simp_all add: expand_parts_def Let_def)

lemma expand_parts_two:
  assumes "hextets us = Some l" and "hextets ws = Some r" and "length l + length r + length suf \<le> 7"
  shows "expand_parts (join '':'' us @ ''::'' @ join '':'' ws) suf =
    map Some l @ replicate (8 - length l - length r - length suf) (Some 0) @ map Some r @ suf"
proof -
  have "split_dcolon (join '':'' ws) = [join '':'' ws]"
    using split_dcolon_join [of ws "[]"] hextets_ok [OF assms(2)] by (cases "ws = []") auto
  then have "split_dcolon (join '':'' us @ ''::'' @ join '':'' ws) = [join '':'' us, join '':'' ws]"
    using split_dcolon_join [of us "''::'' @ join '':'' ws"] hextets_ok [OF assms(1)]
    by (cases "us = []") auto
  with groups_parse [OF assms(1)] groups_parse [OF assms(2)] show ?thesis
    by (simp add: expand_parts_def Let_def)
qed

lemma join_snoc: "us \<noteq> [] \<Longrightarrow> join sep (us @ [q]) = join sep us @ sep @ q"
proof (induction us)
  case (Cons u us)
  then show ?case by (cases us) auto
qed simp

lemma hextets_no_dot: "hextets ws = Some l \<Longrightarrow> CHR ''.'' \<notin> set (join '':'' ws)"
proof -
  assume "hextets ws = Some l"
  from hextets_ok [OF this] have "\<forall>w \<in> set ws. \<forall>c \<in> set w. digit_val c < 16" by blast
  then have "\<forall>w \<in> set ws. CHR ''.'' \<notin> set w" using hex_char(5) by blast
  then show ?thesis by (induction ws rule: induct_list012) auto
qed

lemma cut_colon_join:
  assumes "list_all word_ok us" and "us \<noteq> []"
  shows "cut_colon (p @ join '':'' us @ '':'') = p @ join '':'' us"
proof -
  obtain vs w where us: "us = vs @ [w]" using assms(2) by (cases us rule: rev_cases) auto
  with assms(1) have w: "w \<noteq> []" "last w \<noteq> CHR '':''"
    by (auto simp: word_ok_def in_set_conv_decomp) (metis append_butlast_last_id)
  then have "join '':'' us \<noteq> [] \<and> last (join '':'' us) = last w"
    by (cases "vs = []") (simp_all add: us join_snoc)
  then obtain k where k: "join '':'' us = k @ [last w]" by (metis append_butlast_last_id)
  have "\<not> ends_with (p @ k @ [last w] @ '':'') ''::''"
    using w(2) by (auto simp: ends_with_def)
  moreover have "ends_with (p @ k @ [last w] @ '':'') '':''" by (simp add: ends_with_iff)
  ultimately show ?thesis by (simp add: cut_colon_def k butlast_append)
qed

lemma expand_inet6:
  assumes "inet6 s = Some g"
  shows "expandIpv6ToHextets s = map Some g"
  using inet6_cases [OF assms]
proof (elim disjE exE conjE)
  fix ws assume w: "lower s = join '':'' ws" "tail_hextets ws = Some g" "length g = 8"
  from tail_hextets_cases [OF w(2)] show ?thesis
  proof (elim disjE exE conjE)
    assume h: "hextets ws = Some g"
    with expand_parts_one [OF h, of "[]"] hextets_no_dot [OF h] w expand_no_dot [of s]
    show ?thesis by simp
  next
    fix us q hs and a b c d :: int
    assume q: "ws = us @ [q]" "hextets us = Some hs" "inet4 q = Some (a, b, c, d)"
      "g = hs @ [a * 256 + b, c * 256 + d]"
    then have l: "length hs = 6" "us \<noteq> []" using w(3) by auto
    then have s: "lower s = (join '':'' us @ '':'') @ q" using w(1) q(1) by (simp add: join_snoc)
    from cut_colon_join [of us "[]"] hextets_ok [OF q(2)] l(2)
    have "cut_colon (join '':'' us @ '':'') = join '':'' us" by simp
    with expand_quad [OF s q(3)] expand_parts_one [OF q(2), of "[Some (a * 256 + b), Some (c * 256 + d)]"] l
    show ?thesis by (simp add: q(4))
  qed
next
  fix us ws l r
  assume w: "lower s = join '':'' us @ ''::'' @ join '':'' ws" "hextets us = Some l"
    "tail_hextets ws = Some r" "length l + length r \<le> 7"
    "g = l @ replicate (8 - length l - length r) 0 @ r"
  from tail_hextets_cases [OF w(3)] show ?thesis
  proof (elim disjE exE conjE)
    assume h: "hextets ws = Some r"
    from expand_parts_two [OF w(2) h, of "[]"] w(4) hextets_no_dot [OF h] hextets_no_dot [OF w(2)]
      expand_no_dot [of s] show ?thesis by (simp add: w(1,5))
  next
    fix vs q hs and a b c d :: int
    let ?suf = "[Some (a * 256 + b), Some (c * 256 + d)]"
    assume q: "ws = vs @ [q]" "hextets vs = Some hs" "inet4 q = Some (a, b, c, d)"
      "r = hs @ [a * 256 + b, c * 256 + d]"
    let ?pre = "join '':'' us @ ''::'' @ join '':'' vs @ (if vs = [] then [] else '':'')"
    have s: "lower s = ?pre @ q" using w(1) q(1) by (simp add: join_snoc)
    have "cut_colon ?pre = join '':'' us @ ''::'' @ join '':'' vs"
    proof (cases "vs = []")
      case True
      then show ?thesis by (simp add: cut_colon_def ends_with_iff)
    next
      case False
      with cut_colon_join [of vs "join '':'' us @ ''::''"] hextets_ok [OF q(2)] show ?thesis by simp
    qed
    moreover have "\<exists>p. ?pre = p @ '':''"
      by (cases "vs = []") (auto intro: exI [of _ "join '':'' us @ '':''"])
    ultimately have "expandIpv6ToHextets s
        = expand_parts (join '':'' us @ ''::'' @ join '':'' vs) ?suf"
      using expand_quad [OF s q(3)] by simp
    with expand_parts_two [OF w(2) q(2), of ?suf] w(4) show ?thesis
      by (simp add: w(5) q(4))
  qed
qed

section \<open>What the funnel decides\<close>

lemma tail_hextets_chars:
  assumes "tail_hextets ws = Some r"
  shows "(\<forall>w \<in> set ws. \<forall>c \<in> set w. digit_val c < 16 \<or> c = CHR ''.'')
    \<and> list_all (\<lambda>h. 0 \<le> h \<and> h < 65536) r \<and> length r \<le> Suc (length ws)"
  using tail_hextets_cases [OF assms]
proof (elim disjE exE conjE)
  assume h: "hextets ws = Some r"
  from hextets_ok [OF h] map_eq_imp_length_eq have "length r = length ws" by metis
  with hextets_ok [OF h] show ?thesis by auto
next
  fix us q hs and a b c d :: int
  assume q: "ws = us @ [q]" "hextets us = Some hs" "inet4 q = Some (a, b, c, d)"
    "r = hs @ [a * 256 + b, c * 256 + d]"
  have "length hs = length us" using hextets_ok [OF q(2)] map_eq_imp_length_eq by metis
  moreover have "digit_val x < 16" if "is_digit x" for x
    using that by (auto simp: digit_val_def is_digit_def)
  ultimately show ?thesis
    using hextets_ok [OF q(2)] inet4_SomeD(2,5) [OF q(3)] q(1,4) by auto
qed

lemma set_join: "set (join sep ws) \<subseteq> set sep \<union> (\<Union>w \<in> set ws. set w)"
  by (induction ws rule: induct_list012) auto

lemma join_chars:
  assumes "\<forall>w \<in> set ws. \<forall>c \<in> set w. P c" and "\<forall>c \<in> set sep. P c"
  shows "\<forall>c \<in> set (join sep ws). P c"
proof
  fix c assume "c \<in> set (join sep ws)"
  with set_join have "c \<in> set sep \<or> (\<exists>w \<in> set ws. c \<in> set w)" by fastforce
  with assms show "P c" by blast
qed

lemma join_sep_in:
  assumes "2 \<le> length ws"
  shows "set sep \<subseteq> set (join sep ws)"
proof -
  obtain u v vs where "ws = u # v # vs" using assms by (cases ws; cases "tl ws") auto
  then show ?thesis by auto
qed

lemma inet6_facts:
  assumes "inet6 s = Some g"
  shows "length g = 8" "list_all (\<lambda>h. 0 \<le> h \<and> h < 65536) g" "CHR '':'' \<in> set s"
    "\<forall>c \<in> set s. \<not> is_space c \<and> c \<noteq> CHR ''%''" "inet4 s = None"
proof -
  let ?P = "\<lambda>c. digit_val c < 16 \<or> c = CHR ''.'' \<or> c = CHR '':''"
  have "CHR '':'' \<in> set (lower s) \<and> (\<forall>c \<in> set (lower s). ?P c)
      \<and> length g = 8 \<and> list_all (\<lambda>h. 0 \<le> h \<and> h < 65536) g"
    using inet6_cases [OF assms]
  proof (elim disjE exE conjE, goal_cases)
    case (1 ws)
    note t = tail_hextets_chars [OF 1(2)]
    then have "\<forall>c \<in> set (join '':'' ws). ?P c" by (intro join_chars) auto
    moreover have "CHR '':'' \<in> set (join '':'' ws)"
      using t 1(3) join_sep_in [of ws "'':''"] by auto
    ultimately show ?case using t 1 by simp
  next
    case (2 us ws l r)
    note t = tail_hextets_chars [OF 2(3)] and h = hextets_ok [OF 2(2)]
    from t have "\<forall>c \<in> set (join '':'' ws). ?P c" by (intro join_chars) auto
    moreover from h have "\<forall>c \<in> set (join '':'' us). ?P c" by (intro join_chars) auto
    ultimately have "\<forall>c \<in> set (lower s). ?P c" unfolding 2(1) by auto
    moreover have "CHR '':'' \<in> set (lower s)" unfolding 2(1) by simp
    moreover have "list_all (\<lambda>h. 0 \<le> h \<and> h < 65536) g"
      using t h unfolding 2(5) by (auto simp: list_all_iff)
    moreover have "length g = 8" using 2(4,5) by simp
    ultimately show ?case by blast
  qed
  then have colon: "CHR '':'' \<in> set (lower s)" and chars: "\<forall>c \<in> set (lower s). ?P c"
    and g: "length g = 8" "list_all (\<lambda>h. 0 \<le> h \<and> h < 65536) g" by blast+
  show "length g = 8" "list_all (\<lambda>h. 0 \<le> h \<and> h < 65536) g" by fact+
  have code_colon: "lower_char c = CHR '':'' \<Longrightarrow> c = CHR '':''" for c
    by (simp add: lower_char_eq_low code_def)
  from colon obtain c where "c \<in> set s" "lower_char c = CHR '':''" by (auto simp: lower_def)
  with code_colon show c: "CHR '':'' \<in> set s" by metis
  have same: "lower_char c = c" if "is_space c \<or> c = CHR ''%''" for c
    using that by (auto simp: lower_char_def is_upper_def is_space_def code_def)
  have "\<not> (digit_val c < 16 \<or> c = CHR ''.'' \<or> c = CHR '':'')" if "is_space c \<or> c = CHR ''%''" for c
    using that hex_char(1,6) [of c] by (auto simp: is_space_def code_def)
  moreover have "lower_char c \<in> set (lower s)" if "c \<in> set s" for c
    using that by (simp add: lower_def)
  ultimately show "\<forall>c \<in> set s. \<not> is_space c \<and> c \<noteq> CHR ''%''"
    using same chars by metis
  show "inet4 s = None" using c inet4_SomeD(4) [of s] by (cases "inet4 s") auto
qed

lemma trim_no_space: "\<forall>c \<in> set s. \<not> is_space c \<Longrightarrow> trim s = s"
proof -
  assume a: "\<forall>c \<in> set s. \<not> is_space c"
  then have "dropWhile is_space s = s" by (cases s) auto
  moreover from a have "dropWhile is_space (rev s) = rev s" by (cases "rev s") auto
  ultimately show ?thesis by (simp add: trim_def)
qed

text \<open>A host is a literal followed by nothing or by a zone.\<close>

lemma normalize_bare:
  assumes "\<forall>c \<in> set s. \<not> is_space c \<and> c \<noteq> CHR ''%''" and "s \<noteq> []" and "isIP s \<noteq> 0"
  shows "normalizeIpLiteral (s @ CHR ''%'' # y) = normalizeIpLiteral s"
proof -
  have "takeWhile (\<lambda>c. c \<noteq> CHR ''%'') (s @ CHR ''%'' # y) = s"
    using assms by (subst takeWhile_append2) auto
  moreover have "CHR ''%'' \<notin> set s" using assms(1) by auto
  moreover have "trim s = s" using assms(1) by (intro trim_no_space) auto
  ultimately show ?thesis
    using assms(2,3) by (simp add: normalizeIpLiteral_def)
qed

lemma normalize_inet4:
  assumes "inet4 s = Some q"
  shows "normalizeIpLiteral s = Ipv4 s" "\<forall>c \<in> set s. \<not> is_space c \<and> c \<noteq> CHR ''%''"
proof -
  obtain a b c d where q: "inet4 s = Some (a, b, c, d)" using assms by (cases q) auto
  have "\<not> is_space CHR ''.''" by (simp add: is_space_def code_def)
  with inet4_SomeD(5) [OF q] is_digit_not
  show ns: "\<forall>c \<in> set s. \<not> is_space c \<and> c \<noteq> CHR ''%''" by fast
  then have "trim s = s" "CHR ''%'' \<notin> set s" by (auto intro: trim_no_space)
  moreover have "isIP s = 4" "s \<noteq> []" using q inet4_SomeD(3) [OF q] by (auto simp: isIP_def)
  ultimately show "normalizeIpLiteral s = Ipv4 s" by (simp add: normalizeIpLiteral_def)
qed

definition reserved4 :: "int \<Rightarrow> int \<Rightarrow> bool" where
  "reserved4 h l \<longleftrightarrow> list_ex (\<lambda>r. rule_matches r
     (addr4 (h div 256) (h mod 256) (l div 256) (l mod 256))) blockedIpv4List"

definition reserved6 :: "int list \<Rightarrow> bool" where
  "reserved6 g \<longleftrightarrow> list_ex (\<lambda>r. rule_matches r (addr6 g)) blockedIpv6List"

lemma check4_hextets:
  assumes "0 \<le> h" "h < 65536" "0 \<le> l" "l < 65536"
  shows "check4 (hextetsToIpv4 (Some h) (Some l)) = reserved4 h l"
  using inet4_hextets [OF assms] by (simp add: check4_def reserved4_def)

lemma check4_quad:
  assumes "inet4 s = Some (a, b, c, d)"
  shows "check4 s = reserved4 (a * 256 + b) (c * 256 + d)"
  using inet4_SomeD(2) [OF assms] assms by (simp add: check4_def reserved4_def)

lemma inet6_mapped:
  assumes "inet6 s = Some g" and "lower s = ''::ffff:'' @ m"
  shows "\<exists>r. tail_hextets (split_on CHR '':'' m) = Some r \<and> length r \<le> 6 \<and>
    g = replicate (7 - length r) 0 @ 65535 # r"
proof -
  obtain v vs where v: "split_on CHR '':'' m = v # vs" by (cases "split_on CHR '':'' m") auto
  have f: "hextet ''ffff'' = Some 65535" by code_simp
  define u where "u = ''ffff:'' @ m"
  have "split_on CHR '':'' u = ''ffff'' # v # vs"
    using split_on_append_sep [of "CHR '':''" "''ffff''" m]
      split_on_no_sep [of "CHR '':''" "''ffff''"] v by (simp add: u_def)
  then have gr: "groups u = ''ffff'' # v # vs" "groups [] = []"
    by (auto simp: groups_def)
  obtain b bs where b: "split_dcolon u = b # bs"
    using split_dcolon_not_Nil [of u] by (cases "split_dcolon u") blast+
  then have sp: "split_dcolon (lower s) = [] # b # bs"
    using split_dcolon_sep [of u] by (simp add: assms(2) u_def)
  with assms(1) have "bs = []" by (auto simp: inet6_def split: list.splits)
  with split_dcolon_join_all [of u] b have "b = u" by simp
  with sp \<open>bs = []\<close> assms(1) gr f show ?thesis
    by (auto simp: inet6_def v split: option.splits if_splits)
qed

lemma mapped_prefix:
  assumes "length r \<le> 6"
  shows "take 6 (replicate (7 - length r) 0 @ 65535 # r) = [0, 0, 0, 0, 0, (65535 :: int)]
     \<longleftrightarrow> length r = 2"
proof -
  from assms consider "r = []" | a where "r = [a]" | a b where "r = [a, b]"
    | a b c r' where "r = a # b # c # r'" "length r' \<le> 3"
    by (cases r; cases "tl r"; cases "tl (tl r)") auto
  then show ?thesis
  proof cases
    case (4 a b c r')
    then consider "length r' = 0" | "length r' = 1" | "length r' = 2" | "length r' = 3"
      by linarith
    then show ?thesis by cases (simp_all add: 4(1) numeral_eq_Suc)
  qed (simp_all add: numeral_eq_Suc)
qed

lemma mapped_last:
  "length r = 2 \<Longrightarrow> (replicate (7 - length r) 0 @ 65535 # r) ! 6 = r ! 0
     \<and> (replicate (7 - length r) (0 :: int) @ 65535 # r) ! 7 = r ! 1"
  by (simp add: nth_append nth_Cons numeral_eq_Suc)

lemma isIP_inet6: "inet6 s = Some g \<Longrightarrow> isIP s = 6"
  using inet6_facts(5) by (simp add: isIP_def)

lemma normalize_inet6:
  assumes "inet6 s = Some g"
  shows "normalizeIpLiteral s =
    (if starts_with (lower s) ''::ffff:''
     then (let mapped = drop 7 (lower s); parts = split_on CHR '':'' mapped in
       if CHR ''.'' \<in> set mapped then (if isIP mapped = 4 then Ipv4 mapped else Invalid_Ip)
       else if length parts \<noteq> 2 then Invalid_Ip
       else if \<not> in_hextet (parse_int 16 (parts ! 0)) \<or> \<not> in_hextet (parse_int 16 (parts ! 1))
       then Invalid_Ip
       else Ipv4 (hextetsToIpv4 (parse_int 16 (parts ! 0)) (parse_int 16 (parts ! 1))))
     else if take 6 g = [0x64, 0xff9b, 0, 0, 0, 0]
     then Ipv4 (hextetsToIpv4 (Some (g ! 6)) (Some (g ! 7)))
     else Ipv6 s)"
proof -
  note f = inet6_facts [OF assms]
  have "trim s = s" using f(4) by (intro trim_no_space) blast
  moreover have "CHR ''%'' \<notin> set s" using f(4) by blast
  moreover have "s \<noteq> []" using f(3) by (cases s) simp_all
  moreover have at: "at (map Some g) i = Some (g ! i)" if "i < 8" for i
    using that f(1) by (simp add: at_def)
  moreover have "take 6 g = [0x64, 0xff9b, 0, 0, 0, 0] \<longleftrightarrow>
      g ! 0 = 0x64 \<and> g ! 1 = 0xff9b \<and> g ! 2 = 0 \<and> g ! 3 = 0 \<and> g ! 4 = 0 \<and> g ! 5 = 0"
  proof -
    have "take 6 g = map ((!) g) [0..<6]"
      using f(1) by (intro nth_equalityI) simp_all
    moreover have "[0..<6] = [0, 1, 2, 3, 4, 5 :: nat]" by (simp add: upt_rec)
    ultimately show ?thesis by simp
  qed
  ultimately show ?thesis
    using isIP_inet6 [OF assms]
    by (simp add: normalizeIpLiteral_def expand_inet6 [OF assms] Let_def)
qed

lemma blocked_mapped:
  assumes "inet6 s = Some g" and "lower s = ''::ffff:'' @ m"
  shows "isBlockedIpAddress s \<longleftrightarrow>
    (take 6 g = [0, 0, 0, 0, 0, 0xffff] \<longrightarrow> reserved4 (g ! 6) (g ! 7))"
proof -
  obtain r where r: "tail_hextets (split_on CHR '':'' m) = Some r" "length r \<le> 6"
    "g = replicate (7 - length r) 0 @ 65535 # r"
    using inet6_mapped [OF assms] by blast
  have sw: "starts_with (lower s) ''::ffff:''" "drop 7 (lower s) = m"
    by (simp_all add: assms(2) starts_with_iff)
  have m: "join '':'' (split_on CHR '':'' m) = m" by simp
  from tail_hextets_cases [OF r(1)] show ?thesis
  proof (elim disjE exE conjE)
    assume h: "hextets (split_on CHR '':'' m) = Some r"
    note ok = hextets_ok [OF h]
    have "CHR ''.'' \<notin> set m" using hextets_no_dot [OF h] by simp
    moreover have len: "length (split_on CHR '':'' m) = length r"
      using ok map_eq_imp_length_eq by metis
    moreover have "check4 (hextetsToIpv4 (parse_int 16 (split_on CHR '':'' m ! 0))
        (parse_int 16 (split_on CHR '':'' m ! 1))) = reserved4 (r ! 0) (r ! 1)
      \<and> in_hextet (parse_int 16 (split_on CHR '':'' m ! 0))
      \<and> in_hextet (parse_int 16 (split_on CHR '':'' m ! 1))" if l: "length r = 2"
    proof -
      obtain x y where xy: "r = [x, y]" using l by (auto simp: length_Suc_conv numeral_eq_Suc)
      obtain u v where uv: "split_on CHR '':'' m = [u, v]"
        using l len by (auto simp: length_Suc_conv numeral_eq_Suc)
      from ok show ?thesis by (simp add: xy uv check4_hextets in_hextet_def)
    qed
    ultimately show ?thesis
      using mapped_prefix [OF r(2)] mapped_last [of r] sw
      by (simp add: isBlockedIpAddress_def normalize_inet6 [OF assms(1)] Let_def r(3))
  next
    fix us q hs and a b c d :: int
    assume q: "split_on CHR '':'' m = us @ [q]" "hextets us = Some hs"
      "inet4 q = Some (a, b, c, d)" "r = hs @ [a * 256 + b, c * 256 + d]"
    have len: "length hs = length us" using hextets_ok [OF q(2)] map_eq_imp_length_eq by metis
    have dot: "CHR ''.'' \<in> set m"
      using set_split_on [of q "CHR '':''" m] inet4_SomeD(3) [OF q(3)] q(1) by auto
    show ?thesis
    proof (cases "us = []")
      case True
      with m q have "m = q" by simp
      with True q have "isIP m = 4" "check4 m = reserved4 (r ! 0) (r ! 1)" "length r = 2"
        using len by (simp_all add: isIP_def check4_quad)
      with dot show ?thesis
        using mapped_prefix [OF r(2)] mapped_last [of r] sw
        by (simp add: isBlockedIpAddress_def normalize_inet6 [OF assms(1)] Let_def r(3))
    next
      case False
      then have "2 \<le> length (split_on CHR '':'' m)" by (cases us) (auto simp: q(1))
      with join_sep_in [of "split_on CHR '':'' m" "'':''"] have "CHR '':'' \<in> set m" by simp
      then have "isIP m \<noteq> 4" using inet4_SomeD(4) [of m]
        by (cases "inet4 m") (auto simp: isIP_def)
      with dot False len q(4) show ?thesis
        using mapped_prefix [OF r(2)] sw
        by (simp add: isBlockedIpAddress_def normalize_inet6 [OF assms(1)] Let_def r(3))
    qed
  qed
qed

lemma blocked_inet6:
  assumes "inet6 s = Some g"
  shows "isBlockedIpAddress s \<longleftrightarrow>
    (if starts_with (lower s) ''::ffff:''
     then take 6 g = [0, 0, 0, 0, 0, 0xffff] \<longrightarrow> reserved4 (g ! 6) (g ! 7)
     else if take 6 g = [0x64, 0xff9b, 0, 0, 0, 0] then reserved4 (g ! 6) (g ! 7)
     else reserved6 g)"
proof (cases "starts_with (lower s) ''::ffff:''")
  case True
  then obtain m where "lower s = ''::ffff:'' @ m" by (auto simp: starts_with_iff)
  from blocked_mapped [OF assms this] True show ?thesis by simp
next
  case False
  note f = inet6_facts [OF assms]
  then have "0 \<le> g ! 6 \<and> g ! 6 < 65536" "0 \<le> g ! 7 \<and> g ! 7 < 65536"
    by (simp_all add: list_all_length)
  with False check4_hextets show ?thesis
    by (simp add: isBlockedIpAddress_def normalize_inet6 [OF assms] check6_def reserved6_def assms)
qed

section \<open>The ranges as numbers\<close>

text \<open>The address ranges the lists stand for, by first and second octet or by first group.\<close>

definition internal4 :: "int \<Rightarrow> int \<Rightarrow> bool" where
  "internal4 a b \<longleftrightarrow> a = 0 \<or> a = 10 \<or> a = 127 \<or> 224 \<le> a
     \<or> a = 100 \<and> 64 \<le> b \<and> b \<le> 127 \<or> a = 169 \<and> b = 254 \<or> a = 172 \<and> 16 \<le> b \<and> b \<le> 31
     \<or> a = 192 \<and> b = 168 \<or> a = 198 \<and> 18 \<le> b \<and> b \<le> 19"

definition internal6 :: "int list \<Rightarrow> bool" where
  "internal6 g \<longleftrightarrow> g = [0, 0, 0, 0, 0, 0, 0, 0] \<or> g = [0, 0, 0, 0, 0, 0, 0, 1]
     \<or> 0xfc00 \<le> g ! 0 \<and> g ! 0 \<le> 0xfdff \<or> 0xfe80 \<le> g ! 0 \<and> g ! 0 \<le> 0xfebf \<or> 0xff00 \<le> g ! 0"

lemma uint_drop_bit_of_int:
  assumes "0 \<le> x" "x < 2 ^ LENGTH('a)"
  shows "uint (drop_bit n (word_of_int x :: 'a::len word)) = x div 2 ^ n"
proof -
  have "uint (word_of_int x :: 'a word) = x"
    using assms by (simp add: take_bit_int_eq_self uint_word_of_int_eq)
  then have "uint (drop_bit n (word_of_int x :: 'a word)) = drop_bit n (take_bit LENGTH('a) x)"
    by (simp only: unsigned_drop_bit_eq)
  with assms show ?thesis by (simp add: take_bit_int_eq_self drop_bit_eq_div)
qed

lemma drop_bit_word_of_int:
  assumes "0 \<le> x" "x < 2 ^ LENGTH('a)" "0 \<le> y" "y < 2 ^ LENGTH('a)"
  shows "drop_bit n (word_of_int x :: 'a::len word) = drop_bit n (word_of_int y)
     \<longleftrightarrow> x div 2 ^ n = y div 2 ^ n"
  by (simp only: word_uint_eq_iff uint_drop_bit_of_int [OF assms(1,2)]
        uint_drop_bit_of_int [OF assms(3,4)])

lemma digit_div: "0 \<le> r \<Longrightarrow> r < m \<Longrightarrow> (p * m + r) div m = (p :: int)"
  by simp

lemma digit_inject:
  assumes "0 \<le> h" "h < m" "0 \<le> k" "k < (m :: int)"
  shows "x * m + h = y * m + k \<longleftrightarrow> x = y \<and> h = k"
  using digit_div [OF assms(1,2), of x] digit_div [OF assms(3,4), of y] by auto

lemma div_eq_range:
  assumes "0 < m"
  shows "x div m = k \<longleftrightarrow> k * m \<le> x \<and> x < k * m + (m :: int)"
proof
  assume "x div m = k"
  then have "x = k * m + x mod m" by (metis div_mult_mod_eq)
  with pos_mod_bound [OF assms, of x] pos_mod_sign [OF assms, of x]
  show "k * m \<le> x \<and> x < k * m + m" by linarith
next
  assume "k * m \<le> x \<and> x < k * m + m"
  then show "x div m = k" using int_div_pos_eq [of x m k "x - k * m"] by (simp add: mult.commute)
qed

lemma pair_range:
  assumes "0 \<le> b" "b < 256" "0 \<le> lo" "hi < (256 :: int)"
    and "l = k * 256 + lo" "u = k * 256 + hi + 1"
  shows "l \<le> a * 256 + b \<and> a * 256 + b < u
    \<longleftrightarrow> a = k \<and> lo \<le> b \<and> b \<le> hi"
proof
  assume r: "l \<le> a * 256 + b \<and> a * 256 + b < u"
  with assms have "a = k" by linarith
  with r assms(5,6) show "a = k \<and> lo \<le> b \<and> b \<le> hi" by simp
qed (simp add: assms(5,6))

lemma div_high:
  assumes "0 \<le> r" "r < (2 :: int) ^ m"
  shows "(p * 2 ^ m + r) div 2 ^ (m + k) = p div 2 ^ k"
  using zdiv_zmult2_eq [of "2 ^ k" "p * 2 ^ m + r" "2 ^ m"] digit_div [OF assms, of p]
  by (simp add: power_add)

lemma subnet4:
  assumes "0 \<le> a \<and> a < 256 \<and> 0 \<le> b \<and> b < 256 \<and> 0 \<le> c \<and> c < 256 \<and> 0 \<le> d \<and> (d :: int) < 256"
    and "0 \<le> e \<and> e < 256 \<and> 0 \<le> f \<and> f < (256 :: int)" and "p \<le> 16"
  shows "rule_matches (Subnet (addr4 e f 0 0) p) (addr4 a b c d) \<longleftrightarrow>
    (a * 256 + b) div 2 ^ (16 - p) = (e * 256 + f) div 2 ^ (16 - p)"
proof -
  have addr: "addr4 a b c d = word_of_int ((a * 256 + b) * 2 ^ 16 + (c * 256 + d))"
    "addr4 e f 0 0 = word_of_int ((e * 256 + f) * 2 ^ 16 + 0)"
    by (simp_all add: addr4_def algebra_simps)
  have r: "0 \<le> c * 256 + d" "c * 256 + d < 2 ^ 16" "(0 :: int) \<le> 0" "(0 :: int) < 2 ^ 16"
    using assms(1) by auto
  have v: "0 \<le> (a * 256 + b) * 2 ^ 16 + (c * 256 + d)"
    "(a * 256 + b) * 2 ^ 16 + (c * 256 + d) < 2 ^ LENGTH(32)"
    "0 \<le> (e * 256 + f) * 2 ^ 16 + 0" "(e * 256 + f) * 2 ^ 16 + 0 < 2 ^ LENGTH(32)"
    using assms(1,2) by auto
  have "LENGTH(32) - p = 16 + (16 - p)" using assms(3) by simp
  then show ?thesis
    unfolding rule_matches.simps addr drop_bit_word_of_int [OF v]
    by (simp only: div_high [OF r(1,2)] div_high [OF r(3,4)])
qed

lemma reserved4_iff:
  assumes "0 \<le> a \<and> a < 256 \<and> 0 \<le> b \<and> b < 256 \<and> 0 \<le> c \<and> c < 256 \<and> 0 \<le> d \<and> (d :: int) < 256"
  shows "reserved4 (a * 256 + b) (c * 256 + d) \<longleftrightarrow> internal4 a b"
proof -
  have q: "(a * 256 + b) div 256 = a" "(a * 256 + b) mod 256 = b"
    "(c * 256 + d) div 256 = c" "(c * 256 + d) mod 256 = d"
    using assms by auto
  have base: "reserved4 (a * 256 + b) (c * 256 + d) \<longleftrightarrow>
      a = 0 \<or> a = 10 \<or> (a * 256 + b) div 64 = 401 \<or> a = 127 \<or> a * 256 + b = 43518
      \<or> (a * 256 + b) div 16 = 2753 \<or> a * 256 + b = 49320 \<or> (a * 256 + b) div 2 = 25353
      \<or> (a * 256 + b) div 4096 = 14 \<or> (a * 256 + b) div 4096 = 15"
    unfolding reserved4_def q(1-4) blockedIpv4List_def
    by (simp add: subnet4 [OF assms] q del: rule_matches.simps)
  have ab: "0 \<le> a" "a < 256" "0 \<le> b" "b < 256" using assms by auto
  have e1: "(a * 256 + b) div 64 = 401 \<longleftrightarrow> a = 100 \<and> 64 \<le> b \<and> b \<le> 127"
    using pair_range [of b 64 127 25664 100 25728 a] ab by (simp add: div_eq_range)
  have e2: "(a * 256 + b) div 16 = 2753 \<longleftrightarrow> a = 172 \<and> 16 \<le> b \<and> b \<le> 31"
    using pair_range [of b 16 31 44048 172 44064 a] ab by (simp add: div_eq_range)
  have e3: "(a * 256 + b) div 2 = 25353 \<longleftrightarrow> a = 198 \<and> 18 \<le> b \<and> b \<le> 19"
    using pair_range [of b 18 19 50706 198 50708 a] ab by (simp add: div_eq_range)
  have e4: "a * 256 + b = 43518 \<longleftrightarrow> a = 169 \<and> b = 254"
    using digit_inject [of b 256 254 a 169] ab by simp
  have e5: "a * 256 + b = 49320 \<longleftrightarrow> a = 192 \<and> b = 168"
    using digit_inject [of b 256 168 a 192] ab by simp
  have e6: "(a * 256 + b) div 4096 = 14 \<or> (a * 256 + b) div 4096 = 15 \<longleftrightarrow> 224 \<le> a"
    using ab by (auto simp: div_eq_range)
  show ?thesis unfolding base internal4_def e1 e2 e3 e4 e5 e6 by blast
qed

section \<open>Sixteen-bit groups as one number\<close>

definition group_value :: "int list \<Rightarrow> int" where
  "group_value g = foldl (\<lambda>v h. v * 65536 + h) 0 g"

lemma group_value_snoc: "group_value (g @ [h]) = group_value g * 65536 + h"
  by (simp add: group_value_def)

lemma group_value_bound:
  "list_all (\<lambda>h. 0 \<le> h \<and> h < 65536) g \<Longrightarrow> 0 \<le> group_value g \<and> group_value g < 65536 ^ length g"
proof (induction g rule: rev_induct)
  case (snoc h g)
  then have "group_value g + 1 \<le> 65536 ^ length g" "0 \<le> group_value g" "0 \<le> h" "h < 65536" by auto
  then show ?case by (simp add: group_value_snoc)
qed (simp add: group_value_def)

lemma group_value_inject:
  "length g = length g' \<Longrightarrow> list_all (\<lambda>h. 0 \<le> h \<and> h < 65536) g \<Longrightarrow>
     list_all (\<lambda>h. 0 \<le> h \<and> h < 65536) g' \<Longrightarrow> group_value g = group_value g' \<longleftrightarrow> g = g'"
proof (induction g arbitrary: g' rule: rev_induct)
  case (snoc h g)
  then obtain k q where g': "g' = q @ [k]" by (cases g' rule: rev_cases) auto
  have "group_value g * 65536 + h = group_value q * 65536 + k
      \<longleftrightarrow> group_value g = group_value q \<and> h = k"
    using snoc.prems by (intro digit_inject) (auto simp: g')
  with snoc show ?case by (auto simp: g' group_value_snoc)
qed simp

lemma group_value_first:
  "list_all (\<lambda>h. 0 \<le> h \<and> h < 65536) (h # t) \<Longrightarrow>
     group_value (h # t) div 65536 ^ length t = h"
proof (induction t rule: rev_induct)
  case (snoc k t)
  then have "group_value (h # t) div 65536 ^ length t = h" "0 \<le> k" "k < 65536" by auto
  then have "(group_value (h # t) * 65536 + k) div 65536 = group_value (h # t)" by simp
  with snoc show ?case
    using group_value_snoc [of "h # t" k]
    by (simp add: zdiv_zmult2_eq)
qed (simp add: group_value_def)

lemma subnet6:
  assumes "list_all (\<lambda>h. 0 \<le> h \<and> h < 65536) g" "length g = 8"
    and "0 \<le> e" "e < 65536" "p \<le> 16"
  shows "rule_matches (Subnet (addr6 [e, 0, 0, 0, 0, 0, 0, 0]) p) (addr6 g) \<longleftrightarrow>
    g ! 0 div 2 ^ (16 - p) = e div 2 ^ (16 - p)"
proof -
  obtain h t where g: "g = h # t" "length t = 7" using assms(2) by (cases g) auto
  let ?e = "e # replicate 7 0"
  have r: "replicate 7 0 = [0, 0, 0, 0, 0, 0, 0 :: int]" by (simp add: numeral_eq_Suc)
  have be: "list_all (\<lambda>h. 0 \<le> h \<and> h < 65536) ?e" using assms(3,4) by (simp add: list_all_iff)
  have first: "group_value g div 2 ^ 112 = h" "group_value ?e div 2 ^ 112 = e"
    using group_value_first [of h t] group_value_first [OF be] assms(1) g by simp_all
  have v: "0 \<le> group_value g" "group_value g < 2 ^ LENGTH(128)"
    "0 \<le> group_value ?e" "group_value ?e < 2 ^ LENGTH(128)"
    using group_value_bound [OF assms(1)] group_value_bound [OF be] assms(2) by simp_all
  have "LENGTH(128) - p = 112 + (16 - p)" using assms(5) by simp
  then have "2 ^ (LENGTH(128) - p) = (2 :: int) ^ 112 * 2 ^ (16 - p)"
    by (simp only: power_add)
  then have dv: "x div 2 ^ (LENGTH(128) - p) = x div 2 ^ 112 div 2 ^ (16 - p)" for x :: int
    by (simp only: zdiv_zmult2_eq zero_le_power zero_le_numeral)
  have "addr6 g = word_of_int (group_value g)"
    "addr6 [e, 0, 0, 0, 0, 0, 0, 0] = word_of_int (group_value ?e)"
    by (simp_all add: addr6_def group_value_def r)
  then show ?thesis
    unfolding rule_matches.simps drop_bit_word_of_int [OF v] dv first
    by (simp only: drop_bit_word_of_int [OF v] dv first) (simp add: g)
qed

lemma address6:
  assumes "list_all (\<lambda>h. 0 \<le> h \<and> h < 65536) g" "length g = 8"
    and "list_all (\<lambda>h. 0 \<le> h \<and> h < 65536) g'" "length g' = 8"
  shows "rule_matches (Address (addr6 g')) (addr6 g) \<longleftrightarrow> g = g'"
proof -
  have "group_value g < 2 ^ 128" "group_value g' < 2 ^ 128" "0 \<le> group_value g" "0 \<le> group_value g'"
    using group_value_bound [OF assms(1)] group_value_bound [OF assms(3)] assms(2,4) by simp_all
  then have "addr6 g = addr6 g' \<longleftrightarrow> group_value g = group_value g'"
    by (simp add: addr6_def group_value_def [symmetric] word_uint_eq_iff uint_word_of_int_eq
        take_bit_int_eq_self)
  with group_value_inject [of g g'] assms show ?thesis by simp
qed

lemma reserved6_iff:
  assumes "list_all (\<lambda>h. 0 \<le> h \<and> h < 65536) g" "length g = 8"
  shows "reserved6 g \<longleftrightarrow> internal6 g"
proof -
  have "0 \<le> g ! 0" "g ! 0 < 65536" using assms by (simp_all add: list_all_length)
  then have "g ! 0 div 512 = 126 \<longleftrightarrow> 0xfc00 \<le> g ! 0 \<and> g ! 0 \<le> 0xfdff"
    "g ! 0 div 64 = 1018 \<longleftrightarrow> 0xfe80 \<le> g ! 0 \<and> g ! 0 \<le> 0xfebf"
    "g ! 0 div 256 = 255 \<longleftrightarrow> 0xff00 \<le> g ! 0"
    by (simp_all add: div_eq_range) linarith+
  then show ?thesis
    unfolding reserved6_def internal6_def blockedIpv6List_def
    by (simp add: subnet6 [OF assms] address6 [OF assms] del: rule_matches.simps)
qed

text \<open>What the funnel returns is a literal it leaves alone.\<close>

lemma normalize_stable4:
  assumes "normalizeIpLiteral h = Ipv4 v"
  shows "inet4 v \<noteq> None"
proof -
  have hex: "inet4 (hextetsToIpv4 x y) \<noteq> None" if "in_hextet x" "in_hextet y" for x y
    using that inet4_hextets by (auto simp: in_hextet_def split: option.splits)
  have nat64: "inet4 (hextetsToIpv4 (at (expandIpv6ToHextets b) 6) (at (expandIpv6ToHextets b) 7)) \<noteq> None"
    if "isIP b \<noteq> 0" "isIP b \<noteq> 4" for b
  proof -
    from that have "inet6 b \<noteq> None" unfolding isIP_def by (metis)
    then obtain g where g: "inet6 b = Some g" by blast
    from inet6_facts [OF g] have "at (map Some g) 6 = Some (g ! 6) \<and> at (map Some g) 7 = Some (g ! 7)
        \<and> 0 \<le> g ! 6 \<and> g ! 6 < 65536 \<and> 0 \<le> g ! 7 \<and> g ! 7 < 65536"
      by (simp add: at_def list_all_length)
    with inet4_hextets show ?thesis by (simp add: expand_inet6 [OF g])
  qed
  have four: "isIP w = 4 \<Longrightarrow> inet4 w \<noteq> None" for w by (simp add: isIP_def split: if_splits)
  show ?thesis
    using assms hex nat64 four
    unfolding normalizeIpLiteral_def Let_def
    by (auto split: if_splits)
qed

lemma normalize_stable6:
  assumes "normalizeIpLiteral h = Ipv6 v"
  shows "normalizeIpLiteral v = Ipv6 v"
proof -
  let ?b = "trim (if CHR ''%'' \<in> set h then takeWhile (\<lambda>c. c \<noteq> CHR ''%'') h else h)"
  from assms have v: "v = ?b" "isIP ?b \<noteq> 4" "isIP ?b \<noteq> 0"
    and rest: "\<not> starts_with (lower ?b) ''::ffff:''"
      "\<not> (at (expandIpv6ToHextets ?b) 0 = Some 0x0064 \<and> at (expandIpv6ToHextets ?b) 1 = Some 0xff9b
         \<and> at (expandIpv6ToHextets ?b) 2 = Some 0 \<and> at (expandIpv6ToHextets ?b) 3 = Some 0
         \<and> at (expandIpv6ToHextets ?b) 4 = Some 0 \<and> at (expandIpv6ToHextets ?b) 5 = Some 0)"
    unfolding normalizeIpLiteral_def Let_def by (auto split: if_splits)
  then obtain g where g: "inet6 v = Some g" by (auto simp: isIP_def split: if_splits)
  note f = inet6_facts [OF g]
  have "trim v = v" using f(4) by (intro trim_no_space) blast
  moreover have "CHR ''%'' \<notin> set v" using f(4) by blast
  moreover have "v \<noteq> []" using f(3) by (cases v) simp_all
  ultimately show ?thesis
    using v rest unfolding v(1) [symmetric] normalizeIpLiteral_def [of v] by (simp add: Let_def)
qed

lemma resolved_unblocked:
  assumes "resolveAndValidateTarget lookup h = Target_Ok ip"
  shows "\<not> isBlockedIpAddress ip"
proof (cases "normalizeIpLiteral (stripIpv6Brackets h)")
  case (Ipv4 v)
  with assms have "ip = v" "\<not> check4 v"
    by (auto simp: resolveAndValidateTarget_def isBlockedIpAddress_def Let_def split: if_splits)
  moreover have "normalizeIpLiteral v = Ipv4 v"
    using normalize_stable4 [OF Ipv4] normalize_inet4 by blast
  ultimately show ?thesis by (simp add: isBlockedIpAddress_def)
next
  case (Ipv6 v)
  with assms have "ip = v" "\<not> check6 v"
    by (auto simp: resolveAndValidateTarget_def isBlockedIpAddress_def Let_def split: if_splits)
  with normalize_stable6 [OF Ipv6] show ?thesis by (simp add: isBlockedIpAddress_def)
next
  case Not_Ip
  then obtain as where as: "as \<noteq> []" "find isBlockedIpAddress as = None" "ip = as ! 0"
    using assms
    by (auto simp: resolveAndValidateTarget_def Let_def split: option.splits if_splits)
  then show ?thesis by (cases as) (auto simp: find_None_iff)
next
  case Invalid_Ip
  with assms show ?thesis by (simp add: resolveAndValidateTarget_def Let_def)
qed

lemma reserved4_internal:
  assumes "0 \<le> h" "h < 65536" "0 \<le> l" "l < 65536"
  shows "reserved4 h l \<longleftrightarrow> internal4 (h div 256) (h mod 256)"
proof -
  have "h div 256 < 256" "l div 256 < 256" "0 \<le> h div 256" "0 \<le> l div 256"
    using assms by linarith+
  with reserved4_iff [of "h div 256" "h mod 256" "l div 256" "l mod 256"] show ?thesis by simp
qed

lemma blocked_zone:
  assumes "z = [] \<or> (\<exists>y. z = CHR ''%'' # y)" and "isIP s \<noteq> 0"
    and "\<forall>c \<in> set s. \<not> is_space c \<and> c \<noteq> CHR ''%''" and "s \<noteq> []"
  shows "isBlockedIpAddress (s @ z) = isBlockedIpAddress s"
  using assms(1) normalize_bare [OF assms(3,4,2)] by (auto simp: isBlockedIpAddress_def)

section \<open>Properties\<close>

text \<open>
  the guard reads every spelling of an IPv6 literal the way Node does: for every address
  \<^verbatim>\<open>net.isIP\<close> accepts (upper or lower case, compressed with \<^verbatim>\<open>::\<close> anywhere, with a dotted quad at
  the end), \<^verbatim>\<open>expandIpv6ToHextets\<close> returns the eight 16-bit groups of that address.
\<close>

theorem expand_reads_every_spelling:
  assumes "inet6 s = Some g"
  shows "expandIpv6ToHextets s = map Some g \<and> length g = 8 \<and> (\<forall>h \<in> set g. 0 \<le> h \<and> h < 2 ^ 16)"
  using expand_inet6 [OF assms] inet6_facts(1,2) [OF assms] by (simp add: list_all_iff)

theorem expand_reads_every_spelling_witness:
  "expandIpv6ToHextets ''64:FF9b::10.0.0.1''
     = map Some [0x64, 0xff9b, 0, 0, 0, 0, 0x0a00, 1]"
proof -
  have "inet6 ''64:FF9b::10.0.0.1'' = Some [0x64, 0xff9b, 0, 0, 0, 0, 0x0a00, 1]" by code_simp
  from expand_reads_every_spelling [OF this] show ?thesis by simp
qed

text \<open>
  Which IPv6 literals are refused: an address written \<^verbatim>\<open>::ffff:...\<close> that is IPv4-mapped, or
  one in the NAT64 prefix in any spelling, is refused exactly when the IPv4 address it embeds
  is internal; an address written \<^verbatim>\<open>::ffff:...\<close> that embeds none is always refused; any other
  one exactly when it is unspecified, loopback, unique-local, link-local or multicast. A zone
  after the literal changes nothing.
\<close>

theorem ipv6_blocked_iff:
  assumes "inet6 s = Some g" and "z = [] \<or> (\<exists>y. z = CHR ''%'' # y)"
  shows "isBlockedIpAddress (s @ z) \<longleftrightarrow>
    (if starts_with (lower s) ''::ffff:''
     then take 6 g = [0, 0, 0, 0, 0, 0xffff] \<longrightarrow> internal4 (g ! 6 div 256) (g ! 6 mod 256)
     else if take 6 g = [0x64, 0xff9b, 0, 0, 0, 0] then internal4 (g ! 6 div 256) (g ! 6 mod 256)
     else internal6 g)"
proof -
  note f = inet6_facts [OF assms(1)]
  then have b: "0 \<le> g ! 6" "g ! 6 < 65536" "0 \<le> g ! 7" "g ! 7 < 65536"
    by (simp_all add: list_all_length)
  have "s \<noteq> []" using f(3) by (cases s) simp_all
  then have "isBlockedIpAddress (s @ z) = isBlockedIpAddress s"
    using blocked_zone [OF assms(2)] isIP_inet6 [OF assms(1)] f(4) by simp
  then show ?thesis
    using blocked_inet6 [OF assms(1)] reserved4_internal [OF b] reserved6_iff [OF f(2,1)] by simp
qed

theorem ipv6_blocked_iff_witness:
  "isBlockedIpAddress ''64:ff9b:0:0:0:0:a9fe:a9fe%eth0'' \<and> \<not> isBlockedIpAddress ''2001:db8::1''"
proof -
  have g: "inet6 ''64:ff9b:0:0:0:0:a9fe:a9fe'' = Some [0x64, 0xff9b, 0, 0, 0, 0, 0xa9fe, 0xa9fe]"
    "inet6 ''2001:db8::1'' = Some [0x2001, 0xdb8, 0, 0, 0, 0, 0, 1]" by code_simp+
  have "\<not> starts_with (lower ''64:ff9b:0:0:0:0:a9fe:a9fe'') ''::ffff:''"
    "\<not> starts_with (lower ''2001:db8::1'') ''::ffff:''" by code_simp+
  with ipv6_blocked_iff [OF g(1), of "''%eth0''"] ipv6_blocked_iff [OF g(2), of "[]"]
  show ?thesis by (simp add: internal4_def internal6_def)
qed

text \<open>
  a dotted quad, with or without a zone, is refused exactly when it lies in this-network,
  private, carrier-grade NAT, loopback, link-local, benchmarking, multicast or reserved space,
  with the bounds of those ranges to the octet.
\<close>

theorem ipv4_blocked_iff:
  assumes "inet4 s = Some (a, b, c, d)" and "z = [] \<or> (\<exists>y. z = CHR ''%'' # y)"
  shows "isBlockedIpAddress (s @ z) \<longleftrightarrow> internal4 a b"
proof -
  note f = normalize_inet4 [OF assms(1)] inet4_SomeD(2,3) [OF assms(1)]
  have "s \<noteq> []" using f(4) by (cases s) simp_all
  moreover have "isIP s \<noteq> 0" using assms(1) by (simp add: isIP_def)
  ultimately have "isBlockedIpAddress (s @ z) = isBlockedIpAddress s"
    using blocked_zone [OF assms(2)] f(2) by blast
  then show ?thesis
    using f(1) check4_quad [OF assms(1)] reserved4_iff [OF f(3)]
    by (simp add: isBlockedIpAddress_def)
qed

theorem ipv4_blocked_iff_witness:
  "isBlockedIpAddress ''172.31.255.255'' \<and> \<not> isBlockedIpAddress ''172.32.0.0''"
proof -
  have "inet4 ''172.31.255.255'' = Some (172, 31, 255, 255)"
    "inet4 ''172.32.0.0'' = Some (172, 32, 0, 0)" by code_simp+
  with ipv4_blocked_iff [of "''172.31.255.255''" 172 31 255 255 "[]"]
    ipv4_blocked_iff [of "''172.32.0.0''" 172 32 0 0 "[]"]
  show ?thesis by (simp add: internal4_def)
qed

text \<open>
  the proxy connects only to addresses that passed the guard: whatever the host name is and
  whatever DNS answers (or fails to), the address the target is pinned to is not refused by
  \<^verbatim>\<open>isBlockedIpAddress\<close>, so a resolver that later answers differently changes nothing.
\<close>

theorem resolve_pins_unblocked:
  assumes "resolveAndValidateTarget lookup h = Target_Ok ip"
  shows "\<not> isBlockedIpAddress ip"
  using assms by (rule resolved_unblocked)

theorem resolve_pins_unblocked_witness:
  "\<not> isBlockedIpAddress ''93.184.216.34''"
proof -
  have i: "inet4 ''93.184.216.34'' = Some (93, 184, 216, 34)" by code_simp
  note n = normalize_inet4(1) [OF i]
  have "check4 ''93.184.216.34'' = reserved4 (93 * 256 + 184) (216 * 256 + 34)"
    using check4_quad [OF i] by simp
  moreover have "\<not> reserved4 (93 * 256 + 184) (216 * 256 + 34)"
    using reserved4_iff [of 93 184 216 34] by (simp add: internal4_def)
  ultimately have "resolveAndValidateTarget (\<lambda>h. None) ''93.184.216.34''
      = Target_Ok ''93.184.216.34''"
    using n by (simp add: resolveAndValidateTarget_def stripIpv6Brackets_def starts_with_def
        isBlockedIpAddress_def Let_def)
  from resolve_pins_unblocked [OF this] show ?thesis .
qed

text \<open>
  The address a literal stands for, zone left out, and whether it is internal: the IPv4 address that an
  IPv4-mapped or a NAT64 address embeds counts.
\<close>

definition bare_literal :: "string \<Rightarrow> string" where
  "bare_literal ip = takeWhile (\<lambda>c. c \<noteq> CHR ''%'') ip"

definition ipv4_mapped :: "int list \<Rightarrow> bool" where
  "ipv4_mapped g \<longleftrightarrow> take 6 g = [0, 0, 0, 0, 0, 0xffff]"

definition nat64 :: "int list \<Rightarrow> bool" where
  "nat64 g \<longleftrightarrow> take 6 g = [0x64, 0xff9b, 0, 0, 0, 0]"

definition internal_address :: "string \<Rightarrow> bool" where
  "internal_address ip =
     (case inet4 (bare_literal ip) of
        Some (a, b, c, d) \<Rightarrow> internal4 a b
      | None \<Rightarrow>
         (case inet6 (bare_literal ip) of
            Some g \<Rightarrow> (if ipv4_mapped g \<or> nat64 g then internal4 (g ! 6 div 256) (g ! 6 mod 256) else internal6 g)
          | None \<Rightarrow> False))"

text \<open>An IPv4-mapped address in the spelling of RFC 5952, the one resolvers and \<^verbatim>\<open>URL\<close> produce.\<close>

definition mapped_compressed :: "string \<Rightarrow> bool" where
  "mapped_compressed ip =
     (case inet6 (bare_literal ip) of
        Some g \<Rightarrow> ipv4_mapped g \<longrightarrow> starts_with (lower (bare_literal ip)) ''::ffff:''
      | None \<Rightarrow> True)"

lemma internal_blocked:
  assumes "internal_address ip" "mapped_compressed ip"
  shows "isBlockedIpAddress ip"
proof -
  let ?s = "bare_literal ip" and ?z = "dropWhile (\<lambda>c. c \<noteq> CHR ''%'') ip"
  have ip: "ip = ?s @ ?z" by (simp add: bare_literal_def)
  have z: "?z = [] \<or> (\<exists>y. ?z = CHR ''%'' # y)"
    using hd_dropWhile [of "\<lambda>c. c \<noteq> CHR ''%''" ip] by (cases ?z) auto
  have "isBlockedIpAddress (?s @ ?z)"
  proof (cases "inet4 ?s")
    case None
    then obtain g where g: "inet6 ?s = Some g"
        "if ipv4_mapped g \<or> nat64 g then internal4 (g ! 6 div 256) (g ! 6 mod 256) else internal6 g"
      using assms(1) by (auto simp: internal_address_def split: option.splits)
    have m: "ipv4_mapped g \<Longrightarrow> starts_with (lower ?s) ''::ffff:''" using assms(2) g(1) by (simp add: mapped_compressed_def)
    show ?thesis unfolding ipv6_blocked_iff [OF g(1) z] 
      using g(2) m by (cases "ipv4_mapped g") (simp_all add: ipv4_mapped_def nat64_def split: if_splits)
  next
    case (Some q)
    obtain a b c d where q: "q = (a, b, c, d)" by (cases q)
    have "internal4 a b" using assms(1) Some q by (simp add: internal_address_def)
    then show ?thesis using ipv4_blocked_iff [OF _ z] Some q by blast
  qed
  then show ?thesis using ip by simp
qed


lemma sample_answer: "inet6 ''2001:db8::1'' = Some [0x2001, 0xdb8, 0, 0, 0, 0, 0, 1]" "inet4 ''2001:db8::1'' = None"
  "bare_literal ''2001:db8::1'' = ''2001:db8::1''" "bare_literal ''h'' = ''h''" "inet4 ''h'' = None" "inet6 ''h'' = None"
  "CHR '':'' \<notin> set ''h''"
  by code_simp+


text \<open>
  The guard matches the mapped prefix by spelling: the uncompressed spelling of an IPv4-mapped
  loopback address is a valid literal and is not refused.
\<close>

lemma mapped_spelled_out:
  "isBlockedIpAddress ''::ffff:7f00:1'' \<and> \<not> isBlockedIpAddress ''0:0:0:0:0:ffff:7f00:1''
    \<and> inet6 ''::ffff:7f00:1'' = inet6 ''0:0:0:0:0:ffff:7f00:1''"
proof -
  have g: "inet6 ''::ffff:7f00:1'' = Some [0, 0, 0, 0, 0, 0xffff, 0x7f00, 1]"
    "inet6 ''0:0:0:0:0:ffff:7f00:1'' = Some [0, 0, 0, 0, 0, 0xffff, 0x7f00, 1]" by code_simp+
  have p: "starts_with (lower ''::ffff:7f00:1'') ''::ffff:''"
    "\<not> starts_with (lower ''0:0:0:0:0:ffff:7f00:1'') ''::ffff:''" by code_simp+
  have "reserved4 0x7f00 1" using reserved4_iff [of 127 0 0 1] by (simp add: internal4_def)
  moreover have "\<not> reserved6 [0, 0, 0, 0, 0, 0xffff, 0x7f00, 1]"
    using reserved6_iff [of "[0, 0, 0, 0, 0, 0xffff, 0x7f00, 1]"] by (simp add: internal6_def)
  ultimately show ?thesis
    using blocked_inet6 [OF g(1)] blocked_inet6 [OF g(2)] p g by simp
qed

end
