(* ===== verification/Worker_Token.thy ===== *)
theory Worker_Token
  imports JS_Prelude Complex_Main
begin

text \<open>
  Worker tokens, \<^verbatim>\<open>packages/core/src/worker/auth.ts\<close>. A token is the encryption of a JSON
  payload; the parameter \<open>open_token\<close> stands for \<^verbatim>\<open>JSON.parse(decrypt(token))\<close>, \<open>None\<close> when
  either throws (the handler returns null), and \<open>seal\<close> for \<^verbatim>\<open>encrypt(JSON.stringify(p))\<close>.
  A JSON value is a \<open>json\<close> over the types of its strings and numbers: an object is the list of
  its members in order, a number a rational. \<open>field v k\<close> is the own member \<^verbatim>\<open>v[k]\<close>, \<open>None\<close> for
  \<^verbatim>\<open>undefined\<close>. The environment is a map, \<open>Date.parse\<close> on strings the parameter \<open>date_parse\<close>
  (\<open>None\<close> is \<^verbatim>\<open>NaN\<close>). The checks of \<^verbatim>\<open>verifyWorkerToken\<close> are one definition each, in order.
\<close>

section \<open>JSON values\<close>

datatype ('s, 'n) json =
    JNull
  | JBool bool
  | JNum 'n
  | JStr 's
  | JArr "('s, 'n) json list"
  | JObj "('s \<times> ('s, 'n) json) list"

type_synonym jvalue = "(string, rat) json"

fun is_str :: "jvalue option \<Rightarrow> bool" where
  "is_str (Some (JStr s)) = True"
| "is_str _ = False"

fun non_empty_str :: "jvalue option \<Rightarrow> bool" where
  "non_empty_str (Some (JStr s)) = (s \<noteq> [])"
| "non_empty_str _ = False"

fun field :: "jvalue option \<Rightarrow> string \<Rightarrow> jvalue option" where
  "field (Some (JObj ms)) k = map_of ms k"
| "field _ k = None"

text \<open>A member that the code reads as a string.\<close>

definition str_field :: "jvalue \<Rightarrow> string \<Rightarrow> string option" where
  "str_field d k = (case field (Some d) k of Some (JStr s) \<Rightarrow> Some s | _ \<Rightarrow> None)"

fun is_object :: "jvalue option \<Rightarrow> bool" where
  "is_object (Some (JObj ms)) = True"
| "is_object _ = False"

fun key_count :: "jvalue option \<Rightarrow> nat" where
  "key_count (Some (JObj ms)) = length ms"
| "key_count _ = 0"

fun truthy_value :: "jvalue option \<Rightarrow> bool" where
  "truthy_value None = False"
| "truthy_value (Some JNull) = False"
| "truthy_value (Some (JBool b)) = b"
| "truthy_value (Some (JNum n)) = (n \<noteq> 0)"
| "truthy_value (Some (JStr s)) = (s \<noteq> [])"
| "truthy_value (Some v) = True"

definition is_integer :: "rat \<Rightarrow> bool" where
  "is_integer n \<longleftrightarrow> snd (quotient_of n) = 1"

text \<open>\<^verbatim>\<open>Number.isInteger(v) && v > 0\<close>, which is false on anything but a number.\<close>

fun positive_integer :: "jvalue option \<Rightarrow> bool" where
  "positive_integer (Some (JNum n)) = (is_integer n \<and> 0 < n)"
| "positive_integer _ = False"

section \<open>Environment\<close>

definition parsePositiveIntEnv ::
    "(string \<Rightarrow> string option) \<Rightarrow> string \<Rightarrow> int \<Rightarrow> bool \<Rightarrow> int" where
  "parsePositiveIntEnv env name fallback allowZero =
     (case parse_int 10 (case env name of None \<Rightarrow> [] | Some v \<Rightarrow> v) of
        None \<Rightarrow> fallback
      | Some raw \<Rightarrow> if (if allowZero then raw < 0 else raw \<le> 0) then fallback else raw)"

definition skew_ms :: "(string \<Rightarrow> string option) \<Rightarrow> int" where
  "skew_ms env = parsePositiveIntEnv env ''WORKER_TOKEN_CLOCK_SKEW_MS'' 30000 True"

section \<open>The checks of verifyWorkerToken\<close>

definition required_ok :: "jvalue \<Rightarrow> bool" where
  "required_ok d \<longleftrightarrow> non_empty_str (field (Some d) ''conversationId'')
     \<and> non_empty_str (field (Some d) ''userId'') \<and> non_empty_str (field (Some d) ''deploymentName'')
     \<and> (case field (Some d) ''timestamp'' of Some (JNum n) \<Rightarrow> n \<noteq> 0 | _ \<Rightarrow> False)"

definition run_id_ok :: "jvalue \<Rightarrow> bool" where
  "run_id_ok d \<longleftrightarrow> field (Some d) ''runId'' \<noteq> None \<longrightarrow> positive_integer (field (Some d) ''runId'')"

definition run_bound :: "jvalue \<Rightarrow> bool" where
  "run_bound d \<longleftrightarrow> field (Some d) ''tokenKind'' = Some (JStr ''run'')
     \<and> positive_integer (field (Some d) ''runId'')"

definition course_scope_ok :: "jvalue \<Rightarrow> bool" where
  "course_scope_ok d \<longleftrightarrow>
     (let scope = field (Some d) ''courseToolScope'' in
      scope \<noteq> None \<longrightarrow>
        run_bound d \<and> truthy_value scope
        \<and> non_empty_str (field scope ''ownerUserId'')
        \<and> field scope ''ownerUserId'' = field (Some d) ''userId''
        \<and> non_empty_str (field scope ''agentId'')
        \<and> field scope ''agentId'' = field (Some d) ''agentId''
        \<and> non_empty_str (field scope ''courseEntityId''))"

definition is_environment :: "jvalue option \<Rightarrow> bool" where
  "is_environment v \<longleftrightarrow> v = Some (JStr ''staging'') \<or> v = Some (JStr ''production'')"

definition is_digest :: "jvalue option \<Rightarrow> bool" where
  "is_digest v \<longleftrightarrow> (case v of
       Some (JStr s) \<Rightarrow> starts_with s ''sha256:'' \<and> length s = 71
          \<and> list_all (\<lambda>c. is_digit c \<or> 97 \<le> code c \<and> code c \<le> 102) (drop 7 s)
     | _ \<Rightarrow> False)"

definition capability_ids_ok :: "jvalue option \<Rightarrow> bool" where
  "capability_ids_ok v \<longleftrightarrow> (case v of
       Some (JArr ids) \<Rightarrow> 1 \<le> length ids \<and> length ids \<le> 64
          \<and> list_all (\<lambda>i. case i of JStr s \<Rightarrow> s \<noteq> [] \<and> length s \<le> 200 | _ \<Rightarrow> False) ids
     | _ \<Rightarrow> False)"

definition expiry_of :: "(string \<Rightarrow> rat option) \<Rightarrow> jvalue option \<Rightarrow> rat option" where
  "expiry_of date_parse claim =
     (case field claim ''expiresAt'' of Some (JStr s) \<Rightarrow> date_parse s | _ \<Rightarrow> None)"

definition timestamp_of :: "jvalue \<Rightarrow> rat" where
  "timestamp_of d = (case field (Some d) ''timestamp'' of Some (JNum n) \<Rightarrow> n | _ \<Rightarrow> 0)"

definition claim_ok ::
    "(string \<Rightarrow> string option) \<Rightarrow> (string \<Rightarrow> rat option) \<Rightarrow> jvalue \<Rightarrow> jvalue option \<Rightarrow> bool" where
  "claim_ok env date_parse d claim \<longleftrightarrow>
     truthy_value claim \<and> is_environment (field claim ''environment'')
     \<and> non_empty_str (field claim ''toolboxUserId'')
     \<and> field claim ''toolboxUserId'' = field (Some d) ''userId''
     \<and> non_empty_str (field claim ''agentId'')
     \<and> field claim ''agentId'' = field (Some d) ''agentId''
     \<and> non_empty_str (field claim ''releaseId'')
     \<and> positive_integer (field claim ''releaseSequence'')
     \<and> is_digest (field claim ''snapshotDigest'')
     \<and> (case expiry_of date_parse claim of None \<Rightarrow> False
        | Some e \<Rightarrow> e \<le> timestamp_of d + 60000 + of_int (skew_ms env))
     \<and> capability_ids_ok (field claim ''capabilityIds'')"

definition release_state_ok ::
    "(string \<Rightarrow> string option) \<Rightarrow> (string \<Rightarrow> rat option) \<Rightarrow> jvalue \<Rightarrow> bool" where
  "release_state_ok env date_parse d \<longleftrightarrow>
     (let state = field (Some d) ''releaseState''; status = field state ''status'' in
      (field (Some d) ''tokenKind'' = Some (JStr ''run'') \<longrightarrow> state \<noteq> None)
      \<and> (state \<noteq> None \<longrightarrow>
          run_bound d \<and>
          (if status = Some (JStr ''legacy_unenrolled'') then key_count state = 1
           else if status = Some (JStr ''enrolled_inactive'')
           then key_count state = 3 \<and> is_environment (field state ''environment'')
             \<and> field state ''reason'' \<in> {Some (JStr ''receipt_invalid''),
                  Some (JStr ''snapshot_unavailable''), Some (JStr ''capability_expired'')}
           else status = Some (JStr ''active'') \<and> key_count state = 2
             \<and> claim_ok env date_parse d (field state ''claim''))))"

text \<open>An expired claim is not an error: the state is replaced by an inactive one.\<close>

definition demote_expired :: "(string \<Rightarrow> rat option) \<Rightarrow> rat \<Rightarrow> jvalue \<Rightarrow> jvalue" where
  "demote_expired date_parse now d =
     (let state = field (Some d) ''releaseState''; claim = field state ''claim'' in
      case (field state ''status'', expiry_of date_parse claim, d) of
        (Some (JStr status), Some e, JObj ms) \<Rightarrow>
          if status = ''active'' \<and> e \<le> now
          then JObj (AList.update ''releaseState''
            (JObj [(''status'', JStr ''enrolled_inactive''),
                   (''environment'', the (field claim ''environment'')),
                   (''reason'', JStr ''capability_expired'')]) ms)
          else d
      | _ \<Rightarrow> d)"

definition execution_mode_ok :: "jvalue \<Rightarrow> bool" where
  "execution_mode_ok d \<longleftrightarrow>
     (let mode = field (Some d) ''executionMode''; scope = field (Some d) ''courseToolScope'' in
      mode \<noteq> None \<longrightarrow>
        mode \<in> {Some (JStr ''personal''), Some (JStr ''onboarding''), Some (JStr ''course'')}
        \<and> run_bound d
        \<and> (mode = Some (JStr ''course'') \<longleftrightarrow> truthy_value scope)
        \<and> (mode = Some (JStr ''course'') \<longrightarrow>
             truthy_value scope \<and> non_empty_str (field scope ''contextPackId'')
             \<and> positive_integer (field scope ''contextVersion'')
             \<and> field scope ''activeSpecializedSkill'' \<in> {Some JNull, Some (JStr ''opp-coach'')}))"

definition message_ids_ok :: "jvalue \<Rightarrow> bool" where
  "message_ids_ok d \<longleftrightarrow>
     (field (Some d) ''messageId'' \<noteq> None \<longrightarrow> non_empty_str (field (Some d) ''messageId''))
     \<and> (case field (Some d) ''processedMessageIds'' of
          None \<Rightarrow> True
        | Some (JArr ids) \<Rightarrow> list_all (\<lambda>i. non_empty_str (Some i)) ids
        | _ \<Rightarrow> False)"

definition token_kind_ok :: "jvalue \<Rightarrow> bool" where
  "token_kind_ok d \<longleftrightarrow>
     field (Some d) ''tokenKind'' \<in> {None, Some (JStr ''deployment''), Some (JStr ''session''),
       Some (JStr ''run'')}
     \<and> (case field (Some d) ''trustedPlatformContext'' of
          None \<Rightarrow> True
        | Some (JBool b) \<Rightarrow> b \<longrightarrow> field (Some d) ''tokenKind'' = Some (JStr ''session'')
        | _ \<Rightarrow> False)"

definition token_ttl :: "(string \<Rightarrow> string option) \<Rightarrow> jvalue \<Rightarrow> int" where
  "token_ttl env d =
     (if field (Some d) ''tokenKind'' = Some (JStr ''deployment'')
      then parsePositiveIntEnv env ''WORKER_DEPLOYMENT_TOKEN_TTL_MS'' 604800000 False
      else parsePositiveIntEnv env ''WORKER_TOKEN_TTL_MS'' 7200000 False)"

definition in_time :: "(string \<Rightarrow> string option) \<Rightarrow> rat \<Rightarrow> jvalue \<Rightarrow> bool" where
  "in_time env now d \<longleftrightarrow>
     (let age = now - timestamp_of d in
      \<not> of_int (token_ttl env d) + of_int (skew_ms env) < age \<and> \<not> of_int (skew_ms env) < - age)"

definition verifyWorkerToken ::
    "(string \<Rightarrow> jvalue option) \<Rightarrow> (string \<Rightarrow> string option) \<Rightarrow> (string \<Rightarrow> rat option) \<Rightarrow> rat
       \<Rightarrow> string \<Rightarrow> jvalue option" where
  "verifyWorkerToken open_token env date_parse now token =
     (case open_token token of
        None \<Rightarrow> None
      | Some d \<Rightarrow>
          if is_object (Some d) \<and> required_ok d \<and> run_id_ok d \<and> course_scope_ok d
             \<and> release_state_ok env date_parse d
          then (let d = demote_expired date_parse now d in
                if execution_mode_ok d \<and> message_ids_ok d \<and> token_kind_ok d \<and> in_time env now d
                then Some d else None)
          else None)"

section \<open>Minting\<close>

record token_options =
  to_channelId :: string
  to_teamId :: "string option"
  to_agentId :: "string option"
  to_organizationId :: "string option"
  to_connectionId :: "string option"
  to_platform :: "string option"
  to_sessionKey :: "string option"
  to_traceId :: "string option"
  to_runId :: "rat option"
  to_messageId :: "string option"
  to_processedMessageIds :: "string list option"
  to_tokenKind :: "string option"
  to_trustedPlatformContext :: "bool option"
  to_executionMode :: "string option"
  to_courseToolScope :: "jvalue option"
  to_releaseState :: "jvalue option"

text \<open>\<^verbatim>\<open>JSON.stringify\<close> drops undefined members.\<close>

definition opt_member :: "string \<Rightarrow> jvalue option \<Rightarrow> (string \<times> jvalue) list" where
  "opt_member k v = (case v of None \<Rightarrow> [] | Some x \<Rightarrow> [(k, x)])"

definition opt_str :: "string \<Rightarrow> string option \<Rightarrow> (string \<times> jvalue) list" where
  "opt_str k v = opt_member k (map_option JStr v)"

definition token_payload ::
    "rat \<Rightarrow> string \<Rightarrow> string \<Rightarrow> string \<Rightarrow> string \<Rightarrow> token_options \<Rightarrow> jvalue" where
  "token_payload now uuid userId conversationId deploymentName opts =
     JObj ([(''userId'', JStr userId), (''conversationId'', JStr conversationId),
            (''channelId'', JStr (to_channelId opts))]
        @ opt_str ''teamId'' (to_teamId opts) @ opt_str ''agentId'' (to_agentId opts)
        @ opt_str ''organizationId'' (to_organizationId opts)
        @ opt_str ''connectionId'' (to_connectionId opts)
        @ [(''deploymentName'', JStr deploymentName), (''timestamp'', JNum now)]
        @ opt_str ''platform'' (to_platform opts) @ opt_str ''sessionKey'' (to_sessionKey opts)
        @ opt_str ''traceId'' (to_traceId opts) @ [(''jti'', JStr uuid)]
        @ opt_member ''runId'' (map_option JNum (to_runId opts))
        @ opt_str ''messageId'' (to_messageId opts)
        @ opt_member ''processedMessageIds''
            (map_option (\<lambda>ids. JArr (map JStr ids)) (to_processedMessageIds opts))
        @ opt_str ''tokenKind'' (to_tokenKind opts)
        @ opt_member ''trustedPlatformContext'' (map_option JBool (to_trustedPlatformContext opts))
        @ opt_str ''executionMode'' (to_executionMode opts)
        @ opt_member ''courseToolScope'' (to_courseToolScope opts)
        @ opt_member ''releaseState''
            (if to_tokenKind opts = Some ''run''
             then (case to_releaseState opts of
                     None \<Rightarrow> Some (JObj [(''status'', JStr ''legacy_unenrolled'')])
                   | Some r \<Rightarrow> Some r)
             else to_releaseState opts))"

definition generateWorkerToken ::
    "(jvalue \<Rightarrow> string) \<Rightarrow> rat \<Rightarrow> string \<Rightarrow> string \<Rightarrow> string \<Rightarrow> string \<Rightarrow> token_options
       \<Rightarrow> string option" where
  "generateWorkerToken seal now uuid userId conversationId deploymentName opts =
     (if to_channelId opts = [] then None
      else Some (seal (token_payload now uuid userId conversationId deploymentName opts)))"

section \<open>Lemmas\<close>

lemma field_object [simp]: "field (Some (JObj ms)) k = map_of ms k"
  by simp

lemma map_of_opt_member [simp]: "map_of (opt_member k v) q = (if q = k then v else None)"
  by (auto simp: opt_member_def split: option.splits)

lemma map_of_opt_str [simp]:
  "map_of (opt_str k v) q = (if q = k then map_option JStr v else None)"
  by (simp add: opt_str_def)

lemma field_SomeD: "field x k = Some y \<Longrightarrow> \<exists>z. x = Some z"
  by (cases x) auto

lemma demote_fields:
  "k \<noteq> ''releaseState'' \<Longrightarrow> field (Some (demote_expired date_parse now d)) k = field (Some d) k"
  by (auto simp: demote_expired_def Let_def jm_get_set split: option.splits json.splits)

lemma verify_SomeD:
  assumes "verifyWorkerToken open_token env date_parse now token = Some d"
  shows "\<exists>e. open_token token = Some e \<and> d = demote_expired date_parse now e \<and> is_object (Some e)
    \<and> required_ok e \<and> run_id_ok e \<and> course_scope_ok e \<and> release_state_ok env date_parse e
    \<and> execution_mode_ok d \<and> message_ids_ok d \<and> token_kind_ok d \<and> in_time env now d"
  using assms by (auto simp: verifyWorkerToken_def Let_def split: option.splits if_splits)

lemma parse_env_nonneg: "0 \<le> fallback \<Longrightarrow> 0 \<le> parsePositiveIntEnv env name fallback z"
  by (auto simp: parsePositiveIntEnv_def split: option.splits)

lemma demote_active:
  assumes "field (field (Some (demote_expired date_parse now d)) ''releaseState'') ''status''
      = Some (JStr ''active'')"
    and "is_object (Some d)"
  shows "demote_expired date_parse now d = d \<and>
    (\<forall>e. expiry_of date_parse (field (field (Some d) ''releaseState'') ''claim'') = Some e \<longrightarrow> now < e)"
  using assms
  by (cases d) (auto simp: demote_expired_def Let_def jm_get_set split: option.splits json.splits if_splits)

lemma payload_fields:
  assumes p: "p = token_payload now uuid u c dep opts"
  shows "field (Some p) ''userId'' = Some (JStr u)" "field (Some p) ''conversationId'' = Some (JStr c)"
    "field (Some p) ''deploymentName'' = Some (JStr dep)" "field (Some p) ''timestamp'' = Some (JNum now)"
    "field (Some p) ''runId'' = map_option JNum (to_runId opts)"
    "field (Some p) ''tokenKind'' = map_option JStr (to_tokenKind opts)"
    "field (Some p) ''courseToolScope'' = to_courseToolScope opts"
    "field (Some p) ''executionMode'' = map_option JStr (to_executionMode opts)"
    "field (Some p) ''messageId'' = map_option JStr (to_messageId opts)"
    "field (Some p) ''processedMessageIds''
       = map_option (\<lambda>ids. JArr (map JStr ids)) (to_processedMessageIds opts)"
    "field (Some p) ''trustedPlatformContext'' = map_option JBool (to_trustedPlatformContext opts)"
    "field (Some p) ''releaseState'' = (if to_tokenKind opts = Some ''run''
       then (case to_releaseState opts of
               None \<Rightarrow> Some (JObj [(''status'', JStr ''legacy_unenrolled'')])
             | Some r \<Rightarrow> Some r)
       else to_releaseState opts)"
  unfolding p token_payload_def field.simps
  by (simp_all add: map_add_def split: option.splits)

section \<open>Properties\<close>

text \<open>
  a token is accepted only in its time window: the clock is at most the token's TTL plus
  the skew past its timestamp and at most the skew before it, where the long deployment TTL is
  given to deployment tokens only; user, conversation and deployment are non-empty strings.
\<close>

theorem token_time_window:
  assumes "verifyWorkerToken open_token env date_parse now token = Some d"
  shows "now \<le> timestamp_of d + of_int (token_ttl env d) + of_int (skew_ms env)
    \<and> timestamp_of d \<le> now + of_int (skew_ms env)
    \<and> non_empty_str (field (Some d) ''userId'') \<and> non_empty_str (field (Some d) ''conversationId'')
    \<and> non_empty_str (field (Some d) ''deploymentName'')
    \<and> (field (Some d) ''tokenKind'' \<noteq> Some (JStr ''deployment'') \<longrightarrow>
         token_ttl env d = parsePositiveIntEnv env ''WORKER_TOKEN_TTL_MS'' 7200000 False)"
proof -
  from verify_SomeD [OF assms] obtain e where
    e: "d = demote_expired date_parse now e" "required_ok e" "in_time env now d" by blast
  have "non_empty_str (field (Some d) ''userId'')" "non_empty_str (field (Some d) ''conversationId'')"
    "non_empty_str (field (Some d) ''deploymentName'')"
    using e(2) unfolding e(1) required_ok_def by (simp_all add: demote_fields)
  with e(3) show ?thesis
    unfolding in_time_def Let_def token_ttl_def by (simp add: not_less algebra_simps)
qed

text \<open>
  C19: privileges are bound to the token's kind and owner: a course scope, an execution mode or
  a release state is accepted only on a run token with a positive integer run id; a course
  scope only for the token's own user and agent; course mode exactly with a course scope;
  trusted platform context only on a session token; and a run token always has a release state.
\<close>

theorem token_privileges_bound:
  assumes "verifyWorkerToken open_token env date_parse now token = Some d"
  shows "(field (Some d) ''courseToolScope'' \<noteq> None \<longrightarrow> run_bound d
       \<and> field (field (Some d) ''courseToolScope'') ''ownerUserId'' = field (Some d) ''userId''
       \<and> field (field (Some d) ''courseToolScope'') ''agentId'' = field (Some d) ''agentId'')
    \<and> (field (Some d) ''executionMode'' \<noteq> None \<longrightarrow> run_bound d
       \<and> (field (Some d) ''executionMode'' = Some (JStr ''course'')
            \<longleftrightarrow> truthy_value (field (Some d) ''courseToolScope'')))
    \<and> (field (Some d) ''releaseState'' \<noteq> None \<longrightarrow> run_bound d)
    \<and> (field (Some d) ''tokenKind'' = Some (JStr ''run'') \<longrightarrow> field (Some d) ''releaseState'' \<noteq> None)
    \<and> (field (Some d) ''trustedPlatformContext'' = Some (JBool True) \<longrightarrow>
         field (Some d) ''tokenKind'' = Some (JStr ''session''))"
proof -
  from verify_SomeD [OF assms] obtain e where
    e: "d = demote_expired date_parse now e" "is_object (Some e)" "course_scope_ok e"
      "release_state_ok env date_parse e" "execution_mode_ok d" "token_kind_ok d" by blast
  have same: "field (Some d) k = field (Some e) k" if "k \<noteq> ''releaseState''" for k
    using demote_fields [OF that] e(1) by simp
  have bound: "run_bound d = run_bound e" unfolding run_bound_def by (simp add: same)
  have rs: "field (Some d) ''releaseState'' \<noteq> None \<longleftrightarrow> field (Some e) ''releaseState'' \<noteq> None"
    using e(2) unfolding e(1)
    by (cases e) (auto simp: demote_expired_def Let_def jm_get_set
        split: option.splits json.splits if_splits dest: field_SomeD)
  from e(3) have "field (Some d) ''courseToolScope'' \<noteq> None \<longrightarrow> run_bound d
       \<and> field (field (Some d) ''courseToolScope'') ''ownerUserId'' = field (Some d) ''userId''
       \<and> field (field (Some d) ''courseToolScope'') ''agentId'' = field (Some d) ''agentId''"
    unfolding course_scope_ok_def Let_def bound by (simp add: same)
  moreover from e(5) have "field (Some d) ''executionMode'' \<noteq> None \<longrightarrow> run_bound d
       \<and> (field (Some d) ''executionMode'' = Some (JStr ''course'')
            \<longleftrightarrow> truthy_value (field (Some d) ''courseToolScope''))"
    unfolding execution_mode_ok_def Let_def by blast
  moreover from e(4) rs bound have "field (Some d) ''releaseState'' \<noteq> None \<longrightarrow> run_bound d"
    unfolding release_state_ok_def Let_def by blast
  moreover from e(4) rs have "field (Some d) ''tokenKind'' = Some (JStr ''run'') \<longrightarrow>
      field (Some d) ''releaseState'' \<noteq> None"
    unfolding release_state_ok_def Let_def by (simp add: same)
  moreover from e(6) have "field (Some d) ''trustedPlatformContext'' = Some (JBool True) \<longrightarrow>
         field (Some d) ''tokenKind'' = Some (JStr ''session'')"
    unfolding token_kind_ok_def by (auto split: option.splits json.splits)
  ultimately show ?thesis by blast
qed

text \<open>
  an active release capability is live and the holder's own: when verification returns a
  payload whose release state is active, its claim names the payload's user and agent, expires
  after now, and no later than a minute plus the skew after the token was minted.
\<close>

theorem token_active_claim_live:
  assumes "verifyWorkerToken open_token env date_parse now token = Some d"
    and "field (field (Some d) ''releaseState'') ''status'' = Some (JStr ''active'')"
  shows "let claim = field (field (Some d) ''releaseState'') ''claim'' in
    field claim ''toolboxUserId'' = field (Some d) ''userId''
    \<and> field claim ''agentId'' = field (Some d) ''agentId''
    \<and> (\<exists>e. expiry_of date_parse claim = Some e \<and> now < e
          \<and> e \<le> timestamp_of d + 60000 + of_int (skew_ms env))"
proof -
  from verify_SomeD [OF assms(1)] obtain e where
    e: "d = demote_expired date_parse now e" "is_object (Some e)" "release_state_ok env date_parse e"
    by blast
  from demote_active [of date_parse now e] assms(2) e(1,2) have de: "d = e"
    and live: "\<forall>x. expiry_of date_parse (field (field (Some d) ''releaseState'') ''claim'') = Some x
        \<longrightarrow> now < x" by simp_all
  from assms(2) have "field (Some d) ''releaseState'' \<noteq> None" by (metis field.simps(2) option.distinct(1))
  with e(3) assms(2) have "claim_ok env date_parse d (field (field (Some d) ''releaseState'') ''claim'')"
    unfolding release_state_ok_def Let_def de by simp
  with live show ?thesis
    unfolding claim_ok_def Let_def by (auto split: option.splits)
qed

text \<open>
  what the gateway mints, workers may use: when encryption round-trips, a token minted with
  valid identifiers and without course scope, execution mode or explicit release state verifies
  to exactly its payload at any time from minting until its TTL has passed, a run token with
  the legacy release state added.
\<close>

theorem token_roundtrip:
  assumes "open_token (seal (token_payload now uuid u c dep opts))
      = Some (token_payload now uuid u c dep opts)"
    and "generateWorkerToken seal now uuid u c dep opts = Some t"
    and "u \<noteq> []" "c \<noteq> []" "dep \<noteq> []" "now \<noteq> 0"
    and "\<And>n. to_runId opts = Some n \<Longrightarrow> is_integer n \<and> 0 < n"
    and "to_tokenKind opts \<in> {None, Some ''deployment'', Some ''session'', Some ''run''}"
    and "to_tokenKind opts = Some ''run'' \<Longrightarrow> to_runId opts \<noteq> None"
    and "to_trustedPlatformContext opts = Some True \<Longrightarrow> to_tokenKind opts = Some ''session''"
    and "to_executionMode opts = None" "to_courseToolScope opts = None" "to_releaseState opts = None"
    and "to_messageId opts \<noteq> Some []" "\<And>ids. to_processedMessageIds opts = Some ids \<Longrightarrow> [] \<notin> set ids"
    and "now \<le> later" "later \<le> now + of_int (token_ttl env (token_payload now uuid u c dep opts))"
  shows "verifyWorkerToken open_token env date_parse later t
    = Some (token_payload now uuid u c dep opts)"
proof -
  let ?p = "token_payload now uuid u c dep opts"
  note f = payload_fields [OF refl, of now uuid u c dep opts]
  have t: "open_token t = Some ?p"
    using assms(1,2) by (auto simp: generateWorkerToken_def split: if_splits)
  have obj: "is_object (Some ?p)" by (simp add: token_payload_def)
  have req: "required_ok ?p" unfolding required_ok_def f using assms(3-6) by simp
  have run: "run_id_ok ?p" unfolding run_id_ok_def f
    using assms(7) by (cases "to_runId opts") auto
  have course: "course_scope_ok ?p" unfolding course_scope_ok_def f using assms(12) by simp
  have bound: "run_bound ?p" if "to_tokenKind opts = Some ''run''"
    unfolding run_bound_def f using that assms(7,9) by (cases "to_runId opts") auto
  have rs: "release_state_ok env date_parse ?p"
    unfolding release_state_ok_def f Let_def using bound assms(13) by auto
  have same: "demote_expired date_parse later ?p = ?p"
    unfolding demote_expired_def f Let_def using assms(13) by (auto split: option.splits json.splits)
  have mode: "execution_mode_ok ?p" unfolding execution_mode_ok_def f using assms(11) by simp
  have msgs: "message_ids_ok ?p" unfolding message_ids_ok_def f
    using assms(14,15)
    by (cases "to_messageId opts"; cases "to_processedMessageIds opts") (auto simp: list_all_iff)
  have kind: "token_kind_ok ?p" unfolding token_kind_ok_def f
    using assms(8,10) by (cases "to_trustedPlatformContext opts") auto
  have skew: "(0 :: rat) \<le> of_int (skew_ms env)"
    unfolding skew_ms_def using parse_env_nonneg [of 30000 env] by simp
  have ts: "timestamp_of ?p = now" by (simp add: timestamp_of_def f)
  have time: "in_time env later ?p"
    unfolding in_time_def Let_def ts using skew assms(16,17) by linarith
  show ?thesis
    unfolding verifyWorkerToken_def t using obj req run course rs mode msgs kind time
    by (simp add: same)
qed

lemma demote_deployment: "field (Some (demote_expired date_parse now d)) ''deploymentName'' = field (Some d) ''deploymentName''"
  unfolding demote_expired_def by (auto simp: Let_def update_conv' split: option.splits json.splits if_splits)

lemma token_deployment:
  assumes "verifyWorkerToken open_token env date_parse now token = Some d"
  shows "\<exists>name. str_field d ''deploymentName'' = Some name \<and> name \<noteq> []"
proof -
  obtain d0 where d0: "required_ok d0" "d = demote_expired date_parse now d0"
    using assms unfolding verifyWorkerToken_def by (auto simp: Let_def split: option.splits if_splits)
  then have "non_empty_str (field (Some d) ''deploymentName'')" by (simp add: demote_deployment required_ok_def)
  then show ?thesis unfolding str_field_def by (cases "field (Some d) ''deploymentName''" rule: non_empty_str.cases) auto
qed

text \<open>A run token used by the witnesses, sealed as the list of its members.\<close>

definition sample_options :: token_options where
  "sample_options = \<lparr>to_channelId = ''ch'', to_teamId = None, to_agentId = Some ''ag'',
     to_organizationId = Some ''o1'', to_connectionId = None, to_platform = None,
     to_sessionKey = None, to_traceId = None, to_runId = Some 7, to_messageId = Some ''m'',
     to_processedMessageIds = Some [''m''], to_tokenKind = Some ''run'',
     to_trustedPlatformContext = None, to_executionMode = None, to_courseToolScope = None,
     to_releaseState = None\<rparr>"

definition sample_payload :: jvalue where
  "sample_payload = token_payload 1000 ''j'' ''u'' ''c'' ''d'' sample_options"

lemma sample_verifies:
  "verifyWorkerToken (\<lambda>t. Some sample_payload) (\<lambda>k. None) (\<lambda>s. None) 2000 ''t'' = Some sample_payload"
  by code_simp

theorem token_time_window_witness:
  "2000 \<le> timestamp_of sample_payload + 7200000 + 30000"
  using token_time_window [OF sample_verifies]
  by (simp add: token_ttl_def skew_ms_def parsePositiveIntEnv_def parse_int_def sample_payload_def
      sample_options_def payload_fields [OF refl])

theorem token_privileges_bound_witness: "field (Some sample_payload) ''releaseState'' \<noteq> None"
proof -
  have "field (Some sample_payload) ''tokenKind'' = Some (JStr ''run'')" by code_simp
  with token_privileges_bound [OF sample_verifies] show ?thesis by blast
qed

theorem token_roundtrip_witness:
  "verifyWorkerToken (\<lambda>t. Some sample_payload) (\<lambda>k. None) (\<lambda>s. None) 2000 ''t'' = Some sample_payload"
  unfolding sample_payload_def
  by (rule token_roundtrip [where seal = "\<lambda>p. ''t''" and opts = sample_options])
     (simp_all add: generateWorkerToken_def sample_options_def is_integer_def token_ttl_def
        parsePositiveIntEnv_def parse_int_def payload_fields [OF refl])

text \<open>A run token whose release claim is active until the time 40000.\<close>

definition sample_claim :: jvalue where
  "sample_claim = JObj [(''environment'', JStr ''staging''), (''toolboxUserId'', JStr ''u''),
     (''agentId'', JStr ''ag''), (''releaseId'', JStr ''r''), (''releaseSequence'', JNum 3),
     (''snapshotDigest'', JStr (''sha256:'' @ replicate 64 CHR ''a'')),
     (''expiresAt'', JStr ''t40''), (''capabilityIds'', JArr [JStr ''cap''])]"

definition sample_active :: jvalue where
  "sample_active = token_payload 1000 ''j'' ''u'' ''c'' ''d''
     (sample_options\<lparr>to_releaseState := Some (JObj [(''status'', JStr ''active''),
        (''claim'', sample_claim)])\<rparr>)"

lemma sample_active_verifies:
  "verifyWorkerToken (\<lambda>t. Some sample_active) (\<lambda>k. None) (\<lambda>s. Some 40000) 2000 ''t''
     = Some sample_active"
  by code_simp

theorem token_active_claim_live_witness:
  "field (field (field (Some sample_active) ''releaseState'') ''claim'') ''agentId''
     = field (Some sample_active) ''agentId''"
proof -
  have "field (field (Some sample_active) ''releaseState'') ''status'' = Some (JStr ''active'')"
    by code_simp
  from token_active_claim_live [OF sample_active_verifies this] show ?thesis
    by (simp add: Let_def)
qed

end
