(* ===== verification/Revocation.thy ===== *)
theory Revocation
  imports JS_Prelude
begin

text \<open>
  Revoked tokens, \<^verbatim>\<open>packages/server/src/gateway/auth/revoked-token-store.ts\<close>. The table
  \<^verbatim>\<open>revoked_tokens\<close> is a map from \<^verbatim>\<open>jti\<close> to its expiry; a failing query is \<open>None\<close> for it.
  \<^verbatim>\<open>Date.now()\<close> and the database's \<^verbatim>\<open>now()\<close> are the one argument \<open>now\<close>. The sweep that a
  lookup starts in the background is its own operation.
\<close>

record revoked_entry =
  re_revoked :: bool
  re_cachedAt :: ms

record revoked_store =
  rs_cache :: "(string, revoked_entry) jmap"
  rs_lastGcAt :: ms

type_synonym revoked_table = "(string, ms) jmap"

definition cache_ttl_ms :: ms where
  "cache_ttl_ms = 60 * 1000"

definition gc_interval_ms :: ms where
  "gc_interval_ms = 5 * 60 * 1000"

definition new_revoked_store :: revoked_store where
  "new_revoked_store = \<lparr>rs_cache = [], rs_lastGcAt = 0\<rparr>"

definition revoke_token ::
    "ms \<Rightarrow> string \<Rightarrow> ms \<Rightarrow> revoked_store \<times> revoked_table \<Rightarrow> revoked_store \<times> revoked_table" where
  "revoke_token now jti expiresAt =
     (\<lambda>(s, db).
       (s\<lparr>rs_cache := AList.update jti \<lparr>re_revoked = True, re_cachedAt = now\<rparr> (rs_cache s)\<rparr>,
        AList.update jti
          (case map_of db jti of None \<Rightarrow> expiresAt | Some old \<Rightarrow> max old expiresAt) db))"

definition isRevokedCached :: "ms \<Rightarrow> string \<Rightarrow> revoked_store \<Rightarrow> bool" where
  "isRevokedCached now jti s =
     (if jti = [] then False
      else case map_of (rs_cache s) jti of
        None \<Rightarrow> False
      | Some cached \<Rightarrow>
          if cache_ttl_ms \<le> now - re_cachedAt cached then False else re_revoked cached)"

text \<open>The result of \<^verbatim>\<open>maybeGc\<close>: whether a sweep is started.\<close>

definition maybeGc :: "ms \<Rightarrow> revoked_store \<Rightarrow> bool \<times> revoked_store" where
  "maybeGc now s =
     (if now - rs_lastGcAt s < gc_interval_ms then (False, s)
      else (True, s\<lparr>rs_lastGcAt := now\<rparr>))"

definition isRevoked ::
    "ms \<Rightarrow> string \<Rightarrow> revoked_table option \<Rightarrow> revoked_store \<Rightarrow> bool \<times> bool \<times> revoked_store" where
  "isRevoked now jti db s =
     (if jti = [] then (False, False, s)
      else
       (let cached = map_of (rs_cache s) jti in
        case cached of
          Some c \<Rightarrow>
            if now - re_cachedAt c < cache_ttl_ms then (re_revoked c, False, s)
            else
             (case db of
                None \<Rightarrow> (re_revoked c, False, s)
              | Some rows \<Rightarrow>
                 (let revoked = (case map_of rows jti of None \<Rightarrow> False | Some e \<Rightarrow> now < e);
                      s = s\<lparr>rs_cache := AList.update jti
                            \<lparr>re_revoked = revoked, re_cachedAt = now\<rparr> (rs_cache s)\<rparr>;
                      (gc, s) = maybeGc now s
                  in (revoked, gc, s)))
        | None \<Rightarrow>
            (case db of
               None \<Rightarrow> (False, False, s)
             | Some rows \<Rightarrow>
                (let revoked = (case map_of rows jti of None \<Rightarrow> False | Some e \<Rightarrow> now < e);
                     s = s\<lparr>rs_cache := AList.update jti
                           \<lparr>re_revoked = revoked, re_cachedAt = now\<rparr> (rs_cache s)\<rparr>;
                     (gc, s) = maybeGc now s
                 in (revoked, gc, s)))))"

definition sweepExpired ::
    "ms \<Rightarrow> revoked_store \<times> revoked_table \<Rightarrow> nat \<times> revoked_store \<times> revoked_table" where
  "sweepExpired now =
     (\<lambda>(s, db).
       (length (filter (\<lambda>(j, e). e \<le> now) db),
        s\<lparr>rs_cache := filter (\<lambda>(j, c). \<not> cache_ttl_ms \<le> now - re_cachedAt c) (rs_cache s)\<rparr>,
        filter (\<lambda>(j, e). \<not> e \<le> now) db))"

section \<open>The kill switch as an interface\<close>

text \<open>
  A revocation list promises a window: a token revoked at \<open>t\<close> is refused at every later time
  within \<open>window t e\<close>, whatever sweeps and lookups of any token happen in between.
\<close>

locale revocation_list =
  fixes revoke :: "ms \<Rightarrow> string \<Rightarrow> ms \<Rightarrow> 's \<Rightarrow> 's"
    and refused :: "ms \<Rightarrow> string \<Rightarrow> 's \<Rightarrow> bool"
    and quiet :: "ms \<Rightarrow> 's \<Rightarrow> 's \<Rightarrow> bool"
    and pinned :: "ms \<Rightarrow> string \<Rightarrow> ms \<Rightarrow> 's \<Rightarrow> bool"
    and until :: "ms \<Rightarrow> ms \<Rightarrow> ms"
    and wf :: "'s \<Rightarrow> bool"
  assumes revoke_pins: "wf s \<Longrightarrow> j \<noteq> [] \<Longrightarrow> pinned t j (until t e) (revoke t j e s)"
    and pinned_refused: "pinned t j u s \<Longrightarrow> t \<le> t' \<Longrightarrow> t' < u \<Longrightarrow> refused t' j s"
    and quiet_pinned: "quiet t' s s' \<Longrightarrow> pinned t j u s \<Longrightarrow> t \<le> t' \<Longrightarrow> t' < u \<Longrightarrow> pinned t j u s'"
begin

text \<open>\<open>quiet_run ts s s'\<close>: steps at the times \<open>ts\<close>, none of them a revocation, lead from \<open>s\<close> to \<open>s'\<close>.\<close>

inductive quiet_run :: "ms list \<Rightarrow> 's \<Rightarrow> 's \<Rightarrow> bool" where
  qr_done: "quiet_run [] s s"
| qr_step: "quiet t s s' \<Longrightarrow> quiet_run ts s' s'' \<Longrightarrow> quiet_run (t # ts) s s''"

lemma run_pinned:
  "quiet_run ts s s' \<Longrightarrow> pinned t j u s \<Longrightarrow> \<forall>x \<in> set ts. t \<le> x \<and> x < u \<Longrightarrow> pinned t j u s'"
  by (induction rule: quiet_run.induct) (auto intro: quiet_pinned)

lemma stays_refused:
  assumes "wf s" "j \<noteq> []" and "quiet_run ts (revoke t j e s) s'"
    and "\<forall>x \<in> set ts. t \<le> x \<and> x < until t e" and "t \<le> t'" "t' < until t e"
  shows "refused t' j s'"
  using assms run_pinned revoke_pins pinned_refused by metis

end

text \<open>Steps on the store that are not revocations: lookups, sweeps.\<close>

definition quiet_step ::
    "ms \<Rightarrow> revoked_store \<times> revoked_table \<Rightarrow> revoked_store \<times> revoked_table \<Rightarrow> bool" where
  "quiet_step now x y \<longleftrightarrow>
     (\<exists>j. y = (snd (snd (isRevoked now j (Some (snd x)) (fst x))), snd x))
     \<or> (\<exists>j. y = (snd (snd (isRevoked now j None (fst x))), snd x))
     \<or> y = snd (sweepExpired now x)"

definition cache_pinned ::
    "ms \<Rightarrow> string \<Rightarrow> ms \<Rightarrow> revoked_store \<times> revoked_table \<Rightarrow> bool" where
  "cache_pinned t j u x \<longleftrightarrow> j \<noteq> [] \<and> u \<le> t + cache_ttl_ms \<and>
     map_of (rs_cache (fst x)) j = Some \<lparr>re_revoked = True, re_cachedAt = t\<rparr>"

definition lookup_pinned ::
    "ms \<Rightarrow> string \<Rightarrow> ms \<Rightarrow> revoked_store \<times> revoked_table \<Rightarrow> bool" where
  "lookup_pinned t j u x \<longleftrightarrow> j \<noteq> [] \<and> jm_wf (rs_cache (fst x)) \<and>
     (\<exists>e. map_of (snd x) j = Some e \<and> u \<le> e)
     \<and> (\<forall>c. map_of (rs_cache (fst x)) j = Some c \<longrightarrow> re_revoked c)"

lemma isRevoked_cache:
  "map_of (rs_cache (snd (snd (isRevoked now j db s)))) q =
     (if q = j \<and> q \<noteq> [] \<and> db \<noteq> None
         \<and> (\<forall>c. map_of (rs_cache s) q = Some c \<longrightarrow> \<not> now - re_cachedAt c < cache_ttl_ms)
      then Some \<lparr>re_revoked = (case map_of (the db) q of None \<Rightarrow> False | Some e \<Rightarrow> now < e),
                 re_cachedAt = now\<rparr>
      else map_of (rs_cache s) q)"
  by (auto simp: isRevoked_def maybeGc_def Let_def jm_get_set split: option.splits)

lemma map_of_filter_value: 
  "map_of m k = Some v \<Longrightarrow> P v \<Longrightarrow> map_of (filter (\<lambda>(j, x). P x) m) k = Some v"
  by (induction m) auto

lemma map_of_filter_from:
  assumes "distinct (map fst m)" "map_of (filter (\<lambda>(j, x). P x) m) k = Some v"
  shows "map_of m k = Some v"
  using assms by (metis (no_types, lifting) filter_is_subset map_of_SomeD map_of_is_SomeI subsetD)

lemma isRevoked_wf: "jm_wf (rs_cache s) \<Longrightarrow> jm_wf (rs_cache (snd (snd (isRevoked now j db s))))"
  by (auto simp: isRevoked_def maybeGc_def Let_def split: option.splits)

lemma filter_wf: "jm_wf m \<Longrightarrow> jm_wf (filter P m)"
  by (induction m) (auto simp: jm_wf_def)

interpretation cached_list: revocation_list revoke_token
  "\<lambda>t j x. isRevokedCached t j (fst x)" quiet_step cache_pinned "\<lambda>t e. t + cache_ttl_ms" "\<lambda>x. True"
proof (unfold_locales, goal_cases)
  case (1 s j t e)
  then show ?case by (cases s) (simp add: cache_pinned_def revoke_token_def jm_get_set)
next
  case (2 t j u s t')
  then show ?case by (simp add: cache_pinned_def isRevokedCached_def)
next
  case (3 t' s s' t j u)
  then have pin: "map_of (rs_cache (fst s)) j = Some \<lparr>re_revoked = True, re_cachedAt = t\<rparr>"
    "j \<noteq> []" "u \<le> t + cache_ttl_ms" "t' - t < cache_ttl_ms" by (auto simp: cache_pinned_def)
  from 3(1) have "map_of (rs_cache (fst s')) j = Some \<lparr>re_revoked = True, re_cachedAt = t\<rparr>"
    unfolding quiet_step_def
  proof (elim disjE exE)
    assume "s' = snd (sweepExpired t' s)"
    with pin show ?thesis
      by (cases s) (auto simp: sweepExpired_def intro: map_of_filter_value)
  qed (use pin in \<open>auto simp: isRevoked_cache\<close>)
  with pin show ?case by (simp add: cache_pinned_def)
qed

interpretation full_list: revocation_list revoke_token
  "\<lambda>t j x. fst (isRevoked t j (Some (snd x)) (fst x))" quiet_step lookup_pinned "\<lambda>t e. e"
  "\<lambda>x. jm_wf (rs_cache (fst x))"
proof (unfold_locales, goal_cases)
  case (1 s j t e)
  then show ?case
    by (cases s) (auto simp: lookup_pinned_def revoke_token_def jm_get_set split: option.splits)
next
  case (2 t j u s t')
  then show ?case
    by (auto simp: lookup_pinned_def isRevoked_def maybeGc_def Let_def split: option.splits)
next
  case (3 t' s s' t j u)
  then obtain e where pin: "map_of (snd s) j = Some e" "u \<le> e" "t' < e" "j \<noteq> []"
    "jm_wf (rs_cache (fst s))" "\<forall>c. map_of (rs_cache (fst s)) j = Some c \<longrightarrow> re_revoked c"
    by (auto simp: lookup_pinned_def)
  from 3(1) show ?case
    unfolding quiet_step_def
  proof (elim disjE exE)
    assume s': "s' = snd (sweepExpired t' s)"
    have "map_of (filter (\<lambda>(j, e). \<not> e \<le> t') (snd s)) j = Some e"
      using pin by (intro map_of_filter_value) auto
    moreover have "\<forall>c. map_of (filter (\<lambda>(j, c). \<not> cache_ttl_ms \<le> t' - re_cachedAt c)
        (rs_cache (fst s))) j = Some c \<longrightarrow> re_revoked c"
      using pin(5,6) map_of_filter_from [of "rs_cache (fst s)"] by (auto simp: jm_wf_def)
    ultimately show ?thesis using pin s'
      by (cases s) (auto simp: lookup_pinned_def sweepExpired_def filter_wf)
  qed (use pin in \<open>auto simp: lookup_pinned_def isRevoked_cache isRevoked_wf\<close>)
qed

section \<open>Properties\<close>

text \<open>
  a revoked token stays refused until it expires on the path that asks the database: after
  \<^verbatim>\<open>revoke\<close>, however many lookups of any token (also failing ones) and sweeps happen before the
  token's expiry, \<^verbatim>\<open>isRevoked\<close> answers true at every time before the expiry.
\<close>

theorem revoked_until_expiry:
  assumes "jm_wf (rs_cache (fst x))" "j \<noteq> []"
    and "full_list.quiet_run ts (revoke_token t j e x) y"
    and "\<forall>s \<in> set ts. t \<le> s \<and> s < e" and "t \<le> now" "now < e"
  shows "fst (isRevoked now j (Some (snd y)) (fst y))"
  using full_list.stays_refused [OF assms] .

lemma sample_quiet_run:
  "full_list.quiet_run [200] (revoke_token 100 ''j'' 900 (new_revoked_store, []))
     (snd (sweepExpired 200 (revoke_token 100 ''j'' 900 (new_revoked_store, []))))"
  by (rule full_list.qr_step [OF _ full_list.qr_done]) (simp add: quiet_step_def)

theorem revoked_until_expiry_witness:
  "fst (isRevoked 500 ''j'' (Some [(''j'', 900)])
     \<lparr>rs_cache = [(''j'', \<lparr>re_revoked = True, re_cachedAt = 100\<rparr>)], rs_lastGcAt = 0\<rparr>)"
proof -
  have y: "snd (sweepExpired 200 (revoke_token 100 ''j'' 900 (new_revoked_store, [])))
      = (\<lparr>rs_cache = [(''j'', \<lparr>re_revoked = True, re_cachedAt = 100\<rparr>)], rs_lastGcAt = 0\<rparr>,
         [(''j'', 900)])"
    by (simp add: sweepExpired_def revoke_token_def new_revoked_store_def cache_ttl_ms_def)
  from revoked_until_expiry [OF _ _ sample_quiet_run, of 500, unfolded y] show ?thesis
    by (simp add: new_revoked_store_def)
qed

text \<open>
  the synchronous path keeps a revocation for the cache's minute only: within 60 seconds of
  a revocation in this process \<^verbatim>\<open>isRevokedCached\<close> answers true, whatever lookups and sweeps come
  in between; at 60 seconds it answers false when no asynchronous lookup of that token came in
  between, however far the token's expiry is.
\<close>

theorem cached_revocation_lasts_a_minute:
  assumes "j \<noteq> []" and "t \<le> now"
    and "cached_list.quiet_run ts (revoke_token t j e x) y" "\<forall>s \<in> set ts. t \<le> s \<and> s < t + 60000"
  shows "(now < t + 60000 \<longrightarrow> isRevokedCached now j (fst y))
    \<and> (t + 60000 \<le> now \<longrightarrow> \<not> isRevokedCached now j (fst (revoke_token t j e x)))"
proof -
  have "isRevokedCached now j (fst y)" if "now < t + 60000"
    using cached_list.stays_refused [OF _ assms(1,3), of now] assms(2,4) that
    by (simp add: cache_ttl_ms_def)
  moreover have "\<not> isRevokedCached now j (fst (revoke_token t j e x))" if "t + 60000 \<le> now"
    using that by (cases x) (simp add: revoke_token_def isRevokedCached_def jm_get_set cache_ttl_ms_def)
  ultimately show ?thesis by blast
qed

theorem cached_revocation_lasts_a_minute_witness:
  "isRevokedCached 60099 ''j'' (fst (revoke_token 100 ''j'' 7200000 (new_revoked_store, [])))
   \<and> \<not> isRevokedCached 60100 ''j'' (fst (revoke_token 100 ''j'' 7200000 (new_revoked_store, [])))"
  using cached_revocation_lasts_a_minute [OF _ _ cached_list.qr_done, of "''j''" 100 60099]
    cached_revocation_lasts_a_minute [OF _ _ cached_list.qr_done, of "''j''" 100 60100] by simp

end
