(* ===== verification/Egress_Access.thy ===== *)
theory Egress_Access
  imports Grants Egress_Judge Ip_Guard Worker_Token Revocation
begin

text \<open>
  The request handlers of \<^verbatim>\<open>packages/server/src/gateway/proxy/http-proxy.ts\<close>: proxy
  authentication, the access decision and what is sent to the client or opened to the target.
  The grant store is used through its two questions \<open>has\<close> and \<open>denied\<close> (agent, host,
  organisation), the policy store through \<open>resolve\<close>, the judge through \<open>decide\<close>; an absent store
  is \<open>None\<close>. The payload's \<open>agentId\<close>, \<open>organizationId\<close> and \<open>jti\<close> are read as strings, as
  \<^verbatim>\<open>generateWorkerToken\<close> writes them. \<open>b64\<close> is Node's base64 and UTF-8 decoding. A handler
  returns the reply it writes or the connection it opens; streaming the bodies is not modelled.
\<close>

section \<open>The access decision\<close>

datatype access_source = Src_Global | Src_Grant | Src_Judged

record access_decision =
  ad_allowed :: bool
  ad_source :: access_source
  ad_judge :: "judge_decision option"

type_synonym grant_question = "string \<Rightarrow> string \<Rightarrow> string option \<Rightarrow> bool"

record proxy_stores =
  px_has :: "grant_question option"
  px_denied :: grant_question
  px_resolve :: "(string \<Rightarrow> string \<Rightarrow> string \<Rightarrow> resolved_rule option) option"
  px_decide :: "judge_request \<Rightarrow> resolved_rule \<Rightarrow> judge_decision"

definition checkDomainAccess ::
    "(string \<Rightarrow> string) \<Rightarrow> network_config \<Rightarrow> proxy_stores \<Rightarrow> string \<Rightarrow> string option
       \<Rightarrow> string option \<Rightarrow> string option \<Rightarrow> string option \<Rightarrow> access_decision" where
  "checkDomainAccess dta global stores rawHostname agentId organizationId method path =
     (let hostname = canonicalizeHostname dta rawHostname;
          verdict = (\<lambda>ok src. \<lparr>ad_allowed = ok, ad_source = src, ad_judge = None\<rparr>);
          has_store = (px_has stores \<noteq> None \<and> truthy agentId) in
      if 0 < length (deniedDomains global) \<and> matchesDomainPattern hostname (deniedDomains global)
      then verdict False Src_Global
      else if isHostnameAllowed hostname (allowedDomains global) (deniedDomains global)
      then (if has_store \<and> px_denied stores (the agentId) hostname organizationId
            then verdict False Src_Grant else verdict True Src_Global)
      else if has_store \<and> the (px_has stores) (the agentId) hostname organizationId
      then verdict True Src_Grant
      else
       (case px_resolve stores of
          None \<Rightarrow> verdict False Src_Global
        | Some resolve \<Rightarrow>
            if truthy agentId \<and> truthy organizationId
            then (case resolve (the organizationId) (the agentId) hostname of
                    None \<Rightarrow> verdict False Src_Global
                  | Some rule \<Rightarrow>
                     (let d = px_decide stores
                        \<lparr>jq_agentId = the agentId, jq_organizationId = the organizationId,
                         jq_hostname = hostname, jq_method = method, jq_path = path\<rparr> rule
                      in \<lparr>ad_allowed = (jd_verdict d = Allow), ad_source = Src_Judged,
                          ad_judge = Some d\<rparr>))
            else verdict False Src_Global))"

section \<open>Authentication\<close>

record request =
  rq_url :: "string option"
  rq_method :: "string option"
  rq_headers :: "(string \<times> string) list"

datatype auth_result = Auth_Ok string jvalue | Auth_None | Auth_Throws

definition extractProxyCredentials ::
    "(string \<Rightarrow> string) \<Rightarrow> request \<Rightarrow> (string \<times> string) option" where
  "extractProxyCredentials b64 req =
     (case map_of (rq_headers req) ''proxy-authorization'' of
        None \<Rightarrow> None
      | Some authHeader \<Rightarrow>
         (let rest = drop 5 authHeader; encoded = dropWhile is_space rest in
          if authHeader = [] \<or> \<not> starts_with (lower authHeader) ''basic''
             \<or> rest = [] \<or> \<not> is_space (hd rest) \<or> encoded = []
          then None
          else
           (let decoded = b64 encoded;
                deploymentName = takeWhile (\<lambda>c. c \<noteq> CHR '':'') decoded;
                token = drop (Suc (length deploymentName)) decoded in
            if CHR '':'' \<notin> set decoded \<or> deploymentName = [] \<or> token = [] then None
            else Some (deploymentName, token))))"

text \<open>\<^verbatim>\<open>Buffer.from(s)\<close> has one byte per character below 128 and two for the others here.\<close>

definition utf8_length :: "string \<Rightarrow> nat" where
  "utf8_length s = sum_list (map (\<lambda>c. if code c < 128 then 1 else 2) s)"

definition validateProxyAuth ::
    "(string \<Rightarrow> string) \<Rightarrow> (string \<Rightarrow> jvalue option) \<Rightarrow> ms \<Rightarrow> revoked_store \<Rightarrow> request \<Rightarrow> auth_result" where
  "validateProxyAuth b64 verify now revocations req =
     (case extractProxyCredentials b64 req of
        None \<Rightarrow> Auth_None
      | Some (name, token) \<Rightarrow>
         (case verify token of
            None \<Rightarrow> Auth_None
          | Some tokenData \<Rightarrow>
             (let claimed = the (str_field tokenData ''deploymentName'');
                  jti = str_field tokenData ''jti'' in
              if truthy jti \<and> isRevokedCached now (the jti) revocations then Auth_None
              else if length claimed \<noteq> length name then Auth_None
              else if utf8_length claimed \<noteq> utf8_length name then Auth_Throws
              else if claimed = name then Auth_Ok name tokenData else Auth_None)))"

section \<open>Replies\<close>

datatype proxy_reply =
    Reply nat string string
  | Tunnel string int
  | Forward string string string string "(string \<times> string) list"

fun join_newlines :: "string \<Rightarrow> string" where
  "join_newlines [] = []"
| "join_newlines (c # s) =
     (if code c = 13 \<or> code c = 10
      then (case s of [] \<Rightarrow> '' ''
            | d # _ \<Rightarrow> if code d = 13 \<or> code d = 10 then join_newlines s else CHR '' '' # join_newlines s)
      else c # join_newlines s)"

definition escapeHeaderValue :: "string \<Rightarrow> string" where
  "escapeHeaderValue v = take 300 (trim (join_newlines v))"

definition denial_reason :: "string \<Rightarrow> access_decision \<Rightarrow> string" where
  "denial_reason hostname decision =
     (case ad_judge decision of Some j \<Rightarrow> jd_reason j | None \<Rightarrow> ''Domain not allowed: '' @ hostname)"

definition denial_body :: "string \<Rightarrow> string" where
  "denial_body reason = ''403 Forbidden - '' @ reason @ ''. Network access is configured via lobu.config.ts, skill configs, or the gateway configuration APIs.''"

definition extractConnectHostname :: "string \<Rightarrow> string option" where
  "extractConnectHostname url =
     (let host = takeWhile (\<lambda>c. c \<noteq> CHR '':'') url; port = drop (Suc (length host)) url in
      if host \<noteq> [] \<and> CHR '':'' \<in> set url \<and> port \<noteq> [] \<and> list_all is_digit port
      then Some host else None)"

text \<open>
  The part of the state a handler reads: configuration, stores, the revocations in memory, the clock, and what opens tokens.
\<close>

record proxy_env =
  pe_dta :: "string \<Rightarrow> string"
  pe_global :: network_config
  pe_stores :: proxy_stores
  pe_b64 :: "string \<Rightarrow> string"
  pe_open :: "string \<Rightarrow> jvalue option"
  pe_getenv :: "string \<Rightarrow> string option"
  pe_date :: "string \<Rightarrow> rat option"
  pe_now :: ms
  pe_revocations :: revoked_store
  pe_lookup :: "string \<Rightarrow> string list option"

definition proxy_auth :: "proxy_env \<Rightarrow> request \<Rightarrow> auth_result" where
  "proxy_auth env = validateProxyAuth (pe_b64 env)
     (verifyWorkerToken (pe_open env) (pe_getenv env) (pe_date env) (of_int (pe_now env))) (pe_now env) (pe_revocations env)"

definition handleConnect :: "proxy_env \<Rightarrow> request \<Rightarrow> proxy_reply" where
  "handleConnect env req =
     (let url = (case rq_url req of None \<Rightarrow> [] | Some u \<Rightarrow> u) in
      case extractConnectHostname url of
        None \<Rightarrow> Reply 400 ''Bad Request'' []
      | Some hostname \<Rightarrow>
         (case proxy_auth env req of
            Auth_Throws \<Rightarrow> Reply 500 ''Internal Server Error'' []
          | Auth_None \<Rightarrow> Reply 407 ''Proxy Authentication Required'' []
          | Auth_Ok name tokenData \<Rightarrow>
             (let decision = checkDomainAccess (pe_dta env) (pe_global env) (pe_stores env) hostname
                    (str_field tokenData ''agentId'') (str_field tokenData ''organizationId'')
                    None None in
              if \<not> ad_allowed decision
              then Reply 403 (escapeHeaderValue (denial_reason hostname decision))
                     (denial_body (denial_reason hostname decision))
              else
               (case resolveAndValidateTarget (pe_lookup env) hostname of
                  Target_Refused status message \<Rightarrow>
                    Reply status (if status = 403 then ''Forbidden'' else ''Bad Gateway'') message
                | Target_Ok resolvedIp \<Rightarrow>
                    if resolvedIp = [] then Reply 500 ''Internal Server Error'' []
                    else
                     (let parts = split_on CHR '':'' url;
                          port = (if length parts < 2 \<or> parts ! 1 = [] then Some 443
                                  else parse_int 10 (parts ! 1)) in
                      if parts ! 0 = [] then Reply 400 ''Bad Request'' []
                      else case port of
                        None \<Rightarrow> Reply 400 ''Bad Request'' []
                      | Some p \<Rightarrow> if p < 1 \<or> 65535 < p then Reply 400 ''Bad Request'' []
                                  else Tunnel resolvedIp p)))))"

text \<open>The fields of \<^verbatim>\<open>new URL(targetUrl)\<close> the handler reads; \<open>None\<close> when it throws.\<close>

record parsed_url =
  pu_hostname :: string
  pu_port :: string
  pu_protocol :: string
  pu_pathname :: string
  pu_search :: string

definition handleProxyRequest ::
    "(string \<Rightarrow> parsed_url option) \<Rightarrow> proxy_env \<Rightarrow> request \<Rightarrow> proxy_reply" where
  "handleProxyRequest parse_url env req =
     (if \<not> truthy (rq_url req) then Reply 400 [] ''Bad Request: No URL provided''
      else case parse_url (the (rq_url req)) of
        None \<Rightarrow> Reply 400 [] ''Bad Request: Invalid URL''
      | Some url \<Rightarrow>
         (let hostname = pu_hostname url; target = pu_pathname url @ pu_search url in
          case proxy_auth env req of
            Auth_Throws \<Rightarrow> Reply 500 [] ''Internal proxy error''
          | Auth_None \<Rightarrow> Reply 407 [] ''407 Proxy Authentication Required''
          | Auth_Ok name tokenData \<Rightarrow>
             (let decision = checkDomainAccess (pe_dta env) (pe_global env) (pe_stores env) hostname
                    (str_field tokenData ''agentId'') (str_field tokenData ''organizationId'')
                    (rq_method req) (Some target) in
              if \<not> ad_allowed decision
              then Reply 403 (escapeHeaderValue (denial_reason hostname decision))
                     (denial_body (denial_reason hostname decision))
              else
               (case resolveAndValidateTarget (pe_lookup env) hostname of
                  Target_Refused status message \<Rightarrow> Reply status [] message
                | Target_Ok resolvedIp \<Rightarrow>
                    if resolvedIp = [] then Reply 500 [] ''Internal proxy error''
                    else Forward resolvedIp
                      (if pu_port url \<noteq> [] then pu_port url
                       else if pu_protocol url = ''https:'' then ''443'' else ''80'')
                      target (case rq_method req of None \<Rightarrow> ''GET'' | Some mth \<Rightarrow> mth)
                      (filter (\<lambda>h. fst h \<noteq> ''proxy-authorization'') (rq_headers req))))))"

record audit_entry =
  ae_method :: string
  ae_hostname :: string
  ae_deploymentName :: string
  ae_agentId :: "string option"
  ae_allowed :: bool
  ae_source :: access_source
  ae_judge :: "judge_decision option"

definition logAccessDecision ::
    "string \<Rightarrow> string \<Rightarrow> string \<Rightarrow> string option \<Rightarrow> access_decision \<Rightarrow> audit_entry option" where
  "logAccessDecision method hostname deploymentName agentId decision =
     (if ad_allowed decision \<and> ad_source decision = Src_Global then None
      else Some \<lparr>ae_method = method, ae_hostname = hostname, ae_deploymentName = deploymentName,
        ae_agentId = agentId, ae_allowed = ad_allowed decision, ae_source = ad_source decision,
        ae_judge = ad_judge decision\<rparr>)"

section \<open>Lemmas\<close>

text \<open>What the decision needs of the grant store: only the agent's rows in its organisation.\<close>

context permission_store
begin

lemma access_scoped:
  assumes "org \<noteq> []" and "truthy agentId"
  shows "checkDomainAccess dta global (px\<lparr>px_has := Some (has s), px_denied := denied s\<rparr>) h agentId
       (Some org) mth path
     = checkDomainAccess dta global (px\<lparr>px_has := Some (has (restrict org (the agentId) s)),
         px_denied := denied (restrict org (the agentId) s)\<rparr>) h agentId (Some org) mth path"
  using assms by (simp add: checkDomainAccess_def has_scoped denied_scoped Let_def
      cong: option.case_cong if_cong)

end

lemma access_allowed:
  assumes "ad_allowed (checkDomainAccess dta global stores h agentId org mth path)"
  shows "\<not> (deniedDomains global \<noteq> []
        \<and> matchesDomainPattern (canonicalizeHostname dta h) (deniedDomains global))
    \<and> (isHostnameAllowed (canonicalizeHostname dta h) (allowedDomains global) (deniedDomains global)
        \<and> \<not> (px_has stores \<noteq> None \<and> truthy agentId
             \<and> px_denied stores (the agentId) (canonicalizeHostname dta h) org)
       \<or> (\<exists>has. px_has stores = Some has \<and> truthy agentId
             \<and> has (the agentId) (canonicalizeHostname dta h) org)
       \<or> (\<exists>resolve rule. px_resolve stores = Some resolve \<and> truthy agentId \<and> truthy org
             \<and> resolve (the org) (the agentId) (canonicalizeHostname dta h) = Some rule
             \<and> jd_verdict (px_decide stores
                 \<lparr>jq_agentId = the agentId, jq_organizationId = the org,
                  jq_hostname = canonicalizeHostname dta h, jq_method = mth, jq_path = path\<rparr> rule)
               = Allow))"
  using assms unfolding checkDomainAccess_def Let_def
  by (auto split: if_splits option.splits)

lemma auth_okD:
  assumes "proxy_auth env req = Auth_Ok name d"
  shows "\<exists>token. extractProxyCredentials (pe_b64 env) req = Some (name, token)
    \<and> verifyWorkerToken (pe_open env) (pe_getenv env) (pe_date env) (of_int (pe_now env)) token = Some d
    \<and> the (str_field d ''deploymentName'') = name
    \<and> \<not> (truthy (str_field d ''jti'') \<and> isRevokedCached (pe_now env) (the (str_field d ''jti'')) (pe_revocations env))"
  using assms unfolding proxy_auth_def validateProxyAuth_def Let_def
  by (auto split: option.splits prod.splits if_splits)

text \<open>A revocation of the same process is seen for a minute.\<close>

definition revoked_within_minute :: "proxy_env \<Rightarrow> string \<Rightarrow> bool" where
  "revoked_within_minute env jti \<longleftrightarrow> (\<exists>ts t e x y. cached_list.quiet_run ts (revoke_token t jti e x) y
     \<and> (\<forall>s \<in> set ts. t \<le> s \<and> s < t + 60000) \<and> t \<le> pe_now env \<and> pe_now env < t + 60000 \<and> pe_revocations env = fst y)"

lemma revoked_refused:
  assumes "revoked_within_minute env jti" "jti \<noteq> []"
  shows "isRevokedCached (pe_now env) jti (pe_revocations env)"
proof -
  obtain ts t e x y where r: "cached_list.quiet_run ts (revoke_token t jti e x) y" "\<forall>s \<in> set ts. t \<le> s \<and> s < t + 60000"
    "t \<le> pe_now env" "pe_now env < t + 60000" "pe_revocations env = fst y"
    using assms(1) unfolding revoked_within_minute_def by blast
  then show ?thesis using cached_list.stays_refused [OF _ assms(2) r(1), of "pe_now env"] by (simp add: cache_ttl_ms_def)
qed

lemma verified_deployment:
  assumes "verifyWorkerToken open_token env date_parse now token = Some d"
  shows "\<exists>name. str_field d ''deploymentName'' = Some name \<and> name \<noteq> []"
  using token_deployment [OF assms] .

lemma connect_request_line:
  assumes "extractConnectHostname url = Some hostname"
  shows "\<exists>digits. url = hostname @ '':'' @ digits \<and> CHR '':'' \<notin> set hostname \<and> hostname \<noteq> [] \<and> list_all is_digit digits
    \<and> digits \<noteq> [] \<and> split_on CHR '':'' url = [hostname, digits]"
proof -
  let ?host = "takeWhile (\<lambda>c. c \<noteq> CHR '':'') url" and ?port = "drop (Suc (length (takeWhile (\<lambda>c. c \<noteq> CHR '':'') url))) url"
  have h: "hostname = ?host" "?host \<noteq> []" "CHR '':'' \<in> set url" "?port \<noteq> []" "list_all is_digit ?port"
    using assms by (auto simp: extractConnectHostname_def Let_def split: if_splits)
  have "dropWhile (\<lambda>c. c \<noteq> CHR '':'') url = CHR '':'' # ?port"
    using h(3) by (induction url) auto
  then have url: "url = ?host @ CHR '':'' # ?port" by (metis takeWhile_dropWhile_id)
  have no: "CHR '':'' \<notin> set ?host" "CHR '':'' \<notin> set ?port"
    using set_takeWhileD [of "CHR '':''" "\<lambda>c. c \<noteq> CHR '':''" url] digits_no_dot [OF h(5)] by blast+
  have "split_on CHR '':'' (?host @ CHR '':'' # ?port) = [?host, ?port]"
    using split_on_append_sep [of "CHR '':''" ?host ?port] split_on_no_sep [OF no(1)] split_on_no_sep [OF no(2)] by simp
  then show ?thesis using url h no by (intro exI [of _ ?port]) simp
qed

lemma connect_tunnelD:
  assumes "handleConnect env req = Tunnel ip port"
  shows "\<exists>hostname digits name d. rq_url req = Some (hostname @ '':'' @ digits) \<and> CHR '':'' \<notin> set hostname \<and> hostname \<noteq> []
    \<and> list_all is_digit digits \<and> parse_int 10 digits = Some port
    \<and> proxy_auth env req = Auth_Ok name d
    \<and> ad_allowed (checkDomainAccess (pe_dta env) (pe_global env) (pe_stores env) hostname
        (str_field d ''agentId'') (str_field d ''organizationId'') None None)
    \<and> resolveAndValidateTarget (pe_lookup env) hostname = Target_Ok ip \<and> 1 \<le> port \<and> port \<le> 65535"
proof -
  let ?url = "case rq_url req of None \<Rightarrow> [] | Some u \<Rightarrow> u"
  obtain hostname where host: "extractConnectHostname ?url = Some hostname"
    using assms unfolding handleConnect_def Let_def by (auto split: option.splits)
  obtain digits where line: "?url = hostname @ '':'' @ digits" "CHR '':'' \<notin> set hostname" "hostname \<noteq> []"
    "list_all is_digit digits" "digits \<noteq> []" "split_on CHR '':'' ?url = [hostname, digits]"
    using connect_request_line [OF host] by blast
  have url: "rq_url req = Some (hostname @ '':'' @ digits)" using line(1,3) by (auto split: option.splits)
  show ?thesis
    using assms line(3,5,6) unfolding handleConnect_def Let_def host option.case line(6)
    by - (rule exI [of _ hostname], rule exI [of _ digits], auto simp: url line(2,4)
        split: auth_result.splits target_resolution.splits if_splits option.splits)
qed

lemma forwardD:
  assumes "handleProxyRequest parse_url env req = Forward ip port target mth hs"
  shows "\<exists>url name d. truthy (rq_url req) \<and> parse_url (the (rq_url req)) = Some url
    \<and> proxy_auth env req = Auth_Ok name d
    \<and> ad_allowed (checkDomainAccess (pe_dta env) (pe_global env) (pe_stores env) (pu_hostname url)
        (str_field d ''agentId'') (str_field d ''organizationId'') (rq_method req) (Some target))
    \<and> target = pu_pathname url @ pu_search url
    \<and> resolveAndValidateTarget (pe_lookup env) (pu_hostname url) = Target_Ok ip
    \<and> hs = filter (\<lambda>h. fst h \<noteq> ''proxy-authorization'') (rq_headers req)"
  using assms unfolding handleProxyRequest_def Let_def
  by (auto split: option.splits auth_result.splits target_resolution.splits if_splits)

lemma newline_code: "code c = 13 \<or> code c = 10 \<longleftrightarrow> c = CHR 0x0D \<or> c = CHR 0x0A"
proof -
  have "c = d \<longleftrightarrow> code c = code d" for d by (simp add: code_def)
  moreover have "code CHR 0x0D = 13" "code CHR 0x0A = 10" by (simp_all add: code_def)
  ultimately show ?thesis by simp
qed

lemma join_newlines_Cons:
  "join_newlines (c # s) =
     (if code c = 13 \<or> code c = 10
      then (if s \<noteq> [] \<and> (code (hd s) = 13 \<or> code (hd s) = 10) then join_newlines s
            else CHR '' '' # join_newlines s)
      else c # join_newlines s)"
  by (cases s) simp_all

lemma join_newlines_clean: "c \<in> set (join_newlines s) \<Longrightarrow> \<not> (code c = 13 \<or> code c = 10)"
proof (induction s)
  case (Cons d s)
  have "code CHR '' '' = 32" by (simp add: code_def)
  with Cons show ?case by (auto simp: join_newlines_Cons simp del: join_newlines.simps split: if_splits)
qed simp

lemma set_trim: "set (trim s) \<subseteq> set s"
  unfolding trim_def by (metis set_dropWhileD set_rev subsetI)

section \<open>Properties\<close>

text \<open>
  C14: no tunnel without authority. When a CONNECT ends in a connection, its request line was \<^verbatim>\<open>host:port\<close>, the
  connection goes to that port and to the address the host resolved to, and that address is not internal. The client presented
  a token that verifies, names the deployment it claims, and was not revoked in this process within the last minute (later
  revocations are forgotten: lemma \<open>Revocation.cached_revocation_lasts_a_minute\<close>). The host is on no deny list and is
  allowed by the global lists without a denying grant, by a grant of the agent of the token in its organisation, or by an allowing
  decision of the judge for that agent, organisation and host.
\<close>

theorem connect_tunnel_authorised:
  assumes "handleConnect env req = Tunnel ip port"
  shows "\<exists>hostname digits name token d.
    rq_url req = Some (hostname @ '':'' @ digits) \<and> CHR '':'' \<notin> set hostname \<and> hostname \<noteq> []
    \<and> list_all is_digit digits \<and> parse_int 10 digits = Some port \<and> 1 \<le> port \<and> port \<le> 65535
    \<and> resolveAndValidateTarget (pe_lookup env) hostname = Target_Ok ip
    \<and> \<not> isBlockedIpAddress ip \<and> (mapped_compressed ip \<longrightarrow> \<not> internal_address ip)
    \<and> extractProxyCredentials (pe_b64 env) req = Some (name, token)
    \<and> verifyWorkerToken (pe_open env) (pe_getenv env) (pe_date env) (of_int (pe_now env)) token = Some d
    \<and> str_field d ''deploymentName'' = Some name
    \<and> (\<forall>jti. str_field d ''jti'' = Some jti \<and> jti \<noteq> [] \<longrightarrow> \<not> revoked_within_minute env jti)
    \<and> (let agent = str_field d ''agentId''; org = str_field d ''organizationId'';
           host = canonicalizeHostname (pe_dta env) hostname; stores = pe_stores env; global = pe_global env in
        \<not> (deniedDomains global \<noteq> [] \<and> matchesDomainPattern host (deniedDomains global))
        \<and> (isHostnameAllowed host (allowedDomains global) (deniedDomains global)
              \<and> \<not> (px_has stores \<noteq> None \<and> truthy agent \<and> px_denied stores (the agent) host org)
           \<or> (\<exists>has. px_has stores = Some has \<and> truthy agent \<and> has (the agent) host org)
           \<or> (\<exists>resolve rule. px_resolve stores = Some resolve \<and> truthy agent \<and> truthy org
                \<and> resolve (the org) (the agent) host = Some rule
                \<and> jd_verdict (px_decide stores \<lparr>jq_agentId = the agent, jq_organizationId = the org, jq_hostname = host,
                     jq_method = None, jq_path = None\<rparr> rule) = Allow)))"
proof -
  obtain hostname digits name d where t: "rq_url req = Some (hostname @ '':'' @ digits)" "CHR '':'' \<notin> set hostname" "hostname \<noteq> []"
    "list_all is_digit digits" "parse_int 10 digits = Some port" "proxy_auth env req = Auth_Ok name d"
    "ad_allowed (checkDomainAccess (pe_dta env) (pe_global env) (pe_stores env) hostname
        (str_field d ''agentId'') (str_field d ''organizationId'') None None)"
    "resolveAndValidateTarget (pe_lookup env) hostname = Target_Ok ip" "1 \<le> port" "port \<le> 65535"
    using connect_tunnelD [OF assms] by blast
  obtain token where a: "extractProxyCredentials (pe_b64 env) req = Some (name, token)"
    "verifyWorkerToken (pe_open env) (pe_getenv env) (pe_date env) (of_int (pe_now env)) token = Some d"
    "the (str_field d ''deploymentName'') = name"
    "\<not> (truthy (str_field d ''jti'') \<and> isRevokedCached (pe_now env) (the (str_field d ''jti'')) (pe_revocations env))"
    using auth_okD [OF t(6)] by blast
  have name: "str_field d ''deploymentName'' = Some name" using verified_deployment [OF a(2)] a(3) by auto
  have jti: "\<not> revoked_within_minute env jti" if "str_field d ''jti'' = Some jti \<and> jti \<noteq> []" for jti
    using revoked_refused [of env jti] a(4) that by auto
  show ?thesis
    using t(1-5,8-10) a(1,2) name jti resolved_unblocked [OF t(8)] internal_blocked [of ip] access_allowed [OF t(7)]
    unfolding Let_def by blast
qed

text \<open>
  a plain HTTP request is forwarded under the same conditions, the judge seeing its method
  and path, and the proxy's own credentials never leave with it: no forwarded header is
  \<^verbatim>\<open>proxy-authorization\<close>.
\<close>

theorem forward_authorised:
  assumes "handleProxyRequest parse_url env req = Forward ip port target mth hs"
  shows "\<exists>url token d. parse_url (the (rq_url req)) = Some url
    \<and> (\<exists>name. extractProxyCredentials (pe_b64 env) req = Some (name, token)
         \<and> the (str_field d ''deploymentName'') = name)
    \<and> verifyWorkerToken (pe_open env) (pe_getenv env) (pe_date env) (of_int (pe_now env)) token = Some d
    \<and> \<not> (truthy (str_field d ''jti'') \<and> isRevokedCached (pe_now env) (the (str_field d ''jti'')) (pe_revocations env))
    \<and> ad_allowed (checkDomainAccess (pe_dta env) (pe_global env) (pe_stores env) (pu_hostname url)
         (str_field d ''agentId'') (str_field d ''organizationId'') (rq_method req) (Some target))
    \<and> \<not> isBlockedIpAddress ip \<and> ''proxy-authorization'' \<notin> fst ` set hs"
proof -
  obtain url name d where t: "parse_url (the (rq_url req)) = Some url"
    "proxy_auth env req = Auth_Ok name d"
    "ad_allowed (checkDomainAccess (pe_dta env) (pe_global env) (pe_stores env) (pu_hostname url)
        (str_field d ''agentId'') (str_field d ''organizationId'') (rq_method req) (Some target))"
    "resolveAndValidateTarget (pe_lookup env) (pu_hostname url) = Target_Ok ip"
    "hs = filter (\<lambda>h. fst h \<noteq> ''proxy-authorization'') (rq_headers req)"
    using forwardD [OF assms] by blast
  have "''proxy-authorization'' \<notin> fst ` set hs" by (auto simp: t(5))
  with auth_okD [OF t(2)] resolved_unblocked [OF t(4)] t(1,3) show ?thesis by blast
qed

text \<open>
  the decision is the tenant's own: for a token with an organisation, checking access
  against the whole grants table gives the same decision as checking it against the rows of
  that organisation and agent alone.
\<close>

theorem access_uses_own_grants:
  assumes "org \<noteq> []" and "a \<noteq> []"
  shows "checkDomainAccess dta global
       (px\<lparr>px_has := Some (hasGrant dta als now db), px_denied := isDenied dta als now db\<rparr>)
       h (Some a) (Some org) mth path
     = checkDomainAccess dta global
       (px\<lparr>px_has := Some (hasGrant dta als now (restrict_grants org a db)),
           px_denied := isDenied dta als now (restrict_grants org a db)\<rparr>)
       h (Some a) (Some org) mth path"
  using grants.access_scoped [of org "Some a"] assms by simp

text \<open>
  a judge's reason cannot split the response: the reason phrase put on the status line
  holds no carriage return or line feed and at most 300 characters, whatever the judge wrote.
\<close>

theorem status_line_is_one_line:
  "length (escapeHeaderValue v) \<le> 300
    \<and> CHR 0x0D \<notin> set (escapeHeaderValue v) \<and> CHR 0x0A \<notin> set (escapeHeaderValue v)"
proof -
  have "set (escapeHeaderValue v) \<subseteq> set (join_newlines v)"
    unfolding escapeHeaderValue_def using set_trim [of "join_newlines v"] set_take_subset by fastforce
  then have "\<forall>c \<in> set (escapeHeaderValue v). \<not> (code c = 13 \<or> code c = 10)"
    using join_newlines_clean by blast
  then show ?thesis unfolding newline_code by (auto simp: escapeHeaderValue_def)
qed

text \<open>An open proxy with one worker token, used by the witnesses.\<close>

definition sample_env :: proxy_env where
  "sample_env = \<lparr>pe_dta = (\<lambda>h. h),
     pe_global = \<lparr>allowedDomains = [''*''], deniedDomains = [''evil.com'']\<rparr>,
     pe_stores = \<lparr>px_has = None, px_denied = (\<lambda>a h org. False), px_resolve = None,
       px_decide = (\<lambda>q r. sample_hit)\<rparr>,
     pe_b64 = (\<lambda>s. ''d:t''), pe_open = (\<lambda>t. if t = ''t'' then Some sample_payload else None),
     pe_getenv = (\<lambda>k. None), pe_date = (\<lambda>s. None), pe_now = 2000, pe_revocations = new_revoked_store, pe_lookup = (\<lambda>h. Some [''93.184.216.34''])\<rparr>"

definition sample_connect :: request where
  "sample_connect = \<lparr>rq_url = Some ''example.com:443'', rq_method = Some ''CONNECT'',
     rq_headers = [(''proxy-authorization'', ''Basic ZA==''), (''host'', ''example.com'')]\<rparr>"

lemma sample_connect_opens: "handleConnect sample_env sample_connect = Tunnel ''93.184.216.34'' 443"
  by code_simp

theorem connect_tunnel_authorised_witness: "\<not> isBlockedIpAddress ''93.184.216.34''"
  using connect_tunnel_authorised [OF sample_connect_opens] by blast

definition sample_parse :: "string \<Rightarrow> parsed_url option" where
  "sample_parse u = Some \<lparr>pu_hostname = ''example.com'', pu_port = [], pu_protocol = ''http:'',
     pu_pathname = ''/p'', pu_search = []\<rparr>"

lemma sample_forwards:
  "handleProxyRequest sample_parse sample_env (sample_connect\<lparr>rq_method := Some ''GET''\<rparr>)
     = Forward ''93.184.216.34'' ''80'' ''/p'' ''GET'' [(''host'', ''example.com'')]"
  by code_simp

theorem forward_authorised_witness:
  "''proxy-authorization'' \<notin> fst ` set [(''host'', ''example.com'')]"
  using forward_authorised [OF sample_forwards] by blast

theorem access_uses_own_grants_witness:
  "\<not> ad_allowed (checkDomainAccess (\<lambda>h. h) \<lparr>allowedDomains = [], deniedDomains = []\<rparr>
      ((pe_stores sample_env)\<lparr>px_has := Some (hasGrant (\<lambda>h. h) None 5 (Some
          [\<lparr>g_org = ''o2'', g_agent = ''ag'', g_kind = Domain_Kind, g_pattern = ''x.com'',
            g_expires = None, g_granted = 1, g_denied = False\<rparr>])),
        px_denied := isDenied (\<lambda>h. h) None 5 (Some
          [\<lparr>g_org = ''o2'', g_agent = ''ag'', g_kind = Domain_Kind, g_pattern = ''x.com'',
            g_expires = None, g_granted = 1, g_denied = False\<rparr>])\<rparr>)
      ''x.com'' (Some ''ag'') (Some ''o1'') None None)"
proof -
  let ?db = "Some [\<lparr>g_org = ''o2'', g_agent = ''ag'', g_kind = Domain_Kind, g_pattern = ''x.com'',
            g_expires = None, g_granted = 1, g_denied = False\<rparr>]"
  have "\<not> ad_allowed (checkDomainAccess (\<lambda>h. h) \<lparr>allowedDomains = [], deniedDomains = []\<rparr>
      ((pe_stores sample_env)\<lparr>px_has := Some (hasGrant (\<lambda>h. h) None 5 (restrict_grants ''o1'' ''ag'' ?db)),
        px_denied := isDenied (\<lambda>h. h) None 5 (restrict_grants ''o1'' ''ag'' ?db)\<rparr>)
      ''x.com'' (Some ''ag'') (Some ''o1'') None None)"
  proof -
    have "restrict_grants ''o1'' ''ag'' ?db = Some []" by (simp add: restrict_grants_def)
    moreover have "canonicalizeHostname (\<lambda>h. h) ''x.com'' = ''x.com''" by code_simp
    moreover have "\<not> hasGrant (\<lambda>h. h) None 5 (Some []) ''ag'' ''x.com'' (Some ''o1'')"
      by (simp add: hasGrant_def grant_rows_def Let_def)
    ultimately show ?thesis
      by (simp add: checkDomainAccess_def isHostnameAllowed_def isUnrestrictedMode_def sample_env_def)
  qed
  then show ?thesis by (subst access_uses_own_grants) (simp_all only: list.distinct not_False_eq_True)
qed

end
