(* ===== verification/Runs_Queue.thy ===== *)
theory Runs_Queue
  imports JS_Prelude
begin

text \<open>
  The message queue on the table \<^verbatim>\<open>runs\<close>:
  \<^verbatim>\<open>packages/server/src/gateway/infrastructure/queue/runs-queue.ts\<close>. The two tables it uses are
  the lists of \<open>queue_db\<close>; every SQL statement is one atomic operation on them, a transaction a
  composition that is discarded when it throws. \<open>now\<close> is the database clock in milliseconds.
  Several gateway processes share the tables, each with its own \<open>claimedBy\<close>. What a process
  holds in memory is \<open>queue_process\<close> and, per subscribed queue, \<open>queue_worker\<close>. Wake-ups, LISTEN
  channels and consumer leases only affect when a process polls and are not modelled.
\<close>

section \<open>Data\<close>

datatype lobu_run_type = Chat_Message | Schedule | Agent_Run | Internal | Task | Connector_Lane

datatype run_status = Pending | Claimed | Running | Completed | Run_Failed | Cancelled | Timeout

record 'p run =
  r_id :: nat
  r_type :: lobu_run_type
  r_queue :: string
  r_action_key :: "string option"
  r_input :: 'p
  r_key :: "string option"
  r_max :: nat
  r_attempts :: nat
  r_status :: run_status
  r_run_at :: ms
  r_priority :: int
  r_expires :: "ms option"
  r_retry_delay :: "int option"
  r_org :: "string option"
  r_claimed_at :: "ms option"
  r_claimed_by :: "string option"
  r_completed_at :: "ms option"
  r_error :: "string option"

record receipt =
  rc_key :: string
  rc_org :: "string option"
  rc_queue :: string
  rc_run :: "nat option"
  rc_created :: ms

record 'p queue_db =
  q_next :: nat
  q_runs :: "'p run list"
  q_receipts :: "receipt list"

record queue_process =
  qp_claimedBy :: string
  qp_connected :: bool
  qp_shuttingDown :: bool

record queue_worker =
  qw_queue :: string
  qw_type :: lobu_run_type
  qw_concurrency :: nat
  qw_paused :: bool
  qw_stopped :: bool
  qw_active :: nat

record queue_options =
  qo_singletonKey :: "string option"
  qo_retryLimit :: "nat option"
  qo_delayMs :: "int option"
  qo_priority :: "int option"
  qo_retryDelay :: "int option"
  qo_expireInSeconds :: "int option"
  qo_actionKey :: "string option"
  qo_durable :: bool

record 'p queue_payload =
  qd_organizationId :: "string option"
  qd_body :: 'p

record disposition =
  dp_jobId :: string
  dp_deduplicated :: bool

datatype queue_error = Not_Started | Shutting_Down | Receipt_Scope_Collision

definition claim_visibility_timeout_ms :: ms where
  "claim_visibility_timeout_ms = 5 * 60 * 1000"

definition max_backoff_seconds :: int where
  "max_backoff_seconds = 300"

section \<open>Pure helpers\<close>

definition classifyQueue :: "string \<Rightarrow> lobu_run_type" where
  "classifyQueue queueName =
     (if queueName = ''task'' \<or> starts_with queueName ''task:'' then Task
      else if starts_with queueName ''schedule'' then Schedule
      else if queueName = ''agent_run'' \<or> starts_with queueName ''agent_run:'' then Agent_Run
      else if starts_with queueName ''internal'' then Internal
      else Chat_Message)"

definition backoffSeconds :: "int \<Rightarrow> int" where
  "backoffSeconds attempt = min (2 ^ nat (max 0 attempt)) max_backoff_seconds"

definition is_lobu :: "'p run \<Rightarrow> bool" where
  "is_lobu r \<longleftrightarrow> r_type r \<noteq> Connector_Lane"

definition is_active :: "'p run \<Rightarrow> bool" where
  "is_active r \<longleftrightarrow> r_status r = Pending \<or> r_status r = Claimed \<or> r_status r = Running"

definition update_where :: "('p run \<Rightarrow> bool) \<Rightarrow> ('p run \<Rightarrow> 'p run) \<Rightarrow> 'p queue_db \<Rightarrow> 'p queue_db" where
  "update_where P f db = db\<lparr>q_runs := map (\<lambda>r. if P r then f r else r) (q_runs db)\<rparr>"

section \<open>Producing\<close>

definition new_run ::
    "ms \<Rightarrow> string \<Rightarrow> 'p queue_payload \<Rightarrow> queue_options \<Rightarrow> string option \<Rightarrow> nat \<Rightarrow> 'p run" where
  "new_run now queueName data opts org i =
     \<lparr>r_id = i, r_type = classifyQueue queueName, r_queue = queueName,
      r_action_key = qo_actionKey opts, r_input = qd_body data, r_key = qo_singletonKey opts,
      r_max = (case qo_retryLimit opts of None \<Rightarrow> 3 | Some n \<Rightarrow> n), r_attempts = 0,
      r_status = Pending,
      r_run_at = (case qo_delayMs opts of None \<Rightarrow> now | Some d \<Rightarrow> if 0 < d then now + d else now),
      r_priority = (case qo_priority opts of None \<Rightarrow> 0 | Some p \<Rightarrow> p),
      r_expires = (case qo_expireInSeconds opts of None \<Rightarrow> None
         | Some s \<Rightarrow> if 0 < s then Some (now + s * 1000) else None),
      r_retry_delay = qo_retryDelay opts, r_org = org, r_claimed_at = None, r_claimed_by = None,
      r_completed_at = None, r_error = None\<rparr>"

text \<open>\<^verbatim>\<open>INSERT ... ON CONFLICT DO NOTHING\<close> under the partial unique index on active keys.\<close>

definition key_taken :: "string option \<Rightarrow> 'p queue_db \<Rightarrow> bool" where
  "key_taken key db \<longleftrightarrow> key \<noteq> None \<and> list_ex (\<lambda>r. r_key r = key \<and> is_active r) (q_runs db)"

definition insert_run ::
    "ms \<Rightarrow> string \<Rightarrow> 'p queue_payload \<Rightarrow> queue_options \<Rightarrow> string option \<Rightarrow> 'p queue_db
       \<Rightarrow> nat option \<times> 'p queue_db" where
  "insert_run now queueName data opts org db =
     (if key_taken (qo_singletonKey opts) db then (None, db)
      else (Some (q_next db),
            db\<lparr>q_next := Suc (q_next db),
               q_runs := q_runs db @ [new_run now queueName data opts org (q_next db)]\<rparr>))"

definition latest_active :: "string \<Rightarrow> 'p queue_db \<Rightarrow> nat option" where
  "latest_active key db =
     (case filter (\<lambda>r. r_key r = Some key \<and> is_active r) (q_runs db) of
        [] \<Rightarrow> None
      | r # rs \<Rightarrow> Some (foldl max (r_id r) (map r_id rs)))"

definition set_receipt_run ::
    "(receipt \<Rightarrow> bool) \<Rightarrow> nat \<Rightarrow> 'p queue_db \<Rightarrow> 'p queue_db" where
  "set_receipt_run P i db =
     db\<lparr>q_receipts := map (\<lambda>c. if P c then c\<lparr>rc_run := Some i\<rparr> else c) (q_receipts db)\<rparr>"

text \<open>The part of the transaction after the receipt: insert, or fall back to the active run.\<close>

definition insert_or_join ::
    "ms \<Rightarrow> string \<Rightarrow> 'p queue_payload \<Rightarrow> queue_options \<Rightarrow> string option \<Rightarrow> bool \<Rightarrow> 'p queue_db
       \<Rightarrow> disposition \<times> 'p queue_db" where
  "insert_or_join now queueName data opts org durable db =
     (let key = qo_singletonKey opts; (inserted, db) = insert_run now queueName data opts org db in
      if inserted = None \<and> truthy key
      then
       (case latest_active (the key) db of
          None \<Rightarrow> (\<lparr>dp_jobId = [], dp_deduplicated = True\<rparr>, db)
        | Some i \<Rightarrow>
           (\<lparr>dp_jobId = show_int (int i), dp_deduplicated = True\<rparr>,
            if durable
            then set_receipt_run (\<lambda>c. rc_key c = the key \<and> rc_queue c = queueName \<and> rc_org c = org) i db
            else db))
      else
       (case inserted of
          None \<Rightarrow> (\<lparr>dp_jobId = [], dp_deduplicated = False\<rparr>, db)
        | Some i \<Rightarrow>
           (\<lparr>dp_jobId = show_int (int i), dp_deduplicated = False\<rparr>,
            if durable \<and> truthy key then set_receipt_run (\<lambda>c. rc_key c = the key) i db else db)))"

definition payload_org :: "'p queue_payload \<Rightarrow> string option" where
  "payload_org data = (if truthy (qd_organizationId data) then qd_organizationId data else None)"

definition sendWithDisposition ::
    "queue_process \<Rightarrow> ms \<Rightarrow> string \<Rightarrow> 'p queue_payload \<Rightarrow> queue_options \<Rightarrow> 'p queue_db
       \<Rightarrow> queue_error + disposition \<times> 'p queue_db" where
  "sendWithDisposition p now queueName data opts db =
     (let key = qo_singletonKey opts; org = payload_org data in
      if \<not> qp_connected p then Inl Not_Started
      else if qp_shuttingDown p then Inl Shutting_Down
      else if qo_durable opts \<and> truthy key
      then
       (case find (\<lambda>c. rc_key c = the key) (q_receipts db) of
          Some c \<Rightarrow>
            if rc_queue c \<noteq> queueName \<or> rc_org c \<noteq> org then Inl Receipt_Scope_Collision
            else Inr (\<lparr>dp_jobId = (case rc_run c of None \<Rightarrow> ''receipt:'' @ the key
                                  | Some i \<Rightarrow> show_int (int i)),
                       dp_deduplicated = True\<rparr>, db)
        | None \<Rightarrow>
            Inr (insert_or_join now queueName data opts org True
              (db\<lparr>q_receipts := q_receipts db
                   @ [\<lparr>rc_key = the key, rc_org = org, rc_queue = queueName, rc_run = None,
                       rc_created = now\<rparr>]\<rparr>)))
      else Inr (insert_or_join now queueName data opts org False db))"

definition send ::
    "queue_process \<Rightarrow> ms \<Rightarrow> string \<Rightarrow> 'p queue_payload \<Rightarrow> queue_options \<Rightarrow> 'p queue_db
       \<Rightarrow> queue_error + string \<times> 'p queue_db" where
  "send p now queueName data opts db =
     (case sendWithDisposition p now queueName data opts db of
        Inl e \<Rightarrow> Inl e | Inr (d, db') \<Rightarrow> Inr (dp_jobId d, db'))"

definition sendDurable ::
    "queue_process \<Rightarrow> ms \<Rightarrow> string \<Rightarrow> 'p queue_payload \<Rightarrow> queue_options \<Rightarrow> 'p queue_db
       \<Rightarrow> queue_error + disposition \<times> 'p queue_db" where
  "sendDurable p now queueName data opts db =
     sendWithDisposition p now queueName data (opts\<lparr>qo_durable := True\<rparr>) db"

section \<open>Claiming and finishing\<close>

definition claimable :: "ms \<Rightarrow> queue_worker \<Rightarrow> 'p run \<Rightarrow> bool" where
  "claimable now w r \<longleftrightarrow> r_status r = Pending \<and> r_type r = qw_type w \<and> r_queue r = qw_queue w
     \<and> r_run_at r \<le> now \<and> (case r_expires r of None \<Rightarrow> True | Some e \<Rightarrow> now < e)"

text \<open>\<^verbatim>\<open>ORDER BY priority DESC, run_at ASC, id ASC\<close>: \<open>before r q\<close> when \<open>r\<close> comes first.\<close>

definition before :: "'p run \<Rightarrow> 'p run \<Rightarrow> bool" where
  "before r q \<longleftrightarrow> r_priority q < r_priority r
     \<or> r_priority r = r_priority q \<and> (r_run_at r < r_run_at q
         \<or> r_run_at r = r_run_at q \<and> r_id r < r_id q)"

definition first_run :: "'p run list \<Rightarrow> 'p run option" where
  "first_run rs = (case rs of [] \<Rightarrow> None
     | r # qs \<Rightarrow> Some (foldl (\<lambda>best q. if before q best then q else best) r qs))"

definition claimOne :: "queue_process \<Rightarrow> ms \<Rightarrow> queue_worker \<Rightarrow> 'p queue_db \<Rightarrow> 'p run option \<times> 'p queue_db" where
  "claimOne p now w db =
     (case first_run (filter (claimable now w) (q_runs db)) of
        None \<Rightarrow> (None, db)
      | Some r \<Rightarrow> (Some r,
          update_where (\<lambda>q. r_id q = r_id r)
            (\<lambda>q. q\<lparr>r_status := Claimed, r_claimed_at := Some now,
                   r_claimed_by := Some (qp_claimedBy p)\<rparr>) db))"

definition owned :: "queue_process \<Rightarrow> nat \<Rightarrow> 'p run \<Rightarrow> bool" where
  "owned p i r \<longleftrightarrow> r_id r = i \<and> r_status r = Claimed \<and> r_claimed_by r = Some (qp_claimedBy p)"

definition heartbeatClaim :: "queue_process \<Rightarrow> ms \<Rightarrow> nat \<Rightarrow> 'p queue_db \<Rightarrow> 'p queue_db" where
  "heartbeatClaim p now i = update_where (owned p i) (\<lambda>r. r\<lparr>r_claimed_at := Some now\<rparr>)"

definition markCompleted :: "queue_process \<Rightarrow> ms \<Rightarrow> nat \<Rightarrow> 'p queue_db \<Rightarrow> 'p queue_db" where
  "markCompleted p now i = update_where (owned p i)
     (\<lambda>r. r\<lparr>r_status := Completed, r_completed_at := Some now\<rparr>)"

definition markFailed :: "queue_process \<Rightarrow> ms \<Rightarrow> nat \<Rightarrow> string \<Rightarrow> 'p queue_db \<Rightarrow> 'p queue_db" where
  "markFailed p now i message = update_where (owned p i)
     (\<lambda>r. r\<lparr>r_status := Run_Failed, r_completed_at := Some now, r_error := Some message,
            r_attempts := r_attempts r + 1\<rparr>)"

definition scheduleRetry ::
    "queue_process \<Rightarrow> ms \<Rightarrow> nat \<Rightarrow> nat \<Rightarrow> int option \<Rightarrow> 'p queue_db \<Rightarrow> 'p queue_db" where
  "scheduleRetry p now i attempt retryDelaySeconds =
     (let delay = (case retryDelaySeconds of Some s \<Rightarrow> max 0 s
           | None \<Rightarrow> backoffSeconds (int attempt)) in
      update_where (owned p i)
        (\<lambda>r. r\<lparr>r_status := Pending, r_attempts := attempt, r_run_at := now + delay * 1000,
               r_claimed_at := None, r_claimed_by := None\<rparr>))"

text \<open>
  \<^verbatim>\<open>runHandler\<close> once the handler settles: \<open>outcome\<close> is \<open>None\<close> when it returned, else the error
  message; \<open>claimed\<close> is the row as it was claimed.
\<close>

definition runHandler ::
    "queue_process \<Rightarrow> ms \<Rightarrow> 'p run \<Rightarrow> string option \<Rightarrow> 'p queue_db \<Rightarrow> 'p queue_db" where
  "runHandler p now claimed outcome db =
     (case outcome of
        None \<Rightarrow> markCompleted p now (r_id claimed) db
      | Some message \<Rightarrow>
         (let nextAttempt = r_attempts claimed + 1 in
          if r_max claimed \<le> nextAttempt then markFailed p now (r_id claimed) message db
          else scheduleRetry p now (r_id claimed) nextAttempt (r_retry_delay claimed) db))"

section \<open>Recovery, shutdown and retention\<close>

definition release :: "'p run \<Rightarrow> 'p run" where
  "release r = r\<lparr>r_status := Pending, r_claimed_at := None, r_claimed_by := None\<rparr>"

definition older_than :: "ms \<Rightarrow> ms \<Rightarrow> ms option \<Rightarrow> bool" where
  "older_than now age t = (case t of None \<Rightarrow> False | Some x \<Rightarrow> x < now - age)"

definition staleSweep :: "ms \<Rightarrow> 'p queue_db \<Rightarrow> 'p queue_db" where
  "staleSweep now = update_where
     (\<lambda>r. r_status r = Claimed \<and> is_lobu r
        \<and> older_than now claim_visibility_timeout_ms (r_claimed_at r))
     (\<lambda>r. (release r)\<lparr>r_run_at := now\<rparr>)"

definition recoverStaleClaimedRowsOnStartup :: "ms \<Rightarrow> 'p queue_db \<Rightarrow> 'p queue_db" where
  "recoverStaleClaimedRowsOnStartup now = update_where
     (\<lambda>r. (r_status r = Claimed \<or> r_status r = Running) \<and> is_lobu r
        \<and> (r_claimed_at r = None
            \<or> older_than now (claim_visibility_timeout_ms * 2) (r_claimed_at r)))
     (\<lambda>r. (release r)\<lparr>r_run_at := now\<rparr>)"

definition start :: "ms \<Rightarrow> queue_process \<times> 'p queue_db \<Rightarrow> queue_process \<times> 'p queue_db" where
  "start now = (\<lambda>(p, db).
     if qp_connected p then (p, db)
     else (p\<lparr>qp_connected := True, qp_shuttingDown := False\<rparr>,
           recoverStaleClaimedRowsOnStartup now db))"

text \<open>\<^verbatim>\<open>stop\<close> after its drain: what the process still holds goes back to pending.\<close>

definition stop :: "queue_process \<times> 'p queue_db \<Rightarrow> queue_process \<times> 'p queue_db" where
  "stop = (\<lambda>(p, db).
     (p\<lparr>qp_connected := False, qp_shuttingDown := True\<rparr>,
      update_where (\<lambda>r. r_claimed_by r = Some (qp_claimedBy p) \<and> r_status r = Claimed) release db))"

text \<open>The retention settings are days; \<open>None\<close> is an unset or invalid variable.\<close>

definition day_ms :: ms where
  "day_ms = 24 * 60 * 60 * 1000"

definition retention_days :: "int option \<Rightarrow> int" where
  "retention_days env = (case env of Some d \<Rightarrow> if 0 < d then d else 30 | None \<Rightarrow> 30)"

definition failed_retention_days :: "int option \<Rightarrow> int option \<Rightarrow> int" where
  "failed_retention_days env failedEnv =
     (case failedEnv of
        Some d \<Rightarrow> if 0 < d then max d (retention_days env) else retention_days env
      | None \<Rightarrow> retention_days env)"

definition receipt_retention_days :: "int option \<Rightarrow> int option \<Rightarrow> int" where
  "receipt_retention_days env receiptEnv =
     max (max 30 (retention_days env))
       (case receiptEnv of Some d \<Rightarrow> if 0 < d then d else 30 | None \<Rightarrow> 30)"

definition terminal :: "run_status \<Rightarrow> bool" where
  "terminal s \<longleftrightarrow> s = Completed \<or> s = Run_Failed \<or> s = Cancelled \<or> s = Timeout"

definition expired_run :: "ms \<Rightarrow> 'p run \<Rightarrow> bool" where
  "expired_run now r \<longleftrightarrow> is_lobu r \<and> r_status r = Pending
     \<and> (case r_expires r of None \<Rightarrow> False | Some e \<Rightarrow> e \<le> now)"

definition aged_run :: "ms \<Rightarrow> int \<Rightarrow> 'p run \<Rightarrow> bool" where
  "aged_run now days r \<longleftrightarrow> is_lobu r \<and> (r_status r = Completed \<or> r_status r = Cancelled \<or> r_status r = Timeout)
     \<and> older_than now (days * day_ms) (r_completed_at r)"

definition aged_failed :: "ms \<Rightarrow> int \<Rightarrow> 'p run \<Rightarrow> bool" where
  "aged_failed now days r \<longleftrightarrow> is_lobu r \<and> r_status r = Run_Failed
     \<and> older_than now (days * day_ms) (r_completed_at r)"

definition aged_receipt :: "ms \<Rightarrow> int \<Rightarrow> 'p run list \<Rightarrow> receipt \<Rightarrow> bool" where
  "aged_receipt now days rs c \<longleftrightarrow> rc_created c < now - days * day_ms
     \<and> (case rc_run c of None \<Rightarrow> True
        | Some i \<Rightarrow> (case find (\<lambda>r. r_id r = i) rs of None \<Rightarrow> True | Some r \<Rightarrow> terminal (r_status r)))"

definition sweepCompletedRuns ::
    "int option \<Rightarrow> int option \<Rightarrow> int option \<Rightarrow> ms \<Rightarrow> 'p queue_db \<Rightarrow> nat \<times> 'p queue_db" where
  "sweepCompletedRuns env failedEnv receiptEnv now db =
     (let runs1 = filter (\<lambda>r. \<not> expired_run now r) (q_runs db);
          runs2 = filter (\<lambda>r. \<not> aged_run now (retention_days env) r) runs1;
          runs3 = filter (\<lambda>r. \<not> aged_failed now (failed_retention_days env failedEnv) r) runs2;
          old = take 1000 (sort_key rc_created
            (filter (aged_receipt now (receipt_retention_days env receiptEnv) runs3) (q_receipts db)))
      in ((length (q_runs db) - length runs3) + length old,
          db\<lparr>q_runs := runs3,
             q_receipts := filter (\<lambda>c. rc_key c \<notin> rc_key ` set old) (q_receipts db)\<rparr>))"

definition getQueueStats :: "string \<Rightarrow> 'p queue_db \<Rightarrow> nat \<times> nat \<times> nat \<times> nat" where
  "getQueueStats queueName db =
     (let rs = filter (\<lambda>r. r_queue r = queueName) (q_runs db);
          count = (\<lambda>P. length (filter P rs)) in
      (count (\<lambda>r. r_status r = Pending), count (\<lambda>r. r_status r = Claimed \<or> r_status r = Running),
       count (\<lambda>r. r_status r = Completed), count (\<lambda>r. r_status r = Run_Failed)))"

section \<open>The system: several processes over one table\<close>

text \<open>
  \<open>qs_held\<close> lists the rows whose handlers still run, with the claim identity of their process. A
  handler outlives its claim when its heartbeats fail and the sweeper frees the row, and outlives
  \<open>stop\<close> when the drain times out. \<open>Crash\<close> forgets the handlers of one process.
\<close>

record 'p queue_system =
  qs_now :: ms
  qs_db :: "'p queue_db"
  qs_held :: "(string \<times> 'p run) list"

definition empty_system :: "ms \<Rightarrow> 'p queue_system" where
  "empty_system t = \<lparr>qs_now = t, qs_db = \<lparr>q_next = 1, q_runs = [], q_receipts = []\<rparr>, qs_held = []\<rparr>"

inductive queue_step :: "'p queue_system \<Rightarrow> 'p queue_system \<Rightarrow> bool" where
  Enqueue: "sendWithDisposition p (qs_now s) queueName data opts (qs_db s) = Inr (d, db) \<Longrightarrow>
     queue_step s (s\<lparr>qs_db := db\<rparr>)"
| Claim: "claimOne p (qs_now s) w (qs_db s) = (Some r, db) \<Longrightarrow>
     queue_step s (s\<lparr>qs_db := db, qs_held := (qp_claimedBy p, r) # qs_held s\<rparr>)"
| Heartbeat: "(qp_claimedBy p, r) \<in> set (qs_held s) \<Longrightarrow>
     queue_step s (s\<lparr>qs_db := heartbeatClaim p (qs_now s) (r_id r) (qs_db s)\<rparr>)"
| Settle: "(qp_claimedBy p, r) \<in> set (qs_held s) \<Longrightarrow>
     queue_step s (s\<lparr>qs_db := runHandler p (qs_now s) r outcome (qs_db s),
       qs_held := remove1 (qp_claimedBy p, r) (qs_held s)\<rparr>)"
| Sweep: "queue_step s (s\<lparr>qs_db := staleSweep (qs_now s) (qs_db s)\<rparr>)"
| Startup: "queue_step s (s\<lparr>qs_db := snd (start (qs_now s) (p, qs_db s))\<rparr>)"
| Shutdown: "queue_step s (s\<lparr>qs_db := snd (stop (p, qs_db s))\<rparr>)"
| Retention: "queue_step s
     (s\<lparr>qs_db := snd (sweepCompletedRuns env failedEnv receiptEnv (qs_now s) (qs_db s))\<rparr>)"
| Tick: "qs_now s \<le> t \<Longrightarrow> queue_step s (s\<lparr>qs_now := t\<rparr>)"
| Crash: "queue_step s (s\<lparr>qs_held := filter (\<lambda>h. fst h \<noteq> c) (qs_held s)\<rparr>)"

section \<open>Row updates\<close>

text \<open>What a claim leaves in a row: who holds it and since when, exactly while it is claimed.\<close>

definition claim_fields :: "'p run \<Rightarrow> bool" where
  "claim_fields r \<longleftrightarrow> (r_status r = Claimed \<longrightarrow> r_claimed_at r \<noteq> None \<and> r_claimed_by r \<noteq> None)
     \<and> (r_status r = Pending \<longrightarrow> r_claimed_at r = None \<and> r_claimed_by r = None)"

definition attempts_left :: "'p run \<Rightarrow> bool" where
  "attempts_left r \<longleftrightarrow> (is_active r \<longrightarrow> r_attempts r < max 1 (r_max r))"

definition ids_ok :: "'p queue_db \<Rightarrow> bool" where
  "ids_ok db \<longleftrightarrow> distinct (map r_id (q_runs db)) \<and> (\<forall>r \<in> set (q_runs db). r_id r < q_next db)"

definition keys_ok :: "'p queue_db \<Rightarrow> bool" where
  "keys_ok db \<longleftrightarrow> (\<forall>a \<in> set (q_runs db). \<forall>b \<in> set (q_runs db).
     is_active a \<and> is_active b \<and> r_key a = r_key b \<and> r_key a \<noteq> None \<longrightarrow> r_id a = r_id b)"

definition db_inv :: "'p queue_db \<Rightarrow> bool" where
  "db_inv db \<longleftrightarrow> ids_ok db \<and> keys_ok db
     \<and> (\<forall>r \<in> set (q_runs db). claim_fields r \<and> attempts_left r)"

lemma update_where_runs: "q_runs (update_where P f db) = map (\<lambda>r. if P r then f r else r) (q_runs db)"
  "q_next (update_where P f db) = q_next db" "q_receipts (update_where P f db) = q_receipts db"
  unfolding update_where_def by simp_all

lemma all_update_where: "(\<forall>r \<in> set (q_runs (update_where P f db)). Q r)
    \<longleftrightarrow> (\<forall>r \<in> set (q_runs db). Q (if P r then f r else r))"
  unfolding update_where_runs by (simp only: set_map ball_simps)

text \<open>
  Every \<^verbatim>\<open>UPDATE\<close> of the queue keeps the identity of the rows it touches, revives none that is
  finished and leaves the claim columns consistent.
\<close>

locale row_update =
  fixes P :: "'p run \<Rightarrow> bool" and f :: "'p run \<Rightarrow> 'p run"
  assumes keeps: "r_id (f r) = r_id r" "r_key (f r) = r_key r" "r_max (f r) = r_max r"
      "r_type (f r) = r_type r" "r_queue (f r) = r_queue r"
    and no_revival: "P r \<Longrightarrow> is_active (f r) \<Longrightarrow> is_active r"
    and claims: "P r \<Longrightarrow> claim_fields r \<Longrightarrow> claim_fields (f r)"
begin

abbreviation apply_row :: "'p run \<Rightarrow> 'p run" where
  "apply_row r \<equiv> (if P r then f r else r)"

lemma apply_keeps: "r_id (apply_row r) = r_id r" "r_key (apply_row r) = r_key r"
  "r_max (apply_row r) = r_max r"
  by (simp_all add: keeps)

lemma apply_active: "is_active (apply_row r) \<Longrightarrow> is_active r"
  by (metis no_revival)

lemma keeps_ids: "ids_ok (update_where P f db) = ids_ok db"
  unfolding ids_ok_def all_update_where
  by (simp only: update_where_runs map_map comp_def apply_keeps)

lemma keeps_keys: "keys_ok db \<Longrightarrow> keys_ok (update_where P f db)"
  unfolding keys_ok_def all_update_where apply_keeps using apply_active by blast

lemma keeps_claims: "\<forall>r \<in> set (q_runs db). claim_fields r \<Longrightarrow>
    \<forall>r \<in> set (q_runs (update_where P f db)). claim_fields r"
  unfolding all_update_where using claims by simp

lemma keeps_attempts: "\<forall>r \<in> set (q_runs db). attempts_left r \<Longrightarrow>
    (\<And>r. r \<in> set (q_runs db) \<Longrightarrow> P r \<Longrightarrow> attempts_left r \<Longrightarrow> attempts_left (f r)) \<Longrightarrow>
    \<forall>r \<in> set (q_runs (update_where P f db)). attempts_left r"
  unfolding all_update_where by simp

lemma keeps_inv: "db_inv db \<Longrightarrow>
    (\<And>r. r \<in> set (q_runs db) \<Longrightarrow> P r \<Longrightarrow> attempts_left r \<Longrightarrow> attempts_left (f r)) \<Longrightarrow>
    db_inv (update_where P f db)"
  unfolding db_inv_def using keeps_ids keeps_keys keeps_claims keeps_attempts by blast

end

lemmas row_simps = is_active_def claim_fields_def attempts_left_def owned_def release_def

interpretation claim_row: row_update "\<lambda>q. r_id q = i \<and> r_status q = Pending"
    "\<lambda>q. q\<lparr>r_status := Claimed, r_claimed_at := Some now, r_claimed_by := Some c\<rparr>" for i now c
  by unfold_locales (simp_all add: row_simps)

interpretation heartbeat_row: row_update "owned p i" "\<lambda>r. r\<lparr>r_claimed_at := Some now\<rparr>" for p i now
  by unfold_locales (simp_all add: row_simps)

interpretation complete_row: row_update "owned p i"
    "\<lambda>r. r\<lparr>r_status := Completed, r_completed_at := Some now\<rparr>" for p i now
  by unfold_locales (simp_all add: row_simps)

interpretation fail_row: row_update "owned p i"
    "\<lambda>r. r\<lparr>r_status := Run_Failed, r_completed_at := Some now, r_error := Some message,
           r_attempts := r_attempts r + 1\<rparr>" for p i now message
  by unfold_locales (simp_all add: row_simps)

interpretation retry_row: row_update "owned p i"
    "\<lambda>r. r\<lparr>r_status := Pending, r_attempts := attempt, r_run_at := at,
           r_claimed_at := None, r_claimed_by := None\<rparr>" for p i attempt at
  by unfold_locales (simp_all add: row_simps)

interpretation stale_row: row_update
    "\<lambda>r. r_status r = Claimed \<and> is_lobu r
        \<and> older_than now claim_visibility_timeout_ms (r_claimed_at r)"
    "\<lambda>r. (release r)\<lparr>r_run_at := now\<rparr>" for now
  by unfold_locales (simp_all add: row_simps)

interpretation startup_row: row_update
    "\<lambda>r. (r_status r = Claimed \<or> r_status r = Running) \<and> is_lobu r
        \<and> (r_claimed_at r = None
            \<or> older_than now (claim_visibility_timeout_ms * 2) (r_claimed_at r))"
    "\<lambda>r. (release r)\<lparr>r_run_at := now\<rparr>" for now
  by unfold_locales (auto simp: row_simps)

interpretation stop_row: row_update
    "\<lambda>r. r_claimed_by r = Some c \<and> r_status r = Claimed" release for c
  by unfold_locales (simp_all add: row_simps)

section \<open>The order of claims\<close>

lemma before_not_trans: "\<not> before a b \<Longrightarrow> \<not> before b c \<Longrightarrow> \<not> before a c"
  unfolding before_def by linarith

lemma before_total: "\<not> before a b \<Longrightarrow> r_id a \<noteq> r_id b \<Longrightarrow> before b a"
  unfolding before_def by linarith

lemma before_irrefl: "\<not> before a a"
  unfolding before_def by simp

lemma before_asym: "before a b \<Longrightarrow> \<not> before b a"
  unfolding before_def by linarith

lemma foldl_first:
  "foldl (\<lambda>best q. if before q best then q else best) r qs \<in> set (r # qs)
   \<and> (\<forall>q \<in> set (r # qs). \<not> before q (foldl (\<lambda>best q. if before q best then q else best) r qs))"
proof (induction qs arbitrary: r)
  case Nil then show ?case by (simp add: before_irrefl)
next
  case (Cons a qs)
  let ?b = "if before a r then a else r"
  have b: "\<not> before a ?b \<and> \<not> before r ?b"
    by (simp add: before_asym before_irrefl)
  let ?m = "foldl (\<lambda>best q. if before q best then q else best) ?b qs"
  have m: "?m \<in> set (?b # qs)" and le: "\<not> before ?b ?m" "\<forall>q \<in> set qs. \<not> before q ?m"
    using Cons[of ?b] by simp_all
  have "\<not> before a ?m" "\<not> before r ?m"
    using b le(1) before_not_trans by blast+
  then show ?case using m le(2) by (auto split: if_splits)
qed

lemma first_run_least: "first_run rs = Some r \<Longrightarrow> r \<in> set rs \<and> (\<forall>q \<in> set rs. \<not> before q r)"
  unfolding first_run_def using foldl_first by (auto split: list.splits)

lemma first_run_none: "first_run rs = None \<longleftrightarrow> rs = []"
  unfolding first_run_def by (simp split: list.splits)

lemma claimOne_some:
  assumes "claimOne p now w db = (Some r, db')"
  shows "r \<in> set (q_runs db)" "claimable now w r"
    "\<And>q. q \<in> set (q_runs db) \<Longrightarrow> claimable now w q \<Longrightarrow> \<not> before q r"
proof -
  have "first_run (filter (claimable now w) (q_runs db)) = Some r"
    using assms unfolding claimOne_def by (simp split: option.splits)
  from first_run_least[OF this] show "r \<in> set (q_runs db)" "claimable now w r"
    "\<And>q. q \<in> set (q_runs db) \<Longrightarrow> claimable now w q \<Longrightarrow> \<not> before q r"
    by simp_all
qed

lemma claimOne_row:
  assumes "claimOne p now w db = (Some r, db')" "ids_ok db"
  shows "db' = update_where (\<lambda>q. r_id q = r_id r \<and> r_status q = Pending)
    (\<lambda>q. q\<lparr>r_status := Claimed, r_claimed_at := Some now, r_claimed_by := Some (qp_claimedBy p)\<rparr>) db"
proof -
  have "q = r" if "q \<in> set (q_runs db)" "r_id q = r_id r" for q
    using that claimOne_some(1)[OF assms(1)] assms(2) unfolding ids_ok_def
    by (meson eq_key_imp_eq_value distinct_map inj_onD)
  then have "r_status q = Pending" if "q \<in> set (q_runs db)" "r_id q = r_id r" for q
    using that claimOne_some(2)[OF assms(1)] unfolding claimable_def by blast
  then show ?thesis using assms(1) unfolding claimOne_def update_where_def
    by (auto split: option.splits)
qed

section \<open>Every step keeps the invariant\<close>

text \<open>A handler runs on a row as it was claimed; the table may know that row no more.\<close>

definition held_ok :: "'p queue_db \<Rightarrow> 'p run \<Rightarrow> bool" where
  "held_ok db r \<longleftrightarrow> r_id r < q_next db \<and> r_attempts r < max 1 (r_max r)
     \<and> (\<forall>q \<in> set (q_runs db). r_id q = r_id r \<longrightarrow> r_max q = r_max r)"

definition queue_inv :: "'p queue_system \<Rightarrow> bool" where
  "queue_inv s \<longleftrightarrow> db_inv (qs_db s) \<and> (\<forall>h \<in> set (qs_held s). held_ok (qs_db s) (snd h))"

lemma max_kept:
  assumes "row_update P f"
  shows "held_ok db h \<Longrightarrow> held_ok (update_where P f db) h"
proof -
  note row_update.apply_keeps[OF assms]
  then show "held_ok db h \<Longrightarrow> held_ok (update_where P f db) h"
    unfolding held_ok_def all_update_where update_where_runs(2) by simp
qed

lemma sendWithDisposition_db:
  assumes "sendWithDisposition p now queueName data opts db = Inr (d, db')"
  shows "q_runs db' = q_runs db \<and> q_next db' = q_next db
    \<or> (\<exists>org. \<not> key_taken (qo_singletonKey opts) db
         \<and> q_runs db' = q_runs db @ [new_run now queueName data opts org (q_next db)]
         \<and> q_next db' = Suc (q_next db))"
  using assms unfolding sendWithDisposition_def insert_or_join_def insert_run_def set_receipt_run_def
    key_taken_def
  by (auto simp: Let_def split: if_splits option.splits prod.splits)

lemma new_run_fields: "r_id (new_run now qn data opts org i) = i"
  "r_key (new_run now qn data opts org i) = qo_singletonKey opts"
  "r_status (new_run now qn data opts org i) = Pending"
  "claim_fields (new_run now qn data opts org i)"
  "attempts_left (new_run now qn data opts org i)"
  unfolding new_run_def by (simp_all add: row_simps)

lemma db_inv_same_runs: "q_runs db' = q_runs db \<Longrightarrow> q_next db' = q_next db \<Longrightarrow> db_inv db' = db_inv db"
  unfolding db_inv_def ids_ok_def keys_ok_def by simp

lemma db_inv_append:
  assumes "db_inv db" "r_id r = q_next db" "claim_fields r" "attempts_left r"
    "\<forall>q \<in> set (q_runs db). r_key q = r_key r \<and> is_active q \<longrightarrow> r_key r = None"
    "q_runs db' = q_runs db @ [r]" "q_next db' = Suc (q_next db)"
  shows "db_inv db'"
proof -
  have "ids_ok db'" using assms unfolding db_inv_def ids_ok_def by force
  moreover have "keys_ok db'"
  proof -
    have old: "keys_ok db" using assms(1) unfolding db_inv_def by blast
    have "r_id a = r_id b" if "a \<in> set (q_runs db')" "b \<in> set (q_runs db')" "is_active a"
      "is_active b" "r_key a = r_key b" "r_key a \<noteq> None" for a b
    proof (cases "a = r \<or> b = r")
      case True
      have other: "x = r" if x: "x \<in> set (q_runs db')" "is_active x" "r_key x = r_key r"
        "r_key r \<noteq> None" for x
      proof (rule ccontr)
        assume "x \<noteq> r"
        with x(1) assms(6) have "x \<in> set (q_runs db)" by simp
        from bspec[OF assms(5) this] show False using x(2-4) by simp
      qed
      from True show ?thesis
      proof
        assume "a = r"
        moreover from this have "b = r" using other[OF that(2,4)] that(5,6) by metis
        ultimately show ?thesis by simp
      next
        assume "b = r"
        moreover from this have "a = r" using other[OF that(1,3)] that(5,6) by metis
        ultimately show ?thesis by simp
      qed
    next
      case False
      then have "a \<in> set (q_runs db)" "b \<in> set (q_runs db)" using that(1,2) assms(6) by simp_all
      then show ?thesis using old that(3-6) unfolding keys_ok_def by metis
    qed
    then show ?thesis unfolding keys_ok_def by blast
  qed
  ultimately show ?thesis using assms unfolding db_inv_def by simp
qed

lemma enqueue_inv:
  assumes "sendWithDisposition p now queueName data opts db = Inr (d, db')" "db_inv db"
  shows "db_inv db'" "held_ok db h \<Longrightarrow> held_ok db' h"
proof -
  consider "q_runs db' = q_runs db" "q_next db' = q_next db"
    | org where "\<not> key_taken (qo_singletonKey opts) db"
        "q_runs db' = q_runs db @ [new_run now queueName data opts org (q_next db)]"
        "q_next db' = Suc (q_next db)"
    using sendWithDisposition_db[OF assms(1)] by blast
  then show "db_inv db'"
  proof cases
    case 1 then show ?thesis using assms(2) db_inv_same_runs by blast
  next
    case (2 org)
    have "\<forall>q \<in> set (q_runs db). r_key q = qo_singletonKey opts \<and> is_active q
        \<longrightarrow> qo_singletonKey opts = None"
      using 2(1) unfolding key_taken_def list_ex_iff by blast
    then show ?thesis using db_inv_append[OF assms(2) _ _ _ _ 2(2,3)] by (simp add: new_run_fields)
  qed
  show "held_ok db h \<Longrightarrow> held_ok db' h"
    using sendWithDisposition_db[OF assms(1)] unfolding held_ok_def
    by (auto simp: new_run_fields)
qed

lemma claim_inv:
  assumes "claimOne p now w db = (Some r, db')" "db_inv db"
  shows "db_inv db'" "held_ok db' r" "held_ok db h \<Longrightarrow> held_ok db' h"
proof -
  have ids: "ids_ok db" using assms(2) unfolding db_inv_def by blast
  note row = claimOne_row[OF assms(1) ids]
  show "db_inv db'" unfolding row
    by (rule claim_row.keeps_inv[OF assms(2)]) (simp add: row_simps)
  show "held_ok db h \<Longrightarrow> held_ok db' h" for h unfolding row
    by (rule max_kept[OF claim_row.row_update_axioms])
  have r: "r \<in> set (q_runs db)" "r_status r = Pending"
    using claimOne_some(1,2)[OF assms(1)] unfolding claimable_def by simp_all
  have "q = r" if "q \<in> set (q_runs db)" "r_id q = r_id r" for q
    using that r(1) ids unfolding ids_ok_def by (meson eq_key_imp_eq_value distinct_map inj_onD)
  moreover have "r_attempts r < max 1 (r_max r)" "r_id r < q_next db"
    using assms(2) r unfolding db_inv_def ids_ok_def attempts_left_def is_active_def by auto
  ultimately have "held_ok db r" unfolding held_ok_def by blast
  then show "held_ok db' r" unfolding row by (rule max_kept[OF claim_row.row_update_axioms])
qed

lemma heartbeat_inv:
  shows "db_inv db \<Longrightarrow> db_inv (heartbeatClaim p now i db)"
    and "held_ok db h \<Longrightarrow> held_ok (heartbeatClaim p now i db) h"
  unfolding heartbeatClaim_def
  subgoal by (erule heartbeat_row.keeps_inv) (simp add: row_simps)
  subgoal by (erule max_kept[OF heartbeat_row.row_update_axioms])
  done

lemma completed_inv:
  shows "db_inv db \<Longrightarrow> db_inv (markCompleted p now i db)"
    and "held_ok db h \<Longrightarrow> held_ok (markCompleted p now i db) h"
  unfolding markCompleted_def
  subgoal by (erule complete_row.keeps_inv) (simp add: row_simps)
  subgoal by (erule max_kept[OF complete_row.row_update_axioms])
  done

lemma failed_inv:
  shows "db_inv db \<Longrightarrow> db_inv (markFailed p now i msg db)"
    and "held_ok db h \<Longrightarrow> held_ok (markFailed p now i msg db) h"
  unfolding markFailed_def
  subgoal by (erule fail_row.keeps_inv) (simp add: row_simps)
  subgoal by (erule max_kept[OF fail_row.row_update_axioms])
  done

lemma retry_inv:
  assumes "held_ok db r" "r_attempts r + 1 < r_max r"
  shows "db_inv db \<Longrightarrow> db_inv (scheduleRetry p now (r_id r) (r_attempts r + 1) delay db)"
    "held_ok db h \<Longrightarrow> held_ok (scheduleRetry p now (r_id r) (r_attempts r + 1) delay db) h"
proof -
  have "attempts_left (q\<lparr>r_status := Pending, r_attempts := r_attempts r + 1, r_run_at := at,
      r_claimed_at := None, r_claimed_by := None\<rparr>)"
    if "q \<in> set (q_runs db)" "owned p (r_id r) q" for q at
    using that assms unfolding held_ok_def owned_def attempts_left_def by simp
  then show "db_inv db \<Longrightarrow> db_inv (scheduleRetry p now (r_id r) (r_attempts r + 1) delay db)"
    unfolding scheduleRetry_def Let_def by (intro retry_row.keeps_inv)
  show "held_ok db h \<Longrightarrow> held_ok (scheduleRetry p now (r_id r) (r_attempts r + 1) delay db) h"
    unfolding scheduleRetry_def Let_def by (rule max_kept[OF retry_row.row_update_axioms])
qed

lemma runHandler_inv:
  assumes "held_ok db r"
  shows "db_inv db \<Longrightarrow> db_inv (runHandler p now r outcome db)"
    "held_ok db h \<Longrightarrow> held_ok (runHandler p now r outcome db) h"
  using completed_inv failed_inv retry_inv[OF assms]
  unfolding runHandler_def Let_def by (auto split: option.splits)

lemma sweep_inv:
  shows "db_inv db \<Longrightarrow> db_inv (staleSweep now db)"
    and "held_ok db h \<Longrightarrow> held_ok (staleSweep now db) h"
  unfolding staleSweep_def
  subgoal by (erule stale_row.keeps_inv) (simp add: row_simps)
  subgoal by (erule max_kept[OF stale_row.row_update_axioms])
  done

lemma recover_inv:
  shows "db_inv db \<Longrightarrow> db_inv (recoverStaleClaimedRowsOnStartup now db)"
    and "held_ok db h \<Longrightarrow> held_ok (recoverStaleClaimedRowsOnStartup now db) h"
  unfolding recoverStaleClaimedRowsOnStartup_def
  subgoal by (erule startup_row.keeps_inv) (simp add: row_simps)
  subgoal by (erule max_kept[OF startup_row.row_update_axioms])
  done

lemma startup_inv:
  "db_inv db \<Longrightarrow> db_inv (snd (start now (p, db)))" "held_ok db h \<Longrightarrow> held_ok (snd (start now (p, db))) h"
  unfolding start_def by (simp_all add: recover_inv)

lemma stop_inv:
  shows "db_inv db \<Longrightarrow> db_inv (snd (stop (p, db)))"
    and "held_ok db h \<Longrightarrow> held_ok (snd (stop (p, db))) h"
  unfolding stop_def prod.case
  subgoal unfolding snd_conv by (erule stop_row.keeps_inv) (simp add: row_simps)
  subgoal unfolding snd_conv by (erule max_kept[OF stop_row.row_update_axioms])
  done

lemma retention_runs: "\<exists>P. q_runs (snd (sweepCompletedRuns e f c now db)) = filter P (q_runs db)"
  "q_next (snd (sweepCompletedRuns e f c now db)) = q_next db"
  unfolding sweepCompletedRuns_def Let_def by auto

lemma keys_ok_mono: "keys_ok db \<Longrightarrow> set (q_runs db') \<subseteq> set (q_runs db) \<Longrightarrow> keys_ok db'"
  unfolding keys_ok_def by blast

lemma retention_inv:
  "db_inv db \<Longrightarrow> db_inv (snd (sweepCompletedRuns e f c now db))"
  "held_ok db h \<Longrightarrow> held_ok (snd (sweepCompletedRuns e f c now db)) h"
proof -
  obtain P where P: "q_runs (snd (sweepCompletedRuns e f c now db)) = filter P (q_runs db)"
    using retention_runs(1) by blast
  show "db_inv db \<Longrightarrow> db_inv (snd (sweepCompletedRuns e f c now db))"
    using keys_ok_mono[of db "snd (sweepCompletedRuns e f c now db)"]
    unfolding db_inv_def ids_ok_def P retention_runs(2)
    by (simp add: distinct_map_filter)
  show "held_ok db h \<Longrightarrow> held_ok (snd (sweepCompletedRuns e f c now db)) h"
    unfolding held_ok_def P retention_runs(2) by simp
qed

lemma queue_inv_db: "queue_inv s \<Longrightarrow> (db_inv (qs_db s) \<Longrightarrow> db_inv db) \<Longrightarrow>
    (\<And>h. held_ok (qs_db s) h \<Longrightarrow> held_ok db h) \<Longrightarrow> queue_inv (s\<lparr>qs_db := db\<rparr>)"
  unfolding queue_inv_def by simp

lemma queue_inv_held: "queue_inv s \<Longrightarrow> set hs \<subseteq> set (qs_held s) \<Longrightarrow> queue_inv (s\<lparr>qs_held := hs\<rparr>)"
  unfolding queue_inv_def by auto

lemma queue_inv_parts: "queue_inv s \<Longrightarrow> db_inv (qs_db s)"
  "queue_inv s \<Longrightarrow> (c, r) \<in> set (qs_held s) \<Longrightarrow> held_ok (qs_db s) r"
  unfolding queue_inv_def by auto

lemma step_inv: "queue_step s s' \<Longrightarrow> queue_inv s \<Longrightarrow> queue_inv s'"
proof (induction rule: queue_step.induct)
  case (Enqueue p s queueName data opts d db)
  show ?case by (rule queue_inv_db[OF Enqueue(2)]) (use enqueue_inv[OF Enqueue(1)] Enqueue(2) queue_inv_parts in blast)+
next
  case (Claim p s w r db)
  note claim = claim_inv[OF Claim(1) queue_inv_parts(1)[OF Claim(2)]]
  have "queue_inv (s\<lparr>qs_db := db\<rparr>)" by (rule queue_inv_db[OF Claim(2)]) (use claim in blast)+
  then show ?case using claim(2) unfolding queue_inv_def by simp
next
  case (Heartbeat p r s)
  show ?case by (rule queue_inv_db[OF Heartbeat(2)]) (rule heartbeat_inv; assumption)+
next
  case (Settle p r s outcome)
  note held = queue_inv_parts(2)[OF Settle(2,1)]
  have "queue_inv (s\<lparr>qs_db := runHandler p (qs_now s) r outcome (qs_db s)\<rparr>)"
    by (rule queue_inv_db[OF Settle(2)]) (rule runHandler_inv[OF held]; assumption)+
  from queue_inv_held[OF this, of "remove1 (qp_claimedBy p, r) (qs_held s)"]
  show ?case by (simp add: set_remove1_subset)
next
  case (Sweep s) show ?case by (rule queue_inv_db[OF Sweep]) (rule sweep_inv; assumption)+
next
  case (Startup s p) show ?case by (rule queue_inv_db[OF Startup]) (rule startup_inv; assumption)+
next
  case (Shutdown s p) show ?case by (rule queue_inv_db[OF Shutdown]) (rule stop_inv; assumption)+
next
  case (Retention s e f c)
  show ?case by (rule queue_inv_db[OF Retention]) (rule retention_inv; assumption)+
qed (simp_all add: queue_inv_def)

lemma empty_inv: "queue_inv (empty_system t)"
  unfolding queue_inv_def empty_system_def db_inv_def ids_ok_def keys_ok_def by simp

lemma reachable_inv: "queue_step\<^sup>*\<^sup>* (empty_system t) s \<Longrightarrow> queue_inv s"
  by (induction rule: rtranclp_induct) (auto simp: empty_inv step_inv)

section \<open>What becomes of one run\<close>

definition survives :: "'p run \<Rightarrow> 'p queue_db \<Rightarrow> bool" where
  "survives r db \<longleftrightarrow> (\<exists>r' \<in> set (q_runs db). r_id r' = r_id r \<and> r_input r' = r_input r \<and> is_active r')"

lemma row_image: "r \<in> set (q_runs db) \<Longrightarrow>
    (if P r then f r else r) \<in> set (q_runs (update_where P f db))"
  unfolding update_where_runs by simp

lemma row_hit: "r \<in> set (q_runs db) \<Longrightarrow> P r \<Longrightarrow> f r \<in> set (q_runs (update_where P f db))"
  using row_image[of r db P f] by simp

lemma row_miss: "r \<in> set (q_runs db) \<Longrightarrow> \<not> P r \<Longrightarrow> r \<in> set (q_runs (update_where P f db))"
  using row_image[of r db P f] by simp

lemma update_survives: "r \<in> set (q_runs db) \<Longrightarrow> is_active r \<Longrightarrow> (P r \<Longrightarrow> is_active (f r)) \<Longrightarrow>
    r_id (f r) = r_id r \<Longrightarrow> r_input (f r) = r_input r \<Longrightarrow> survives r (update_where P f db)"
  unfolding survives_def by (rule bexI[OF _ row_image[of r db P f]]) simp_all

lemma enqueue_survives:
  "sendWithDisposition p now queueName data opts db = Inr (d, db') \<Longrightarrow> r \<in> set (q_runs db) \<Longrightarrow>
    is_active r \<Longrightarrow> survives r db'"
  using sendWithDisposition_db unfolding survives_def by fastforce

lemma claim_survives: "claimOne p now w db = (Some x, db') \<Longrightarrow> ids_ok db \<Longrightarrow> r \<in> set (q_runs db) \<Longrightarrow>
    is_active r \<Longrightarrow> survives r db'"
  by (drule (1) claimOne_row) (simp add: update_survives row_simps)

lemma heartbeat_survives: "r \<in> set (q_runs db) \<Longrightarrow> is_active r \<Longrightarrow> survives r (heartbeatClaim p now i db)"
  unfolding heartbeatClaim_def by (rule update_survives) (simp_all add: row_simps)

lemma sweep_survives: "r \<in> set (q_runs db) \<Longrightarrow> is_active r \<Longrightarrow> survives r (staleSweep now db)"
  unfolding staleSweep_def by (rule update_survives) (simp_all add: row_simps)

lemma startup_survives: "r \<in> set (q_runs db) \<Longrightarrow> is_active r \<Longrightarrow> survives r (snd (start now (p, db)))"
  unfolding start_def recoverStaleClaimedRowsOnStartup_def
  by (cases "qp_connected p") (simp_all add: update_survives row_simps, auto simp: survives_def row_simps)

lemma stop_survives: "r \<in> set (q_runs db) \<Longrightarrow> is_active r \<Longrightarrow> survives r (snd (stop (p, db)))"
  unfolding stop_def prod.case snd_conv by (rule update_survives) (simp_all add: row_simps)

lemma settle_cases:
  assumes "r \<in> set (q_runs db)" "is_active r"
  shows "survives r (runHandler p now x outcome db)
    \<or> owned p (r_id x) r \<and> (\<exists>r' \<in> set (q_runs (runHandler p now x outcome db)). r_id r' = r_id r
         \<and> r_input r' = r_input r
         \<and> (outcome = None \<and> r_status r' = Completed
            \<or> outcome \<noteq> None \<and> r_status r' = Run_Failed \<and> r_max x \<le> r_attempts x + 1))"
proof (cases "owned p (r_id x) r")
  case False
  have miss: "survives r (update_where (owned p (r_id x)) f db)" for f
    using row_miss[of r db "owned p (r_id x)", OF assms(1) False] assms(2) unfolding survives_def by blast
  then show ?thesis
    unfolding runHandler_def markCompleted_def markFailed_def scheduleRetry_def Let_def
    by (simp split: option.splits)
next
  case True
  note hit = row_hit[of r db "owned p (r_id x)", OF assms(1) True]
  show ?thesis
  proof (cases outcome)
    case None
    then show ?thesis using True unfolding runHandler_def markCompleted_def
      by (simp, intro disjI2 bexI[OF _ hit[of "\<lambda>r. r\<lparr>r_status := Completed,
        r_completed_at := Some now\<rparr>"]]) simp
  next
    case (Some message)
    show ?thesis
    proof (cases "r_max x \<le> r_attempts x + 1")
      case True
      then show ?thesis using Some \<open>owned p (r_id x) r\<close> unfolding runHandler_def markFailed_def
        by (simp, intro disjI2 bexI[OF _ hit[of "\<lambda>r. r\<lparr>r_status := Run_Failed,
          r_completed_at := Some now, r_error := Some message,
          r_attempts := Suc (r_attempts r)\<rparr>"]]) simp
    next
      case False
      then show ?thesis unfolding Some runHandler_def scheduleRetry_def Let_def
        by (simp add: update_survives[OF assms] row_simps)
    qed
  qed
qed

lemma retention_cases:
  assumes "r \<in> set (q_runs db)"
  shows "r \<in> set (q_runs (snd (sweepCompletedRuns e f c now db)))
    \<or> expired_run now r \<or> aged_run now (retention_days e) r \<or> aged_failed now (failed_retention_days e f) r"
  using assms unfolding sweepCompletedRuns_def Let_def by auto

lemma active_not_aged: "is_active r \<Longrightarrow> \<not> aged_run now d r \<and> \<not> aged_failed now d r"
  unfolding is_active_def aged_run_def aged_failed_def by auto

section \<open>Dispatch receipts\<close>

definition view :: "receipt \<Rightarrow> string \<times> string \<times> string option \<times> ms" where
  "view c = (rc_key c, rc_queue c, rc_org c, rc_created c)"

definition receipt_for :: "string \<Rightarrow> string \<Rightarrow> string option \<Rightarrow> ms \<Rightarrow> 'p queue_db \<Rightarrow> bool" where
  "receipt_for key queueName org t db \<longleftrightarrow> (\<exists>c \<in> set (q_receipts db). rc_key c = key)
     \<and> (\<forall>c \<in> set (q_receipts db). rc_key c = key
          \<longrightarrow> rc_queue c = queueName \<and> rc_org c = org \<and> t \<le> rc_created c)"

lemma receipt_for_view: "map view (q_receipts db') = map view (q_receipts db) \<Longrightarrow>
    receipt_for key queueName org t db' = receipt_for key queueName org t db"
proof -
  have "receipt_for key queueName org t db
     \<longleftrightarrow> (\<exists>v \<in> set (map view (q_receipts db)). fst v = key)
       \<and> (\<forall>v \<in> set (map view (q_receipts db)). fst v = key
          \<longrightarrow> fst (snd v) = queueName \<and> fst (snd (snd v)) = org \<and> t \<le> snd (snd (snd v)))" for db
    unfolding receipt_for_def view_def by simp
  then show "map view (q_receipts db') = map view (q_receipts db) \<Longrightarrow> ?thesis" by metis
qed

lemma set_receipt_run_view: "map view (q_receipts (set_receipt_run P i db)) = map view (q_receipts db)"
  unfolding set_receipt_run_def view_def by simp

lemma insert_or_join_view:
  "map view (q_receipts (snd (insert_or_join now qn data opts org durable db))) = map view (q_receipts db)"
  unfolding insert_or_join_def insert_run_def Let_def
  by (simp add: set_receipt_run_view split: option.splits prod.splits)

lemma find_none: "find (\<lambda>c. rc_key c = key) cs = None \<longleftrightarrow> (\<forall>c \<in> set cs. rc_key c \<noteq> key)"
  by (auto simp: find_None_iff)

lemma find_key: "find (\<lambda>c. rc_key c = key) cs = Some c \<Longrightarrow> c \<in> set cs \<and> rc_key c = key"
  by (auto simp: find_Some_iff)

lemma enqueue_receipt:
  assumes "sendWithDisposition p now qn data opts db = Inr (d, db')"
    "receipt_for key queueName org t db"
  shows "receipt_for key queueName org t db'"
proof -
  let ?k = "the (qo_singletonKey opts)"
  let ?new = "\<lparr>rc_key = ?k, rc_org = payload_org data, rc_queue = qn, rc_run = None, rc_created = now\<rparr>"
  have started: "qp_connected p" "\<not> qp_shuttingDown p"
    using assms(1) unfolding sendWithDisposition_def Let_def by (simp_all split: if_splits)
  note send = assms(1)[unfolded sendWithDisposition_def Let_def, simplified started if_True if_False simp_thms]
  consider (dup) "db' = db" | (plain) "db' = snd (insert_or_join now qn data opts (payload_org data) False db)"
    | (fresh) "find (\<lambda>c. rc_key c = ?k) (q_receipts db) = None"
      "db' = snd (insert_or_join now qn data opts (payload_org data) True
         (db\<lparr>q_receipts := q_receipts db @ [?new]\<rparr>))"
  proof (cases "qo_durable opts \<and> truthy (qo_singletonKey opts)")
    case False
    then have "insert_or_join now qn data opts (payload_org data) False db = (d, db')"
      using send by (simp only: if_False sum.inject)
    then show ?thesis by (intro plain) simp
  next
    case durable: True
    show ?thesis
    proof (cases "find (\<lambda>c. rc_key c = ?k) (q_receipts db)")
      case None
      then have "insert_or_join now qn data opts (payload_org data) True
          (db\<lparr>q_receipts := q_receipts db @ [?new]\<rparr>) = (d, db')"
        using send durable by (simp only: if_True option.case sum.inject simp_thms)
      then show ?thesis by (intro fresh[OF None]) simp
    next
      case (Some c)
      with send durable have "db = db'" by (simp split: if_splits)
      then show ?thesis by (intro dup) simp
    qed
  qed
  then show ?thesis
  proof cases
    case dup then show ?thesis using assms(2) by simp
  next
    case plain then show ?thesis using assms(2) receipt_for_view[OF insert_or_join_view] by blast
  next
    case fresh
    then have "?k \<noteq> key" using assms(2) unfolding find_none receipt_for_def by blast
    then show ?thesis unfolding fresh(2) receipt_for_view[OF insert_or_join_view]
      using assms(2) unfolding receipt_for_def by simp
  qed
qed

lemma receipt_days: "30 \<le> receipt_retention_days e c"
  unfolding receipt_retention_days_def by simp

lemma retention_receipt:
  assumes "receipt_for key queueName org t db" "now \<le> t + 30 * day_ms"
  shows "receipt_for key queueName org t (snd (sweepCompletedRuns e f c now db))"
proof -
  have young: "\<not> aged_receipt now (receipt_retention_days e c) rs x"
    if "x \<in> set (q_receipts db)" "rc_key x = key" for x rs
  proof -
    have "t \<le> rc_created x" using assms(1) that unfolding receipt_for_def by blast
    moreover have "30 * day_ms \<le> receipt_retention_days e c * day_ms"
      using receipt_days[of e c] unfolding day_ms_def by simp
    ultimately have "now - receipt_retention_days e c * day_ms \<le> rc_created x"
      using assms(2) by linarith
    then show ?thesis unfolding aged_receipt_def by simp
  qed
  have kept: "key \<notin> rc_key ` set (take 1000 (sort_key rc_created
      (filter (aged_receipt now (receipt_retention_days e c) rs) (q_receipts db))))" for rs
  proof
    let ?old = "take 1000 (sort_key rc_created
      (filter (aged_receipt now (receipt_retention_days e c) rs) (q_receipts db)))"
    assume "key \<in> rc_key ` set ?old"
    then obtain x where x: "x \<in> set ?old" "rc_key x = key" by blast
    from in_set_takeD[OF x(1)] show False using young[of x rs] x(2) by simp
  qed
  from assms(1) show ?thesis
    unfolding sweepCompletedRuns_def Let_def receipt_for_def by (simp add: kept) (use kept in blast)
qed

lemma step_time: "queue_step s s' \<Longrightarrow> qs_now s \<le> qs_now s'"
  by (induction rule: queue_step.induct) simp_all

lemma claimOne_receipts: "claimOne p now w db = (x, db') \<Longrightarrow> q_receipts db' = q_receipts db"
  unfolding claimOne_def by (auto simp: update_where_runs split: option.splits)

lemma runHandler_receipts: "q_receipts (runHandler p now x outcome db) = q_receipts db"
  unfolding runHandler_def markCompleted_def markFailed_def scheduleRetry_def Let_def
  by (simp add: update_where_runs split: option.splits)

lemma step_receipt:
  assumes "queue_step s s'" "qs_now s' \<le> t + 30 * day_ms"
    "receipt_for key queueName org t (qs_db s)"
  shows "receipt_for key queueName org t (qs_db s')"
  using assms
proof (induction rule: queue_step.induct)
  case (Enqueue p s queueName data opts d db)
  then show ?case using enqueue_receipt by simp
next
  case (Claim p s w r db)
  then show ?case using claimOne_receipts[OF Claim(1)] unfolding receipt_for_def by simp
next
  case (Retention s e f c)
  then show ?case using retention_receipt by simp
qed (simp_all add: receipt_for_def heartbeatClaim_def update_where_runs runHandler_receipts
   staleSweep_def start_def recoverStaleClaimedRowsOnStartup_def stop_def)

lemma steps_receipt:
  assumes "queue_step\<^sup>*\<^sup>* s s'" "receipt_for key queueName org t (qs_db s)"
  shows "qs_now s' \<le> t + 30 * day_ms \<Longrightarrow> receipt_for key queueName org t (qs_db s')"
  using assms
proof (induction rule: rtranclp_induct)
  case base then show ?case by simp
next
  case (step y z)
  then show ?case using step_time[OF step(2)] step_receipt[OF step(2)] by simp
qed

lemma receipt_blocks:
  assumes "receipt_for key queueName (payload_org data) t db" "qp_connected p" "\<not> qp_shuttingDown p"
    "qo_singletonKey opts = Some key" "key \<noteq> []"
  shows "\<exists>d. sendDurable p now queueName data opts db = Inr (d, db) \<and> dp_deduplicated d"
proof -
  from assms(1) obtain c where c: "find (\<lambda>c. rc_key c = key) (q_receipts db) = Some c"
    unfolding receipt_for_def using find_none by (metis not_None_eq)
  with find_key[OF this] assms(1) have "rc_queue c = queueName" "rc_org c = payload_org data"
    unfolding receipt_for_def by blast+
  then show ?thesis using c assms(2-5)
    unfolding sendDurable_def sendWithDisposition_def Let_def by simp
qed

lemma first_durable_send:
  assumes "sendDurable p now queueName data opts db = Inr (d, db')"
    "qo_singletonKey opts = Some key" "key \<noteq> []" "\<forall>c \<in> set (q_receipts db). rc_key c \<noteq> key"
  shows "receipt_for key queueName (payload_org data) now db'"
proof -
  have "find (\<lambda>c. rc_key c = key) (q_receipts db) = None" using assms(4) find_none by blast
  then have "db' = snd (insert_or_join now queueName data (opts\<lparr>qo_durable := True\<rparr>) (payload_org data) True
         (db\<lparr>q_receipts := q_receipts db @ [\<lparr>rc_key = key, rc_org = payload_org data,
            rc_queue = queueName, rc_run = None, rc_created = now\<rparr>]\<rparr>))"
    using assms(1-3) unfolding sendDurable_def sendWithDisposition_def Let_def
    by (auto split: if_splits)
  note db = this
  show ?thesis unfolding db receipt_for_view[OF insert_or_join_view] using assms(4)
    unfolding receipt_for_def by simp
qed

lemma retained_windows:
  assumes "expired_run now r \<or> aged_run now (retention_days e) r
      \<or> aged_failed now (failed_retention_days e f) r"
  shows "r_type r \<noteq> Connector_Lane
        \<and> (r_status r = Pending \<and> (\<exists>x. r_expires r = Some x \<and> x \<le> now)
           \<or> \<not> is_active r \<and> (\<exists>t. r_completed_at r = Some t
                \<and> t < now - retention_days e * day_ms
                \<and> (r_status r = Run_Failed \<longrightarrow> t < now - failed_retention_days e f * day_ms)))"
proof -
  have "retention_days e * day_ms \<le> failed_retention_days e f * day_ms"
    unfolding failed_retention_days_def day_ms_def by (simp split: option.split)
  then show ?thesis using assms
    unfolding expired_run_def aged_run_def aged_failed_def is_lobu_def is_active_def older_than_def
    by (auto split: option.splits)
qed

lemma find_id: "distinct (map r_id rs) \<Longrightarrow> r \<in> set rs \<Longrightarrow> find (\<lambda>q. r_id q = r_id r) rs = Some r"
  by (induction rs) auto

lemma aged_receipt_over:
  assumes "aged_receipt now days rs c" "distinct (map r_id rs)"
  shows "rc_created c < now - days * day_ms \<and> (\<forall>r \<in> set rs. rc_run c = Some (r_id r) \<longrightarrow> \<not> is_active r)"
  using assms(1) find_id[OF assms(2)] unfolding aged_receipt_def is_active_def terminal_def by auto

section \<open>Properties\<close>

text \<open>
  C16: In every state that any interleaving of several processes' queue operations, crashes and
  sweeps can reach, run ids are distinct, a singleton key has at most one run that is not finished,
  a claimed run records who claimed it and when while a pending one records nobody, and an
  unfinished run still has attempts left.
\<close>

theorem queue_invariant:
  assumes "queue_step\<^sup>*\<^sup>* (empty_system t) s"
  shows "distinct (map r_id (q_runs (qs_db s)))
    \<and> (\<forall>a \<in> set (q_runs (qs_db s)). \<forall>b \<in> set (q_runs (qs_db s)).
         is_active a \<and> is_active b \<and> r_key a = r_key b \<and> r_key a \<noteq> None \<longrightarrow> a = b)
    \<and> (\<forall>r \<in> set (q_runs (qs_db s)).
         (r_status r = Claimed \<longrightarrow> r_claimed_at r \<noteq> None \<and> r_claimed_by r \<noteq> None)
       \<and> (r_status r = Pending \<longrightarrow> r_claimed_at r = None \<and> r_claimed_by r = None)
       \<and> (is_active r \<longrightarrow> r_attempts r < max 1 (r_max r)))"
proof -
  have inv: "db_inv (qs_db s)" using reachable_inv[OF assms] unfolding queue_inv_def by blast
  then have d: "distinct (map r_id (q_runs (qs_db s)))" and k: "keys_ok (qs_db s)"
    unfolding db_inv_def ids_ok_def by simp_all
  have "a = b" if "a \<in> set (q_runs (qs_db s))" "b \<in> set (q_runs (qs_db s))" "r_id a = r_id b" for a b
    using d that by (meson eq_key_imp_eq_value distinct_map inj_onD)
  then show ?thesis using d k inv
    unfolding keys_ok_def db_inv_def claim_fields_def attempts_left_def by blast
qed

definition sample_opts :: queue_options where
  "sample_opts = \<lparr>qo_singletonKey = Some ''k'', qo_retryLimit = None, qo_delayMs = None,
     qo_priority = None, qo_retryDelay = None, qo_expireInSeconds = None, qo_actionKey = None,
     qo_durable = True\<rparr>"

definition sample_process :: "string \<Rightarrow> queue_process" where
  "sample_process c = \<lparr>qp_claimedBy = c, qp_connected = True, qp_shuttingDown = False\<rparr>"

definition sample_worker :: queue_worker where
  "sample_worker = \<lparr>qw_queue = ''thread'', qw_type = Chat_Message, qw_concurrency = 1,
     qw_paused = False, qw_stopped = False, qw_active = 0\<rparr>"

definition sample_data :: "string queue_payload" where
  "sample_data = \<lparr>qd_organizationId = Some ''o'', qd_body = ''hi''\<rparr>"

definition sample_run :: "string run" where
  "sample_run = new_run 0 ''thread'' sample_data sample_opts (Some ''o'') 1"

definition sample_db :: "string queue_db" where
  "sample_db = \<lparr>q_next = 2, q_runs = [sample_run],
     q_receipts = [\<lparr>rc_key = ''k'', rc_org = Some ''o'', rc_queue = ''thread'', rc_run = Some 1,
       rc_created = 0\<rparr>]\<rparr>"

lemmas sample_defs = sample_opts_def sample_process_def sample_worker_def sample_data_def
  sample_run_def sample_db_def empty_system_def

lemma sample_send: "sendDurable (sample_process c) 0 ''thread'' sample_data sample_opts
    (qs_db (empty_system 0)) = Inr (\<lparr>dp_jobId = ''1'', dp_deduplicated = False\<rparr>, sample_db)"
  unfolding sample_defs by code_simp

lemma sample_reach: "queue_step\<^sup>*\<^sup>* (empty_system 0) ((empty_system 0)\<lparr>qs_db := sample_db\<rparr>)"
proof -
  have "queue_step (empty_system 0) ((empty_system 0)\<lparr>qs_db := sample_db\<rparr>)"
    using Enqueue[of "sample_process ''p''" "empty_system 0"] sample_send[of "''p''"]
    unfolding sendDurable_def by (simp add: empty_system_def)
  then show ?thesis by blast
qed

lemma sample_claim: "claimOne (sample_process c) 5 sample_worker sample_db
    = (Some sample_run, sample_db\<lparr>q_runs := [sample_run\<lparr>r_status := Claimed,
         r_claimed_at := Some 5, r_claimed_by := Some c\<rparr>]\<rparr>)"
  unfolding sample_defs by code_simp

theorem queue_invariant_witness:
  "distinct (map r_id (q_runs sample_db)) \<and> r_attempts sample_run < max 1 (r_max sample_run)"
  using queue_invariant[OF sample_reach] by (simp add: sample_db_def) (simp add: sample_defs new_run_def is_active_def)

text \<open>
  C13: No message is lost. A step that any reachable state takes leaves an unfinished run
  unfinished, with three exceptions: the run was claimed and the process holding that claim settled
  it as completed, or as failed when its attempts were used up, or it was still pending after its
  expiry and retention deleted it.
\<close>

theorem run_never_lost:
  assumes "queue_step\<^sup>*\<^sup>* (empty_system t) s" "queue_step s s'"
    "r \<in> set (q_runs (qs_db s))" "is_active r"
  shows "(\<exists>r' \<in> set (q_runs (qs_db s')). r_id r' = r_id r \<and> r_input r' = r_input r
      \<and> (is_active r'
         \<or> r_status r = Claimed \<and> (\<exists>c x. r_claimed_by r = Some c \<and> (c, x) \<in> set (qs_held s)
             \<and> r_id x = r_id r
             \<and> (r_status r' = Completed
                \<or> r_status r' = Run_Failed \<and> r_max r \<le> r_attempts x + 1))))
    \<or> r_status r = Pending \<and> (\<exists>e. r_expires r = Some e \<and> e \<le> qs_now s)"
proof -
  have inv: "queue_inv s" by (rule reachable_inv[OF assms(1)])
  then have ids: "ids_ok (qs_db s)" unfolding queue_inv_def db_inv_def by blast
  note r = assms(3,4)
  have alive: ?thesis if "survives r (qs_db s')" using that unfolding survives_def by blast
  from assms(2) show ?thesis
  proof cases
    case (Enqueue p queueName data opts d db)
    then show ?thesis using alive enqueue_survives[OF Enqueue(2) r] by simp
  next
    case (Claim p w x db)
    then show ?thesis using alive claim_survives[OF Claim(2) ids r] by simp
  next
    case (Heartbeat p x)
    then show ?thesis using alive heartbeat_survives[OF r] by simp
  next
    case (Settle p x outcome)
    note db = Settle(1)
    from settle_cases[OF r, of p "qs_now s" x outcome] show ?thesis
    proof
      assume "survives r (runHandler p (qs_now s) x outcome (qs_db s))"
      then show ?thesis using alive db by simp
    next
      assume "owned p (r_id x) r \<and> (\<exists>r' \<in> set (q_runs (runHandler p (qs_now s) x outcome (qs_db s))).
         r_id r' = r_id r \<and> r_input r' = r_input r
         \<and> (outcome = None \<and> r_status r' = Completed
            \<or> outcome \<noteq> None \<and> r_status r' = Run_Failed \<and> r_max x \<le> r_attempts x + 1))"
      then obtain r' where r': "r' \<in> set (q_runs (qs_db s'))" "r_id r' = r_id r" "r_input r' = r_input r"
        "r_status r' = Completed \<or> r_status r' = Run_Failed \<and> r_max x \<le> r_attempts x + 1"
        and own: "owned p (r_id x) r" using db by auto
      have "r_max r = r_max x"
        using queue_inv_parts(2)[OF inv Settle(2)] r(1) own unfolding held_ok_def owned_def by blast
      then show ?thesis using r' own Settle(2) unfolding owned_def
        by (intro disjI1 bexI[OF _ r'(1)]) auto
    qed
  next
    case Sweep
    then show ?thesis using alive sweep_survives[OF r] by simp
  next
    case (Startup p)
    then show ?thesis using alive startup_survives[OF r] by simp
  next
    case (Shutdown p)
    then show ?thesis using alive stop_survives[OF r] by simp
  next
    case (Retention e f c)
    from retention_cases[OF r(1), of e f c "qs_now s"] active_not_aged[OF r(2)]
    have "r \<in> set (q_runs (qs_db s')) \<or> expired_run (qs_now s) r" using Retention by auto
    then show ?thesis using alive r(2) unfolding survives_def expired_run_def
      by (auto split: option.splits)
  next
    case (Tick t)
    then show ?thesis using alive r unfolding survives_def by auto
  next
    case (Crash c)
    then show ?thesis using alive r unfolding survives_def by auto
  qed
qed

lemma sample_claim_step: "queue_step ((empty_system 0)\<lparr>qs_db := sample_db, qs_now := 5\<rparr>)
   \<lparr>qs_now = 5, qs_db = sample_db\<lparr>q_runs := [sample_run\<lparr>r_status := Claimed,
       r_claimed_at := Some 5, r_claimed_by := Some ''p''\<rparr>]\<rparr>, qs_held = [(''p'', sample_run)]\<rparr>"
  using Claim[of "sample_process ''p''" "(empty_system 0)\<lparr>qs_db := sample_db, qs_now := 5\<rparr>"] sample_claim[of "''p''"]
  by (simp add: empty_system_def sample_process_def)

lemma sample_claim_reach: "queue_step\<^sup>*\<^sup>* (empty_system 0)
   \<lparr>qs_now = 5, qs_db = sample_db\<lparr>q_runs := [sample_run\<lparr>r_status := Claimed,
       r_claimed_at := Some 5, r_claimed_by := Some ''p''\<rparr>]\<rparr>, qs_held = [(''p'', sample_run)]\<rparr>"
proof -
  have "queue_step ((empty_system 0)\<lparr>qs_db := sample_db\<rparr>)
      ((empty_system 0)\<lparr>qs_db := sample_db, qs_now := 5\<rparr>)"
    using Tick[of "(empty_system 0)\<lparr>qs_db := sample_db\<rparr>" 5] by (simp add: empty_system_def)
  then show ?thesis using sample_reach sample_claim_step
    by (meson rtranclp.rtrancl_into_rtrancl)
qed

theorem run_never_lost_witness:
  "\<exists>r' \<in> set (q_runs (staleSweep 5 (sample_db\<lparr>q_runs := [sample_run\<lparr>r_status := Claimed,
       r_claimed_at := Some 5, r_claimed_by := Some ''p''\<rparr>]\<rparr>))). r_id r' = 1"
proof -
  let ?s = "\<lparr>qs_now = 5, qs_db = sample_db\<lparr>q_runs := [sample_run\<lparr>r_status := Claimed,
       r_claimed_at := Some 5, r_claimed_by := Some ''p''\<rparr>]\<rparr>, qs_held = [(''p'', sample_run)]\<rparr>"
  have "is_active (sample_run\<lparr>r_status := Claimed, r_claimed_at := Some 5, r_claimed_by := Some ''p''\<rparr>)"
    "r_id sample_run = 1"
    by (simp_all add: is_active_def sample_run_def new_run_def)
  then show ?thesis using run_never_lost[OF sample_claim_reach Sweep, of
      "sample_run\<lparr>r_status := Claimed, r_claimed_at := Some 5, r_claimed_by := Some ''p''\<rparr>"]
    by auto
qed

text \<open>
  A claim takes the claimable run with the highest priority, then the earliest start, then the
  lowest id, and marks only that run; it comes back empty only when no run of the worker's queue is
  claimable.
\<close>

theorem claim_takes_the_first:
  assumes "distinct (map r_id (q_runs db))" "\<forall>r \<in> set (q_runs db). r_id r < q_next db"
  shows "case claimOne p now w db of
      (None, db') \<Rightarrow> db' = db \<and> (\<forall>q \<in> set (q_runs db). \<not> claimable now w q)
    | (Some r, db') \<Rightarrow> r \<in> set (q_runs db) \<and> claimable now w r
        \<and> (\<forall>q \<in> set (q_runs db). claimable now w q \<and> q \<noteq> r \<longrightarrow> before r q)
        \<and> q_runs db' = map (\<lambda>q. if q = r then q\<lparr>r_status := Claimed, r_claimed_at := Some now,
             r_claimed_by := Some (qp_claimedBy p)\<rparr> else q) (q_runs db)"
proof (cases "claimOne p now w db")
  case (Pair x db')
  have same: "q = r" if "q \<in> set (q_runs db)" "r \<in> set (q_runs db)" "r_id q = r_id r" for q r
    using that assms(1) by (meson eq_key_imp_eq_value distinct_map inj_onD)
  show ?thesis
  proof (cases x)
    case None
    then have "first_run (filter (claimable now w) (q_runs db)) = None" "db' = db"
      using Pair unfolding claimOne_def by (simp_all split: option.splits)
    then show ?thesis using None Pair unfolding first_run_none filter_empty_conv by simp
  next
    case (Some r)
    note c = claimOne_some[OF Pair[unfolded Some]]
    have "before r q" if "q \<in> set (q_runs db)" "claimable now w q" "q \<noteq> r" for q
      using c(3)[OF that(1,2)] same[OF that(1) c(1)] that(3) before_total[of q r] by metis
    moreover have "q_runs db' = map (\<lambda>q. if q = r then q\<lparr>r_status := Claimed,
        r_claimed_at := Some now, r_claimed_by := Some (qp_claimedBy p)\<rparr> else q) (q_runs db)"
    proof -
      have "q_runs db' = map (\<lambda>q. if r_id q = r_id r then q\<lparr>r_status := Claimed,
          r_claimed_at := Some now, r_claimed_by := Some (qp_claimedBy p)\<rparr> else q) (q_runs db)"
        using Pair Some unfolding claimOne_def by (auto simp: update_where_runs split: option.splits)
      also have "\<dots> = map (\<lambda>q. if q = r then q\<lparr>r_status := Claimed,
          r_claimed_at := Some now, r_claimed_by := Some (qp_claimedBy p)\<rparr> else q) (q_runs db)"
        by (rule map_cong[OF refl]) (use same c(1) in auto)
      finally show ?thesis .
    qed
    ultimately show ?thesis using Pair Some c(1,2) by simp
  qed
qed

theorem claim_takes_the_first_witness:
  "claimable 5 sample_worker sample_run
   \<and> q_runs (snd (claimOne (sample_process ''p'') 5 sample_worker sample_db))
       = [sample_run\<lparr>r_status := Claimed, r_claimed_at := Some 5, r_claimed_by := Some ''p''\<rparr>]"
  using claim_takes_the_first[where db = sample_db and p = "sample_process ''p''" and now = 5
      and w = sample_worker] sample_claim[of "''p''"]
  by (simp add: sample_db_def sample_run_def new_run_def)

text \<open>
  When the holder of a claim settles it, the run becomes completed if the handler returned. If
  it threw, the run fails with the message once the attempts are used up; before that it goes back
  to pending with one attempt more, held by nobody, and no worker can claim it until the run's own
  retry delay, or else a back-off between 1 and 300 seconds, has passed.
\<close>

theorem handler_outcome:
  assumes "r \<in> set (q_runs db)" "r_status r = Claimed" "r_claimed_by r = Some (qp_claimedBy p)"
    "r_id x = r_id r"
  shows "\<exists>r' \<in> set (q_runs (runHandler p now x outcome db)). r_id r' = r_id r
    \<and> (case outcome of
        None \<Rightarrow> r_status r' = Completed \<and> r_completed_at r' = Some now
      | Some message \<Rightarrow>
          if r_max x \<le> r_attempts x + 1
          then r_status r' = Run_Failed \<and> r_error r' = Some message \<and> r_completed_at r' = Some now
             \<and> r_attempts r' = r_attempts r + 1
          else r_status r' = Pending \<and> r_attempts r' = r_attempts x + 1 \<and> r_claimed_by r' = None
             \<and> (\<exists>d. (case r_retry_delay x of Some s \<Rightarrow> d = max 0 s | None \<Rightarrow> 1 \<le> d \<and> d \<le> 300)
                  \<and> (\<forall>t w. claimable t w r' \<longrightarrow> now + d * 1000 \<le> t)))"
proof -
  have "owned p (r_id x) r" using assms(2-4) unfolding owned_def by simp
  note hit = row_hit[of r db "owned p (r_id x)", OF assms(1) this]
  show ?thesis
  proof (cases outcome)
    case None
    then show ?thesis unfolding runHandler_def markCompleted_def
      by (simp, intro bexI[OF _ hit[of "\<lambda>r. r\<lparr>r_status := Completed,
        r_completed_at := Some now\<rparr>"]]) simp
  next
    case (Some message)
    show ?thesis
    proof (cases "r_max x \<le> r_attempts x + 1")
      case True
      then show ?thesis using Some unfolding runHandler_def markFailed_def
        by (simp, intro bexI[OF _ hit[of "\<lambda>r. r\<lparr>r_status := Run_Failed,
          r_completed_at := Some now, r_error := Some message,
          r_attempts := Suc (r_attempts r)\<rparr>"]]) simp
    next
      case False
      define d where "d = (case r_retry_delay x of Some s \<Rightarrow> max 0 s
           | None \<Rightarrow> backoffSeconds (int (r_attempts x + 1)))"
      define r' where "r' = r\<lparr>r_status := Pending, r_attempts := r_attempts x + 1,
        r_run_at := now + d * 1000, r_claimed_at := None, r_claimed_by := None\<rparr>"
      have "1 \<le> backoffSeconds n \<and> backoffSeconds n \<le> 300" for n
        unfolding backoffSeconds_def max_backoff_seconds_def by simp
      then have d: "case r_retry_delay x of Some s \<Rightarrow> d = max 0 s | None \<Rightarrow> 1 \<le> d \<and> d \<le> 300"
        unfolding d_def by (simp split: option.split)
      have "r' \<in> set (q_runs (runHandler p now x outcome db))"
        using hit[of "\<lambda>r. r\<lparr>r_status := Pending, r_attempts := r_attempts x + 1,
           r_run_at := now + d * 1000, r_claimed_at := None, r_claimed_by := None\<rparr>"] False Some
        unfolding runHandler_def scheduleRetry_def Let_def d_def r'_def by simp
      moreover have "now + d * 1000 \<le> t" if "claimable t w r'" for t w
        using that unfolding claimable_def r'_def by simp
      ultimately show ?thesis using Some False d by (intro bexI[of _ r']) (auto simp: r'_def)
    qed
  qed
qed

theorem handler_outcome_witness:
  "\<exists>r' \<in> set (q_runs (runHandler (sample_process ''p'') 9 sample_run (Some ''boom'')
      (sample_db\<lparr>q_runs := [sample_run\<lparr>r_status := Claimed, r_claimed_by := Some ''p''\<rparr>]\<rparr>))).
    r_status r' = Pending \<and> r_attempts r' = 1"
  using handler_outcome[where r = "sample_run\<lparr>r_status := Claimed, r_claimed_by := Some ''p''\<rparr>"
      and db = "sample_db\<lparr>q_runs := [sample_run\<lparr>r_status := Claimed, r_claimed_by := Some ''p''\<rparr>]\<rparr>"
      and p = "sample_process ''p''" and x = sample_run and now = 9 and outcome = "Some ''boom''"]
  by (auto simp: sample_defs new_run_def)

text \<open>
  C20: A durable message is dispatched once. After a first durable send under a key, whatever steps
  any processes take in the next 30 days, crashes, completions and retention included, a second
  durable send with that key, queue and organisation is answered as a duplicate and changes nothing
  in the tables.
\<close>

theorem durable_send_once:
  assumes "sendDurable p (qs_now s) queueName data opts (qs_db s) = Inr (d, db)"
    "qo_singletonKey opts = Some key" "key \<noteq> []"
    "\<forall>c \<in> set (q_receipts (qs_db s)). rc_key c \<noteq> key"
    "queue_step\<^sup>*\<^sup>* (s\<lparr>qs_db := db\<rparr>) s'" "qs_now s' \<le> qs_now s + 30 * 24 * 60 * 60 * 1000"
    "qp_connected p'" "\<not> qp_shuttingDown p'" "qo_singletonKey opts' = Some key"
    "payload_org data' = payload_org data"
  shows "\<exists>d'. sendDurable p' (qs_now s') queueName data' opts' (qs_db s') = Inr (d', qs_db s')
    \<and> dp_deduplicated d'"
proof -
  from first_durable_send[OF assms(1-4)]
  have first: "receipt_for key queueName (payload_org data) (qs_now s) (qs_db (s\<lparr>qs_db := db\<rparr>))"
    by simp
  from steps_receipt[OF assms(5) first] assms(6,10)
  have "receipt_for key queueName (payload_org data') (qs_now s) (qs_db s')"
    unfolding day_ms_def by simp
  from receipt_blocks[OF this assms(7,8,9,3)] show ?thesis .
qed

theorem durable_send_once_witness:
  "\<exists>d. sendDurable (sample_process ''q'') 0 ''thread'' sample_data sample_opts sample_db
     = Inr (d, sample_db) \<and> dp_deduplicated d"
proof -
  have "sendDurable (sample_process ''p'') (qs_now (empty_system 0)) ''thread'' sample_data sample_opts
      (qs_db (empty_system 0)) = Inr (\<lparr>dp_jobId = ''1'', dp_deduplicated = False\<rparr>, sample_db)"
    using sample_send[of "''p''"] by (simp add: empty_system_def)
  from durable_send_once[OF this _ _ _ rtranclp.rtrancl_refl, of "''k''" "sample_process ''q''"
      sample_opts sample_data]
  show ?thesis by (simp add: sample_opts_def sample_process_def empty_system_def)
qed

text \<open>
  Retention deletes only what is over. A run it removes belongs to this queue and was either
  pending past its expiry or finished for longer than the retention days, and for a failed run, the
  dead letter, longer than its own window, which is never the shorter one. A receipt it removes is
  more than 30 days old and its run is gone or finished.
\<close>

theorem retention_deletes_the_old:
  assumes "sweepCompletedRuns env failedEnv receiptEnv now db = (n, db')"
    "distinct (map r_id (q_runs db))" "distinct (map rc_key (q_receipts db))"
  shows "(\<forall>r \<in> set (q_runs db) - set (q_runs db'). r_type r \<noteq> Connector_Lane
        \<and> (r_status r = Pending \<and> (\<exists>e. r_expires r = Some e \<and> e \<le> now)
           \<or> \<not> is_active r \<and> (\<exists>t. r_completed_at r = Some t
                \<and> t < now - retention_days env * day_ms
                \<and> (r_status r = Run_Failed \<longrightarrow> t < now - failed_retention_days env failedEnv * day_ms))))
    \<and> (\<forall>c \<in> set (q_receipts db) - set (q_receipts db'). rc_created c < now - 30 * day_ms
        \<and> (\<forall>r \<in> set (q_runs db'). rc_run c = Some (r_id r) \<longrightarrow> \<not> is_active r))"
proof -
  let ?old = "take 1000 (sort_key rc_created
      (filter (aged_receipt now (receipt_retention_days env receiptEnv) (q_runs db')) (q_receipts db)))"
  have rcs: "q_receipts db' = filter (\<lambda>c. rc_key c \<notin> rc_key ` set ?old) (q_receipts db)"
    using assms(1) unfolding sweepCompletedRuns_def Let_def by auto
  have runs: "expired_run now r \<or> aged_run now (retention_days env) r
      \<or> aged_failed now (failed_retention_days env failedEnv) r"
    if "r \<in> set (q_runs db) - set (q_runs db')" for r
    using retention_cases[of r db env failedEnv receiptEnv now] that assms(1) by simp
  have "r_type r \<noteq> Connector_Lane
        \<and> (r_status r = Pending \<and> (\<exists>e. r_expires r = Some e \<and> e \<le> now)
           \<or> \<not> is_active r \<and> (\<exists>t. r_completed_at r = Some t
                \<and> t < now - retention_days env * day_ms
                \<and> (r_status r = Run_Failed \<longrightarrow> t < now - failed_retention_days env failedEnv * day_ms)))"
    if "r \<in> set (q_runs db) - set (q_runs db')" for r
    using retained_windows[OF runs[OF that]] .
  moreover have "rc_created c < now - 30 * day_ms
        \<and> (\<forall>r \<in> set (q_runs db'). rc_run c = Some (r_id r) \<longrightarrow> \<not> is_active r)"
    if "c \<in> set (q_receipts db) - set (q_receipts db')" for c
  proof -
    from that rcs obtain c' where c': "c' \<in> set ?old" "rc_key c' = rc_key c" by auto
    from in_set_takeD[OF c'(1)] have aged: "c' \<in> set (q_receipts db)"
      "aged_receipt now (receipt_retention_days env receiptEnv) (q_runs db') c'" by simp_all
    have "c' = c" using aged(1) that c'(2) assms(3) by (meson DiffD1 eq_key_imp_eq_value distinct_map inj_onD)
    have "distinct (map r_id (q_runs db'))"
      using retention_runs(1)[of env failedEnv receiptEnv now db] assms(1,2)
      by (auto simp: distinct_map_filter)
    then show ?thesis using aged_receipt_over[OF aged(2)] \<open>c' = c\<close> receipt_days[of env receiptEnv]
      unfolding day_ms_def by fastforce
  qed
  ultimately show ?thesis by blast
qed

theorem retention_deletes_the_old_witness:
  "set (q_receipts sample_db)
     - set (q_receipts (snd (sweepCompletedRuns None None None (31 * day_ms) (sample_db\<lparr>q_runs := []\<rparr>))))
   = set (q_receipts sample_db) \<and> (0::int) < 31 * day_ms - 30 * day_ms"
proof -
  let ?r = "sweepCompletedRuns None None None (31 * day_ms) (sample_db\<lparr>q_runs := []\<rparr>)"
  have "q_receipts (snd ?r) = []" unfolding sample_defs day_ms_def by code_simp
  then show ?thesis
    using retention_deletes_the_old[of None None None "31 * day_ms" "sample_db\<lparr>q_runs := []\<rparr>" "fst ?r" "snd ?r"]
    by (simp add: sample_db_def)
qed

end
