(* ===== verification/Strict_Json.thy ===== *)
theory Strict_Json
  imports Complex_Main JS_Prelude "HOL-Library.Word"
begin

text \<open>
  The JSON reader for provisioning and memory requests that refuses duplicate members:
  \<^verbatim>\<open>packages/server/src/lobu/strict-json-parser.ts\<close>. A JavaScript string is a list of UTF-16
  code units, 16-bit words. The parser's \<open>index\<close> is what is left of the source, its
  \<open>valueCount\<close> is passed along. Errors keep their code and not their message. The mutually recursive
  methods take fuel; \<open>fuel_enough\<close> shows that the fuel \<open>parse_json\<close> gives is never used up.
  The second half states the grammar of RFC 8259 and proves that the parser accepts exactly its
  texts, within the limits and without duplicate members.
\<close>

unbundle bit_operations_syntax

section \<open>Data\<close>

type_synonym unit16 = "16 word"
type_synonym text16 = "unit16 list"

datatype json_error = Invalid_Json | Duplicate_Json_Member | No_Fuel

datatype jv = JNull | JBool bool | JNum rat | JStr text16 | JArr "jv list"
  | JObj "(text16 \<times> jv) list"

record json_limits =
  maxBytes :: "nat option"
  maxDepth :: "nat option"
  maxValues :: "nat option"

definition default_max_bytes :: nat where "default_max_bytes = 1024 * 1024"
definition default_max_depth :: nat where "default_max_depth = 64"
definition default_max_values :: nat where "default_max_values = 20000"

section \<open>Lexical level\<close>

definition is_digit16 :: "unit16 \<Rightarrow> bool" where
  "is_digit16 c \<longleftrightarrow> 0x30 \<le> c \<and> c \<le> 0x39"

definition is_hex16 :: "unit16 \<Rightarrow> bool" where
  "is_hex16 c \<longleftrightarrow> is_digit16 c \<or> 0x41 \<le> c \<and> c \<le> 0x46 \<or> 0x61 \<le> c \<and> c \<le> 0x66"

definition hex_val16 :: "unit16 \<Rightarrow> unit16" where
  "hex_val16 c = (if is_digit16 c then c - 0x30 else if 0x61 \<le> c then c - 0x57 else c - 0x37)"

definition hex4 :: "text16 \<Rightarrow> unit16" where
  "hex4 ds = foldl (\<lambda>n c. n * 16 + hex_val16 c) 0 ds"

definition is_white :: "unit16 \<Rightarrow> bool" where
  "is_white c \<longleftrightarrow> c = 0x20 \<or> c = 0x09 \<or> c = 0x0A \<or> c = 0x0D"

definition skipWhitespace :: "text16 \<Rightarrow> text16" where
  "skipWhitespace s = dropWhile is_white s"

definition consume :: "unit16 \<Rightarrow> text16 \<Rightarrow> text16 option" where
  "consume c s = (case s of [] \<Rightarrow> None | x # r \<Rightarrow> if x = c then Some r else None)"

definition expect :: "unit16 \<Rightarrow> text16 \<Rightarrow> json_error + text16" where
  "expect c s = (case consume c s of None \<Rightarrow> Inl Invalid_Json | Some r \<Rightarrow> Inr r)"

definition parseLiteral :: "text16 \<Rightarrow> jv \<Rightarrow> text16 \<Rightarrow> json_error + jv \<times> text16" where
  "parseLiteral literal v s =
     (if take (length literal) s \<noteq> literal then Inl Invalid_Json
      else Inr (v, drop (length literal) s))"

definition short_escapes :: "(unit16 \<times> unit16) list" where
  "short_escapes = [(0x22, 0x22), (0x5C, 0x5C), (0x2F, 0x2F), (0x62, 0x08), (0x66, 0x0C),
     (0x6E, 0x0A), (0x72, 0x0D), (0x74, 0x09)]"

definition parseEscape :: "text16 \<Rightarrow> json_error + unit16 \<times> text16" where
  "parseEscape s = (case s of [] \<Rightarrow> Inl Invalid_Json
     | e # r \<Rightarrow>
       (case map_of short_escapes e of
          Some c \<Rightarrow> Inr (c, r)
        | None \<Rightarrow>
            if e = 0x75
            then (let digits = take 4 r in
                  if length digits = 4 \<and> list_all is_hex16 digits then Inr (hex4 digits, drop 4 r)
                  else Inl Invalid_Json)
            else Inl Invalid_Json))"

lemma parseEscape_shorter: "parseEscape s = Inr (c, r) \<Longrightarrow> length r < length s"
  unfolding parseEscape_def by (auto simp: Let_def split: list.splits option.splits if_splits)

text \<open>\<^verbatim>\<open>parseString\<close> after its opening quote.\<close>

function parseStringBody :: "text16 \<Rightarrow> json_error + text16 \<times> text16" where
  "parseStringBody s = (case s of [] \<Rightarrow> Inl Invalid_Json
     | c # r \<Rightarrow>
       if c = 0x22 then Inr ([], r)
       else if c = 0x5C then
        (case parseEscape r of
           Inl e \<Rightarrow> Inl e
         | Inr (x, r') \<Rightarrow>
             (case parseStringBody r' of Inl e \<Rightarrow> Inl e | Inr (w, q) \<Rightarrow> Inr (x # w, q)))
       else if c < 0x20 then Inl Invalid_Json
       else (case parseStringBody r of Inl e \<Rightarrow> Inl e | Inr (w, q) \<Rightarrow> Inr (c # w, q)))"
  by auto

termination by (relation "measure length") (auto dest: parseEscape_shorter)

declare parseStringBody.simps [simp del]

definition parseString :: "text16 \<Rightarrow> json_error + text16 \<times> text16" where
  "parseString s = (case expect 0x22 s of Inl e \<Rightarrow> Inl e | Inr r \<Rightarrow> parseStringBody r)"

definition requireDigits :: "text16 \<Rightarrow> json_error + text16" where
  "requireDigits s = (if takeWhile is_digit16 s = [] then Inl Invalid_Json
     else Inr (dropWhile is_digit16 s))"

text \<open>The decimal value of a number's text, which \<^verbatim>\<open>Number(...)\<close> rounds to a double.\<close>

definition digits_rat :: "text16 \<Rightarrow> rat" where
  "digits_rat ds = of_int (foldl (\<lambda>n c. n * 10 + (uint c - 0x30)) 0 ds)"

definition scale10 :: "rat \<Rightarrow> int \<Rightarrow> rat" where
  "scale10 m k = (if 0 \<le> k then m * 10 ^ nat k else m / 10 ^ nat (- k))"

definition decimal :: "text16 \<Rightarrow> rat" where
  "decimal l =
     (let neg = (l \<noteq> [] \<and> hd l = 0x2D); s = (if neg then tl l else l);
          whole = takeWhile is_digit16 s; s = dropWhile is_digit16 s;
          point = (s \<noteq> [] \<and> hd s = 0x2E);
          frac = (if point then takeWhile is_digit16 (tl s) else []);
          s = (if point then dropWhile is_digit16 (tl s) else s);
          eneg = (s \<noteq> [] \<and> tl s \<noteq> [] \<and> hd (tl s) = 0x2D);
          ds = filter is_digit16 s;
          e = foldl (\<lambda>n c. n * 10 + (uint c - 0x30)) 0 ds;
          m = scale10 (digits_rat (whole @ frac)) ((if eneg then - e else e) - int (length frac))
      in if neg then - m else m)"

text \<open>Rounding to the nearest double gives an infinity from this bound on.\<close>

definition finite_number :: "rat \<Rightarrow> bool" where
  "finite_number x \<longleftrightarrow> \<bar>x\<bar> < 2 ^ 1024 - 2 ^ 970"

definition sign_part :: "text16 \<Rightarrow> json_error + text16" where
  "sign_part s = (case consume 0x2D s of None \<Rightarrow> Inr s
     | Some r \<Rightarrow> if r = [] then Inl Invalid_Json else Inr r)"

definition whole_part :: "text16 \<Rightarrow> json_error + text16" where
  "whole_part s = (case consume 0x30 s of
       Some r \<Rightarrow> if r \<noteq> [] \<and> is_digit16 (hd r) then Inl Invalid_Json else Inr r
     | None \<Rightarrow> requireDigits s)"

definition fraction_part :: "text16 \<Rightarrow> json_error + text16" where
  "fraction_part s = (case consume 0x2E s of Some r \<Rightarrow> requireDigits r | None \<Rightarrow> Inr s)"

definition exponent_part :: "text16 \<Rightarrow> json_error + text16" where
  "exponent_part s = (case s of [] \<Rightarrow> Inr s
     | c # r \<Rightarrow> if c = 0x65 \<or> c = 0x45
         then requireDigits (case r of [] \<Rightarrow> r | x # q \<Rightarrow> if x = 0x2B \<or> x = 0x2D then q else r)
         else Inr s)"

definition parseNumber :: "text16 \<Rightarrow> json_error + rat \<times> text16" where
  "parseNumber s =
     (case sign_part s of Inl e \<Rightarrow> Inl e | Inr s1 \<Rightarrow>
      (case whole_part s1 of Inl e \<Rightarrow> Inl e | Inr s2 \<Rightarrow>
       (case fraction_part s2 of Inl e \<Rightarrow> Inl e | Inr s3 \<Rightarrow>
        (case exponent_part s3 of Inl e \<Rightarrow> Inl e | Inr s4 \<Rightarrow>
         (let x = decimal (take (length s - length s4) s) in
          if finite_number x then Inr (x, s4) else Inl Invalid_Json)))))"

section \<open>Values, objects and arrays\<close>

text \<open>
  \<open>V\<close> and \<open>D\<close> are the limits. The loops of \<^verbatim>\<open>parseObject\<close> and \<^verbatim>\<open>parseArray\<close> take the method they call for
  each value, \<^verbatim>\<open>parseValue\<close> at the depth of the container's values, as their argument \<open>pv\<close>; \<open>n\<close> is fuel.
\<close>

type_synonym value_result = "json_error + jv \<times> text16 \<times> nat"

primrec parseMembers ::
    "nat \<Rightarrow> (text16 \<Rightarrow> nat \<Rightarrow> value_result) \<Rightarrow> (text16 \<times> jv) list \<Rightarrow> text16 \<Rightarrow> nat \<Rightarrow> value_result" where
  "parseMembers 0 pv members s count = Inl No_Fuel"
| "parseMembers (Suc n) pv members s count =
     (case parseString s of
        Inl e \<Rightarrow> Inl e
      | Inr (key, s1) \<Rightarrow>
        if key \<in> fst ` set members then Inl Duplicate_Json_Member
        else case expect 0x3A (skipWhitespace s1) of
          Inl e \<Rightarrow> Inl e
        | Inr s2 \<Rightarrow>
          (case pv (skipWhitespace s2) count of
             Inl e \<Rightarrow> Inl e
           | Inr (v, s3, count) \<Rightarrow>
             (let s4 = skipWhitespace s3; members = members @ [(key, v)] in
              case consume 0x7D s4 of
                Some q \<Rightarrow> Inr (JObj members, q, count)
              | None \<Rightarrow>
                (case expect 0x2C s4 of
                   Inl e \<Rightarrow> Inl e
                 | Inr s5 \<Rightarrow> parseMembers n pv members (skipWhitespace s5) count))))"

primrec parseElements ::
    "nat \<Rightarrow> (text16 \<Rightarrow> nat \<Rightarrow> value_result) \<Rightarrow> jv list \<Rightarrow> text16 \<Rightarrow> nat \<Rightarrow> value_result" where
  "parseElements 0 pv result s count = Inl No_Fuel"
| "parseElements (Suc n) pv result s count =
     (case pv s count of
        Inl e \<Rightarrow> Inl e
      | Inr (v, s1, count) \<Rightarrow>
        (let s2 = skipWhitespace s1; result = result @ [v] in
         case consume 0x5D s2 of
           Some q \<Rightarrow> Inr (JArr result, q, count)
         | None \<Rightarrow>
           (case expect 0x2C s2 of
              Inl e \<Rightarrow> Inl e
            | Inr s3 \<Rightarrow> parseElements n pv result (skipWhitespace s3) count)))"

text \<open>Both are entered past the opening bracket.\<close>

definition parseObject :: "nat \<Rightarrow> (text16 \<Rightarrow> nat \<Rightarrow> value_result) \<Rightarrow> text16 \<Rightarrow> nat \<Rightarrow> value_result" where
  "parseObject n pv s count =
     (let s = skipWhitespace s in
      case consume 0x7D s of Some q \<Rightarrow> Inr (JObj [], q, count)
      | None \<Rightarrow> parseMembers n pv [] s count)"

definition parseArray :: "nat \<Rightarrow> (text16 \<Rightarrow> nat \<Rightarrow> value_result) \<Rightarrow> text16 \<Rightarrow> nat \<Rightarrow> value_result" where
  "parseArray n pv s count =
     (let s = skipWhitespace s in
      case consume 0x5D s of Some q \<Rightarrow> Inr (JArr [], q, count)
      | None \<Rightarrow> parseElements n pv [] s count)"

text \<open>The arms of \<^verbatim>\<open>parseValue\<close> that read no nested value.\<close>

definition parseScalar :: "unit16 \<Rightarrow> text16 \<Rightarrow> json_error + jv \<times> text16" where
  "parseScalar c s =
     (if c = 0x22 then (case parseString s of Inl e \<Rightarrow> Inl e | Inr (w, q) \<Rightarrow> Inr (JStr w, q))
      else if c = 0x74 then parseLiteral [0x74, 0x72, 0x75, 0x65] (JBool True) s
      else if c = 0x66 then parseLiteral [0x66, 0x61, 0x6C, 0x73, 0x65] (JBool False) s
      else if c = 0x6E then parseLiteral [0x6E, 0x75, 0x6C, 0x6C] JNull s
      else if c = 0x2D \<or> is_digit16 c
      then (case parseNumber s of Inl e \<Rightarrow> Inl e | Inr (x, q) \<Rightarrow> Inr (JNum x, q))
      else Inl Invalid_Json)"

primrec parseValue :: "nat \<Rightarrow> nat \<Rightarrow> nat \<Rightarrow> nat \<Rightarrow> text16 \<Rightarrow> nat \<Rightarrow> value_result" where
  "parseValue 0 D V depth s count = Inl No_Fuel"
| "parseValue (Suc n) D V depth s count =
     (if D < depth then Inl Invalid_Json
      else if V < count + 1 then Inl Invalid_Json
      else case s of [] \<Rightarrow> Inl Invalid_Json
       | c # r \<Rightarrow>
         if c = 0x7B then parseObject n (parseValue n D V (depth + 1)) r (count + 1)
         else if c = 0x5B then parseArray n (parseValue n D V (depth + 1)) r (count + 1)
         else (case parseScalar c s of Inl e \<Rightarrow> Inl e | Inr (v, q) \<Rightarrow> Inr (v, q, count + 1)))"

definition parse_json :: "nat \<Rightarrow> nat \<Rightarrow> text16 \<Rightarrow> json_error + jv" where
  "parse_json D V source =
     (case parseValue (Suc (length source)) D V 0 (skipWhitespace source) 0 of
        Inl e \<Rightarrow> Inl e
      | Inr (v, r, _) \<Rightarrow> if skipWhitespace r \<noteq> [] then Inl Invalid_Json else Inr v)"

section \<open>Bytes\<close>

text \<open>
  \<^verbatim>\<open>TextDecoder("utf-8", { fatal: true })\<close>: well-formed UTF-8 only, one byte order mark dropped,
  code points above the basic plane as surrogate pairs.
\<close>

definition is_cont :: "8 word \<Rightarrow> bool" where
  "is_cont b \<longleftrightarrow> 0x80 \<le> b \<and> b \<le> 0xBF"

definition low6 :: "8 word \<Rightarrow> 32 word" where
  "low6 b = ucast b AND 0x3F"

definition surrogates :: "32 word \<Rightarrow> text16" where
  "surrogates cp = (let x = cp - 0x10000 in
     [0xD800 + ucast (drop_bit 10 x), 0xDC00 + ucast (x AND 0x3FF)])"

fun utf8_units :: "8 word list \<Rightarrow> text16 option" where
  "utf8_units [] = Some []"
| "utf8_units (b # bs) =
     (if b < 0x80 then map_option (\<lambda>t. ucast b # t) (utf8_units bs)
      else case bs of [] \<Rightarrow> None
       | c # cs \<Rightarrow>
         if 0xC2 \<le> b \<and> b \<le> 0xDF \<and> is_cont c
         then map_option (\<lambda>t. ucast (push_bit 6 (ucast b AND 0x1F) OR low6 c) # t) (utf8_units cs)
         else case cs of [] \<Rightarrow> None
          | d # ds \<Rightarrow>
            if 0xE0 \<le> b \<and> b \<le> 0xEF \<and> is_cont c \<and> is_cont d
               \<and> (b = 0xE0 \<longrightarrow> 0xA0 \<le> c) \<and> (b = 0xED \<longrightarrow> c \<le> 0x9F)
            then map_option (\<lambda>t. ucast (push_bit 12 (ucast b AND 0x0F) OR push_bit 6 (low6 c) OR low6 d) # t)
                   (utf8_units ds)
            else case ds of [] \<Rightarrow> None
             | e # es \<Rightarrow>
               if 0xF0 \<le> b \<and> b \<le> 0xF4 \<and> is_cont c \<and> is_cont d \<and> is_cont e
                  \<and> (b = 0xF0 \<longrightarrow> 0x90 \<le> c) \<and> (b = 0xF4 \<longrightarrow> c \<le> 0x8F)
               then map_option (\<lambda>t. surrogates (push_bit 18 (ucast b AND 0x07) OR push_bit 12 (low6 c)
                        OR push_bit 6 (low6 d) OR low6 e) @ t) (utf8_units es)
               else None)"

definition utf8_decode :: "8 word list \<Rightarrow> text16 option" where
  "utf8_decode bs = utf8_units (if take 3 bs = [0xEF, 0xBB, 0xBF] then drop 3 bs else bs)"

definition parseStrictJsonBytes :: "json_limits \<Rightarrow> 8 word list \<Rightarrow> json_error + jv" where
  "parseStrictJsonBytes limits bytes =
     (if (case maxBytes limits of None \<Rightarrow> default_max_bytes | Some m \<Rightarrow> m) < length bytes
      then Inl Invalid_Json
      else case utf8_decode bytes of
        None \<Rightarrow> Inl Invalid_Json
      | Some source \<Rightarrow>
          parse_json (case maxDepth limits of None \<Rightarrow> default_max_depth | Some d \<Rightarrow> d)
            (case maxValues limits of None \<Rightarrow> default_max_values | Some v \<Rightarrow> v) source)"

section \<open>The grammar\<close>

text \<open>RFC 8259: \<open>string_text w s\<close> when \<open>s\<close> spells \<open>w\<close> from after the opening quote to the closing one.\<close>

inductive string_text :: "text16 \<Rightarrow> text16 \<Rightarrow> bool" where
  Close: "string_text [] [0x22]"
| Plain: "string_text w s \<Longrightarrow> c \<noteq> 0x22 \<Longrightarrow> c \<noteq> 0x5C \<Longrightarrow> \<not> c < 0x20 \<Longrightarrow> string_text (c # w) (c # s)"
| Short: "string_text w s \<Longrightarrow> (e, c) \<in> set short_escapes \<Longrightarrow> string_text (c # w) (0x5C # e # s)"
| Hex: "string_text w s \<Longrightarrow> length h = 4 \<Longrightarrow> list_all is_hex16 h
    \<Longrightarrow> string_text (hex4 h # w) (0x5C # 0x75 # h @ s)"

definition some_digits :: "text16 \<Rightarrow> bool" where
  "some_digits ds \<longleftrightarrow> ds \<noteq> [] \<and> list_all is_digit16 ds"

definition number_text :: "text16 \<Rightarrow> bool" where
  "number_text l \<longleftrightarrow> (\<exists>sg whole frac ex. l = sg @ whole @ frac @ ex
     \<and> (sg = [] \<or> sg = [0x2D])
     \<and> (whole = [0x30] \<or> some_digits whole \<and> hd whole \<noteq> 0x30)
     \<and> (frac = [] \<or> (\<exists>ds. frac = 0x2E # ds \<and> some_digits ds))
     \<and> (ex = [] \<or> (\<exists>e es ds. ex = e # es @ ds \<and> (e = 0x65 \<or> e = 0x45)
          \<and> (es = [] \<or> es = [0x2B] \<or> es = [0x2D]) \<and> some_digits ds)))"

abbreviation white :: "text16 \<Rightarrow> bool" where
  "white \<equiv> list_all is_white"

inductive value_text :: "jv \<Rightarrow> text16 \<Rightarrow> bool"
  and elements_text :: "jv list \<Rightarrow> text16 \<Rightarrow> bool"
  and members_text :: "(text16 \<times> jv) list \<Rightarrow> text16 \<Rightarrow> bool" where
  Null: "value_text JNull [0x6E, 0x75, 0x6C, 0x6C]"
| True: "value_text (JBool True) [0x74, 0x72, 0x75, 0x65]"
| False: "value_text (JBool False) [0x66, 0x61, 0x6C, 0x73, 0x65]"
| Num: "number_text l \<Longrightarrow> value_text (JNum (decimal l)) l"
| Str: "string_text w s \<Longrightarrow> value_text (JStr w) (0x22 # s)"
| Arr0: "white w \<Longrightarrow> value_text (JArr []) (0x5B # w @ [0x5D])"
| Arr: "white w \<Longrightarrow> elements_text vs s \<Longrightarrow> value_text (JArr vs) (0x5B # w @ s)"
| Obj0: "white w \<Longrightarrow> value_text (JObj []) (0x7B # w @ [0x7D])"
| Obj: "white w \<Longrightarrow> members_text ms s \<Longrightarrow> value_text (JObj ms) (0x7B # w @ s)"
| Last: "value_text v t \<Longrightarrow> white w \<Longrightarrow> elements_text [v] (t @ w @ [0x5D])"
| More: "value_text v t \<Longrightarrow> white w \<Longrightarrow> white w' \<Longrightarrow> elements_text vs s
    \<Longrightarrow> elements_text (v # vs) (t @ w @ 0x2C # w' @ s)"
| LastM: "string_text k s1 \<Longrightarrow> white w1 \<Longrightarrow> white w2 \<Longrightarrow> value_text v t \<Longrightarrow> white w
    \<Longrightarrow> members_text [(k, v)] (0x22 # s1 @ w1 @ 0x3A # w2 @ t @ w @ [0x7D])"
| MoreM: "string_text k s1 \<Longrightarrow> white w1 \<Longrightarrow> white w2 \<Longrightarrow> value_text v t \<Longrightarrow> white w \<Longrightarrow> white w'
    \<Longrightarrow> members_text ms s
    \<Longrightarrow> members_text ((k, v) # ms) (0x22 # s1 @ w1 @ 0x3A # w2 @ t @ w @ 0x2C # w' @ s)"

text \<open>What the reader demands beyond the grammar.\<close>

fun nesting :: "jv \<Rightarrow> nat" where
  "nesting (JArr vs) = foldr max (map (\<lambda>v. Suc (nesting v)) vs) 0"
| "nesting (JObj ms) = foldr max (map (\<lambda>m. Suc (nesting (snd m))) ms) 0"
| "nesting _ = 0"

fun values_in :: "jv \<Rightarrow> nat" where
  "values_in (JArr vs) = Suc (sum_list (map values_in vs))"
| "values_in (JObj ms) = Suc (sum_list (map (\<lambda>m. values_in (snd m)) ms))"
| "values_in _ = 1"

fun strict :: "jv \<Rightarrow> bool" where
  "strict (JNum x) = finite_number x"
| "strict (JArr vs) = (\<forall>v \<in> set vs. strict v)"
| "strict (JObj ms) = (distinct (map fst ms) \<and> (\<forall>m \<in> set ms. strict (snd m)))"
| "strict _ = True"

section \<open>Taking a successful run apart\<close>

named_theorems parse_ok \<open>what a lexical method consumed when it succeeds\<close>

lemma case_sum_ok [parse_ok]:
  "(case x of Inl e \<Rightarrow> Inl e | Inr a \<Rightarrow> f a) = Inr y \<longleftrightarrow> (\<exists>a. x = Inr a \<and> f a = Inr y)"
  by (cases x) simp_all

lemma consume_some: "consume c s = Some r \<longleftrightarrow> s = c # r"
  unfolding consume_def by (auto split: list.splits)

lemma consume_none: "consume c s = None \<longleftrightarrow> s = [] \<or> hd s \<noteq> c"
  unfolding consume_def by (auto split: list.splits)

lemma expect_ok [parse_ok]: "expect c s = Inr r \<longleftrightarrow> s = c # r"
  unfolding expect_def consume_def by (auto split: list.splits if_splits)

lemma expect_hit [simp]: "expect c (c # s) = Inr s"
  by (simp add: expect_ok)

lemma consume_hit [simp]: "consume c (c # s) = Some s"
  by (simp add: consume_some)

lemma literal_ok [parse_ok]: "parseLiteral l v s = Inr (x, r) \<longleftrightarrow> x = v \<and> s = l @ r"
proof -
  have "s = l @ r \<longleftrightarrow> take (length l) s = l \<and> drop (length l) s = r"
    by (metis append_eq_conv_conj)
  then show ?thesis unfolding parseLiteral_def by auto
qed

lemma skip_split: "\<exists>w. white w \<and> s = w @ skipWhitespace s"
  unfolding skipWhitespace_def
  by (rule exI[of _ "takeWhile is_white s"]) (auto simp: list_all_iff dest: set_takeWhileD)

lemma skip_white: "white w \<Longrightarrow> skipWhitespace (w @ s) = skipWhitespace s"
  unfolding skipWhitespace_def by (induction w) simp_all

lemma skip_stop: "s = [] \<or> \<not> is_white (hd s) \<Longrightarrow> skipWhitespace s = s"
  unfolding skipWhitespace_def by (cases s) simp_all

lemma skip_length: "length (skipWhitespace s) \<le> length s"
  unfolding skipWhitespace_def by (rule length_dropWhile_le)

lemma short_keys: "map_of short_escapes e = Some c \<longleftrightarrow> (e, c) \<in> set short_escapes"
  by (rule map_of_eq_Some_iff) (simp add: short_escapes_def)

lemma short_not_u: "map_of short_escapes 0x75 = None"
  by (simp add: short_escapes_def)

lemma escape_ok [parse_ok]: "parseEscape s = Inr (c, r) \<longleftrightarrow>
    (\<exists>e. s = e # r \<and> (e, c) \<in> set short_escapes)
  \<or> (\<exists>h. s = 0x75 # h @ r \<and> length h = 4 \<and> list_all is_hex16 h \<and> c = hex4 h)"
proof (cases s)
  case Nil then show ?thesis by (simp add: parseEscape_def)
next
  case (Cons e q)
  show ?thesis
  proof (cases "map_of short_escapes e")
    case (Some x)
    then have "e \<noteq> 0x75" using short_not_u by auto
    then show ?thesis using Cons Some short_keys[of e x] short_keys[of e c] by (auto simp: parseEscape_def)
  next
    case None
    then have no: "(e, c) \<notin> set short_escapes" using short_keys by (metis option.discI)
    have "e = 0x75 \<and> (let d = take 4 q in length d = 4 \<and> list_all is_hex16 d \<and> c = hex4 d \<and> r = drop 4 q)
      \<longleftrightarrow> (\<exists>h. e # q = 0x75 # h @ r \<and> length h = 4 \<and> list_all is_hex16 h \<and> c = hex4 h)"
    proof -
      have "q = h @ r \<and> length h = 4 \<longleftrightarrow> h = take 4 q \<and> r = drop 4 q \<and> length h = 4" for h
        by auto
      then show ?thesis unfolding Let_def list.inject by (metis length_take append_take_drop_id)
    qed
    then show ?thesis using Cons None no by (auto simp: parseEscape_def Let_def)
  qed
qed

lemma string_sound: "parseStringBody s = Inr (w, r) \<Longrightarrow> \<exists>t. s = t @ r \<and> string_text w t"
proof (induction s arbitrary: w rule: parseStringBody.induct)
  case (1 s)
  from 1(3) show ?case
  proof (subst (asm) parseStringBody.simps, cases s)
    case Nil then show ?thesis using 1(3) by (simp add: parseStringBody.simps)
  next
    case (Cons c q)
    note run = 1(3)[unfolded parseStringBody.simps[of s]]
    consider (close) "c = 0x22" | (esc) "c = 0x5C" | (plain) "c \<noteq> 0x22" "c \<noteq> 0x5C" by blast
    then show ?thesis
    proof cases
      case close then show ?thesis using run Cons by (auto intro!: exI[of _ "[0x22]"] Close)
    next
      case esc
      then obtain x r' w' where e: "parseEscape q = Inr (x, r')" "parseStringBody r' = Inr (w', r)" "w = x # w'"
        using run Cons by (auto simp: case_sum_ok)
      from 1(1)[OF Cons _ esc e(1)] e(2) esc obtain t where t: "r' = t @ r" "string_text w' t" by auto
      from e(1) show ?thesis unfolding escape_ok
      proof
        assume "\<exists>a. q = a # r' \<and> (a, x) \<in> set short_escapes"
        then obtain a where "q = a # r'" "(a, x) \<in> set short_escapes" by blast
        then show ?thesis using Cons esc e(3) t Short by (intro exI[of _ "0x5C # a # t"]) simp
      next
        assume "\<exists>h. q = 0x75 # h @ r' \<and> length h = 4 \<and> list_all is_hex16 h \<and> x = hex4 h"
        then obtain h where "q = 0x75 # h @ r'" "length h = 4" "list_all is_hex16 h" "x = hex4 h" by blast
        then show ?thesis using Cons esc e(3) t Hex by (intro exI[of _ "0x5C # 0x75 # h @ t"]) simp
      qed
    next
      case plain
      then obtain w' where w: "\<not> c < 0x20" "parseStringBody q = Inr (w', r)" "w = c # w'"
        using run Cons by (auto simp: case_sum_ok split: if_splits)
      from 1(2)[OF Cons plain w(1,2)] obtain t where "q = t @ r" "string_text w' t" by blast
      then show ?thesis using Cons w plain Plain by (intro exI[of _ "c # t"]) simp
    qed
  qed
qed

lemma string_complete: "string_text w t \<Longrightarrow> parseStringBody (t @ r) = Inr (w, r)"
proof (induction rule: string_text.induct)
  case Close then show ?case by (simp add: parseStringBody.simps)
next
  case (Plain w s c) then show ?case by (subst parseStringBody.simps) simp
next
  case (Short w s e c)
  then have "parseEscape (e # s @ r) = Inr (c, s @ r)" unfolding escape_ok by blast
  then show ?case using Short by (subst parseStringBody.simps) simp
next
  case (Hex w s h)
  then have "parseEscape (0x75 # h @ s @ r) = Inr (hex4 h, s @ r)" unfolding escape_ok by blast
  then show ?case using Hex by (subst parseStringBody.simps) simp
qed

lemma string_ok [parse_ok]:
  "parseString s = Inr (w, r) \<longleftrightarrow> (\<exists>t. s = 0x22 # t @ r \<and> string_text w t)"
  unfolding parseString_def case_sum_ok expect_ok using string_sound string_complete by blast

section \<open>Numbers\<close>

text \<open>\<open>at_end P r\<close>: no unit that satisfies \<open>P\<close> comes next.\<close>

definition at_end :: "(unit16 \<Rightarrow> bool) \<Rightarrow> text16 \<Rightarrow> bool" where
  "at_end P r \<longleftrightarrow> r = [] \<or> \<not> P (hd r)"

definition number_unit :: "unit16 \<Rightarrow> bool" where
  "number_unit c \<longleftrightarrow> is_digit16 c \<or> c = 0x2E \<or> c = 0x65 \<or> c = 0x45"

lemma at_end_weaken: "at_end P r \<Longrightarrow> (\<And>c. Q c \<Longrightarrow> P c) \<Longrightarrow> at_end Q r"
  unfolding at_end_def by blast

lemma takeWhile_at_end: "list_all P ds \<Longrightarrow> at_end P r \<Longrightarrow> takeWhile P (ds @ r) = ds"
  unfolding at_end_def by (induction ds) (cases r; simp)+

lemma dropWhile_at_end: "list_all P ds \<Longrightarrow> at_end P r \<Longrightarrow> dropWhile P (ds @ r) = r"
  unfolding at_end_def by (induction ds) (cases r; simp)+

lemma at_end_dropWhile: "at_end P (dropWhile P s)"
  unfolding at_end_def using hd_dropWhile by blast

lemma digits_ok [parse_ok]:
  "requireDigits s = Inr r \<longleftrightarrow> (\<exists>ds. s = ds @ r \<and> some_digits ds \<and> at_end is_digit16 r)"
proof
  assume "requireDigits s = Inr r"
  then have "takeWhile is_digit16 s \<noteq> []" "r = dropWhile is_digit16 s"
    unfolding requireDigits_def by (simp_all split: if_splits)
  then show "\<exists>ds. s = ds @ r \<and> some_digits ds \<and> at_end is_digit16 r"
    by (intro exI[of _ "takeWhile is_digit16 s"])
      (auto simp: some_digits_def list_all_iff at_end_dropWhile dest: set_takeWhileD)
next
  assume "\<exists>ds. s = ds @ r \<and> some_digits ds \<and> at_end is_digit16 r"
  then show "requireDigits s = Inr r"
    unfolding requireDigits_def some_digits_def by (auto simp: takeWhile_at_end dropWhile_at_end)
qed

lemma digit_units: "is_digit16 0x30" "\<not> is_digit16 0x2D" "\<not> is_digit16 0x2E" "\<not> is_digit16 0x2B"
  "\<not> is_digit16 0x65" "\<not> is_digit16 0x45"
  unfolding is_digit16_def by simp_all

lemma sign_ok: "sign_part s = Inr r \<longleftrightarrow> (\<exists>sg. s = sg @ r \<and> (sg = [0x2D] \<and> r \<noteq> [] \<or> sg = [] \<and> at_end ((=) 0x2D) s))"
  unfolding sign_part_def at_end_def consume_def by (auto split: list.splits)

definition whole_text :: "text16 \<Rightarrow> bool" where
  "whole_text w \<longleftrightarrow> w = [0x30] \<or> some_digits w \<and> hd w \<noteq> 0x30"

definition fraction_text :: "text16 \<Rightarrow> bool" where
  "fraction_text f \<longleftrightarrow> f = [] \<or> (\<exists>ds. f = 0x2E # ds \<and> some_digits ds)"

definition exponent_text :: "text16 \<Rightarrow> bool" where
  "exponent_text x \<longleftrightarrow> x = [] \<or> (\<exists>e es ds. x = e # es @ ds \<and> (e = 0x65 \<or> e = 0x45)
     \<and> (es = [] \<or> es = [0x2B] \<or> es = [0x2D]) \<and> some_digits ds)"

lemma number_parts: "number_text l \<longleftrightarrow> (\<exists>sg w f x. l = sg @ w @ f @ x \<and> (sg = [] \<or> sg = [0x2D])
    \<and> whole_text w \<and> fraction_text f \<and> exponent_text x)"
  unfolding number_text_def whole_text_def fraction_text_def exponent_text_def by blast

lemma whole_ok: "whole_part s = Inr r \<longleftrightarrow> (\<exists>w. s = w @ r \<and> whole_text w \<and> at_end is_digit16 r)"
proof (cases "consume 0x30 s")
  case None
  then have "s = [] \<or> hd s \<noteq> 0x30" unfolding consume_none .
  then show ?thesis using None unfolding whole_part_def whole_text_def
    by (auto simp: digits_ok some_digits_def)
next
  case (Some q)
  then have s: "s = 0x30 # q" unfolding consume_some .
  have "w = [0x30]" if "s = w @ r" "whole_text w" for w
    using that s unfolding whole_text_def some_digits_def by (cases w) auto
  then have "(\<exists>w. s = w @ r \<and> whole_text w \<and> at_end is_digit16 r) \<longleftrightarrow> s = [0x30] @ r \<and> at_end is_digit16 r"
    unfolding whole_text_def by metis
  then show ?thesis using Some s unfolding whole_part_def at_end_def by auto
qed

lemma fraction_sound: "fraction_part s = Inr r \<Longrightarrow> \<exists>f. s = f @ r \<and> fraction_text f"
  unfolding fraction_part_def fraction_text_def
  by (cases "consume 0x2E s") (auto simp: consume_some digits_ok)

lemma fraction_complete: "fraction_text f \<Longrightarrow> at_end number_unit r \<Longrightarrow> exponent_text x \<Longrightarrow>
    fraction_part (f @ x @ r) = Inr (x @ r)"
proof -
  assume f: "fraction_text f" and r: "at_end number_unit r" and x: "exponent_text x"
  have "at_end is_digit16 (x @ r) \<and> at_end ((=) 0x2E) (x @ r)"
    using r x unfolding exponent_text_def at_end_def number_unit_def by (auto simp: digit_units)
  then show ?thesis using f unfolding fraction_part_def fraction_text_def consume_def at_end_def
    by (auto simp: digits_ok at_end_def split: list.splits)
qed

lemma exponent_sound: "exponent_part s = Inr r \<Longrightarrow> \<exists>x. s = x @ r \<and> exponent_text x"
proof (cases s)
  case Nil
  then show "exponent_part s = Inr r \<Longrightarrow> ?thesis" by (auto simp: exponent_part_def exponent_text_def)
next
  case (Cons c q)
  assume run: "exponent_part s = Inr r"
  show ?thesis
  proof (cases "c = 0x65 \<or> c = 0x45")
    case False then show ?thesis using run Cons by (auto simp: exponent_part_def exponent_text_def)
  next
    case True
    define q' where "q' = (case q of [] \<Rightarrow> q | x # z \<Rightarrow> if x = 0x2B \<or> x = 0x2D then z else q)"
    have "requireDigits q' = Inr r" using run True Cons by (simp add: exponent_part_def q'_def)
    then obtain ds where ds: "q' = ds @ r" "some_digits ds" unfolding digits_ok by blast
    have "\<exists>es. q = es @ q' \<and> (es = [] \<or> es = [0x2B] \<or> es = [0x2D])"
      unfolding q'_def by (cases q) auto
    then obtain es where "q = es @ q'" "es = [] \<or> es = [0x2B] \<or> es = [0x2D]" by blast
    then show ?thesis using Cons True ds unfolding exponent_text_def
      by (intro exI[of _ "c # es @ ds"]) (simp, blast)
  qed
qed

lemma exponent_complete: "exponent_text x \<Longrightarrow> at_end number_unit r \<Longrightarrow> exponent_part (x @ r) = Inr r"
proof -
  assume x: "exponent_text x" and r: "at_end number_unit r"
  have d: "at_end is_digit16 r" using r by (rule at_end_weaken) (simp add: number_unit_def)
  consider "x = []" | e es ds where "x = e # es @ ds" "e = 0x65 \<or> e = 0x45"
    "es = [] \<or> es = [0x2B] \<or> es = [0x2D]" "some_digits ds"
    using x unfolding exponent_text_def by blast
  then show ?thesis
  proof cases
    case 1 then show ?thesis using r unfolding exponent_part_def at_end_def number_unit_def
      by (auto split: list.splits)
  next
    case (2 e es ds)
    then have "requireDigits (ds @ r) = Inr r" using d digits_ok by blast
    moreover have "hd ds \<noteq> 0x2B \<and> hd ds \<noteq> 0x2D" "ds \<noteq> []"
      using 2(4) digit_units unfolding some_digits_def by (auto simp: neq_Nil_conv)
    ultimately show ?thesis using 2(1-3) unfolding exponent_part_def by (cases ds) auto
  qed
qed

lemma number_sound: "parseNumber s = Inr (x, r) \<Longrightarrow>
    \<exists>l. s = l @ r \<and> number_text l \<and> x = decimal l \<and> finite_number x"
proof -
  assume "parseNumber s = Inr (x, r)"
  then obtain s1 s2 s3 where run: "sign_part s = Inr s1" "whole_part s1 = Inr s2"
    "fraction_part s2 = Inr s3" "exponent_part s3 = Inr r"
    and x: "x = decimal (take (length s - length r) s)" "finite_number x"
    unfolding parseNumber_def Let_def by (auto simp: case_sum_ok split: if_splits)
  obtain sg where sg: "s = sg @ s1" "sg = [] \<or> sg = [0x2D]" using run(1) unfolding sign_ok by blast
  obtain w where w: "s1 = w @ s2" "whole_text w" using run(2) unfolding whole_ok by blast
  obtain f where f: "s2 = f @ s3" "fraction_text f" using fraction_sound[OF run(3)] by blast
  obtain e where e: "s3 = e @ r" "exponent_text e" using exponent_sound[OF run(4)] by blast
  have s: "s = (sg @ w @ f @ e) @ r" using sg w f e by simp
  then have "x = decimal (sg @ w @ f @ e)" using x(1) by simp
  moreover have "number_text (sg @ w @ f @ e)" using sg(2) w(2) f(2) e(2) number_parts by blast
  ultimately show ?thesis using s x(2) by blast
qed

lemma number_complete:
  assumes "number_text l" "at_end number_unit r" "finite_number (decimal l)"
  shows "parseNumber (l @ r) = Inr (decimal l, r)"
proof -
  obtain sg w f x where l: "l = sg @ w @ f @ x" "sg = [] \<or> sg = [0x2D]" "whole_text w"
    "fraction_text f" "exponent_text x" using assms(1) number_parts by blast
  have w0: "w \<noteq> []" "hd w \<noteq> 0x2D"
    using l(3) digit_units unfolding whole_text_def some_digits_def by (auto simp: neq_Nil_conv)
  have "sign_part (l @ r) = Inr (w @ f @ x @ r)"
    unfolding sign_ok l(1) at_end_def using l(2) w0 by auto
  moreover have "at_end is_digit16 (f @ x @ r)"
    using l(4,5) assms(2) digit_units unfolding fraction_text_def exponent_text_def at_end_def number_unit_def
    by auto
  then have "whole_part (w @ f @ x @ r) = Inr (f @ x @ r)" unfolding whole_ok using l(3) by blast
  ultimately show ?thesis
    using fraction_complete[OF l(4) assms(2) l(5)] exponent_complete[OF l(5) assms(2)] assms(3)
    unfolding parseNumber_def by (simp add: Let_def l(1))
qed

lemma number_head: "number_text l \<Longrightarrow> l \<noteq> [] \<and> (hd l = 0x2D \<or> is_digit16 (hd l))"
  unfolding number_parts whole_text_def some_digits_def
  by (auto simp: digit_units neq_Nil_conv)

section \<open>The loops over any reader of values\<close>

text \<open>
  What the loops need of the method that reads one value: it consumes a text of the grammar whose
  value satisfies \<open>Q\<close>, and counts the values it read, never past \<open>V\<close>.
\<close>

locale value_reader =
  fixes V :: nat and Q :: "jv \<Rightarrow> bool" and pv :: "text16 \<Rightarrow> nat \<Rightarrow> value_result"
  assumes reads: "pv s c = Inr (v, r, c') \<Longrightarrow>
    \<exists>t. s = t @ r \<and> value_text v t \<and> Q v \<and> c' = c + values_in v \<and> c' \<le> V"
begin

lemma elements_sound:
  "parseElements n pv acc s c = Inr (x, r, c') \<Longrightarrow>
   \<exists>vs t. x = JArr (acc @ vs) \<and> vs \<noteq> [] \<and> s = t @ r \<and> elements_text vs t \<and> (\<forall>v \<in> set vs. Q v)
     \<and> c' = c + sum_list (map values_in vs) \<and> c' \<le> V"
proof (induction n arbitrary: acc s c)
  case 0 then show ?case by simp
next
  case (Suc n)
  then obtain v s1 c1 where v: "pv s c = Inr (v, s1, c1)" by (auto simp: case_sum_ok)
  then obtain t where t: "s = t @ s1" "value_text v t" "Q v" "c1 = c + values_in v" "c1 \<le> V"
    using reads by blast
  obtain w where w: "white w" "s1 = w @ skipWhitespace s1" using skip_split by blast
  show ?case
  proof (cases "consume 0x5D (skipWhitespace s1)")
    case (Some q)
    then have "s1 = w @ 0x5D # q" using w(2) unfolding consume_some by simp
    then show ?thesis using Suc(2) v t w(1) Some Last
      by (intro exI[of _ "[v]"] exI[of _ "t @ w @ [0x5D]"]) simp
  next
    case None
    then obtain s3 where s3: "skipWhitespace s1 = 0x2C # s3"
      "parseElements n pv (acc @ [v]) (skipWhitespace s3) c1 = Inr (x, r, c')"
      using Suc(2) v by (auto simp: parse_ok Let_def)
    obtain w' where w': "white w'" "s3 = w' @ skipWhitespace s3" using skip_split by blast
    from Suc(1)[OF s3(2)] obtain vs u where u: "x = JArr ((acc @ [v]) @ vs)" "skipWhitespace s3 = u @ r"
      "elements_text vs u" "\<forall>v \<in> set vs. Q v" "c' = c1 + sum_list (map values_in vs)" "c' \<le> V" by blast
    have "s1 = w @ 0x2C # w' @ u @ r" using w(2) s3(1) w'(2) u(2) by simp
    then show ?thesis using u t w(1) w'(1) More
      by (intro exI[of _ "v # vs"] exI[of _ "t @ w @ 0x2C # w' @ u"]) simp
  qed
qed

lemma members_sound:
  "parseMembers n pv acc s c = Inr (x, r, c') \<Longrightarrow> distinct (map fst acc) \<Longrightarrow>
   \<exists>ms t. x = JObj (acc @ ms) \<and> ms \<noteq> [] \<and> s = t @ r \<and> members_text ms t
     \<and> (\<forall>m \<in> set ms. Q (snd m)) \<and> distinct (map fst (acc @ ms))
     \<and> c' = c + sum_list (map (\<lambda>m. values_in (snd m)) ms) \<and> c' \<le> V"
proof (induction n arbitrary: acc s c)
  case 0 then show ?case by simp
next
  case (Suc n)
  obtain k s1 where k: "parseString s = Inr (k, s1)" "k \<notin> fst ` set acc"
    using Suc(2) by (auto simp: case_sum_ok split: if_splits)
  obtain s2 v s3 c1 where v: "skipWhitespace s1 = 0x3A # s2" "pv (skipWhitespace s2) c = Inr (v, s3, c1)"
    using Suc(2) k by (auto simp: parse_ok)
  obtain kt where kt: "s = 0x22 # kt @ s1" "string_text k kt" using k(1) unfolding string_ok by blast
  from reads[OF v(2)] obtain t where t: "skipWhitespace s2 = t @ s3" "value_text v t" "Q v"
    "c1 = c + values_in v" "c1 \<le> V" by blast
  obtain w1 where w1: "white w1" "s1 = w1 @ skipWhitespace s1" using skip_split by blast
  obtain w2 where w2: "white w2" "s2 = w2 @ skipWhitespace s2" using skip_split by blast
  obtain w where w: "white w" "s3 = w @ skipWhitespace s3" using skip_split by blast
  have s: "s = 0x22 # kt @ w1 @ 0x3A # w2 @ t @ w @ skipWhitespace s3"
    using kt(1) w1(2) v(1) w2(2) t(1) w(2) by simp
  have d: "distinct (map fst (acc @ [(k, v)]))" using Suc(3) k(2) by simp
  show ?case
  proof (cases "consume 0x7D (skipWhitespace s3)")
    case (Some q)
    then have "skipWhitespace s3 = 0x7D # q" unfolding consume_some .
    then show ?thesis using Suc(2) k v s t d LastM[OF kt(2) w1(1) w2(1) t(2) w(1)] Some
      by (intro exI[of _ "[(k, v)]"] exI[of _ "0x22 # kt @ w1 @ 0x3A # w2 @ t @ w @ [0x7D]"])
        (simp add: Let_def)
  next
    case None
    then obtain s5 where s5: "skipWhitespace s3 = 0x2C # s5"
      "parseMembers n pv (acc @ [(k, v)]) (skipWhitespace s5) c1 = Inr (x, r, c')"
      using Suc(2) k v by (auto simp: parse_ok Let_def)
    obtain w' where w': "white w'" "s5 = w' @ skipWhitespace s5" using skip_split by blast
    from Suc(1)[OF s5(2) d] obtain ms u where u: "x = JObj ((acc @ [(k, v)]) @ ms)"
      "skipWhitespace s5 = u @ r" "members_text ms u" "\<forall>m \<in> set ms. Q (snd m)"
      "distinct (map fst ((acc @ [(k, v)]) @ ms))"
      "c' = c1 + sum_list (map (\<lambda>m. values_in (snd m)) ms)" "c' \<le> V" by blast
    have "s = (0x22 # kt @ w1 @ 0x3A # w2 @ t @ w @ 0x2C # w' @ u) @ r"
      using s s5(1) w'(2) u(2) by simp
    then show ?thesis using u t MoreM[OF kt(2) w1(1) w2(1) t(2) w(1) w'(1) u(3)]
      by (intro exI[of _ "(k, v) # ms"] exI[of _ "0x22 # kt @ w1 @ 0x3A # w2 @ t @ w @ 0x2C # w' @ u"]) simp
  qed
qed

end

section \<open>Soundness\<close>

lemma foldr_max_bound: "foldr max (map f xs) 0 \<le> (k::nat) \<longleftrightarrow> (\<forall>x \<in> set xs. f x \<le> k)"
  by (induction xs) auto

lemma nesting_arr: "d + nesting (JArr vs) \<le> D \<longleftrightarrow> d \<le> D \<and> (\<forall>v \<in> set vs. Suc d + nesting v \<le> D)"
  using foldr_max_bound[of "\<lambda>v. Suc (nesting v)" vs "D - d"] by (cases "d \<le> D") (auto simp: le_diff_conv2 add.commute)

lemma nesting_obj: "d + nesting (JObj ms) \<le> D \<longleftrightarrow> d \<le> D \<and> (\<forall>m \<in> set ms. Suc d + nesting (snd m) \<le> D)"
  using foldr_max_bound[of "\<lambda>m. Suc (nesting (snd m))" ms "D - d"]
  by (cases "d \<le> D") (auto simp: le_diff_conv2 add.commute)

definition fits :: "nat \<Rightarrow> nat \<Rightarrow> jv \<Rightarrow> bool" where
  "fits D d v \<longleftrightarrow> strict v \<and> d + nesting v \<le> D"

lemma scalar_sound: "parseScalar c (c # q) = Inr (v, r) \<Longrightarrow> d \<le> D \<Longrightarrow>
   \<exists>t. c # q = t @ r \<and> value_text v t \<and> fits D d v \<and> values_in v = 1"
  unfolding parseScalar_def fits_def
  by (auto simp: parse_ok split: if_splits dest!: number_sound intro: value_text_elements_text_members_text.intros)

lemma value_reads: "value_reader V (fits D d) (parseValue n D V d)"
proof (induction n arbitrary: d)
  case 0 show ?case by unfold_locales simp
next
  case (Suc n)
  show ?case
  proof
    fix s c v r c'
    assume run: "parseValue (Suc n) D V d s c = Inr (v, r, c')"
    then have lim: "d \<le> D" "c + 1 \<le> V" by (auto split: if_splits)
    obtain x q where s: "s = x # q" using run by (cases s) (auto split: if_splits)
    consider (obj) "x = 0x7B" "parseObject n (parseValue n D V (Suc d)) q (c + 1) = Inr (v, r, c')"
      | (arr) "x = 0x5B" "parseArray n (parseValue n D V (Suc d)) q (c + 1) = Inr (v, r, c')"
      | (scalar) "parseScalar x s = Inr (v, r)" "c' = c + 1"
      using run s by (auto simp: parse_ok split: if_splits)
    then show "\<exists>t. s = t @ r \<and> value_text v t \<and> fits D d v \<and> c' = c + values_in v \<and> c' \<le> V"
    proof cases
      case scalar
      then show ?thesis using scalar_sound[of x q v r d D] s lim by auto
    next
      case arr
      obtain w where w: "white w" "q = w @ skipWhitespace q" using skip_split by blast
      show ?thesis
      proof (cases "consume 0x5D (skipWhitespace q)")
        case (Some z)
        then have "skipWhitespace q = 0x5D # z" unfolding consume_some .
        then show ?thesis using arr w lim s Arr0[OF w(1)] Some unfolding parseArray_def
          by (intro exI[of _ "0x5B # w @ [0x5D]"]) (auto simp: Let_def fits_def)
      next
        case None
        then have "parseElements n (parseValue n D V (Suc d)) [] (skipWhitespace q) (c + 1) = Inr (v, r, c')"
          using arr unfolding parseArray_def by (simp add: Let_def)
        from value_reader.elements_sound[OF Suc this]
        obtain vs t where u: "v = JArr vs" "skipWhitespace q = t @ r" "elements_text vs t"
          "\<forall>v \<in> set vs. fits D (Suc d) v" "c' = c + 1 + sum_list (map values_in vs)" "c' \<le> V" by auto
        then have "fits D d v" using lim unfolding fits_def nesting_arr u(1) by simp
        then show ?thesis using arr(1) s w u Arr[OF w(1) u(3)]
          by (intro exI[of _ "0x5B # w @ t"]) simp
      qed
    next
      case obj
      obtain w where w: "white w" "q = w @ skipWhitespace q" using skip_split by blast
      show ?thesis
      proof (cases "consume 0x7D (skipWhitespace q)")
        case (Some z)
        then have "skipWhitespace q = 0x7D # z" unfolding consume_some .
        then show ?thesis using obj w lim s Obj0[OF w(1)] Some unfolding parseObject_def
          by (intro exI[of _ "0x7B # w @ [0x7D]"]) (auto simp: Let_def fits_def)
      next
        case None
        then have "parseMembers n (parseValue n D V (Suc d)) [] (skipWhitespace q) (c + 1) = Inr (v, r, c')"
          using obj unfolding parseObject_def by (simp add: Let_def)
        from value_reader.members_sound[OF Suc this]
        obtain ms t where u: "v = JObj ms" "skipWhitespace q = t @ r" "members_text ms t"
          "\<forall>m \<in> set ms. fits D (Suc d) (snd m)" "distinct (map fst ms)"
          "c' = c + 1 + sum_list (map (\<lambda>m. values_in (snd m)) ms)" "c' \<le> V" by auto
        then have "fits D d v" using lim unfolding fits_def nesting_obj u(1) by simp
        then show ?thesis using obj(1) s w u Obj[OF w(1) u(3)]
          by (intro exI[of _ "0x7B # w @ t"]) simp
      qed
    qed
  qed
qed

interpretation parser: value_reader V "fits D d" "parseValue n D V d" for V D d n
  by (rule value_reads)

section \<open>Completeness\<close>

definition value_head :: "text16 \<Rightarrow> bool" where
  "value_head t \<longleftrightarrow> t \<noteq> [] \<and> \<not> is_white (hd t) \<and> hd t \<noteq> 0x5D"

lemma head_digit: "is_digit16 c \<Longrightarrow> \<not> is_white c \<and> c \<noteq> 0x5D \<and> c \<noteq> 0x22 \<and> c \<noteq> 0x7B \<and> c \<noteq> 0x5B
    \<and> c \<noteq> 0x74 \<and> c \<noteq> 0x66 \<and> c \<noteq> 0x6E"
  unfolding is_digit16_def is_white_def by auto

lemma number_value_head: "number_text l \<Longrightarrow> value_head l"
  using number_head[of l] head_digit[of "hd l"] unfolding value_head_def is_white_def by auto

lemma value_text_head:
  assumes "value_text v t" shows "value_head t"
  using assms
proof (cases rule: value_text.cases)
  case Num
  then show ?thesis using number_value_head by simp
qed (simp_all add: value_head_def is_white_def)

lemma elements_text_head: "elements_text vs t \<Longrightarrow> value_head t"
  by (cases rule: elements_text.cases) (auto simp: value_head_def dest: value_text_head)

lemma members_text_head: "members_text ms t \<Longrightarrow> \<exists>q. t = 0x22 # q"
  by (cases rule: members_text.cases) auto

lemma skip_to: "white w \<Longrightarrow> value_head t \<Longrightarrow> skipWhitespace (w @ t @ r) = t @ r"
  unfolding value_head_def by (simp add: skip_white skip_stop)

lemma skip_unit: "white w \<Longrightarrow> \<not> is_white x \<Longrightarrow> skipWhitespace (w @ x # r) = x # r"
  by (simp add: skip_white skip_stop)

lemma not_white: "\<not> is_white 0x5D" "\<not> is_white 0x7D" "\<not> is_white 0x2C" "\<not> is_white 0x3A" "\<not> is_white 0x22"
  unfolding is_white_def by simp_all

lemma end_white: "white w \<Longrightarrow> \<not> number_unit x \<Longrightarrow> at_end number_unit (w @ x # r)"
proof (cases w)
  case (Cons y z)
  assume "white w"
  then have "is_white y" using Cons by simp
  then have "\<not> number_unit y" unfolding is_white_def number_unit_def is_digit16_def by auto
  then show ?thesis using Cons unfolding at_end_def by simp
qed (simp add: at_end_def)

lemma not_number: "\<not> number_unit 0x5D" "\<not> number_unit 0x7D" "\<not> number_unit 0x2C"
  unfolding number_unit_def is_digit16_def by simp_all

lemma scalar_complete:
  assumes "parseScalar x (x # q) = Inr (v, r)" "d \<le> D" "c + 1 \<le> V" "0 < n"
  shows "parseValue n D V d (x # q) c = Inr (v, r, c + 1)"
proof -
  have "x \<noteq> 0x7B \<and> x \<noteq> 0x5B"
    using assms(1) unfolding parseScalar_def by (auto simp: digit_units is_digit16_def split: if_splits)
  then show ?thesis using assms by (cases n) auto
qed

lemma fits_simps: "fits D d (JArr vs) \<longleftrightarrow> d \<le> D \<and> (\<forall>v \<in> set vs. fits D (Suc d) v)"
  "fits D d (JObj ms) \<longleftrightarrow> d \<le> D \<and> distinct (map fst ms) \<and> (\<forall>m \<in> set ms. fits D (Suc d) (snd m))"
  unfolding fits_def nesting_arr nesting_obj by auto

lemma complete:
  "value_text v t \<Longrightarrow> length (t @ r) < n \<Longrightarrow> at_end number_unit r \<Longrightarrow> fits D d v \<Longrightarrow> c + values_in v \<le> V \<Longrightarrow>
     parseValue n D V d (t @ r) c = Inr (v, r, c + values_in v)"
  "elements_text vs t \<Longrightarrow> length (t @ r) < n \<Longrightarrow> length (t @ r) < m \<Longrightarrow> \<forall>v \<in> set vs. fits D d v \<Longrightarrow>
     c + sum_list (map values_in vs) \<le> V \<Longrightarrow>
     parseElements n (parseValue m D V d) acc (t @ r) c
       = Inr (JArr (acc @ vs), r, c + sum_list (map values_in vs))"
  "members_text ms t \<Longrightarrow> length (t @ r) < n \<Longrightarrow> length (t @ r) < m \<Longrightarrow> \<forall>e \<in> set ms. fits D d (snd e) \<Longrightarrow>
     distinct (map fst (mem @ ms)) \<Longrightarrow> c + sum_list (map (\<lambda>e. values_in (snd e)) ms) \<le> V \<Longrightarrow>
     parseMembers n (parseValue m D V d) mem (t @ r) c
       = Inr (JObj (mem @ ms), r, c + sum_list (map (\<lambda>e. values_in (snd e)) ms))"
proof (induction arbitrary: n d c r and n m d c r acc and n m d c r mem
    rule: value_text_elements_text_members_text.inducts)
  case Null
  then show ?case by (auto intro!: scalar_complete[simplified] simp: parseScalar_def parseLiteral_def fits_def)
next
  case True
  then show ?case by (auto intro!: scalar_complete[simplified] simp: parseScalar_def parseLiteral_def fits_def)
next
  case False
  then show ?case by (auto intro!: scalar_complete[simplified] simp: parseScalar_def parseLiteral_def fits_def)
next
  case (Num l)
  from number_head[OF Num(1)] obtain x q where l: "l = x # q" "x = 0x2D \<or> is_digit16 x"
    by (cases l) simp_all
  have "parseNumber (x # q @ r) = Inr (decimal l, r)"
    using number_complete[of l r] Num l by (simp add: fits_def)
  then have "parseScalar x (x # q @ r) = Inr (JNum (decimal l), r)"
    using l(2) head_digit[of x] unfolding parseScalar_def by auto
  from scalar_complete[OF this] Num show ?case unfolding l(1) by (simp add: fits_def)
next
  case (Str w s)
  then have "parseScalar 0x22 (0x22 # s @ r) = Inr (JStr w, r)"
    using string_ok[of "0x22 # s @ r" w r] unfolding parseScalar_def by simp
  from scalar_complete[OF this] Str show ?case by (simp add: fits_def)
next
  case (Arr0 w)
  then show ?case by (cases n) (simp_all add: parseArray_def Let_def skip_unit not_white fits_def)
next
  case (Arr w vs s)
  obtain k where n: "n = Suc k" using Arr by (cases n) simp_all
  have head: "value_head s" using elements_text_head[OF Arr(2)] .
  then have "consume 0x5D (s @ r) = None" unfolding consume_none value_head_def by simp
  moreover have "parseElements k (parseValue k D V (Suc d)) [] (s @ r) (c + 1)
      = Inr (JArr ([] @ vs), r, c + 1 + sum_list (map values_in vs))"
    using Arr n by (intro Arr(3)) (simp_all add: fits_simps)
  ultimately show ?case using Arr(1,6,7) n skip_to[OF Arr(1) head, of r]
    by (simp add: parseArray_def Let_def fits_simps)
next
  case (Obj0 w)
  then show ?case by (cases n) (simp_all add: parseObject_def Let_def skip_unit not_white fits_def)
next
  case (Obj w ms s)
  obtain k where n: "n = Suc k" using Obj by (cases n) simp_all
  obtain q where q: "s = 0x22 # q" using members_text_head[OF Obj(2)] by blast
  have "consume 0x7D (s @ r) = None" unfolding consume_none q by simp
  moreover have "parseMembers k (parseValue k D V (Suc d)) [] (s @ r) (c + 1)
      = Inr (JObj ([] @ ms), r, c + 1 + sum_list (map (\<lambda>e. values_in (snd e)) ms))"
    using Obj n by (intro Obj(3)) (simp_all add: fits_simps)
  ultimately show ?case using Obj(1,6,7) n skip_unit[OF Obj(1) not_white(5), of "q @ r"] q
    by (simp add: parseObject_def Let_def fits_simps)
next
  case (Last v t w)
  obtain k where n: "n = Suc k" using Last(4) by (cases n) simp_all
  have "parseValue m D V d (t @ w @ 0x5D # r) c = Inr (v, w @ 0x5D # r, c + values_in v)"
    using Last by (intro Last(3)) (simp_all add: end_white not_number)
  then show ?case using Last n by (simp add: skip_unit not_white)
next
  case (More v t w w' vs s)
  obtain k where n: "n = Suc k" using More by (cases n) simp_all
  have "parseValue m D V d (t @ w @ 0x2C # w' @ s @ r) c = Inr (v, w @ 0x2C # w' @ s @ r, c + values_in v)"
    using More by (intro More(5)) (simp_all add: end_white not_number)
  moreover have "parseElements k (parseValue m D V d) (acc @ [v]) (s @ r) (c + values_in v)
      = Inr (JArr ((acc @ [v]) @ vs), r, c + values_in v + sum_list (map values_in vs))"
    using More n by (intro More(6)) simp_all
  moreover have "consume 0x5D (0x2C # w' @ s @ r) = None" unfolding consume_none by simp
  ultimately show ?case using n skip_to[OF More(3) elements_text_head[OF More(4)], of r]
    by (simp add: skip_unit not_white More(2))
next
  case (LastM k s1 w1 w2 v t w)
  obtain i where n: "n = Suc i" using LastM by (cases n) simp_all
  have "parseString (0x22 # s1 @ w1 @ 0x3A # w2 @ t @ w @ 0x7D # r) = Inr (k, w1 @ 0x3A # w2 @ t @ w @ 0x7D # r)"
    unfolding string_ok using LastM(1) by blast
  moreover have "k \<notin> fst ` set mem" using LastM by simp
  moreover have "parseValue m D V d (t @ w @ 0x7D # r) c = Inr (v, w @ 0x7D # r, c + values_in v)"
    using LastM by (intro LastM(6)) (simp_all add: end_white not_number)
  ultimately show ?case using n LastM(2,3,5) skip_to[OF LastM(3) value_text_head[OF LastM(4)], of "w @ 0x7D # r"]
    by (simp add: skip_unit not_white Let_def)
next
  case (MoreM k s1 w1 w2 v t w w' ms s)
  obtain i where n: "n = Suc i" using MoreM by (cases n) simp_all
  let ?tail = "w @ 0x2C # w' @ s @ r"
  have "parseString (0x22 # s1 @ w1 @ 0x3A # w2 @ t @ ?tail) = Inr (k, w1 @ 0x3A # w2 @ t @ ?tail)"
    unfolding string_ok using MoreM(1) by blast
  moreover have "k \<notin> fst ` set mem" using MoreM by simp
  moreover have "parseValue m D V d (t @ ?tail) c = Inr (v, ?tail, c + values_in v)"
    using MoreM by (intro MoreM(8)) (simp_all add: end_white not_number)
  moreover have "parseMembers i (parseValue m D V d) (mem @ [(k, v)]) (s @ r) (c + values_in v)
      = Inr (JObj ((mem @ [(k, v)]) @ ms), r,
          c + values_in v + sum_list (map (\<lambda>e. values_in (snd e)) ms))"
    using MoreM n by (intro MoreM(9)) simp_all
  moreover have "consume 0x7D (0x2C # w' @ s @ r) = None" unfolding consume_none by simp
  moreover obtain q where "s = 0x22 # q" using members_text_head[OF MoreM(7)] by blast
  then have "skipWhitespace (w' @ s @ r) = s @ r" using skip_unit[OF MoreM(6) not_white(5)] by simp
  ultimately show ?case using n MoreM(2,5) skip_to[OF MoreM(3) value_text_head[OF MoreM(4)], of ?tail]
    by (simp add: skip_unit not_white Let_def)
qed

section \<open>Fuel\<close>

lemma escape_fuel: "parseEscape s \<noteq> Inl No_Fuel"
  unfolding parseEscape_def by (simp add: Let_def split: list.splits option.splits)

lemma expect_fuel: "expect c s \<noteq> Inl No_Fuel"
  unfolding expect_def by (simp split: option.splits)

lemma string_body_fuel: "parseStringBody s \<noteq> Inl No_Fuel"
proof (induction s rule: parseStringBody.induct)
  case (1 s)
  show ?case
  proof (cases s)
    case (Cons c q)
    show ?thesis
    proof (cases "c = 0x5C")
      case True
      have "parseStringBody r \<noteq> Inl No_Fuel" if "parseEscape q = Inr (x, r)" for x r
        using 1(1)[OF Cons _ True that] True by simp
      then show ?thesis using Cons True escape_fuel[of q]
        by (subst parseStringBody.simps) (auto split: sum.splits)
    next
      case False
      then have "parseStringBody q \<noteq> Inl No_Fuel" if "c \<noteq> 0x22" "\<not> c < 0x20"
        using 1(2)[OF Cons] that by blast
      then show ?thesis using Cons False
        by (subst parseStringBody.simps) (auto split: sum.splits)
    qed
  qed (simp add: parseStringBody.simps)
qed

lemma string_fuel: "parseString s \<noteq> Inl No_Fuel"
  unfolding parseString_def using string_body_fuel expect_fuel by (auto split: sum.splits)

lemma digits_fuel: "requireDigits s \<noteq> Inl No_Fuel"
  unfolding requireDigits_def by simp

lemma number_fuel: "parseNumber s \<noteq> Inl No_Fuel"
proof -
  have "sign_part s1 \<noteq> Inl No_Fuel" "whole_part s2 \<noteq> Inl No_Fuel" "fraction_part s3 \<noteq> Inl No_Fuel"
    "exponent_part s4 \<noteq> Inl No_Fuel" for s1 s2 s3 s4
    unfolding sign_part_def whole_part_def fraction_part_def exponent_part_def
    using digits_fuel by (auto split: option.splits list.splits)
  then show ?thesis unfolding parseNumber_def Let_def by (auto split: sum.splits)
qed

lemma scalar_fuel: "parseScalar c s \<noteq> Inl No_Fuel"
  unfolding parseScalar_def parseLiteral_def using string_fuel[of s] number_fuel[of s]
  by (auto split: sum.splits)

context value_reader
begin

lemma reads_less: "pv s c = Inr (v, r, c') \<Longrightarrow> length r \<le> length s"
  using reads by fastforce

lemma elements_fuel:
  "length s < n \<Longrightarrow> (\<And>s' c. length s' \<le> length s \<Longrightarrow> pv s' c \<noteq> Inl No_Fuel) \<Longrightarrow>
    parseElements n pv acc s c \<noteq> Inl No_Fuel"
proof (induction n arbitrary: acc s c)
  case (Suc n)
  show ?case
  proof (cases "pv s c")
    case (Inl e) then show ?thesis using Suc(3)[of s c] by simp
  next
    case (Inr a)
    obtain v s1 c1 where a: "a = (v, s1, c1)" by (cases a) auto
    note less = reads_less[OF Inr[unfolded a]]
    show ?thesis
    proof (cases "expect 0x2C (skipWhitespace s1)")
      case e: (Inl e)
      then show ?thesis using Inr a expect_fuel by (auto simp: Let_def split: option.splits)
    next
      case e: (Inr s3)
      then have "length (skipWhitespace s3) < length s"
        using less skip_length[of s1] skip_length[of s3] unfolding expect_ok by simp
      then have "parseElements n pv (acc @ [v]) (skipWhitespace s3) c1 \<noteq> Inl No_Fuel"
        using Suc by (intro Suc(1)) simp_all
      then show ?thesis using Inr a e by (auto simp: Let_def split: option.splits)
    qed
  qed
qed simp

lemma members_fuel:
  "length s < n \<Longrightarrow> (\<And>s' c. length s' \<le> length s \<Longrightarrow> pv s' c \<noteq> Inl No_Fuel) \<Longrightarrow>
    parseMembers n pv acc s c \<noteq> Inl No_Fuel"
proof (induction n arbitrary: acc s c)
  case (Suc n)
  show ?case
  proof (cases "parseString s")
    case (Inl e) then show ?thesis using string_fuel[of s] by simp
  next
    case (Inr b)
    obtain k s1 where b: "b = (k, s1)" by (cases b)
    have l1: "length s1 < length s" using Inr unfolding b string_ok by auto
    show ?thesis
    proof (cases "expect 0x3A (skipWhitespace s1)")
      case e: (Inl e) then show ?thesis using Inr b expect_fuel by auto
    next
      case s2: (Inr s2)
      then have l2: "length (skipWhitespace s2) < length s"
        using l1 skip_length[of s1] skip_length[of s2] unfolding expect_ok by simp
      show ?thesis
      proof (cases "pv (skipWhitespace s2) c")
        case (Inl e)
        then show ?thesis using Suc(3)[of "skipWhitespace s2" c] l2 Inr b s2 \<open>parseString s = Inr b\<close>
          by auto
      next
        case pv: (Inr a)
        obtain v s3 c1 where a: "a = (v, s3, c1)" by (cases a) auto
        note less = reads_less[OF pv[unfolded a]]
        show ?thesis
        proof (cases "expect 0x2C (skipWhitespace s3)")
          case e: (Inl e)
          then show ?thesis using Inr b s2 pv a expect_fuel by (auto simp: Let_def split: option.splits)
        next
          case e: (Inr s5)
          then have "length (skipWhitespace s5) < length s"
            using less l2 skip_length[of s3] skip_length[of s5] unfolding expect_ok by simp
          then have "parseMembers n pv (acc @ [(k, v)]) (skipWhitespace s5) c1 \<noteq> Inl No_Fuel"
            using Suc by (intro Suc(1)) simp_all
          then show ?thesis using Inr b s2 pv a e by (auto simp: Let_def split: option.splits)
        qed
      qed
    qed
  qed
qed simp

end

lemma fuel_enough: "length s < n \<Longrightarrow> parseValue n D V d s c \<noteq> Inl No_Fuel"
proof (induction n arbitrary: d s c)
  case (Suc n)
  show ?case
  proof (cases s)
    case (Cons x q)
    have l: "length (skipWhitespace q) < n" using Suc(2) Cons skip_length[of q] by simp
    have "parseValue n D V (Suc d) s' c \<noteq> Inl No_Fuel" if "length s' \<le> length (skipWhitespace q)" for s' c
      using Suc(1)[of s'] that l by simp
    from parser.elements_fuel[OF l this] parser.members_fuel[OF l this]
    have "parseArray n (parseValue n D V (Suc d)) q (c + 1) \<noteq> Inl No_Fuel"
      "parseObject n (parseValue n D V (Suc d)) q (c + 1) \<noteq> Inl No_Fuel"
      unfolding parseArray_def parseObject_def by (auto simp: Let_def split: option.splits)
    then show ?thesis using Cons scalar_fuel[of x s] by (auto split: sum.splits)
  qed simp
qed simp

section \<open>Properties\<close>

lemma parse_json_exact: "parse_json D V s = Inr v \<longleftrightarrow>
    (\<exists>w1 t w2. s = w1 @ t @ w2 \<and> white w1 \<and> white w2 \<and> value_text v t) \<and> fits D 0 v \<and> values_in v \<le> V"
proof
  assume "parse_json D V s = Inr v"
  then obtain r c where run: "parseValue (Suc (length s)) D V 0 (skipWhitespace s) 0 = Inr (v, r, c)"
    "skipWhitespace r = []" unfolding parse_json_def by (auto simp: case_sum_ok split: if_splits)
  from parser.reads[OF run(1)] obtain t where t: "skipWhitespace s = t @ r" "value_text v t" "fits D 0 v"
    "values_in v \<le> V" by auto
  obtain w1 where w1: "white w1" "s = w1 @ skipWhitespace s" using skip_split by blast
  obtain w2 where w2: "white w2" "r = w2 @ skipWhitespace r" using skip_split by blast
  have "s = w1 @ t @ w2" using w1(2) w2(2) t(1) run(2) by simp
  then show "(\<exists>w1 t w2. s = w1 @ t @ w2 \<and> white w1 \<and> white w2 \<and> value_text v t) \<and> fits D 0 v \<and> values_in v \<le> V"
    using w1(1) w2(1) t by blast
next
  assume "(\<exists>w1 t w2. s = w1 @ t @ w2 \<and> white w1 \<and> white w2 \<and> value_text v t) \<and> fits D 0 v \<and> values_in v \<le> V"
  then obtain w1 t w2 where s: "s = w1 @ t @ w2" "white w1" "white w2" "value_text v t"
    and v: "fits D 0 v" "values_in v \<le> V" by blast
  have "at_end number_unit w2"
    using s(3) unfolding at_end_def by (cases w2) (auto simp: is_white_def number_unit_def is_digit16_def)
  then have "parseValue (Suc (length s)) D V 0 (t @ w2) 0 = Inr (v, w2, 0 + values_in v)"
    using s v by (intro complete(1)) simp_all
  moreover have "skipWhitespace w2 = []" using skip_white[OF s(3), of "[]"] by (simp add: skipWhitespace_def)
  ultimately show "parse_json D V s = Inr v"
    unfolding parse_json_def s(1) using skip_to[OF s(2) value_text_head[OF s(4)], of w2] by (simp add: s(1))
qed

text \<open>
  C15: The strict parser accepts a body exactly when it is short enough, valid UTF-8 and a JSON text
  of RFC 8259 with optional white space around it, and the value read from it has no duplicate
  member names, no number that overflows a double, no more nesting and no more values than the
  limits allow; the value it returns is the one the text denotes.
\<close>

theorem strict_parser_exact:
  "parseStrictJsonBytes limits bytes = Inr v \<longleftrightarrow>
     length bytes \<le> (case maxBytes limits of None \<Rightarrow> 1048576 | Some m \<Rightarrow> m)
   \<and> (\<exists>w1 t w2. utf8_decode bytes = Some (w1 @ t @ w2)
         \<and> list_all is_white w1 \<and> list_all is_white w2 \<and> value_text v t)
   \<and> strict v \<and> nesting v \<le> (case maxDepth limits of None \<Rightarrow> 64 | Some d \<Rightarrow> d)
   \<and> values_in v \<le> (case maxValues limits of None \<Rightarrow> 20000 | Some n \<Rightarrow> n)"
proof (cases "utf8_decode bytes")
  case None
  then show ?thesis unfolding parseStrictJsonBytes_def by simp
next
  case (Some source)
  then show ?thesis
    unfolding parseStrictJsonBytes_def default_max_bytes_def default_max_depth_def default_max_values_def
    by (auto simp: parse_json_exact fits_def not_less split: option.splits)
qed

text \<open>
  C39: The strict parser always returns a value or one of its two errors: the fuel of the model is
  never used up, whatever the body, so the recursive methods terminate on every input.
\<close>

theorem strict_parser_terminates:
  "parseStrictJsonBytes limits bytes \<noteq> Inl No_Fuel"
proof -
  have "length (skipWhitespace s) < Suc (length s)" for s using skip_length[of s] by simp
  then have "parse_json D V s \<noteq> Inl No_Fuel" for D V s
    using fuel_enough[of "skipWhitespace s" "Suc (length s)" D V 0 0]
    unfolding parse_json_def by (auto split: sum.splits)
  then show ?thesis unfolding parseStrictJsonBytes_def by (auto split: option.splits)
qed

end
