(* ===== verification/Turn_Liveness.thy ===== *)
theory Turn_Liveness
  imports Runs_Queue
begin

text \<open>
  Turn liveness, \<^verbatim>\<open>packages/server/src/gateway/orchestration/turn-liveness.ts\<close>: every dispatched turn
  owes its client a terminal event. The obligation is a marker row in the table of
  \<^verbatim>\<open>Runs_Queue\<close>, on a queue nobody consumes; whoever deletes the marker inserts the terminal row in
  the same transaction. Each exported function is one transaction on \<open>queue_db\<close>; one that throws
  leaves the table as it was and is no step. The JSON column \<^verbatim>\<open>action_input\<close> is \<open>input_json\<close>.
\<close>

section \<open>Data\<close>

record message_json =
  mj_messageId :: "string option"
  mj_channelId :: "string option"
  mj_conversationId :: "string option"
  mj_userId :: "string option"
  mj_teamId :: "string option"
  mj_platform :: "string option"
  mj_platformMetadata :: "string option"
  mj_deploymentName :: "string option"
  mj_organizationId :: "string option"
  mj_error :: "string option"
  mj_processedMessageIds :: "string list option"
  mj_timestamp :: "ms option"

datatype input_json = Object message_json | Not_An_Object

record turn_routing =
  tr_messageId :: string
  tr_channelId :: "string option"
  tr_conversationId :: "string option"
  tr_userId :: "string option"
  tr_platform :: "string option"
  tr_platformMetadata :: "string option"
  tr_deploymentName :: string
  tr_organizationId :: "string option"

type_synonym turn_db = "input_json queue_db"
type_synonym turn_run = "input_json run"

definition turn_timeout_queue :: string where
  "turn_timeout_queue = ''internal:turn_timeout''"

definition thread_response_queue :: string where
  "thread_response_queue = ''thread_response''"

definition default_deadline_ms :: ms where
  "default_deadline_ms = 60000"

definition sweep_limit :: nat where
  "sweep_limit = 200"

text \<open>The object that \<^verbatim>\<open>armTurnTimeout\<close> stores, and the check on the way out.\<close>

definition routing_json :: "turn_routing \<Rightarrow> input_json" where
  "routing_json r = Object \<lparr>mj_messageId = Some (tr_messageId r), mj_channelId = tr_channelId r,
     mj_conversationId = tr_conversationId r, mj_userId = tr_userId r, mj_teamId = None,
     mj_platform = tr_platform r, mj_platformMetadata = tr_platformMetadata r,
     mj_deploymentName = Some (tr_deploymentName r), mj_organizationId = tr_organizationId r,
     mj_error = None, mj_processedMessageIds = None, mj_timestamp = None\<rparr>"

definition asTurnRouting :: "input_json \<Rightarrow> turn_routing option" where
  "asTurnRouting v = (case v of Not_An_Object \<Rightarrow> None
     | Object j \<Rightarrow>
       (case mj_messageId j of None \<Rightarrow> None
        | Some m \<Rightarrow> if m = [] then None
          else (case mj_deploymentName j of None \<Rightarrow> None
            | Some d \<Rightarrow> Some \<lparr>tr_messageId = m, tr_channelId = mj_channelId j,
                tr_conversationId = mj_conversationId j, tr_userId = mj_userId j,
                tr_platform = mj_platform j, tr_platformMetadata = mj_platformMetadata j,
                tr_deploymentName = d, tr_organizationId = mj_organizationId j\<rparr>)))"

definition turnMarkerKey :: "string \<Rightarrow> string \<Rightarrow> string" where
  "turnMarkerKey deploymentName messageId = deploymentName @ '':'' @ messageId"

section \<open>Arming and extending\<close>

definition marker_options :: "ms \<Rightarrow> string \<Rightarrow> queue_options" where
  "marker_options deadlineMs key = \<lparr>qo_singletonKey = Some key, qo_retryLimit = None,
     qo_delayMs = Some deadlineMs, qo_priority = None, qo_retryDelay = None,
     qo_expireInSeconds = None, qo_actionKey = None, qo_durable = False\<rparr>"

definition armTurnTimeout ::
    "queue_process \<Rightarrow> ms \<Rightarrow> turn_routing \<Rightarrow> ms \<Rightarrow> turn_db \<Rightarrow> queue_error + turn_db" where
  "armTurnTimeout p now routing deadlineMs db =
     (case send p now turn_timeout_queue
         \<lparr>qd_organizationId = tr_organizationId routing, qd_body = routing_json routing\<rparr>
         (marker_options deadlineMs (turnMarkerKey (tr_deploymentName routing) (tr_messageId routing))) db of
        Inl e \<Rightarrow> Inl e | Inr (_, db') \<Rightarrow> Inr db')"

definition deployment_of :: "turn_run \<Rightarrow> string option" where
  "deployment_of r = (case r_input r of Not_An_Object \<Rightarrow> None | Object j \<Rightarrow> mj_deploymentName j)"

definition is_marker :: "turn_run \<Rightarrow> bool" where
  "is_marker r \<longleftrightarrow> r_status r = Pending \<and> r_type r = Internal \<and> r_queue r = turn_timeout_queue"

definition extendTurnDeadlines :: "ms \<Rightarrow> string \<Rightarrow> ms \<Rightarrow> turn_db \<Rightarrow> turn_db" where
  "extendTurnDeadlines now deploymentName deadlineMs =
     (let deadlineSec = - ((- deadlineMs) div 1000) in
      update_where (\<lambda>r. is_marker r \<and> deployment_of r = Some deploymentName)
        (\<lambda>r. r\<lparr>r_run_at := now + deadlineSec * 1000\<rparr>))"

section \<open>Terminal rows\<close>

definition terminal_row :: "ms \<Rightarrow> input_json \<Rightarrow> string option \<Rightarrow> nat \<Rightarrow> turn_run" where
  "terminal_row now payload organizationId i =
     \<lparr>r_id = i, r_type = Chat_Message, r_queue = thread_response_queue, r_action_key = None,
      r_input = payload, r_key = None, r_max = 30, r_attempts = 0, r_status = Pending, r_run_at = now,
      r_priority = 0, r_expires = None, r_retry_delay = Some 1, r_org = organizationId,
      r_claimed_at = None, r_claimed_by = None, r_completed_at = None, r_error = None\<rparr>"

definition insertThreadResponseRow ::
    "ms \<Rightarrow> input_json \<Rightarrow> string option \<Rightarrow> turn_db \<Rightarrow> turn_db" where
  "insertThreadResponseRow now payload organizationId db =
     db\<lparr>q_next := Suc (q_next db),
        q_runs := q_runs db @ [terminal_row now payload organizationId (q_next db)]\<rparr>"

definition buildTerminalErrorPayload :: "ms \<Rightarrow> turn_routing \<Rightarrow> string \<Rightarrow> input_json" where
  "buildTerminalErrorPayload now routing reason =
     (let platform = (case tr_platform routing of None \<Rightarrow> ''api'' | Some x \<Rightarrow> x) in
      Object \<lparr>mj_messageId = Some (tr_messageId routing), mj_channelId = tr_channelId routing,
        mj_conversationId = tr_conversationId routing, mj_userId = tr_userId routing,
        mj_teamId = Some platform, mj_platform = Some platform,
        mj_platformMetadata = tr_platformMetadata routing, mj_deploymentName = None,
        mj_organizationId = None, mj_error = Some reason,
        mj_processedMessageIds = Some [tr_messageId routing], mj_timestamp = Some now\<rparr>)"

definition enqueueTerminalError :: "ms \<Rightarrow> turn_routing \<Rightarrow> string \<Rightarrow> turn_db \<Rightarrow> turn_db" where
  "enqueueTerminalError now routing reason db =
     insertThreadResponseRow now (buildTerminalErrorPayload now routing reason)
       (tr_organizationId routing) db"

definition delete_where :: "(turn_run \<Rightarrow> bool) \<Rightarrow> turn_db \<Rightarrow> turn_run list \<times> turn_db" where
  "delete_where P db = (filter P (q_runs db), db\<lparr>q_runs := filter (\<lambda>r. \<not> P r) (q_runs db)\<rparr>)"

fun emit_errors :: "ms \<Rightarrow> string \<Rightarrow> turn_run list \<Rightarrow> turn_db \<Rightarrow> nat \<times> turn_db" where
  "emit_errors now reason [] db = (0, db)"
| "emit_errors now reason (r # rs) db =
     (case asTurnRouting (r_input r) of
        None \<Rightarrow> emit_errors now reason rs db
      | Some routing \<Rightarrow>
          (let (n, db) = emit_errors now reason rs (enqueueTerminalError now routing reason db)
           in (n + 1, db)))"

section \<open>Failing and answering\<close>

definition failTurnsForDeployment :: "ms \<Rightarrow> string \<Rightarrow> string \<Rightarrow> turn_db \<Rightarrow> nat \<times> turn_db" where
  "failTurnsForDeployment now deploymentName reason db =
     (let (rows, db) = delete_where (\<lambda>r. is_marker r \<and> deployment_of r = Some deploymentName) db
      in emit_errors now reason rows db)"

text \<open>The rows the inner \<^verbatim>\<open>SELECT\<close> of the sweep locks: at most 200 of the lapsed markers.\<close>

definition lapsed :: "ms \<Rightarrow> turn_run \<Rightarrow> bool" where
  "lapsed now r \<longleftrightarrow> is_marker r \<and> r_run_at r < now"

definition sweep_ids :: "ms \<Rightarrow> turn_db \<Rightarrow> nat list" where
  "sweep_ids now db = take sweep_limit (map r_id (filter (lapsed now) (q_runs db)))"

definition sweepExpiredTurns :: "ms \<Rightarrow> string \<Rightarrow> turn_db \<Rightarrow> nat \<times> turn_db" where
  "sweepExpiredTurns now reason db =
     (let (rows, db) = delete_where (\<lambda>r. r_id r \<in> set (sweep_ids now db)) db
      in emit_errors now reason rows db)"

definition has_key :: "string \<Rightarrow> turn_run \<Rightarrow> bool" where
  "has_key key r \<longleftrightarrow> r_key r = Some key \<and> r_status r = Pending \<and> r_queue r = turn_timeout_queue"

definition failTurnIfPending ::
    "ms \<Rightarrow> string \<Rightarrow> string \<Rightarrow> string \<Rightarrow> turn_db \<Rightarrow> bool \<times> turn_db" where
  "failTurnIfPending now deploymentName messageId reason db =
     (let (rows, db) = delete_where (has_key (turnMarkerKey deploymentName messageId)) db in
      case (case rows of [] \<Rightarrow> None | r # _ \<Rightarrow> asTurnRouting (r_input r)) of
        None \<Rightarrow> (False, db)
      | Some routing \<Rightarrow> (True, enqueueTerminalError now routing reason db))"

fun discharge :: "string \<Rightarrow> string list \<Rightarrow> turn_db \<Rightarrow> nat \<times> turn_db" where
  "discharge deploymentName [] db = (0, db)"
| "discharge deploymentName (m # ms) db =
     (let (rows, db) = delete_where (has_key (turnMarkerKey deploymentName m)) db;
          (n, db) = discharge deploymentName ms db
      in (length rows + n, db))"

definition commitTerminalReply ::
    "ms \<Rightarrow> string \<Rightarrow> string list \<Rightarrow> input_json \<Rightarrow> string option \<Rightarrow> turn_db \<Rightarrow> bool \<times> turn_db" where
  "commitTerminalReply now deploymentName messageIds replyPayload organizationId db =
     (let (deleted, db) = discharge deploymentName messageIds db in
      if deleted = 0 then (False, db)
      else (True, insertThreadResponseRow now replyPayload organizationId db))"

section \<open>Obligations\<close>

text \<open>The keys of the turns that are still owed a terminal event.\<close>

definition owed :: "turn_db \<Rightarrow> string set" where
  "owed db = {k. \<exists>r \<in> set (q_runs db). has_key k r}"

text \<open>The terminal rows a transaction inserted.\<close>

definition inserted :: "turn_db \<Rightarrow> turn_db \<Rightarrow> turn_run list" where
  "inserted db db' = filter (\<lambda>r. q_next db \<le> r_id r \<and> r_queue r = thread_response_queue) (q_runs db')"

definition marker_rows :: "turn_db \<Rightarrow> turn_run list" where
  "marker_rows db = filter (\<lambda>r. r_queue r = turn_timeout_queue) (q_runs db)"

definition marker_ok :: "turn_run \<Rightarrow> bool" where
  "marker_ok r \<longleftrightarrow> is_marker r \<and> r_expires r = None
     \<and> (\<exists>t. asTurnRouting (r_input r) = Some t
          \<and> r_key r = Some (turnMarkerKey (tr_deploymentName t) (tr_messageId t)))"

definition markers_ok :: "turn_db \<Rightarrow> bool" where
  "markers_ok db \<longleftrightarrow> (\<forall>r \<in> set (marker_rows db). marker_ok r)"

text \<open>
  A step of the queue that leaves the marker queue alone: no worker subscribes to it and only
  \<^verbatim>\<open>armTurnTimeout\<close> sends on it.
\<close>

definition unattended :: "turn_db \<Rightarrow> turn_db \<Rightarrow> bool" where
  "unattended db db' \<longleftrightarrow> (\<forall>r \<in> set (marker_rows db'). r_status r \<noteq> Claimed
     \<and> r_id r \<in> r_id ` set (marker_rows db))"

inductive turn_step :: "input_json queue_system \<Rightarrow> input_json queue_system \<Rightarrow> bool" where
  Arm: "armTurnTimeout p (qs_now s) routing d (qs_db s) = Inr db \<Longrightarrow> tr_messageId routing \<noteq> [] \<Longrightarrow>
     turn_step s (s\<lparr>qs_db := db\<rparr>)"
| Extend: "turn_step s (s\<lparr>qs_db := extendTurnDeadlines (qs_now s) dep d (qs_db s)\<rparr>)"
| Died: "failTurnsForDeployment (qs_now s) dep reason (qs_db s) = (n, db) \<Longrightarrow>
     turn_step s (s\<lparr>qs_db := db\<rparr>)"
| Lapse: "sweepExpiredTurns (qs_now s) reason (qs_db s) = (n, db) \<Longrightarrow> turn_step s (s\<lparr>qs_db := db\<rparr>)"
| Unstarted: "failTurnIfPending (qs_now s) dep m reason (qs_db s) = (b, db) \<Longrightarrow>
     turn_step s (s\<lparr>qs_db := db\<rparr>)"
| Replied: "commitTerminalReply (qs_now s) dep ms payload org (qs_db s) = (b, db) \<Longrightarrow>
     turn_step s (s\<lparr>qs_db := db\<rparr>)"
| Queue: "queue_step s s' \<Longrightarrow> unattended (qs_db s) (qs_db s') \<Longrightarrow> turn_step s s'"

lemma queues_differ: "thread_response_queue \<noteq> turn_timeout_queue"
  unfolding thread_response_queue_def turn_timeout_queue_def by simp

lemma owed_markers: "owed db = {k. \<exists>r \<in> set (marker_rows db). r_key r = Some k \<and> r_status r = Pending}"
  unfolding owed_def marker_rows_def has_key_def by auto

lemma owed_ok: "markers_ok db \<Longrightarrow> owed db = {k. \<exists>r \<in> set (marker_rows db). r_key r = Some k}"
  unfolding owed_markers markers_ok_def marker_ok_def is_marker_def by blast

lemma same_markers: "marker_rows db' = marker_rows db \<Longrightarrow> owed db' = owed db \<and> markers_ok db' = markers_ok db"
  unfolding owed_markers markers_ok_def by simp

lemma marker_rows_update:
  assumes "\<And>r. r \<in> set (marker_rows db) \<Longrightarrow> \<not> P r" "\<And>r. r_queue (f r) = r_queue r"
  shows "marker_rows (update_where P f db) = marker_rows db"
proof -
  have "filter (\<lambda>r. r_queue r = q) (map (\<lambda>r. if P r then f r else r) rs) = filter (\<lambda>r. r_queue r = q) rs"
    if "\<forall>r \<in> set rs. r_queue r = q \<longrightarrow> \<not> P r" for rs q
    using that assms(2) by (induction rs) auto
  then show ?thesis using assms(1) unfolding marker_rows_def update_where_runs by simp
qed

section \<open>What one transaction does\<close>

fun error_rows :: "ms \<Rightarrow> string \<Rightarrow> nat \<Rightarrow> turn_run list \<Rightarrow> turn_run list" where
  "error_rows now reason i [] = []"
| "error_rows now reason i (r # rs) =
     (let t = the (asTurnRouting (r_input r)) in
      terminal_row now (buildTerminalErrorPayload now t reason) (tr_organizationId t) i
        # error_rows now reason (Suc i) rs)"

lemma length_error_rows [simp]: "length (error_rows now reason i rs) = length rs"
  by (induction rs arbitrary: i) (simp_all add: Let_def)

lemma error_rows_fields: "r \<in> set (error_rows now reason i rs) \<Longrightarrow>
    i \<le> r_id r \<and> r_queue r = thread_response_queue"
  by (induction rs arbitrary: i) (auto simp: Let_def terminal_row_def dest!: Suc_leD)

lemma emit_errors_ok:
  "\<forall>r \<in> set rs. marker_ok r \<Longrightarrow> emit_errors now reason rs db
     = (length rs, db\<lparr>q_next := q_next db + length rs,
          q_runs := q_runs db @ error_rows now reason (q_next db) rs\<rparr>)"
proof (induction rs arbitrary: db)
  case (Cons r rs)
  then obtain t where "asTurnRouting (r_input r) = Some t" unfolding marker_ok_def by auto
  then show ?case using Cons by (simp add: enqueueTerminalError_def insertThreadResponseRow_def Let_def)
qed simp

lemma db_inv_filter: "db_inv db \<Longrightarrow> db_inv (db\<lparr>q_runs := filter P (q_runs db)\<rparr>)"
  using keys_ok_mono[of db "db\<lparr>q_runs := filter P (q_runs db)\<rparr>"]
  unfolding db_inv_def ids_ok_def by (auto simp: distinct_map_filter)

lemma terminal_row_fields: "r_id (terminal_row now x org i) = i" "r_key (terminal_row now x org i) = None"
  "claim_fields (terminal_row now x org i)" "attempts_left (terminal_row now x org i)"
  "r_queue (terminal_row now x org i) = thread_response_queue"
  unfolding terminal_row_def by (simp_all add: row_simps)

lemma insert_inv:
  "db_inv db \<Longrightarrow> db_inv (insertThreadResponseRow now x org db)"
  by (rule db_inv_append[of db "terminal_row now x org (q_next db)"])
    (simp_all add: insertThreadResponseRow_def terminal_row_fields)

lemma emit_cons: "snd (emit_errors now reason (r # rs) db) = (case asTurnRouting (r_input r) of
      None \<Rightarrow> snd (emit_errors now reason rs db)
    | Some t \<Rightarrow> snd (emit_errors now reason rs (enqueueTerminalError now t reason db)))"
  by (simp add: Let_def case_prod_beta split: option.split)

lemma emit_inv: "db_inv db \<Longrightarrow> db_inv (snd (emit_errors now reason rs db))"
  by (induction rs arbitrary: db)
    (simp_all add: enqueueTerminalError_def insert_inv emit_cons del: emit_errors.simps(2) split: option.split)

lemma marker_rows_insert: "marker_rows (insertThreadResponseRow now x org db) = marker_rows db"
  using queues_differ unfolding marker_rows_def insertThreadResponseRow_def by (simp add: terminal_row_fields)

lemma marker_rows_emit: "marker_rows (snd (emit_errors now reason rs db)) = marker_rows db"
  by (induction rs arbitrary: db)
    (simp_all add: enqueueTerminalError_def marker_rows_insert emit_cons del: emit_errors.simps(2) split: option.split)

text \<open>Deleting rows of the marker queue discharges exactly their keys, each row another key.\<close>

lemma distinct_keys:
  assumes "db_inv db" "markers_ok db" "a \<in> set (marker_rows db)" "b \<in> set (marker_rows db)" "r_key a = r_key b"
  shows "a = b"
proof -
  have m: "a \<in> set (q_runs db)" "b \<in> set (q_runs db)" "marker_ok a" "marker_ok b"
    using assms(2-4) unfolding markers_ok_def marker_rows_def by auto
  then have "is_active a" "is_active b" "r_key a \<noteq> None"
    unfolding marker_ok_def is_marker_def is_active_def by auto
  moreover have "keys_ok db" using assms(1) unfolding db_inv_def by blast
  ultimately have "r_id a = r_id b" using m(1,2) assms(5) unfolding keys_ok_def by metis
  then show ?thesis using m(1,2) assms(1) unfolding db_inv_def ids_ok_def
    by (meson eq_key_imp_eq_value distinct_map inj_onD)
qed

lemma deleted_obligations:
  assumes "db_inv db" "markers_ok db" "delete_where P db = (rows, db1)"
    "\<forall>r \<in> set rows. r_queue r = turn_timeout_queue"
  shows "owed db - owed db1 = (\<lambda>r. the (r_key r)) ` set rows" "owed db1 \<subseteq> owed db"
    "card (owed db - owed db1) = length rows" "\<forall>r \<in> set rows. marker_ok r" "markers_ok db1"
proof -
  have rows: "rows = filter P (q_runs db)" and runs: "q_runs db1 = filter (\<lambda>r. \<not> P r) (q_runs db)"
    using assms(3) unfolding delete_where_def by auto
  have rm: "set rows = {r \<in> set (marker_rows db). P r}"
    using assms(4) rows unfolding marker_rows_def by auto
  have m1: "set (marker_rows db1) = {r \<in> set (marker_rows db). \<not> P r}"
    using runs unfolding marker_rows_def by auto
  show ok: "\<forall>r \<in> set rows. marker_ok r" "markers_ok db1"
    using assms(2) rm m1 unfolding markers_ok_def by auto
  note o = owed_ok[OF assms(2)] owed_ok[OF ok(2)]
  show "owed db1 \<subseteq> owed db" unfolding o m1 by auto
  have key: "r_key r = Some (the (r_key r))" if "r \<in> set (marker_rows db)" for r
    using that assms(2) unfolding markers_ok_def marker_ok_def by fastforce
  show gone: "owed db - owed db1 = (\<lambda>r. the (r_key r)) ` set rows"
  proof (intro set_eqI iffI)
    fix k assume "k \<in> owed db - owed db1"
    then obtain r where "r \<in> set (marker_rows db)" "r_key r = Some k" "P r" unfolding o m1 by auto
    then show "k \<in> (\<lambda>r. the (r_key r)) ` set rows" unfolding rm by force
  next
    fix k assume "k \<in> (\<lambda>r. the (r_key r)) ` set rows"
    then obtain r where r: "r \<in> set (marker_rows db)" "P r" "r_key r = Some k" unfolding rm using key by auto
    have "\<not> (\<exists>q \<in> set (marker_rows db1). r_key q = Some k)"
      using distinct_keys[OF assms(1,2) r(1)] r(2,3) unfolding m1 by auto
    then show "k \<in> owed db - owed db1" unfolding o using r by auto
  qed
  have "inj_on (\<lambda>r. the (r_key r)) (set rows)"
  proof (rule inj_onI)
    fix a b assume ab: "a \<in> set rows" "b \<in> set rows" "the (r_key a) = the (r_key b)"
    then have "a \<in> set (marker_rows db)" "b \<in> set (marker_rows db)" unfolding rm by auto
    then show "a = b" using distinct_keys[OF assms(1,2)] key ab(3) by metis
  qed
  moreover have "distinct rows" using assms(1) unfolding rows db_inv_def ids_ok_def
    by (simp add: distinct_map)
  ultimately show "card (owed db - owed db1) = length rows"
    unfolding gone by (simp add: card_image distinct_card)
qed

text \<open>\<open>errors_for reason ks rows\<close>: one of the \<open>rows\<close> is the terminal error of each key.\<close>

definition error_for :: "string \<Rightarrow> string \<Rightarrow> turn_run \<Rightarrow> bool" where
  "error_for reason k row \<longleftrightarrow> (\<exists>d m j. k = turnMarkerKey d m \<and> r_input row = Object j
     \<and> mj_messageId j = Some m \<and> mj_processedMessageIds j = Some [m] \<and> mj_error j = Some reason
     \<and> mj_platform j \<noteq> None)"

lemma error_row_for:
  assumes "r \<in> set rs" "\<forall>r \<in> set rs. marker_ok r"
  shows "\<exists>row \<in> set (error_rows now reason i rs). error_for reason (the (r_key r)) row"
  using assms
proof (induction rs arbitrary: i)
  case (Cons x rs)
  show ?case
  proof (cases "r = x")
    case True
    obtain t where t: "asTurnRouting (r_input x) = Some t"
      "r_key x = Some (turnMarkerKey (tr_deploymentName t) (tr_messageId t))"
      using Cons(3) unfolding marker_ok_def by auto
    then have "error_for reason (the (r_key x))
        (terminal_row now (buildTerminalErrorPayload now t reason) (tr_organizationId t) i)"
      unfolding error_for_def terminal_row_def buildTerminalErrorPayload_def Let_def by auto
    then show ?thesis using True t by (simp add: Let_def)
  next
    case False
    then have "\<exists>row \<in> set (error_rows now reason (Suc i) rs). error_for reason (the (r_key r)) row"
      using Cons by simp
    then show ?thesis by (auto simp: Let_def)
  qed
qed simp

lemma inserted_append:
  assumes "\<forall>r \<in> set (q_runs db). r_id r < q_next db" "q_runs db' = filter P (q_runs db) @ rows"
    "\<forall>r \<in> set rows. q_next db \<le> r_id r \<and> r_queue r = thread_response_queue"
  shows "inserted db db' = rows"
proof -
  have "filter (\<lambda>r. q_next db \<le> r_id r \<and> r_queue r = thread_response_queue) (filter P (q_runs db)) = []"
    using assms(1) by (auto simp: filter_empty_conv)
  moreover have "filter (\<lambda>r. q_next db \<le> r_id r \<and> r_queue r = thread_response_queue) rows = rows"
    using assms(3) by (simp add: filter_True)
  ultimately show ?thesis unfolding inserted_def assms(2) by simp
qed

lemma errors_effect:
  assumes "db_inv db" "markers_ok db" "delete_where P db = (rows, db1)"
    "\<forall>r \<in> set rows. r_queue r = turn_timeout_queue" "emit_errors now reason rows db1 = (n, db')"
  shows "n = length rows" "inserted db db' = error_rows now reason (q_next db) rows"
    "owed db' \<subseteq> owed db" "owed db - owed db' = (\<lambda>r. the (r_key r)) ` set rows"
    "card (owed db - owed db') = n" "markers_ok db'" "db_inv db'"
    "\<forall>k \<in> owed db - owed db'. \<exists>row \<in> set (inserted db db'). error_for reason k row"
proof -
  note del = deleted_obligations[OF assms(1-4)]
  note em = emit_errors_ok[OF del(4), of now reason db1]
  have db1: "q_runs db1 = filter (\<lambda>r. \<not> P r) (q_runs db)" "q_next db1 = q_next db"
    using assms(3) unfolding delete_where_def by auto
  show n: "n = length rows" using em assms(5) by simp
  show ins: "inserted db db' = error_rows now reason (q_next db) rows"
    by (rule inserted_append[where P = "\<lambda>r. \<not> P r"])
      (use assms(1,5) em db1 error_rows_fields in \<open>auto simp: db_inv_def ids_ok_def\<close>)
  have "marker_rows db' = marker_rows db1" using marker_rows_emit[of now reason rows db1] assms(5) by simp
  note same = same_markers[OF this]
  show "owed db' \<subseteq> owed db" "owed db - owed db' = (\<lambda>r. the (r_key r)) ` set rows"
    "card (owed db - owed db') = n" "markers_ok db'"
    using del same n by simp_all
  have "db1 = db\<lparr>q_runs := filter (\<lambda>r. \<not> P r) (q_runs db)\<rparr>"
    using assms(3) unfolding delete_where_def by simp
  then show "db_inv db'" using emit_inv[of db1 now reason rows] db_inv_filter[OF assms(1)] assms(5) by simp
  show "\<forall>k \<in> owed db - owed db'. \<exists>row \<in> set (inserted db db'). error_for reason k row"
    using error_row_for[OF _ del(4)] del(1) same unfolding ins by auto
qed

lemma ids_same: "db_inv db \<Longrightarrow> a \<in> set (q_runs db) \<Longrightarrow> b \<in> set (q_runs db) \<Longrightarrow> r_id a = r_id b \<Longrightarrow> a = b"
  unfolding db_inv_def ids_ok_def by (meson eq_key_imp_eq_value distinct_map inj_onD)

lemma sweep_ids_lapsed:
  assumes "db_inv db" "r \<in> set (q_runs db)" "r_id r \<in> set (sweep_ids now db)"
  shows "lapsed now r"
proof -
  obtain q where "q \<in> set (q_runs db)" "lapsed now q" "r_id q = r_id r"
    using assms(3) unfolding sweep_ids_def by (auto dest!: in_set_takeD)
  then show ?thesis using ids_same[OF assms(1)] assms(2) by metis
qed

lemma died_delete:
  assumes "failTurnsForDeployment now dep reason db = (n, db')"
  obtains rows db1 where "delete_where (\<lambda>r. is_marker r \<and> deployment_of r = Some dep) db = (rows, db1)"
    "emit_errors now reason rows db1 = (n, db')" "\<forall>r \<in> set rows. r_queue r = turn_timeout_queue"
proof -
  let ?P = "\<lambda>r. is_marker r \<and> deployment_of r = Some dep"
  have "\<forall>r \<in> set (fst (delete_where ?P db)). r_queue r = turn_timeout_queue"
    unfolding delete_where_def is_marker_def by auto
  then show thesis using assms that[of "fst (delete_where ?P db)" "snd (delete_where ?P db)"]
    unfolding failTurnsForDeployment_def by (simp add: case_prod_beta)
qed

lemma lapse_delete:
  assumes "sweepExpiredTurns now reason db = (n, db')" "db_inv db"
  obtains rows db1 where "delete_where (\<lambda>r. r_id r \<in> set (sweep_ids now db)) db = (rows, db1)"
    "emit_errors now reason rows db1 = (n, db')" "\<forall>r \<in> set rows. r_queue r = turn_timeout_queue"
proof -
  let ?P = "\<lambda>r. r_id r \<in> set (sweep_ids now db)"
  have "\<forall>r \<in> set (fst (delete_where ?P db)). r_queue r = turn_timeout_queue"
    using sweep_ids_lapsed[OF assms(2)] unfolding delete_where_def lapsed_def is_marker_def by auto
  then show thesis using assms that[of "fst (delete_where ?P db)" "snd (delete_where ?P db)"]
    unfolding sweepExpiredTurns_def by (simp add: case_prod_beta)
qed

lemma discharge_delete:
  "discharge dep ms db = (let P = (\<lambda>r. \<exists>m \<in> set ms. has_key (turnMarkerKey dep m) r) in
     (length (fst (delete_where P db)), snd (delete_where P db)))"
proof (induction ms arbitrary: db)
  case Nil then show ?case by (simp add: delete_where_def)
next
  case (Cons m ms)
  have split: "length (filter A xs) + length (filter B (filter (\<lambda>x. \<not> A x) xs)) = length (filter (\<lambda>x. A x \<or> B x) xs)"
    for A B and xs :: "turn_run list" by (induction xs) auto
  have "filter (\<lambda>x. \<not> B x) (filter (\<lambda>x. \<not> A x) xs) = filter (\<lambda>x. \<not> (A x \<or> B x)) xs"
    for A B and xs :: "turn_run list" by (induction xs) auto
  then show ?case using Cons split by (simp add: delete_where_def Let_def)
qed

lemma reply_effect:
  assumes "db_inv db" "markers_ok db" "commitTerminalReply now dep ms payload org db = (b, db')"
  shows "owed db' = owed db - turnMarkerKey dep ` set ms" "b \<longleftrightarrow> owed db' \<noteq> owed db"
    "inserted db db' = (if b then [terminal_row now payload org (q_next db)] else [])"
    "markers_ok db'" "db_inv db'"
proof -
  let ?P = "\<lambda>r. \<exists>m \<in> set ms. has_key (turnMarkerKey dep m) r"
  obtain rows db1 where d: "delete_where ?P db = (rows, db1)" by fastforce
  have run: "discharge dep ms db = (length rows, db1)" unfolding discharge_delete Let_def d by simp
  have db1: "db1 = db\<lparr>q_runs := filter (\<lambda>r. \<not> ?P r) (q_runs db)\<rparr>" and rows: "rows = filter ?P (q_runs db)"
    using d unfolding delete_where_def by simp_all
  have "\<forall>r \<in> set rows. r_queue r = turn_timeout_queue"
    unfolding rows has_key_def by auto
  note del = deleted_obligations[OF assms(1,2) d this]
  have o1: "owed db1 = owed db - turnMarkerKey dep ` set ms"
    unfolding owed_def db1 has_key_def by fastforce
  have db': "b = (rows \<noteq> [])" "db' = (if rows = [] then db1 else insertThreadResponseRow now payload org db1)"
    using assms(3) run unfolding commitTerminalReply_def by (auto split: if_splits)
  have mr: "marker_rows db' = marker_rows db1" unfolding db'(2) by (simp add: marker_rows_insert)
  note same = same_markers[OF mr]
  show "owed db' = owed db - turnMarkerKey dep ` set ms" "markers_ok db'" using same o1 del(5) by simp_all
  show "b \<longleftrightarrow> owed db' \<noteq> owed db" using db'(1) same del(1,2) by auto
  have "inserted db db' = (if b then [terminal_row now payload org (q_next db)] else [])"
    if "q_runs db' = filter (\<lambda>r. \<not> ?P r) (q_runs db) @ (if b then [terminal_row now payload org (q_next db)] else [])"
    by (rule inserted_append[OF _ that])
      (use assms(1) in \<open>auto simp: db_inv_def ids_ok_def terminal_row_fields\<close>)
  then show "inserted db db' = (if b then [terminal_row now payload org (q_next db)] else [])"
    unfolding db'(2) using db'(1) by (simp add: insertThreadResponseRow_def db1)
  show "db_inv db'" unfolding db'(2) using db_inv_filter[OF assms(1), of "\<lambda>r. \<not> ?P r"] db1 insert_inv by simp
qed

lemma single_effect:
  assumes "db_inv db" "markers_ok db" "failTurnIfPending now dep m reason db = (b, db')"
  shows "owed db' = owed db - {turnMarkerKey dep m}" "b \<longleftrightarrow> turnMarkerKey dep m \<in> owed db"
    "length (inserted db db') = (if b then 1 else 0)"
    "\<forall>row \<in> set (inserted db db'). error_for reason (turnMarkerKey dep m) row"
    "markers_ok db'" "db_inv db'"
proof -
  let ?k = "turnMarkerKey dep m"
  obtain rows db1 where d: "delete_where (has_key ?k) db = (rows, db1)" by fastforce
  have db1: "db1 = db\<lparr>q_runs := filter (\<lambda>r. \<not> has_key ?k r) (q_runs db)\<rparr>" and rows: "rows = filter (has_key ?k) (q_runs db)"
    using d unfolding delete_where_def by simp_all
  have "\<forall>r \<in> set rows. r_queue r = turn_timeout_queue"
    unfolding rows has_key_def by auto
  note del = deleted_obligations[OF assms(1,2) d this]
  have o1: "owed db1 = owed db - {?k}" unfolding owed_def db1 has_key_def by auto
  have k: "?k \<in> owed db \<longleftrightarrow> rows \<noteq> []" unfolding owed_def rows by (auto simp: filter_empty_conv)
  note inv1 = db_inv_filter[OF assms(1), of "\<lambda>r. \<not> has_key ?k r", folded db1]
  have "owed db' = owed db - {?k} \<and> (b \<longleftrightarrow> ?k \<in> owed db) \<and> length (inserted db db') = (if b then 1 else 0)
    \<and> (\<forall>row \<in> set (inserted db db'). error_for reason ?k row) \<and> markers_ok db' \<and> db_inv db'"
  proof (cases rows)
    case Nil
    then have "b = False" "db' = db1" using assms(3) d unfolding failTurnIfPending_def by simp_all
    moreover have "inserted db db1 = []"
      by (rule inserted_append[where P = "\<lambda>r. \<not> has_key ?k r"])
        (use assms(1) db1 in \<open>auto simp: db_inv_def ids_ok_def\<close>)
    ultimately show ?thesis using o1 k Nil del(5) inv1 by simp
  next
    case (Cons r rest)
    then have "r \<in> set rows" by simp
    then have "marker_ok r" "r_key r = Some ?k" using del(4) unfolding rows has_key_def by auto
    then obtain t where t: "asTurnRouting (r_input r) = Some t" "r_key r = Some ?k"
      "r_key r = Some (turnMarkerKey (tr_deploymentName t) (tr_messageId t))"
      unfolding marker_ok_def by blast
    have b: "b = True" and db': "db' = enqueueTerminalError now t reason db1"
      using assms(3) d t(1) Cons unfolding failTurnIfPending_def by simp_all
    let ?row = "terminal_row now (buildTerminalErrorPayload now t reason) (tr_organizationId t) (q_next db)"
    have ins: "inserted db db' = [?row]"
      by (rule inserted_append[where P = "\<lambda>r. \<not> has_key ?k r"])
        (use assms(1) in \<open>auto simp: db' db1 enqueueTerminalError_def insertThreadResponseRow_def
           db_inv_def ids_ok_def terminal_row_fields\<close>)
    have "error_for reason (turnMarkerKey (tr_deploymentName t) (tr_messageId t)) ?row"
      unfolding error_for_def terminal_row_def buildTerminalErrorPayload_def Let_def by auto
    then have "error_for reason ?k ?row" using t by simp
    moreover have "marker_rows db' = marker_rows db1" unfolding db' enqueueTerminalError_def by (rule marker_rows_insert)
    note same = same_markers[OF this]
    ultimately show ?thesis using b ins same o1 k Cons del(5) insert_inv[OF inv1] db'
      by (simp add: enqueueTerminalError_def)
  qed
  then show "owed db' = owed db - {?k}" "b \<longleftrightarrow> ?k \<in> owed db" "length (inserted db db') = (if b then 1 else 0)"
    "\<forall>row \<in> set (inserted db db'). error_for reason ?k row" "markers_ok db'" "db_inv db'" by blast+
qed

lemma owed_alt: "owed db = {k. \<not> (\<forall>r \<in> set (q_runs db). \<not> has_key k r)}"
  unfolding owed_def by blast

lemma markers_all: "markers_ok db \<longleftrightarrow> (\<forall>r \<in> set (q_runs db). r_queue r = turn_timeout_queue \<longrightarrow> marker_ok r)"
  unfolding markers_ok_def marker_rows_def by auto

interpretation extend_row: row_update "\<lambda>r. is_marker r \<and> deployment_of r = Some dep"
    "\<lambda>r. r\<lparr>r_run_at := t\<rparr>" for dep t
  by unfold_locales (simp_all add: row_simps is_marker_def)

lemma extend_effect:
  assumes "db_inv db" "markers_ok db"
  shows "db_inv (extendTurnDeadlines now dep d db)" "markers_ok (extendTurnDeadlines now dep d db)"
    "owed (extendTurnDeadlines now dep d db) = owed db"
proof -
  show "db_inv (extendTurnDeadlines now dep d db)" unfolding extendTurnDeadlines_def Let_def
    by (rule extend_row.keeps_inv[OF assms(1)]) (simp add: row_simps)
  show "markers_ok (extendTurnDeadlines now dep d db)"
    using assms(2) unfolding extendTurnDeadlines_def Let_def markers_all all_update_where
    by (simp add: marker_ok_def is_marker_def)
  show "owed (extendTurnDeadlines now dep d db) = owed db"
  proof -
    have "has_key k (if c then r\<lparr>r_run_at := t\<rparr> else r) = has_key k r" for k c r t
      by (simp add: has_key_def)
    then show ?thesis unfolding extendTurnDeadlines_def Let_def owed_alt all_update_where by simp
  qed
qed

lemma marker_run_ok: "tr_messageId t \<noteq> [] \<Longrightarrow> marker_ok (new_run now turn_timeout_queue
    \<lparr>qd_organizationId = o', qd_body = routing_json t\<rparr> (marker_options d (turnMarkerKey (tr_deploymentName t) (tr_messageId t))) org i)"
proof -
  have "classifyQueue turn_timeout_queue = Internal"
    unfolding turn_timeout_queue_def by code_simp
  then show "tr_messageId t \<noteq> [] \<Longrightarrow> ?thesis"
    unfolding marker_ok_def is_marker_def new_run_def marker_options_def routing_json_def asTurnRouting_def by simp
qed

lemma arm_effect:
  assumes "armTurnTimeout p now t d db = Inr db'" "markers_ok db" "tr_messageId t \<noteq> []"
  shows "markers_ok db'"
    "owed db' = insert (turnMarkerKey (tr_deploymentName t) (tr_messageId t)) (owed db)
     \<or> owed db' = owed db \<and> (\<exists>r \<in> set (q_runs db). is_active r
         \<and> r_key r = Some (turnMarkerKey (tr_deploymentName t) (tr_messageId t)))"
    "\<exists>x. sendWithDisposition p now turn_timeout_queue
         \<lparr>qd_organizationId = tr_organizationId t, qd_body = routing_json t\<rparr>
         (marker_options d (turnMarkerKey (tr_deploymentName t) (tr_messageId t))) db = Inr (x, db')"
proof -
  let ?o = "marker_options d (turnMarkerKey (tr_deploymentName t) (tr_messageId t))"
  let ?data = "\<lparr>qd_organizationId = tr_organizationId t, qd_body = routing_json t\<rparr>"
  obtain x where x: "sendWithDisposition p now turn_timeout_queue ?data ?o db = Inr (x, db')"
    using assms(1) unfolding armTurnTimeout_def send_def by (auto split: sum.splits)
  then show "\<exists>x. sendWithDisposition p now turn_timeout_queue ?data ?o db = Inr (x, db')" by blast
  show "markers_ok db'"
    using sendWithDisposition_db[OF x] assms(2) marker_run_ok[OF assms(3)] unfolding markers_all by auto
  have "q_runs db' = q_runs db \<and> key_taken (qo_singletonKey ?o) db
    \<or> (\<exists>org. q_runs db' = q_runs db @ [new_run now turn_timeout_queue ?data ?o org (q_next db)])"
    using x unfolding sendWithDisposition_def insert_or_join_def insert_run_def set_receipt_run_def
    by (auto simp: Let_def marker_options_def split: if_splits option.splits)
  then show "owed db' = insert (turnMarkerKey (tr_deploymentName t) (tr_messageId t)) (owed db)
     \<or> owed db' = owed db \<and> (\<exists>r \<in> set (q_runs db). is_active r
         \<and> r_key r = Some (turnMarkerKey (tr_deploymentName t) (tr_messageId t)))"
  proof
    assume "q_runs db' = q_runs db \<and> key_taken (qo_singletonKey ?o) db"
    then show ?thesis unfolding owed_def key_taken_def marker_options_def by (auto simp: list_ex_iff)
  next
    assume "\<exists>org. q_runs db' = q_runs db @ [new_run now turn_timeout_queue ?data ?o org (q_next db)]"
    then show ?thesis unfolding owed_def has_key_def by (auto simp: new_run_def marker_options_def)
  qed
qed

section \<open>Every step\<close>

text \<open>Rows of a later table are rows of the earlier one or newer than all of them.\<close>

definition grows :: "turn_db \<Rightarrow> turn_db \<Rightarrow> bool" where
  "grows db db' \<longleftrightarrow> q_next db \<le> q_next db'
     \<and> (\<forall>r \<in> set (q_runs db'). r \<in> set (q_runs db) \<or> q_next db \<le> r_id r)"

lemma grows_trans: "grows a b \<Longrightarrow> grows b c \<Longrightarrow> grows a c"
  unfolding grows_def by (meson le_trans)

lemma grows_delete: "grows db (snd (delete_where P db))"
  unfolding grows_def delete_where_def by auto

lemma grows_insert: "grows db (insertThreadResponseRow now x org db)"
  unfolding grows_def insertThreadResponseRow_def by (auto simp: terminal_row_fields)

lemma grows_refl: "grows db db"
  unfolding grows_def by auto

lemma grows_emit: "grows db (snd (emit_errors now reason rs db))"
  by (induction rs arbitrary: db)
    (auto simp: enqueueTerminalError_def emit_cons grows_refl simp del: emit_errors.simps(2)
      split: option.split intro: grows_trans[OF grows_insert])

lemma grows_discharge: "grows db (snd (discharge dep ms db))"
  unfolding discharge_delete Let_def by (simp add: grows_delete)

lemma grows_held: "grows db db' \<Longrightarrow> held_ok db h \<Longrightarrow> held_ok db' h"
  unfolding grows_def held_ok_def by (metis less_le_trans not_le)

lemma ops_grow:
  "failTurnsForDeployment now dep reason db = (n, db') \<Longrightarrow> grows db db'"
  "sweepExpiredTurns now reason db = (n, db') \<Longrightarrow> grows db db'"
  "failTurnIfPending now dep m reason db = (b, db') \<Longrightarrow> grows db db'"
  "commitTerminalReply now dep ms payload org db = (b, db') \<Longrightarrow> grows db db'"
proof -
  note t = grows_trans[OF grows_delete grows_emit] grows_trans[OF grows_delete grows_insert]
    grows_trans[OF grows_discharge grows_insert]
  show "failTurnsForDeployment now dep reason db = (n, db') \<Longrightarrow> grows db db'"
    unfolding failTurnsForDeployment_def case_prod_beta Let_def
    by (drule arg_cong[where f = snd], drule sym) (simp add: t(1))
  show "sweepExpiredTurns now reason db = (n, db') \<Longrightarrow> grows db db'"
    unfolding sweepExpiredTurns_def case_prod_beta Let_def
    by (drule arg_cong[where f = snd], drule sym) (simp add: t(1))
  show "failTurnIfPending now dep m reason db = (b, db') \<Longrightarrow> grows db db'"
    unfolding failTurnIfPending_def case_prod_beta Let_def enqueueTerminalError_def
    by (auto simp: t(2) grows_delete split: option.splits)
  show "commitTerminalReply now dep ms payload org db = (b, db') \<Longrightarrow> grows db db'"
    unfolding commitTerminalReply_def case_prod_beta Let_def
    by (auto simp: t(3) grows_discharge split: if_splits)
qed

text \<open>What \<^verbatim>\<open>RunsQueue\<close> does to other queues leaves the markers alone.\<close>

lemma marker_facts: "markers_ok db \<Longrightarrow> r \<in> set (marker_rows db) \<Longrightarrow>
    r_status r = Pending \<and> r_expires r = None"
  unfolding markers_ok_def marker_ok_def is_marker_def by blast

lemma unclaimed_update:
  assumes "markers_ok db" "\<And>r. P r \<Longrightarrow> r_status r \<noteq> Pending" "\<And>r. r_queue (f r) = r_queue r"
  shows "marker_rows (update_where P f db) = marker_rows db"
  using marker_rows_update[of db P f] marker_facts[OF assms(1)] assms(2,3) by blast

lemma settle_markers: "markers_ok db \<Longrightarrow> marker_rows (runHandler p now x outcome db) = marker_rows db"
  unfolding runHandler_def markCompleted_def markFailed_def scheduleRetry_def Let_def
  by (auto split: option.split intro!: unclaimed_update simp: owned_def)

lemma retention_markers:
  assumes "markers_ok db"
  shows "marker_rows (snd (sweepCompletedRuns e f c now db)) = marker_rows db"
proof -
  have "\<not> expired_run now r \<and> \<not> aged_run now d r \<and> \<not> aged_failed now d' r"
    if "r \<in> set (q_runs db)" "r_queue r = turn_timeout_queue" for r d d'
    using marker_facts[OF assms, of r] that
    unfolding marker_rows_def expired_run_def aged_run_def aged_failed_def by auto
  then show ?thesis unfolding marker_rows_def sweepCompletedRuns_def Let_def
    by (auto simp: filter_filter intro!: filter_cong)
qed

lemma queue_step_markers:
  assumes "queue_step s s'" "unattended (qs_db s) (qs_db s')" "markers_ok (qs_db s)" "ids_ok (qs_db s)"
  shows "marker_rows (qs_db s') = marker_rows (qs_db s)"
  using assms
proof (induction rule: queue_step.induct)
  case (Enqueue p s queueName data opts d db)
  from sendWithDisposition_db[OF Enqueue(1)] show ?case
  proof
    assume "q_runs db = q_runs (qs_db s) \<and> q_next db = q_next (qs_db s)"
    then show ?case unfolding marker_rows_def by simp
  next
    assume "\<exists>org. \<not> key_taken (qo_singletonKey opts) (qs_db s)
       \<and> q_runs db = q_runs (qs_db s) @ [new_run (qs_now s) queueName data opts org (q_next (qs_db s))]
       \<and> q_next db = Suc (q_next (qs_db s))"
    then obtain org where r: "q_runs db = q_runs (qs_db s)
        @ [new_run (qs_now s) queueName data opts org (q_next (qs_db s))]" by blast
    have "queueName \<noteq> turn_timeout_queue"
    proof
      assume "queueName = turn_timeout_queue"
      then have "new_run (qs_now s) queueName data opts org (q_next (qs_db s)) \<in> set (marker_rows db)"
        unfolding marker_rows_def r by (simp add: new_run_def)
      then have "r_id (new_run (qs_now s) queueName data opts org (q_next (qs_db s)))
          \<in> r_id ` set (marker_rows (qs_db s))"
        using Enqueue(2) unfolding unattended_def by simp
      then have "q_next (qs_db s) \<in> r_id ` set (marker_rows (qs_db s))" by (simp add: new_run_fields)
      then show False using Enqueue(4) unfolding marker_rows_def ids_ok_def by auto
    qed
    then show ?case unfolding marker_rows_def by (simp add: r new_run_def)
  qed
next
  case (Claim p s w r db)
  note row = claimOne_row[OF Claim(1,4)]
  let ?P = "\<lambda>q. r_id q = r_id r \<and> r_status q = Pending"
  have "\<not> ?P q" if "q \<in> set (marker_rows (qs_db s))" for q
  proof
    assume "?P q"
    have "q\<lparr>r_status := Claimed, r_claimed_at := Some (qs_now s), r_claimed_by := Some (qp_claimedBy p)\<rparr>
        \<in> set (marker_rows db)"
      using row_hit[of q "qs_db s" ?P, OF _ \<open>?P q\<close>] that unfolding row marker_rows_def by auto
    then show False using Claim(2) unfolding unattended_def by fastforce
  qed
  then show ?case unfolding row by (simp add: marker_rows_update)
next
  case (Heartbeat p r s)
  then have "marker_rows (heartbeatClaim p (qs_now s) (r_id r) (qs_db s)) = marker_rows (qs_db s)"
    unfolding heartbeatClaim_def by (intro unclaimed_update) (auto simp: owned_def)
  then show ?case by simp
next
  case (Settle p r s outcome)
  then show ?case by (simp add: settle_markers)
next
  case (Sweep s)
  then have "marker_rows (staleSweep (qs_now s) (qs_db s)) = marker_rows (qs_db s)"
    unfolding staleSweep_def by (intro unclaimed_update) (auto simp: release_def)
  then show ?case by simp
next
  case (Startup s p)
  have "marker_rows (recoverStaleClaimedRowsOnStartup now db) = marker_rows db" if "markers_ok db" for now and db :: turn_db
    unfolding recoverStaleClaimedRowsOnStartup_def by (rule unclaimed_update[OF that]) (auto simp: release_def)
  then show ?case using Startup unfolding start_def by simp
next
  case (Shutdown s p)
  then have "marker_rows (snd (stop (p, qs_db s))) = marker_rows (qs_db s)"
    unfolding stop_def prod.case snd_conv by (intro unclaimed_update) (auto simp: release_def)
  then show ?case by simp
next
  case (Retention s e f c)
  then show ?case by (simp add: retention_markers)
qed simp_all

definition turn_ok :: "input_json queue_system \<Rightarrow> bool" where
  "turn_ok s \<longleftrightarrow> queue_inv s \<and> markers_ok (qs_db s)"

lemma turn_okI: "turn_ok s \<Longrightarrow> db_inv db \<Longrightarrow> grows (qs_db s) db \<Longrightarrow> markers_ok db \<Longrightarrow> turn_ok (s\<lparr>qs_db := db\<rparr>)"
  unfolding turn_ok_def using queue_inv_db[of s db] grows_held by auto

lemma turn_step_ok: "turn_step s s' \<Longrightarrow> turn_ok s \<Longrightarrow> turn_ok s'"
proof (induction rule: turn_step.induct)
  case (Arm p s routing d db)
  then have ok: "markers_ok (qs_db s)" "queue_inv s" unfolding turn_ok_def by auto
  obtain x where x: "sendWithDisposition p (qs_now s) turn_timeout_queue
      \<lparr>qd_organizationId = tr_organizationId routing, qd_body = routing_json routing\<rparr>
      (marker_options d (turnMarkerKey (tr_deploymentName routing) (tr_messageId routing))) (qs_db s) = Inr (x, db)"
    using arm_effect(3)[OF Arm(1) ok(1) Arm(2)] by blast
  from step_inv[OF Enqueue[OF x] ok(2)] arm_effect(1)[OF Arm(1) ok(1) Arm(2)]
  show ?case unfolding turn_ok_def by simp
next
  case (Extend s dep d)
  then have "db_inv (qs_db s)" "markers_ok (qs_db s)" unfolding turn_ok_def queue_inv_def by auto
  moreover have "held_ok (qs_db s) h \<Longrightarrow> held_ok (extendTurnDeadlines (qs_now s) dep d (qs_db s)) h" for h
    unfolding extendTurnDeadlines_def Let_def by (rule max_kept[OF extend_row.row_update_axioms])
  ultimately show ?case using Extend extend_effect queue_inv_db[of s] unfolding turn_ok_def by simp
next
  case (Died s dep reason n db)
  then have ok: "db_inv (qs_db s)" "markers_ok (qs_db s)" unfolding turn_ok_def queue_inv_def by auto
  from Died(1) obtain rows db1 where "delete_where (\<lambda>r. is_marker r \<and> deployment_of r = Some dep) (qs_db s) = (rows, db1)"
    "emit_errors (qs_now s) reason rows db1 = (n, db)" "\<forall>r \<in> set rows. r_queue r = turn_timeout_queue"
    using died_delete by blast
  from errors_effect(6,7)[OF ok this(1,3,2)] show ?case
    using turn_okI[OF Died(2)] ops_grow(1)[OF Died(1)] by blast
next
  case (Lapse s reason n db)
  then have ok: "db_inv (qs_db s)" "markers_ok (qs_db s)" unfolding turn_ok_def queue_inv_def by auto
  from lapse_delete[OF Lapse(1) ok(1)] obtain rows db1 where
    "delete_where (\<lambda>r. r_id r \<in> set (sweep_ids (qs_now s) (qs_db s))) (qs_db s) = (rows, db1)"
    "emit_errors (qs_now s) reason rows db1 = (n, db)" "\<forall>r \<in> set rows. r_queue r = turn_timeout_queue"
    by blast
  from errors_effect(6,7)[OF ok this(1,3,2)] show ?case
    using turn_okI[OF Lapse(2)] ops_grow(2)[OF Lapse(1)] by blast
next
  case (Unstarted s dep m reason b db)
  then have ok: "db_inv (qs_db s)" "markers_ok (qs_db s)" unfolding turn_ok_def queue_inv_def by auto
  from single_effect(5,6)[OF ok Unstarted(1)] show ?case
    using turn_okI[OF Unstarted(2)] ops_grow(3)[OF Unstarted(1)] by blast
next
  case (Replied s dep ms payload org b db)
  then have ok: "db_inv (qs_db s)" "markers_ok (qs_db s)" unfolding turn_ok_def queue_inv_def by auto
  from reply_effect(4,5)[OF ok Replied(1)] show ?case
    using turn_okI[OF Replied(2)] ops_grow(4)[OF Replied(1)] by blast
next
  case (Queue s s')
  then have "queue_inv s'" using step_inv unfolding turn_ok_def by blast
  moreover have "marker_rows (qs_db s') = marker_rows (qs_db s)"
    using queue_step_markers Queue unfolding turn_ok_def queue_inv_def db_inv_def by blast
  ultimately show ?case using same_markers Queue(3) unfolding turn_ok_def by blast
qed

lemma turn_reachable: "turn_step\<^sup>*\<^sup>* (empty_system t) s \<Longrightarrow> turn_ok s"
proof (induction rule: rtranclp_induct)
  case base
  show ?case using empty_inv[of t] unfolding turn_ok_def markers_all by (simp add: empty_system_def)
next
  case (step y z) then show ?case using turn_step_ok by blast
qed

section \<open>The contract and its refinement\<close>

text \<open>
  The operations of the module, and what each promises: which keys are owed afterwards, and the terminal rows
  it inserts. An operation that fails turns inserts one error for each key it discharges; a reply inserts one row
  if any of its messages is still owed.
\<close>

datatype turn_op =
    Arm_turn queue_process turn_routing ms
  | Heartbeat_turns string ms
  | Worker_died string string
  | Sweep_turns string
  | Never_started string string string
  | Reply_turns string "string list" input_json "string option"

fun perform :: "ms \<Rightarrow> turn_op \<Rightarrow> turn_db \<Rightarrow> turn_db option" where
  "perform now (Arm_turn p routing d) db = (case armTurnTimeout p now routing d db of Inl _ \<Rightarrow> None | Inr db' \<Rightarrow> Some db')"
| "perform now (Heartbeat_turns dep d) db = Some (extendTurnDeadlines now dep d db)"
| "perform now (Worker_died dep reason) db = Some (snd (failTurnsForDeployment now dep reason db))"
| "perform now (Sweep_turns reason) db = Some (snd (sweepExpiredTurns now reason db))"
| "perform now (Never_started dep m reason) db = Some (snd (failTurnIfPending now dep m reason db))"
| "perform now (Reply_turns dep ms payload org) db = Some (snd (commitTerminalReply now dep ms payload org db))"

fun arm_named :: "turn_op \<Rightarrow> bool" where
  "arm_named (Arm_turn p routing d) = (tr_messageId routing \<noteq> [])"
| "arm_named _ = True"

definition keys_where :: "(turn_run \<Rightarrow> bool) \<Rightarrow> turn_db \<Rightarrow> string set" where
  "keys_where P db = {k. \<exists>r \<in> set (marker_rows db). P r \<and> r_key r = Some k}"

fun contract :: "ms \<Rightarrow> turn_op \<Rightarrow> turn_db \<Rightarrow> string set \<Rightarrow> turn_run list \<Rightarrow> bool" where
  "contract now (Arm_turn p t d) db owed' rows \<longleftrightarrow> rows = []
     \<and> (let k = turnMarkerKey (tr_deploymentName t) (tr_messageId t) in
        owed' = insert k (owed db)
        \<or> owed' = owed db \<and> (\<exists>r \<in> set (q_runs db). is_active r \<and> r_queue r \<noteq> turn_timeout_queue \<and> r_key r = Some k))"
| "contract now (Heartbeat_turns dep d) db owed' rows \<longleftrightarrow> rows = [] \<and> owed' = owed db"
| "contract now (Worker_died dep reason) db owed' rows \<longleftrightarrow>
     (\<exists>ks. distinct ks \<and> set ks = keys_where (\<lambda>r. deployment_of r = Some dep) db
        \<and> owed' = owed db - set ks \<and> list_all2 (error_for reason) ks rows)"
| "contract now (Sweep_turns reason) db owed' rows \<longleftrightarrow>
     (\<exists>ks. distinct ks \<and> set ks \<subseteq> keys_where (lapsed now) db
        \<and> length ks = min sweep_limit (card (keys_where (lapsed now) db))
        \<and> owed' = owed db - set ks \<and> list_all2 (error_for reason) ks rows)"
| "contract now (Never_started dep m reason) db owed' rows \<longleftrightarrow>
     (let k = turnMarkerKey dep m in
      owed' = owed db - {k} \<and> (if k \<in> owed db then \<exists>row. rows = [row] \<and> error_for reason k row else rows = []))"
| "contract now (Reply_turns dep ms payload org) db owed' rows \<longleftrightarrow>
     (let ks = turnMarkerKey dep ` set ms in
      owed' = owed db - ks
      \<and> rows = (if owed db \<inter> ks = {} then [] else [terminal_row now payload org (q_next db)]))"

lemma inserted_none:
  "(\<And>r. r \<in> set (q_runs db') \<Longrightarrow> r_id r < q_next db \<or> r_queue r \<noteq> thread_response_queue) \<Longrightarrow> inserted db db' = []"
  unfolding inserted_def filter_empty_conv by fastforce

lemma update_inserted:
  assumes "ids_ok db" "\<And>r. r_id (f r) = r_id r"
  shows "inserted db (update_where P f db) = []"
proof -
  have "\<forall>r \<in> set (q_runs (update_where P f db)). r_id r < q_next db"
    using assms unfolding all_update_where ids_ok_def by simp
  then show ?thesis by (intro inserted_none) simp
qed

lemma arm_inserted:
  assumes "armTurnTimeout p now t d db = Inr db'" "ids_ok db" "markers_ok db" "tr_messageId t \<noteq> []"
  shows "inserted db db' = []"
proof -
  obtain x where x: "sendWithDisposition p now turn_timeout_queue
      \<lparr>qd_organizationId = tr_organizationId t, qd_body = routing_json t\<rparr>
      (marker_options d (turnMarkerKey (tr_deploymentName t) (tr_messageId t))) db = Inr (x, db')"
    using arm_effect(3)[OF assms(1,3,4)] by blast
  have "r_queue (new_run now turn_timeout_queue data opts org i) \<noteq> thread_response_queue"
    for data :: "input_json queue_payload" and opts org i using queues_differ unfolding new_run_def by simp
  with sendWithDisposition_db[OF x] show ?thesis
    using assms(2) unfolding ids_ok_def by (intro inserted_none) fastforce
qed

section \<open>Repeated sweeps\<close>

text \<open>The periodic tick: sweeps one after the other, with the errors they report added up.\<close>

fun sweeps :: "nat \<Rightarrow> ms \<Rightarrow> string \<Rightarrow> turn_db \<Rightarrow> nat \<times> turn_db" where
  "sweeps 0 now reason db = (0, db)"
| "sweeps (Suc k) now reason db =
     (let (n, db) = sweepExpiredTurns now reason db; (m, db) = sweeps k now reason db in (n + m, db))"

abbreviation lapsed_rows :: "ms \<Rightarrow> turn_db \<Rightarrow> turn_run list" where
  "lapsed_rows now db \<equiv> filter (lapsed now) (q_runs db)"

lemma length_filter_ids:
  "distinct (map r_id rs) \<Longrightarrow> length (filter (\<lambda>r. r_id r \<in> set (take k (map r_id (filter Q rs)))) rs)
     = min k (length (filter Q rs))"
proof -
  assume d: "distinct (map r_id rs)"
  let ?I = "set (take k (map r_id (filter Q rs)))"
  have "r_id ` set (filter (\<lambda>r. r_id r \<in> ?I) rs) = ?I"
  proof (intro equalityI subsetI)
    fix i assume i: "i \<in> ?I"
    from in_set_takeD[OF this] obtain x where "x \<in> set rs" "r_id x = i" by auto
    then show "i \<in> r_id ` set (filter (\<lambda>r. r_id r \<in> ?I) rs)" using i by auto
  qed auto
  moreover have "distinct (map r_id (filter (\<lambda>r. r_id r \<in> ?I) rs))" using d by (simp add: distinct_map_filter)
  ultimately have "length (filter (\<lambda>r. r_id r \<in> ?I) rs) = card ?I"
    by (metis distinct_card length_map set_map)
  moreover have "distinct (take k (map r_id (filter Q rs)))"
    using d by (intro distinct_take) (simp add: distinct_map_filter)
  ultimately show ?thesis by (simp add: distinct_card)
qed

lemma one_sweep:
  assumes "db_inv db" "markers_ok db" "sweepExpiredTurns now reason db = (n, db')"
  shows "n = min 200 (length (lapsed_rows now db))"
    "length (lapsed_rows now db') = length (lapsed_rows now db) - n"
    "db_inv db'" "markers_ok db'"
proof -
  let ?P = "\<lambda>r. r_id r \<in> set (sweep_ids now db)"
  from lapse_delete[OF assms(3,1)] obtain rows db1 where d: "delete_where ?P db = (rows, db1)"
    "emit_errors now reason rows db1 = (n, db')" "\<forall>r \<in> set rows. r_queue r = turn_timeout_queue" by blast
  note e = errors_effect[OF assms(1,2) d(1,3,2)]
  show "db_inv db'" "markers_ok db'" using e(6,7) by blast+
  have rows: "rows = filter ?P (q_runs db)" and db1: "q_runs db1 = filter (\<lambda>r. \<not> ?P r) (q_runs db)"
    using d(1) unfolding delete_where_def by auto
  show n: "n = min 200 (length (lapsed_rows now db))"
    using length_filter_ids[of "q_runs db" 200 "lapsed now"] assms(1) e(1)
    unfolding rows sweep_ids_def sweep_limit_def db_inv_def ids_ok_def by simp
  have marks: "lapsed_rows now db2 = filter (lapsed now) (marker_rows db2)" for db2
    unfolding marker_rows_def by (auto simp: lapsed_def is_marker_def intro!: filter_cong)
  have "marker_rows db' = marker_rows db1" using marker_rows_emit[of now reason rows db1] d(2) by simp
  then have "lapsed_rows now db' = lapsed_rows now db1" unfolding marks by simp
  also have "\<dots> = filter (\<lambda>r. \<not> ?P r) (lapsed_rows now db)" unfolding db1 by (simp add: conj_commute)
  finally have left: "lapsed_rows now db' = filter (\<lambda>r. \<not> ?P r) (lapsed_rows now db)" .
  have "rows = filter ?P (lapsed_rows now db)"
    unfolding rows filter_filter using sweep_ids_lapsed[OF assms(1)] by (intro filter_cong) auto
  then have "length (lapsed_rows now db) = n + length (lapsed_rows now db')"
    unfolding left e(1) using sum_length_filter_compl[of ?P "lapsed_rows now db"] by simp
  then show "length (lapsed_rows now db') = length (lapsed_rows now db) - n" by simp
qed

lemma sweeps_clear:
  "db_inv db \<Longrightarrow> markers_ok db \<Longrightarrow> length (lapsed_rows now db) \<le> 200 * k \<Longrightarrow>
   fst (sweeps k now reason db) = length (lapsed_rows now db) \<and> lapsed_rows now (snd (sweeps k now reason db)) = []"
proof (induction k arbitrary: db)
  case (Suc k)
  obtain n db' where one: "sweepExpiredTurns now reason db = (n, db')" by fastforce
  note o = one_sweep[OF Suc(2,3) one]
  have "length (lapsed_rows now db') \<le> 200 * k" using o(1,2) Suc(4) by (auto simp: min_def split: if_splits)
  from Suc(1)[OF o(3,4) this] show ?case using one o(1,2) by (auto simp: case_prod_beta)
qed simp


section \<open>The operations keep their contract\<close>

text \<open>The rows that are no markers: an operation of the module only adds its terminal rows to them.\<close>

definition other_rows :: "turn_db \<Rightarrow> turn_run list" where
  "other_rows db = filter (\<lambda>r. r_queue r \<noteq> turn_timeout_queue) (q_runs db)"

lemma perform_step:
  "perform (qs_now s) op (qs_db s) = Some db \<Longrightarrow> arm_named op \<Longrightarrow> turn_step s (s\<lparr>qs_db := db\<rparr>)"
  by (cases op) (auto split: sum.splits intro: turn_step.intros prod.collapse [symmetric])

lemma errors_each:
  "\<forall>r \<in> set rs. marker_ok r \<Longrightarrow> list_all2 (error_for reason) (map (\<lambda>r. the (r_key r)) rs) (error_rows now reason i rs)"
proof (induction rs arbitrary: i)
  case (Cons r rs)
  then obtain t where "asTurnRouting (r_input r) = Some t" "r_key r = Some (turnMarkerKey (tr_deploymentName t) (tr_messageId t))"
    unfolding marker_ok_def by auto
  then have "error_for reason (the (r_key r))
      (terminal_row now (buildTerminalErrorPayload now t reason) (tr_organizationId t) i)"
    unfolding error_for_def terminal_row_def buildTerminalErrorPayload_def Let_def by auto
  then show ?case using Cons \<open>asTurnRouting (r_input r) = Some t\<close> by (simp add: Let_def)
qed simp

lemma other_rows_append:
  assumes "q_runs db' = filter (\<lambda>r. \<not> P r) (q_runs db) @ rows" "\<And>r. r \<in> set (q_runs db) \<Longrightarrow> P r \<Longrightarrow> r_queue r = turn_timeout_queue"
    "\<forall>r \<in> set rows. r_queue r = thread_response_queue"
  shows "other_rows db' = other_rows db @ rows"
proof -
  have "filter (\<lambda>r. r_queue r \<noteq> turn_timeout_queue) rows = rows" using assms(3) queues_differ by (simp add: filter_True)
  moreover have "filter (\<lambda>r. r_queue r \<noteq> turn_timeout_queue) (filter (\<lambda>r. \<not> P r) (q_runs db)) = other_rows db"
    using assms(2) unfolding other_rows_def by (auto simp: filter_filter intro!: filter_cong)
  ultimately show ?thesis unfolding other_rows_def assms(1) by simp
qed

lemma keys_image:
  assumes "S = {r \<in> set (marker_rows db). P r}" "\<And>r. r \<in> S \<Longrightarrow> r_key r = Some (the (r_key r))"
  shows "keys_where P db = (\<lambda>r. the (r_key r)) ` S"
proof (intro set_eqI iffI)
  fix k assume "k \<in> keys_where P db"
  then obtain r where "r \<in> S" "r_key r = Some k" unfolding keys_where_def assms(1) by blast
  then show "k \<in> (\<lambda>r. the (r_key r)) ` S" by (metis image_eqI option.sel)
next
  fix k assume "k \<in> (\<lambda>r. the (r_key r)) ` S"
  then obtain r where "r \<in> S" "k = the (r_key r)" by blast
  then show "k \<in> keys_where P db" using assms(2) [of r] unfolding keys_where_def assms(1) by auto
qed

lemma failing_contract:
  assumes "db_inv db" "markers_ok db" "delete_where P db = (rows, db1)"
    "\<forall>r \<in> set rows. r_queue r = turn_timeout_queue" "emit_errors now reason rows db1 = (n, db')"
  shows "\<exists>ks. distinct ks \<and> length ks = n \<and> set ks = keys_where P db \<and> owed db' = owed db - set ks
    \<and> list_all2 (error_for reason) ks (inserted db db')" "other_rows db' = other_rows db @ inserted db db'"
proof -
  note e = errors_effect [OF assms]
  note del = deleted_obligations [OF assms(1-4)]
  have rows: "rows = filter P (q_runs db)" and db1: "q_runs db1 = filter (\<lambda>r. \<not> P r) (q_runs db)" "q_next db1 = q_next db"
    using assms(3) unfolding delete_where_def by auto
  let ?ks = "map (\<lambda>r. the (r_key r)) rows"
  have ks: "set ?ks = owed db - owed db'" using e(4) by simp
  then have "card (set ?ks) = length ?ks" using e(1,5) by simp
  then have "distinct ?ks" by (rule card_distinct)
  moreover have "set ?ks = keys_where P db"
  proof -
    have "r_key r = Some (the (r_key r))" if "r \<in> set rows" for r using that del(4) unfolding marker_ok_def by fastforce
    moreover have "set rows = {r \<in> set (marker_rows db). P r}" using assms(4) rows unfolding marker_rows_def by auto
    ultimately show ?thesis using keys_image [of "set rows" db P] by simp
  qed
  moreover have "owed db' = owed db - set ?ks" using ks e(3) by auto
  moreover have "list_all2 (error_for reason) ?ks (inserted db db')" unfolding e(2) by (rule errors_each [OF del(4)])
  ultimately show "\<exists>ks. distinct ks \<and> length ks = n \<and> set ks = keys_where P db \<and> owed db' = owed db - set ks
    \<and> list_all2 (error_for reason) ks (inserted db db')" using e(1) by (intro exI [of _ ?ks]) simp
  show "other_rows db' = other_rows db @ inserted db db'" unfolding e(2)
    by (rule other_rows_append [where P = P])
      (use emit_errors_ok [OF del(4), of now reason db1] assms(4,5) db1 rows error_rows_fields in auto)
qed

lemma card_keys:
  assumes "db_inv db" "markers_ok db" "\<And>r. P r \<Longrightarrow> r_queue r = turn_timeout_queue"
  shows "card (keys_where P db) = length (filter P (q_runs db))"
proof -
  have rows: "set (filter P (q_runs db)) = {r \<in> set (marker_rows db). P r}" using assms(3) unfolding marker_rows_def by auto
  have some: "r_key r = Some (the (r_key r))" if "r \<in> set (filter P (q_runs db))" for r
    using that assms(2) unfolding rows markers_ok_def marker_ok_def by fastforce
  have "keys_where P db = (\<lambda>r. the (r_key r)) ` set (filter P (q_runs db))"
    by (rule keys_image [OF rows some])
  moreover have "inj_on (\<lambda>r. the (r_key r)) (set (filter P (q_runs db)))"
    by (rule inj_onI) (metis (mono_tags, lifting) some distinct_keys [OF assms(1,2)] rows mem_Collect_eq)
  moreover have "distinct (filter P (q_runs db))" using assms(1) unfolding db_inv_def ids_ok_def by (simp add: distinct_map)
  ultimately show ?thesis by (metis card_image distinct_card)
qed

lemma lapsed_queue: "lapsed now r \<Longrightarrow> r_queue r = turn_timeout_queue"
  unfolding lapsed_def is_marker_def by simp

lemma sweep_contract:
  assumes "db_inv db" "markers_ok db" "sweepExpiredTurns now reason db = (n, db')"
  shows "\<exists>ks. distinct ks \<and> length ks = n \<and> n = min sweep_limit (card (keys_where (lapsed now) db)) \<and> set ks \<subseteq> keys_where (lapsed now) db
    \<and> owed db' = owed db - set ks \<and> list_all2 (error_for reason) ks (inserted db db')"
    "other_rows db' = other_rows db @ inserted db db'"
proof -
  let ?P = "\<lambda>r. r_id r \<in> set (sweep_ids now db)"
  obtain rows db1 where d: "delete_where ?P db = (rows, db1)" "emit_errors now reason rows db1 = (n, db')"
    "\<forall>r \<in> set rows. r_queue r = turn_timeout_queue" using lapse_delete [OF assms(3,1)] by blast
  note f = failing_contract [OF assms(1,2) d(1,3,2)]
  show "other_rows db' = other_rows db @ inserted db db'" by (rule f(2))
  have "keys_where ?P db \<subseteq> keys_where (lapsed now) db"
    using sweep_ids_lapsed [OF assms(1)] unfolding keys_where_def marker_rows_def by fastforce
  moreover have "n = min sweep_limit (card (keys_where (lapsed now) db))"
    using one_sweep(1) [OF assms] card_keys [OF assms(1,2) lapsed_queue] by (simp add: sweep_limit_def)
  ultimately show "\<exists>ks. distinct ks \<and> length ks = n \<and> n = min sweep_limit (card (keys_where (lapsed now) db)) \<and> set ks \<subseteq> keys_where (lapsed now) db
    \<and> owed db' = owed db - set ks \<and> list_all2 (error_for reason) ks (inserted db db')" using f(1) by metis
qed

lemma no_markers_touched:
  assumes "filter (\<lambda>r. r_queue r \<noteq> turn_timeout_queue) (q_runs db') = filter (\<lambda>r. r_queue r \<noteq> turn_timeout_queue) (q_runs db)"
    "ids_ok db"
  shows "inserted db db' = []" "other_rows db' = other_rows db @ inserted db db'"
proof -
  have "r \<in> set (q_runs db)" if "r \<in> set (q_runs db')" "r_queue r = thread_response_queue" for r
  proof -
    have "r \<in> set (filter (\<lambda>r. r_queue r \<noteq> turn_timeout_queue) (q_runs db'))" using that queues_differ by simp
    then show ?thesis unfolding assms(1) by simp
  qed
  then have "r_id r < q_next db" if "r \<in> set (q_runs db')" "r_queue r = thread_response_queue" for r
    using that assms(2) unfolding ids_ok_def by blast
  then show "inserted db db' = []" by (intro inserted_none) blast
  then show "other_rows db' = other_rows db @ inserted db db'" using assms(1) unfolding other_rows_def by simp
qed

lemma arm_others:
  assumes "armTurnTimeout p now t d db = Inr db'" "markers_ok db" "tr_messageId t \<noteq> []"
  shows "filter (\<lambda>r. r_queue r \<noteq> turn_timeout_queue) (q_runs db') = filter (\<lambda>r. r_queue r \<noteq> turn_timeout_queue) (q_runs db)"
proof -
  obtain x where x: "sendWithDisposition p now turn_timeout_queue
      \<lparr>qd_organizationId = tr_organizationId t, qd_body = routing_json t\<rparr>
      (marker_options d (turnMarkerKey (tr_deploymentName t) (tr_messageId t))) db = Inr (x, db')"
    using arm_effect(3) [OF assms] by blast
  have "r_queue (new_run now turn_timeout_queue data opts org i) = turn_timeout_queue"
    for data :: "input_json queue_payload" and opts org i unfolding new_run_def by simp
  with sendWithDisposition_db [OF x] show ?thesis by auto
qed

lemma extend_others:
  "filter (\<lambda>r. r_queue r \<noteq> turn_timeout_queue) (q_runs (extendTurnDeadlines now dep d db))
     = filter (\<lambda>r. r_queue r \<noteq> turn_timeout_queue) (q_runs db)"
proof -
  have "filter (\<lambda>r. r_queue r \<noteq> turn_timeout_queue) (map (\<lambda>r. if is_marker r \<and> Q r then r\<lparr>r_run_at := t\<rparr> else r) rs)
      = filter (\<lambda>r. r_queue r \<noteq> turn_timeout_queue) rs" for Q t and rs :: "turn_run list"
    by (induction rs) (auto simp: is_marker_def)
  then show ?thesis unfolding extendTurnDeadlines_def Let_def update_where_def by simp
qed

lemma single_others:
  assumes "db_inv db" "markers_ok db" "failTurnIfPending now dep m reason db = (b, db')"
  shows "other_rows db' = other_rows db @ inserted db db'"
proof -
  let ?P = "has_key (turnMarkerKey dep m)"
  have "\<exists>rows. q_runs db' = filter (\<lambda>r. \<not> ?P r) (q_runs db) @ rows
      \<and> (\<forall>r \<in> set rows. q_next db \<le> r_id r \<and> r_queue r = thread_response_queue)"
    using assms(3) unfolding failTurnIfPending_def delete_where_def enqueueTerminalError_def insertThreadResponseRow_def
    by (auto simp: terminal_row_fields split: list.splits option.splits)
  then obtain rows where rows: "q_runs db' = filter (\<lambda>r. \<not> ?P r) (q_runs db) @ rows"
    "\<forall>r \<in> set rows. q_next db \<le> r_id r \<and> r_queue r = thread_response_queue" by blast
  have "\<forall>r \<in> set (q_runs db). r_id r < q_next db" using assms(1) unfolding db_inv_def ids_ok_def by blast
  from inserted_append [OF this rows] show ?thesis
    using other_rows_append [OF rows(1)] rows(2) unfolding has_key_def by simp
qed

lemma reply_others:
  assumes "db_inv db" "markers_ok db" "commitTerminalReply now dep ms payload org db = (b, db')"
  shows "other_rows db' = other_rows db @ inserted db db'"
proof -
  let ?P = "\<lambda>r. \<exists>m \<in> set ms. has_key (turnMarkerKey dep m) r"
  have "\<exists>rows. q_runs db' = filter (\<lambda>r. \<not> ?P r) (q_runs db) @ rows
      \<and> (\<forall>r \<in> set rows. q_next db \<le> r_id r \<and> r_queue r = thread_response_queue)"
    using assms(3) unfolding commitTerminalReply_def discharge_delete Let_def delete_where_def insertThreadResponseRow_def
    by (auto simp: terminal_row_fields split: if_splits)
  then obtain rows where rows: "q_runs db' = filter (\<lambda>r. \<not> ?P r) (q_runs db) @ rows"
    "\<forall>r \<in> set rows. q_next db \<le> r_id r \<and> r_queue r = thread_response_queue" by blast
  have "\<forall>r \<in> set (q_runs db). r_id r < q_next db" using assms(1) unfolding db_inv_def ids_ok_def by blast
  from inserted_append [OF this rows] show ?thesis
    using other_rows_append [OF rows(1)] rows(2) unfolding has_key_def by auto
qed

lemma sweep_markers:
  assumes "sweepExpiredTurns now reason db = (n, db')" "db_inv db"
  shows "set (marker_rows db') \<subseteq> set (marker_rows db)"
proof -
  from lapse_delete [OF assms] obtain rows db1 where
    d: "delete_where (\<lambda>r. r_id r \<in> set (sweep_ids now db)) db = (rows, db1)" "emit_errors now reason rows db1 = (n, db')" by metis
  have "marker_rows db' = marker_rows db1" using marker_rows_emit [of now reason rows db1] d(2) by simp
  then show ?thesis using d(1) unfolding delete_where_def marker_rows_def by auto
qed

lemma perform_contract:
  assumes "perform now op db = Some db'" "arm_named op" "db_inv db" "markers_ok db"
  shows "contract now op db (owed db') (inserted db db') \<and> other_rows db' = other_rows db @ inserted db db'"
proof -
  have ids: "ids_ok db" using assms(3) unfolding db_inv_def by blast
  show ?thesis
  proof (cases op)
    case (Arm_turn p t d)
    then have run: "armTurnTimeout p now t d db = Inr db'" and named: "tr_messageId t \<noteq> []"
      using assms(1,2) by (auto split: sum.splits)
    let ?k = "turnMarkerKey (tr_deploymentName t) (tr_messageId t)"
    note others = no_markers_touched [OF arm_others [OF run assms(4) named] ids]
    have "owed db' = insert ?k (owed db)
       \<or> owed db' = owed db \<and> (\<exists>r \<in> set (q_runs db). is_active r \<and> r_queue r \<noteq> turn_timeout_queue \<and> r_key r = Some ?k)"
    proof (rule disjE [OF arm_effect(2) [OF run assms(4) named]])
      assume same: "owed db' = owed db \<and> (\<exists>r \<in> set (q_runs db). is_active r \<and> r_key r = Some ?k)"
      then obtain r where r: "r \<in> set (q_runs db)" "is_active r" "r_key r = Some ?k" by blast
      show ?thesis
      proof (cases "r_queue r = turn_timeout_queue")
        case True
        then have "?k \<in> owed db" using r assms(4) unfolding owed_ok [OF assms(4)] marker_rows_def by auto
        then show ?thesis using same by (simp add: insert_absorb)
      next
        case False then show ?thesis using same r by blast
      qed
    qed blast
    then show ?thesis using others Arm_turn by (simp add: Let_def)
  next
    case (Heartbeat_turns dep d)
    then have db': "db' = extendTurnDeadlines now dep d db" using assms(1) by simp
    note others = no_markers_touched [OF extend_others ids, of now dep d, folded db']
    show ?thesis using others extend_effect(3) [OF assms(3,4), of now dep d] Heartbeat_turns db' by simp
  next
    case (Worker_died dep reason)
    then have "failTurnsForDeployment now dep reason db = (fst (failTurnsForDeployment now dep reason db), db')"
      using assms(1) by (simp add: prod_eq_iff)
    from died_delete [OF this] obtain rows db1 where
      d: "delete_where (\<lambda>r. is_marker r \<and> deployment_of r = Some dep) db = (rows, db1)"
      "\<forall>r \<in> set rows. r_queue r = turn_timeout_queue"
      "emit_errors now reason rows db1 = (fst (failTurnsForDeployment now dep reason db), db')" by metis
    have "keys_where (\<lambda>r. is_marker r \<and> deployment_of r = Some dep) db = keys_where (\<lambda>r. deployment_of r = Some dep) db"
      using assms(4) unfolding keys_where_def markers_ok_def marker_ok_def by blast
    with failing_contract [OF assms(3,4) d] Worker_died show ?thesis by auto
  next
    case (Sweep_turns reason)
    then have "sweepExpiredTurns now reason db = (fst (sweepExpiredTurns now reason db), db')" using assms(1) by (simp add: prod_eq_iff)
    from sweep_contract [OF assms(3,4) this] Sweep_turns show ?thesis by auto
  next
    case (Never_started dep m reason)
    then have run: "failTurnIfPending now dep m reason db = (fst (failTurnIfPending now dep m reason db), db')" using assms(1) by (simp add: prod_eq_iff)
    note e = single_effect [OF assms(3,4) run]
    let ?k = "turnMarkerKey dep m"
    have "if ?k \<in> owed db then \<exists>row. inserted db db' = [row] \<and> error_for reason ?k row else inserted db db' = []"
    proof (cases "?k \<in> owed db")
      case True
      then have "length (inserted db db') = Suc 0" using e(2,3) by simp
      then obtain row where "inserted db db' = [row]" by (auto simp: length_Suc_conv)
      then show ?thesis using e(4) True by simp
    next
      case False then show ?thesis using e(2,3) by simp
    qed
    then show ?thesis
      unfolding Never_started contract.simps Let_def using e(1) single_others [OF assms(3,4) run] by blast
  next
    case (Reply_turns dep ms payload org)
    then have run: "commitTerminalReply now dep ms payload org db = (fst (commitTerminalReply now dep ms payload org db), db')"
      using assms(1) by (simp add: prod_eq_iff)
    note e = reply_effect [OF assms(3,4) run]
    have "fst (commitTerminalReply now dep ms payload org db) \<longleftrightarrow> owed db \<inter> turnMarkerKey dep ` set ms \<noteq> {}"
      using e(1,2) by auto
    then show ?thesis using e(1,3) reply_others [OF assms(3,4) run] Reply_turns by (simp add: Let_def)
  qed
qed

lemma perform_ok:
  assumes "turn_ok s" "perform (qs_now s) op (qs_db s) = Some db'" "arm_named op"
  shows "turn_ok (s\<lparr>qs_db := db'\<rparr>)"
  using turn_step_ok [OF perform_step [OF assms(2,3)] assms(1)] .

text \<open>Sweeps in a row: each lapsed key has its own error among the rows they add.\<close>

lemma sweeps_each:
  "db_inv db \<Longrightarrow> markers_ok db \<Longrightarrow> \<exists>ks rows. distinct ks \<and> set ks \<subseteq> keys_where (lapsed now) db
     \<and> length ks = fst (sweeps k now reason db) \<and> owed (snd (sweeps k now reason db)) = owed db - set ks
     \<and> other_rows (snd (sweeps k now reason db)) = other_rows db @ rows \<and> list_all2 (error_for reason) ks rows"
proof (induction k arbitrary: db)
  case 0 then show ?case by (intro exI [of _ "[]"]) simp
next
  case (Suc k)
  obtain n db1 where one: "sweepExpiredTurns now reason db = (n, db1)" by fastforce
  note inv = one_sweep(3,4) [OF Suc(2,3) one]
  obtain ks where ks: "distinct ks" "length ks = n" "set ks \<subseteq> keys_where (lapsed now) db" "owed db1 = owed db - set ks"
      "list_all2 (error_for reason) ks (inserted db db1)" and rows: "other_rows db1 = other_rows db @ inserted db db1"
    using sweep_contract [OF Suc(2,3) one] by blast
  obtain ks' rows' where ks': "distinct ks'" "set ks' \<subseteq> keys_where (lapsed now) db1" "length ks' = fst (sweeps k now reason db1)"
      "owed (snd (sweeps k now reason db1)) = owed db1 - set ks'"
      "other_rows (snd (sweeps k now reason db1)) = other_rows db1 @ rows'" "list_all2 (error_for reason) ks' rows'"
    using Suc(1) [OF inv] by blast
  have sub: "keys_where (lapsed now) db1 \<subseteq> owed db1" unfolding owed_ok [OF inv(2)] keys_where_def by blast
  have later: "keys_where (lapsed now) db1 \<subseteq> keys_where (lapsed now) db"
    using sweep_markers [OF one Suc(2)] unfolding keys_where_def by blast
  have "distinct (ks @ ks')" using ks(1) ks'(1,2) ks(4) sub by auto
  moreover have "set (ks @ ks') \<subseteq> keys_where (lapsed now) db" using ks(3) ks'(2) later by auto
  moreover have "list_all2 (error_for reason) (ks @ ks') (inserted db db1 @ rows')" by (rule list_all2_appendI [OF ks(5) ks'(6)])
  ultimately show ?case using one ks(2,4) ks'(3-5) rows
    by (intro exI [of _ "ks @ ks'"] exI [of _ "inserted db db1 @ rows'"]) (auto simp: case_prod_beta)
qed

section \<open>Properties\<close>

text \<open>
  C5: The operations of the turn module keep its contract in every state that any interleaving of them with the
  queue's own operations reaches. Arming owes the turn (unless an unfinished run of another queue holds its key); a
  heartbeat changes no obligation. The death of a worker discharges exactly the turns of its deployment, a sweep 200 of the
  lapsed ones or all of them, and each discharged turn gets one error of its own. A reply discharges the turns it names and
  inserts its row exactly if one of them was still owed: a reply to a turn that is already terminal is dropped, while one
  that covers several messages is sent as long as one of them is open. No operation inserts or removes any other row, and no
  operation of the queue discharges a turn.
\<close>

theorem turns_refine_obligations:
  assumes "turn_step\<^sup>*\<^sup>* (empty_system t) s"
  shows "(perform (qs_now s) op (qs_db s) = Some db' \<and> arm_named op \<longrightarrow>
        contract (qs_now s) op (qs_db s) (owed db') (inserted (qs_db s) db')
        \<and> other_rows db' = other_rows (qs_db s) @ inserted (qs_db s) db')
    \<and> (queue_step s s' \<and> unattended (qs_db s) (qs_db s') \<longrightarrow> owed (qs_db s') = owed (qs_db s))"
proof (intro conjI impI)
  have ok: "db_inv (qs_db s)" "markers_ok (qs_db s)" "ids_ok (qs_db s)"
    using turn_reachable [OF assms] unfolding turn_ok_def queue_inv_def db_inv_def by auto
  show "owed (qs_db s') = owed (qs_db s)" if "queue_step s s' \<and> unattended (qs_db s) (qs_db s')"
    using queue_step_markers [of s s'] that ok same_markers by blast
  assume "perform (qs_now s) op (qs_db s) = Some db' \<and> arm_named op"
  from perform_contract [OF conjunct1 [OF this] conjunct2 [OF this] ok(1,2)]
  show "contract (qs_now s) op (qs_db s) (owed db') (inserted (qs_db s) db')"
    "other_rows db' = other_rows (qs_db s) @ inserted (qs_db s) db'" by blast+
qed

definition sample_routing :: turn_routing where
  "sample_routing = \<lparr>tr_messageId = ''m'', tr_channelId = None, tr_conversationId = None, tr_userId = None,
     tr_platform = None, tr_platformMetadata = None, tr_deploymentName = ''d'', tr_organizationId = Some ''o''\<rparr>"

definition sample_armed :: turn_db where
  "sample_armed = (case armTurnTimeout (sample_process ''p'') 0 sample_routing default_deadline_ms
      (qs_db (empty_system 0)) of Inr db \<Rightarrow> db | Inl _ \<Rightarrow> qs_db (empty_system 0))"

lemma sample_arm: "armTurnTimeout (sample_process ''p'') 0 sample_routing default_deadline_ms
    (qs_db (empty_system 0)) = Inr sample_armed"
proof -
  have "\<exists>db. armTurnTimeout (sample_process ''p'') 0 sample_routing default_deadline_ms (qs_db (empty_system 0)) = Inr db"
    by (simp add: armTurnTimeout_def send_def sendWithDisposition_def sample_process_def marker_options_def
        insert_or_join_def insert_run_def key_taken_def empty_system_def Let_def)
  then show ?thesis unfolding sample_armed_def by auto
qed

lemma sample_armed_reach: "turn_step\<^sup>*\<^sup>* (empty_system 0) ((empty_system 0)\<lparr>qs_db := sample_armed\<rparr>)"
proof -
  have "turn_step (empty_system 0) ((empty_system 0)\<lparr>qs_db := sample_armed\<rparr>)"
    by (rule Arm[of "sample_process ''p''" _ sample_routing default_deadline_ms])
      (use sample_arm in \<open>simp_all add: empty_system_def sample_routing_def\<close>)
  then show ?thesis by blast
qed

lemma sample_owed: "owed sample_armed = {''d:m''}"
proof -
  have e: "owed (qs_db (empty_system 0)) = {}" "q_runs (qs_db (empty_system 0) :: turn_db) = []"
    "markers_ok (qs_db (empty_system 0))"
    unfolding owed_def markers_all by (simp_all add: empty_system_def)
  show ?thesis using arm_effect(2)[OF sample_arm e(3)] e
    by (simp add: sample_routing_def turnMarkerKey_def)
qed

theorem turns_refine_obligations_witness:
  "let db = snd (failTurnIfPending 0 ''d'' ''m'' ''x'' sample_armed) in
   owed db = {} \<and> (\<exists>row. inserted sample_armed db = [row] \<and> error_for ''x'' ''d:m'' row)"
  using turns_refine_obligations [OF sample_armed_reach, of "Never_started ''d'' ''m'' ''x''"
      "snd (failTurnIfPending 0 ''d'' ''m'' ''x'' sample_armed)"]
  by (simp add: sample_owed empty_system_def turnMarkerKey_def Let_def)

text \<open>
  When a worker dies, or its turns lapse, every turn the operation discharges gets a terminal
  error row that carries its message id, the reason and a platform, the number reported is the
  number of turns discharged, and a dead worker's turns are all discharged.
\<close>

theorem failed_turns_get_errors:
  assumes "turn_step\<^sup>*\<^sup>* (empty_system t) s"
    "failTurnsForDeployment now dep reason (qs_db s) = (n, db')
     \<or> sweepExpiredTurns now reason (qs_db s) = (n, db')"
  shows "n = card (owed (qs_db s) - owed db') \<and> n = length (inserted (qs_db s) db')
    \<and> (\<forall>k \<in> owed (qs_db s) - owed db'. \<exists>row \<in> set (inserted (qs_db s) db'). error_for reason k row)
    \<and> (failTurnsForDeployment now dep reason (qs_db s) = (n, db')
        \<longrightarrow> (\<forall>r \<in> set (q_runs db'). r_queue r = turn_timeout_queue \<longrightarrow> deployment_of r \<noteq> Some dep))"
proof -
  let ?db = "qs_db s"
  have ok: "db_inv ?db" "markers_ok ?db" using turn_reachable[OF assms(1)] unfolding turn_ok_def queue_inv_def by auto
  have common: "n = card (owed ?db - owed db') \<and> n = length (inserted ?db db')
    \<and> (\<forall>k \<in> owed ?db - owed db'. \<exists>row \<in> set (inserted ?db db'). error_for reason k row)"
    if "delete_where P ?db = (rows, db1)" "emit_errors now reason rows db1 = (n, db')"
      "\<forall>r \<in> set rows. r_queue r = turn_timeout_queue" for P rows db1
    using errors_effect(1,2,5,8)[OF ok that(1,3,2)] by simp
  show ?thesis
  proof (cases "failTurnsForDeployment now dep reason ?db = (n, db')")
    case True
    from died_delete[OF this] obtain rows db1 where
      d: "delete_where (\<lambda>r. is_marker r \<and> deployment_of r = Some dep) ?db = (rows, db1)"
      "emit_errors now reason rows db1 = (n, db')" "\<forall>r \<in> set rows. r_queue r = turn_timeout_queue" by blast
    have "deployment_of r \<noteq> Some dep" if "r \<in> set (marker_rows db')" for r
    proof -
      have "r \<in> set (marker_rows db1)" using marker_rows_emit[of now reason rows db1] d(2) that by simp
      then have "r \<in> set (marker_rows ?db)" "\<not> (is_marker r \<and> deployment_of r = Some dep)"
        using d(1) unfolding delete_where_def marker_rows_def by auto
      then show ?thesis using ok(2) unfolding markers_ok_def marker_ok_def by blast
    qed
    then show ?thesis using common[OF d] unfolding marker_rows_def by simp
  next
    case False
    then have "sweepExpiredTurns now reason ?db = (n, db')" using assms(2) by blast
    from lapse_delete[OF this ok(1)] obtain rows db1 where
      "delete_where (\<lambda>r. r_id r \<in> set (sweep_ids now ?db)) ?db = (rows, db1)"
      "emit_errors now reason rows db1 = (n, db')" "\<forall>r \<in> set rows. r_queue r = turn_timeout_queue" by blast
    then show ?thesis using common False by blast
  qed
qed

theorem failed_turns_get_errors_witness:
  "fst (sweepExpiredTurns 70000 ''late'' sample_armed)
     = card ({''d:m''} - owed (snd (sweepExpiredTurns 70000 ''late'' sample_armed)))"
  using failed_turns_get_errors[OF sample_armed_reach, of 70000 "''d''" "''late''"
      "fst (sweepExpiredTurns 70000 ''late'' sample_armed)" "snd (sweepExpiredTurns 70000 ''late'' sample_armed)"]
  by (simp add: sample_owed)

text \<open>
  C34: Every lapsed turn is answered: however many markers have lapsed, one sweep for each 200 of them leaves none, and
  the rows the sweeps add to the table are one terminal error for each lapsed turn and nothing else; the counts they
  report add up to the number of those errors.
\<close>

theorem sweeps_answer_all_lapsed:
  assumes "turn_step\<^sup>*\<^sup>* (empty_system t) s" "length (filter (lapsed now) (q_runs (qs_db s))) \<le> 200 * k"
  shows "filter (lapsed now) (q_runs (snd (sweeps k now reason (qs_db s)))) = []
    \<and> (\<exists>ks rows. distinct ks \<and> set ks = keys_where (lapsed now) (qs_db s) \<and> length ks = fst (sweeps k now reason (qs_db s))
        \<and> other_rows (snd (sweeps k now reason (qs_db s))) = other_rows (qs_db s) @ rows
        \<and> list_all2 (error_for reason) ks rows)"
proof -
  have ok: "db_inv (qs_db s)" "markers_ok (qs_db s)"
    using turn_reachable [OF assms(1)] unfolding turn_ok_def queue_inv_def by auto
  note clear = sweeps_clear [OF ok assms(2), of reason]
  obtain ks rows where ks: "distinct ks" "set ks \<subseteq> keys_where (lapsed now) (qs_db s)"
      "length ks = fst (sweeps k now reason (qs_db s))"
      "other_rows (snd (sweeps k now reason (qs_db s))) = other_rows (qs_db s) @ rows" "list_all2 (error_for reason) ks rows"
    using sweeps_each [OF ok, of now k reason] by blast
  have "card (set ks) = card (keys_where (lapsed now) (qs_db s))"
    using card_keys [OF ok, of "lapsed now"] lapsed_queue clear ks(1,3) by (simp add: distinct_card)
  moreover have "finite (keys_where (lapsed now) (qs_db s))"
    using finite_subset [of "keys_where (lapsed now) (qs_db s)" "(\<lambda>r. the (r_key r)) ` set (marker_rows (qs_db s))"]
    unfolding keys_where_def by force
  ultimately have "set ks = keys_where (lapsed now) (qs_db s)" using ks(2) by (simp add: card_subset_eq)
  with clear ks show ?thesis by blast
qed

lemma sample_armed_runs: "length (q_runs sample_armed) = 1"
  unfolding sample_armed_def
  by (simp add: armTurnTimeout_def send_def sendWithDisposition_def sample_process_def marker_options_def
      insert_or_join_def insert_run_def key_taken_def empty_system_def Let_def)

theorem sweeps_answer_all_lapsed_witness:
  "\<exists>ks rows. set ks = keys_where (lapsed 70000) sample_armed
     \<and> other_rows (snd (sweeps 1 70000 ''late'' sample_armed)) = other_rows sample_armed @ rows
     \<and> list_all2 (error_for ''late'') ks rows"
proof -
  have "length (filter (lapsed 70000) (q_runs sample_armed)) \<le> 1"
    using length_filter_le [of "lapsed 70000" "q_runs sample_armed"] sample_armed_runs by simp
  then show ?thesis
    using sweeps_answer_all_lapsed [OF sample_armed_reach, of 70000 1 "''late''"] by auto
qed



text \<open>
  A reply that covers several messages is sent when any of them is still owed: a message of the
  batch that a sweep has already failed is then answered a second time.
\<close>

lemma batch_reply_repeats_answer:
  assumes "db_inv db" "markers_ok db" "turnMarkerKey dep m1 \<notin> owed db" "turnMarkerKey dep m2 \<in> owed db"
  shows "fst (commitTerminalReply now dep [m1, m2] payload org db)"
proof -
  obtain b db' where c: "commitTerminalReply now dep [m1, m2] payload org db = (b, db')" by fastforce
  from reply_effect(1,2)[OF assms(1,2) c] assms(4) show ?thesis using c by auto
qed

end
