(* ===== verification/Regex.thy ===== *)
theory Regex
  imports JS_Prelude
begin

text \<open>
  The regular expressions of the language, as far as the modelled code uses them: character
  classes, the assertions \<^verbatim>\<open>^\<close> and \<^verbatim>\<open>\b\<close>, sequence, alternatives and greedy repetition.
  A position of the matcher is the text already passed, read backwards, and the text ahead.
  \<open>ends r p\<close> is the backtracking matcher: all positions where a match starting at \<open>p\<close> can
  end, in the order the language tries them, so that its head is the match reported.
  \<open>matches\<close> is the declarative meaning; \<open>set_ends\<close> shows that the two agree.
\<close>

section \<open>Expressions and the matcher\<close>

type_synonym position = "string \<times> string"

datatype re =
    Cls "char \<Rightarrow> bool"
  | Line_Start
  | Word_Boundary
  | Seq re re
  | Alt re re
  | Rep nat "nat option" re

definition is_alpha :: "char \<Rightarrow> bool" where
  "is_alpha c \<longleftrightarrow> (65 \<le> code c \<and> code c \<le> 90) \<or> (97 \<le> code c \<and> code c \<le> 122)"

definition is_word :: "char \<Rightarrow> bool" where
  "is_word c \<longleftrightarrow> is_alpha c \<or> is_digit c \<or> c = CHR ''_''"

fun word_first :: "string \<Rightarrow> bool" where
  "word_first [] = False"
| "word_first (c # _) = is_word c"

fun cls_step :: "(char \<Rightarrow> bool) \<Rightarrow> position \<Rightarrow> position list" where
  "cls_step P (b, []) = []"
| "cls_step P (b, c # s) = (if P c then [(c # b, s)] else [])"

text \<open>
  Greedy repetition. An iteration past the required ones must consume something, as the
  language demands, so \<open>lo\<close> plus the length of the text ahead bounds the iterations.
\<close>

primrec reps ::
    "nat \<Rightarrow> (position \<Rightarrow> position list) \<Rightarrow> nat \<Rightarrow> nat option \<Rightarrow> position \<Rightarrow> position list" where
  "reps 0 f lo hi p = (if lo = 0 then [p] else [])"
| "reps (Suc n) f lo hi p =
     (if hi = Some 0 then (if lo = 0 then [p] else [])
      else concat (map (reps n f (lo - 1) (map_option (\<lambda>h. h - 1) hi))
                     (filter (\<lambda>q. 0 < lo \<or> length (snd q) < length (snd p)) (f p)))
           @ (if lo = 0 then [p] else []))"

primrec ends :: "re \<Rightarrow> position \<Rightarrow> position list" where
  "ends (Cls P) = cls_step P"
| "ends Line_Start = (\<lambda>p. if fst p = [] then [p] else [])"
| "ends Word_Boundary = (\<lambda>p. if word_first (fst p) \<noteq> word_first (snd p) then [p] else [])"
| "ends (Seq r1 r2) = (\<lambda>p. concat (map (ends r2) (ends r1 p)))"
| "ends (Alt r1 r2) = (\<lambda>p. ends r1 p @ ends r2 p)"
| "ends (Rep lo hi r) = (\<lambda>p. reps (lo + length (snd p)) (ends r) lo hi p)"

text \<open>Derived forms: a literal, a sequence of expressions, \<^verbatim>\<open>?\<close>, \<^verbatim>\<open>+\<close> and \<^verbatim>\<open>{n}\<close>.\<close>

abbreviation chr :: "char \<Rightarrow> re" where
  "chr c \<equiv> Cls (\<lambda>x. x = c)"

fun seq_of :: "re list \<Rightarrow> re" where
  "seq_of [] = Rep 0 (Some 0) (Cls (\<lambda>_. False))"
| "seq_of [r] = r"
| "seq_of (r # rs) = Seq r (seq_of rs)"

definition literal :: "string \<Rightarrow> re" where
  "literal s = seq_of (map chr s)"

abbreviation opt :: "re \<Rightarrow> re" where
  "opt r \<equiv> Rep 0 (Some 1) r"

abbreviation exactly :: "nat \<Rightarrow> re \<Rightarrow> re" where
  "exactly n r \<equiv> Rep n (Some n) r"

abbreviation at_least :: "nat \<Rightarrow> re \<Rightarrow> re" where
  "at_least n r \<equiv> Rep n None r"

text \<open>
  \<^verbatim>\<open>re.test(text)\<close>, the first match of \<^verbatim>\<open>text.match(re)\<close>, and the matches of
  \<^verbatim>\<open>text.matchAll(re)\<close>: after a match the search goes on where it ended.
\<close>

fun first_match :: "re \<Rightarrow> string \<Rightarrow> string \<Rightarrow> (position \<times> position) option" where
  "first_match r b [] = (case ends r (b, []) of q # _ \<Rightarrow> Some ((b, []), q) | [] \<Rightarrow> None)"
| "first_match r b (c # s) =
     (case ends r (b, c # s) of q # _ \<Rightarrow> Some ((b, c # s), q)
      | [] \<Rightarrow> first_match r (c # b) s)"

definition re_test :: "re \<Rightarrow> string \<Rightarrow> bool" where
  "re_test r text = (first_match r [] text \<noteq> None)"

definition matched_text :: "position \<Rightarrow> position \<Rightarrow> string" where
  "matched_text p q = take (length (snd p) - length (snd q)) (snd p)"

primrec all_matches :: "nat \<Rightarrow> re \<Rightarrow> position \<Rightarrow> string list" where
  "all_matches 0 r p = []"
| "all_matches (Suc n) r p =
     (case first_match r (fst p) (snd p) of
        None \<Rightarrow> []
      | Some (start, q) \<Rightarrow> matched_text start q #
          (if length (snd q) < length (snd start) then all_matches n r q
           else (case snd q of [] \<Rightarrow> [] | c # s \<Rightarrow> all_matches n r (c # fst q, s))))"

definition match_all :: "re \<Rightarrow> string \<Rightarrow> string list" where
  "match_all r text = all_matches (Suc (length text)) r ([], text)"

section \<open>The declarative meaning\<close>

inductive matches :: "re \<Rightarrow> position \<Rightarrow> position \<Rightarrow> bool" where
  m_cls: "P c \<Longrightarrow> matches (Cls P) (b, c # s) (c # b, s)"
| m_start: "matches Line_Start ([], s) ([], s)"
| m_word: "word_first b \<noteq> word_first s \<Longrightarrow> matches Word_Boundary (b, s) (b, s)"
| m_seq: "matches r1 p q \<Longrightarrow> matches r2 q q' \<Longrightarrow> matches (Seq r1 r2) p q'"
| m_left: "matches r1 p q \<Longrightarrow> matches (Alt r1 r2) p q"
| m_right: "matches r2 p q \<Longrightarrow> matches (Alt r1 r2) p q"
| m_stop: "matches (Rep 0 hi r) p p"
| m_more: "hi \<noteq> Some 0 \<Longrightarrow> matches r p q \<Longrightarrow>
     matches (Rep (lo - 1) (map_option (\<lambda>h. h - 1) hi) r) q q' \<Longrightarrow> matches (Rep lo hi r) p q'"

inductive_simps matches_simps:
  "matches (Cls P) p q"
  "matches Line_Start p q"
  "matches Word_Boundary p q"
  "matches (Seq r1 r2) p q"
  "matches (Alt r1 r2) p q"

inductive_cases matches_RepE: "matches (Rep lo hi r) p q"

text \<open>A match consumes a piece of the text ahead and puts it, reversed, behind.\<close>

definition consumes :: "position \<Rightarrow> position \<Rightarrow> bool" where
  "consumes p q \<longleftrightarrow> (\<exists>u. snd p = u @ snd q \<and> fst q = rev u @ fst p)"

lemma consumes_refl [intro]: "consumes p p"
  by (simp add: consumes_def)

lemma consumes_step [intro]: "consumes (b, c # s) (c # b, s)"
  by (simp add: consumes_def)

lemma consumes_trans: "consumes p q \<Longrightarrow> consumes q q' \<Longrightarrow> consumes p q'"
  unfolding consumes_def by (metis append_assoc rev_append)

lemma matches_consume: "matches r p q \<Longrightarrow> consumes p q"
  by (induction rule: matches.induct) (auto intro: consumes_trans)

lemma consumes_shorter: "consumes p q \<Longrightarrow> length (snd q) \<le> length (snd p)"
  by (auto simp: consumes_def)

lemma consumes_same: "consumes p q \<Longrightarrow> length (snd q) = length (snd p) \<Longrightarrow> q = p"
  by (auto simp: consumes_def prod_eq_iff)

definition up_to :: "nat option \<Rightarrow> nat option \<Rightarrow> bool" where
  "up_to h h' \<longleftrightarrow> (case h' of None \<Rightarrow> True
     | Some n' \<Rightarrow> (case h of None \<Rightarrow> False | Some n \<Rightarrow> n \<le> n'))"

lemma matches_raise_max:
  "matches (Rep lo hi r) p q \<Longrightarrow> up_to hi hi' \<Longrightarrow> matches (Rep lo hi' r) p q"
proof (induction "Rep lo hi r" p q arbitrary: lo hi hi' rule: matches.induct)
  case (m_more hi p q lo q')
  then have "up_to (map_option (\<lambda>h. h - 1) hi) (map_option (\<lambda>h. h - 1) hi')" "hi' \<noteq> Some 0"
    by (auto simp: up_to_def split: option.splits)
  with m_more show ?case by (auto intro: matches.m_more)
qed (auto intro: matches.intros)

section \<open>The matcher finds exactly the matches\<close>

lemma set_cls_step: "q \<in> set (cls_step P p) \<longleftrightarrow> matches (Cls P) p q"
  by (cases "(P, p)" rule: cls_step.cases) (auto simp: matches_simps)

lemma in_reps_Suc:
  "q' \<in> set (reps (Suc n) f lo hi p) \<longleftrightarrow> (lo = 0 \<and> q' = p) \<or>
     (hi \<noteq> Some 0 \<and> (\<exists>q. q \<in> set (f p) \<and> (0 < lo \<or> length (snd q) < length (snd p)) \<and>
        q' \<in> set (reps n f (lo - 1) (map_option (\<lambda>h. h - 1) hi) q)))"
  by (simp add: Bex_def del: split_paired_Ex) blast

declare reps.simps(2) [simp del]

lemma reps_sound:
  assumes "\<And>p q. q \<in> set (ends r p) \<Longrightarrow> matches r p q"
  shows "q \<in> set (reps n (ends r) lo hi p) \<Longrightarrow> matches (Rep lo hi r) p q"
proof (induction n arbitrary: lo hi p)
  case (Suc n)
  then show ?case
    unfolding in_reps_Suc using assms m_more [of hi r p] by (metis m_stop)
qed (auto split: if_splits intro: matches.m_stop)

lemma reps_raise_max:
  "q \<in> set (reps n f lo hi p) \<Longrightarrow> up_to hi hi' \<Longrightarrow> q \<in> set (reps n f lo hi' p)"
proof (induction n arbitrary: lo hi hi' p)
  case (Suc n)
  have "up_to (map_option (\<lambda>h. h - 1) hi) (map_option (\<lambda>h. h - 1) hi')"
    using Suc.prems(2) by (auto simp: up_to_def split: option.splits)
  moreover have "hi' = Some 0 \<Longrightarrow> hi = Some 0"
    using Suc.prems(2) by (auto simp: up_to_def split: option.splits)
  ultimately show ?case using Suc.prems(1) Suc.IH unfolding in_reps_Suc by blast
qed simp

lemma reps_complete:
  assumes step: "\<And>p q. matches r p q \<Longrightarrow> q \<in> set (ends r p)"
  shows "matches (Rep lo hi r) p q \<Longrightarrow> lo + length (snd p) \<le> n \<Longrightarrow>
    q \<in> set (reps n (ends r) lo hi p)"
proof (induction "Rep lo hi r" p q arbitrary: lo hi n rule: matches.induct)
  case (m_stop hi p)
  then show ?case by (cases n) (simp_all add: in_reps_Suc)
next
  case (m_more hi p q lo q')
  have pq: "consumes p q" using m_more(2) by (rule matches_consume)
  show ?case
  proof (cases "lo = 0 \<and> length (snd q) = length (snd p)")
    case True
    then have "q = p" using pq consumes_same by blast
    then have "q' \<in> set (reps n (ends r) 0 (map_option (\<lambda>h. h - 1) hi) p)"
      using m_more(5) [of n] m_more(6) True by simp
    then have "q' \<in> set (reps n (ends r) 0 hi p)"
      by (rule reps_raise_max) (auto simp: up_to_def split: option.splits)
    with True show ?thesis by simp
  next
    case False
    then have less: "0 < lo \<or> length (snd q) < length (snd p)"
      using consumes_shorter [OF pq] by auto
    then obtain m where n: "n = Suc m" using m_more(6) by (cases n) auto
    have "lo - 1 + length (snd q) \<le> m"
      using less m_more(6) n consumes_shorter [OF pq] by auto
    then have "q' \<in> set (reps m (ends r) (lo - 1) (map_option (\<lambda>h. h - 1) hi) q)"
      by (rule m_more(5))
    then show ?thesis
      unfolding n in_reps_Suc using m_more(1) step [OF m_more(2)] less by blast
  qed
qed

lemma set_ends: "q \<in> set (ends r p) \<longleftrightarrow> matches r p q"
proof (induction r arbitrary: p q)
  case (Cls P)
  then show ?case by (simp add: set_cls_step)
next
  case Line_Start
  show ?case by (cases p; cases q) (auto simp: matches_simps)
next
  case Word_Boundary
  show ?case by (cases p; cases q) (auto simp: matches_simps)
next
  case (Seq r1 r2)
  have "q \<in> set (ends (Seq r1 r2) p) \<longleftrightarrow> (\<exists>x \<in> set (ends r1 p). q \<in> set (ends r2 x))"
    by simp
  also have "\<dots> \<longleftrightarrow> (\<exists>x. matches r1 p x \<and> matches r2 x q)"
    unfolding Bex_def Seq.IH ..
  finally show ?case by (simp only: matches_simps split_paired_Ex)
next
  case (Alt r1 r2)
  then show ?case by (auto simp: matches_simps)
next
  case (Rep lo hi r)
  have "q \<in> set (ends (Rep lo hi r) p)" if "matches (Rep lo hi r) p q"
    using reps_complete [OF _ that order_refl] Rep by simp
  moreover have "matches (Rep lo hi r) p q" if "q \<in> set (ends (Rep lo hi r) p)"
    using that reps_sound [of r q] Rep by simp
  ultimately show ?case by blast
qed

lemma first_match_None:
  "first_match r b s = None \<longleftrightarrow> (\<forall>u v. s = u @ v \<longrightarrow> ends r (rev u @ b, v) = [])"
proof (induction s arbitrary: b)
  case Nil
  then show ?case by (auto split: list.splits)
next
  case (Cons c s)
  have "(\<forall>u v. c # s = u @ v \<longrightarrow> ends r (rev u @ b, v) = []) \<longleftrightarrow>
    ends r (b, c # s) = [] \<and> (\<forall>u v. s = u @ v \<longrightarrow> ends r (rev u @ c # b, v) = [])"
    (is "(\<forall>u v. ?P u v) \<longleftrightarrow> ?here \<and> ?later")
  proof
    assume all: "\<forall>u v. ?P u v"
    have ?here using all [rule_format, of "[]" "c # s"] by simp
    moreover have ?later
    proof (intro allI impI)
      fix u v assume "s = u @ v"
      then show "ends r (rev u @ c # b, v) = []"
        using all [rule_format, of "c # u" v] by simp
    qed
    ultimately show "?here \<and> ?later" ..
  qed (auto simp: Cons_eq_append_conv)
  then show ?case using Cons by (simp split: list.splits)
qed

lemma first_match_SomeD:
  "first_match r b s = Some (p, q) \<Longrightarrow>
     matches r p q \<and> (\<exists>u. s = u @ snd p \<and> fst p = rev u @ b)"
proof (induction s arbitrary: b)
  case Nil
  then have "q \<in> set (ends r p)" "p = (b, [])" by (auto split: list.splits)
  then show ?case using set_ends by auto
next
  case (Cons c s)
  show ?case
  proof (cases "ends r (b, c # s)")
    case Nil
    with Cons.prems have "matches r p q \<and> (\<exists>u. s = u @ snd p \<and> fst p = rev u @ c # b)"
      by (intro Cons.IH) simp
    then obtain u where "matches r p q" "s = u @ snd p" "fst p = rev u @ c # b" by blast
    then show ?thesis by (auto intro!: exI [of _ "c # u"])
  next
    case (Cons q' qs)
    with Cons.prems have "q \<in> set (ends r p)" "p = (b, c # s)" by auto
    then show ?thesis using set_ends by auto
  qed
qed

text \<open>
  \<^verbatim>\<open>re.test(text)\<close>: some split of the text has a match at its seam.
\<close>

lemma re_test_iff:
  "re_test r text \<longleftrightarrow> (\<exists>u v q. text = u @ v \<and> matches r (rev u, v) q)"
proof -
  have "re_test r text \<longleftrightarrow> (\<exists>u v. text = u @ v \<and> ends r (rev u, v) \<noteq> [])"
    by (simp add: re_test_def first_match_None)
  moreover have "ends r p \<noteq> [] \<longleftrightarrow> (\<exists>q. matches r p q)" for p
    unfolding set_ends [symmetric] by (metis all_not_in_conv set_empty)
  ultimately show ?thesis by simp
qed

section \<open>Expressions without assertions\<close>

primrec plain :: "re \<Rightarrow> bool" where
  "plain (Cls P) = True"
| "plain Line_Start = False"
| "plain Word_Boundary = False"
| "plain (Seq r1 r2) = (plain r1 \<and> plain r2)"
| "plain (Alt r1 r2) = (plain r1 \<and> plain r2)"
| "plain (Rep lo hi r) = plain r"

text \<open>The words of a plain expression; where they stand does not matter.\<close>

definition accepts :: "re \<Rightarrow> string \<Rightarrow> bool" where
  "accepts r u \<longleftrightarrow> (\<forall>b t. matches r (b, u @ t) (rev u @ b, t))"

lemma accepts_intros:
  "P c \<Longrightarrow> accepts (Cls P) [c]"
  "accepts r1 u \<Longrightarrow> accepts r2 v \<Longrightarrow> accepts (Seq r1 r2) (u @ v)"
  "accepts r1 u \<Longrightarrow> accepts (Alt r1 r2) u"
  "accepts r2 u \<Longrightarrow> accepts (Alt r1 r2) u"
  "accepts (Rep 0 hi r) []"
  "hi \<noteq> Some 0 \<Longrightarrow> accepts r u \<Longrightarrow> accepts (Rep (lo - 1) (map_option (\<lambda>h. h - 1) hi) r) v \<Longrightarrow>
     accepts (Rep lo hi r) (u @ v)"
proof -
  show "accepts r1 u \<Longrightarrow> accepts r2 v \<Longrightarrow> accepts (Seq r1 r2) (u @ v)"
    unfolding accepts_def using m_seq by fastforce
  show "hi \<noteq> Some 0 \<Longrightarrow> accepts r u \<Longrightarrow>
    accepts (Rep (lo - 1) (map_option (\<lambda>h. h - 1) hi) r) v \<Longrightarrow> accepts (Rep lo hi r) (u @ v)"
    unfolding accepts_def using m_more [where hi = hi and lo = lo] by fastforce
qed (auto simp: accepts_def intro: matches.intros)

lemma matches_plain:
  "matches r p q \<Longrightarrow> plain r \<Longrightarrow> \<exists>u. snd p = u @ snd q \<and> fst q = rev u @ fst p \<and> accepts r u"
proof (induction rule: matches.induct)
  case (m_cls P c b s)
  then show ?case by (auto intro!: exI [of _ "[c]"] accepts_intros)
next
  case (m_seq r1 p q r2 q')
  then obtain u v where "snd p = u @ snd q" "fst q = rev u @ fst p" "accepts r1 u"
    "snd q = v @ snd q'" "fst q' = rev v @ fst q" "accepts r2 v" by auto
  then show ?case by (auto intro!: exI [of _ "u @ v"] accepts_intros)
next
  case (m_stop hi r p)
  then show ?case by (auto intro!: accepts_intros)
next
  case (m_more hi r p q lo q')
  then obtain u v where "snd p = u @ snd q" "fst q = rev u @ fst p" "accepts r u"
    "snd q = v @ snd q'" "fst q' = rev v @ fst q"
    "accepts (Rep (lo - 1) (map_option (\<lambda>h. h - 1) hi) r) v" by auto
  with m_more(1) show ?case by (auto intro!: exI [of _ "u @ v"] accepts_intros(6))
qed (auto intro: accepts_intros)

lemma re_test_plain:
  assumes "plain r"
  shows "re_test r text \<longleftrightarrow> (\<exists>x u y. text = x @ u @ y \<and> accepts r u)"
proof
  assume "re_test r text"
  then obtain x v q where x: "text = x @ v" "matches r (rev x, v) q" unfolding re_test_iff by blast
  from matches_plain [OF x(2) assms] obtain u where "v = u @ snd q" "accepts r u" by auto
  with x(1) show "\<exists>x u y. text = x @ u @ y \<and> accepts r u" by blast
next
  assume "\<exists>x u y. text = x @ u @ y \<and> accepts r u"
  then show "re_test r text" unfolding re_test_iff accepts_def by blast
qed

lemma re_test_embeds:
  assumes "plain r" and "re_test r s"
  shows "re_test r (x @ s @ y)"
proof -
  from assms obtain a u b where "s = a @ u @ b" "accepts r u" by (auto simp: re_test_plain)
  then have "x @ s @ y = (x @ a) @ u @ (b @ y)" by simp
  with \<open>accepts r u\<close> show ?thesis using assms(1) re_test_plain by blast
qed

text \<open>What the common forms accept.\<close>

lemma accepts_matches: "accepts r u \<Longrightarrow> matches r ([], u) (rev u, [])"
  unfolding accepts_def by (metis append_Nil2)

lemma accepts_Cls [simp]: "accepts (Cls P) u \<longleftrightarrow> (\<exists>c. u = [c] \<and> P c)"
  by (auto dest!: accepts_matches simp: matches_simps intro: accepts_intros)

lemma accepts_Seq [simp]:
  assumes "plain r1" and "plain r2"
  shows "accepts (Seq r1 r2) u \<longleftrightarrow> (\<exists>v w. u = v @ w \<and> accepts r1 v \<and> accepts r2 w)"
proof
  assume "accepts (Seq r1 r2) u"
  then obtain q where q: "matches r1 ([], u) q" "matches r2 q (rev u, [])"
    by (auto dest!: accepts_matches simp: matches_simps)
  from matches_plain [OF q(1) assms(1)] matches_plain [OF q(2) assms(2)]
  show "\<exists>v w. u = v @ w \<and> accepts r1 v \<and> accepts r2 w" by auto
qed (auto intro: accepts_intros)

lemma matches_Rep_Cls:
  "matches (Rep lo hi (Cls P)) p q \<Longrightarrow>
     \<exists>u. snd p = u @ snd q \<and> lo \<le> length u \<and> (\<forall>h. hi = Some h \<longrightarrow> length u \<le> h)
       \<and> (\<forall>c \<in> set u. P c)"
proof (induction "Rep lo hi (Cls P)" p q arbitrary: lo hi rule: matches.induct)
  case (m_more hi p q lo q')
  then obtain u where u: "snd q = u @ snd q'" "lo - 1 \<le> length u"
    "\<forall>h. map_option (\<lambda>h. h - 1) hi = Some h \<longrightarrow> length u \<le> h" "\<forall>c \<in> set u. P c" by auto
  from m_more(2) obtain c where "P c" "snd p = c # snd q" by (auto simp: matches_simps)
  moreover have "length u < h" if "hi = Some h" for h
    using u(3) that m_more(1) by (cases h) auto
  ultimately show ?case using u by (intro exI [of _ "c # u"]) auto
qed auto

lemma accepts_Rep_Cls [simp]:
  "accepts (Rep lo hi (Cls P)) u \<longleftrightarrow>
     lo \<le> length u \<and> (\<forall>h. hi = Some h \<longrightarrow> length u \<le> h) \<and> (\<forall>c \<in> set u. P c)"
proof
  assume "accepts (Rep lo hi (Cls P)) u"
  then show "lo \<le> length u \<and> (\<forall>h. hi = Some h \<longrightarrow> length u \<le> h) \<and> (\<forall>c \<in> set u. P c)"
    by (auto dest!: accepts_matches matches_Rep_Cls)
next
  assume "lo \<le> length u \<and> (\<forall>h. hi = Some h \<longrightarrow> length u \<le> h) \<and> (\<forall>c \<in> set u. P c)"
  then show "accepts (Rep lo hi (Cls P)) u"
  proof (induction u arbitrary: lo hi)
    case Nil
    then show ?case by (auto intro: accepts_intros)
  next
    case (Cons c u)
    have "accepts (Rep (lo - 1) (map_option (\<lambda>h. h - 1) hi) (Cls P)) u"
      using Cons.prems by (intro Cons.IH) auto
    then have "accepts (Rep lo hi (Cls P)) ([c] @ u)"
      using Cons.prems by (intro accepts_intros) auto
    then show ?case by simp
  qed
qed

lemma plain_literal [simp]: "plain (literal w)"
  unfolding literal_def by (induction w rule: induct_list012) auto

lemma accepts_literal [simp]: "accepts (literal w) u \<longleftrightarrow> u = w"
proof (induction w arbitrary: u)
  case Nil
  then show ?case by (auto simp: literal_def)
next
  case (Cons c w)
  have "plain (literal w)" by (rule plain_literal)
  with Cons show ?case by (cases w) (auto simp: literal_def Cons_eq_append_conv)
qed

end
