(* ===== verification/Guardrails.thy ===== *)
theory Guardrails
  imports Regex "HOL-Library.List_Lexorder" "HOL-Library.Char_ord"
begin

text \<open>
  Guardrails: the checks of a message, of the agent's output and of a tool call. The types,
  the registry and the runner are \<^verbatim>\<open>packages/core/src/guardrails/\<close> (\<^verbatim>\<open>types.ts\<close>,
  \<^verbatim>\<open>registry.ts\<close>, \<^verbatim>\<open>runner.ts\<close>); the built-in guardrails, the model-backed ones, the
  per-agent aggregation and the audit record are
  \<^verbatim>\<open>packages/server/src/gateway/guardrails/\<close> (\<^verbatim>\<open>builtins.ts\<close>, \<^verbatim>\<open>judge-factory.ts\<close>,
  \<^verbatim>\<open>aggregator.ts\<close>, \<^verbatim>\<open>audit.ts\<close>).

  A guardrail's \<^verbatim>\<open>run\<close> is \<open>g_run\<close>: a result, an exception, or a question to the text judge,
  whose answer arrives later. The runner is a transition system, \<open>runner_step\<close>, whose steps
  are the callbacks the event loop runs, in any order: one where a guardrail's promise settles
  and one for its \<^verbatim>\<open>finally\<close>. The hash \<^verbatim>\<open>sha256\<close> and \<^verbatim>\<open>JSON.stringify\<close> (\<open>None\<close> where it
  throws or gives no text) are parameters; tool arguments are of any type \<open>'j\<close>.
\<close>

section \<open>Contexts, results, guardrails\<close>

datatype guardrail_stage = Input | Output | Pre_Tool

fun stage_name :: "guardrail_stage \<Rightarrow> string" where
  "stage_name Input = ''input''"
| "stage_name Output = ''output''"
| "stage_name Pre_Tool = ''pre-tool''"

record input_ctx =
  ic_agentId :: string
  ic_userId :: string
  ic_message :: string
  ic_platform :: string
  ic_conversationId :: "string option"

record output_ctx =
  oc_agentId :: string
  oc_userId :: string
  oc_text :: string
  oc_platform :: string
  oc_conversationId :: "string option"

record 'j pre_tool_ctx =
  tc_agentId :: string
  tc_userId :: string
  tc_toolName :: string
  tc_arguments :: 'j
  tc_conversationId :: "string option"

datatype 'j guardrail_ctx =
    Input_Ctx input_ctx | Output_Ctx output_ctx | Pre_Tool_Ctx "'j pre_tool_ctx"

text \<open>The fields the guardrails read; \<open>None\<close> is \<^verbatim>\<open>undefined\<close>, on a context of another stage.\<close>

fun ctx_message :: "'j guardrail_ctx \<Rightarrow> string option" where
  "ctx_message (Input_Ctx c) = Some (ic_message c)"
| "ctx_message _ = None"

fun ctx_text :: "'j guardrail_ctx \<Rightarrow> string option" where
  "ctx_text (Output_Ctx c) = Some (oc_text c)"
| "ctx_text _ = None"

fun ctx_tool :: "'j guardrail_ctx \<Rightarrow> 'j pre_tool_ctx option" where
  "ctx_tool (Pre_Tool_Ctx c) = Some c"
| "ctx_tool _ = None"

record guardrail_result =
  gr_tripped :: bool
  gr_reason :: "string option"
  gr_metadata :: "(string \<times> string) list option"

definition pass :: guardrail_result where
  "pass = \<lparr>gr_tripped = False, gr_reason = None, gr_metadata = None\<rparr>"

definition trip :: "string \<Rightarrow> (string \<times> string) list \<Rightarrow> guardrail_result" where
  "trip reason metadata = \<lparr>gr_tripped = True, gr_reason = Some reason, gr_metadata = Some metadata\<rparr>"

datatype guardrail_run =
    Result guardrail_result
  | Throws
  | Ask_Judge string string "string option"

record 'j guardrail =
  g_name :: string
  g_stage :: guardrail_stage
  g_run :: "'j guardrail_ctx \<Rightarrow> guardrail_run"

section \<open>The registry\<close>

type_synonym 'j registry = "(guardrail_stage, (string, 'j guardrail) jmap) jmap"

datatype registry_error = Already_Registered string guardrail_stage

definition stage_map :: "'j registry \<Rightarrow> guardrail_stage \<Rightarrow> (string, 'j guardrail) jmap" where
  "stage_map byStage stage = (case map_of byStage stage of None \<Rightarrow> [] | Some m \<Rightarrow> m)"

definition register :: "'j guardrail \<Rightarrow> 'j registry \<Rightarrow> registry_error + 'j registry" where
  "register g byStage =
     (let stageMap = stage_map byStage (g_stage g) in
      if map_of stageMap (g_name g) \<noteq> None
      then Inl (Already_Registered (g_name g) (g_stage g))
      else Inr (AList.update (g_stage g) (AList.update (g_name g) g stageMap) byStage))"

definition reg_get :: "'j registry \<Rightarrow> guardrail_stage \<Rightarrow> string \<Rightarrow> 'j guardrail option" where
  "reg_get byStage stage name =
     (case map_of byStage stage of None \<Rightarrow> None | Some stageMap \<Rightarrow> map_of stageMap name)"

definition reg_list :: "'j registry \<Rightarrow> guardrail_stage \<Rightarrow> 'j guardrail list" where
  "reg_list byStage stage =
     (case map_of byStage stage of None \<Rightarrow> [] | Some stageMap \<Rightarrow> map snd stageMap)"

definition reg_resolve :: "'j registry \<Rightarrow> guardrail_stage \<Rightarrow> string list \<Rightarrow> 'j guardrail list" where
  "reg_resolve byStage stage enabled =
     (case map_of byStage stage of None \<Rightarrow> []
      | Some stageMap \<Rightarrow> List.map_filter (map_of stageMap) enabled)"

section \<open>The runner\<close>

record trip_info =
  ti_guardrail :: string
  ti_reason :: "string option"
  ti_metadata :: "(string \<times> string) list option"

record run_outcome =
  ro_tripped :: "trip_info option"
  ro_ran :: "string list"

text \<open>
  One guardrail's promise chain: waiting for its \<^verbatim>\<open>run\<close> to settle, waiting for its
  \<^verbatim>\<open>finally\<close>, finished. \<open>rs_resolved\<close> is what the outer promise resolved to; it is set at most
  once, which is what the flag \<^verbatim>\<open>settled\<close> of the code ensures.
\<close>

datatype chain = Running | Settled | Finished

record runner_state =
  rs_chains :: "chain list"
  rs_ran :: "string list"
  rs_tripped :: "trip_info option"
  rs_remaining :: nat
  rs_resolved :: "run_outcome option"

definition finish :: "runner_state \<Rightarrow> runner_state" where
  "finish s = (case rs_resolved s of Some _ \<Rightarrow> s
     | None \<Rightarrow> s\<lparr>rs_resolved := Some \<lparr>ro_tripped = rs_tripped s, ro_ran = rs_ran s\<rparr>\<rparr>)"

definition run_start :: "'j guardrail list \<Rightarrow> runner_state" where
  "run_start guardrails =
     \<lparr>rs_chains = map (\<lambda>_. Running) guardrails, rs_ran = [], rs_tripped = None,
      rs_remaining = length guardrails,
      rs_resolved = (if guardrails = [] then Some \<lparr>ro_tripped = None, ro_ran = []\<rparr> else None)\<rparr>"

definition judge_result :: "guardrail_stage \<Rightarrow> bool \<times> string \<Rightarrow> guardrail_result" where
  "judge_result stage verdict =
     (if fst verdict then pass
      else trip (snd verdict) [(''source'', ''judge''), (''stage'', stage_name stage)])"

text \<open>What a guardrail's promise settles to (\<open>None\<close>: rejects), given the judge's answers.\<close>

definition settles :: "(string \<Rightarrow> string \<Rightarrow> string option \<Rightarrow> bool \<times> string) \<Rightarrow> 'j guardrail_ctx
    \<Rightarrow> 'j guardrail \<Rightarrow> guardrail_result option" where
  "settles decide ctx g =
     (case g_run g ctx of
        Result r \<Rightarrow> Some r
      | Throws \<Rightarrow> None
      | Ask_Judge policy text model \<Rightarrow>
          Some (judge_result (g_stage g) (decide policy text model)))"

definition on_result :: "'j guardrail \<Rightarrow> guardrail_result \<Rightarrow> runner_state \<Rightarrow> runner_state" where
  "on_result g result s =
     (let s = s\<lparr>rs_ran := rs_ran s @ [g_name g]\<rparr> in
      if rs_tripped s = None \<and> gr_tripped result
      then finish (s\<lparr>rs_tripped := Some \<lparr>ti_guardrail = g_name g,
             ti_reason = gr_reason result, ti_metadata = gr_metadata result\<rparr>\<rparr>)
      else s)"

definition on_finally :: "runner_state \<Rightarrow> runner_state" where
  "on_finally s =
     (let s = s\<lparr>rs_remaining := rs_remaining s - 1\<rparr> in
      if rs_remaining s = 0 then finish s else s)"

datatype run_event = Settles nat | Finally nat

inductive runner_step ::
    "(string \<Rightarrow> string \<Rightarrow> string option \<Rightarrow> bool \<times> string) \<Rightarrow> 'j guardrail_ctx \<Rightarrow>
     'j guardrail list \<Rightarrow> runner_state \<Rightarrow> run_event \<Rightarrow> runner_state \<Rightarrow> bool"
  for decide ctx guardrails where
  rs_result: "i < length guardrails \<Longrightarrow> rs_chains s ! i = Running \<Longrightarrow>
     settles decide ctx (guardrails ! i) = Some r \<Longrightarrow>
     runner_step decide ctx guardrails s (Settles i)
       ((on_result (guardrails ! i) r s)\<lparr>rs_chains := (rs_chains s)[i := Settled]\<rparr>)"
| rs_throw: "i < length guardrails \<Longrightarrow> rs_chains s ! i = Running \<Longrightarrow>
     settles decide ctx (guardrails ! i) = None \<Longrightarrow>
     runner_step decide ctx guardrails s (Settles i) (s\<lparr>rs_chains := (rs_chains s)[i := Settled]\<rparr>)"
| rs_finally: "i < length guardrails \<Longrightarrow> rs_chains s ! i = Settled \<Longrightarrow>
     runner_step decide ctx guardrails s (Finally i)
       ((on_finally s)\<lparr>rs_chains := (rs_chains s)[i := Finished]\<rparr>)"

inductive_cases runner_step_elims:
  "runner_step decide ctx guardrails s (Settles i) s'"
  "runner_step decide ctx guardrails s (Finally i) s'"

inductive runner_run ::
    "(string \<Rightarrow> string \<Rightarrow> string option \<Rightarrow> bool \<times> string) \<Rightarrow> 'j guardrail_ctx \<Rightarrow>
     'j guardrail list \<Rightarrow> run_event list \<Rightarrow> runner_state \<Rightarrow> bool"
  for decide ctx guardrails where
  rr_start: "runner_run decide ctx guardrails [] (run_start guardrails)"
| rr_step: "runner_run decide ctx guardrails es s \<Longrightarrow>
     runner_step decide ctx guardrails s e s' \<Longrightarrow> runner_run decide ctx guardrails (es @ [e]) s'"

text \<open>\<^verbatim>\<open>runGuardrails\<close> runs the guardrails that the names resolve to.\<close>

definition named_guardrails ::
    "'j registry \<Rightarrow> guardrail_stage \<Rightarrow> string list \<Rightarrow> 'j guardrail list" where
  "named_guardrails byStage stage enabled =
     (if enabled = [] then [] else reg_resolve byStage stage enabled)"

section \<open>Built-in guardrails\<close>

definition digit_re :: re where "digit_re = Cls is_digit"

definition alnum :: "char \<Rightarrow> bool" where "alnum c \<longleftrightarrow> is_alpha c \<or> is_digit c"

definition upper_digit :: "char \<Rightarrow> bool" where
  "upper_digit c \<longleftrightarrow> (65 \<le> code c \<and> code c \<le> 90) \<or> is_digit c"

definition base64url :: "char \<Rightarrow> bool" where
  "base64url c \<longleftrightarrow> alnum c \<or> c = CHR ''_'' \<or> c = CHR ''-''"

definition email_pattern :: re where
  "email_pattern = seq_of
     [at_least 1 (Cls (\<lambda>c. alnum c \<or> c \<in> set ''._%+-'')), chr CHR ''@'',
      at_least 1 (Cls (\<lambda>c. alnum c \<or> c \<in> set ''.-'')), chr CHR ''.'', at_least 2 (Cls is_alpha)]"

definition separator_re :: re where
  "separator_re = Cls (\<lambda>c. c = CHR ''-'' \<or> c = CHR ''.'' \<or> is_space c)"

definition phone_pattern :: re where
  "phone_pattern = seq_of
     [Alt Line_Start (Cls (\<lambda>c. \<not> is_digit c)),
      opt (seq_of [opt (chr CHR ''+''), chr CHR ''1'', opt separator_re]),
      opt (chr CHR ''(''), Word_Boundary, exactly 3 digit_re, opt (chr CHR '')''),
      separator_re, exactly 3 digit_re, separator_re, exactly 4 digit_re, Word_Boundary]"

definition card_pattern :: re where
  "card_pattern = seq_of
     [Word_Boundary,
      Rep 12 (Some 18) (Seq digit_re (opt (Cls (\<lambda>c. c = CHR '' '' \<or> c = CHR ''-'')))),
      digit_re, Word_Boundary]"

text \<open>The loop of \<^verbatim>\<open>luhnValid\<close> runs from the last digit to the first.\<close>

primrec luhn_sum :: "bool \<Rightarrow> string \<Rightarrow> nat" where
  "luhn_sum alt [] = 0"
| "luhn_sum alt (c # ds) =
     (let d = code c - 48;
          v = (if alt then (if 9 < d * 2 then d * 2 - 9 else d * 2) else d) in
      v + luhn_sum (\<not> alt) ds)"

definition luhnValid :: "string \<Rightarrow> bool" where
  "luhnValid candidate =
     (let digits = filter is_digit candidate in
      if length digits < 13 \<or> 19 < length digits then False
      else luhn_sum False (rev digits) mod 10 = 0)"

definition scanCreditCard :: "string \<Rightarrow> string option" where
  "scanCreditCard text =
     (case find luhnValid (match_all card_pattern text) of
        None \<Rightarrow> None | Some _ \<Rightarrow> Some ''credit-card'')"

definition pii_shape_patterns :: "(string \<times> re) list" where
  "pii_shape_patterns = [(''email'', email_pattern), (''us-phone'', phone_pattern)]"

definition scanForPii :: "string \<Rightarrow> string option" where
  "scanForPii text =
     (case find (\<lambda>(kind, pattern). re_test pattern text) pii_shape_patterns of
        Some (kind, _) \<Rightarrow> Some kind
      | None \<Rightarrow> scanCreditCard text)"

definition safeStringify :: "('j \<Rightarrow> string option) \<Rightarrow> 'j option \<Rightarrow> string" where
  "safeStringify stringify v =
     (case Option.bind v stringify of Some s \<Rightarrow> s | None \<Rightarrow> ''<unserializable>'')"

definition extractTextForPii ::
    "('j \<Rightarrow> string option) \<Rightarrow> guardrail_stage \<Rightarrow> 'j guardrail_ctx \<Rightarrow> string option" where
  "extractTextForPii stringify stage ctx =
     (case stage of
        Input \<Rightarrow> ctx_message ctx
      | Output \<Rightarrow> ctx_text ctx
      | Pre_Tool \<Rightarrow> Some (safeStringify stringify (map_option tc_arguments (ctx_tool ctx))))"

definition createPiiScanGuardrail ::
    "('j \<Rightarrow> string option) \<Rightarrow> guardrail_stage \<Rightarrow> string \<Rightarrow> 'j guardrail" where
  "createPiiScanGuardrail stringify stage name =
     \<lparr>g_name = name, g_stage = stage,
      g_run = (\<lambda>ctx. case extractTextForPii stringify stage ctx of
         None \<Rightarrow> Throws
       | Some text \<Rightarrow> Result (case scanForPii text of
             None \<Rightarrow> pass
           | Some kind \<Rightarrow> trip (''Potential PII detected ('' @ kind @ '')'') [(''kind'', kind)]))\<rparr>"

definition secret_patterns :: "(string \<times> re) list" where
  "secret_patterns =
     [(''openai-key'', Seq (literal ''sk-'') (at_least 20 (Cls alnum))),
      (''github-pat'', Seq (literal ''ghp_'') (exactly 36 (Cls alnum))),
      (''aws-access-key'', Seq (literal ''AKIA'') (exactly 16 (Cls upper_digit))),
      (''jwt'', seq_of [literal ''eyJ'', at_least 40 (Cls base64url), literal ''.eyJ'',
         at_least 1 (Cls base64url), chr CHR ''.'', at_least 1 (Cls base64url)])]"

definition scan_secrets :: "string \<Rightarrow> guardrail_result" where
  "scan_secrets text =
     (case find (\<lambda>(name, re). re_test re text) secret_patterns of
        None \<Rightarrow> pass
      | Some (name, _) \<Rightarrow>
          trip (''Output contains a value that looks like a '' @ name) [(''pattern'', name)])"

definition secretScanGuardrail :: "'j guardrail" where
  "secretScanGuardrail =
     \<lparr>g_name = ''secret-scan'', g_stage = Output,
      g_run = (\<lambda>ctx. Result (case ctx_text ctx of None \<Rightarrow> pass
         | Some text \<Rightarrow> if text = [] then pass else scan_secrets text))\<rparr>"

definition forbidden_tools :: "string set" where
  "forbidden_tools = {''delete_repo'', ''delete_branch'', ''drop_table''}"

definition forbiddenToolsGuardrail :: "'j guardrail" where
  "forbiddenToolsGuardrail =
     \<lparr>g_name = ''forbidden-tools'', g_stage = Pre_Tool,
      g_run = (\<lambda>ctx. Result (case ctx_tool ctx of None \<Rightarrow> pass
         | Some c \<Rightarrow> if tc_toolName c \<in> forbidden_tools
             then trip (''Tool \"'' @ tc_toolName c @ ''\" is on the built-in deny list'')
                    [(''toolName'', tc_toolName c)]
             else pass))\<rparr>"

primrec register_all :: "'j guardrail list \<Rightarrow> 'j registry \<Rightarrow> registry_error + 'j registry" where
  "register_all [] reg = Inr reg"
| "register_all (g # gs) reg =
     (case register g reg of Inl e \<Rightarrow> Inl e | Inr reg \<Rightarrow> register_all gs reg)"

definition registerBuiltinGuardrails ::
    "('j \<Rightarrow> string option) \<Rightarrow> 'j registry \<Rightarrow> registry_error + 'j registry" where
  "registerBuiltinGuardrails stringify = register_all
     [secretScanGuardrail, forbiddenToolsGuardrail,
      createPiiScanGuardrail stringify Input ''pii-scan'',
      createPiiScanGuardrail stringify Output ''pii-scan'',
      createPiiScanGuardrail stringify Pre_Tool ''pii-scan'']"

definition builtin_factory ::
    "('j \<Rightarrow> string option) \<Rightarrow> string \<Rightarrow> (guardrail_stage \<Rightarrow> string \<Rightarrow> 'j guardrail) option" where
  "builtin_factory stringify = map_of
     [(''pii-scan'', createPiiScanGuardrail stringify),
      (''secret-scan'', \<lambda>_ _. secretScanGuardrail),
      (''forbidden-tools'', \<lambda>_ _. forbiddenToolsGuardrail)]"

section \<open>Model-backed guardrails\<close>

definition extractText ::
    "('j \<Rightarrow> string option) \<Rightarrow> guardrail_stage \<Rightarrow> 'j guardrail_ctx \<Rightarrow> string option" where
  "extractText stringify stage ctx =
     (case stage of
        Input \<Rightarrow> ctx_message ctx
      | Output \<Rightarrow> ctx_text ctx
      | Pre_Tool \<Rightarrow> Some (''tool: ''
          @ (case ctx_tool ctx of None \<Rightarrow> ''undefined'' | Some c \<Rightarrow> tc_toolName c)
          @ [char_of (10 :: nat)] @ ''arguments: ''
          @ safeStringify stringify (map_option tc_arguments (ctx_tool ctx))))"

definition unit_separator :: char where
  "unit_separator = char_of (31 :: nat)"

definition inlineJudgeHash :: "(string \<Rightarrow> string) \<Rightarrow> string \<Rightarrow> string list option \<Rightarrow> string" where
  "inlineJudgeHash sha256 policy tools =
     (let normalizedTools = (case tools of None \<Rightarrow> []
            | Some ts \<Rightarrow> if ts = [] then [] else join '','' (sort ts))
      in take 8 (sha256 (policy @ [unit_separator] @ normalizedTools)))"

record judge_options =
  jo_name :: "string option"
  jo_model :: "string option"
  jo_tools :: "string list option"

definition createJudgeGuardrail :: "(string \<Rightarrow> string) \<Rightarrow> ('j \<Rightarrow> string option) \<Rightarrow>
    guardrail_stage \<Rightarrow> string \<Rightarrow> judge_options \<Rightarrow> 'j guardrail" where
  "createJudgeGuardrail sha256 stringify stage policy options =
     (let name = (case jo_name options of Some n \<Rightarrow> n
            | None \<Rightarrow> ''inline:'' @ stage_name stage @ '':''
                @ inlineJudgeHash sha256 policy (jo_tools options));
          toolFilter = (case jo_tools options of None \<Rightarrow> None
            | Some ts \<Rightarrow> if stage = Pre_Tool \<and> ts \<noteq> [] then Some (set ts) else None)
      in \<lparr>g_name = name, g_stage = stage,
          g_run = (\<lambda>ctx.
            if stage = Pre_Tool \<and> (case toolFilter of None \<Rightarrow> False
                 | Some F \<Rightarrow> (case ctx_tool ctx of None \<Rightarrow> True | Some c \<Rightarrow> tc_toolName c \<notin> F))
            then Result pass
            else (case extractText stringify stage ctx of
                    None \<Rightarrow> Throws
                  | Some text \<Rightarrow> Ask_Judge policy text (jo_model options)))\<rparr>)"

section \<open>The guardrails of an agent\<close>

datatype skill_pre_tool =
    Builtin string
  | Judge string "string list option"

record skill_config =
  sk_name :: string
  sk_enabled :: bool
  sk_preTool :: "skill_pre_tool list option"

record agent_settings =
  as_guardrails :: "string list option"
  as_skills :: "skill_config list option"

record inline_entry =
  ie_stage :: guardrail_stage
  ie_judge :: string
  ie_tools :: "string list option"

record guardrail_extras =
  ge_inline :: "inline_entry list option"
  ge_disabled :: "string list option"

definition no_extras :: guardrail_extras where
  "no_extras = \<lparr>ge_inline = None, ge_disabled = None\<rparr>"

record 'j resolved_guardrails =
  rg_byStage :: "guardrail_stage \<Rightarrow> 'j guardrail list"
  rg_names :: "guardrail_stage \<Rightarrow> string list"

type_synonym 'j seen = "guardrail_stage \<Rightarrow> (string, 'j guardrail) jmap"

definition see :: "guardrail_stage \<Rightarrow> 'j guardrail \<Rightarrow> 'j seen \<Rightarrow> 'j seen" where
  "see stage g seen =
     (if map_of (seen stage) (g_name g) \<noteq> None then seen
      else seen(stage := AList.update (g_name g) g (seen stage)))"

definition materializeSkillPreTool :: "(string \<Rightarrow> string) \<Rightarrow> ('j \<Rightarrow> string option) \<Rightarrow>
    skill_pre_tool \<Rightarrow> skill_config \<Rightarrow> 'j registry \<Rightarrow> 'j guardrail option" where
  "materializeSkillPreTool sha256 stringify entry skill registry =
     (case entry of
        Builtin name \<Rightarrow> reg_get registry Pre_Tool name
      | Judge policy tools \<Rightarrow> Some (createJudgeGuardrail sha256 stringify Pre_Tool policy
          \<lparr>jo_name = Some (''skill:'' @ sk_name skill @ '':inline:pre-tool:''
              @ inlineJudgeHash sha256 policy tools),
           jo_model = None, jo_tools = tools\<rparr>))"

definition see_enabled :: "'j registry \<Rightarrow> string list \<Rightarrow> 'j seen \<Rightarrow> 'j seen" where
  "see_enabled registry enabled seen =
     (if enabled = [] then seen
      else fold (\<lambda>stage. fold (see stage) (reg_resolve registry stage enabled))
             [Input, Output, Pre_Tool] seen)"

definition see_skill :: "(string \<Rightarrow> string) \<Rightarrow> ('j \<Rightarrow> string option) \<Rightarrow>
    'j registry \<Rightarrow> skill_config \<Rightarrow> 'j seen \<Rightarrow> 'j seen" where
  "see_skill sha256 stringify registry skill seen =
     (if \<not> sk_enabled skill then seen
      else (case sk_preTool skill of
          None \<Rightarrow> seen
        | Some preToolList \<Rightarrow>
            fold (\<lambda>entry seen.
                case materializeSkillPreTool sha256 stringify entry skill registry of
                  None \<Rightarrow> seen
                | Some g \<Rightarrow> see Pre_Tool g seen) preToolList seen))"

definition see_inline :: "(string \<Rightarrow> string) \<Rightarrow> ('j \<Rightarrow> string option) \<Rightarrow>
    inline_entry \<Rightarrow> 'j seen \<Rightarrow> 'j seen" where
  "see_inline sha256 stringify entry =
     see (ie_stage entry) (createJudgeGuardrail sha256 stringify (ie_stage entry) (ie_judge entry)
       \<lparr>jo_name = None, jo_model = None, jo_tools = ie_tools entry\<rparr>)"

definition without :: "string set \<Rightarrow> (string, 'j guardrail) jmap \<Rightarrow> (string, 'j guardrail) jmap" where
  "without disabled m = filter (\<lambda>p. fst p \<notin> disabled) m"

definition or_empty :: "'a list option \<Rightarrow> 'a list" where
  "or_empty xs = (case xs of None \<Rightarrow> [] | Some ys \<Rightarrow> ys)"

definition resolveAgentGuardrails :: "(string \<Rightarrow> string) \<Rightarrow> ('j \<Rightarrow> string option) \<Rightarrow>
    string list option \<Rightarrow> skill_config list \<Rightarrow> 'j registry \<Rightarrow> guardrail_extras \<Rightarrow>
    'j resolved_guardrails" where
  "resolveAgentGuardrails sha256 stringify agentGuardrails enabledSkills registry extras =
     (let seen = see_enabled registry (or_empty agentGuardrails) (\<lambda>_. []);
          seen = fold (see_skill sha256 stringify registry) enabledSkills seen;
          seen = fold (see_inline sha256 stringify) (or_empty (ge_inline extras)) seen;
          disabled = set (or_empty (ge_disabled extras))
      in \<lparr>rg_byStage = (\<lambda>stage. map snd (without disabled (seen stage))),
          rg_names = (\<lambda>stage. map fst (without disabled (seen stage)))\<rparr>)"

section \<open>Where the gateway asks\<close>

record trip_params =
  tp_organizationId :: "string option"
  tp_agentId :: string
  tp_userId :: "string option"
  tp_conversationId :: "string option"
  tp_stage :: guardrail_stage
  tp_guardrail :: string
  tp_reason :: "string option"
  tp_metadata :: "(string \<times> string) list option"

record trip_event =
  te_organizationId :: string
  te_originId :: string
  te_title :: string
  te_originType :: string
  te_guardrail :: string
  te_stage :: string
  te_reason :: "string option"
  te_agent_id :: string
  te_user_id :: "string option"
  te_conversation_id :: "string option"
  te_guardrail_metadata :: "(string \<times> string) list option"

text \<open>The row \<^verbatim>\<open>doRecordGuardrailTrip\<close> inserts; without an organisation there is none.\<close>

definition doRecordGuardrailTrip :: "ms \<Rightarrow> trip_params \<Rightarrow> trip_event option" where
  "doRecordGuardrailTrip now params =
     (case tp_organizationId params of
        None \<Rightarrow> None
      | Some org \<Rightarrow>
         if org = [] then None
         else Some
           \<lparr>te_organizationId = org,
            te_originId = join ''_'' [''guardrail_trip'', stage_name (tp_stage params),
              tp_guardrail params, tp_agentId params, show_int now],
            te_title = ''Guardrail \"'' @ tp_guardrail params @ ''\" tripped at ''
              @ stage_name (tp_stage params),
            te_originType = ''guardrail-'' @ stage_name (tp_stage params),
            te_guardrail = tp_guardrail params, te_stage = stage_name (tp_stage params),
            te_reason = tp_reason params, te_agent_id = tp_agentId params,
            te_user_id = tp_userId params, te_conversation_id = tp_conversationId params,
            te_guardrail_metadata = tp_metadata params\<rparr>)"

text \<open>
  The effective list of a stage at the call sites, from what the settings store answered. The
  callers pass no \<^verbatim>\<open>extras\<close>.
\<close>

definition stage_guardrails :: "(string \<Rightarrow> string) \<Rightarrow> ('j \<Rightarrow> string option) \<Rightarrow>
    'j registry \<Rightarrow> agent_settings option \<Rightarrow> guardrail_stage \<Rightarrow> 'j guardrail list" where
  "stage_guardrails sha256 stringify registry settings stage =
     rg_byStage (resolveAgentGuardrails sha256 stringify
       (case settings of None \<Rightarrow> Some [] | Some st \<Rightarrow> as_guardrails st)
       (filter sk_enabled (or_empty (Option.bind settings as_skills))) registry no_extras) stage"

text \<open>
  \<^verbatim>\<open>runPreToolGuardrails\<close> of the tool proxy and the input check of the message consumer.
  \<open>registry\<close> is \<open>None\<close> when guardrails are not wired; \<open>lookup\<close> is what \<^verbatim>\<open>getSettings\<close> does
  (\<open>None\<close>: rejects), \<open>org_lookup\<close> what \<^verbatim>\<open>getMetadata\<close> knows of the organisation; \<open>race\<close> is the
  outcome of the runner. The result is the trip, if any, and the audit record it causes.
\<close>

definition owner_org :: "string option \<Rightarrow> string option \<Rightarrow> string option" where
  "owner_org own looked_up = (if truthy own then own else looked_up)"

definition guarded_trip :: "(string \<Rightarrow> string) \<Rightarrow> ('j \<Rightarrow> string option) \<Rightarrow>
    'j registry option \<Rightarrow> agent_settings option option \<Rightarrow> guardrail_stage \<Rightarrow>
    ('j guardrail list \<Rightarrow> run_outcome) \<Rightarrow> trip_info option" where
  "guarded_trip sha256 stringify registry lookup stage race =
     (case (registry, lookup) of
        (Some reg, Some settings) \<Rightarrow>
          (let list = stage_guardrails sha256 stringify reg settings stage in
           if list = [] then None else ro_tripped (race list))
      | _ \<Rightarrow> None)"

definition audit_of :: "string option \<Rightarrow> string \<Rightarrow> string \<Rightarrow> string option \<Rightarrow> guardrail_stage \<Rightarrow>
    trip_info \<Rightarrow> trip_params" where
  "audit_of org agentId userId conversationId stage t =
     \<lparr>tp_organizationId = org, tp_agentId = agentId, tp_userId = Some userId,
      tp_conversationId = conversationId, tp_stage = stage, tp_guardrail = ti_guardrail t,
      tp_reason = ti_reason t, tp_metadata = ti_metadata t\<rparr>"

definition runPreToolGuardrails :: "(string \<Rightarrow> string) \<Rightarrow> ('j \<Rightarrow> string option) \<Rightarrow>
    'j registry option \<Rightarrow> agent_settings option option \<Rightarrow> string option \<Rightarrow> string option \<Rightarrow>
    'j pre_tool_ctx \<Rightarrow> ('j guardrail_ctx \<Rightarrow> 'j guardrail list \<Rightarrow> run_outcome) \<Rightarrow>
    bool \<times> trip_params option" where
  "runPreToolGuardrails sha256 stringify registry lookup token_org org_lookup c race =
     (case guarded_trip sha256 stringify registry lookup Pre_Tool (race (Pre_Tool_Ctx c)) of
        None \<Rightarrow> (False, None)
      | Some t \<Rightarrow> (True, Some (audit_of (owner_org token_org org_lookup)
          (tc_agentId c) (tc_userId c) (tc_conversationId c) Pre_Tool t)))"

definition input_trip :: "(string \<Rightarrow> string) \<Rightarrow> ('j \<Rightarrow> string option) \<Rightarrow>
    'j registry option \<Rightarrow> agent_settings option option \<Rightarrow> string option \<Rightarrow> string option \<Rightarrow>
    input_ctx \<Rightarrow> ('j guardrail_ctx \<Rightarrow> 'j guardrail list \<Rightarrow> run_outcome) \<Rightarrow>
    (string \<times> string) option \<times> trip_params option" where
  "input_trip sha256 stringify registry lookup org org_lookup c race =
     (if ic_agentId c = [] \<or> ic_message c = [] then (None, None)
      else (case guarded_trip sha256 stringify registry lookup Input (race (Input_Ctx c)) of
          None \<Rightarrow> (None, None)
        | Some t \<Rightarrow>
            (Some ((case ti_reason t of None \<Rightarrow> ''blocked by policy'' | Some r \<Rightarrow> r),
                   ti_guardrail t),
             Some (audit_of (owner_org org org_lookup) (ic_agentId c) (ic_userId c)
               (ic_conversationId c) Input t))))"

section \<open>The registry as a catalogue\<close>

text \<open>
  What the aggregation needs of the registry: names resolve in order, and what a name resolves
  to carries that name and the stage asked for.
\<close>

locale guardrail_catalogue =
  fixes lookup :: "'r \<Rightarrow> guardrail_stage \<Rightarrow> string \<Rightarrow> 'j guardrail option"
    and resolve :: "'r \<Rightarrow> guardrail_stage \<Rightarrow> string list \<Rightarrow> 'j guardrail list"
    and ok :: "'r \<Rightarrow> bool"
  assumes resolve_lookup: "resolve r stage names = List.map_filter (lookup r stage) names"
    and lookup_own: "ok r \<Longrightarrow> lookup r stage n = Some g \<Longrightarrow> g_name g = n \<and> g_stage g = stage"
begin

lemma resolve_names:
  "ok r \<Longrightarrow> map g_name (resolve r stage names) = filter (\<lambda>n. lookup r stage n \<noteq> None) names"
  unfolding resolve_lookup
  by (induction names) (auto simp: List.map_filter_simps lookup_own split: option.splits)

lemma resolve_stage: "ok r \<Longrightarrow> g \<in> set (resolve r stage names) \<Longrightarrow> g_stage g = stage"
  unfolding resolve_lookup by (auto simp: List.map_filter_def lookup_own)

lemma resolve_member:
  "lookup r stage n = Some g \<Longrightarrow> n \<in> set names \<Longrightarrow> g \<in> set (resolve r stage names)"
  unfolding resolve_lookup by (force simp: List.map_filter_def)

end

definition registry_ok :: "'j registry \<Rightarrow> bool" where
  "registry_ok reg \<longleftrightarrow> jm_wf reg \<and> (\<forall>stage. jm_wf (stage_map reg stage) \<and>
     (\<forall>n g. map_of (stage_map reg stage) n = Some g \<longrightarrow> g_name g = n \<and> g_stage g = stage))"

lemma reg_get_stage_map: "reg_get reg stage n = map_of (stage_map reg stage) n"
  by (simp add: reg_get_def stage_map_def split: option.splits)

interpretation registry: guardrail_catalogue reg_get reg_resolve registry_ok
proof (unfold_locales, goal_cases)
  case (1 reg stage names)
  show ?case
    by (cases "map_of reg stage") (simp_all add: reg_resolve_def reg_get_def List.map_filter_def)
next
  case (2 reg stage n g)
  then show ?case by (simp add: registry_ok_def reg_get_stage_map)
qed

lemma stage_map_update:
  "stage_map (AList.update stage m reg) stage' = (if stage' = stage then m else stage_map reg stage')"
  by (simp add: stage_map_def jm_get_set)

lemma register_ok:
  assumes "registry_ok reg" and "register g reg = Inr reg'"
  shows "registry_ok reg'"
proof -
  let ?m = "stage_map reg (g_stage g)"
  have reg': "reg' = AList.update (g_stage g) (AList.update (g_name g) g ?m) reg"
    using assms(2) by (auto simp: register_def Let_def split: if_splits)
  have "jm_wf reg'" "\<And>stage. jm_wf (stage_map reg' stage)"
    using assms(1) by (auto simp: registry_ok_def jm_wf_def reg' stage_map_update distinct_update)
  moreover have "g_name h = n \<and> g_stage h = stage"
    if "map_of (stage_map reg' stage) n = Some h" for stage n h
    using that assms(1) by (simp add: registry_ok_def reg' stage_map_update jm_get_set split: if_splits)
  ultimately show ?thesis unfolding registry_ok_def by blast
qed

lemma register_all_ok: "registry_ok reg \<Longrightarrow> register_all gs reg = Inr reg' \<Longrightarrow> registry_ok reg'"
  by (induction gs arbitrary: reg) (auto split: sum.splits intro: register_ok)

lemma register_get:
  "register g reg = Inr reg' \<Longrightarrow> reg_get reg' stage n =
     (if stage = g_stage g \<and> n = g_name g then Some g else reg_get reg stage n)"
  by (auto simp: register_def Let_def reg_get_stage_map stage_map_update jm_get_set split: if_splits)

lemma registry_ok_Nil [simp]: "registry_ok []"
  by (simp add: registry_ok_def jm_wf_def stage_map_def)

section \<open>The guardrails an agent gets\<close>

text \<open>
  The reference: all candidates of a stage in the order of precedence, the first of each name,
  without the names the operator excludes.
\<close>

fun first_by_name :: "'j guardrail list \<Rightarrow> 'j guardrail list" where
  "first_by_name [] = []"
| "first_by_name (g # gs) = g # filter (\<lambda>h. g_name h \<noteq> g_name g) (first_by_name gs)"

definition skill_guardrails :: "(string \<Rightarrow> string) \<Rightarrow> ('j \<Rightarrow> string option) \<Rightarrow>
    'j registry \<Rightarrow> skill_config \<Rightarrow> 'j guardrail list" where
  "skill_guardrails sha256 stringify reg skill =
     (if sk_enabled skill
      then List.map_filter (\<lambda>e. materializeSkillPreTool sha256 stringify e skill reg)
             (or_empty (sk_preTool skill))
      else [])"

definition inline_guardrail :: "(string \<Rightarrow> string) \<Rightarrow> ('j \<Rightarrow> string option) \<Rightarrow>
    inline_entry \<Rightarrow> 'j guardrail" where
  "inline_guardrail sha256 stringify e =
     createJudgeGuardrail sha256 stringify (ie_stage e) (ie_judge e)
       \<lparr>jo_name = None, jo_model = None, jo_tools = ie_tools e\<rparr>"

definition candidates :: "(string \<Rightarrow> string) \<Rightarrow> ('j \<Rightarrow> string option) \<Rightarrow>
    string list option \<Rightarrow> skill_config list \<Rightarrow> 'j registry \<Rightarrow> guardrail_extras \<Rightarrow>
    guardrail_stage \<Rightarrow> 'j guardrail list" where
  "candidates sha256 stringify agentGuardrails skills reg extras stage =
     reg_resolve reg stage (or_empty agentGuardrails)
     @ (if stage = Pre_Tool then concat (map (skill_guardrails sha256 stringify reg) skills) else [])
     @ map (inline_guardrail sha256 stringify)
         (filter (\<lambda>e. ie_stage e = stage) (or_empty (ge_inline extras)))"

definition named :: "'j guardrail list \<Rightarrow> (string, 'j guardrail) jmap" where
  "named gs = map (\<lambda>g. (g_name g, g)) gs"

lemma map_of_named_None: "map_of (named gs) n = None \<longleftrightarrow> n \<notin> g_name ` set gs"
  by (induction gs) (auto simp: named_def)

lemma update_named: "g_name g \<notin> g_name ` set gs \<Longrightarrow>
    AList.update (g_name g) g (named gs) = named (gs @ [g])"
  by (induction gs) (auto simp: named_def)

lemma names_first_by_name: "g_name ` set (first_by_name gs) = g_name ` set gs"
proof (induction gs)
  case (Cons g gs)
  have "g_name ` set (first_by_name (g # gs)) =
      insert (g_name g) (g_name ` set (first_by_name gs) - {g_name g})" by auto
  with Cons show ?case by simp
qed simp

lemma first_by_name_snoc:
  "first_by_name (gs @ [g]) =
     (if g_name g \<in> g_name ` set gs then first_by_name gs else first_by_name gs @ [g])"
  by (induction gs) auto

text \<open>\<open>seen_as seen c\<close>: per stage, the map holds the first of each name among \<open>c\<close>.\<close>

definition seen_as :: "'j seen \<Rightarrow> (guardrail_stage \<Rightarrow> 'j guardrail list) \<Rightarrow> bool" where
  "seen_as seen c \<longleftrightarrow> (\<forall>stage. seen stage = named (first_by_name (c stage)))"

lemma seen_as_see:
  assumes "seen_as seen c"
  shows "seen_as (see stage g seen) (c(stage := c stage @ [g]))"
  using assms unfolding seen_as_def see_def
  by (auto simp: map_of_named_None names_first_by_name first_by_name_snoc update_named
      simp flip: not_None_eq)

lemma seen_as_cong: "seen_as seen c \<Longrightarrow> (\<And>stage. c stage = c' stage) \<Longrightarrow> seen_as seen c'"
  by (simp add: seen_as_def)

lemma seen_as_fold_see:
  "seen_as seen c \<Longrightarrow> seen_as (fold (see stage) gs seen) (c(stage := c stage @ gs))"
proof (induction gs arbitrary: seen c)
  case (Cons g gs)
  let ?c = "c(stage := c stage @ [g])"
  have "seen_as (fold (see stage) (g # gs) seen) (?c(stage := ?c stage @ gs))"
    using Cons.IH [OF seen_as_see [OF Cons.prems]] by (simp only: fold_simps)
  then show ?case by (rule seen_as_cong) simp
qed simp

lemma seen_as_enabled:
  "seen_as (see_enabled reg enabled (\<lambda>_. [])) (\<lambda>stage. reg_resolve reg stage enabled)"
proof -
  have start: "seen_as (\<lambda>_. []) (\<lambda>_. [])" by (simp add: seen_as_def named_def)
  show ?thesis
  proof (cases "enabled = []")
    case True
    then have "reg_resolve reg stage enabled = []" for stage
      by (simp add: registry.resolve_lookup List.map_filter_def)
    with start True show ?thesis by (simp add: see_enabled_def)
  next
    case False
    have "seen_as (see_enabled reg enabled (\<lambda>_. []))
      ((((\<lambda>_. []) (Input := reg_resolve reg Input enabled))
          (Output := reg_resolve reg Output enabled)) (Pre_Tool := reg_resolve reg Pre_Tool enabled))"
      using False seen_as_fold_see [OF seen_as_fold_see [OF seen_as_fold_see [OF start]],
        of Pre_Tool "reg_resolve reg Pre_Tool enabled" Output "reg_resolve reg Output enabled"
           Input "reg_resolve reg Input enabled"]
      by (simp add: see_enabled_def)
    then show ?thesis
    proof (rule seen_as_cong)
      fix stage
      show "((((\<lambda>_. []) (Input := reg_resolve reg Input enabled))
          (Output := reg_resolve reg Output enabled)) (Pre_Tool := reg_resolve reg Pre_Tool enabled))
          stage = reg_resolve reg stage enabled"
        by (cases stage) simp_all
    qed
  qed
qed

lemma fold_option:
  "fold (\<lambda>x a. case f x of None \<Rightarrow> a | Some y \<Rightarrow> g y a) xs a = fold g (List.map_filter f xs) a"
  by (induction xs arbitrary: a) (auto simp: List.map_filter_simps split: option.splits)

lemma see_skill_fold:
  "see_skill sha256 stringify reg skill seen =
     fold (see Pre_Tool) (skill_guardrails sha256 stringify reg skill) seen"
  by (simp add: see_skill_def skill_guardrails_def fold_option or_empty_def
      List.map_filter_simps split: option.splits)

lemma seen_as_skills:
  "seen_as seen c \<Longrightarrow> seen_as (fold (see_skill sha256 stringify reg) skills seen)
     (c(Pre_Tool := c Pre_Tool @ concat (map (skill_guardrails sha256 stringify reg) skills)))"
proof (induction skills arbitrary: seen c)
  case (Cons skill skills)
  let ?gs = "skill_guardrails sha256 stringify reg skill"
  have "seen_as (see_skill sha256 stringify reg skill seen) (c(Pre_Tool := c Pre_Tool @ ?gs))"
    unfolding see_skill_fold using Cons.prems by (rule seen_as_fold_see)
  from Cons.IH [OF this] show ?case by (simp add: seen_as_def)
qed simp

lemma seen_as_inline:
  "seen_as seen c \<Longrightarrow> seen_as (fold (see_inline sha256 stringify) es seen)
     (\<lambda>stage. c stage @ map (inline_guardrail sha256 stringify) (filter (\<lambda>e. ie_stage e = stage) es))"
proof (induction es arbitrary: seen c)
  case (Cons e es)
  have "seen_as (see_inline sha256 stringify e seen)
      (c(ie_stage e := c (ie_stage e) @ [inline_guardrail sha256 stringify e]))"
    unfolding see_inline_def inline_guardrail_def using Cons.prems by (rule seen_as_see)
  from Cons.IH [OF this] show ?case
    by (auto simp: seen_as_def)
qed simp

lemma resolve_agent_reference:
  assumes "r = resolveAgentGuardrails sha256 stringify agentGuardrails skills reg extras"
    and "cs = candidates sha256 stringify agentGuardrails skills reg extras stage"
  shows "rg_byStage r stage =
       filter (\<lambda>g. g_name g \<notin> set (or_empty (ge_disabled extras))) (first_by_name cs)"
    and "rg_names r stage = map g_name (rg_byStage r stage)"
proof -
  let ?seen = "fold (see_inline sha256 stringify) (or_empty (ge_inline extras))
    (fold (see_skill sha256 stringify reg) skills
      (see_enabled reg (or_empty agentGuardrails) (\<lambda>_. [])))"
  have "?seen stage = named (first_by_name cs)"
    using seen_as_inline [OF seen_as_skills [OF seen_as_enabled],
        of sha256 stringify "or_empty (ge_inline extras)" sha256 stringify reg skills reg
          "or_empty agentGuardrails"]
    by (simp add: seen_as_def assms(2) candidates_def)
  then show "rg_byStage r stage =
       filter (\<lambda>g. g_name g \<notin> set (or_empty (ge_disabled extras))) (first_by_name cs)"
    "rg_names r stage = map g_name (rg_byStage r stage)"
    by (simp_all add: assms(1) resolveAgentGuardrails_def Let_def without_def named_def
        filter_map comp_def)
qed

lemma distinct_first_by_name: "distinct (map g_name (first_by_name gs))"
proof (induction gs)
  case (Cons g gs)
  then show ?case by (auto simp: distinct_map intro: inj_on_subset)
qed simp

lemma first_by_name_first:
  "g \<in> set (first_by_name gs) \<longleftrightarrow>
     (\<exists>us vs. gs = us @ g # vs \<and> g_name g \<notin> g_name ` set us)"
proof (induction gs)
  case (Cons h gs)
  have "(\<exists>us vs. h # gs = us @ g # vs \<and> g_name g \<notin> g_name ` set us) \<longleftrightarrow>
     h = g \<or> (g_name g \<noteq> g_name h \<and> (\<exists>us vs. gs = us @ g # vs \<and> g_name g \<notin> g_name ` set us))"
    (is "?L \<longleftrightarrow> ?R")
  proof
    assume ?L then show ?R by (auto simp: Cons_eq_append_conv)
  next
    assume r: ?R
    show ?L
    proof (cases "h = g")
      case True
      then show ?thesis by (intro exI [of _ "[]"] exI [of _ gs]) auto
    next
      case False
      with r obtain us vs where "gs = us @ g # vs" "g_name g \<notin> g_name ` set us"
        "g_name g \<noteq> g_name h" by blast
      then show ?thesis by (intro exI [of _ "h # us"] exI [of _ vs]) auto
    qed
  qed
  with Cons show ?case by auto
qed simp

section \<open>The race of a run\<close>

text \<open>
  The reference: going through the guardrails in the order their promises settled, the first
  that trips decides, with the names that have answered up to then; when all have run their
  \<^verbatim>\<open>finally\<close> and none tripped, the run passes.
\<close>

fun settled_order :: "run_event list \<Rightarrow> nat list" where
  "settled_order [] = []"
| "settled_order (Settles i # es) = i # settled_order es"
| "settled_order (Finally i # es) = settled_order es"

fun first_trip :: "(nat \<Rightarrow> guardrail_result option) \<Rightarrow> (nat \<Rightarrow> string) \<Rightarrow> nat list \<Rightarrow>
    string list \<Rightarrow> (trip_info \<times> string list) option" where
  "first_trip res name [] ns = None"
| "first_trip res name (i # is) ns =
     (case res i of
        None \<Rightarrow> first_trip res name is ns
      | Some r \<Rightarrow>
         if gr_tripped r
         then Some (\<lparr>ti_guardrail = name i, ti_reason = gr_reason r, ti_metadata = gr_metadata r\<rparr>,
                    ns @ [name i])
         else first_trip res name is (ns @ [name i]))"

definition answered :: "(nat \<Rightarrow> guardrail_result option) \<Rightarrow> nat list \<Rightarrow> nat list" where
  "answered res is = filter (\<lambda>i. res i \<noteq> None) is"

definition race_outcome :: "(string \<Rightarrow> string \<Rightarrow> string option \<Rightarrow> bool \<times> string) \<Rightarrow>
    'j guardrail_ctx \<Rightarrow> 'j guardrail list \<Rightarrow> run_event list \<Rightarrow> run_outcome option" where
  "race_outcome decide ctx gs es =
     (let res = (\<lambda>i. settles decide ctx (gs ! i)); name = (\<lambda>i. g_name (gs ! i)) in
      case first_trip res name (settled_order es) [] of
        Some (t, ns) \<Rightarrow> Some \<lparr>ro_tripped = Some t, ro_ran = ns\<rparr>
      | None \<Rightarrow>
         if length es = 2 * length gs
         then Some \<lparr>ro_tripped = None, ro_ran = map name (answered res (settled_order es))\<rparr>
         else None)"

lemma settled_order_append [simp]:
  "settled_order (es @ es') = settled_order es @ settled_order es'"
  by (induction es rule: settled_order.induct) auto

lemma set_settled_order [simp]: "i \<in> set (settled_order es) \<longleftrightarrow> Settles i \<in> set es"
  by (induction es rule: settled_order.induct) auto

lemma first_trip_append:
  "first_trip res name (is @ js) ns =
     (case first_trip res name is ns of Some x \<Rightarrow> Some x
      | None \<Rightarrow> first_trip res name js (ns @ map name (answered res is)))"
  by (induction "is" arbitrary: ns) (auto simp: answered_def split: option.splits)

lemma first_trip_None:
  "first_trip res name is ns = None \<longleftrightarrow> (\<forall>i \<in> set is. \<forall>r. res i = Some r \<longrightarrow> \<not> gr_tripped r)"
  by (induction "is" arbitrary: ns) (auto split: option.splits)

text \<open>What holds of the runner's state after the events \<open>es\<close>.\<close>

definition chain_after :: "run_event list \<Rightarrow> nat \<Rightarrow> chain" where
  "chain_after es i =
     (if Finally i \<in> set es then Finished else if Settles i \<in> set es then Settled else Running)"

fun event_ok :: "nat \<Rightarrow> run_event set \<Rightarrow> run_event \<Rightarrow> bool" where
  "event_ok n E (Settles i) = (i < n)"
| "event_ok n E (Finally i) = (i < n \<and> Settles i \<in> E)"

definition chains_inv :: "nat \<Rightarrow> run_event list \<Rightarrow> runner_state \<Rightarrow> bool" where
  "chains_inv n es s \<longleftrightarrow>
     rs_chains s = map (chain_after es) [0..<n]
   \<and> distinct es \<and> (\<forall>e \<in> set es. event_ok n (set es) e)
   \<and> rs_remaining s = card {i. i < n \<and> Finally i \<notin> set es}"

definition values_inv :: "(nat \<Rightarrow> guardrail_result option) \<Rightarrow> (nat \<Rightarrow> string) \<Rightarrow> run_event list \<Rightarrow>
    runner_state \<Rightarrow> bool" where
  "values_inv res name es s \<longleftrightarrow>
     rs_ran s = map name (answered res (settled_order es))
   \<and> rs_tripped s = map_option fst (first_trip res name (settled_order es) [])
   \<and> rs_resolved s = (case first_trip res name (settled_order es) [] of
         Some (t, ns) \<Rightarrow> Some \<lparr>ro_tripped = Some t, ro_ran = ns\<rparr>
       | None \<Rightarrow> if rs_remaining s = 0
           then Some \<lparr>ro_tripped = None, ro_ran = map name (answered res (settled_order es))\<rparr>
           else None)"

definition runner_inv :: "(string \<Rightarrow> string \<Rightarrow> string option \<Rightarrow> bool \<times> string) \<Rightarrow>
    'j guardrail_ctx \<Rightarrow> 'j guardrail list \<Rightarrow> run_event list \<Rightarrow> runner_state \<Rightarrow> bool" where
  "runner_inv decide ctx gs es s \<longleftrightarrow> chains_inv (length gs) es s \<and>
     values_inv (\<lambda>i. settles decide ctx (gs ! i)) (\<lambda>i. g_name (gs ! i)) es s"

lemma remaining_zero:
  "card {i. i < n \<and> Finally i \<notin> set es} = 0 \<longleftrightarrow> (\<forall>i < n. Finally i \<in> set es)"
  by (auto simp: card_eq_0_iff)

lemma runner_inv_start: "runner_inv decide ctx gs [] (run_start gs)"
  by (auto simp: runner_inv_def chains_inv_def values_inv_def run_start_def chain_after_def
      answered_def intro: nth_equalityI)

lemma chains_update:
  assumes "i < n" and "\<And>j. j \<noteq> i \<Longrightarrow> chain_after (es @ [e]) j = chain_after es j"
    and "chain_after (es @ [e]) i = c"
  shows "(map (chain_after es) [0..<n])[i := c] = map (chain_after (es @ [e])) [0..<n]"
  using assms by (auto intro!: nth_equalityI simp: nth_list_update)

lemma card_remove:
  fixes n :: nat
  assumes "i < n" and "P i"
  shows "card {j. j < n \<and> P j} - 1 = card {j. j < n \<and> P j \<and> j \<noteq> i}"
proof -
  have "{j. j < n \<and> P j \<and> j \<noteq> i} = {j. j < n \<and> P j} - {i}" by auto
  with assms show ?thesis by (simp add: card_Diff_singleton)
qed

lemma chain_afterD:
  "chain_after es i = Running \<Longrightarrow> Settles i \<notin> set es \<and> Finally i \<notin> set es"
  "chain_after es i = Settled \<Longrightarrow> Settles i \<in> set es \<and> Finally i \<notin> set es"
  by (simp_all add: chain_after_def split: if_splits)

lemma chains_inv_nth: "chains_inv n es s \<Longrightarrow> i < n \<Longrightarrow> rs_chains s ! i = chain_after es i"
  by (simp add: chains_inv_def)

lemma chains_inv_remaining:
  "chains_inv n es s \<Longrightarrow> rs_remaining s = 0 \<longleftrightarrow> (\<forall>i < n. Finally i \<in> set es)"
  using remaining_zero [of n es] by (simp only: chains_inv_def)

lemma event_ok_mono: "E \<subseteq> E' \<Longrightarrow> event_ok n E e \<Longrightarrow> event_ok n E' e"
  by (cases e) auto

lemma events_ok_snoc:
  "\<forall>e \<in> set es. event_ok n (set es) e \<Longrightarrow> event_ok n (set (es @ [e])) e \<Longrightarrow>
     \<forall>e' \<in> set (es @ [e]). event_ok n (set (es @ [e])) e'"
  using event_ok_mono [of "set es" "set (es @ [e])"] by auto

lemma chains_inv_settles:
  assumes inv: "chains_inv n es s" and i: "i < n" "rs_chains s ! i = Running"
    and s': "rs_chains s' = (rs_chains s)[i := Settled]" "rs_remaining s' = rs_remaining s"
  shows "chains_inv n (es @ [Settles i]) s'"
proof -
  have fresh: "Settles i \<notin> set es" "Finally i \<notin> set es"
    using chains_inv_nth [OF inv i(1)] i(2) chain_afterD(1) [of es i] by auto
  have "\<forall>e' \<in> set (es @ [Settles i]). event_ok n (set (es @ [Settles i])) e'"
    using inv i(1) by (intro events_ok_snoc) (simp_all add: chains_inv_def)
  moreover have "(map (chain_after es) [0..<n])[i := Settled] =
      map (chain_after (es @ [Settles i])) [0..<n]"
    using i(1) fresh by (intro chains_update) (auto simp: chain_after_def)
  ultimately show ?thesis using inv fresh s' by (simp add: chains_inv_def)
qed

lemma chains_inv_finally:
  assumes inv: "chains_inv n es s" and i: "i < n" "rs_chains s ! i = Settled"
    and s': "rs_chains s' = (rs_chains s)[i := Finished]" "rs_remaining s' = rs_remaining s - 1"
  shows "chains_inv n (es @ [Finally i]) s'"
proof -
  have fresh: "Settles i \<in> set es" "Finally i \<notin> set es"
    using chains_inv_nth [OF inv i(1)] i(2) chain_afterD(2) [of es i] by auto
  have "\<forall>e' \<in> set (es @ [Finally i]). event_ok n (set (es @ [Finally i])) e'"
    using inv i(1) fresh by (intro events_ok_snoc) (simp_all add: chains_inv_def)
  moreover have "(map (chain_after es) [0..<n])[i := Finished] =
      map (chain_after (es @ [Finally i])) [0..<n]"
    using i(1) fresh by (intro chains_update) (auto simp: chain_after_def)
  moreover have "{j. j < n \<and> Finally j \<notin> set (es @ [Finally i])} =
      {j. j < n \<and> Finally j \<notin> set es \<and> j \<noteq> i}" by auto
  ultimately show ?thesis
    using inv fresh s' i(1) card_remove [of i n "\<lambda>j. Finally j \<notin> set es"]
    by (simp add: chains_inv_def)
qed

lemma values_inv_settles:
  assumes inv: "values_inv res name es s" and pos: "rs_remaining s \<noteq> 0"
    and name: "g_name g = name i"
    and s': "s' = (case res i of None \<Rightarrow> s | Some r \<Rightarrow> on_result g r s)"
  shows "values_inv res name (es @ [Settles i]) (s'\<lparr>rs_chains := cs\<rparr>)"
proof (cases "first_trip res name (settled_order es) []")
  case None
  with inv pos have "rs_resolved s = None" "rs_tripped s = None" by (simp_all add: values_inv_def)
  with None inv pos show ?thesis
    by (cases "res i") (simp_all add: s' values_inv_def first_trip_append on_result_def
        finish_def answered_def Let_def name)
next
  case (Some x)
  then show ?thesis using inv
    by (cases "res i") (simp_all add: s' values_inv_def first_trip_append on_result_def
        answered_def Let_def name split: prod.splits)
qed

lemma values_inv_finally:
  assumes inv: "values_inv res name es s" and pos: "rs_remaining s \<noteq> 0"
  shows "values_inv res name (es @ [Finally i]) ((on_finally s)\<lparr>rs_chains := cs\<rparr>)"
  using assms by (cases "first_trip res name (settled_order es) []")
    (auto simp: values_inv_def on_finally_def finish_def Let_def)

lemma on_result_frame [simp]:
  "rs_remaining (on_result g r s) = rs_remaining s"
  by (simp add: on_result_def finish_def Let_def split: option.splits)

lemma on_finally_frame [simp]:
  "rs_remaining (on_finally s) = rs_remaining s - 1"
  by (simp add: on_finally_def finish_def Let_def split: option.splits)

lemma runner_inv_settles:
  assumes inv: "runner_inv decide ctx gs es s"
    and i: "i < length gs" "rs_chains s ! i = Running"
    and s': "s' = (case settles decide ctx (gs ! i) of None \<Rightarrow> s | Some r \<Rightarrow> on_result (gs ! i) r s)"
  shows "runner_inv decide ctx gs (es @ [Settles i]) (s'\<lparr>rs_chains := (rs_chains s)[i := Settled]\<rparr>)"
proof -
  have c: "chains_inv (length gs) es s" using inv by (simp add: runner_inv_def)
  then have "Finally i \<notin> set es" using chains_inv_nth [OF c i(1)] i(2) chain_afterD(1) [of es i] by auto
  then have pos: "rs_remaining s \<noteq> 0" using chains_inv_remaining [OF c] i(1) by auto
  have "rs_remaining s' = rs_remaining s" by (simp add: s' split: option.splits)
  then have "chains_inv (length gs) (es @ [Settles i]) (s'\<lparr>rs_chains := (rs_chains s)[i := Settled]\<rparr>)"
    using chains_inv_settles [OF c i] by simp
  moreover have "values_inv (\<lambda>i. settles decide ctx (gs ! i)) (\<lambda>i. g_name (gs ! i))
      (es @ [Settles i]) (s'\<lparr>rs_chains := (rs_chains s)[i := Settled]\<rparr>)"
    using inv pos s' by (intro values_inv_settles) (simp_all add: runner_inv_def)
  ultimately show ?thesis by (simp add: runner_inv_def)
qed

lemma runner_inv_finally:
  assumes inv: "runner_inv decide ctx gs es s"
    and i: "i < length gs" "rs_chains s ! i = Settled"
  shows "runner_inv decide ctx gs (es @ [Finally i])
    ((on_finally s)\<lparr>rs_chains := (rs_chains s)[i := Finished]\<rparr>)"
proof -
  have c: "chains_inv (length gs) es s" using inv by (simp add: runner_inv_def)
  then have "Finally i \<notin> set es" using chains_inv_nth [OF c i(1)] i(2) chain_afterD(2) [of es i] by auto
  then have pos: "rs_remaining s \<noteq> 0" using chains_inv_remaining [OF c] i(1) by auto
  have "chains_inv (length gs) (es @ [Finally i])
      ((on_finally s)\<lparr>rs_chains := (rs_chains s)[i := Finished]\<rparr>)"
    using chains_inv_finally [OF c i] by simp
  moreover have "values_inv (\<lambda>i. settles decide ctx (gs ! i)) (\<lambda>i. g_name (gs ! i))
      (es @ [Finally i]) ((on_finally s)\<lparr>rs_chains := (rs_chains s)[i := Finished]\<rparr>)"
    using inv pos by (intro values_inv_finally) (simp_all add: runner_inv_def)
  ultimately show ?thesis by (simp add: runner_inv_def)
qed

lemma runner_run_inv: "runner_run decide ctx gs es s \<Longrightarrow> runner_inv decide ctx gs es s"
proof (induction rule: runner_run.induct)
  case rr_start
  show ?case by (rule runner_inv_start)
next
  case (rr_step es s e s')
  from rr_step.hyps(2) show ?case
  proof (cases rule: runner_step.cases)
    case (rs_result i r)
    with runner_inv_settles [OF rr_step.IH rs_result(3,4)] show ?thesis by simp
  next
    case (rs_throw i)
    with runner_inv_settles [OF rr_step.IH rs_throw(3,4)] show ?thesis by simp
  next
    case (rs_finally i)
    with runner_inv_finally [OF rr_step.IH rs_finally(3,4)] show ?thesis by simp
  qed
qed

lemma chains_inv_length:
  assumes "chains_inv n es s"
  shows "length es \<le> 2 * n" and "rs_remaining s = 0 \<longleftrightarrow> length es = 2 * n"
proof -
  let ?U = "Settles ` {..<n} \<union> Finally ` {..<n}"
  have "card ?U = card (Settles ` {..<n}) + card (Finally ` {..<n})"
    by (intro card_Un_disjoint) auto
  then have card: "card ?U = 2 * n" by (simp add: card_image inj_on_def)
  have "event_ok n (set es) e" if "e \<in> set es" for e
    using assms that by (simp add: chains_inv_def)
  then have sub: "set es \<subseteq> ?U" by (fastforce elim!: event_ok.elims(2))
  have len: "length es = card (set es)"
    using assms by (simp add: chains_inv_def distinct_card)
  have fin: "finite ?U" by simp
  from card_mono [OF fin sub] card len show "length es \<le> 2 * n" by simp
  have "?U \<subseteq> set es" if "\<forall>i < n. Finally i \<in> set es"
    using that assms by (force simp: chains_inv_def)
  then have "(\<forall>i < n. Finally i \<in> set es) \<longleftrightarrow> set es = ?U" using sub by auto
  also have "\<dots> \<longleftrightarrow> length es = 2 * n"
    using card_subset_eq [OF fin sub] card len by auto
  finally show "rs_remaining s = 0 \<longleftrightarrow> length es = 2 * n"
    using chains_inv_remaining [OF assms] by simp
qed

lemma runner_resolved:
  assumes "runner_run decide ctx gs es s"
  shows "rs_resolved s = race_outcome decide ctx gs es"
proof -
  have inv: "chains_inv (length gs) es s"
    "values_inv (\<lambda>i. settles decide ctx (gs ! i)) (\<lambda>i. g_name (gs ! i)) es s"
    using runner_run_inv [OF assms] by (simp_all add: runner_inv_def)
  show ?thesis
    using inv(2) chains_inv_length(2) [OF inv(1)]
    by (simp add: values_inv_def race_outcome_def Let_def split: option.splits)
qed

definition trips :: "(string \<Rightarrow> string \<Rightarrow> string option \<Rightarrow> bool \<times> string) \<Rightarrow> 'j guardrail_ctx \<Rightarrow>
    'j guardrail \<Rightarrow> bool" where
  "trips decide ctx g \<longleftrightarrow> (case settles decide ctx g of None \<Rightarrow> False | Some r \<Rightarrow> gr_tripped r)"

text \<open>Whatever the schedule, the race ends with a trip exactly when some guardrail trips.\<close>

lemma race_trips_iff:
  assumes run: "runner_run decide ctx gs es s" and oc: "rs_resolved s = Some oc"
  shows "ro_tripped oc \<noteq> None \<longleftrightarrow> (\<exists>g \<in> set gs. trips decide ctx g)"
proof -
  let ?res = "\<lambda>i. settles decide ctx (gs ! i)" and ?name = "\<lambda>i. g_name (gs ! i)"
  have inv: "chains_inv (length gs) es s"
    using runner_run_inv [OF run] by (simp add: runner_inv_def)
  have bound: "i < length gs" if "Settles i \<in> set es" for i
    using inv that by (auto simp: chains_inv_def dest: bspec)
  show ?thesis
  proof (cases "first_trip ?res ?name (settled_order es) []")
    case None
    then have fin: "length es = 2 * length gs" and no: "ro_tripped oc = None"
      using oc unfolding runner_resolved [OF run] race_outcome_def Let_def
      by (auto split: if_splits)
    have all: "Settles i \<in> set es" if "i < length gs" for i
    proof -
      have "Finally i \<in> set es"
        using chains_inv_length(2) [OF inv] fin chains_inv_remaining [OF inv] that by simp
      with inv show ?thesis by (force simp: chains_inv_def)
    qed
    then have "\<not> trips decide ctx g" if "g \<in> set gs" for g
    proof -
      from that obtain i where "i < length gs" "g = gs ! i" by (auto simp: in_set_conv_nth)
      moreover from all this(1) have "i \<in> set (settled_order es)" by simp
      ultimately show ?thesis using None
        by (simp add: first_trip_None trips_def split: option.splits)
    qed
    with no show ?thesis by auto
  next
    case (Some x)
    then obtain i r where "Settles i \<in> set es" "?res i = Some r" "gr_tripped r"
      using first_trip_None [of ?res ?name "settled_order es" "[]"] by auto
    then have "gs ! i \<in> set gs" "trips decide ctx (gs ! i)"
      using bound by (simp_all add: trips_def)
    then have "\<exists>g \<in> set gs. trips decide ctx g" by blast
    moreover have "ro_tripped oc \<noteq> None"
      using oc Some unfolding runner_resolved [OF run] race_outcome_def Let_def
      by (auto split: prod.splits)
    ultimately show ?thesis by simp
  qed
qed

lemma runner_progress:
  assumes run: "runner_run decide ctx gs es s" and less: "length es < 2 * length gs"
  shows "\<exists>e s'. runner_step decide ctx gs s e s'"
proof -
  have inv: "chains_inv (length gs) es s"
    using runner_run_inv [OF run] by (simp add: runner_inv_def)
  from less obtain i where i: "i < length gs" "Finally i \<notin> set es"
    using chains_inv_length(2) [OF inv] chains_inv_remaining [OF inv] by auto
  then have "rs_chains s ! i = Settled \<or> rs_chains s ! i = Running"
    using chains_inv_nth [OF inv i(1)] by (auto simp: chain_after_def)
  with i(1) show ?thesis
    using rs_result [of i gs s decide ctx] rs_throw [of i gs s decide ctx] rs_finally [of i gs s decide ctx]
    by (cases "settles decide ctx (gs ! i)") blast+
qed

section \<open>What the built-in guardrails catch\<close>

lemma find_trip_iff:
  "gr_tripped (scan_secrets text) \<longleftrightarrow> (\<exists>p \<in> set secret_patterns. re_test (snd p) text)"
  by (auto simp: scan_secrets_def pass_def trip_def case_prod_unfold find_None_iff
      dest: find_SomeD split: option.splits)

definition within :: "string \<Rightarrow> string \<Rightarrow> bool" where
  "within u text \<longleftrightarrow> (\<exists>x y. text = x @ u @ y)"

lemma re_test_within: "plain r \<Longrightarrow> re_test r text \<longleftrightarrow> (\<exists>u. accepts r u \<and> within u text)"
  by (auto simp: re_test_plain within_def)

lemma secret_patterns_plain: "p \<in> set secret_patterns \<Longrightarrow> plain (snd p)"
  by (auto simp: secret_patterns_def)

text \<open>The shapes a credential is recognised by.\<close>

definition run_of :: "(char \<Rightarrow> bool) \<Rightarrow> string \<Rightarrow> bool" where
  "run_of P k \<longleftrightarrow> (\<forall>c \<in> set k. P c)"

definition credential :: "string \<Rightarrow> bool" where
  "credential u \<longleftrightarrow>
     (\<exists>k. u = ''sk-'' @ k \<and> run_of alnum k \<and> 20 \<le> length k)
   \<or> (\<exists>k. u = ''ghp_'' @ k \<and> run_of alnum k \<and> length k = 36)
   \<or> (\<exists>k. u = ''AKIA'' @ k \<and> run_of upper_digit k \<and> length k = 16)
   \<or> (\<exists>h p g. u = ''eyJ'' @ h @ ''.eyJ'' @ p @ ''.'' @ g \<and> run_of base64url (h @ p @ g)
        \<and> 40 \<le> length h \<and> p \<noteq> [] \<and> g \<noteq> [])"

lemma accepts_jwt:
  "accepts (seq_of [literal ''eyJ'', at_least 40 (Cls base64url), literal ''.eyJ'',
       at_least 1 (Cls base64url), chr CHR ''.'', at_least 1 (Cls base64url)]) u \<longleftrightarrow>
     (\<exists>h p g. u = ''eyJ'' @ h @ ''.eyJ'' @ p @ ''.'' @ g \<and> run_of base64url (h @ p @ g)
        \<and> 40 \<le> length h \<and> p \<noteq> [] \<and> g \<noteq> [])"
  by (simp add: run_of_def ball_Un Suc_le_eq) blast

lemma accepts_prefixed:
  "accepts (Seq (literal w) (at_least n (Cls P))) u \<longleftrightarrow> (\<exists>k. u = w @ k \<and> run_of P k \<and> n \<le> length k)"
  "accepts (Seq (literal w) (exactly n (Cls P))) u \<longleftrightarrow> (\<exists>k. u = w @ k \<and> run_of P k \<and> length k = n)"
  by (auto simp: run_of_def)

lemma credential_iff: "credential u \<longleftrightarrow> (\<exists>p \<in> set secret_patterns. accepts (snd p) u)"
  unfolding secret_patterns_def credential_def accepts_jwt [symmetric] accepts_prefixed [symmetric]
  by (simp only: list.set bex_simps(5,7) bex_empty snd_conv simp_thms)

lemma scan_secrets_iff: "gr_tripped (scan_secrets text) \<longleftrightarrow> (\<exists>u. credential u \<and> within u text)"
  unfolding find_trip_iff credential_iff
  using re_test_within [OF secret_patterns_plain] by blast

lemma within_mono: "within u s \<Longrightarrow> within u (x @ s @ y)"
  unfolding within_def by (metis append_assoc)

section \<open>The Luhn check\<close>

definition luhn_weight :: "bool \<Rightarrow> char \<Rightarrow> nat" where
  "luhn_weight alt c = (let d = code c - 48 in
     if alt then (if 9 < d * 2 then d * 2 - 9 else d * 2) else d)"

lemma luhn_sum_append:
  "luhn_sum alt (xs @ ys) = luhn_sum alt xs + luhn_sum (alt = even (length xs)) ys"
proof (induction xs arbitrary: alt)
  case (Cons c xs)
  then show ?case by (cases alt; cases "even (length xs)") (simp_all add: Let_def)
qed simp

lemma luhn_sum_Cons: "luhn_sum alt (c # ds) = luhn_weight alt c + luhn_sum (\<not> alt) ds"
  by (simp add: luhn_weight_def Let_def)

lemma code_inj: "code c = code d \<Longrightarrow> c = d"
  unfolding code_def by (metis char_of_char)

lemma code_digit_inj:
  "is_digit c \<Longrightarrow> is_digit d \<Longrightarrow> code c - 48 = code d - 48 \<Longrightarrow> c = d"
  by (rule code_inj) (auto simp: is_digit_def)

lemma luhn_weight_inj:
  assumes "is_digit c" and "is_digit d" and "luhn_weight alt c = luhn_weight alt d"
  shows "c = d"
proof -
  have "code c - 48 \<le> 9" "code d - 48 \<le> 9" using assms by (auto simp: is_digit_def)
  then have "code c - 48 = code d - 48"
    using assms(3) by (auto simp: luhn_weight_def Let_def split: if_splits) presburger+
  with assms(1,2) show ?thesis by (rule code_digit_inj)
qed

lemma luhn_weight_bound: "is_digit c \<Longrightarrow> luhn_weight alt c < 10"
  by (auto simp: luhn_weight_def Let_def is_digit_def)

definition luhn_rest :: "string \<Rightarrow> nat" where
  "luhn_rest ds = luhn_sum True (rev ds)"

lemma luhnValid_snoc:
  assumes "is_digit c" and "run_of is_digit w" and "12 \<le> length w" and "length w \<le> 18"
  shows "luhnValid (w @ [c]) \<longleftrightarrow> (luhn_weight False c + luhn_rest w) mod 10 = 0"
proof -
  have "filter is_digit (w @ [c]) = w @ [c]"
    using assms(1,2) by (simp add: run_of_def)
  then show ?thesis using assms(3,4)
    by (simp add: luhnValid_def luhn_sum_Cons luhn_rest_def del: luhn_sum.simps)
qed

lemma digit_of_value: "d < 10 \<Longrightarrow> \<exists>c. is_digit c \<and> luhn_weight False c = d"
  by (rule exI [of _ "char_of (48 + d)"]) (simp add: is_digit_def luhn_weight_def)

lemma mod_10_complement: "\<exists>d < 10. (d + n) mod 10 = (0 :: nat)"
proof -
  obtain q r where n: "n = 10 * q + r" "r < 10"
    by (metis mod_less_divisor mult_div_mod_eq zero_less_numeral)
  show ?thesis
  proof (cases "r = 0")
    case False
    with n have "10 - r < 10" "10 - r + n = 10 * (q + 1)" by simp_all
    then show ?thesis by (metis mod_mult_self1_is_0)
  next
    case True
    with n show ?thesis by (intro exI [of _ 0]) simp
  qed
qed

lemma mod_10_unique:
  assumes "a < 10" and "b < 10" and "(a + n) mod 10 = (0 :: nat)" and "(b + n) mod 10 = 0"
  shows "a = b"
proof -
  obtain k l where kl: "a + n = 10 * k" "b + n = 10 * l"
    using assms(3,4) by (auto simp: mod_eq_0_iff_dvd elim!: dvdE)
  then have "k = l" using assms(1,2) by (cases k l rule: linorder_cases) linarith+
  with kl show ?thesis by simp
qed

lemma luhn_single_change:
  assumes "is_digit c" and "is_digit d" and "c \<noteq> d" and "luhnValid (x @ [c] @ y)"
  shows "\<not> luhnValid (x @ [d] @ y)"
proof
  assume "luhnValid (x @ [d] @ y)"
  let ?x = "filter is_digit x" and ?y = "filter is_digit y"
  let ?a = "luhn_sum False (rev ?y)" and ?alt = "False = even (length ?y)"
  let ?z = "luhn_sum (\<not> ?alt) (rev ?x)"
  have sum: "luhn_sum False (rev (filter is_digit (x @ [e] @ y))) = luhn_weight ?alt e + (?a + ?z)"
    if "is_digit e" for e
    using that by (simp add: luhn_sum_append luhn_sum_Cons del: luhn_sum.simps)
  have "luhn_weight ?alt c = luhn_weight ?alt d"
  proof (rule mod_10_unique [where n = "?a + ?z"])
    show "(luhn_weight ?alt c + (?a + ?z)) mod 10 = 0"
      using assms(4) unfolding luhnValid_def Let_def sum [OF assms(1)] by (simp split: if_splits)
    show "(luhn_weight ?alt d + (?a + ?z)) mod 10 = 0"
      using \<open>luhnValid (x @ [d] @ y)\<close> unfolding luhnValid_def Let_def sum [OF assms(2)]
      by (simp split: if_splits)
  qed (use assms luhn_weight_bound in blast)+
  with luhn_weight_inj assms(1-3) show False by blast
qed

section \<open>From an agent's settings to the verdict\<close>

lemma prefix_first_by_name:
  assumes "g \<in> set us" and "\<And>h. h \<in> set us \<Longrightarrow> g_name h = g_name g \<Longrightarrow> h = g"
  shows "g \<in> set (first_by_name (us @ vs))"
proof -
  obtain xs ys where us: "us = xs @ g # ys" "g \<notin> set xs" using split_list_first [OF assms(1)] by blast
  have "g_name g \<notin> g_name ` set xs"
  proof
    assume "g_name g \<in> g_name ` set xs"
    then obtain h where h: "h \<in> set xs" "g_name h = g_name g" by auto
    then have "h = g" using assms(2) us(1) by simp
    with h us(2) show False by simp
  qed
  with us(1) show ?thesis unfolding first_by_name_first
    by (intro exI [of _ xs] exI [of _ "ys @ vs"]) simp
qed

lemma enabled_is_effective:
  assumes "registry_ok reg" and "reg_get reg stage n = Some g"
    and "as_guardrails st = Some names" and "n \<in> set names"
  shows "g \<in> set (stage_guardrails sha256 stringify reg (Some st) stage)"
proof -
  have name: "g_name g = n" using registry.lookup_own [OF assms(1,2)] by simp
  have "h = g" if "h \<in> set (reg_resolve reg stage names)" "g_name h = g_name g" for h
  proof -
    from that(1) obtain m where "reg_get reg stage m = Some h"
      unfolding registry.resolve_lookup by (auto simp: List.map_filter_def)
    with registry.lookup_own [OF assms(1) this] that(2) name assms(2) show ?thesis by simp
  qed
  then have "g \<in> set (first_by_name (reg_resolve reg stage names @ vs))" for vs
    using registry.resolve_member [OF assms(2,4)] by (intro prefix_first_by_name)
  then show ?thesis using assms(3)
    by (simp add: stage_guardrails_def resolve_agent_reference(1) [OF refl refl] candidates_def
        no_extras_def or_empty_def)
qed

lemma builtin_registry:
  assumes "registerBuiltinGuardrails stringify [] = Inr reg"
  shows "registry_ok reg"
    and "reg_get reg Pre_Tool ''forbidden-tools'' = Some forbiddenToolsGuardrail"
    and "reg_get reg Output ''secret-scan'' = Some secretScanGuardrail"
    and "reg_get reg stage ''pii-scan'' = Some (createPiiScanGuardrail stringify stage ''pii-scan'')"
proof -
  show "registry_ok reg"
    using assms unfolding registerBuiltinGuardrails_def by (rule register_all_ok [OF registry_ok_Nil])
  show "reg_get reg Pre_Tool ''forbidden-tools'' = Some forbiddenToolsGuardrail"
    "reg_get reg Output ''secret-scan'' = Some secretScanGuardrail"
    "reg_get reg stage ''pii-scan'' = Some (createPiiScanGuardrail stringify stage ''pii-scan'')"
    using assms by (cases stage; auto simp: registerBuiltinGuardrails_def register_def Let_def
        stage_map_def reg_get_def secretScanGuardrail_def forbiddenToolsGuardrail_def
        createPiiScanGuardrail_def)+
qed

lemma guarded_trip_iff:
  assumes "runner_run decide ctx (stage_guardrails sha256 stringify reg settings stage) es s"
    and "rs_resolved s = Some (race (stage_guardrails sha256 stringify reg settings stage))"
  shows "guarded_trip sha256 stringify (Some reg) (Some settings) stage race \<noteq> None \<longleftrightarrow>
    (\<exists>g \<in> set (stage_guardrails sha256 stringify reg settings stage). trips decide ctx g)"
  using race_trips_iff [OF assms] by (auto simp: guarded_trip_def Let_def)

text \<open>A small run used by the witnesses: a forbidden tool, and a judge that answers later.\<close>

definition sample_tool :: "unit pre_tool_ctx" where
  "sample_tool = \<lparr>tc_agentId = ''a'', tc_userId = ''u'', tc_toolName = ''drop_table'',
     tc_arguments = (), tc_conversationId = None\<rparr>"

definition sample_judge :: "unit guardrail" where
  "sample_judge = createJudgeGuardrail (\<lambda>s. s) (\<lambda>_. None) Pre_Tool ''no exports''
     \<lparr>jo_name = None, jo_model = None, jo_tools = None\<rparr>"

definition sample_decide :: "string \<Rightarrow> string \<Rightarrow> string option \<Rightarrow> bool \<times> string" where
  "sample_decide policy text model = (True, ''fine'')"

definition sample_settings :: agent_settings where
  "sample_settings = \<lparr>as_guardrails = Some [''forbidden-tools''], as_skills = None\<rparr>"

definition sample_tripped :: "unit guardrail list \<Rightarrow> runner_state" where
  "sample_tripped gs = (on_result (forbiddenToolsGuardrail :: unit guardrail)
       (trip ''Tool \"drop_table\" is on the built-in deny list'' [(''toolName'', ''drop_table'')])
       (run_start gs))\<lparr>rs_chains := (rs_chains (run_start gs))[0 := Settled]\<rparr>"

lemma sample_race_run:
  "runner_run sample_decide (Pre_Tool_Ctx sample_tool) (forbiddenToolsGuardrail # gs) [Settles 0]
     (sample_tripped (forbiddenToolsGuardrail # gs))"
proof -
  have "settles sample_decide (Pre_Tool_Ctx sample_tool) forbiddenToolsGuardrail =
      Some (trip ''Tool \"drop_table\" is on the built-in deny list'' [(''toolName'', ''drop_table'')])"
    by (simp add: settles_def forbiddenToolsGuardrail_def sample_tool_def forbidden_tools_def)
  then show ?thesis
    using rr_step [OF rr_start rs_result, of 0 "forbiddenToolsGuardrail # gs"]
    by (simp add: sample_tripped_def run_start_def)
qed

lemma sample_run_on:
  "\<exists>s. runner_run sample_decide (Pre_Tool_Ctx sample_tool) [forbiddenToolsGuardrail, sample_judge]
     [Settles 0, Settles 1] s \<and> rs_ran s = [''forbidden-tools'', g_name sample_judge]"
proof -
  let ?gs = "[forbiddenToolsGuardrail, sample_judge]"
  have "settles sample_decide (Pre_Tool_Ctx sample_tool) sample_judge = Some pass"
    by (simp add: settles_def sample_judge_def createJudgeGuardrail_def Let_def extractText_def
        judge_result_def sample_decide_def)
  then have "runner_step sample_decide (Pre_Tool_Ctx sample_tool) ?gs (sample_tripped ?gs) (Settles 1)
     ((on_result sample_judge pass (sample_tripped ?gs))
        \<lparr>rs_chains := (rs_chains (sample_tripped ?gs))[1 := Settled]\<rparr>)"
    using rs_result [of 1 ?gs "sample_tripped ?gs" sample_decide "Pre_Tool_Ctx sample_tool" pass]
    by (simp add: sample_tripped_def run_start_def)
  note run = rr_step [OF sample_race_run this]
  have "rs_ran ((on_result sample_judge pass (sample_tripped ?gs))
        \<lparr>rs_chains := (rs_chains (sample_tripped ?gs))[1 := Settled]\<rparr>) =
      [''forbidden-tools'', g_name sample_judge]"
    by (simp add: sample_tripped_def run_start_def on_result_def finish_def Let_def trip_def pass_def
        forbiddenToolsGuardrail_def)
  with run show ?thesis by (metis append_Cons append_Nil)
qed

lemma sample_stage:
  assumes "registerBuiltinGuardrails stringify [] = Inr reg"
  shows "stage_guardrails sha256 stringify reg (Some sample_settings) Pre_Tool =
    [forbiddenToolsGuardrail]"
  using builtin_registry(2) [OF assms]
  by (simp add: stage_guardrails_def resolve_agent_reference(1) [OF refl refl] candidates_def
      no_extras_def or_empty_def sample_settings_def registry.resolve_lookup List.map_filter_simps)

lemma builtins_register: "\<exists>reg. registerBuiltinGuardrails stringify [] = Inr reg"
  by (simp add: registerBuiltinGuardrails_def register_def Let_def stage_map_def
      secretScanGuardrail_def forbiddenToolsGuardrail_def createPiiScanGuardrail_def)

section \<open>Properties\<close>

lemma race_outcome_stable:
  assumes "runner_run decide ctx gs es s" and "runner_run decide ctx gs (es @ es') s'"
    and "race_outcome decide ctx gs es = Some oc"
  shows "race_outcome decide ctx gs (es @ es') = Some oc"
proof (cases "first_trip (\<lambda>i. settles decide ctx (gs ! i)) (\<lambda>i. g_name (gs ! i)) (settled_order es) []")
  case None
  then have "length es = 2 * length gs"
    using assms(3) by (simp add: race_outcome_def split: if_splits)
  moreover have "chains_inv (length gs) (es @ es') s'"
    using runner_run_inv [OF assms(2)] by (simp add: runner_inv_def)
  ultimately have "es' = []" using chains_inv_length(1) by fastforce
  with assms(3) show ?thesis by simp
next
  case (Some x)
  with assms(3) show ?thesis
    by (simp add: race_outcome_def first_trip_append Let_def)
qed

text \<open>
  C3: The outcome of a guardrail run is the race of its guardrails: whatever the order of the
  callbacks, it is that of the reference \<open>race_outcome\<close>, i.e. the first guardrail to answer with
  a trip decides, \<open>ran\<close> lists exactly those that had answered by then, a guardrail that threw
  counts as a pass, and without a trip the run passes once every guardrail has finished. What
  the promise resolved to never changes afterwards, although the other guardrails run on.
\<close>

theorem guardrail_race:
  assumes "runner_run decide ctx gs es s" and "runner_run decide ctx gs (es @ es') s'"
  shows "rs_resolved s = race_outcome decide ctx gs es
    \<and> (rs_resolved s = None \<or> rs_resolved s' = rs_resolved s)"
  using runner_resolved [OF assms(1)] runner_resolved [OF assms(2)]
    race_outcome_stable [OF assms] by (cases "race_outcome decide ctx gs es") auto

theorem guardrail_race_witness:
  "\<exists>(s :: runner_state) (s' :: runner_state). race_outcome sample_decide (Pre_Tool_Ctx sample_tool)
       [forbiddenToolsGuardrail, sample_judge] [Settles 0] = rs_resolved s
     \<and> rs_resolved s \<noteq> None \<and> rs_resolved s' = rs_resolved s \<and> length (rs_ran s') = 2"
proof -
  let ?gs = "[forbiddenToolsGuardrail, sample_judge]"
  obtain s' where s': "runner_run sample_decide (Pre_Tool_Ctx sample_tool) ?gs
      ([Settles 0] @ [Settles 1]) s'" "length (rs_ran s') = 2" using sample_run_on
    by (metis One_nat_def Suc_1 append_Cons append_Nil list.size(3,4) plus_1_eq_Suc add.commute)
  have "rs_resolved (sample_tripped ?gs) \<noteq> None"
    by (simp add: sample_tripped_def on_result_def finish_def run_start_def Let_def trip_def)
  with guardrail_race [OF sample_race_run s'(1)] s'(2) show ?thesis
    by metis
qed

text \<open>
  A guardrail run ends: it has at most two callbacks per guardrail, as long as it has had
  fewer there is a next one, and once it has had them all its promise has resolved. So the
  caller, who waits for it, is always answered, whichever guardrails throw.
\<close>

theorem guardrail_run_ends:
  assumes "runner_run decide ctx gs es s"
  shows "length es \<le> 2 * length gs
    \<and> (length es < 2 * length gs \<longrightarrow> (\<exists>e s'. runner_step decide ctx gs s e s'))
    \<and> (length es = 2 * length gs \<longrightarrow> rs_resolved s \<noteq> None)"
proof (intro conjI impI)
  have "chains_inv (length gs) es s"
    using runner_run_inv [OF assms] by (simp add: runner_inv_def)
  then show "length es \<le> 2 * length gs" by (rule chains_inv_length)
  show "rs_resolved s \<noteq> None" if "length es = 2 * length gs"
    using that by (simp add: runner_resolved [OF assms] race_outcome_def Let_def split: option.splits)
qed (rule runner_progress [OF assms])

theorem guardrail_run_ends_witness:
  "\<exists>e s'. runner_step sample_decide (Pre_Tool_Ctx sample_tool) [forbiddenToolsGuardrail]
     (sample_tripped [forbiddenToolsGuardrail]) e s'"
  using guardrail_run_ends [OF sample_race_run [of "[]"]] by simp

text \<open>
  The guardrails an agent gets at a stage: of all candidates (the names the agent enables,
  in its order, then those of its enabled skills, then its inline judges) the first of each
  name, without the excluded names. The names reported are those of the guardrails that run,
  and no two are equal.
\<close>

theorem agent_guardrails_reference:
  "let r = resolveAgentGuardrails sha256 stringify agentGuardrails skills reg extras
   in rg_byStage r stage =
        filter (\<lambda>g. g_name g \<notin> set (or_empty (ge_disabled extras)))
          (first_by_name (candidates sha256 stringify agentGuardrails skills reg extras stage))
    \<and> rg_names r stage = map g_name (rg_byStage r stage)
    \<and> distinct (rg_names r stage)"
proof -
  let ?r = "resolveAgentGuardrails sha256 stringify agentGuardrails skills reg extras"
  note ref = resolve_agent_reference [OF refl refl,
      of sha256 stringify agentGuardrails skills reg extras stage]
  have "distinct (rg_names ?r stage)"
    unfolding ref(2) unfolding ref(1) by (intro distinct_map_filter distinct_first_by_name)
  with ref show ?thesis by (simp add: Let_def)
qed

text \<open>
  C2: An agent that enables \<^verbatim>\<open>forbidden-tools\<close> cannot call a destructive tool: with the
  built-in registry, \<^verbatim>\<open>runPreToolGuardrails\<close> blocks the call, whatever else the agent and its
  skills enable, in whatever order the guardrails answer and whatever the judge says.
\<close>

theorem forbidden_tool_blocked:
  assumes "registerBuiltinGuardrails stringify [] = Inr reg"
    and "as_guardrails st = Some names" and "''forbidden-tools'' \<in> set names"
    and "tc_toolName c \<in> forbidden_tools"
    and "runner_run decide (Pre_Tool_Ctx c)
           (stage_guardrails sha256 stringify reg (Some st) Pre_Tool) es s"
    and "rs_resolved s =
           Some (race (Pre_Tool_Ctx c) (stage_guardrails sha256 stringify reg (Some st) Pre_Tool))"
  shows "fst (runPreToolGuardrails sha256 stringify (Some reg) (Some (Some st)) org org_lookup c race)"
proof -
  have "trips decide (Pre_Tool_Ctx c) forbiddenToolsGuardrail"
    using assms(4) by (simp add: trips_def settles_def forbiddenToolsGuardrail_def trip_def)
  moreover have "forbiddenToolsGuardrail \<in>
      set (stage_guardrails sha256 stringify reg (Some st) Pre_Tool)"
    using builtin_registry(1,2) [OF assms(1)] assms(2,3) by (intro enabled_is_effective)
  ultimately have "guarded_trip sha256 stringify (Some reg) (Some (Some st)) Pre_Tool
      (race (Pre_Tool_Ctx c)) \<noteq> None"
    unfolding guarded_trip_iff [where race = "race (Pre_Tool_Ctx c)", OF assms(5,6)] by blast
  then show ?thesis by (auto simp: runPreToolGuardrails_def)
qed

theorem forbidden_tool_blocked_witness:
  "\<exists>reg. registerBuiltinGuardrails (\<lambda>_ :: unit. None) [] = Inr reg
     \<and> fst (runPreToolGuardrails (\<lambda>s. s) (\<lambda>_. None) (Some reg) (Some (Some sample_settings))
          None None sample_tool
          (\<lambda>_ _. the (rs_resolved (sample_tripped [forbiddenToolsGuardrail]))))"
proof -
  obtain reg where reg: "registerBuiltinGuardrails (\<lambda>_ :: unit. None) [] = Inr reg"
    using builtins_register by blast
  let ?race = "\<lambda>(_ :: unit guardrail_ctx) (_ :: unit guardrail list).
      the (rs_resolved (sample_tripped [forbiddenToolsGuardrail]))"
  have "rs_resolved (sample_tripped [forbiddenToolsGuardrail]) =
      Some (?race (Pre_Tool_Ctx sample_tool) [forbiddenToolsGuardrail])"
    by (simp add: sample_tripped_def on_result_def finish_def run_start_def Let_def trip_def)
  then have "fst (runPreToolGuardrails (\<lambda>s. s) (\<lambda>_. None) (Some reg) (Some (Some sample_settings))
      None None sample_tool ?race)"
    using sample_race_run [of "[]"] sample_stage [OF reg]
    by (intro forbidden_tool_blocked [OF reg, where names = "[''forbidden-tools'']"
          and decide = sample_decide and es = "[Settles 0]"
          and s = "sample_tripped [forbiddenToolsGuardrail]"])
      (simp_all, simp_all add: sample_settings_def sample_tool_def forbidden_tools_def)
  with reg show ?thesis by blast
qed

text \<open>
  The secret scan of the output stage trips exactly on the texts that contain, anywhere, one
  of the four credential shapes: an OpenAI key, a GitHub token, an AWS access key or a JWT.
\<close>

theorem secret_scan_exact:
  "trips decide (Output_Ctx c) secretScanGuardrail \<longleftrightarrow> (\<exists>u. credential u \<and> within u (oc_text c))"
proof (cases "oc_text c = []")
  case True
  have "\<not> credential []" by (simp add: credential_def)
  with True show ?thesis
    by (auto simp: trips_def settles_def secretScanGuardrail_def pass_def within_def)
next
  case False
  then show ?thesis
    by (simp add: trips_def settles_def secretScanGuardrail_def scan_secrets_iff)
qed

text \<open>
  The Luhn check of the card scan: a string of 12 to 18 digits has exactly one check digit
  that makes it valid, and changing a single digit of a valid number, with separators or
  without, makes it invalid.
\<close>

theorem luhn_check_digit:
  assumes "run_of is_digit w" and "12 \<le> length w" and "length w \<le> 18"
    and "is_digit c" and "is_digit d" and "c \<noteq> d"
  shows "(\<exists>!e. is_digit e \<and> luhnValid (w @ [e]))
    \<and> \<not> (luhnValid (x @ [c] @ y) \<and> luhnValid (x @ [d] @ y))"
proof
  obtain v where v: "v < 10" "(v + luhn_rest w) mod 10 = 0"
    using mod_10_complement [of "luhn_rest w"] by (elim exE conjE) (rule that)
  obtain z where z: "is_digit z" "luhn_weight False z = v" using digit_of_value [OF v(1)] by blast
  show "\<exists>!e. is_digit e \<and> luhnValid (w @ [e])"
  proof (rule ex1I [of _ z])
    show "is_digit z \<and> luhnValid (w @ [z])"
      unfolding luhnValid_snoc [OF z(1) assms(1-3)] z(2) using z(1) v(2) by blast
    fix e assume e: "is_digit e \<and> luhnValid (w @ [e])"
    then have "(luhn_weight False e + luhn_rest w) mod 10 = 0"
      using luhnValid_snoc [OF _ assms(1-3), of e] by blast
    moreover have "luhn_weight False e < 10" using e luhn_weight_bound by blast
    ultimately have "luhn_weight False e = luhn_weight False z"
      using v z(2) mod_10_unique by metis
    then show "e = z" using e z(1) luhn_weight_inj by blast
  qed
  show "\<not> (luhnValid (x @ [c] @ y) \<and> luhnValid (x @ [d] @ y))"
    using luhn_single_change [OF assms(4-6)] by blast
qed

theorem luhn_check_digit_witness:
  "\<not> (luhnValid ''4111111111111111'' \<and> luhnValid ''4111111111111112'')"
proof -
  have "run_of is_digit ''411111111111111''"
    by (simp add: run_of_def is_digit_def code_def)
  then have "\<not> (luhnValid (''411111111111111'' @ [CHR ''1''] @ [])
      \<and> luhnValid (''411111111111111'' @ [CHR ''2''] @ []))"
    using luhn_check_digit [of "''411111111111111''" "CHR ''1''" "CHR ''2''" "''411111111111111''" "[]"]
    by (simp add: is_digit_def code_def)
  then show ?thesis by simp
qed

end
