(* ===== verification/Slack_Text.thy ===== *)
theory Slack_Text
  imports Guardrails
begin

text \<open>
  What the Slack strategy of the chat bridge does to the text of a reply before it posts it,
  \<^verbatim>\<open>packages/server/src/gateway/connections/platform-strategies/index.ts\<close>: decoding HTML
  entities, dropping empty links, and cutting the text into posts on paragraph boundaries.
  \<open>stripEmptyLinks\<close> is the replacement of the regular expression \<^verbatim>\<open>\[([^\]]+)\]\(\s*\)\<close> by its
  group, which needs no backtracking. The cutting loops are recursive functions; that of
  \<^verbatim>\<open>pushOversized\<close> ends because the chunk size is positive.
\<close>

section \<open>Cleaning the text\<close>

text \<open>\<^verbatim>\<open>s.replace(/pat/g, rep)\<close> for a literal pattern; the empty pattern does not occur.\<close>

function replace_all :: "string \<Rightarrow> string \<Rightarrow> string \<Rightarrow> string" where
  "replace_all pat rep s =
     (if s = [] \<or> pat = [] then s
      else if starts_with s pat then rep @ replace_all pat rep (drop (length pat) s)
      else hd s # replace_all pat rep (tl s))"
  by pat_completeness auto
termination
  by (relation "measure (\<lambda>(_, _, s). length s)") (auto simp: neq_Nil_conv)

declare replace_all.simps [simp del]

definition decodeHtmlEntities :: "string \<Rightarrow> string" where
  "decodeHtmlEntities s =
     fold (\<lambda>(pat, rep). replace_all pat rep)
       [(''&lt;'', ''<''), (''&gt;'', ''>''), (''&quot;'', [char_of (34 :: nat)]),
        (''&#39;'', [char_of (39 :: nat)]), (''&apos;'', [char_of (39 :: nat)]),
        (''&nbsp;'', '' ''), (''&amp;'', ''&'')] s"

text \<open>The group and the rest when an empty link starts right behind a bracket.\<close>

definition empty_link :: "string \<Rightarrow> (string \<times> string) option" where
  "empty_link s =
     (let label = takeWhile (\<lambda>c. c \<noteq> CHR '']'') s; rest = dropWhile (\<lambda>c. c \<noteq> CHR '']'') s;
          tail = dropWhile is_space (drop 2 rest) in
      if label \<noteq> [] \<and> starts_with rest ''](''  \<and> starts_with tail '')''
      then Some (label, drop 1 tail) else None)"

lemma empty_link_shorter: "empty_link s = Some (label, rest) \<Longrightarrow> length rest \<le> length s"
proof -
  assume "empty_link s = Some (label, rest)"
  then have "rest = drop 1 (dropWhile is_space (drop 2 (dropWhile (\<lambda>c. c \<noteq> CHR '']'') s)))"
    by (auto simp: empty_link_def Let_def split: if_splits)
  moreover have "length (dropWhile is_space (drop 2 (dropWhile (\<lambda>c. c \<noteq> CHR '']'') s))) \<le> length s"
    using length_dropWhile_le [of is_space "drop 2 (dropWhile (\<lambda>c. c \<noteq> CHR '']'') s)"]
      length_dropWhile_le [of "\<lambda>c. c \<noteq> CHR '']''" s] by simp
  ultimately show ?thesis by simp
qed

function stripEmptyLinks :: "string \<Rightarrow> string" where
  "stripEmptyLinks [] = []"
| "stripEmptyLinks (c # s) =
     (if c = CHR ''['' then
        (case empty_link s of
           Some (label, rest) \<Rightarrow> label @ stripEmptyLinks rest
         | None \<Rightarrow> c # stripEmptyLinks s)
      else c # stripEmptyLinks s)"
  by pat_completeness auto
termination
  by (relation "measure length") (auto dest: empty_link_shorter)

definition slack_clean :: "string \<Rightarrow> string" where
  "slack_clean text = stripEmptyLinks (decodeHtmlEntities text)"

section \<open>Cutting it into posts\<close>

definition newline :: char where "newline = char_of (10 :: nat)"

text \<open>\<^verbatim>\<open>text.split(/\n\n+/)\<close>\<close>

function split_paragraphs :: "string \<Rightarrow> string list" where
  "split_paragraphs [] = [[]]"
| "split_paragraphs (c # s) =
     (if c = newline \<and> starts_with s [newline]
      then [] # split_paragraphs (dropWhile (\<lambda>d. d = newline) s)
      else (c # hd (split_paragraphs s)) # tl (split_paragraphs s))"
  by pat_completeness auto
termination
  by (relation "measure length") (auto simp: less_Suc_eq_le length_dropWhile_le)

function slices :: "nat \<Rightarrow> string \<Rightarrow> string list" where
  "slices n s = (if n = 0 \<or> length s \<le> n then [s] else take n s # slices n (drop n s))"
  by pat_completeness auto
termination
  by (relation "measure (\<lambda>(n, s). length s)") auto

declare slices.simps [simp del]

definition push :: "string \<Rightarrow> string list \<Rightarrow> string list" where
  "push s chunks = (if s = [] then chunks else chunks @ [s])"

text \<open>One line of \<^verbatim>\<open>pushOversized\<close>, with the chunks so far and the line buffer.\<close>

definition push_line :: "nat \<Rightarrow> string \<Rightarrow> string list \<times> string \<Rightarrow> string list \<times> string" where
  "push_line maxChunkSize line st =
     (let (chunks, buf) = st in
      if maxChunkSize < length buf + length line + 1
      then (let chunks = push buf chunks in
            if maxChunkSize < length line
            then (let parts = slices maxChunkSize line in (chunks @ butlast parts, last parts))
            else (chunks, line))
      else (chunks, if buf = [] then line else buf @ [newline] @ line))"

definition pushOversized :: "nat \<Rightarrow> string \<Rightarrow> string list \<Rightarrow> string list" where
  "pushOversized maxChunkSize chunk chunks =
     (let (chunks, buf) = fold (push_line maxChunkSize) (split_on newline chunk) (chunks, [])
      in push buf chunks)"

definition push_paragraph :: "nat \<Rightarrow> string \<Rightarrow> string list \<times> string \<Rightarrow> string list \<times> string" where
  "push_paragraph maxChunkSize para st =
     (let (chunks, current) = st in
      if maxChunkSize < length para
      then (pushOversized maxChunkSize para (push current chunks), [])
      else (let candidate = (if current = [] then para else current @ [newline, newline] @ para) in
            if maxChunkSize < length candidate then (push current chunks, para)
            else (chunks, candidate)))"

definition chunkOnParagraphBoundaries :: "string \<Rightarrow> nat \<Rightarrow> string list" where
  "chunkOnParagraphBoundaries text maxChunkSize =
     (if length text \<le> maxChunkSize then [text]
      else (let (chunks, current) =
              fold (push_paragraph maxChunkSize) (split_paragraphs text) ([], [])
            in push current chunks))"

definition slack_markdown_chunk_size :: nat where
  "slack_markdown_chunk_size = 11000"

record slack_post =
  sp_channel :: string
  sp_thread_ts :: "string option"
  sp_markdown_text :: string

definition slack_thread :: "string \<Rightarrow> string option \<Rightarrow> string option" where
  "slack_thread channelId conversationId =
     (case conversationId of None \<Rightarrow> None
      | Some conv \<Rightarrow>
          if conv = [] \<or> conv = channelId then None
          else (case split_on CHR '':'' conv of
              [platform, channel, ts] \<Rightarrow> if platform = ''slack'' then Some ts else None
            | _ \<Rightarrow> None))"

text \<open>
  The posts \<^verbatim>\<open>postSlackMarkdown\<close> makes, in order; \<open>None\<close> when the adapter has no client and the
  caller has to fall back.
\<close>

definition postSlackMarkdown ::
    "bool \<Rightarrow> string \<Rightarrow> string option \<Rightarrow> string \<Rightarrow> slack_post list option" where
  "postSlackMarkdown has_client channelId conversationId body =
     (if \<not> has_client then None
      else (let channel = (if starts_with channelId ''slack:'' then drop 6 channelId else channelId);
                thread_ts = slack_thread channelId conversationId in
            Some (map (\<lambda>chunk. \<lparr>sp_channel = channel,
                        sp_thread_ts = (if truthy thread_ts then thread_ts else None),
                        sp_markdown_text = chunk\<rparr>)
                   (filter (\<lambda>chunk. trim chunk \<noteq> [])
                     (chunkOnParagraphBoundaries body slack_markdown_chunk_size)))))"

section \<open>The posts fit and lose nothing\<close>

definition visible :: "string \<Rightarrow> string" where
  "visible s = filter (\<lambda>c. c \<noteq> newline) s"

lemma visible_append [simp]: "visible (s @ t) = visible s @ visible t"
  and visible_Nil [simp]: "visible [] = []"
  and visible_newline [simp]: "visible (newline # s) = visible s"
  by (simp_all add: visible_def)

lemma visible_drop_newlines: "visible (dropWhile (\<lambda>d. d = newline) s) = visible s"
  by (induction s) (auto simp: visible_def)

lemma split_paragraphs_not_Nil [simp]: "split_paragraphs s \<noteq> []"
  by (cases s) auto

lemma visible_Cons: "visible (c # s) = (if c = newline then visible s else c # visible s)"
  by (simp add: visible_def)

lemma visible_paragraphs: "visible (concat (split_paragraphs s)) = visible s"
proof (induction s rule: split_paragraphs.induct)
  case (2 c s)
  show ?case
  proof (cases "c = newline \<and> starts_with s [newline]")
    case True
    then show ?thesis using 2(1) by (simp add: visible_drop_newlines)
  next
    case False
    obtain p ps where p: "split_paragraphs s = p # ps" by (cases "split_paragraphs s") auto
    then show ?thesis using 2(2) [OF False] False by (simp add: visible_Cons)
  qed
qed simp

lemma visible_lines: "visible (concat (split_on newline s)) = visible s"
  by (induction s) (auto simp: visible_Cons split: list.splits)

lemma concat_slices: "concat (slices n s) = s"
  by (induction n s rule: slices.induct) (subst slices.simps, simp)

lemma slices_not_Nil [simp]: "slices n s \<noteq> []"
  by (subst slices.simps) simp

lemma slices_bound: "0 < n \<Longrightarrow> p \<in> set (slices n s) \<Longrightarrow> length p \<le> n"
proof (induction n s rule: slices.induct)
  case (1 n s)
  then show ?case by (subst (asm) slices.simps) (auto split: if_splits)
qed

lemma visible_slices: "visible (concat (butlast (slices n s)) @ last (slices n s)) = visible s"
  using concat_slices [of n s] by (metis append_butlast_last_id concat.simps concat_append
      append_Nil2 slices_not_Nil)

text \<open>\<open>fits\<close>: chunks and buffer within the limit, holding the visible characters of \<open>s\<close>.\<close>

definition fits :: "nat \<Rightarrow> string \<Rightarrow> string list \<times> string \<Rightarrow> bool" where
  "fits n s st \<longleftrightarrow> (\<forall>c \<in> set (fst st). length c \<le> n) \<and> length (snd st) \<le> n
     \<and> visible (concat (fst st) @ snd st) = visible s"

lemma fits_push: "fits n s (chunks, buf) \<Longrightarrow> fits n s (push buf chunks, [])"
  by (auto simp: fits_def push_def)

lemma fits_push_line:
  assumes "0 < n" and "fits n s st"
  shows "fits n (s @ line) (push_line n line st)"
proof -
  obtain chunks buf where st: "st = (chunks, buf)" by (cases st)
  note pushed = fits_push [OF assms(2) [unfolded st]]
  have "\<forall>p \<in> set (butlast (slices n line)). length p \<le> n" "length (last (slices n line)) \<le> n"
    using slices_bound [OF assms(1), of _ line] by (auto dest: in_set_butlastD)
  moreover have "visible (concat (butlast (slices n line))) @ visible (last (slices n line)) = visible line"
    using visible_slices [of n line] by simp
  ultimately show ?thesis using pushed assms(2) unfolding st
    by (auto simp: fits_def push_line_def Let_def)
qed

lemma fits_lines:
  "0 < n \<Longrightarrow> fits n s st \<Longrightarrow> fits n (s @ concat ls) (fold (push_line n) ls st)"
proof (induction ls arbitrary: s st)
  case (Cons l ls)
  then show ?case using Cons.IH [OF _ fits_push_line, of s st l] by simp
qed simp

lemma fits_visible: "fits n s st \<Longrightarrow> visible s = visible s' \<Longrightarrow> fits n s' st"
  by (simp add: fits_def)

lemma fits_pushOversized:
  assumes "0 < n" and "fits n s (chunks, [])"
  shows "fits n (s @ chunk) (pushOversized n chunk chunks, [])"
proof -
  have "fits n (s @ concat (split_on newline chunk))
      (fold (push_line n) (split_on newline chunk) (chunks, []))"
    using assms by (rule fits_lines)
  then have "fits n (s @ chunk) (fold (push_line n) (split_on newline chunk) (chunks, []))"
    by (rule fits_visible) (simp add: visible_lines)
  then show ?thesis unfolding pushOversized_def
    by (cases "fold (push_line n) (split_on newline chunk) (chunks, [])")
      (simp add: Let_def fits_push)
qed

lemma fits_push_paragraph:
  assumes "0 < n" and "fits n s st"
  shows "fits n (s @ para) (push_paragraph n para st)"
proof -
  obtain chunks current where st: "st = (chunks, current)" by (cases st)
  note pushed = fits_push [OF assms(2) [unfolded st]]
  show ?thesis using fits_pushOversized [OF assms(1) pushed, of para] pushed assms(2) unfolding st
    by (auto simp: push_paragraph_def Let_def) (auto simp: fits_def)
qed

lemma fits_paragraphs:
  "0 < n \<Longrightarrow> fits n s st \<Longrightarrow> fits n (s @ concat ps) (fold (push_paragraph n) ps st)"
proof (induction ps arbitrary: s st)
  case (Cons p ps)
  then show ?case using Cons.IH [OF _ fits_push_paragraph, of s st p] by simp
qed simp

lemma chunks_fit:
  assumes "0 < n"
  shows "fits n text (chunkOnParagraphBoundaries text n, [])"
proof (cases "length text \<le> n")
  case True
  then show ?thesis by (simp add: fits_def chunkOnParagraphBoundaries_def)
next
  case False
  have "fits n ([] @ concat (split_paragraphs text))
      (fold (push_paragraph n) (split_paragraphs text) ([], []))"
    using assms by (intro fits_paragraphs) (simp_all add: fits_def)
  then have "fits n text (fold (push_paragraph n) (split_paragraphs text) ([], []))"
    by (rule fits_visible) (simp add: visible_paragraphs)
  with False show ?thesis unfolding chunkOnParagraphBoundaries_def
    by (cases "fold (push_paragraph n) (split_paragraphs text) ([], [])")
      (simp add: Let_def fits_push)
qed

section \<open>Properties\<close>

definition printable :: "string \<Rightarrow> string" where
  "printable s = filter (\<lambda>c. \<not> is_space c) s"

lemma printable_visible: "printable (visible s) = printable s"
  by (auto simp: printable_def visible_def newline_def is_space_def intro!: filter_cong)

lemma trim_Nil_iff: "trim s = [] \<longleftrightarrow> (\<forall>c \<in> set s. is_space c)"
proof -
  have "(\<forall>c \<in> set (dropWhile is_space s). is_space c) \<longleftrightarrow> (\<forall>c \<in> set s. is_space c)"
    by (induction s) auto
  then show ?thesis by (simp add: trim_def)
qed

lemma printable_blank: "trim s = [] \<Longrightarrow> printable s = []"
  by (simp add: trim_Nil_iff printable_def filter_empty_conv)

lemma printable_posts:
  "printable (concat (filter (\<lambda>c. trim c \<noteq> []) cs)) = printable (concat cs)"
proof (induction cs)
  case (Cons c cs)
  then show ?case using printable_blank [of c] by (simp add: printable_def)
qed simp

text \<open>
  C40: Posting a reply to Slack: every post is within the chunk size and not blank, and the posts
  together carry every printable character of the reply, in order; only white space may go.
\<close>

theorem slack_posts_complete:
  assumes "postSlackMarkdown True channelId conversationId body = Some posts"
  shows "(\<forall>p \<in> set posts. length (sp_markdown_text p) \<le> slack_markdown_chunk_size
            \<and> trim (sp_markdown_text p) \<noteq> [])
    \<and> printable (concat (map sp_markdown_text posts)) = printable body"
proof -
  let ?chunks = "chunkOnParagraphBoundaries body slack_markdown_chunk_size"
  have fit: "fits slack_markdown_chunk_size body (?chunks, [])"
    by (intro chunks_fit) (simp add: slack_markdown_chunk_size_def)
  have texts: "map sp_markdown_text posts = filter (\<lambda>c. trim c \<noteq> []) ?chunks"
    using assms by (auto simp: postSlackMarkdown_def Let_def comp_def)
  have "set (map sp_markdown_text posts) \<subseteq> {c \<in> set ?chunks. trim c \<noteq> []}" unfolding texts by auto
  then have "length (sp_markdown_text p) \<le> slack_markdown_chunk_size \<and> trim (sp_markdown_text p) \<noteq> []"
    if "p \<in> set posts" for p
    using fit that by (auto simp: fits_def)
  moreover have "printable (concat (map sp_markdown_text posts)) = printable body"
    unfolding texts printable_posts
    using fit printable_visible [of "concat ?chunks"] printable_visible [of body] by (simp add: fits_def)
  ultimately show ?thesis by blast
qed

theorem slack_posts_complete_witness:
  "\<exists>posts. postSlackMarkdown True ''slack:C1'' None ''hi'' = Some posts
     \<and> printable (concat (map sp_markdown_text posts)) = printable ''hi''"
proof -
  obtain posts where "postSlackMarkdown True ''slack:C1'' None ''hi'' = Some posts"
    by (simp add: postSlackMarkdown_def Let_def)
  with slack_posts_complete [OF this] show ?thesis by blast
qed

text \<open>
  The text that is posted is not the text that was scanned: removing an empty link can put a
  credential together that no part of the scanned text contains.
\<close>

definition split_token :: string where
  "split_token = ''gh[p_]()'' @ replicate 36 CHR ''x''"

lemma split_token_cleaned: "slack_clean split_token = ''ghp_'' @ replicate 36 CHR ''x''"
  by code_simp

lemma split_token_passes: "\<not> gr_tripped (scan_secrets split_token)"
  by code_simp

lemma cleaned_text_unscanned:
  "\<not> gr_tripped (scan_secrets split_token) \<and> credential (slack_clean split_token)"
proof -
  have "run_of alnum (replicate 36 CHR ''x'')"
    by (simp add: run_of_def alnum_def is_alpha_def code_def)
  then have "credential (slack_clean split_token)"
    unfolding split_token_cleaned credential_def by (metis length_replicate)
  then show ?thesis using split_token_passes by blast
qed

end
