(* ===== verification/Output_Stream.thy ===== *)
theory Output_Stream
  imports Slack_Text
begin

text \<open>
  The way of an agent's reply to the chat platform:
  \<^verbatim>\<open>packages/server/src/gateway/connections/chat-response-bridge.ts\<close> (\<^verbatim>\<open>ChatResponseBridge\<close>:
  the streams per conversation, the rolling window the output guardrails scan, the blocked
  streams), the two strategies of \<^verbatim>\<open>platform-strategies/index.ts\<close> (live streaming and Slack's
  single post at completion) and the routing of \<^verbatim>\<open>platform/unified-thread-consumer.ts\<close>.

  A handler is a function from the bridge's state to the new state and what reaches the
  outside, a list of \<open>emission\<close>s; a handler is taken to run as a whole, as it does when the
  rows of one conversation are consumed one after the other. The Chat SDK is outside: the
  environment tells which connections exist, whether a target resolves, and which posts fail.
\<close>

section \<open>Payloads and the environment\<close>

record platform_metadata =
  md_connectionId :: "string option"
  md_sessionId :: "string option"
  md_chatId :: "string option"
  md_responseChannel :: "string option"
  md_agentId :: "string option"
  md_organizationId :: "string option"
  md_sessionReset :: bool

record custom_event =
  cu_name :: string
  cu_requireSseOwner :: bool

record response =
  rp_messageId :: string
  rp_channelId :: string
  rp_conversationId :: string
  rp_userId :: string
  rp_teamId :: "string option"
  rp_platform :: "string option"
  rp_content :: "string option"
  rp_delta :: "string option"
  rp_isFullReplacement :: bool
  rp_processedMessageIds :: "string list option"
  rp_finalText :: "string option"
  rp_error :: "string option"
  rp_errorCode :: "string option"
  rp_ephemeral :: bool
  rp_statusUpdate :: bool
  rp_customEvent :: "custom_event option"
  rp_metadata :: platform_metadata

record chat_instance =
  ci_platform :: string
  ci_agentId :: "string option"
  ci_organizationId :: "string option"
  ci_hasState :: bool
  ci_slackClient :: bool

record environment =
  en_instance :: "string \<Rightarrow> chat_instance option"
  en_target :: "response \<Rightarrow> bool"
  en_post_fails :: "string \<Rightarrow> bool"
  en_settings_url :: "response \<Rightarrow> string option"

record response_context =
  cx_connectionId :: string
  cx_instance :: chat_instance
  cx_channelId :: string

fun orElse :: "'a option \<Rightarrow> 'a option \<Rightarrow> 'a option" where
  "orElse (Some x) _ = Some x"
| "orElse None y = y"

definition extractResponseContext :: "environment \<Rightarrow> response \<Rightarrow> response_context option" where
  "extractResponseContext env p =
     (case md_connectionId (rp_metadata p) of
        None \<Rightarrow> None
      | Some connectionId \<Rightarrow>
         if connectionId = [] then None
         else (case en_instance env connectionId of
             None \<Rightarrow> None
           | Some inst \<Rightarrow> Some \<lparr>cx_connectionId = connectionId, cx_instance = inst,
               cx_channelId = the (orElse (md_chatId (rp_metadata p))
                 (orElse (md_responseChannel (rp_metadata p)) (Some (rp_channelId p))))\<rparr>))"

definition first_truthy :: "string option \<Rightarrow> string option \<Rightarrow> string option" where
  "first_truthy a b = (if truthy a then a else if truthy b then b else None)"

definition resolveAgentId :: "response \<Rightarrow> response_context \<Rightarrow> string option" where
  "resolveAgentId p ctx = first_truthy (md_agentId (rp_metadata p)) (ci_agentId (cx_instance ctx))"

definition resolveOrganizationId :: "response \<Rightarrow> response_context \<Rightarrow> string option" where
  "resolveOrganizationId p ctx =
     first_truthy (md_organizationId (rp_metadata p)) (ci_organizationId (cx_instance ctx))"

definition stream_key :: "response_context \<Rightarrow> response \<Rightarrow> string" where
  "stream_key ctx p = cx_channelId ctx @ '':'' @ rp_conversationId p"

section \<open>The output guardrails\<close>

text \<open>
  \<open>lookup\<close> is what the settings store answers for the agent, \<open>race\<close> the outcome of the runner;
  the second component is the audit record of a trip.
\<close>

definition runOutputGuardrails :: "(string \<Rightarrow> string) \<Rightarrow> ('j \<Rightarrow> string option) \<Rightarrow>
    'j registry option \<Rightarrow> (string \<Rightarrow> agent_settings option option) \<Rightarrow>
    ('j guardrail_ctx \<Rightarrow> 'j guardrail list \<Rightarrow> run_outcome) \<Rightarrow>
    response_context \<Rightarrow> response \<Rightarrow> string \<Rightarrow> trip_info option \<times> trip_params option" where
  "runOutputGuardrails sha256 stringify registry lookup race ctx p scanText =
     (if scanText = [] then (None, None)
      else (case resolveAgentId p ctx of
          None \<Rightarrow> (None, None)
        | Some agentId \<Rightarrow>
           (let c = \<lparr>oc_agentId = agentId, oc_userId = rp_userId p, oc_text = scanText,
                     oc_platform = ci_platform (cx_instance ctx),
                     oc_conversationId = Some (rp_conversationId p)\<rparr> in
            case guarded_trip sha256 stringify registry (lookup agentId) Output
                   (race (Output_Ctx c)) of
              None \<Rightarrow> (None, None)
            | Some t \<Rightarrow> (Some t, Some (audit_of (resolveOrganizationId p ctx) agentId (rp_userId p)
                (Some (rp_conversationId p)) Output t)))))"

type_synonym scanner = "response_context \<Rightarrow> response \<Rightarrow> string \<Rightarrow> trip_info option"

definition output_guardrail_tail_chars :: nat where "output_guardrail_tail_chars = 256"

definition guardrail_scan_window :: nat where
  "guardrail_scan_window = output_guardrail_tail_chars * 2"

definition last_n :: "nat \<Rightarrow> string \<Rightarrow> string" where
  "last_n n s = drop (length s - n) s"

section \<open>The bridge\<close>

record stream_state =
  ss_buffer :: string
  ss_streamFailed :: bool
  ss_wasFullyReplaced :: bool
  ss_target :: bool

record bridge =
  br_streams :: "(string, stream_state) jmap"
  br_blockedStreams :: "string set"
  br_guardrailTails :: "(string, string) jmap"

text \<open>
  What reaches the outside: a live message is opened, extended and closed; other texts are
  posted as a whole; the finished reply goes into the conversation's history.
\<close>

datatype emission =
    Opened string string
  | Extended string string
  | Closed string
  | Posted string string
  | Slack_Posted string slack_post
  | History string string
  | Session_Cleared string

definition scanWindowWithTail :: "string \<Rightarrow> string \<Rightarrow> bridge \<Rightarrow> string \<times> bridge" where
  "scanWindowWithTail key delta b =
     (let combined = (case map_of (br_guardrailTails b) key of None \<Rightarrow> [] | Some t \<Rightarrow> t) @ delta;
          window = (if guardrail_scan_window < length combined
                    then last_n guardrail_scan_window combined else combined)
      in (window, b\<lparr>br_guardrailTails := AList.update key window (br_guardrailTails b)\<rparr>))"

definition deliversAtCompletion :: "string \<Rightarrow> bool" where
  "deliversAtCompletion platform = (platform = ''slack'')"

definition dispose :: "string \<Rightarrow> string \<Rightarrow> emission list" where
  "dispose platform key = (if deliversAtCompletion platform then [] else [Closed key])"

text \<open>\<^verbatim>\<open>handleDelta\<close> of the two strategies: the next stream state and what is streamed.\<close>

definition default_delta :: "bool \<Rightarrow> string \<Rightarrow> string \<Rightarrow> bool \<Rightarrow> stream_state option \<Rightarrow>
    stream_state option \<times> emission list" where
  "default_delta target key delta full existing =
     (case existing of
        None \<Rightarrow>
          if \<not> target then (None, [])
          else (Some \<lparr>ss_buffer = delta, ss_streamFailed = False, ss_wasFullyReplaced = full,
                      ss_target = True\<rparr>, [Opened key delta])
      | Some st \<Rightarrow> (Some (st\<lparr>ss_buffer := ss_buffer st @ delta\<rparr>), [Extended key delta]))"

definition slack_delta :: "bool \<Rightarrow> string \<Rightarrow> bool \<Rightarrow> stream_state option \<Rightarrow>
    stream_state option \<times> emission list" where
  "slack_delta target delta full existing =
     (case existing of
        Some st \<Rightarrow> (Some (st\<lparr>ss_buffer := ss_buffer st @ delta,
            ss_wasFullyReplaced := (full \<or> ss_wasFullyReplaced st)\<rparr>), [])
      | None \<Rightarrow> (Some \<lparr>ss_buffer = delta, ss_streamFailed = True, ss_wasFullyReplaced = full,
            ss_target = target\<rparr>, []))"

definition strategy_delta :: "string \<Rightarrow> bool \<Rightarrow> string \<Rightarrow> string \<Rightarrow> bool \<Rightarrow>
    stream_state option \<Rightarrow> stream_state option \<times> emission list" where
  "strategy_delta platform target key delta full existing =
     (if deliversAtCompletion platform then slack_delta target delta full existing
      else default_delta target key delta full existing)"

definition put_stream :: "string \<Rightarrow> stream_state option \<Rightarrow> bridge \<Rightarrow> bridge" where
  "put_stream key st b = b\<lparr>br_streams :=
     (case st of None \<Rightarrow> AList.delete key (br_streams b)
      | Some s \<Rightarrow> AList.update key s (br_streams b))\<rparr>"

definition drop_tail :: "string \<Rightarrow> bridge \<Rightarrow> bridge" where
  "drop_tail key b = b\<lparr>br_guardrailTails := AList.delete key (br_guardrailTails b)\<rparr>"

definition block_text :: "trip_info \<Rightarrow> string" where
  "block_text t = ''Message blocked by guardrail: ''
     @ (case ti_reason t of None \<Rightarrow> ti_guardrail t | Some r \<Rightarrow> r)"

definition post_if :: "bool \<Rightarrow> string \<Rightarrow> string \<Rightarrow> emission list" where
  "post_if target key text = (if target then [Posted key text] else [])"

definition clear_for_replacement ::
    "string \<Rightarrow> string \<Rightarrow> bool \<Rightarrow> bridge \<Rightarrow> bridge \<times> emission list" where
  "clear_for_replacement platform key full b =
     (if full \<and> map_of (br_streams b) key \<noteq> None
      then (drop_tail key (put_stream key None b), dispose platform key)
      else (b, []))"

definition block_stream :: "environment \<Rightarrow> response \<Rightarrow> string \<Rightarrow> string \<Rightarrow> trip_info \<Rightarrow>
    bridge \<Rightarrow> bridge \<times> emission list" where
  "block_stream env p platform key t b =
     (let had = (map_of (br_streams b) key \<noteq> None);
          b = drop_tail key (b\<lparr>br_blockedStreams := insert key (br_blockedStreams b)\<rparr>)
      in (if had then put_stream key None b else b,
          (if had then dispose platform key else [])
            @ post_if (en_target env p) key (block_text t)))"

definition handleDelta :: "environment \<Rightarrow> scanner \<Rightarrow> response \<Rightarrow> bridge \<Rightarrow> bridge \<times> emission list" where
  "handleDelta env scan p b =
     (case rp_delta p of
        None \<Rightarrow> (b, [])
      | Some delta \<Rightarrow>
         (case extractResponseContext env p of
            None \<Rightarrow> (b, [])
          | Some ctx \<Rightarrow>
             (let key = stream_key ctx p; platform = ci_platform (cx_instance ctx) in
              if key \<in> br_blockedStreams b then (b, [])
              else
                (let (b, disposed) =
                       clear_for_replacement platform key (rp_isFullReplacement p) b;
                     (window, b) = scanWindowWithTail key delta b in
                 case scan ctx p window of
                   Some t \<Rightarrow>
                     (let (b, es) = block_stream env p platform key t b in (b, disposed @ es))
                 | None \<Rightarrow>
                     (let (nxt, es) = strategy_delta platform (en_target env p) key delta
                            (rp_isFullReplacement p) (map_of (br_streams b) key)
                      in (put_stream key nxt b, disposed @ es))))))"

section \<open>Completion and errors\<close>

text \<open>The adapter's streaming call of an open message may reject at any time.\<close>

definition stream_rejects :: "string \<Rightarrow> bridge \<Rightarrow> bridge" where
  "stream_rejects key b =
     (case map_of (br_streams b) key of
        None \<Rightarrow> b
      | Some st \<Rightarrow> put_stream key (Some (st\<lparr>ss_streamFailed := True\<rparr>)) b)"

definition default_completion :: "string \<Rightarrow> stream_state option \<Rightarrow> emission list" where
  "default_completion key stream =
     (case stream of
        None \<Rightarrow> []
      | Some st \<Rightarrow>
          if ss_streamFailed st \<and> trim (ss_buffer st) \<noteq> [] \<and> ss_target st
          then [Posted key (ss_buffer st)] else [])"

text \<open>
  Slack posts chunk by chunk; when a post fails, the whole cleaned text goes to the SDK target.
\<close>

fun slack_until :: "(string \<Rightarrow> bool) \<Rightarrow> string \<Rightarrow> slack_post list \<Rightarrow> bool \<times> emission list" where
  "slack_until fails key [] = (True, [])"
| "slack_until fails key (q # qs) =
     (if fails (sp_markdown_text q) then (False, [])
      else (let (ok, es) = slack_until fails key qs in (ok, Slack_Posted key q # es)))"

definition slack_completion :: "environment \<Rightarrow> response_context \<Rightarrow> response \<Rightarrow>
    stream_state option \<Rightarrow> emission list" where
  "slack_completion env ctx p stream =
     (let key = stream_key ctx p;
          text = the (orElse (rp_finalText p) (orElse (map_option ss_buffer stream) (Some [])));
          fallback = (case stream of None \<Rightarrow> False | Some st \<Rightarrow> ss_target st);
          cleaned = slack_clean text in
      if trim text = [] then []
      else (case postSlackMarkdown (ci_slackClient (cx_instance ctx)) (cx_channelId ctx)
                   (Some (rp_conversationId p)) cleaned of
              None \<Rightarrow> post_if fallback key cleaned
            | Some posts \<Rightarrow>
                (let (ok, es) = slack_until (en_post_fails env) key posts
                 in if ok then es else es @ post_if fallback key cleaned)))"

definition strategy_completion :: "environment \<Rightarrow> response_context \<Rightarrow> response \<Rightarrow>
    stream_state option \<Rightarrow> emission list" where
  "strategy_completion env ctx p stream =
     (if deliversAtCompletion (ci_platform (cx_instance ctx))
      then slack_completion env ctx p stream
      else default_completion (stream_key ctx p) stream)"

definition not_blank :: "string option \<Rightarrow> bool" where
  "not_blank s = (case s of None \<Rightarrow> False | Some t \<Rightarrow> trim t \<noteq> [])"

definition completion_scan :: "scanner \<Rightarrow> response_context \<Rightarrow> response \<Rightarrow>
    stream_state option \<Rightarrow> trip_info option" where
  "completion_scan scan ctx p stream =
     (let text = the (orElse (rp_finalText p) (orElse (map_option ss_buffer stream) (Some []))) in
      if deliversAtCompletion (ci_platform (cx_instance ctx)) \<and> trim text \<noteq> []
      then scan ctx p text else None)"

definition handleCompletion ::
    "environment \<Rightarrow> scanner \<Rightarrow> response \<Rightarrow> bridge \<Rightarrow> bridge \<times> emission list" where
  "handleCompletion env scan p b =
     (case extractResponseContext env p of
        None \<Rightarrow> (b, [])
      | Some ctx \<Rightarrow>
         (let key = stream_key ctx p; platform = ci_platform (cx_instance ctx) in
          if key \<in> br_blockedStreams b
          then (drop_tail key (put_stream key None
                  (b\<lparr>br_blockedStreams := br_blockedStreams b - {key}\<rparr>)), [])
          else
            (let stream = map_of (br_streams b) key;
                 canDeliver = (deliversAtCompletion platform \<and> not_blank (rp_finalText p));
                 trip = completion_scan scan ctx p stream;
                 closed = (if stream = None then [] else [Closed key]);
                 blocked = (case trip of None \<Rightarrow> []
                   | Some t \<Rightarrow> post_if (en_target env p) key (block_text t));
                 delivered = (if trip = None \<and> (stream \<noteq> None \<or> canDeliver)
                   then strategy_completion env ctx p stream else []);
                 historyText = orElse (rp_finalText p) (map_option ss_buffer stream);
                 history = (if trip = None \<and> not_blank historyText \<and> ci_hasState (cx_instance ctx)
                   then [History key (the historyText)] else []);
                 reset = (if md_sessionReset (rp_metadata p) then [Session_Cleared key] else [])
             in (drop_tail key (if stream = None then b else put_stream key None b),
                 closed @ blocked @ delivered @ history @ reset))))"

definition error_text :: "environment \<Rightarrow> response \<Rightarrow> string \<Rightarrow> string" where
  "error_text env p err =
     (if rp_errorCode p = Some ''NO_MODEL_CONFIGURED''
      then (case en_settings_url env p of
          Some url \<Rightarrow> ''No model configured. Connect a provider at '' @ url
        | None \<Rightarrow> ''No model configured. Ask an admin to connect a provider for the base agent.'')
      else err)"

definition handleError :: "environment \<Rightarrow> response \<Rightarrow> bridge \<Rightarrow> bridge \<times> emission list" where
  "handleError env p b =
     (case rp_error p of
        None \<Rightarrow> (b, [])
      | Some err \<Rightarrow>
         if err = [] then (b, [])
         else
          (case extractResponseContext env p of
             None \<Rightarrow> (b, [])
           | Some ctx \<Rightarrow>
              (let key = stream_key ctx p;
                   stream = map_of (br_streams b) key;
                   complete = (case stream of None \<Rightarrow> False | Some st \<Rightarrow> ss_wasFullyReplaced st);
                   closed = (if stream = None then [] else [Closed key]);
                   b = (if stream = None then b else put_stream key None b) in
               if complete \<or> rp_errorCode p = Some ''SESSION_TIMEOUT'' then (b, closed)
               else (b, closed @ post_if (en_target env p) key
                          (''Error: '' @ error_text env p err)))))"

section \<open>Routing a row of the response queue\<close>

datatype render_call = Render_Ephemeral | Render_Status | Render_Delta | Render_Error
  | Render_Completion

datatype routed = Sse string string | Render render_call

datatype route_error = Not_Owned string | Not_Managed string

record renderer =
  rn_delta :: bool
  rn_ephemeral :: bool
  rn_status :: bool

definition cli_session :: "response \<Rightarrow> string option" where
  "cli_session p = (if truthy (md_sessionId (rp_metadata p)) then md_sessionId (rp_metadata p) else None)"

definition to_cli :: "response \<Rightarrow> bool \<Rightarrow> string \<Rightarrow> routed list" where
  "to_cli p cond event = (case cli_session p of None \<Rightarrow> [] | Some sid \<Rightarrow> if cond then [Sse sid event] else [])"

definition has_connection :: "response \<Rightarrow> bool" where
  "has_connection p = truthy (md_connectionId (rp_metadata p))"

definition is_api_row :: "response \<Rightarrow> bool" where
  "is_api_row p \<longleftrightarrow> (if truthy (rp_platform p) then rp_platform p else rp_teamId p) = Some ''api''
     \<and> \<not> has_connection p"

definition processed :: "response \<Rightarrow> bool" where
  "processed p = (case rp_processedMessageIds p of None \<Rightarrow> False | Some ids \<Rightarrow> ids \<noteq> [])"

definition requires_sse_owner :: "response \<Rightarrow> bool" where
  "requires_sse_owner p \<longleftrightarrow> \<not> has_connection p \<and>
     ((is_api_row p \<and> (truthy (rp_error p) \<or> processed p))
      \<or> (case rp_customEvent p of None \<Rightarrow> False | Some c \<Rightarrow> cu_requireSseOwner c))"

definition sse_key :: "response \<Rightarrow> string" where
  "sse_key p = (if truthy (md_sessionId (rp_metadata p)) then the (md_sessionId (rp_metadata p))
     else rp_conversationId p)"

definition custom_part :: "response \<Rightarrow> routed list" where
  "custom_part p = (case rp_customEvent p of None \<Rightarrow> []
     | Some c \<Rightarrow> Sse (rp_conversationId p) (cu_name c) # to_cli p True (cu_name c))"

definition only_custom :: "response \<Rightarrow> bool" where
  "only_custom p \<longleftrightarrow> rp_customEvent p \<noteq> None \<and> \<not> rp_ephemeral p \<and> \<not> rp_statusUpdate p
     \<and> \<not> truthy (rp_delta p) \<and> \<not> truthy (rp_error p) \<and> \<not> processed p"

definition terminal_part :: "response \<Rightarrow> routed list" where
  "terminal_part p =
     (let sse = \<not> is_api_row p in
      if truthy (rp_error p)
      then to_cli p sse ''error'' @ [Render Render_Error]
             @ to_cli p sse ''complete'' @ [Render Render_Completion]
      else if processed p then to_cli p sse ''complete'' @ [Render Render_Completion]
      else [])"

definition routeToRenderer ::
    "(string \<Rightarrow> bool) \<Rightarrow> renderer \<Rightarrow> response \<Rightarrow> route_error + routed list" where
  "routeToRenderer active r p =
     (if requires_sse_owner p \<and> sse_key p \<noteq> [] \<and> \<not> active (sse_key p)
      then Inl (Not_Owned (sse_key p))
      else Inr (custom_part p @
        (if only_custom p then []
         else if rp_ephemeral p \<and> truthy (rp_content p) \<and> rn_ephemeral r
         then to_cli p True ''ephemeral'' @ [Render Render_Ephemeral]
         else if rp_statusUpdate p \<and> rn_status r
         then to_cli p True ''status'' @ [Render Render_Status]
         else if truthy (rp_delta p) \<and> rn_delta r
         then to_cli p True ''output'' @ [Render Render_Delta]
                @ (if truthy (rp_error p) then terminal_part p else [])
         else terminal_part p)))"

definition bridge_renderer :: renderer where
  "bridge_renderer = \<lparr>rn_delta = True, rn_ephemeral = True, rn_status = True\<rparr>"

text \<open>
  \<^verbatim>\<open>handleThreadResponse\<close> for the rows that are neither a reminder nor a scheduled course:
  \<open>managed\<close> tells which connections this gateway has, \<open>renderers\<close> which platform renders.
\<close>

definition handleThreadResponse :: "(string \<Rightarrow> bool) \<Rightarrow> (string \<Rightarrow> renderer option) \<Rightarrow>
    (string \<Rightarrow> bool) \<Rightarrow> response \<Rightarrow> route_error + routed list" where
  "handleThreadResponse managed renderers active p =
     (if rp_messageId p = [] then Inr []
      else if has_connection p
      then (let conn = the (md_connectionId (rp_metadata p)) in
            if managed conn then routeToRenderer active bridge_renderer p
            else Inl (Not_Managed conn))
      else (let name = (if truthy (rp_platform p) then rp_platform p else rp_teamId p) in
            if \<not> truthy name then Inr []
            else (case renderers (the name) of
                None \<Rightarrow> Inr []
              | Some r \<Rightarrow> routeToRenderer active r p)))"

section \<open>What is streamed\<close>

fun deltas :: "environment \<Rightarrow> scanner \<Rightarrow> response list \<Rightarrow> bridge \<Rightarrow> bridge \<times> emission list" where
  "deltas env scan [] b = (b, [])"
| "deltas env scan (p # ps) b =
     (let (b1, es1) = handleDelta env scan p b; (b2, es2) = deltas env scan ps b1
      in (b2, es1 @ es2))"

text \<open>The live messages of a conversation, the last one first.\<close>

fun live_step :: "string \<Rightarrow> emission \<Rightarrow> string list \<Rightarrow> string list" where
  "live_step key (Opened k t) ms = (if k = key then t # ms else ms)"
| "live_step key (Extended k t) ms =
     (if k \<noteq> key then ms else (case ms of [] \<Rightarrow> [t] | m # r \<Rightarrow> (m @ t) # r))"
| "live_step key _ ms = ms"

definition live_messages :: "string \<Rightarrow> emission list \<Rightarrow> string list" where
  "live_messages key es = fold (live_step key) es []"

definition tail_of :: "bridge \<Rightarrow> string \<Rightarrow> string" where
  "tail_of b key = (case map_of (br_guardrailTails b) key of None \<Rightarrow> [] | Some t \<Rightarrow> t)"

definition clean :: "nat \<Rightarrow> string \<Rightarrow> bool" where
  "clean n m \<longleftrightarrow> (\<forall>u. credential u \<and> length u \<le> n \<longrightarrow> \<not> within u m)"

definition catches :: "(string \<Rightarrow> trip_info option) \<Rightarrow> bool" where
  "catches scan \<longleftrightarrow> (\<forall>text u. credential u \<and> within u text \<longrightarrow> scan text \<noteq> None)"

lemma last_n_append: "last_n n (last_n n x @ y) = last_n n (x @ y)"
  by (cases "length x \<le> n") (simp_all add: last_n_def add.commute)

lemma last_n_suffix: "length y \<le> n \<Longrightarrow> \<exists>x'. last_n n (x @ y) = x' @ y"
  by (simp add: last_n_def)

lemma scan_window:
  "fst (scanWindowWithTail key d b) = last_n guardrail_scan_window (tail_of b key @ d)"
  by (simp add: scanWindowWithTail_def tail_of_def last_n_def Let_def)

lemma scan_window_state:
  "snd (scanWindowWithTail key d b) = b\<lparr>br_guardrailTails :=
     AList.update key (last_n guardrail_scan_window (tail_of b key @ d)) (br_guardrailTails b)\<rparr>"
  by (simp add: scanWindowWithTail_def tail_of_def last_n_def Let_def)

text \<open>A credential that the new piece completes lies within the scanned window.\<close>

lemma completed_in_window:
  assumes "within u (cur @ d)" and "\<not> within u cur" and "length u + length d \<le> Suc n"
  shows "within u (last_n n (pre @ cur @ d))"
proof -
  obtain x y where xy: "cur @ d = x @ u @ y" using assms(1) by (auto simp: within_def)
  have "length y < length d"
  proof (rule ccontr)
    assume "\<not> length y < length d"
    moreover have "cur @ d = (x @ u) @ y" using xy by simp
    ultimately obtain z where "cur = (x @ u) @ z" by (auto simp: append_eq_append_conv2)
    with assms(2) show False by (auto simp: within_def)
  qed
  then have "length (u @ y) \<le> n" using assms(3) by simp
  from last_n_suffix [OF this, of "pre @ x"] obtain w where "last_n n (pre @ cur @ d) = w @ u @ y"
    unfolding xy by auto
  then show ?thesis by (auto simp: within_def)
qed

text \<open>The invariant of one conversation's stream; the last message is what the tail continues.\<close>

definition current :: "bridge \<Rightarrow> string \<Rightarrow> string list \<Rightarrow> string" where
  "current b key ms = (if map_of (br_streams b) key = None then [] else hd ms)"

definition stream_inv :: "nat \<Rightarrow> string \<Rightarrow> bridge \<Rightarrow> string list \<Rightarrow> bool" where
  "stream_inv n key b ms \<longleftrightarrow> (\<forall>m \<in> set ms. clean n m)
     \<and> (key \<in> br_blockedStreams b
        \<or> (map_of (br_streams b) key \<noteq> None \<longrightarrow> ms \<noteq> [])
          \<and> (\<exists>pre. tail_of b key = last_n guardrail_scan_window (pre @ current b key ms)))"

lemma tail_of_drop [simp]: "tail_of (drop_tail k b) key = (if key = k then [] else tail_of b key)"
  by (simp add: tail_of_def drop_tail_def jm_get_del)

lemma bridge_fields [simp]:
  "br_streams (drop_tail k b) = br_streams b"
  "br_blockedStreams (drop_tail k b) = br_blockedStreams b"
  "br_guardrailTails (put_stream k st b) = br_guardrailTails b"
  "br_blockedStreams (put_stream k st b) = br_blockedStreams b"
  "tail_of (put_stream k st b) key = tail_of b key"
  "map_of (br_streams (put_stream k st b)) key = (if key = k then st else map_of (br_streams b) key)"
  by (simp_all add: drop_tail_def put_stream_def tail_of_def jm_get_set jm_get_del
      split: option.splits)

lemma live_step_disposed [simp]:
  "fold (live_step key) (dispose platform k) ms = ms"
  "fold (live_step key) (post_if c k t) ms = ms"
  by (simp_all add: dispose_def post_if_def)

lemma clear_for_replacement_inv:
  assumes "stream_inv n key b ms" and "key \<notin> br_blockedStreams b"
    and "clear_for_replacement platform key full b = (b', es)"
  shows "stream_inv n key b' ms \<and> key \<notin> br_blockedStreams b' \<and> fold (live_step key) es ms = ms"
proof (cases "full \<and> map_of (br_streams b) key \<noteq> None")
  case True
  then have "b' = drop_tail key (put_stream key None b)" "es = dispose platform key"
    using assms(3) by (auto simp: clear_for_replacement_def)
  with assms(1,2) show ?thesis
    by (auto simp: stream_inv_def current_def last_n_def intro: exI [of _ "[]"])
next
  case False
  then have "b' = b" "es = []" using assms(3) by (auto simp: clear_for_replacement_def split: if_splits)
  with assms(1,2) show ?thesis by simp
qed

lemma clean_extended:
  assumes "clean n cur" and "\<forall>u. credential u \<and> within u (last_n w (pre @ cur @ d)) \<longrightarrow> False"
    and "n + length d \<le> Suc w"
  shows "clean n (cur @ d)"
  unfolding clean_def
proof (intro allI impI notI)
  fix u assume u: "credential u \<and> length u \<le> n" "within u (cur @ d)"
  then have "\<not> within u cur" using assms(1) by (auto simp: clean_def)
  moreover have "length u + length d \<le> Suc w" using u(1) assms(3) by simp
  ultimately have "within u (last_n w (pre @ cur @ d))" using u(2) by (intro completed_in_window)
  with u(1) assms(2) show False by blast
qed

lemma clean_Nil [simp]: "clean n []"
  by (auto simp: clean_def within_def credential_def)

text \<open>One delta of a live stream.\<close>

lemma live_delta_inv:
  assumes inv: "stream_inv n key b ms" and free: "key \<notin> br_blockedStreams b"
    and clean: "\<not> (\<exists>u. credential u \<and> within u (fst (scanWindowWithTail key d b)))"
    and short: "n + length d \<le> Suc guardrail_scan_window"
    and nxt: "default_delta target key d full (map_of (br_streams b) key) = (nxt, es)"
  shows "stream_inv n key (put_stream key nxt (snd (scanWindowWithTail key d b)))
    (fold (live_step key) es ms)"
proof -
  let ?w = "guardrail_scan_window" and ?cur = "current b key ms"
  from inv free obtain pre where pre: "tail_of b key = last_n ?w (pre @ ?cur)"
    and ms: "map_of (br_streams b) key \<noteq> None \<longrightarrow> ms \<noteq> []" "\<forall>m \<in> set ms. clean n m"
    by (auto simp: stream_inv_def)
  have tail: "last_n ?w (tail_of b key @ d) = last_n ?w (pre @ ?cur @ d)"
    unfolding pre last_n_append by simp
  have "clean n ?cur" using ms by (cases ms) (auto simp: current_def)
  then have cl: "clean n (?cur @ d)"
    using clean short unfolding scan_window tail by (intro clean_extended) auto
  have new_tail: "tail_of (put_stream key nxt (snd (scanWindowWithTail key d b))) key =
      last_n ?w (pre @ ?cur @ d)"
    by (simp add: scan_window_state tail_of_def jm_get_set flip: tail)
  show ?thesis
  proof (cases "map_of (br_streams b) key")
    case None
    then show ?thesis
    proof (cases target)
      case True
      with None nxt have "nxt \<noteq> None" "es = [Opened key d]" by (auto simp: default_delta_def)
      with None cl ms new_tail show ?thesis
        by (auto simp: stream_inv_def current_def)
    next
      case False
      with None nxt have "nxt = None" "es = []" by (auto simp: default_delta_def)
      with None ms new_tail show ?thesis
        by (auto simp: stream_inv_def current_def intro: exI [of _ "pre @ d"])
    qed
  next
    case (Some st)
    with ms obtain m r where m: "ms = m # r" by (cases ms) auto
    from Some nxt have "nxt \<noteq> None" "es = [Extended key d]" by (auto simp: default_delta_def)
    with Some m cl ms new_tail show ?thesis
      by (auto simp: stream_inv_def current_def)
  qed
qed

text \<open>Other conversations: nothing of this one changes.\<close>

definition same_at :: "string \<Rightarrow> bridge \<Rightarrow> bridge \<Rightarrow> bool" where
  "same_at key b b' \<longleftrightarrow> map_of (br_streams b') key = map_of (br_streams b) key
     \<and> (key \<in> br_blockedStreams b') = (key \<in> br_blockedStreams b) \<and> tail_of b' key = tail_of b key"

lemma same_at_inv: "same_at key b b' \<Longrightarrow> stream_inv n key b ms \<Longrightarrow> stream_inv n key b' ms"
  by (simp add: same_at_def stream_inv_def current_def)

lemma default_delta_other:
  "k \<noteq> key \<Longrightarrow> default_delta target k d full st = (nxt, es) \<Longrightarrow> fold (live_step key) es ms = ms"
  by (auto simp: default_delta_def split: option.splits if_splits)

lemma slack_delta_silent: "slack_delta target d full st = (nxt, es) \<Longrightarrow> es = []"
  by (auto simp: slack_delta_def split: option.splits)

lemma handleDelta_cases:
  assumes "handleDelta env scan p b = (b', es)" and "(b', es) \<noteq> (b, [])"
  obtains d ctx b1 es1 where "rp_delta p = Some d" and "extractResponseContext env p = Some ctx"
    and "stream_key ctx p \<notin> br_blockedStreams b"
    and "clear_for_replacement (ci_platform (cx_instance ctx)) (stream_key ctx p)
           (rp_isFullReplacement p) b = (b1, es1)"
    and "case scan ctx p (fst (scanWindowWithTail (stream_key ctx p) d b1)) of
        Some t \<Rightarrow> \<exists>es2. block_stream env p (ci_platform (cx_instance ctx)) (stream_key ctx p) t
            (snd (scanWindowWithTail (stream_key ctx p) d b1)) = (b', es2) \<and> es = es1 @ es2
      | None \<Rightarrow> \<exists>nxt es2. strategy_delta (ci_platform (cx_instance ctx)) (en_target env p)
            (stream_key ctx p) d (rp_isFullReplacement p)
            (map_of (br_streams b1) (stream_key ctx p)) = (nxt, es2)
          \<and> b' = put_stream (stream_key ctx p) nxt (snd (scanWindowWithTail (stream_key ctx p) d b1))
          \<and> es = es1 @ es2"
proof (cases "rp_delta p")
  case None
  with assms show ?thesis by (auto simp: handleDelta_def)
next
  case (Some d)
  note d = this
  show ?thesis
  proof (cases "extractResponseContext env p")
    case None
    with d assms show ?thesis by (auto simp: handleDelta_def)
  next
    case (Some ctx)
    show ?thesis
    proof (cases "stream_key ctx p \<in> br_blockedStreams b")
      case True
      with d Some assms show ?thesis by (auto simp: handleDelta_def Let_def)
    next
      case False
      obtain b1 es1 where c: "clear_for_replacement (ci_platform (cx_instance ctx))
          (stream_key ctx p) (rp_isFullReplacement p) b = (b1, es1)" by fastforce
      have "br_streams (snd (scanWindowWithTail k d b1)) = br_streams b1" for k
        by (simp add: scan_window_state)
      with d Some False c assms(1) show ?thesis
        by (intro that [OF d Some False c])
          (auto simp: handleDelta_def Let_def case_prod_unfold split: option.splits,
            metis prod.collapse)
    qed
  qed
qed

lemma block_stream_state:
  assumes "block_stream env p platform k t b = (b', es)"
  shows "k \<in> br_blockedStreams b'" and "fold (live_step key) es ms = ms"
    and "k \<noteq> key \<Longrightarrow> same_at key b b'"
  using assms by (auto simp: block_stream_def Let_def same_at_def drop_tail_def tail_of_def
      put_stream_def jm_get_del split: if_splits)

lemma clear_other: 
  "clear_for_replacement platform k full b = (b', es) \<Longrightarrow> fold (live_step key) es ms = ms"
  "clear_for_replacement platform k full b = (b', es) \<Longrightarrow> k \<noteq> key \<Longrightarrow> same_at key b b'"
  by (auto simp: clear_for_replacement_def same_at_def split: if_splits)

lemma same_at_trans: "same_at key b b' \<Longrightarrow> same_at key b' b'' \<Longrightarrow> same_at key b b''"
  by (simp add: same_at_def)

lemma same_at_window: "k \<noteq> key \<Longrightarrow> same_at key b (snd (scanWindowWithTail k d b))"
  by (simp add: same_at_def scan_window_state tail_of_def jm_get_set)

lemma same_at_put: "k \<noteq> key \<Longrightarrow> same_at key b (put_stream k st b)"
  by (simp add: same_at_def)

text \<open>Any row of the response queue that is a delta keeps the invariant of the stream \<open>key\<close>.\<close>

definition streams_clean :: "environment \<Rightarrow> scanner \<Rightarrow> nat \<Rightarrow> string \<Rightarrow> response \<Rightarrow> bool" where
  "streams_clean env scan n key p \<longleftrightarrow>
     (\<forall>ctx d. extractResponseContext env p = Some ctx \<longrightarrow> stream_key ctx p = key \<longrightarrow>
        rp_delta p = Some d \<longrightarrow>
        \<not> deliversAtCompletion (ci_platform (cx_instance ctx))
        \<and> n + length d \<le> Suc guardrail_scan_window \<and> catches (scan ctx p))"

lemma stream_inv_blocked: "stream_inv n key b ms \<Longrightarrow> key \<in> br_blockedStreams b' \<Longrightarrow> stream_inv n key b' ms"
  by (simp add: stream_inv_def)

lemma handleDelta_inv:
  assumes inv: "stream_inv n key b ms" and ok: "streams_clean env scan n key p"
    and step: "handleDelta env scan p b = (b', es)"
  shows "stream_inv n key b' (fold (live_step key) es ms)"
proof (cases "(b', es) = (b, [])")
  case True
  with inv show ?thesis by simp
next
  case False
  from step False obtain d ctx b1 es1 where d: "rp_delta p = Some d"
      "extractResponseContext env p = Some ctx" "stream_key ctx p \<notin> br_blockedStreams b"
    and c: "clear_for_replacement (ci_platform (cx_instance ctx)) (stream_key ctx p)
           (rp_isFullReplacement p) b = (b1, es1)"
    and rest: "case scan ctx p (fst (scanWindowWithTail (stream_key ctx p) d b1)) of
        Some t \<Rightarrow> \<exists>es2. block_stream env p (ci_platform (cx_instance ctx)) (stream_key ctx p) t
            (snd (scanWindowWithTail (stream_key ctx p) d b1)) = (b', es2) \<and> es = es1 @ es2
      | None \<Rightarrow> \<exists>nxt es2. strategy_delta (ci_platform (cx_instance ctx)) (en_target env p)
            (stream_key ctx p) d (rp_isFullReplacement p)
            (map_of (br_streams b1) (stream_key ctx p)) = (nxt, es2)
          \<and> b' = put_stream (stream_key ctx p) nxt (snd (scanWindowWithTail (stream_key ctx p) d b1))
          \<and> es = es1 @ es2"
    by (rule handleDelta_cases)
  let ?k = "stream_key ctx p" and ?b2 = "snd (scanWindowWithTail (stream_key ctx p) d b1)"
  note es1 = clear_other(1) [OF c]
  show ?thesis
  proof (cases "?k = key")
    case other: False
    have b2: "same_at key b ?b2"
      using same_at_trans [OF clear_other(2) [OF c other] same_at_window [OF other]] .
    show ?thesis
    proof (cases "scan ctx p (fst (scanWindowWithTail ?k d b1))")
      case (Some t)
      with rest obtain es2 where "block_stream env p (ci_platform (cx_instance ctx)) ?k t ?b2 = (b', es2)"
        "es = es1 @ es2" by auto
      from this(2) block_stream_state(2,3) [OF this(1)] other show ?thesis
        using same_at_inv [OF same_at_trans [OF b2]] inv es1 by simp
    next
      case None
      with rest obtain nxt es2 where n: "strategy_delta (ci_platform (cx_instance ctx))
          (en_target env p) ?k d (rp_isFullReplacement p) (map_of (br_streams b1) ?k) = (nxt, es2)"
        "b' = put_stream ?k nxt ?b2" "es = es1 @ es2" by auto
      have "fold (live_step key) es2 ms = ms"
        using n(1) default_delta_other [OF other]
        by (auto simp: strategy_delta_def dest: slack_delta_silent split: if_splits)
      with n es1 show ?thesis
        using same_at_inv [OF same_at_trans [OF b2 same_at_put [OF other]] inv] by simp
    qed
  next
    case same: True
    with ok d have live: "\<not> deliversAtCompletion (ci_platform (cx_instance ctx))"
      "n + length d \<le> Suc guardrail_scan_window" "catches (scan ctx p)"
      by (auto simp: streams_clean_def)
    have b1: "stream_inv n key b1 ms" "key \<notin> br_blockedStreams b1"
      using clear_for_replacement_inv [OF inv _ c [unfolded same]] d(3) same by auto
    show ?thesis
    proof (cases "scan ctx p (fst (scanWindowWithTail ?k d b1))")
      case (Some t)
      with rest obtain es2 where "block_stream env p (ci_platform (cx_instance ctx)) ?k t ?b2 = (b', es2)"
        "es = es1 @ es2" by auto
      from this(2) block_stream_state(1,2) [OF this(1)] same show ?thesis
        using stream_inv_blocked [OF b1(1)] es1 by simp
    next
      case None
      with rest live(1) obtain nxt es2 where n: "default_delta
          (en_target env p) ?k d (rp_isFullReplacement p) (map_of (br_streams b1) ?k) = (nxt, es2)"
        "b' = put_stream ?k nxt ?b2" "es = es1 @ es2" by (auto simp: strategy_delta_def)
      have "\<not> (\<exists>u. credential u \<and> within u (fst (scanWindowWithTail key d b1)))"
        using None live(3) same unfolding catches_def by fastforce
      from live_delta_inv [OF b1 this live(2) n(1) [unfolded same]] n es1 same
      show ?thesis by simp
    qed
  qed
qed

lemma deltas_inv:
  "stream_inv n key b ms \<Longrightarrow> \<forall>p \<in> set ps. streams_clean env scan n key p \<Longrightarrow>
     deltas env scan ps b = (b', es) \<Longrightarrow> stream_inv n key b' (fold (live_step key) es ms)"
proof (induction ps arbitrary: b ms es)
  case (Cons p ps)
  obtain b1 es1 where 1: "handleDelta env scan p b = (b1, es1)" by fastforce
  obtain es2 where 2: "deltas env scan ps b1 = (b', es2)" "es = es1 @ es2"
    using Cons.prems(3) 1 by (cases "deltas env scan ps b1") auto
  have "stream_inv n key b1 (fold (live_step key) es1 ms)"
    using Cons.prems 1 by (intro handleDelta_inv) auto
  from Cons.IH [OF this _ 2(1)] Cons.prems(2) 2(2) show ?case by simp
qed simp

section \<open>The scan of an agent that enables the secret scan\<close>

definition fair_race :: "(string \<Rightarrow> string \<Rightarrow> string option \<Rightarrow> bool \<times> string) \<Rightarrow>
    ('j guardrail_ctx \<Rightarrow> 'j guardrail list \<Rightarrow> run_outcome) \<Rightarrow> bool" where
  "fair_race decide race \<longleftrightarrow> (\<forall>ctx gs. gs \<noteq> [] \<longrightarrow>
     (\<exists>es s. runner_run decide ctx gs es s \<and> rs_resolved s = Some (race ctx gs)))"

lemma complete_run_exists: "\<exists>es s oc. runner_run decide ctx gs es s \<and> rs_resolved s = Some oc"
proof -
  have "\<exists>es s. runner_run decide ctx gs es s \<and> length es = k" if "k \<le> 2 * length gs" for k
    using that
  proof (induction k)
    case 0
    then show ?case using rr_start by blast
  next
    case (Suc k)
    then obtain es s where run: "runner_run decide ctx gs es s" "length es = k" by auto
    with Suc.prems runner_progress [OF run(1)] obtain e s' where
      "runner_step decide ctx gs s e s'" by auto
    from rr_step [OF run(1) this] run(2) show ?case by (intro exI conjI) (assumption | simp)+
  qed
  then obtain es s where run: "runner_run decide ctx gs es s" "length es = 2 * length gs" by blast
  then have "rs_resolved s \<noteq> None"
    by (simp add: runner_resolved race_outcome_def Let_def split: option.splits)
  with run(1) show ?thesis by auto
qed

lemma fair_race_exists: "\<exists>race :: 'j guardrail_ctx \<Rightarrow> 'j guardrail list \<Rightarrow> run_outcome. fair_race decide race"
proof -
  have "\<forall>x :: 'j guardrail_ctx \<times> 'j guardrail list. \<exists>oc es s.
      runner_run decide (fst x) (snd x) es s \<and> rs_resolved s = Some oc"
    using complete_run_exists by blast
  then obtain f where "\<forall>x :: 'j guardrail_ctx \<times> 'j guardrail list. \<exists>es s.
      runner_run decide (fst x) (snd x) es s \<and> rs_resolved s = Some (f x)" by metis
  then show ?thesis
    by (intro exI [of _ "\<lambda>ctx gs. f (ctx, gs)"]) (auto simp: fair_race_def)
qed

definition gateway_scan :: "(string \<Rightarrow> string) \<Rightarrow> ('j \<Rightarrow> string option) \<Rightarrow> 'j registry \<Rightarrow>
    (string \<Rightarrow> agent_settings option option) \<Rightarrow>
    ('j guardrail_ctx \<Rightarrow> 'j guardrail list \<Rightarrow> run_outcome) \<Rightarrow> scanner" where
  "gateway_scan sha256 stringify reg lookup race ctx p text =
     fst (runOutputGuardrails sha256 stringify (Some reg) lookup race ctx p text)"

text \<open>The scan trips exactly when one of the agent's output guardrails does.\<close>

lemma gateway_scan_iff:
  assumes "fair_race decide race" and "resolveAgentId p ctx = Some a" and "lookup a = Some st"
    and "body \<noteq> []"
  shows "gateway_scan sha stringify reg lookup race ctx p body \<noteq> None \<longleftrightarrow>
    (\<exists>g \<in> set (stage_guardrails sha stringify reg st Output).
       trips decide (Output_Ctx \<lparr>oc_agentId = a, oc_userId = rp_userId p, oc_text = body,
         oc_platform = ci_platform (cx_instance ctx),
         oc_conversationId = Some (rp_conversationId p)\<rparr>) g)"
proof -
  let ?c = "Output_Ctx \<lparr>oc_agentId = a, oc_userId = rp_userId p, oc_text = body,
      oc_platform = ci_platform (cx_instance ctx), oc_conversationId = Some (rp_conversationId p)\<rparr>"
  let ?gs = "stage_guardrails sha stringify reg st Output"
  have scan: "gateway_scan sha stringify reg lookup race ctx p body \<noteq> None \<longleftrightarrow>
      guarded_trip sha stringify (Some reg) (Some st) Output (race ?c) \<noteq> None"
    using assms(2-4) by (simp add: gateway_scan_def runOutputGuardrails_def Let_def split: option.splits)
  show ?thesis
  proof (cases "?gs = []")
    case True
    then show ?thesis unfolding scan by (simp add: guarded_trip_def)
  next
    case False
    with assms(1) obtain es s where "runner_run decide ?c ?gs es s"
      "rs_resolved s = Some (race ?c ?gs)" unfolding fair_race_def by blast
    from guarded_trip_iff [where race = "race ?c", OF this] show ?thesis unfolding scan .
  qed
qed

definition enables :: "string \<Rightarrow> (string \<Rightarrow> agent_settings option option) \<Rightarrow> string \<Rightarrow> bool" where
  "enables name lookup a \<longleftrightarrow> (\<exists>st names. lookup a = Some (Some st)
     \<and> as_guardrails st = Some names \<and> name \<in> set names)"

lemma trips_secret_scan:
  "credential u \<Longrightarrow> within u (oc_text c) \<Longrightarrow> trips decide (Output_Ctx c) secretScanGuardrail"
proof -
  assume "credential u" "within u (oc_text c)"
  moreover from this have "oc_text c \<noteq> []" by (auto simp: credential_def within_def)
  ultimately show ?thesis
    using scan_secrets_iff by (auto simp: trips_def settles_def secretScanGuardrail_def)
qed

lemma gateway_scan_catches:
  assumes "registerBuiltinGuardrails stringify [] = Inr reg" and "fair_race decide race"
    and "resolveAgentId p ctx = Some a" and "enables ''secret-scan'' lookup a"
  shows "catches (gateway_scan sha256 stringify reg lookup race ctx p)"
  unfolding catches_def
proof (intro allI impI)
  fix body u assume u: "credential u \<and> within u body"
  then have ne: "body \<noteq> []" by (auto simp: credential_def within_def)
  obtain st names where st: "lookup a = Some (Some st)" "as_guardrails st = Some names"
    "''secret-scan'' \<in> set names" using assms(4) by (auto simp: enables_def)
  have "secretScanGuardrail \<in> set (stage_guardrails sha256 stringify reg (Some st) Output)"
    using builtin_registry(1,3) [OF assms(1)] st(2,3) by (intro enabled_is_effective)
  then show "gateway_scan sha256 stringify reg lookup race ctx p body \<noteq> None"
    unfolding gateway_scan_iff [where lookup = lookup, OF assms(2,3) st(1) ne]
    by (rule rev_bexI) (rule trips_secret_scan [of u]; use u in simp)
qed

section \<open>Blocked streams\<close>

fun emission_key :: "emission \<Rightarrow> string" where
  "emission_key (Opened k t) = k"
| "emission_key (Extended k t) = k"
| "emission_key (Closed k) = k"
| "emission_key (Posted k t) = k"
| "emission_key (Slack_Posted k q) = k"
| "emission_key (History k t) = k"
| "emission_key (Session_Cleared k) = k"

lemma keys_of_parts:
  "e \<in> set (dispose platform k) \<Longrightarrow> emission_key e = k"
  "e \<in> set (post_if c k t) \<Longrightarrow> emission_key e = k"
  by (auto simp: dispose_def post_if_def split: if_splits)

lemma strategy_delta_keys:
  "strategy_delta platform target k d full st = (nxt, es) \<Longrightarrow> e \<in> set es \<Longrightarrow> emission_key e = k"
  by (auto simp: strategy_delta_def default_delta_def slack_delta_def split: option.splits if_splits)

lemma block_stream_keys:
  "block_stream env p platform k t b = (b', es) \<Longrightarrow> e \<in> set es \<Longrightarrow> emission_key e = k"
  by (auto simp: block_stream_def Let_def keys_of_parts split: if_splits)

lemma clear_keys:
  "clear_for_replacement platform k full b = (b', es) \<Longrightarrow> e \<in> set es \<Longrightarrow> emission_key e = k"
  "clear_for_replacement platform k full b = (b', es) \<Longrightarrow> br_blockedStreams b' = br_blockedStreams b"
  by (auto simp: clear_for_replacement_def keys_of_parts split: if_splits)

text \<open>A delta emits only for its own conversation, and only when that is not blocked.\<close>

lemma handleDelta_keys:
  assumes "handleDelta env scan p b = (b', es)"
  shows "\<forall>e \<in> set es. emission_key e \<notin> br_blockedStreams b"
    and "br_blockedStreams b \<subseteq> br_blockedStreams b'"
proof -
  have "(\<forall>e \<in> set es. emission_key e \<notin> br_blockedStreams b)
      \<and> br_blockedStreams b \<subseteq> br_blockedStreams b'"
  proof (cases "(b', es) = (b, [])")
    case False
    with assms show ?thesis
    proof (rule handleDelta_cases)
      fix d ctx b1 es1
      let ?k = "stream_key ctx p" and ?b2 = "snd (scanWindowWithTail (stream_key ctx p) d b1)"
      assume free: "?k \<notin> br_blockedStreams b"
        and c: "clear_for_replacement (ci_platform (cx_instance ctx)) ?k (rp_isFullReplacement p) b = (b1, es1)"
        and rest: "case scan ctx p (fst (scanWindowWithTail ?k d b1)) of
          Some t \<Rightarrow> \<exists>es2. block_stream env p (ci_platform (cx_instance ctx)) ?k t ?b2 = (b', es2) \<and> es = es1 @ es2
        | None \<Rightarrow> \<exists>nxt es2. strategy_delta (ci_platform (cx_instance ctx)) (en_target env p) ?k d
            (rp_isFullReplacement p) (map_of (br_streams b1) ?k) = (nxt, es2)
            \<and> b' = put_stream ?k nxt ?b2 \<and> es = es1 @ es2"
      have b2: "br_blockedStreams ?b2 = br_blockedStreams b"
        using clear_keys(2) [OF c] by (simp add: scan_window_state)
      show ?thesis
      proof (cases "scan ctx p (fst (scanWindowWithTail ?k d b1))")
        case (Some t)
        with rest obtain es2 where e: "block_stream env p (ci_platform (cx_instance ctx)) ?k t ?b2 = (b', es2)"
          "es = es1 @ es2" by auto
        have "br_blockedStreams b \<subseteq> br_blockedStreams b'"
          using e(1) b2 by (auto simp: block_stream_def Let_def split: if_splits)
        with free clear_keys(1) [OF c] block_stream_keys [OF e(1)] e(2) show ?thesis by auto
      next
        case None
        with rest obtain nxt es2 where e: "strategy_delta (ci_platform (cx_instance ctx)) (en_target env p)
            ?k d (rp_isFullReplacement p) (map_of (br_streams b1) ?k) = (nxt, es2)"
          "b' = put_stream ?k nxt ?b2" "es = es1 @ es2" by auto
        with free clear_keys(1) [OF c] strategy_delta_keys [OF e(1)] b2 show ?thesis by auto
      qed
    qed
  qed simp
  then show "\<forall>e \<in> set es. emission_key e \<notin> br_blockedStreams b"
    and "br_blockedStreams b \<subseteq> br_blockedStreams b'" by blast+
qed

lemma deltas_blocked:
  "deltas env scan ps b = (b', es) \<Longrightarrow> key \<in> br_blockedStreams b \<Longrightarrow>
     key \<in> br_blockedStreams b' \<and> (\<forall>e \<in> set es. emission_key e \<noteq> key)"
proof (induction ps arbitrary: b es)
  case (Cons p ps)
  obtain b1 es1 where 1: "handleDelta env scan p b = (b1, es1)" by fastforce
  obtain es2 where 2: "deltas env scan ps b1 = (b', es2)" "es = es1 @ es2"
    using Cons.prems(1) 1 by (cases "deltas env scan ps b1") auto
  from handleDelta_keys [OF 1] Cons.prems(2)
  have "key \<in> br_blockedStreams b1" "\<forall>e \<in> set es1. emission_key e \<noteq> key" by auto
  with Cons.IH [OF 2(1)] 2(2) show ?case by auto
qed simp

lemma blank_has_no_credential: "\<not> (credential u \<and> within u (replicate n CHR '' ''))"
proof
  assume u: "credential u \<and> within u (replicate n CHR '' '')"
  then have "set u \<subseteq> {CHR '' ''}" by (metis Un_iff set_append set_replicate_conv_if subsetI
      within_def empty_iff)
  with u show False by (auto simp: credential_def)
qed

section \<open>Properties\<close>

definition sample_env :: environment where
  "sample_env = \<lparr>en_instance = (\<lambda>_. Some \<lparr>ci_platform = ''telegram'', ci_agentId = Some ''a'',
       ci_organizationId = None, ci_hasState = True, ci_slackClient = False\<rparr>),
     en_target = (\<lambda>_. True), en_post_fails = (\<lambda>_. False), en_settings_url = (\<lambda>_. None)\<rparr>"

definition sample_delta :: "string \<Rightarrow> response" where
  "sample_delta d = \<lparr>rp_messageId = ''m'', rp_channelId = ''c'', rp_conversationId = ''v'',
     rp_userId = ''u'', rp_teamId = None, rp_platform = Some ''telegram'', rp_content = None,
     rp_delta = Some d, rp_isFullReplacement = False, rp_processedMessageIds = None,
     rp_finalText = None, rp_error = None, rp_errorCode = None, rp_ephemeral = False,
     rp_statusUpdate = False, rp_customEvent = None,
     rp_metadata = \<lparr>md_connectionId = Some ''k'', md_sessionId = None, md_chatId = None,
       md_responseChannel = None, md_agentId = None, md_organizationId = None,
       md_sessionReset = False\<rparr>\<rparr>"

definition empty_bridge :: bridge where
  "empty_bridge = \<lparr>br_streams = [], br_blockedStreams = {}, br_guardrailTails = []\<rparr>"

definition sample_ctx :: response_context where
  "sample_ctx = \<lparr>cx_connectionId = ''k'', cx_instance = the (en_instance sample_env ''k''),
     cx_channelId = ''c''\<rparr>"

lemma sample_context: "extractResponseContext sample_env (sample_delta d) = Some sample_ctx"
  by (simp add: extractResponseContext_def sample_env_def sample_delta_def sample_ctx_def)

lemma sample_key: "stream_key sample_ctx (sample_delta d) = ''c:v''"
  by (simp add: stream_key_def sample_ctx_def sample_delta_def)

lemma sample_fields [simp]:
  "rp_delta (sample_delta d) = Some d" "\<not> rp_isFullReplacement (sample_delta d)"
  "ci_platform (cx_instance sample_ctx) = ''telegram''" "en_target sample_env p"
  by (simp_all add: sample_delta_def sample_ctx_def sample_env_def)

lemma sample_first_delta:
  assumes "scan sample_ctx (sample_delta d) (last_n guardrail_scan_window d) = None"
  shows "\<exists>b. deltas sample_env scan [sample_delta d] empty_bridge = (b, [Opened ''c:v'' d])"
proof -
  have "fst (scanWindowWithTail ''c:v'' d empty_bridge) = last_n guardrail_scan_window d"
    by (simp add: scan_window tail_of_def empty_bridge_def)
  then show ?thesis using assms
    by (simp add: handleDelta_def sample_context sample_key clear_for_replacement_def
        strategy_delta_def deliversAtCompletion_def default_delta_def Let_def case_prod_unfold
        scan_window_state) (simp add: empty_bridge_def)
qed

text \<open>
  C1: Streaming to a chat platform never delivers a credential that arrives in pieces: when the
  agent enables \<^verbatim>\<open>secret-scan\<close> and its pieces have at most 256 characters, no live message of the
  conversation ever contains a credential of up to 257 characters, however the text is cut, with
  other conversations, replacements, failed openings and blocks in between, and in whatever
  order the guardrails answer.
\<close>

theorem no_credential_streamed:
  assumes "registerBuiltinGuardrails stringify [] = Inr reg" and "fair_race decide race"
    and "\<forall>p \<in> set ps. \<forall>ctx. extractResponseContext env p = Some ctx \<and> stream_key ctx p = key \<longrightarrow>
      (\<exists>a. resolveAgentId p ctx = Some a \<and> enables ''secret-scan'' lookup a)
      \<and> \<not> deliversAtCompletion (ci_platform (cx_instance ctx))
      \<and> (\<forall>d. rp_delta p = Some d \<longrightarrow> length d \<le> output_guardrail_tail_chars)"
    and "map_of (br_streams b) key = None" and "map_of (br_guardrailTails b) key = None"
    and "deltas env (gateway_scan sha256 stringify reg lookup race) ps b = (b', es)"
    and "m \<in> set (live_messages key es)"
    and "credential u" and "length u \<le> Suc output_guardrail_tail_chars"
  shows "\<not> within u m"
proof -
  let ?scan = "gateway_scan sha256 stringify reg lookup race"
  have "streams_clean env ?scan 257 key p" if "p \<in> set ps" for p
    unfolding streams_clean_def
  proof (intro allI impI)
    fix ctx d assume a: "extractResponseContext env p = Some ctx" "stream_key ctx p = key"
      "rp_delta p = Some d"
    with assms(3) that obtain ag where "resolveAgentId p ctx = Some ag"
      "enables ''secret-scan'' lookup ag" "\<not> deliversAtCompletion (ci_platform (cx_instance ctx))"
      "length d \<le> 256" unfolding output_guardrail_tail_chars_def by blast
    with gateway_scan_catches [OF assms(1,2)]
    show "\<not> deliversAtCompletion (ci_platform (cx_instance ctx))
        \<and> 257 + length d \<le> Suc guardrail_scan_window \<and> catches (?scan ctx p)"
      by (simp add: guardrail_scan_window_def output_guardrail_tail_chars_def)
  qed
  moreover have "stream_inv 257 key b []"
    using assms(4,5) by (auto simp: stream_inv_def current_def tail_of_def last_n_def
        intro: exI [of _ "[]"])
  ultimately have "stream_inv 257 key b' (live_messages key es)"
    using assms(6) unfolding live_messages_def by (intro deltas_inv) auto
  with assms(7-9) show ?thesis
    by (auto simp: stream_inv_def clean_def output_guardrail_tail_chars_def)
qed

theorem no_credential_streamed_witness:
  "\<exists>reg race b' es. registerBuiltinGuardrails (\<lambda>_ :: unit. None) [] = Inr reg
     \<and> deltas sample_env (gateway_scan (\<lambda>s. s) (\<lambda>_ :: unit. None) reg
          (\<lambda>_. Some (Some \<lparr>as_guardrails = Some [''secret-scan''], as_skills = None\<rparr>)) race)
          [sample_delta ''hi''] empty_bridge = (b', es)
     \<and> live_messages ''c:v'' es = [''hi'']
     \<and> \<not> within (''ghp_'' @ replicate 36 CHR ''x'') ''hi''"
proof -
  let ?st = "\<lparr>as_guardrails = Some [''secret-scan''], as_skills = None\<rparr>" and ?str = "\<lambda>_ :: unit. None"
  obtain reg where reg: "registerBuiltinGuardrails ?str [] = Inr reg" using builtins_register by blast
  obtain race :: "unit guardrail_ctx \<Rightarrow> unit guardrail list \<Rightarrow> run_outcome"
    where race: "fair_race sample_decide race" using fair_race_exists by blast
  let ?lookup = "\<lambda>_ :: string. Some (Some ?st)"
  let ?scan = "gateway_scan (\<lambda>s. s) ?str reg ?lookup race"
  have agent: "resolveAgentId (sample_delta d) sample_ctx = Some ''a''" for d
    by (simp add: resolveAgentId_def first_truthy_def sample_delta_def sample_ctx_def sample_env_def)
  have gs: "stage_guardrails (\<lambda>s. s) ?str reg (Some ?st) Output = [secretScanGuardrail]"
    using builtin_registry(3) [OF reg]
    by (simp add: stage_guardrails_def resolve_agent_reference(1) [OF refl refl] candidates_def
        no_extras_def or_empty_def registry.resolve_lookup List.map_filter_simps)
  have "\<not> gr_tripped (scan_secrets ''hi'')" by code_simp
  then have "\<not> trips sample_decide (Output_Ctx c) (secretScanGuardrail :: unit guardrail)"
    if "oc_text c = ''hi''"
    for c :: output_ctx
    using that by (simp add: trips_def settles_def secretScanGuardrail_def)
  then have none: "?scan sample_ctx (sample_delta ''hi'') (last_n guardrail_scan_window ''hi'') = None"
    using gateway_scan_iff [where lookup = ?lookup and body = "''hi''" and sha = "\<lambda>s. s"
        and stringify = ?str and reg = reg, OF race agent [of "''hi''"] refl] gs
    by (simp add: last_n_def guardrail_scan_window_def output_guardrail_tail_chars_def
        del: not_None_eq)
  from sample_first_delta [where scan = ?scan, OF none] obtain b'
    where run: "deltas sample_env ?scan [sample_delta ''hi''] empty_bridge = (b', [Opened ''c:v'' ''hi''])"
    by blast
  have "enables ''secret-scan'' ?lookup ''a''" by (simp add: enables_def)
  then have ok: "\<forall>p \<in> set [sample_delta ''hi'']. \<forall>ctx. extractResponseContext sample_env p = Some ctx
        \<and> stream_key ctx p = ''c:v'' \<longrightarrow>
      (\<exists>a. resolveAgentId p ctx = Some a \<and> enables ''secret-scan'' ?lookup a)
      \<and> \<not> deliversAtCompletion (ci_platform (cx_instance ctx))
      \<and> (\<forall>d. rp_delta p = Some d \<longrightarrow> length d \<le> output_guardrail_tail_chars)"
    using agent by (auto simp: sample_context deliversAtCompletion_def output_guardrail_tail_chars_def)
  have token: "credential (''ghp_'' @ replicate 36 CHR ''x'')"
    by (rule cleaned_text_unscanned [THEN conjunct2, unfolded split_token_cleaned])
  have "\<not> within (''ghp_'' @ replicate 36 CHR ''x'') ''hi''"
    by (rule no_credential_streamed [OF reg race ok _ _ run _ token])
      (simp_all add: empty_bridge_def live_messages_def output_guardrail_tail_chars_def)
  moreover have "live_messages ''c:v'' [Opened ''c:v'' ''hi''] = [''hi'']"
    by (simp add: live_messages_def)
  ultimately show ?thesis using reg run by blast
qed

text \<open>
  Once a guardrail has tripped on a stream, the platform gets nothing more of it: however many
  pieces the worker still sends, and with other conversations in between, nothing is emitted for
  the conversation until its completion, which is suppressed too (no delivery, no history) and
  clears the block, the stream and the scan window.
\<close>

theorem blocked_stream_is_silent:
  assumes "key \<in> br_blockedStreams b" and "deltas env scan ps b = (b', es)"
    and "extractResponseContext env p = Some ctx" and "stream_key ctx p = key"
  shows "(\<forall>e \<in> set es. emission_key e \<noteq> key) \<and> snd (handleCompletion env scan p b') = []
    \<and> (let b'' = fst (handleCompletion env scan p b') in key \<notin> br_blockedStreams b''
         \<and> map_of (br_streams b'') key = None \<and> tail_of b'' key = [])"
  using deltas_blocked [OF assms(2,1)] assms(3,4) by (simp add: handleCompletion_def Let_def)

theorem blocked_stream_is_silent_witness:
  "let b = empty_bridge\<lparr>br_blockedStreams := {''c:v''}\<rparr>;
       scan = (\<lambda>_ _ _. None);
       r = deltas sample_env scan [sample_delta ''hi''] b
   in (\<forall>e \<in> set (snd r). emission_key e \<noteq> ''c:v'')
     \<and> snd (handleCompletion sample_env scan (sample_delta ''hi'') (fst r)) = []"
  using blocked_stream_is_silent [of "''c:v''" "empty_bridge\<lparr>br_blockedStreams := {''c:v''}\<rparr>"
      sample_env "\<lambda>_ _ _. None" "[sample_delta ''hi'']" _ _ "sample_delta ''hi''" sample_ctx,
      OF _ prod.collapse [symmetric] sample_context sample_key]
  by (simp add: Let_def)

text \<open>
  A reply that a platform gets at its completion (Slack) is delivered and stored only when its
  whole text passed the output guardrails: when the scan of the text trips, the platform gets the
  block message at most, and the reply does not reach the history.
\<close>

theorem tripped_reply_is_withheld:
  assumes "extractResponseContext env p = Some ctx"
    and "deliversAtCompletion (ci_platform (cx_instance ctx))"
    and "orElse (rp_finalText p)
           (map_option ss_buffer (map_of (br_streams b) (stream_key ctx p))) = Some reply"
    and "trim reply \<noteq> []" and "scan ctx p reply = Some t"
  shows "set (snd (handleCompletion env scan p b)) \<subseteq>
    {Closed (stream_key ctx p), Posted (stream_key ctx p) (block_text t),
     Session_Cleared (stream_key ctx p)}"
proof -
  let ?st = "map_of (br_streams b) (stream_key ctx p)"
  have "the (orElse (rp_finalText p) (orElse (map_option ss_buffer ?st) (Some []))) = reply"
    using assms(3) by (cases "rp_finalText p"; cases ?st) auto
  then have "completion_scan scan ctx p ?st = Some t"
    using assms(2,4,5) by (simp add: completion_scan_def)
  then show ?thesis using assms(1)
    by (auto simp: handleCompletion_def Let_def post_if_def)
qed

theorem tripped_reply_is_withheld_witness:
  "let env = sample_env\<lparr>en_instance := (\<lambda>_. Some \<lparr>ci_platform = ''slack'', ci_agentId = None,
         ci_organizationId = None, ci_hasState = True, ci_slackClient = True\<rparr>)\<rparr>;
       p = (sample_delta [])\<lparr>rp_finalText := Some ''secret''\<rparr>;
       t = \<lparr>ti_guardrail = ''g'', ti_reason = None, ti_metadata = None\<rparr>
   in set (snd (handleCompletion env (\<lambda>_ _ _. Some t) p empty_bridge)) \<subseteq>
        {Closed ''c:v'', Posted ''c:v'' (block_text t), Session_Cleared ''c:v''}"
proof -
  let ?env = "sample_env\<lparr>en_instance := (\<lambda>_. Some \<lparr>ci_platform = ''slack'', ci_agentId = None,
         ci_organizationId = None, ci_hasState = True, ci_slackClient = True\<rparr>)\<rparr>"
  let ?p = "(sample_delta [])\<lparr>rp_finalText := Some ''secret''\<rparr>"
  let ?ctx = "\<lparr>cx_connectionId = ''k'', cx_instance = the (en_instance ?env ''k''),
      cx_channelId = ''c''\<rparr>"
  let ?t = "\<lparr>ti_guardrail = ''g'', ti_reason = None, ti_metadata = None\<rparr>"
  have "set (snd (handleCompletion ?env (\<lambda>_ _ _. Some ?t) ?p empty_bridge)) \<subseteq>
    {Closed (stream_key ?ctx ?p), Posted (stream_key ?ctx ?p) (block_text ?t),
     Session_Cleared (stream_key ?ctx ?p)}"
    by (rule tripped_reply_is_withheld [where reply = "''secret''"])
      (simp_all add: extractResponseContext_def sample_delta_def deliversAtCompletion_def
        trim_def is_space_def code_def)
  then show ?thesis by (simp add: Let_def stream_key_def sample_delta_def)
qed

text \<open>
  The window bounds what is scanned, not only what is kept: of a single long piece only the last
  512 characters are scanned, so a credential before them is streamed to the platform.
\<close>

definition secret_scanner :: scanner where
  "secret_scanner ctx p body = (if gr_tripped (scan_secrets body)
     then Some \<lparr>ti_guardrail = ''secret-scan'', ti_reason = None, ti_metadata = None\<rparr> else None)"

lemma long_piece_is_not_scanned:
  defines "token \<equiv> ''ghp_'' @ replicate 36 CHR ''x''"
    and "piece \<equiv> (''ghp_'' @ replicate 36 CHR ''x'') @ replicate 512 CHR '' ''"
  shows "credential token \<and> within token piece
    \<and> snd (deltas sample_env secret_scanner [sample_delta piece] empty_bridge) = [Opened ''c:v'' piece]"
proof -
  have cred: "credential token"
    unfolding token_def by (rule cleaned_text_unscanned [THEN conjunct2, unfolded split_token_cleaned])
  have "within token piece" unfolding token_def piece_def within_def by (metis append_Nil)
  moreover have "last_n guardrail_scan_window piece = replicate 512 CHR '' ''"
    by (simp add: last_n_def piece_def guardrail_scan_window_def output_guardrail_tail_chars_def)
  then have "secret_scanner sample_ctx (sample_delta piece) (last_n guardrail_scan_window piece) = None"
    using scan_secrets_iff blank_has_no_credential by (auto simp: secret_scanner_def)
  then have "\<exists>b. deltas sample_env secret_scanner [sample_delta piece] empty_bridge = (b, [Opened ''c:v'' piece])"
    by (rule sample_first_delta)
  ultimately show ?thesis using cred by auto
qed

text \<open>
  A client attached to the session gets every piece before the guardrails see it.
\<close>

lemma attached_client_is_not_guarded:
  assumes "rp_messageId p \<noteq> []" and "has_connection p" and "managed (the (md_connectionId (rp_metadata p)))"
    and "md_sessionId (rp_metadata p) = Some sid" and "sid \<noteq> []" and "truthy (rp_delta p)"
    and "\<not> rp_ephemeral p" and "\<not> rp_statusUpdate p"
  shows "\<exists>rs. handleThreadResponse managed renderers active p = Inr rs \<and> Sse sid ''output'' \<in> set rs"
  using assms by (simp add: handleThreadResponse_def routeToRenderer_def requires_sse_owner_def
      Let_def only_custom_def bridge_renderer_def to_cli_def cli_session_def)

end
