(* ===== verification/Worker_Connections.thy ===== *)
theory Worker_Connections
  imports Worker_Token
begin

text \<open>
  The server-sent event connections of the workers,
  \<^verbatim>\<open>packages/server/src/gateway/gateway/connection-manager.ts\<close>. A writer is the number of the
  stream it belongs to; \<open>accepts w\<close> tells whether a write on it returns true. An operation
  returns the new manager and what it sends, a list of \<open>sse\<close>. A Set of the code is the list of
  its elements in insertion order.
\<close>

section \<open>Data\<close>

type_synonym writer = nat

datatype sse = Send writer string jvalue | End writer

record worker_connection =
  wc_deploymentName :: string
  wc_userId :: string
  wc_conversationId :: string
  wc_agentId :: string
  wc_writer :: writer
  wc_lastActivity :: ms
  wc_lastPing :: ms
  wc_httpUrl :: "string option"

record connection_manager =
  cm_connections :: "(string, worker_connection) jmap"
  cm_agentDeployments :: "(string, string list) jmap"

definition new_manager :: connection_manager where
  "new_manager = \<lparr>cm_connections = [], cm_agentDeployments = []\<rparr>"

definition set_add :: "'a \<Rightarrow> 'a list \<Rightarrow> 'a list" where
  "set_add x xs = (if x \<in> set xs then xs else xs @ [x])"

section \<open>Operations\<close>

definition http_url :: "int option \<Rightarrow> string option" where
  "http_url httpPort = (case httpPort of None \<Rightarrow> None
     | Some p \<Rightarrow> if p = 0 then None else Some (''http://127.0.0.1:'' @ show_int p))"

text \<open>Taking a deployment out of the set of an agent, and the agent out when it was the last.\<close>

definition drop_deployment ::
    "string \<Rightarrow> string \<Rightarrow> (string, string list) jmap \<Rightarrow> (string, string list) jmap" where
  "drop_deployment agentId deploymentName index =
     (case map_of index agentId of
        None \<Rightarrow> index
      | Some ds \<Rightarrow>
         (let ds = removeAll deploymentName ds in
          if ds = [] then AList.delete agentId index else AList.update agentId ds index))"

definition sendSSE :: "(writer \<Rightarrow> bool) \<Rightarrow> writer \<Rightarrow> string \<Rightarrow> jvalue \<Rightarrow> bool \<times> sse list" where
  "sendSSE accepts w event data = (accepts w, [Send w event data])"

definition connected_event :: "string \<Rightarrow> string \<Rightarrow> string \<Rightarrow> jvalue" where
  "connected_event deploymentName userId conversationId =
     JObj [(''deploymentName'', JStr deploymentName), (''userId'', JStr userId),
           (''conversationId'', JStr conversationId)]"

text \<open>The bookkeeping of \<^verbatim>\<open>addConnection\<close> for the connection object it has made.\<close>

definition register_connection ::
    "worker_connection \<Rightarrow> connection_manager \<Rightarrow> connection_manager" where
  "register_connection c m =
     (let name = wc_deploymentName c; index = cm_agentDeployments m;
          index = (case map_of (cm_connections m) name of
                     None \<Rightarrow> index
                   | Some prior \<Rightarrow>
                       if wc_agentId prior \<noteq> wc_agentId c
                       then drop_deployment (wc_agentId prior) name index else index);
          ds = (case map_of index (wc_agentId c) of None \<Rightarrow> [] | Some ds \<Rightarrow> ds)
      in \<lparr>cm_connections = AList.update name c (cm_connections m),
          cm_agentDeployments = AList.update (wc_agentId c) (set_add name ds) index\<rparr>)"

definition addConnection ::
    "ms \<Rightarrow> (writer \<Rightarrow> bool) \<Rightarrow> string \<Rightarrow> string \<Rightarrow> string \<Rightarrow> string \<Rightarrow> writer \<Rightarrow> int option
       \<Rightarrow> connection_manager \<Rightarrow> sse list \<times> connection_manager" where
  "addConnection now accepts deploymentName userId conversationId agentId w httpPort m =
     (let m = register_connection
            \<lparr>wc_deploymentName = deploymentName, wc_userId = userId,
             wc_conversationId = conversationId, wc_agentId = agentId, wc_writer = w,
             wc_lastActivity = now, wc_lastPing = now, wc_httpUrl = http_url httpPort\<rparr> m
      in (snd (sendSSE accepts w ''connected''
                 (connected_event deploymentName userId conversationId)), m))"

definition removeConnection ::
    "string \<Rightarrow> writer option \<Rightarrow> connection_manager \<Rightarrow> sse list \<times> connection_manager" where
  "removeConnection deploymentName expectedWriter m =
     (case map_of (cm_connections m) deploymentName of
        None \<Rightarrow> ([], m)
      | Some c \<Rightarrow>
          if expectedWriter \<noteq> None \<and> expectedWriter \<noteq> Some (wc_writer c) then ([], m)
          else ([End (wc_writer c)],
                \<lparr>cm_connections = AList.delete deploymentName (cm_connections m),
                 cm_agentDeployments =
                   drop_deployment (wc_agentId c) deploymentName (cm_agentDeployments m)\<rparr>))"

definition getConnection :: "string \<Rightarrow> connection_manager \<Rightarrow> worker_connection option" where
  "getConnection deploymentName m = map_of (cm_connections m) deploymentName"

definition isConnected :: "string \<Rightarrow> connection_manager \<Rightarrow> bool" where
  "isConnected deploymentName m \<longleftrightarrow> map_of (cm_connections m) deploymentName \<noteq> None"

definition touchConnection :: "ms \<Rightarrow> string \<Rightarrow> connection_manager \<Rightarrow> connection_manager" where
  "touchConnection now deploymentName m =
     (case map_of (cm_connections m) deploymentName of
        None \<Rightarrow> m
      | Some c \<Rightarrow> m\<lparr>cm_connections :=
          AList.update deploymentName (c\<lparr>wc_lastActivity := now\<rparr>) (cm_connections m)\<rparr>)"

definition sendHeartbeats ::
    "ms \<Rightarrow> (writer \<Rightarrow> bool) \<Rightarrow> connection_manager \<Rightarrow> sse list \<times> connection_manager" where
  "sendHeartbeats now accepts m =
     (concat (map (\<lambda>(d, c). snd (sendSSE accepts (wc_writer c) ''ping''
                (JObj [(''timestamp'', JNum (of_int now))]))) (cm_connections m)),
      m\<lparr>cm_connections := map (\<lambda>(d, c). (d, c\<lparr>wc_lastPing := now\<rparr>)) (cm_connections m)\<rparr>)"

text \<open>The stale timeout in minutes; \<open>None\<close> is \<^verbatim>\<open>NaN\<close>, with which no comparison holds.\<close>

definition stale_minutes :: "string option \<Rightarrow> int option" where
  "stale_minutes env = parse_int 10 (if truthy env then the env else ''10'')"

definition is_stale :: "string option \<Rightarrow> ms \<Rightarrow> worker_connection \<Rightarrow> bool" where
  "is_stale env now c = (case stale_minutes env of None \<Rightarrow> False
     | Some minutes \<Rightarrow> minutes * 60 * 1000 < now - wc_lastActivity c)"

fun remove_all :: "string list \<Rightarrow> connection_manager \<Rightarrow> sse list \<times> connection_manager" where
  "remove_all [] m = ([], m)"
| "remove_all (d # ds) m =
     (let (out, m) = removeConnection d None m; (out', m) = remove_all ds m in (out @ out', m))"

definition cleanupStaleConnections ::
    "string option \<Rightarrow> ms \<Rightarrow> connection_manager \<Rightarrow> sse list \<times> connection_manager" where
  "cleanupStaleConnections env now m =
     remove_all (map fst (filter (\<lambda>(d, c). is_stale env now c) (cm_connections m))) m"

definition getDeploymentsForAgent :: "string \<Rightarrow> connection_manager \<Rightarrow> string list" where
  "getDeploymentsForAgent agentId m =
     (case map_of (cm_agentDeployments m) agentId of None \<Rightarrow> [] | Some ds \<Rightarrow> ds)"

fun first_url :: "connection_manager \<Rightarrow> string list \<Rightarrow> string option" where
  "first_url m [] = None"
| "first_url m (d # ds) =
     (case map_of (cm_connections m) d of
        None \<Rightarrow> first_url m ds
      | Some c \<Rightarrow> if truthy (wc_httpUrl c) then wc_httpUrl c else first_url m ds)"

definition getHttpUrl :: "string \<Rightarrow> connection_manager \<Rightarrow> string option" where
  "getHttpUrl agentId m = first_url m (getDeploymentsForAgent agentId m)"

definition getActiveConnections :: "connection_manager \<Rightarrow> string list" where
  "getActiveConnections m = map fst (cm_connections m)"

definition shutdown_manager :: "connection_manager \<Rightarrow> sse list \<times> connection_manager" where
  "shutdown_manager m = remove_all (map fst (cm_connections m)) m"

section \<open>The registry as an interface\<close>

text \<open>
  What the rest of the gateway relies on: connections by deployment, and a set of deployments
  per agent that is always derived from them.
\<close>

locale worker_registry =
  fixes lookup :: "'m \<Rightarrow> string \<Rightarrow> 'c option"
    and add :: "'c \<Rightarrow> 'm \<Rightarrow> 'm"
    and remove :: "string \<Rightarrow> 'm \<Rightarrow> 'm"
    and of_agent :: "'m \<Rightarrow> string \<Rightarrow> string set"
    and ok :: "'m \<Rightarrow> bool"
    and key :: "'c \<Rightarrow> string"
    and agent :: "'c \<Rightarrow> string"
  assumes lookup_add: "ok m \<Longrightarrow> lookup (add c m) d = (if d = key c then Some c else lookup m d)"
    and lookup_remove: "ok m \<Longrightarrow> lookup (remove k m) d = (if d = k then None else lookup m d)"
    and ok_add: "ok m \<Longrightarrow> ok (add c m)"
    and ok_remove: "ok m \<Longrightarrow> ok (remove k m)"
    and of_agent: "ok m \<Longrightarrow> of_agent m a = {d. \<exists>c. lookup m d = Some c \<and> agent c = a}"
begin

text \<open>A deployment that reconnects under another agent leaves the set of the first.\<close>

lemma of_agent_add:
  "ok m \<Longrightarrow> of_agent (add c m) a =
     (if agent c = a then insert (key c) (of_agent m a) else of_agent m a - {key c})"
  by (auto simp: of_agent ok_add lookup_add)

lemma of_agent_remove: "ok m \<Longrightarrow> of_agent (remove k m) a = of_agent m a - {k}"
  by (auto simp: of_agent ok_remove lookup_remove)

lemma one_agent: "ok m \<Longrightarrow> d \<in> of_agent m a \<Longrightarrow> d \<in> of_agent m b \<Longrightarrow> a = b"
  by (auto simp: of_agent)

lemma evict_then_add: "ok m \<Longrightarrow> lookup (add c (remove (key c) m)) = (lookup m)(key c \<mapsto> c)"
  by (rule ext) (simp add: lookup_add lookup_remove ok_remove)

end

section \<open>The invariant\<close>

definition index_ok :: "connection_manager \<Rightarrow> bool" where
  "index_ok m \<longleftrightarrow> (\<forall>a. map_of (cm_agentDeployments m) a \<noteq> Some []
     \<and> distinct (getDeploymentsForAgent a m)
     \<and> (\<forall>d. d \<in> set (getDeploymentsForAgent a m)
          \<longleftrightarrow> (\<exists>c. map_of (cm_connections m) d = Some c \<and> wc_agentId c = a)))"

definition manager_ok :: "connection_manager \<Rightarrow> bool" where
  "manager_ok m \<longleftrightarrow> jm_wf (cm_connections m) \<and> jm_wf (cm_agentDeployments m)
     \<and> (\<forall>d c. map_of (cm_connections m) d = Some c \<longrightarrow> wc_deploymentName c = d) \<and> index_ok m"

abbreviation indexed :: "(string, string list) jmap \<Rightarrow> string \<Rightarrow> string list" where
  "indexed index a \<equiv> (case map_of index a of None \<Rightarrow> [] | Some ds \<Rightarrow> ds)"

lemma new_manager_ok [simp]: "manager_ok new_manager"
  by (simp add: manager_ok_def index_ok_def new_manager_def getDeploymentsForAgent_def)

lemma drop_wf [simp]: "jm_wf index \<Longrightarrow> jm_wf (drop_deployment a d index)"
  by (auto simp: drop_deployment_def Let_def split: option.splits)

lemma drop_indexed:
  "indexed (drop_deployment a d index) b = (if b = a then removeAll d (indexed index b) else indexed index b)"
  by (auto simp: drop_deployment_def Let_def jm_get_set jm_get_del split: option.splits)

lemma drop_not_empty:
  "map_of index b \<noteq> Some [] \<Longrightarrow> map_of (drop_deployment a d index) b \<noteq> Some []"
  by (auto simp: drop_deployment_def Let_def jm_get_set jm_get_del split: option.splits)

lemma set_add_simps [simp]:
  "set (set_add x xs) = insert x (set xs)" "set_add x xs \<noteq> []"
  "distinct (set_add x xs) \<longleftrightarrow> distinct xs"
  by (auto simp: set_add_def)

lemma register_lookup:
  "map_of (cm_connections (register_connection c m)) d =
     (if d = wc_deploymentName c then Some c else map_of (cm_connections m) d)"
  by (simp add: register_connection_def Let_def jm_get_set)

lemma remove_lookup:
  "map_of (cm_connections (snd (removeConnection k None m))) d =
     (if d = k then None else map_of (cm_connections m) d)"
  by (auto simp: removeConnection_def jm_get_del split: option.splits)

lemma register_indexed:
  assumes "manager_ok m"
  shows "getDeploymentsForAgent a (register_connection c m) =
     (if a = wc_agentId c then set_add (wc_deploymentName c) (getDeploymentsForAgent a m)
      else removeAll (wc_deploymentName c) (getDeploymentsForAgent a m))"
proof (cases "map_of (cm_connections m) (wc_deploymentName c)")
  case None
  then have "wc_deploymentName c \<notin> set (getDeploymentsForAgent b m)" for b
    using assms by (auto simp: manager_ok_def index_ok_def)
  with None show ?thesis
    by (simp add: register_connection_def getDeploymentsForAgent_def Let_def jm_get_set)
next
  case (Some p)
  then have "wc_deploymentName c \<in> set (getDeploymentsForAgent b m) \<longleftrightarrow> wc_agentId p = b" for b
    using assms by (auto simp: manager_ok_def index_ok_def)
  with Some show ?thesis
    by (simp add: register_connection_def getDeploymentsForAgent_def Let_def jm_get_set drop_indexed)
qed

lemma remove_indexed:
  assumes "manager_ok m"
  shows "getDeploymentsForAgent a (snd (removeConnection k None m)) =
     removeAll k (getDeploymentsForAgent a m)"
proof (cases "map_of (cm_connections m) k")
  case None
  then have "k \<notin> set (getDeploymentsForAgent b m)" for b
    using assms by (auto simp: manager_ok_def index_ok_def)
  with None show ?thesis by (simp add: removeConnection_def)
next
  case (Some p)
  then have "k \<in> set (getDeploymentsForAgent b m) \<longleftrightarrow> wc_agentId p = b" for b
    using assms by (auto simp: manager_ok_def index_ok_def)
  with Some show ?thesis
    by (simp add: removeConnection_def getDeploymentsForAgent_def drop_indexed)
qed

lemma registration_ok:
  assumes "manager_ok m"
  shows "manager_ok (register_connection c m)"
proof -
  have ne: "map_of (cm_agentDeployments (register_connection c m)) a \<noteq> Some []" for a
    using assms
    by (auto simp: register_connection_def Let_def jm_get_set drop_not_empty manager_ok_def index_ok_def
        split: option.splits)
  have "jm_wf (cm_connections (register_connection c m))"
    "jm_wf (cm_agentDeployments (register_connection c m))"
    using assms by (auto simp: register_connection_def Let_def manager_ok_def split: option.splits)
  with ne assms register_indexed [OF assms] show ?thesis
    by (auto simp: manager_ok_def index_ok_def register_lookup distinct_removeAll)
qed

lemma remove_ok:
  assumes "manager_ok m"
  shows "manager_ok (snd (removeConnection k None m))"
proof -
  have ne: "map_of (cm_agentDeployments (snd (removeConnection k None m))) a \<noteq> Some []" for a
    using assms
    by (auto simp: removeConnection_def drop_not_empty manager_ok_def index_ok_def split: option.splits)
  have "jm_wf (cm_connections (snd (removeConnection k None m)))"
    "jm_wf (cm_agentDeployments (snd (removeConnection k None m)))"
    using assms by (auto simp: removeConnection_def manager_ok_def split: option.splits)
  with ne assms remove_indexed [OF assms] show ?thesis
    by (auto simp: manager_ok_def index_ok_def remove_lookup distinct_removeAll)
qed

interpretation workers: worker_registry
  "\<lambda>m d. map_of (cm_connections m) d" register_connection "\<lambda>d m. snd (removeConnection d None m)"
  "\<lambda>m a. set (getDeploymentsForAgent a m)" manager_ok wc_deploymentName wc_agentId
proof unfold_locales
  fix m a assume "manager_ok m"
  then show "set (getDeploymentsForAgent a m) =
      {d. \<exists>c. map_of (cm_connections m) d = Some c \<and> wc_agentId c = a}"
    by (auto simp: manager_ok_def index_ok_def)
qed (simp_all add: register_lookup remove_lookup registration_ok remove_ok)

section \<open>Sweeping and addressing\<close>

text \<open>Updates that leave names and agents alone leave the index right.\<close>

lemma update_activity_ok:
  assumes "manager_ok m" "jm_wf cs"
    "\<And>d. map_option wc_agentId (map_of cs d) = map_option wc_agentId (map_of (cm_connections m) d)"
    "\<And>d c. map_of cs d = Some c \<Longrightarrow> wc_deploymentName c = d"
  shows "manager_ok (m\<lparr>cm_connections := cs\<rparr>)"
proof -
  have "(\<exists>c. map_of cs d = Some c \<and> wc_agentId c = a) \<longleftrightarrow>
      (\<exists>c. map_of (cm_connections m) d = Some c \<and> wc_agentId c = a)" for d a
    using assms(3) [of d] by (cases "map_of cs d"; cases "map_of (cm_connections m) d") auto
  with assms show ?thesis by (simp add: manager_ok_def index_ok_def getDeploymentsForAgent_def)
qed

lemma touch_lookup: "map_of (cm_connections (touchConnection now k m)) d =
    (if d = k then map_option (\<lambda>c. c\<lparr>wc_lastActivity := now\<rparr>) (map_of (cm_connections m) d)
     else map_of (cm_connections m) d)"
  by (auto simp: touchConnection_def jm_get_set split: option.splits)

lemma touch_ok: assumes "manager_ok m" shows "manager_ok (touchConnection now k m)"
proof (cases "map_of (cm_connections m) k")
  case (Some c)
  show ?thesis unfolding touchConnection_def Some option.case
    by (rule update_activity_ok) (use assms Some in \<open>auto simp: manager_ok_def jm_get_set split: if_splits\<close>)
qed (simp add: touchConnection_def assms)

lemma heartbeats_lookup: "map_of (cm_connections (snd (sendHeartbeats now accepts m))) d =
    map_option (\<lambda>c. c\<lparr>wc_lastPing := now\<rparr>) (map_of (cm_connections m) d)"
  by (simp add: sendHeartbeats_def map_of_map)

lemma heartbeats_ok: assumes "manager_ok m" shows "manager_ok (snd (sendHeartbeats now accepts m))"
  unfolding sendHeartbeats_def snd_conv
  by (rule update_activity_ok)
    (use assms in \<open>auto simp: manager_ok_def map_of_map jm_wf_def comp_def case_prod_beta option.map_comp\<close>)

lemma remove_all_ok: "manager_ok m \<Longrightarrow> manager_ok (snd (remove_all ds m))"
proof (induction ds arbitrary: m)
  case (Cons d ds)
  from Cons.IH [OF remove_ok [OF Cons.prems, of d]] show ?case
    by (simp add: Let_def case_prod_beta)
qed simp

lemma remove_all_lookup:
  "map_of (cm_connections (snd (remove_all ds m))) d =
     (if d \<in> set ds then None else map_of (cm_connections m) d)"
  by (induction ds arbitrary: m) (auto simp: Let_def case_prod_beta remove_lookup)

lemma remove_all_ends:
  assumes "distinct ds"
  shows "fst (remove_all ds m) =
     concat (map (\<lambda>d. case map_of (cm_connections m) d of None \<Rightarrow> [] | Some c \<Rightarrow> [End (wc_writer c)]) ds)"
  using assms
proof (induction ds arbitrary: m)
  case (Cons d ds)
  then have "map_of (cm_connections (snd (removeConnection d None m))) e = map_of (cm_connections m) e"
    if "e \<in> set ds" for e using that by (auto simp: remove_lookup)
  with Cons show ?case
    by (auto simp: Let_def case_prod_beta removeConnection_def split: option.splits
        intro!: arg_cong [of _ _ concat])
qed simp

lemma cleanup_lookup:
  assumes "manager_ok m"
  shows "map_of (cm_connections (snd (cleanupStaleConnections env now m))) d =
     (case map_of (cm_connections m) d of None \<Rightarrow> None
      | Some c \<Rightarrow> if is_stale env now c then None else Some c)"
proof -
  have "d \<in> set (map fst (filter (\<lambda>(d, c). is_stale env now c) (cm_connections m))) \<longleftrightarrow>
      (\<exists>c. map_of (cm_connections m) d = Some c \<and> is_stale env now c)"
    using assms by (force simp: manager_ok_def jm_wf_def)
  then show ?thesis
    by (auto simp: cleanupStaleConnections_def remove_all_lookup split: option.splits)
qed

lemma first_url_None: "first_url m ds = None \<longleftrightarrow>
    (\<forall>d \<in> set ds. \<forall>c. map_of (cm_connections m) d = Some c \<longrightarrow> \<not> truthy (wc_httpUrl c))"
  by (induction ds) (auto split: option.splits elim: truthy.elims)

lemma first_url_Some: "first_url m ds = Some u \<Longrightarrow>
    \<exists>d \<in> set ds. \<exists>c. map_of (cm_connections m) d = Some c \<and> wc_httpUrl c = Some u \<and> u \<noteq> []"
  by (induction ds) (auto split: option.splits if_splits elim!: truthy.elims)

end
