(* ===== verification/Job_Router.thy ===== *)
theory Job_Router
  imports Worker_Connections
begin

text \<open>
  Handing jobs of the queue to connected workers,
  \<^verbatim>\<open>packages/server/src/gateway/gateway/job-router.ts\<close>. \<open>handleJob\<close> is the handler up to the
  promise it awaits; the promise is a number, the timer of its delivery receipt is armed in
  \<open>jr_timers\<close>, and how it settled is recorded in \<open>jr_settled\<close>. \<open>verify\<close> is
  \<^verbatim>\<open>verifyWorkerToken\<close>, \<open>sha\<close> SHA-256 in hexadecimal, \<open>fresh\<close> the id made up for a job without
  one.
\<close>

section \<open>Data\<close>

datatype job_error = Worker_Not_Connected | Token_Integrity | Write_Failed
  | Receipt_Timeout | Router_Shutdown

record job =
  jb_id :: "string option"
  jb_data :: "jvalue option"

record job_router =
  jr_pending :: "(string, nat) jmap"
  jr_timers :: "(nat \<times> string) list"
  jr_next :: nat
  jr_settled :: "(nat \<times> job_error option) list"

definition new_router :: job_router where
  "new_router = \<lparr>jr_pending = [], jr_timers = [], jr_next = 0, jr_settled = []\<rparr>"

section \<open>The frame of a job\<close>

definition is_hex :: "char \<Rightarrow> bool" where
  "is_hex c \<longleftrightarrow> is_digit c \<or> (let n = code (lower_char c) in 97 \<le> n \<and> n \<le> 102)"

definition looksLikeNativeWorkerToken :: "string \<Rightarrow> bool" where
  "looksLikeNativeWorkerToken value =
     (let parts = split_on CHR '':'' value in
      length parts = 3 \<and> list_all (\<lambda>part. part \<noteq> [] \<and> list_all is_hex part) parts)"

text \<open>A member that is \<^verbatim>\<open>undefined\<close> is not part of the JSON that is sent.\<close>

definition copy_member :: "jvalue option \<Rightarrow> string \<Rightarrow> (string \<times> jvalue) list" where
  "copy_member v k = opt_member k (field v k)"

definition projectVerifiedRunTokenClaims :: "jvalue \<Rightarrow> jvalue" where
  "projectVerifiedRunTokenClaims claims =
     (let c = Some claims; scope = field c ''courseToolScope'' in
      JObj (concat (map (copy_member c)
              [''userId'', ''conversationId'', ''channelId'', ''agentId'', ''deploymentName'',
               ''timestamp'', ''runId'', ''messageId'', ''tokenKind'', ''executionMode'',
               ''releaseState''])
        @ opt_member ''courseToolScope''
            (if truthy_value scope
             then Some (JObj (concat (map (copy_member scope)
                    [''ownerUserId'', ''agentId'', ''courseEntityId'', ''contextPackId'',
                     ''contextVersion'', ''activeSpecializedSkill''])))
             else None)))"

text \<open>\<open>{...v}\<close>: the own members of a value.\<close>

definition own_members :: "jvalue \<Rightarrow> (string \<times> jvalue) list" where
  "own_members v = (case v of
      JObj ms \<Rightarrow> ms
    | JArr xs \<Rightarrow> map (\<lambda>(i, x). (show_int (int i), x)) (enumerate 0 xs)
    | JStr s \<Rightarrow> map (\<lambda>(i, c). (show_int (int i), JStr [c])) (enumerate 0 s)
    | _ \<Rightarrow> [])"

fun is_json_object :: "jvalue option \<Rightarrow> bool" where
  "is_json_object (Some (JObj ms)) = True"
| "is_json_object (Some (JArr xs)) = True"
| "is_json_object _ = False"

definition without_member :: "string \<Rightarrow> (string \<times> jvalue) list \<Rightarrow> (string \<times> jvalue) list" where
  "without_member k ms = filter (\<lambda>(q, _). q \<noteq> k) ms"

definition job_data :: "jvalue option \<Rightarrow> jvalue option" where
  "job_data raw =
     (if is_json_object raw then Some (JObj (without_member ''gatewayVerifiedRunToken'' (own_members (the raw))))
      else raw)"

definition run_job_token :: "jvalue option \<Rightarrow> string option" where
  "run_job_token jobData =
     (case field jobData ''runJobToken'' of Some (JStr t) \<Rightarrow> Some t | _ \<Rightarrow> None)"

text \<open>The gateway's own statement about the run token: \<open>Inl\<close> when the token is not valid.\<close>

definition verified_token ::
    "(string \<Rightarrow> jvalue option) \<Rightarrow> (string \<Rightarrow> string) \<Rightarrow> string option \<Rightarrow> job_error + jvalue option" where
  "verified_token verify sha token =
     (if truthy token \<and> looksLikeNativeWorkerToken (the token)
      then (case verify (the token) of
              None \<Rightarrow> Inl Token_Integrity
            | Some claims \<Rightarrow> Inr (Some (JObj
                [(''tokenSha256'', JStr (sha (the token))),
                 (''claims'', projectVerifiedRunTokenClaims claims)])))
      else Inr None)"

definition job_payload :: "jvalue option \<Rightarrow> string \<Rightarrow> jvalue option \<Rightarrow> jvalue" where
  "job_payload jobData jobId verified =
     JObj ([(''payload'', if is_json_object jobData then the jobData
                          else JObj (opt_member ''data'' jobData)),
            (''jobId'', JStr jobId)]
       @ opt_member ''gatewayVerifiedRunToken'' verified)"

section \<open>Delivery\<close>

definition awaitDeliveryReceipt :: "string \<Rightarrow> job_router \<Rightarrow> nat \<times> job_router" where
  "awaitDeliveryReceipt jobId r =
     (jr_next r,
      r\<lparr>jr_pending := AList.update jobId (jr_next r) (jr_pending r),
        jr_timers := jr_timers r @ [(jr_next r, jobId)], jr_next := Suc (jr_next r)\<rparr>)"

definition job_id :: "string \<Rightarrow> job \<Rightarrow> string" where
  "job_id fresh j = (if truthy (jb_id j) then the (jb_id j) else fresh)"

definition handleJob ::
    "(string \<Rightarrow> jvalue option) \<Rightarrow> (string \<Rightarrow> string) \<Rightarrow> (writer \<Rightarrow> bool) \<Rightarrow> string \<Rightarrow> ms \<Rightarrow> string
       \<Rightarrow> job \<Rightarrow> connection_manager \<times> job_router
       \<Rightarrow> (job_error + nat) \<times> sse list \<times> connection_manager \<times> job_router" where
  "handleJob verify sha accepts fresh now deploymentName j = (\<lambda>(m, r).
     (case getConnection deploymentName m of
        None \<Rightarrow> (Inl Worker_Not_Connected, [], m, r)
      | Some connection \<Rightarrow>
         (let jobData = job_data (jb_data j);
              jobId = job_id fresh j in
          case verified_token verify sha (run_job_token jobData) of
            Inl e \<Rightarrow> (Inl e, [], m, r)
          | Inr verified \<Rightarrow>
             (let (sent, out) = sendSSE accepts (wc_writer connection) ''job''
                    (job_payload jobData jobId verified) in
              if \<not> sent then (Inl Write_Failed, out, m, r)
              else (let m = touchConnection now deploymentName m;
                        (p, r) = awaitDeliveryReceipt jobId r
                    in (Inr p, out, m, r))))))"

definition clear_timer :: "nat \<Rightarrow> job_router \<Rightarrow> job_router" where
  "clear_timer p r = r\<lparr>jr_timers := AList.delete p (jr_timers r)\<rparr>"

definition settle :: "nat \<Rightarrow> job_error option \<Rightarrow> job_router \<Rightarrow> job_router" where
  "settle p outcome r = r\<lparr>jr_settled := jr_settled r @ [(p, outcome)]\<rparr>"

text \<open>The callback of the timer armed for promise \<open>p\<close>.\<close>

definition receipt_timeout :: "nat \<Rightarrow> job_router \<Rightarrow> job_router" where
  "receipt_timeout p r =
     (case map_of (jr_timers r) p of
        None \<Rightarrow> r
      | Some jobId \<Rightarrow>
          (settle p (Some Receipt_Timeout) (clear_timer p r))
            \<lparr>jr_pending := AList.delete jobId (jr_pending r)\<rparr>)"

definition acknowledgeJob :: "string \<Rightarrow> job_router \<Rightarrow> job_router" where
  "acknowledgeJob jobId r =
     (case map_of (jr_pending r) jobId of
        None \<Rightarrow> r
      | Some p \<Rightarrow> (settle p None (clear_timer p r))\<lparr>jr_pending := AList.delete jobId (jr_pending r)\<rparr>)"

definition getPendingJobCount :: "job_router \<Rightarrow> nat" where
  "getPendingJobCount r = length (jr_pending r)"

fun reject_all :: "nat list \<Rightarrow> job_router \<Rightarrow> job_router" where
  "reject_all [] r = r"
| "reject_all (p # ps) r = reject_all ps (settle p (Some Router_Shutdown) (clear_timer p r))"

definition shutdown_router :: "job_router \<Rightarrow> job_router" where
  "shutdown_router r = (reject_all (map snd (jr_pending r)) r)\<lparr>jr_pending := []\<rparr>"

section \<open>Every promise settles once\<close>

definition router_ok :: "job_router \<Rightarrow> bool" where
  "router_ok r \<longleftrightarrow> jm_wf (jr_pending r) \<and> distinct (map fst (jr_timers r) @ map fst (jr_settled r))
     \<and> fst ` set (jr_timers r) \<union> fst ` set (jr_settled r) = {..<jr_next r}
     \<and> (\<forall>j p. map_of (jr_pending r) j = Some p \<longrightarrow> (p, j) \<in> set (jr_timers r))"

lemma router_okD:
  assumes "router_ok r"
  shows "jm_wf (jr_pending r)" "distinct (map fst (jr_timers r))" "distinct (map fst (jr_settled r))"
    "fst ` set (jr_timers r) \<inter> fst ` set (jr_settled r) = {}"
    "fst ` set (jr_timers r) \<union> fst ` set (jr_settled r) = {..<jr_next r}"
    "map_of (jr_pending r) j = Some p \<Longrightarrow> (p, j) \<in> set (jr_timers r)"
  using assms by (auto simp: router_ok_def)

lemma new_router_ok [simp]: "router_ok new_router"
  by (simp add: router_ok_def new_router_def)

lemma await_ok:
  assumes "router_ok r"
  shows "router_ok (snd (awaitDeliveryReceipt j r))"
proof -
  have "jr_next r \<notin> fst ` set (jr_timers r) \<union> fst ` set (jr_settled r)"
    by (simp only: router_okD(5) [OF assms]) simp
  moreover have "{..<Suc (jr_next r)} = insert (jr_next r) {..<jr_next r}" by auto
  ultimately show ?thesis
    using assms by (auto simp: router_ok_def awaitDeliveryReceipt_def jm_get_set)
qed

lemma cleared_keys [simp]: "fst ` set (AList.delete p xs) = fst ` set xs - {p}"
  by (simp add: image_set delete_keys flip: set_map)

lemma cleared_distinct: "distinct (map fst xs) \<Longrightarrow> distinct (map fst (AList.delete p xs))"
  by (simp add: delete_keys distinct_removeAll)

lemma cleared_mem [simp]: "(q, i) \<in> set (AList.delete p xs) \<longleftrightarrow> (q, i) \<in> set xs \<and> q \<noteq> p"
  by (auto simp: AList.delete_eq)

text \<open>One promise settles: its timer goes, and its entry in the map.\<close>

lemma settle_ok:
  assumes ok: "router_ok r" and t: "(p, j) \<in> set (jr_timers r)"
  shows "router_ok ((settle p x (clear_timer p r))\<lparr>jr_pending := AList.delete j (jr_pending r)\<rparr>)"
proof -
  note d = router_okD [OF ok]
  have p: "p \<in> fst ` set (jr_timers r)" using t by force
  then have "p \<notin> fst ` set (jr_settled r)" using d(4) by blast
  moreover have "(q, i) \<in> set (AList.delete p (jr_timers r))"
    if "map_of (jr_pending r) i = Some q" "i \<noteq> j" for i q
    using d(6) [OF that(1)] that(2) t d(2) by (auto dest: eq_key_imp_eq_value )
  moreover have "fst ` set (jr_timers r) - {p} \<union> insert p (fst ` set (jr_settled r)) = {..<jr_next r}"
    using d(5) p by blast
  ultimately show ?thesis
    using d unfolding router_ok_def settle_def clear_timer_def
    by (auto simp: jm_get_del cleared_distinct split: if_splits)
qed

lemma timeout_ok: "router_ok r \<Longrightarrow> router_ok (receipt_timeout p r)"
  using settle_ok [of r p _ "Some Receipt_Timeout"]
  by (auto simp: receipt_timeout_def settle_def clear_timer_def dest!: map_of_SomeD split: option.splits)

lemma ack_ok: "router_ok r \<Longrightarrow> router_ok (acknowledgeJob j r)"
  using settle_ok [of r _ j None] router_okD(6) [of r j]
  by (auto simp: acknowledgeJob_def split: option.splits)

lemma reject_all_fields [simp]:
  "jr_pending (reject_all ps r) = jr_pending r" "jr_next (reject_all ps r) = jr_next r"
  by (induction ps arbitrary: r) (simp_all add: settle_def clear_timer_def)

lemma reject_all_timers: "jr_timers (reject_all ps r) = filter (\<lambda>(q, _). q \<notin> set ps) (jr_timers r)"
  by (induction ps arbitrary: r)
    (auto simp: settle_def clear_timer_def AList.delete_eq intro!: filter_cong)

lemma reject_all_settled:
  "jr_settled (reject_all ps r) = jr_settled r @ map (\<lambda>p. (p, Some Router_Shutdown)) ps"
  by (induction ps arbitrary: r) (simp_all add: settle_def clear_timer_def)

lemma pending_promises:
  assumes "router_ok r"
  shows "distinct (map snd (jr_pending r))" "set (map snd (jr_pending r)) \<subseteq> fst ` set (jr_timers r)"
proof -
  note d = router_okD [OF assms]
  have mem: "(p, j) \<in> set (jr_timers r)" if "(j, p) \<in> set (jr_pending r)" for j p
    using that d(1,6) by (simp add: jm_wf_def)
  then show "set (map snd (jr_pending r)) \<subseteq> fst ` set (jr_timers r)" by force
  have "inj_on snd (set (jr_pending r))"
    using eq_key_imp_eq_value [OF d(2) mem mem] by (auto intro!: inj_onI)
  then show "distinct (map snd (jr_pending r))"
    using d(1) by (simp add: distinct_map jm_wf_def)
qed

lemma shutdown_ok:
  assumes "router_ok r"
  shows "router_ok (shutdown_router r)"
proof -
  note d = router_okD [OF assms] and p = pending_promises [OF assms]
  let ?T = "fst ` set (jr_timers r)" and ?S = "fst ` set (jr_settled r)" and ?r = "shutdown_router r"
  obtain Q where Q: "Q = set (map snd (jr_pending r))" by blast
  have t: "map fst (jr_timers ?r) = filter (\<lambda>q. q \<notin> Q) (map fst (jr_timers r))"
    unfolding shutdown_router_def by (simp add: Q reject_all_timers filter_map comp_def case_prod_unfold)
  have s: "map fst (jr_settled ?r) = map fst (jr_settled r) @ map snd (jr_pending r)"
    by (simp add: shutdown_router_def reject_all_settled comp_def)
  have "set (map fst (jr_timers ?r)) = ?T - Q" unfolding t by auto
  moreover have "set (map fst (jr_settled ?r)) = ?S \<union> Q" unfolding s Q by simp
  moreover have "distinct (map fst (jr_timers ?r))" unfolding t using d(2) by simp
  moreover have QS: "Q \<inter> ?S = {}" "Q \<subseteq> ?T" using p(2) d(4) unfolding Q by blast+
  moreover have "distinct (map fst (jr_settled ?r))"
    unfolding s using d(3) p(1) QS(1) unfolding Q by auto
  moreover have "?T - Q \<union> (?S \<union> Q) = {..<jr_next ?r}" "(?T - Q) \<inter> (?S \<union> Q) = {}"
    using d(4,5) QS by (auto simp: shutdown_router_def)
  ultimately show ?thesis
    unfolding router_ok_def distinct_append set_map [symmetric] by (simp add: shutdown_router_def)
qed

section \<open>Deliveries as a trace\<close>

text \<open>What can happen to the router: a job sent, an acknowledgment, a timer, the shutdown.\<close>

datatype router_event = Sent string | Acked string | Fired nat | Stopped

fun router_do :: "router_event \<Rightarrow> job_router \<Rightarrow> job_router" where
  "router_do (Sent j) r = snd (awaitDeliveryReceipt j r)"
| "router_do (Acked j) r = acknowledgeJob j r"
| "router_do (Fired p) r = receipt_timeout p r"
| "router_do Stopped r = shutdown_router r"

fun router_run :: "router_event list \<Rightarrow> job_router \<Rightarrow> job_router" where
  "router_run [] r = r"
| "router_run (e # es) r = router_run es (router_do e r)"

lemma router_run_append [simp]: "router_run (es @ fs) r = router_run fs (router_run es r)"
  by (induction es arbitrary: r) simp_all

lemma router_do_ok: "router_ok r \<Longrightarrow> router_ok (router_do e r)"
  by (cases e) (simp_all add: await_ok ack_ok timeout_ok shutdown_ok)

lemma router_run_ok: "router_ok r \<Longrightarrow> router_ok (router_run es r)"
  by (induction es arbitrary: r) (simp_all add: router_do_ok)

text \<open>The ids of the jobs sent, in order: the promise of a job is its position.\<close>

definition job_ids :: "router_event list \<Rightarrow> string list" where
  "job_ids es = concat (map (\<lambda>e. case e of Sent j \<Rightarrow> [j] | _ \<Rightarrow> []) es)"

lemma job_ids_simps [simp]:
  "job_ids [] = []" "job_ids (Sent j # es) = j # job_ids es" "job_ids (Acked j # es) = job_ids es"
  "job_ids (Fired p # es) = job_ids es" "job_ids (Stopped # es) = job_ids es"
  "job_ids (es @ fs) = job_ids es @ job_ids fs"
  by (simp_all add: job_ids_def)

lemma router_next: "jr_next (router_run es new_router) = length (job_ids es)"
proof (induction es rule: rev_induct)
  case (snoc e es)
  then show ?case
    by (cases e) (auto simp: awaitDeliveryReceipt_def acknowledgeJob_def receipt_timeout_def
        shutdown_router_def settle_def clear_timer_def split: option.splits)
qed (simp add: new_router_def)

lemma router_timers:
  "(p, j) \<in> set (jr_timers (router_run es new_router)) \<Longrightarrow> p < length (job_ids es) \<and> job_ids es ! p = j"
proof (induction es rule: rev_induct)
  case (snoc e es)
  let ?r = "router_run es new_router"
  have "(p, j) \<in> set (jr_timers ?r) \<or> (\<exists>i. e = Sent i \<and> p = length (job_ids es) \<and> j = i)"
    using snoc.prems router_next [of es]
    by (cases e) (auto simp: awaitDeliveryReceipt_def acknowledgeJob_def receipt_timeout_def
        shutdown_router_def settle_def clear_timer_def reject_all_timers split: option.splits)
  with snoc.IH show ?case by (cases e) (auto simp: nth_append)
qed (simp add: new_router_def)

text \<open>One event settles the promises its cause names, and forgets no settlement.\<close>

definition cause :: "job_router \<Rightarrow> router_event \<Rightarrow> nat \<Rightarrow> job_error option \<Rightarrow> bool" where
  "cause r e p x \<longleftrightarrow> (case x of
      None \<Rightarrow> (\<exists>j. e = Acked j \<and> map_of (jr_pending r) j = Some p)
    | Some err \<Rightarrow> e = Fired p \<and> err = Receipt_Timeout \<or> e = Stopped \<and> err = Router_Shutdown)"

lemma router_do_settled:
  "(p, x) \<in> set (jr_settled (router_do e r)) \<Longrightarrow> (p, x) \<in> set (jr_settled r) \<or> cause r e p x"
  by (cases e) (auto simp: cause_def awaitDeliveryReceipt_def acknowledgeJob_def receipt_timeout_def
      shutdown_router_def settle_def clear_timer_def reject_all_settled split: option.splits)

lemma router_do_keeps: "(p, x) \<in> set (jr_settled r) \<Longrightarrow> (p, x) \<in> set (jr_settled (router_do e r))"
  by (cases e) (auto simp: awaitDeliveryReceipt_def acknowledgeJob_def receipt_timeout_def
      shutdown_router_def settle_def clear_timer_def reject_all_settled split: option.splits)

lemma router_run_keeps: "(p, x) \<in> set (jr_settled r) \<Longrightarrow> (p, x) \<in> set (jr_settled (router_run es r))"
  by (induction es arbitrary: r) (simp_all add: router_do_keeps)

lemma settled_cause:
  "(p, x) \<in> set (jr_settled (router_run es new_router)) \<Longrightarrow>
     \<exists>es1 e es2. es = es1 @ e # es2 \<and> cause (router_run es1 new_router) e p x"
proof (induction es rule: rev_induct)
  case (snoc e es)
  then consider "(p, x) \<in> set (jr_settled (router_run es new_router))"
    | "cause (router_run es new_router) e p x"
    using router_do_settled [of p x e "router_run es new_router"] by auto
  then show ?case
  proof cases
    case 1
    from snoc.IH [OF this] show ?thesis by (metis append_Cons append_assoc)
  qed blast
qed (simp add: new_router_def)

lemma router_pending:
  assumes "map_of (jr_pending (router_run es new_router)) j = Some p"
  shows "p < length (job_ids es)" "job_ids es ! p = j"
  using router_timers router_okD(6) [OF router_run_ok [OF new_router_ok] assms] by blast+

text \<open>A delivery counts as successful only if the id of its own job was acknowledged after it was sent.\<close>

theorem delivery_needs_ack:
  assumes "(p, None) \<in> set (jr_settled (router_run es new_router))"
  shows "p < length (job_ids es)
    \<and> (\<exists>es1 es2. es = es1 @ Acked (job_ids es ! p) # es2 \<and> p < length (job_ids es1))"
proof -
  from settled_cause [OF assms] obtain es1 e es2
    where es: "es = es1 @ e # es2" and c: "cause (router_run es1 new_router) e p None" by blast
  then obtain j where j: "e = Acked j" "map_of (jr_pending (router_run es1 new_router)) j = Some p"
    by (auto simp: cause_def)
  with router_pending [OF j(2)] es show ?thesis by (auto simp: nth_append)
qed

lemma delivery_needs_ack_witness:
  "(0, None) \<in> set (jr_settled (router_run [Sent ''7'', Acked ''7''] new_router))
   \<and> (\<exists>es1 es2. [Sent ''7'', Acked ''7''] = es1 @ Acked ''7'' # es2 \<and> 0 < length (job_ids es1))"
proof -
  have "(0, None) \<in> set (jr_settled (router_run [Sent ''7'', Acked ''7''] new_router))"
    by (simp add: awaitDeliveryReceipt_def acknowledgeJob_def new_router_def settle_def clear_timer_def)
  from delivery_needs_ack [OF this] this show ?thesis by simp
qed

text \<open>A timer that fires settles its promise and leaves the other timers armed.\<close>

lemma fire_all:
  assumes "router_ok r" "set ps \<subseteq> fst ` set (jr_timers r)" "distinct ps"
  shows "let r' = foldl (\<lambda>r p. receipt_timeout p r) r ps in router_ok r' \<and> jr_next r' = jr_next r
    \<and> fst ` set (jr_timers r') = fst ` set (jr_timers r) - set ps"
  using assms
proof (induction ps arbitrary: r)
  case (Cons p ps)
  then obtain j where "map_of (jr_timers r) p = Some j"
    by (metis insert_subset list.set(2) map_of_eq_None_iff option.exhaust)
  then have t: "fst ` set (jr_timers (receipt_timeout p r)) = fst ` set (jr_timers r) - {p}"
    "jr_next (receipt_timeout p r) = jr_next r"
    by (simp_all add: receipt_timeout_def settle_def clear_timer_def)
  with Cons.prems have "set ps \<subseteq> fst ` set (jr_timers (receipt_timeout p r))" by auto
  from Cons.IH [OF timeout_ok [OF Cons.prems(1)] this] Cons.prems(3) t show ?case
    by (auto simp: Let_def)
qed simp

text \<open>
  C25: No delivery is left waiting and none settles twice: once the timers that are still armed
  have fired, every job ever sent has settled, exactly once.
\<close>

theorem every_delivery_settles:
  "let r = router_run es new_router;
       r' = foldl (\<lambda>r p. receipt_timeout p r) r (map fst (jr_timers r)) in
   distinct (map fst (jr_settled r')) \<and> fst ` set (jr_settled r') = {..<length (job_ids es)}"
proof -
  let ?r = "router_run es new_router"
  have ok: "router_ok ?r" by (simp add: router_run_ok)
  note f = fire_all [OF ok, of "map fst (jr_timers ?r)", simplified, OF router_okD(2) [OF ok], unfolded Let_def]
  let ?r' = "foldl (\<lambda>r p. receipt_timeout p r) ?r (map fst (jr_timers ?r))"
  have ok': "router_ok ?r'" "jr_next ?r' = jr_next ?r" "fst ` set (jr_timers ?r') = {}"
    using f by simp_all
  with router_okD(3,5) [OF ok'(1)] show ?thesis by (simp add: Let_def router_next)
qed

text \<open>With distinct ids, what is armed is in the map under its own id.\<close>

lemma armed_pending:
  assumes "distinct (job_ids es)" "(p, j) \<in> set (jr_timers (router_run es new_router))"
  shows "map_of (jr_pending (router_run es new_router)) j = Some p"
  using assms
proof (induction es rule: rev_induct)
  case (snoc e es)
  let ?r = "router_run es new_router"
  have d: "distinct (job_ids es)" using snoc.prems(1) by simp
  have ids: "job_ids es ! q = i" "q < length (job_ids es)" if "(q, i) \<in> set (jr_timers ?r)" for q i
    using router_timers [OF that] by simp_all
  have same: "q = q'" if "(q, i) \<in> set (jr_timers ?r)" "(q', i) \<in> set (jr_timers ?r)" for q q' i
    using ids [OF that(1)] ids [OF that(2)] d by (simp add: distinct_conv_nth) metis
  show ?case
  proof (cases e)
    case (Sent i)
    then have "i \<noteq> k" if "(q, k) \<in> set (jr_timers ?r)" for q k
      using ids [OF that] snoc.prems(1) by auto
    with Sent snoc d show ?thesis by (auto simp: awaitDeliveryReceipt_def jm_get_set router_next)
  next
    case (Acked i)
    with snoc d router_okD(6) [OF router_run_ok [OF new_router_ok]] same show ?thesis
      by (auto simp: acknowledgeJob_def settle_def clear_timer_def jm_get_del
          split: option.splits)
  next
    case (Fired q)
    with snoc d same show ?thesis
      by (auto simp: receipt_timeout_def settle_def clear_timer_def jm_get_del
          split: option.splits dest!: map_of_SomeD)
  next
    case Stopped
    with snoc d show ?thesis
      by (force simp: shutdown_router_def reject_all_timers dest!: map_of_SomeD)
  qed
qed (simp add: new_router_def)

text \<open>
  With one delivery per job id, an acknowledgment that comes after the job was sent and before
  its timer or a shutdown makes the delivery succeed.
\<close>

theorem ack_completes_delivery:
  assumes "distinct (job_ids (es1 @ es2))" "p < length (job_ids es1)"
    and "Fired p \<notin> set es1" "Stopped \<notin> set es1"
  shows "(p, None) \<in> set (jr_settled (router_run (es1 @ Acked (job_ids es1 ! p) # es2) new_router))"
proof -
  let ?r = "router_run es1 new_router" and ?j = "job_ids es1 ! p"
  have ok: "router_ok ?r" by (simp add: router_run_ok)
  have "p < jr_next ?r" using assms(2) by (simp add: router_next)
  then consider "p \<in> fst ` set (jr_timers ?r)" | x where "(p, x) \<in> set (jr_settled ?r)"
    using router_okD(5) [OF ok] by (metis UnE imageE lessThan_iff prod.collapse)
  then have "(p, None) \<in> set (jr_settled (acknowledgeJob ?j ?r))"
  proof cases
    case 1
    then obtain i where "(p, i) \<in> set (jr_timers ?r)" by force
    with router_timers [OF this] have "(p, ?j) \<in> set (jr_timers ?r)" by simp
    with assms(1) have "map_of (jr_pending ?r) ?j = Some p" by (intro armed_pending) simp_all
    then show ?thesis by (simp add: acknowledgeJob_def settle_def)
  next
    case 2
    then obtain a e b where "es1 = a @ e # b" "cause (router_run a new_router) e p x"
      using settled_cause by blast
    with assms(3,4) have "x = None" by (cases x) (auto simp: cause_def)
    with 2 router_do_keeps [of p None ?r "Acked ?j"] show ?thesis by simp
  qed
  then show ?thesis by (simp add: router_run_keeps)
qed

lemma ack_completes_delivery_witness:
  "(1, None) \<in> set (jr_settled (router_run
     ([Sent ''7'', Sent ''8'', Fired 0] @ Acked (job_ids [Sent ''7'', Sent ''8'', Fired 0] ! 1) # [Stopped])
     new_router))"
  by (rule ack_completes_delivery) simp_all

section \<open>What a worker is told\<close>

lemma map_of_without_member [simp]: "map_of (without_member k ms) q = (if q = k then None else map_of ms q)"
  by (induction ms) (auto simp: without_member_def)

text \<open>
  C24: The gateway's statement about a run token is its own. Whatever the payload in the queue
  holds, a job frame that carries the statement carries the hash and the claims of a token the
  gateway has verified itself, and the payload it forwards has no such member.
\<close>

theorem job_frame_claims_authentic:
  assumes "handleJob verify sha accepts fresh now d j (m, r) = (Inr p, out, m', r')"
  shows "\<exists>c frame. map_of (cm_connections m) d = Some c \<and> out = [Send (wc_writer c) ''job'' frame]
     \<and> field (field (Some frame) ''payload'') ''gatewayVerifiedRunToken'' = None
     \<and> (\<forall>v. field (Some frame) ''gatewayVerifiedRunToken'' = Some v \<longrightarrow>
          (\<exists>t claims. verify t = Some claims
             \<and> field (field (Some frame) ''payload'') ''runJobToken'' = Some (JStr t)
             \<and> v = JObj [(''tokenSha256'', JStr (sha t)),
                        (''claims'', projectVerifiedRunTokenClaims claims)]))"
proof -
  let ?data = "job_data (jb_data j)"
  from assms obtain c verified id where c: "map_of (cm_connections m) d = Some c"
    and v: "verified_token verify sha (run_job_token ?data) = Inr verified"
    and out: "out = [Send (wc_writer c) ''job'' (job_payload ?data id verified)]"
    by (auto simp: handleJob_def getConnection_def sendSSE_def Let_def
        split: option.splits sum.splits if_splits prod.splits)
  let ?payload = "if is_json_object ?data then the ?data else JObj (opt_member ''data'' ?data)"
  have no_claim: "field (Some ?payload) ''gatewayVerifiedRunToken'' = None"
    by (cases "jb_data j" rule: is_json_object.cases)
      (simp_all add: job_data_def)
  have token: "run_job_token ?data = Some t \<Longrightarrow> field (Some ?payload) ''runJobToken'' = Some (JStr t)" for t
    by (cases "?data" rule: is_object.cases)
      (auto simp: run_job_token_def split: option.splits json.splits)
  show ?thesis
  proof (intro exI [of _ c] exI [of _ "job_payload ?data id verified"] conjI allI impI)
    show "map_of (cm_connections m) d = Some c" by fact
    show "out = [Send (wc_writer c) ''job'' (job_payload ?data id verified)]" by fact
    show "field (field (Some (job_payload ?data id verified)) ''payload'') ''gatewayVerifiedRunToken'' = None"
      using no_claim by (simp add: job_payload_def)
  next
    fix w assume "field (Some (job_payload ?data id verified)) ''gatewayVerifiedRunToken'' = Some w"
    then have "verified = Some w" by (simp add: job_payload_def)
    with v obtain t claims where "run_job_token ?data = Some t" "verify t = Some claims"
      "w = JObj [(''tokenSha256'', JStr (sha t)), (''claims'', projectVerifiedRunTokenClaims claims)]"
      by (auto simp: verified_token_def split: if_splits option.splits elim!: truthy.elims)
    with token show "\<exists>t claims. verify t = Some claims
        \<and> field (field (Some (job_payload ?data id verified)) ''payload'') ''runJobToken'' = Some (JStr t)
        \<and> w = JObj [(''tokenSha256'', JStr (sha t)), (''claims'', projectVerifiedRunTokenClaims claims)]"
      by (auto simp: job_payload_def)
  qed
qed

definition forged_job :: job where
  "forged_job = \<lparr>jb_id = Some ''7'', jb_data = Some (JObj
     [(''gatewayVerifiedRunToken'', JStr ''forged''), (''runJobToken'', JStr ''a:b:c'')])\<rparr>"

definition sample_manager :: connection_manager where
  "sample_manager = snd (addConnection 0 (\<lambda>_. True) ''d1'' ''u'' ''c'' ''a'' 3 None new_manager)"

lemma sample_manager_connection:
  "\<exists>c. map_of (cm_connections sample_manager) ''d1'' = Some c \<and> wc_writer c = 3"
  by (simp add: sample_manager_def addConnection_def register_lookup Let_def)

lemma job_frame_claims_authentic_witness:
  "let verify = (\<lambda>t. if t = ''a:b:c'' then Some (JObj [(''userId'', JStr ''u'')]) else None);
       (res, out, m, r) = handleJob verify (\<lambda>_. ''h'') (\<lambda>_. True) ''x'' 5 ''d1'' forged_job
          (sample_manager, new_router) in
   \<exists>frame. res = Inr 0 \<and> out = [Send 3 ''job'' frame]
     \<and> field (field (Some frame) ''payload'') ''gatewayVerifiedRunToken'' = None"
proof -
  let ?verify = "\<lambda>t. if t = ''a:b:c'' then Some (JObj [(''userId'', JStr ''u'')]) else None"
  let ?h = "handleJob ?verify (\<lambda>_. ''h'') (\<lambda>_. True) ''x'' 5 ''d1'' forged_job (sample_manager, new_router)"
  obtain c where c: "map_of (cm_connections sample_manager) ''d1'' = Some c" "wc_writer c = 3"
    using sample_manager_connection by blast
  have t: "run_job_token (job_data (jb_data forged_job)) = Some ''a:b:c''"
    by (simp add: forged_job_def job_data_def run_job_token_def own_members_def without_member_def)
  have "looksLikeNativeWorkerToken ''a:b:c''" by code_simp
  with c t obtain out m r where h: "?h = (Inr 0, out, m, r)"
    by (simp add: handleJob_def getConnection_def verified_token_def sendSSE_def awaitDeliveryReceipt_def
        Let_def new_router_def)
  from job_frame_claims_authentic [OF h] c show ?thesis by (auto simp: h Let_def)
qed

end
