(* ===== verification/Worker_Gateway.thy ===== *)
theory Worker_Gateway
  imports Job_Router
begin

text \<open>
  The routes of \<^verbatim>\<open>packages/server/src/gateway/gateway/index.ts\<close> that workers keep open and post to:
  \<^verbatim>\<open>authenticateWorker\<close>, \<^verbatim>\<open>handleStreamConnection\<close> and \<^verbatim>\<open>handleWorkerResponse\<close>. A stream handler
  is cut at its \<^verbatim>\<open>await\<close>s: between them handlers of other streams run, also for the same
  deployment. Of the queue a handler sees whether a deployment has a consumer and whether it is
  paused (\<open>gw_queues\<close>). \<open>Disconnect\<close> stands for the stream's abort subscribers being called; the
  request's abort signal is bridged to them synchronously, so that the flag and the signal agree
  where the handler reads both, and the second check right after the registration reads the
  same flag as the first. The wait loop of an open stream has no effect and is left out. A posted
  response is one step: its parts before and after reading the body touch different state.
\<close>

section \<open>Authentication\<close>

definition authenticateWorker ::
    "(string \<Rightarrow> jvalue option) \<Rightarrow> (string \<Rightarrow> bool) \<Rightarrow> string option \<Rightarrow> jvalue option" where
  "authenticateWorker verify revoked header =
     (case header of
        None \<Rightarrow> None
      | Some h \<Rightarrow>
          if \<not> starts_with h ''Bearer '' then None
          else (case verify (drop 7 h) of
                  None \<Rightarrow> None
                | Some tokenData \<Rightarrow>
                    (let jti = str_field tokenData ''jti'' in
                     if truthy jti \<and> revoked (the jti) then None else Some tokenData)))"

section \<open>Streams\<close>

datatype stream_phase = Pausing | Registering | Resuming | Open | Finished

record stream =
  st_deploymentName :: string
  st_userId :: string
  st_conversationId :: string
  st_agentId :: string
  st_httpPort :: "int option"
  st_phase :: stream_phase
  st_added :: bool
  st_cleaned :: bool
  st_aborted :: bool
  st_closed :: bool

record gateway =
  gw_manager :: connection_manager
  gw_router :: job_router
  gw_queues :: "(string, bool) jmap"
  gw_streams :: "(writer, stream) jmap"
  gw_out :: "sse list"

record gateway_env =
  ge_verify :: "ms \<Rightarrow> string \<Rightarrow> jvalue option"
  ge_revoked :: "ms \<Rightarrow> string \<Rightarrow> bool"
  ge_sha :: "string \<Rightarrow> string"
  ge_accepts :: "ms \<Rightarrow> writer \<Rightarrow> bool"
  ge_staleMinutes :: "string option"

definition new_gateway :: gateway where
  "new_gateway = \<lparr>gw_manager = new_manager, gw_router = new_router, gw_queues = [],
     gw_streams = [], gw_out = []\<rparr>"

text \<open>\<^verbatim>\<open>pauseWorker\<close> and \<^verbatim>\<open>resumeWorker\<close> of the queue: nothing happens without a consumer.\<close>

definition set_paused :: "bool \<Rightarrow> string \<Rightarrow> gateway \<Rightarrow> gateway" where
  "set_paused b d s = (if map_of (gw_queues s) d = None then s
     else s\<lparr>gw_queues := AList.update d b (gw_queues s)\<rparr>)"

definition set_stream :: "writer \<Rightarrow> stream \<Rightarrow> gateway \<Rightarrow> gateway" where
  "set_stream h st s = s\<lparr>gw_streams := AList.update h st (gw_streams s)\<rparr>"

definition with_manager :: "(sse list \<times> connection_manager) \<Rightarrow> gateway \<Rightarrow> gateway" where
  "with_manager x s = s\<lparr>gw_manager := snd x, gw_out := gw_out s @ fst x\<rparr>"

text \<open>The cleanup latch of stream \<open>h\<close>.\<close>

definition runCleanup :: "writer \<Rightarrow> stream \<Rightarrow> gateway \<Rightarrow> gateway" where
  "runCleanup h st s =
     (if st_cleaned st then set_stream h st s
      else
       (let s = set_stream h (st\<lparr>st_cleaned := True, st_aborted := True\<rparr>) s;
            d = st_deploymentName st in
        if \<not> st_added st then s
        else
         (case getConnection d (gw_manager s) of
            Some c \<Rightarrow>
              if wc_writer c \<noteq> h then s
              else with_manager (removeConnection d None (gw_manager s)) (set_paused True d s)
          | None \<Rightarrow> set_paused True d s)))"

text \<open>A request that authenticates starts its stream and asks the queue to pause.\<close>

definition stream_start :: "jvalue \<Rightarrow> writer \<Rightarrow> int option \<Rightarrow> gateway \<Rightarrow> gateway" where
  "stream_start tokenData h httpPort s =
     (let d = the (str_field tokenData ''deploymentName'') in
      set_paused True d
        (set_stream h
          \<lparr>st_deploymentName = d, st_userId = the (str_field tokenData ''userId''),
           st_conversationId = the (str_field tokenData ''conversationId''),
           st_agentId = (case str_field tokenData ''agentId'' of None \<Rightarrow> [] | Some a \<Rightarrow> a),
           st_httpPort = httpPort, st_phase = Pausing, st_added = False, st_cleaned = False,
           st_aborted = False, st_closed = False\<rparr> s))"

text \<open>The part between the pause and the registration with the queue.\<close>

definition stream_register :: "ms \<Rightarrow> (writer \<Rightarrow> bool) \<Rightarrow> writer \<Rightarrow> stream \<Rightarrow> gateway \<Rightarrow> gateway" where
  "stream_register now accepts h st s =
     (if st_aborted st then runCleanup h (st\<lparr>st_phase := Finished\<rparr>) s
      else
       (let d = st_deploymentName st;
            s = (if isConnected d (gw_manager s)
                 then with_manager (removeConnection d None (gw_manager s)) s else s);
            s = with_manager (addConnection now accepts d (st_userId st) (st_conversationId st)
                  (st_agentId st) h (st_httpPort st) (gw_manager s)) s
        in set_stream h (st\<lparr>st_added := True, st_phase := Registering\<rparr>) s))"

text \<open>\<^verbatim>\<open>queue.work\<close> replaces the consumer of the deployment by a paused one.\<close>

definition stream_work :: "writer \<Rightarrow> stream \<Rightarrow> gateway \<Rightarrow> gateway" where
  "stream_work h st s =
     set_stream h (st\<lparr>st_phase := Resuming\<rparr>)
       (s\<lparr>gw_queues := AList.update (st_deploymentName st) True (gw_queues s)\<rparr>)"

definition stream_resume :: "writer \<Rightarrow> stream \<Rightarrow> gateway \<Rightarrow> gateway" where
  "stream_resume h st s =
     set_stream h (st\<lparr>st_phase := Open\<rparr>) (set_paused False (st_deploymentName st) s)"

definition stream_abort :: "writer \<Rightarrow> stream \<Rightarrow> gateway \<Rightarrow> gateway" where
  "stream_abort h st s = runCleanup h (st\<lparr>st_closed := True\<rparr>) s"

section \<open>Responses\<close>

datatype backend_call =
    Update_Activity string
  | Extend_Deadlines string
  | Commit_Reply string "string list" jvalue "jvalue option"
  | Send_Response jvalue

text \<open>The token's organisation and connection, stamped on the members of the response.\<close>

definition stamp_org :: "jvalue \<Rightarrow> (string \<times> jvalue) list \<Rightarrow> (string \<times> jvalue) list" where
  "stamp_org tokenData ms =
     (let org = field (Some tokenData) ''organizationId'' in
      if truthy_value org \<and> \<not> truthy_value (map_of ms ''organizationId'')
      then AList.update ''organizationId'' (the org) ms else ms)"

definition stamp_connection :: "jvalue \<Rightarrow> (string \<times> jvalue) list \<Rightarrow> (string \<times> jvalue) list" where
  "stamp_connection tokenData ms =
     (let cid = field (Some tokenData) ''connectionId''; meta = map_of ms ''platformMetadata'' in
      if truthy_value cid \<and> (\<not> truthy_value meta \<or> is_json_object meta)
      then AList.update ''platformMetadata''
             (JObj (AList.update ''connectionId'' (the cid)
                (if truthy_value meta then own_members (the meta) else []))) ms
      else ms)"

text \<open>The ids a terminal response answers; \<open>None\<close> when the value cannot be iterated.\<close>

definition iterate :: "jvalue option \<Rightarrow> jvalue list option" where
  "iterate v = (case v of
      None \<Rightarrow> Some []
    | Some JNull \<Rightarrow> Some []
    | Some (JArr xs) \<Rightarrow> Some xs
    | Some (JStr cs) \<Rightarrow> Some (map (\<lambda>c. JStr [c]) cs)
    | Some _ \<Rightarrow> None)"

definition strings :: "jvalue list \<Rightarrow> string list" where
  "strings vs = concat (map (\<lambda>v. case v of JStr s \<Rightarrow> [s] | _ \<Rightarrow> []) vs)"

definition discharge_ids :: "jvalue option \<Rightarrow> jvalue option \<Rightarrow> string list option" where
  "discharge_ids messageId processed =
     (case iterate processed of
        None \<Rightarrow> None
      | Some vs \<Rightarrow>
          Some (dedupe (strings (case messageId of None \<Rightarrow> [] | Some v \<Rightarrow> [v]) @ strings vs)))"

definition is_terminal_response :: "(string \<times> jvalue) list \<Rightarrow> bool" where
  "is_terminal_response ms \<longleftrightarrow> truthy_value (map_of ms ''error'')
     \<or> (case map_of ms ''processedMessageIds'' of Some (JArr xs) \<Rightarrow> 0 < length xs | _ \<Rightarrow> False)"

text \<open>The part after the acknowledgment: the reply's status and the calls made.\<close>

definition response_calls ::
    "string \<Rightarrow> bool \<Rightarrow> (string \<times> jvalue) list \<Rightarrow> nat \<times> backend_call list" where
  "response_calls d fails ms =
     (if truthy_value (map_of ms ''received'') then (200, [Extend_Deadlines d])
      else
       (let extend = (if truthy_value (map_of ms ''statusUpdate'') then [Extend_Deadlines d] else []);
            status = (if fails then 500 else 200) in
        if is_terminal_response ms
        then (case discharge_ids (map_of ms ''messageId'') (map_of ms ''processedMessageIds'') of
                None \<Rightarrow> (500, extend)
              | Some ids \<Rightarrow>
                  (status, extend @ [Commit_Reply d ids (JObj ms)
                     (case map_of ms ''organizationId'' of Some JNull \<Rightarrow> None | v \<Rightarrow> v)]))
        else (status, extend @ [Send_Response (JObj ms)])))"

definition handleWorkerResponse ::
    "(string \<Rightarrow> jvalue option) \<Rightarrow> (string \<Rightarrow> bool) \<Rightarrow> ms \<Rightarrow> string option \<Rightarrow> jvalue option \<Rightarrow> bool
       \<Rightarrow> connection_manager \<times> job_router
       \<Rightarrow> nat \<times> backend_call list \<times> connection_manager \<times> job_router" where
  "handleWorkerResponse verify revoked now header body fails = (\<lambda>(m, r).
     (case authenticateWorker verify revoked header of
        None \<Rightarrow> (401, [], m, r)
      | Some tokenData \<Rightarrow>
         (let d = the (str_field tokenData ''deploymentName''); m = touchConnection now d m in
          case body of
            None \<Rightarrow> (500, [Update_Activity d], m, r)
          | Some JNull \<Rightarrow> (500, [Update_Activity d], m, r)
          | Some b \<Rightarrow>
             (let jobId = map_of (own_members b) ''jobId'';
                  ms = stamp_connection tokenData
                         (stamp_org tokenData (without_member ''jobId'' (own_members b)));
                  r = (case jobId of Some (JStr j) \<Rightarrow> if j \<noteq> [] then acknowledgeJob j r else r
                        | _ \<Rightarrow> r);
                  (status, calls) = response_calls d fails ms
              in (status, Update_Activity d # calls, m, r)))))"

section \<open>The gateway as a whole\<close>

datatype gateway_event =
    Connect writer "string option" "int option" bool
  | Pause_Done writer
  | Work_Done writer
  | Work_Failed writer
  | Resume_Done writer
  | Disconnect writer
  | Heartbeats
  | Stale_Sweep
  | Deliver string job string
  | Respond "string option" "jvalue option" bool
  | Receipt_Timer nat
  | Shut_Down

definition in_phase ::
    "writer \<Rightarrow> stream_phase \<Rightarrow> (stream \<Rightarrow> gateway) \<Rightarrow> gateway \<Rightarrow> gateway option" where
  "in_phase h ph f s = (case map_of (gw_streams s) h of
      None \<Rightarrow> None
    | Some st \<Rightarrow> if st_phase st = ph then Some (f st) else None)"

text \<open>One event at time \<open>now\<close>; \<open>None\<close> when it cannot happen in the state.\<close>

fun gateway_do :: "gateway_env \<Rightarrow> ms \<Rightarrow> gateway_event \<Rightarrow> gateway \<Rightarrow> gateway option" where
  "gateway_do E now (Connect h header httpPort gone) s =
     (if map_of (gw_streams s) h \<noteq> None then None
      else (case authenticateWorker (ge_verify E now) (ge_revoked E now) header of
              None \<Rightarrow> Some s
            | Some tokenData \<Rightarrow>
                if \<not> truthy (str_field tokenData ''conversationId'') \<or> gone then Some s
                else Some (stream_start tokenData h httpPort s)))"
| "gateway_do E now (Pause_Done h) s =
     in_phase h Pausing (\<lambda>st. stream_register now (ge_accepts E now) h st s) s"
| "gateway_do E now (Work_Done h) s = in_phase h Registering (\<lambda>st. stream_work h st s) s"
| "gateway_do E now (Work_Failed h) s =
     in_phase h Registering (\<lambda>st. set_stream h (st\<lparr>st_phase := Finished\<rparr>) s) s"
| "gateway_do E now (Resume_Done h) s = in_phase h Resuming (\<lambda>st. stream_resume h st s) s"
| "gateway_do E now (Disconnect h) s =
     (case map_of (gw_streams s) h of None \<Rightarrow> None | Some st \<Rightarrow> Some (stream_abort h st s))"
| "gateway_do E now Heartbeats s =
     Some (with_manager (sendHeartbeats now (ge_accepts E now) (gw_manager s)) s)"
| "gateway_do E now Stale_Sweep s =
     Some (with_manager (cleanupStaleConnections (ge_staleMinutes E) now (gw_manager s)) s)"
| "gateway_do E now (Deliver d j fresh) s =
     (if map_of (gw_queues s) d = None then None
      else (let (res, out, m, r) = handleJob (ge_verify E now) (ge_sha E) (ge_accepts E now) fresh now d j
                  (gw_manager s, gw_router s)
            in Some (s\<lparr>gw_manager := m, gw_router := r, gw_out := gw_out s @ out\<rparr>)))"
| "gateway_do E now (Respond header body fails) s =
     (let (status, calls, m, r) = handleWorkerResponse (ge_verify E now) (ge_revoked E now) now header
            body fails (gw_manager s, gw_router s)
      in Some (s\<lparr>gw_manager := m, gw_router := r\<rparr>))"
| "gateway_do E now (Receipt_Timer p) s = Some (s\<lparr>gw_router := receipt_timeout p (gw_router s)\<rparr>)"
| "gateway_do E now Shut_Down s =
     Some ((with_manager (shutdown_manager (gw_manager s)) s)
       \<lparr>gw_router := shutdown_router (gw_router s)\<rparr>)"

fun gateway_run :: "gateway_env \<Rightarrow> (ms \<times> gateway_event) list \<Rightarrow> gateway \<Rightarrow> gateway option" where
  "gateway_run E [] s = Some s"
| "gateway_run E ((now, e) # es) s =
     (case gateway_do E now e s of None \<Rightarrow> None | Some s' \<Rightarrow> gateway_run E es s')"

section \<open>Who is registered\<close>

text \<open>The registration of a deployment: the writer, and the agent and user it was made for.\<close>

definition registered :: "connection_manager \<Rightarrow> string \<Rightarrow> (writer \<times> string \<times> string) option" where
  "registered m d = map_option (\<lambda>c. (wc_writer c, wc_agentId c, wc_userId c)) (map_of (cm_connections m) d)"

lemma registered_simps [simp]:
  "registered new_manager d = None"
  "registered (touchConnection now k m) d = registered m d"
  "registered (snd (sendHeartbeats now accepts m)) d = registered m d"
  "registered (snd (removeConnection k None m)) d = (if d = k then None else registered m d)"
  "registered (snd (addConnection now accepts k u c a w port m)) d =
     (if d = k then Some (w, a, u) else registered m d)"
  by (auto simp: registered_def new_manager_def touch_lookup heartbeats_lookup remove_lookup
      addConnection_def register_lookup option.map_comp comp_def Let_def)

lemma registered_cleanup:
  "manager_ok m \<Longrightarrow> registered (snd (cleanupStaleConnections env now m)) d = Some x \<Longrightarrow> registered m d = Some x"
  by (auto simp: registered_def cleanup_lookup split: option.splits if_splits)

lemma registered_shutdown [simp]: "registered (snd (shutdown_manager m)) d = None"
proof -
  have "d \<in> set (map fst (cm_connections m)) \<or> map_of (cm_connections m) d = None"
    by (auto simp: map_of_eq_None_iff)
  then show ?thesis by (auto simp: registered_def shutdown_manager_def remove_all_lookup)
qed

lemma add_ok: "manager_ok m \<Longrightarrow> manager_ok (snd (addConnection now accepts k u c a w port m))"
  by (simp add: addConnection_def registration_ok Let_def)

lemma shutdown_manager_ok: "manager_ok m \<Longrightarrow> manager_ok (snd (shutdown_manager m))"
  by (simp add: shutdown_manager_def remove_all_ok)

lemma cleanup_ok: "manager_ok m \<Longrightarrow> manager_ok (snd (cleanupStaleConnections env now m))"
  by (simp add: cleanupStaleConnections_def remove_all_ok)

text \<open>A posted response or a job only refreshes a connection.\<close>

lemma handleJob_manager:
  assumes "handleJob verify sha accepts fresh now d j (m, r) = (res, out, m', r')"
  shows "m' = m \<or> m' = touchConnection now d m"
  using assms
  by (auto simp: handleJob_def Let_def case_prod_beta split: option.splits sum.splits if_splits)

lemma response_manager:
  assumes "handleWorkerResponse verify revoked now header body fails (m, r) = (status, calls, m', r')"
  shows "m' = m \<or> (\<exists>d. m' = touchConnection now d m)"
  using assms
  by (auto simp: handleWorkerResponse_def Let_def case_prod_beta split: option.splits json.splits)

section \<open>The invariant of the gateway\<close>

definition stream_ok :: "stream \<Rightarrow> bool" where
  "stream_ok st \<longleftrightarrow> (st_phase st = Pausing \<longrightarrow> \<not> st_added st) \<and> st_cleaned st = st_aborted st"

definition live_for :: "gateway \<Rightarrow> string \<Rightarrow> writer \<times> string \<times> string \<Rightarrow> bool" where
  "live_for s d x \<longleftrightarrow> (\<exists>st. map_of (gw_streams s) (fst x) = Some st \<and> st_deploymentName st = d
     \<and> st_added st \<and> \<not> st_cleaned st \<and> st_agentId st = fst (snd x) \<and> st_userId st = snd (snd x))"

definition gateway_inv :: "gateway \<Rightarrow> bool" where
  "gateway_inv s \<longleftrightarrow> manager_ok (gw_manager s)
     \<and> (\<forall>h st. map_of (gw_streams s) h = Some st \<longrightarrow> stream_ok st)
     \<and> (\<forall>d x. registered (gw_manager s) d = Some x \<longrightarrow> live_for s d x)"

lemma gateway_invD:
  assumes "gateway_inv s"
  shows "manager_ok (gw_manager s)" "map_of (gw_streams s) h = Some st \<Longrightarrow> stream_ok st"
    "registered (gw_manager s) d = Some x \<Longrightarrow> live_for s d x"
  using assms unfolding gateway_inv_def by blast+

lemma new_gateway_inv: "gateway_inv new_gateway"
  by (simp add: gateway_inv_def new_gateway_def)

lemma set_paused_fields [simp]:
  "gw_manager (set_paused b d s) = gw_manager s" "gw_streams (set_paused b d s) = gw_streams s"
  "gw_router (set_paused b d s) = gw_router s" "gw_out (set_paused b d s) = gw_out s"
  by (simp_all add: set_paused_def)

lemma set_stream_fields [simp]:
  "gw_manager (set_stream h st s) = gw_manager s" "gw_router (set_stream h st s) = gw_router s"
  "gw_out (set_stream h st s) = gw_out s" "gw_queues (set_stream h st s) = gw_queues s"
  "map_of (gw_streams (set_stream h st s)) k = (if k = h then Some st else map_of (gw_streams s) k)"
  by (simp_all add: set_stream_def jm_get_set)

lemma with_manager_fields [simp]:
  "gw_manager (with_manager x s) = snd x" "gw_streams (with_manager x s) = gw_streams s"
  "gw_router (with_manager x s) = gw_router s" "gw_queues (with_manager x s) = gw_queues s"
  "gw_out (with_manager x s) = gw_out s @ fst x"
  by (simp_all add: with_manager_def)

text \<open>Changing the stream of a handler whose registration does not depend on the change.\<close>

lemma set_stream_inv:
  assumes "gateway_inv s" "stream_ok st'" "map_of (gw_streams s) h = Some st"
    "st_deploymentName st' = st_deploymentName st" "st_added st' = st_added st"
    "st_cleaned st' = st_cleaned st" "st_agentId st' = st_agentId st" "st_userId st' = st_userId st"
  shows "gateway_inv (set_stream h st' s)"
  using assms by (fastforce simp: gateway_inv_def live_for_def)

lemma same_registry_inv:
  assumes "gateway_inv s" "gw_streams s' = gw_streams s" "manager_ok (gw_manager s')"
    "\<And>d x. registered (gw_manager s') d = Some x \<Longrightarrow> registered (gw_manager s) d = Some x"
  shows "gateway_inv s'"
  using assms by (simp add: gateway_inv_def live_for_def)

text \<open>A stream as its handler continues with it: same identity, another phase.\<close>

definition continues :: "stream \<Rightarrow> stream \<Rightarrow> bool" where
  "continues st st' \<longleftrightarrow> st_deploymentName st' = st_deploymentName st \<and> st_added st' = st_added st
     \<and> st_cleaned st' = st_cleaned st \<and> st_agentId st' = st_agentId st \<and> st_userId st' = st_userId st"

lemma runCleanup_inv:
  assumes inv: "gateway_inv s" and st: "map_of (gw_streams s) h = Some st"
    and c: "continues st st'" and ok: "stream_ok st'" and ph: "st_phase st' = Pausing \<longrightarrow> \<not> st_added st'"
  shows "gateway_inv (runCleanup h st' s)"
proof (cases "st_cleaned st'")
  case True
  with set_stream_inv [OF inv ok st] c show ?thesis by (simp add: runCleanup_def continues_def)
next
  case False
  let ?st = "st'\<lparr>st_cleaned := True, st_aborted := True\<rparr>" and ?d = "st_deploymentName st'"
  have live: "live_for (set_stream h ?st s') d x"
    if "registered (gw_manager s) d = Some x" "d \<noteq> ?d \<or> fst x \<noteq> h" "gw_streams s' = gw_streams s" for d x s'
    using gateway_invD(3) [OF inv that(1)] that(2,3) c st
    by (auto simp: live_for_def continues_def set_stream_def jm_get_set)
  have own: "d = ?d" if "registered (gw_manager s) d = Some x" "fst x = h" for d x
    using gateway_invD(3) [OF inv that(1)] that(2) c st by (auto simp: live_for_def continues_def)
  have unadded: "fst x \<noteq> h" if "registered (gw_manager s) d = Some x" "\<not> st_added st'" for d x
    using gateway_invD(3) [OF inv that(1)] that(2) c st by (auto simp: live_for_def continues_def)
  have sok: "stream_ok ?st" using ok by (simp add: stream_ok_def)
  let ?s = "set_stream h ?st s"
  have streams: "stream_ok q" if "map_of (gw_streams ?s) k = Some q" for k q
    using that sok gateway_invD(2) [OF inv] by (auto split: if_splits)
  have eq: "gw_streams (runCleanup h st' s) = gw_streams ?s"
    using False by (simp add: runCleanup_def Let_def split: option.split)
  have man: "gw_manager (runCleanup h st' s) =
      (if st_added st' \<and> (\<exists>y. registered (gw_manager s) ?d = Some y \<and> fst y = h)
       then snd (removeConnection ?d None (gw_manager s)) else gw_manager s)"
    using False by (simp add: runCleanup_def Let_def registered_def getConnection_def split: option.split)
  have reg: "registered (gw_manager s) d = Some x \<and> (d \<noteq> ?d \<or> fst x \<noteq> h)"
    if "registered (gw_manager (runCleanup h st' s)) d = Some x" for d x
    using that unfolding man by (cases "d = ?d"; cases x) (auto split: if_splits dest: unadded)
  have "live_for (runCleanup h st' s) d x"
    if "registered (gw_manager (runCleanup h st' s)) d = Some x" for d x
    using live [of d x s] reg [OF that] eq by (simp add: live_for_def)
  moreover have "manager_ok (gw_manager (runCleanup h st' s))"
    unfolding man using gateway_invD(1) [OF inv] by (simp add: remove_ok)
  ultimately show ?thesis using streams unfolding gateway_inv_def eq by blast
qed

lemma stream_register_inv:
  assumes inv: "gateway_inv s" and st: "map_of (gw_streams s) h = Some st" and ph: "st_phase st = Pausing"
  shows "gateway_inv (stream_register now accepts h st s)"
proof (cases "st_aborted st")
  case True
  have "stream_ok st" using gateway_invD(2) [OF inv st] .
  then have "stream_ok (st\<lparr>st_phase := Finished\<rparr>)" by (simp add: stream_ok_def)
  with True show ?thesis
    using runCleanup_inv [OF inv st, of "st\<lparr>st_phase := Finished\<rparr>"]
    by (simp add: stream_register_def continues_def)
next
  case False
  have ok: "stream_ok st" using gateway_invD(2) [OF inv st] .
  then have fresh: "\<not> st_added st" "\<not> st_cleaned st" using ph False by (simp_all add: stream_ok_def)
  have other: "fst x \<noteq> h" if "registered (gw_manager s) d = Some x" for d x
    using gateway_invD(3) [OF inv that] st fresh(1) by (auto simp: live_for_def)
  let ?s' = "stream_register now accepts h st s"
  have streams: "map_of (gw_streams ?s') k =
      (if k = h then Some (st\<lparr>st_added := True, st_phase := Registering\<rparr>) else map_of (gw_streams s) k)" for k
    using False by (simp add: stream_register_def Let_def)
  have reg: "registered (gw_manager ?s') d =
      (if d = st_deploymentName st then Some (h, st_agentId st, st_userId st)
       else registered (gw_manager s) d)" for d
    using False by (simp add: stream_register_def Let_def)
  have "manager_ok (gw_manager ?s')"
    using False gateway_invD(1) [OF inv] by (simp add: stream_register_def Let_def add_ok remove_ok)
  moreover have "live_for ?s' d x" if "registered (gw_manager ?s') d = Some x" for d x
  proof (cases "d = st_deploymentName st")
    case True
    with that have "x = (h, st_agentId st, st_userId st)" by (simp add: reg)
    with True fresh(2) show ?thesis by (simp add: live_for_def streams)
  next
    case False
    with that have "registered (gw_manager s) d = Some x" by (simp add: reg)
    with other [OF this] gateway_invD(3) [OF inv this] show ?thesis by (auto simp: live_for_def streams)
  qed
  moreover have "stream_ok q" if "map_of (gw_streams ?s') k = Some q" for k q
    using that gateway_invD(2) [OF inv] ok by (auto simp: streams stream_ok_def split: if_splits)
  ultimately show ?thesis unfolding gateway_inv_def by blast
qed

lemma in_phase_SomeD:
  "in_phase h ph f s = Some s' \<Longrightarrow> \<exists>st. map_of (gw_streams s) h = Some st \<and> st_phase st = ph \<and> s' = f st"
  by (auto simp: in_phase_def split: option.splits if_splits)

lemma phase_step_inv:
  assumes inv: "gateway_inv s" and st: "map_of (gw_streams s) h = Some st"
    and ph: "ph \<noteq> Pausing" and s': "gw_manager s' = gw_manager s" "gw_streams s' = gw_streams s"
  shows "gateway_inv (set_stream h (st\<lparr>st_phase := ph\<rparr>) s')"
proof (rule set_stream_inv)
  show "gateway_inv s'" using inv s' by (simp add: gateway_inv_def live_for_def)
  show "stream_ok (st\<lparr>st_phase := ph\<rparr>)"
    using gateway_invD(2) [OF inv st] ph by (simp add: stream_ok_def)
qed (use st s' in simp_all)

lemma stream_start_inv:
  assumes inv: "gateway_inv s" and new: "map_of (gw_streams s) h = None"
  shows "gateway_inv (stream_start tokenData h port s)"
proof -
  have "live_for (stream_start tokenData h port s) d x" if "registered (gw_manager s) d = Some x" for d x
    using gateway_invD(3) [OF inv that] new
    by (auto simp: live_for_def stream_start_def Let_def)
  moreover have "stream_ok q" if "map_of (gw_streams (stream_start tokenData h port s)) k = Some q" for k q
    using that gateway_invD(2) [OF inv]
    by (auto simp: stream_start_def Let_def stream_ok_def split: if_splits)
  moreover have "gw_manager (stream_start tokenData h port s) = gw_manager s"
    by (simp add: stream_start_def Let_def)
  ultimately show ?thesis using inv by (simp add: gateway_inv_def)
qed

lemma gateway_do_inv:
  assumes inv: "gateway_inv s" and step: "gateway_do E now e s = Some s'"
  shows "gateway_inv s'"
proof (cases e)
  case (Connect h header port gone)
  with step inv stream_start_inv [OF inv, of h] show ?thesis by (auto split: if_splits option.splits)
next
  case (Pause_Done h)
  with step in_phase_SomeD [of h Pausing] stream_register_inv [OF inv] show ?thesis by fastforce
next
  case (Work_Done h)
  with step obtain st where "map_of (gw_streams s) h = Some st" "s' = stream_work h st s"
    using in_phase_SomeD by fastforce
  then show ?thesis using phase_step_inv [OF inv] by (simp add: stream_work_def)
next
  case (Work_Failed h)
  with step obtain st where "map_of (gw_streams s) h = Some st" "s' = set_stream h (st\<lparr>st_phase := Finished\<rparr>) s"
    using in_phase_SomeD by fastforce
  then show ?thesis using phase_step_inv [OF inv] by simp
next
  case (Resume_Done h)
  with step obtain st where "map_of (gw_streams s) h = Some st" "s' = stream_resume h st s"
    using in_phase_SomeD by fastforce
  then show ?thesis using phase_step_inv [OF inv] by (simp add: stream_resume_def)
next
  case (Disconnect h)
  with step obtain st where st: "map_of (gw_streams s) h = Some st" and s': "s' = stream_abort h st s"
    by (auto split: option.splits)
  from gateway_invD(2) [OF inv st] runCleanup_inv [OF inv st, of "st\<lparr>st_closed := True\<rparr>"] s'
  show ?thesis by (simp add: stream_abort_def continues_def stream_ok_def)
next
  case Heartbeats
  with step gateway_invD(1) [OF inv] show ?thesis
    by (intro same_registry_inv [OF inv]) (auto simp: heartbeats_ok)
next
  case Stale_Sweep
  with step gateway_invD(1) [OF inv] show ?thesis
    by (intro same_registry_inv [OF inv]) (auto simp: cleanup_ok dest: registered_cleanup)
next
  case (Deliver d j fresh)
  with step gateway_invD(1) [OF inv] show ?thesis
    by (intro same_registry_inv [OF inv])
      (auto simp: touch_ok Let_def dest!: handleJob_manager split: if_splits prod.splits)
next
  case (Respond header body fails)
  with step gateway_invD(1) [OF inv] show ?thesis
    by (intro same_registry_inv [OF inv])
      (auto simp: touch_ok Let_def dest!: response_manager split: prod.splits)
next
  case (Receipt_Timer p)
  with step gateway_invD(1) [OF inv] show ?thesis by (intro same_registry_inv [OF inv]) auto
next
  case Shut_Down
  with step gateway_invD(1) [OF inv] show ?thesis
    by (intro same_registry_inv [OF inv]) (auto simp: shutdown_manager_ok)
qed

lemma gateway_run_append:
  "gateway_run E (es @ fs) s = (case gateway_run E es s of None \<Rightarrow> None | Some s' \<Rightarrow> gateway_run E fs s')"
  by (induction E es s rule: gateway_run.induct) (auto split: option.splits)

lemma gateway_run_inv: "gateway_run E es s = Some s' \<Longrightarrow> gateway_inv s \<Longrightarrow> gateway_inv s'"
  by (induction E es s rule: gateway_run.induct) (auto split: option.splits dest: gateway_do_inv)

section \<open>Streams belong to tokens\<close>

definition same_stream :: "stream \<Rightarrow> stream \<Rightarrow> bool" where
  "same_stream st st' \<longleftrightarrow> st_deploymentName st' = st_deploymentName st \<and> st_userId st' = st_userId st
     \<and> st_agentId st' = st_agentId st"

lemma same_stream_refl [simp]: "same_stream st st"
  by (simp add: same_stream_def)

text \<open>\<open>opened_by E t e h st\<close>: the event at time \<open>t\<close> opened \<open>h\<close> for the bearer of a token for \<open>st\<close>.\<close>

definition opened_by :: "gateway_env \<Rightarrow> ms \<Rightarrow> gateway_event \<Rightarrow> writer \<Rightarrow> stream \<Rightarrow> bool" where
  "opened_by E t e h st \<longleftrightarrow> (\<exists>header port gone tokenData. e = Connect h header port gone
     \<and> authenticateWorker (ge_verify E t) (ge_revoked E t) header = Some tokenData
     \<and> st_deploymentName st = the (str_field tokenData ''deploymentName'')
     \<and> st_userId st = the (str_field tokenData ''userId''))"

lemma cleanup_streams:
  "map_of (gw_streams (runCleanup h st s)) k =
     (if k = h then Some (st\<lparr>st_cleaned := True, st_aborted := st_aborted st \<or> \<not> st_cleaned st\<rparr>)
      else map_of (gw_streams s) k)"
  by (cases "st_cleaned st") (auto simp: runCleanup_def Let_def split: option.split)

lemma register_streams:
  "\<exists>st'. same_stream st st' \<and> map_of (gw_streams (stream_register now accepts h st s)) k =
     (if k = h then Some st' else map_of (gw_streams s) k)"
  by (auto simp: stream_register_def Let_def cleanup_streams same_stream_def)

lemma gateway_do_stream:
  assumes step: "gateway_do E t e s = Some s'" and st': "map_of (gw_streams s') h = Some st'"
  shows "(\<exists>st. map_of (gw_streams s) h = Some st \<and> same_stream st st') \<or> opened_by E t e h st'"
proof (cases e)
  case (Connect k header port gone)
  with step st' show ?thesis
    by (auto simp: opened_by_def stream_start_def Let_def split: if_splits option.splits)
next
  case (Pause_Done k)
  with step obtain st where st: "map_of (gw_streams s) k = Some st"
    and s': "s' = stream_register t (ge_accepts E t) k st s" using in_phase_SomeD by fastforce
  from register_streams [of st t "ge_accepts E t" k s h] st st' s' show ?thesis
    by (cases "h = k") auto
next
  case (Disconnect k)
  with step st' show ?thesis
    by (auto simp: stream_abort_def cleanup_streams same_stream_def split: option.splits if_splits)
qed (use step st' in \<open>auto simp: stream_work_def stream_resume_def same_stream_def in_phase_def Let_def
       split: option.splits if_splits prod.splits\<close>)

lemma stream_opened:
  assumes "gateway_run E es new_gateway = Some s" "map_of (gw_streams s) h = Some st"
  shows "\<exists>(t, e) \<in> set es. opened_by E t e h st"
  using assms
proof (induction es arbitrary: s st rule: rev_induct)
  case (snoc x es)
  obtain t e where x: "x = (t, e)" by force
  from snoc.prems(1) obtain s0 where s0: "gateway_run E es new_gateway = Some s0"
    and step: "gateway_do E t e s0 = Some s"
    by (auto simp: gateway_run_append x split: option.splits)
  from gateway_do_stream [OF step snoc.prems(2)] show ?case
  proof (elim disjE exE conjE)
    fix st0 assume "map_of (gw_streams s0) h = Some st0" "same_stream st0 st"
    with snoc.IH [OF s0, of st0] show ?thesis by (fastforce simp: opened_by_def same_stream_def)
  qed (simp add: x)
qed (auto simp: new_gateway_def)

text \<open>
  C4: A job is written only on the stream that is registered for its deployment, a stream that was
  opened with a valid and unrevoked token of that deployment and has not disconnected.
\<close>

theorem jobs_reach_their_worker:
  assumes run: "gateway_run E es new_gateway = Some s"
    and job: "handleJob verify sha accepts fresh now d j (gw_manager s, gw_router s) = (res, out, m, r)"
    and sent: "Send w ev frame \<in> set out"
  shows "\<exists>st. map_of (gw_streams s) w = Some st \<and> st_deploymentName st = d \<and> st_added st
     \<and> \<not> st_cleaned st \<and> ev = ''job'' \<and> (\<exists>(t, e) \<in> set es. opened_by E t e w st)"
proof -
  have inv: "gateway_inv s" using gateway_run_inv [OF run new_gateway_inv] .
  from job sent obtain c where c: "map_of (cm_connections (gw_manager s)) d = Some c" "wc_writer c = w"
    and ev: "ev = ''job''"
    by (auto simp: handleJob_def getConnection_def sendSSE_def Let_def case_prod_beta
        split: option.splits sum.splits if_splits)
  then have "registered (gw_manager s) d = Some (w, wc_agentId c, wc_userId c)"
    by (simp add: registered_def)
  from gateway_invD(3) [OF inv this] obtain st where "map_of (gw_streams s) w = Some st"
    "st_deploymentName st = d" "st_added st" "\<not> st_cleaned st" by (auto simp: live_for_def)
  with stream_opened [OF run this(1)] ev show ?thesis by blast
qed

section \<open>Acknowledgments come from workers\<close>

text \<open>\<open>acknowledges E t e j\<close>: a worker that authenticates posts the job id \<open>j\<close>.\<close>

definition acknowledges :: "gateway_env \<Rightarrow> ms \<Rightarrow> gateway_event \<Rightarrow> string \<Rightarrow> bool" where
  "acknowledges E t e j \<longleftrightarrow> (\<exists>header b fails tokenData. e = Respond header (Some b) fails
     \<and> authenticateWorker (ge_verify E t) (ge_revoked E t) header = Some tokenData
     \<and> map_of (own_members b) ''jobId'' = Some (JStr j))"

text \<open>\<open>delivers E es t e p j\<close>: after \<open>es\<close>, the event hands a job to its worker; \<open>p\<close> is the promise of that delivery, \<open>j\<close> the id sent.\<close>

definition delivers :: "gateway_env \<Rightarrow> (ms \<times> gateway_event) list \<Rightarrow> ms \<Rightarrow> gateway_event \<Rightarrow> nat \<Rightarrow> string \<Rightarrow> bool" where
  "delivers E es t e p i \<longleftrightarrow> (\<exists>d j fresh s out m r. e = Deliver d j fresh \<and> i = job_id fresh j
     \<and> gateway_run E es new_gateway = Some s
     \<and> handleJob (ge_verify E t) (ge_sha E) (ge_accepts E t) fresh t d j (gw_manager s, gw_router s) = (Inr p, out, m, r))"

lemma response_router:
  assumes "handleWorkerResponse verify revoked now header body fails (m, r) = (status, calls, m', r')"
  shows "r' = r \<or> (\<exists>b j tokenData. body = Some b \<and> authenticateWorker verify revoked header = Some tokenData
     \<and> map_of (own_members b) ''jobId'' = Some (JStr j) \<and> r' = acknowledgeJob j r)"
  using assms
  by (cases "body = Some JNull")
    (auto simp: handleWorkerResponse_def Let_def case_prod_beta split: option.splits json.splits if_splits)

lemma handleJob_router:
  assumes "handleJob verify sha accepts fresh now d j (m, r) = (res, out, m', r')"
  shows "r' = r \<or> (res = Inr (jr_next r) \<and> r' = snd (awaitDeliveryReceipt (job_id fresh j) r))"
  using assms
  by (auto simp: handleJob_def awaitDeliveryReceipt_def Let_def case_prod_beta split: option.splits sum.splits if_splits)

text \<open>What an event of the gateway does to the router: nothing, or one event of the router's own trace.\<close>

definition does_to_router :: "gateway_env \<Rightarrow> ms \<Rightarrow> gateway_event \<Rightarrow> gateway \<Rightarrow> router_event \<Rightarrow> bool" where
  "does_to_router E t e s re \<longleftrightarrow>
     (case re of
        Sent i \<Rightarrow> (\<exists>d j fresh out m r. e = Deliver d j fresh \<and> i = job_id fresh j
          \<and> handleJob (ge_verify E t) (ge_sha E) (ge_accepts E t) fresh t d j (gw_manager s, gw_router s)
              = (Inr (jr_next (gw_router s)), out, m, r))
      | Acked i \<Rightarrow> acknowledges E t e i
      | Fired p \<Rightarrow> True
      | Stopped \<Rightarrow> True)"

lemma does_to_router_free: "does_to_router E t e s (Fired p)" "does_to_router E t e s Stopped"
  by (simp_all add: does_to_router_def)

lemma gateway_do_router:
  assumes "gateway_do E t e s = Some s'"
  shows "gw_router s' = gw_router s
     \<or> (\<exists>re. gw_router s' = router_do re (gw_router s) \<and> does_to_router E t e s re)"
proof (cases e)
  case (Connect k header port gone)
  with assms show ?thesis by (auto simp: stream_start_def Let_def split: if_splits option.splits)
next
  case (Pause_Done h)
  with assms obtain st where "s' = stream_register t (ge_accepts E t) h st s"
    using in_phase_SomeD by fastforce
  then show ?thesis by (simp add: stream_register_def runCleanup_def Let_def split: option.split)
next
  case (Disconnect h)
  with assms show ?thesis
    by (auto simp: stream_abort_def runCleanup_def Let_def split: option.splits)
next
  case (Deliver d j fresh)
  with assms obtain res out m where h: "handleJob (ge_verify E t) (ge_sha E) (ge_accepts E t) fresh t d j
      (gw_manager s, gw_router s) = (res, out, m, gw_router s')"
    by (auto simp: Let_def split: if_splits prod.splits)
  from handleJob_router [OF h] show ?thesis
  proof (elim disjE conjE)
    assume sent: "res = Inr (jr_next (gw_router s))" "gw_router s' = snd (awaitDeliveryReceipt (job_id fresh j) (gw_router s))"
    with h Deliver have "does_to_router E t e s (Sent (job_id fresh j))" unfolding does_to_router_def by auto
    with sent(2) show ?thesis by (metis router_do.simps(1))
  qed simp
next
  case (Respond header body fails)
  with assms obtain st calls m where h: "handleWorkerResponse (ge_verify E t) (ge_revoked E t) t header
      body fails (gw_manager s, gw_router s) = (st, calls, m, gw_router s')"
    by (auto simp: Let_def split: prod.splits)
  from response_router [OF h] show ?thesis
  proof (elim disjE exE conjE)
    fix b j tokenData
    assume *: "body = Some b" "authenticateWorker (ge_verify E t) (ge_revoked E t) header = Some tokenData"
      "map_of (own_members b) ''jobId'' = Some (JStr j)" "gw_router s' = acknowledgeJob j (gw_router s)"
    then have "does_to_router E t e s (Acked j)" by (simp add: acknowledges_def does_to_router_def Respond)
    with *(4) show ?thesis by (metis router_do.simps(2))
  qed simp
next
  case (Receipt_Timer p)
  with assms have "gw_router s' = router_do (Fired p) (gw_router s)" by auto
  then show ?thesis using does_to_router_free(1) by blast
next
  case Shut_Down
  with assms have "gw_router s' = router_do Stopped (gw_router s)" by auto
  then show ?thesis using does_to_router_free(2) by blast
qed (use assms in \<open>auto simp: stream_work_def stream_resume_def in_phase_def split: option.splits if_splits\<close>)

text \<open>The promises that are pending, and the ones that were fulfilled, by the deliveries and acknowledgements of a trace.\<close>

definition delivered :: "gateway_env \<Rightarrow> (ms \<times> gateway_event) list \<Rightarrow> nat \<Rightarrow> string \<Rightarrow> bool" where
  "delivered E es p i \<longleftrightarrow> (\<exists>as t e bs. es = as @ (t, e) # bs \<and> delivers E as t e p i)"

definition fulfilled :: "gateway_env \<Rightarrow> (ms \<times> gateway_event) list \<Rightarrow> nat \<Rightarrow> bool" where
  "fulfilled E es p \<longleftrightarrow> (\<exists>as t e bs i. es = as @ (t, e) # bs \<and> delivered E as p i \<and> acknowledges E t e i)"

definition receipts_ok :: "gateway_env \<Rightarrow> (ms \<times> gateway_event) list \<Rightarrow> job_router \<Rightarrow> bool" where
  "receipts_ok E es r \<longleftrightarrow> router_ok r \<and> (\<forall>p i. (p, i) \<in> set (jr_timers r) \<longrightarrow> delivered E es p i)
     \<and> (\<forall>p. (p, None) \<in> set (jr_settled r) \<longrightarrow> fulfilled E es p)"

lemma delivered_later: "delivered E es p i \<Longrightarrow> delivered E (es @ fs) p i"
  unfolding delivered_def by (metis append.assoc append_Cons)

lemma fulfilled_later: "fulfilled E es p \<Longrightarrow> fulfilled E (es @ fs) p"
  unfolding fulfilled_def by (metis append.assoc append_Cons)

lemma timers_of: "(p, i) \<in> set (jr_timers (router_do re r)) \<Longrightarrow> (p, i) \<in> set (jr_timers r) \<or> re = Sent i \<and> p = jr_next r"
  by (cases re) (auto simp: awaitDeliveryReceipt_def acknowledgeJob_def receipt_timeout_def
        shutdown_router_def settle_def clear_timer_def reject_all_timers split: option.splits)

lemma receipts_step:
  assumes ok: "receipts_ok E es (gw_router s)" and run: "gateway_run E es new_gateway = Some s"
    and step: "gateway_do E t e s = Some s'"
  shows "receipts_ok E (es @ [(t, e)]) (gw_router s')"
proof -
  note old = ok [unfolded receipts_ok_def]
  have keep: "receipts_ok E (es @ [(t, e)]) (gw_router s)"
    using old delivered_later fulfilled_later unfolding receipts_ok_def by blast
  from gateway_do_router [OF step] show ?thesis
  proof (elim disjE exE conjE)
    fix re assume re: "gw_router s' = router_do re (gw_router s)" "does_to_router E t e s re"
    have "delivered E (es @ [(t, e)]) p i" if timer: "(p, i) \<in> set (jr_timers (router_do re (gw_router s)))" for p i
    proof (cases "(p, i) \<in> set (jr_timers (gw_router s))")
      case True
      then show ?thesis using old delivered_later by blast
    next
      case False
      with timers_of [OF timer] have "re = Sent i" "p = jr_next (gw_router s)" by blast+
      with re(2) run have "delivers E es t e p i" unfolding does_to_router_def delivers_def by auto
      then show ?thesis unfolding delivered_def by blast
    qed
    moreover have "fulfilled E (es @ [(t, e)]) p" if settled: "(p, None) \<in> set (jr_settled (router_do re (gw_router s)))" for p
      using router_do_settled [OF settled]
    proof
      assume "(p, None) \<in> set (jr_settled (gw_router s))"
      then show ?thesis using old fulfilled_later by blast
    next
      assume "cause (gw_router s) re p None"
      then obtain j where j: "re = Acked j" "map_of (jr_pending (gw_router s)) j = Some p" by (auto simp: cause_def)
      then have "delivered E es p j" using old router_okD(6) by blast
      moreover have "acknowledges E t e j" using re(2) j(1) by (simp add: does_to_router_def)
      ultimately show ?thesis unfolding fulfilled_def by blast
    qed
    ultimately show ?thesis using old re(1) router_do_ok unfolding receipts_ok_def by simp
  qed (use keep in simp)
qed

lemma gateway_receipts: "gateway_run E es new_gateway = Some s \<Longrightarrow> receipts_ok E es (gw_router s)"
proof (induction es arbitrary: s rule: rev_induct)
  case Nil
  then show ?case by (auto simp: receipts_ok_def new_gateway_def) (simp_all add: new_router_def)
next
  case (snoc x es)
  obtain t e where x: "x = (t, e)" by force
  from snoc.prems obtain s0 where s0: "gateway_run E es new_gateway = Some s0" and step: "gateway_do E t e s0 = Some s"
    by (auto simp: gateway_run_append x split: option.splits)
  from receipts_step [OF snoc.IH [OF s0] s0 step] x show ?case by simp
qed

text \<open>
  C23: The delivery of a job is counted as successful (its promise fulfilled) only if, after that job was written to its
  worker's stream, a caller that authenticated with a valid, unrevoked worker token posted the id of that very job.
\<close>

theorem delivery_needs_authenticated_worker:
  assumes run: "gateway_run E es new_gateway = Some s" and p: "(p, None) \<in> set (jr_settled (gw_router s))"
  shows "\<exists>as t e bs t' e' cs i. es = as @ (t, e) # bs @ (t', e') # cs
    \<and> delivers E as t e p i \<and> acknowledges E t' e' i"
proof -
  from gateway_receipts [OF run] p have "fulfilled E es p" by (simp add: receipts_ok_def)
  then obtain as t e bs cs t' e' i where "es = (as @ (t, e) # bs) @ (t', e') # cs" "delivers E as t e p i" "acknowledges E t' e' i"
    unfolding fulfilled_def delivered_def by blast
  then show ?thesis by (metis append.assoc append_Cons)
qed

section \<open>Traces\<close>

definition sample_token :: jvalue where
  "sample_token = JObj [(''deploymentName'', JStr ''d1''), (''userId'', JStr ''u''),
     (''conversationId'', JStr ''c''), (''organizationId'', JStr ''o1'')]"

definition other_token :: jvalue where
  "other_token = JObj [(''deploymentName'', JStr ''d2''), (''userId'', JStr ''v''),
     (''conversationId'', JStr ''e''), (''organizationId'', JStr ''o2'')]"

definition sample_gateway_env :: gateway_env where
  "sample_gateway_env = \<lparr>ge_verify = (\<lambda>t tok. if tok = ''t1'' then Some sample_token
       else if tok = ''t2'' then Some other_token else None),
     ge_revoked = (\<lambda>t j. False), ge_sha = (\<lambda>x. x), ge_accepts = (\<lambda>t w. True), ge_staleMinutes = None\<rparr>"

definition connect_d1 :: "writer \<Rightarrow> gateway_event" where
  "connect_d1 h = Connect h (Some ''Bearer t1'') None False"

definition job_7 :: gateway_event where
  "job_7 = Deliver ''d1'' \<lparr>jb_id = Some ''7'', jb_data = None\<rparr> []"

definition post_7 :: "string \<Rightarrow> gateway_event" where
  "post_7 header = Respond (Some header) (Some (JObj [(''jobId'', JStr ''7''), (''received'', JBool True)])) False"

definition sample_up :: "(ms \<times> gateway_event) list" where
  "sample_up = [(0, connect_d1 1), (1, Pause_Done 1), (2, Work_Done 1), (3, Resume_Done 1)]"

definition holds_after :: "(ms \<times> gateway_event) list \<Rightarrow> (gateway \<Rightarrow> bool) \<Rightarrow> bool" where
  "holds_after es P = (case gateway_run sample_gateway_env es new_gateway of None \<Rightarrow> False | Some s \<Rightarrow> P s)"

lemma holds_afterD:
  "holds_after es P \<Longrightarrow> \<exists>s. gateway_run sample_gateway_env es new_gateway = Some s \<and> P s"
  by (auto simp: holds_after_def split: option.splits)

lemma sample_delivered: "holds_after (sample_up @ [(4, job_7), (5, post_7 ''Bearer t1'')])
    (\<lambda>s. map_of (gw_queues s) ''d1'' = Some False \<and> isConnected ''d1'' (gw_manager s)
       \<and> (0, None) \<in> set (jr_settled (gw_router s)))"
  by code_simp

text \<open>
  A stream that disconnects while its consumer is being registered leaves the consumer running:
  the handler goes on to resume the queue of a deployment that has no connection.
\<close>

lemma resumed_without_worker:
  "holds_after [(0, connect_d1 1), (1, Pause_Done 1), (2, Disconnect 1), (3, Work_Done 1), (4, Resume_Done 1)]
     (\<lambda>s. map_of (gw_queues s) ''d1'' = Some False \<and> \<not> isConnected ''d1'' (gw_manager s))"
  by code_simp

text \<open>
  A second stream that disconnects while it waits for the pause leaves the queue paused, although
  the first is connected: its worker gets no more jobs.
\<close>

lemma paused_with_worker:
  "holds_after (sample_up @ [(4, connect_d1 2), (5, Disconnect 2), (6, Pause_Done 2)])
     (\<lambda>s. map_of (gw_queues s) ''d1'' = Some True
        \<and> map_option fst (registered (gw_manager s) ''d1'') = Some 1
        \<and> (\<forall>st \<in> set (map snd (gw_streams s)). st_closed st \<or> st_phase st = Open))"
  by code_simp

text \<open>The acknowledgment of a job is not compared with the deployment of the worker that posts it.\<close>

lemma other_worker_acknowledges:
  "holds_after (sample_up @ [(4, job_7), (5, post_7 ''Bearer t2'')])
     (\<lambda>s. (0, None) \<in> set (jr_settled (gw_router s)))
   \<and> authenticateWorker (ge_verify sample_gateway_env 5) (ge_revoked sample_gateway_env 5) (Some ''Bearer t2'')
     = Some other_token \<and> str_field other_token ''deploymentName'' = Some ''d2''"
  by (intro conjI; code_simp)

lemma jobs_reach_their_worker_witness:
  "\<exists>s res out m r frame st.
     gateway_run sample_gateway_env sample_up new_gateway = Some s
     \<and> handleJob (\<lambda>_. None) (\<lambda>x. x) (\<lambda>_. True) [] 4 ''d1'' \<lparr>jb_id = Some ''7'', jb_data = None\<rparr>
         (gw_manager s, gw_router s) = (res, out, m, r)
     \<and> out = [Send 1 ''job'' frame] \<and> map_of (gw_streams s) 1 = Some st \<and> st_deploymentName st = ''d1''"
proof -
  have "holds_after sample_up (\<lambda>s. map_option fst (registered (gw_manager s) ''d1'') = Some 1)"
    by code_simp
  then obtain s where s: "gateway_run sample_gateway_env sample_up new_gateway = Some s"
    "map_option fst (registered (gw_manager s) ''d1'') = Some 1" using holds_afterD by blast
  then obtain c where c: "map_of (cm_connections (gw_manager s)) ''d1'' = Some c" "wc_writer c = 1"
    by (auto simp: registered_def)
  then obtain res m r frame where h: "handleJob (\<lambda>_. None) (\<lambda>x. x) (\<lambda>_. True) [] 4 ''d1''
      \<lparr>jb_id = Some ''7'', jb_data = None\<rparr> (gw_manager s, gw_router s) = (res, [Send 1 ''job'' frame], m, r)"
    by (simp add: handleJob_def getConnection_def verified_token_def run_job_token_def job_data_def
        sendSSE_def awaitDeliveryReceipt_def Let_def)
  from jobs_reach_their_worker [OF s(1) h] s(1) h show ?thesis by auto
qed

lemma delivery_needs_authenticated_worker_witness:
  "\<exists>as t e bs t' e' cs i. sample_up @ [(4, job_7), (5, post_7 ''Bearer t1'')] = as @ (t, e) # bs @ (t', e') # cs
     \<and> delivers sample_gateway_env as t e 0 i \<and> acknowledges sample_gateway_env t' e' i"
proof -
  from holds_afterD [OF sample_delivered] obtain s where
    "gateway_run sample_gateway_env (sample_up @ [(4, job_7), (5, post_7 ''Bearer t1'')]) new_gateway = Some s"
    "(0, None) \<in> set (jr_settled (gw_router s))" by blast
  then show ?thesis by (rule delivery_needs_authenticated_worker)
qed

section \<open>Disconnects\<close>

text \<open>
  What a disconnect does, by what is registered for the deployment: a stream that was replaced
  changes nothing but its own latch; the registered one is removed and the queue paused.
\<close>

lemma disconnect_outcome:
  assumes "map_of (gw_streams s) h = Some st" "\<not> st_cleaned st" "st_added st"
    and s': "gateway_do E t (Disconnect h) s = Some s'"
  shows "registered (gw_manager s) (st_deploymentName st) = Some (w, x) \<Longrightarrow> w \<noteq> h \<Longrightarrow>
           gw_manager s' = gw_manager s \<and> gw_queues s' = gw_queues s"
    and "registered (gw_manager s) (st_deploymentName st) = Some (h, x) \<Longrightarrow>
           registered (gw_manager s') = (registered (gw_manager s))(st_deploymentName st := None)
           \<and> gw_out s' = gw_out s @ [End h]
           \<and> (map_of (gw_queues s) (st_deploymentName st) \<noteq> None \<longrightarrow>
                map_of (gw_queues s') (st_deploymentName st) = Some True)"
  using assms
  by (auto simp: stream_abort_def runCleanup_def Let_def getConnection_def registered_def set_paused_def
      with_manager_def removeConnection_def jm_get_del jm_get_set set_stream_def split: option.splits)

section \<open>Responses act as the token\<close>

text \<open>
  \<open>vouched tok b v\<close>: the payload \<open>v\<close> that is made of the posted body \<open>b\<close>. The job id is taken out; the organisation is the one
  posted, or the token's if none is; the connection is the token's; the other members are as posted.
\<close>

definition vouched :: "jvalue \<Rightarrow> jvalue \<Rightarrow> jvalue \<Rightarrow> bool" where
  "vouched tok b v \<longleftrightarrow>
     field (Some v) ''jobId'' = None
     \<and> field (Some v) ''organizationId'' =
         (if truthy_value (field (Some tok) ''organizationId'') \<and> \<not> truthy_value (map_of (own_members b) ''organizationId'')
          then field (Some tok) ''organizationId'' else map_of (own_members b) ''organizationId'')
     \<and> (truthy_value (field (Some tok) ''connectionId'') \<and> is_object (field (Some v) ''platformMetadata'') \<longrightarrow>
         field (field (Some v) ''platformMetadata'') ''connectionId'' = field (Some tok) ''connectionId'')
     \<and> (\<forall>k. k \<notin> {''jobId'', ''organizationId'', ''platformMetadata''} \<longrightarrow> field (Some v) k = map_of (own_members b) k)"

definition acts_as :: "jvalue \<Rightarrow> jvalue option \<Rightarrow> backend_call \<Rightarrow> bool" where
  "acts_as tok body c \<longleftrightarrow> (let d = the (str_field tok ''deploymentName'') in case c of
      Update_Activity x \<Rightarrow> x = d | Extend_Deadlines x \<Rightarrow> x = d
    | Commit_Reply x ids v org \<Rightarrow> x = d \<and> (\<exists>b. body = Some b \<and> vouched tok b v)
    | Send_Response v \<Rightarrow> (\<exists>b. body = Some b \<and> vouched tok b v))"

text \<open>The job id a body posts, if it is one.\<close>

definition posted_job :: "jvalue option \<Rightarrow> string option" where
  "posted_job body =
     (case body of
        Some b \<Rightarrow> (case map_of (own_members b) ''jobId'' of Some (JStr j) \<Rightarrow> if j \<noteq> [] then Some j else None | _ \<Rightarrow> None)
      | None \<Rightarrow> None)"

text \<open>Of the deliveries only the one whose job id is posted settles, as successful.\<close>

definition settles_posted :: "jvalue option \<Rightarrow> job_router \<Rightarrow> job_router \<Rightarrow> bool" where
  "settles_posted body r r' \<longleftrightarrow> (\<forall>p x. (p, x) \<in> set (jr_settled r') \<longrightarrow> (p, x) \<in> set (jr_settled r)
     \<or> x = None \<and> (\<exists>j. posted_job body = Some j \<and> map_of (jr_pending r) j = Some p))"

lemma truthy_the: "truthy_value v \<Longrightarrow> Some (the v) = v"
  by (cases v) simp_all

lemma stamp_org_lookup:
  "map_of (stamp_org tok ms) k =
     (if k = ''organizationId'' \<and> truthy_value (field (Some tok) k) \<and> \<not> truthy_value (map_of ms k)
      then field (Some tok) k else map_of ms k)"
  by (auto simp: stamp_org_def Let_def jm_get_set truthy_the)

lemma stamp_connection_lookup: "k \<noteq> ''platformMetadata'' \<Longrightarrow> map_of (stamp_connection tok ms) k = map_of ms k"
  by (simp add: stamp_connection_def Let_def jm_get_set)

lemma stamped_vouched: "vouched tok b (JObj (stamp_connection tok (stamp_org tok (without_member ''jobId'' (own_members b)))))"
proof -
  have "truthy_value (field (Some tok) ''connectionId'') \<Longrightarrow>
      is_object (map_of (stamp_connection tok ns) ''platformMetadata'') \<Longrightarrow>
      field (map_of (stamp_connection tok ns) ''platformMetadata'') ''connectionId''
        = field (Some tok) ''connectionId''" for ns
    by (cases "map_of ns ''platformMetadata''" rule: is_object.cases)
      (auto simp: stamp_connection_def Let_def jm_get_set truthy_the split: if_splits option.splits)
  then show ?thesis by (simp add: vouched_def stamp_connection_lookup stamp_org_lookup)
qed

lemma response_calls_act:
  assumes "vouched tok b (JObj ms)" "d = the (str_field tok ''deploymentName'')"
  shows "\<forall>c \<in> set (snd (response_calls d fails ms)). acts_as tok (Some b) c"
  using assms by (auto simp: response_calls_def acts_as_def Let_def split: option.splits)

text \<open>The two shapes of an authenticated response: a body that cannot be read, and one that can.\<close>

lemma response_shape:
  assumes "authenticateWorker verify revoked header = Some tok"
  shows "\<exists>status calls. handleWorkerResponse verify revoked now header body fails (m, r) =
       (status, Update_Activity (the (str_field tok ''deploymentName'')) # calls,
        touchConnection now (the (str_field tok ''deploymentName'')) m,
        (case posted_job body of Some j \<Rightarrow> acknowledgeJob j r | None \<Rightarrow> r))
     \<and> ((status, calls) = (500, []) \<or> (\<exists>b. body = Some b \<and> (status, calls) = response_calls (the (str_field tok ''deploymentName'')) fails
          (stamp_connection tok (stamp_org tok (without_member ''jobId'' (own_members b))))))"
proof (cases "body = None \<or> body = Some JNull")
  case True
  with assms show ?thesis by (auto simp: handleWorkerResponse_def posted_job_def own_members_def Let_def)
next
  case False
  then obtain b where b: "body = Some b" "b \<noteq> JNull" by auto
  let ?d = "the (str_field tok ''deploymentName'')"
  let ?ms = "stamp_connection tok (stamp_org tok (without_member ''jobId'' (own_members b)))"
  have "handleWorkerResponse verify revoked now header body fails (m, r) =
      (fst (response_calls ?d fails ?ms), Update_Activity ?d # snd (response_calls ?d fails ?ms),
       touchConnection now ?d m, (case posted_job body of Some j \<Rightarrow> acknowledgeJob j r | None \<Rightarrow> r))"
    using assms b
    by (cases b) (auto simp: handleWorkerResponse_def posted_job_def Let_def case_prod_beta split: option.split json.split)
  then show ?thesis using b(1) by (metis prod.collapse)
qed


text \<open>The organisation that is stamped gives way to one that the worker names itself.\<close>

lemma worker_names_organization:
  "fst (snd (handleWorkerResponse (\<lambda>_. Some sample_token) (\<lambda>_. False) 0 (Some ''Bearer t1'')
       (Some (JObj [(''organizationId'', JStr ''o2''), (''error'', JStr ''e''), (''messageId'', JStr ''m'')]))
       False (new_manager, new_router)))
   = [Update_Activity ''d1'',
      Commit_Reply ''d1'' [''m''] (JObj [(''organizationId'', JStr ''o2''), (''error'', JStr ''e''),
        (''messageId'', JStr ''m'')]) (Some (JStr ''o2''))]"
  by code_simp

end
