(* ===== verification/Worker_Turns.thy ===== *)
theory Worker_Turns
  imports Worker_Gateway Turn_Liveness
begin

text \<open>
  The responses of workers and the turns they answer: the call \<^verbatim>\<open>commitTerminalReply\<close> that
  \<^verbatim>\<open>handleWorkerResponse\<close> makes (\<^verbatim>\<open>Worker_Gateway\<close>) as a transaction on the table
  (\<^verbatim>\<open>Turn_Liveness\<close>).
\<close>

text \<open>A deployment name without the separator of the marker keys.\<close>

definition plain_name :: "string \<Rightarrow> bool" where
  "plain_name d \<longleftrightarrow> CHR '':'' \<notin> set d"

definition plain_markers :: "turn_db \<Rightarrow> bool" where
  "plain_markers db \<longleftrightarrow> (\<forall>r \<in> set (marker_rows db). \<forall>t. asTurnRouting (r_input r) = Some t
     \<longrightarrow> plain_name (tr_deploymentName t))"

lemma marker_key_inj:
  assumes "plain_name d" "plain_name d'" "turnMarkerKey d m = turnMarkerKey d' m'"
  shows "d = d'" "m = m'"
proof -
  have cut: "takeWhile (\<lambda>c. c \<noteq> CHR '':'') (turnMarkerKey e n) = e" if "plain_name e" for e n
    using that by (subst turnMarkerKey_def, subst takeWhile_append2) (auto simp: plain_name_def)
  from cut [OF assms(1), of m] cut [OF assms(2), of m'] assms(3) show "d = d'" by simp
  with assms(3) show "m = m'" by (simp add: turnMarkerKey_def)
qed

lemma commit_markers:
  "set (marker_rows (snd (commitTerminalReply t d ids payload org db))) \<supseteq>
     {r \<in> set (marker_rows db). \<forall>m \<in> set ids. r_key r \<noteq> Some (turnMarkerKey d m)}"
  by (auto simp: commitTerminalReply_def discharge_delete delete_where_def Let_def marker_rows_insert
      case_prod_beta has_key_def) (auto simp: marker_rows_def)

lemma calls_commit: "Commit_Reply x ids p org \<in> set (snd (response_calls d fails ms)) \<Longrightarrow> x = d"
  by (auto simp: response_calls_def Let_def split: option.splits if_splits)

lemma commit_deployment:
  assumes post: "handleWorkerResponse verify revoked now header body fails (m, r) = (status, calls, m', r')"
    and call: "Commit_Reply d ids payload org \<in> set calls"
  shows "\<exists>tok. authenticateWorker verify revoked header = Some tok \<and> d = the (str_field tok ''deploymentName'')"
proof (cases "authenticateWorker verify revoked header")
  case None
  with post call show ?thesis by (simp add: handleWorkerResponse_def)
next
  case (Some tok)
  let ?d = "the (str_field tok ''deploymentName'')"
  from response_shape [OF Some, of now body fails m r] post obtain cs where "calls = Update_Activity ?d # cs"
    and cs: "(status, cs) = (500, []) \<or>
      (\<exists>ms. (status, cs) = response_calls ?d fails (stamp_connection tok (stamp_org tok ms)))" by auto
  with call have "Commit_Reply d ids payload org \<in> set cs" by simp
  with cs have "d = ?d" using calls_commit by (metis empty_iff empty_set snd_conv)
  with Some show ?thesis by simp
qed

text \<open>
  C21: A worker answers only turns of its own deployment: a marker that a terminal response takes
  away was armed for the deployment of the token that posted it, and for a message it names.
\<close>

theorem reply_answers_own_turns:
  assumes post: "handleWorkerResponse verify revoked now header body fails (m, r) = (status, calls, m', r')"
    and call: "Commit_Reply d ids payload org \<in> set calls"
    and db: "markers_ok db" "plain_markers db" "plain_name d"
    and x: "x \<in> set (marker_rows db)"
      "x \<notin> set (marker_rows (snd (commitTerminalReply t d ids row_payload row_org db)))"
  shows "\<exists>tok turn. authenticateWorker verify revoked header = Some tok
     \<and> asTurnRouting (r_input x) = Some turn
     \<and> tr_deploymentName turn = the (str_field tok ''deploymentName'') \<and> tr_messageId turn \<in> set ids"
proof -
  from commit_deployment [OF post call] obtain tok where tok: "authenticateWorker verify revoked header = Some tok"
    "d = the (str_field tok ''deploymentName'')" by blast
  from x commit_markers [of db ids d t row_payload row_org] obtain i where i: "i \<in> set ids"
    "r_key x = Some (turnMarkerKey d i)" by blast
  from db(1) x(1) obtain turn where turn: "asTurnRouting (r_input x) = Some turn"
    "r_key x = Some (turnMarkerKey (tr_deploymentName turn) (tr_messageId turn))"
    by (auto simp: markers_ok_def marker_ok_def)
  with db(2) x(1) have "plain_name (tr_deploymentName turn)" by (auto simp: plain_markers_def)
  from marker_key_inj [OF this db(3), of "tr_messageId turn" i] turn(2) i(2)
  have "tr_deploymentName turn = d" "tr_messageId turn = i" by simp_all
  with tok turn(1) i(1) show ?thesis by auto
qed

definition turn_token :: jvalue where
  "turn_token = JObj [(''deploymentName'', JStr ''d''), (''userId'', JStr ''u'')]"

definition turn_reply :: jvalue where
  "turn_reply = JObj [(''messageId'', JStr ''m''), (''error'', JStr ''e'')]"

lemma turn_reply_calls:
  "handleWorkerResponse (\<lambda>_. Some turn_token) (\<lambda>_. False) 0 (Some ''Bearer t'') (Some turn_reply) False
     (new_manager, new_router)
   = (200, [Update_Activity ''d'', Commit_Reply ''d'' [''m''] turn_reply None], new_manager, new_router)"
  by code_simp

lemma sample_marker:
  "\<exists>x. q_runs sample_armed = [x] \<and> r_input x = routing_json sample_routing \<and> r_key x = Some ''d:m''
     \<and> r_status x = Pending \<and> r_queue x = turn_timeout_queue \<and> is_marker x \<and> r_expires x = None"
  unfolding sample_armed_def
  by (simp add: armTurnTimeout_def send_def sendWithDisposition_def sample_process_def marker_options_def
      insert_or_join_def insert_run_def key_taken_def empty_system_def Let_def new_run_def
      sample_routing_def turnMarkerKey_def is_marker_def turn_timeout_queue_def classifyQueue_def starts_with_def)

lemma sample_turn: "asTurnRouting (routing_json sample_routing) = Some sample_routing"
  by (simp add: routing_json_def asTurnRouting_def sample_routing_def)

lemma reply_answers_own_turns_witness:
  "\<exists>x. x \<in> set (marker_rows sample_armed)
     \<and> x \<notin> set (marker_rows (snd (commitTerminalReply 5 ''d'' [''m''] Not_An_Object None sample_armed)))
     \<and> (\<exists>turn. asTurnRouting (r_input x) = Some turn \<and> tr_deploymentName turn = ''d'')"
proof -
  obtain x where x: "q_runs sample_armed = [x]" "r_input x = routing_json sample_routing"
    "r_key x = Some ''d:m''" "r_status x = Pending" "r_queue x = turn_timeout_queue" "is_marker x"
    "r_expires x = None" using sample_marker by blast
  have rows: "marker_rows sample_armed = [x]" using x by (simp add: marker_rows_def)
  have ok: "markers_ok sample_armed" "plain_markers sample_armed"
    using x sample_turn unfolding markers_ok_def plain_markers_def rows marker_ok_def
    by (simp_all add: sample_routing_def turnMarkerKey_def plain_name_def)
  have "has_key (turnMarkerKey ''d'' ''m'') x" using x by (simp add: has_key_def turnMarkerKey_def)
  then have gone: "x \<notin> set (marker_rows (snd (commitTerminalReply 5 ''d'' [''m''] Not_An_Object None sample_armed)))"
    using x by (simp add: commitTerminalReply_def delete_where_def Let_def marker_rows_insert)
      (simp add: marker_rows_def)
  have auth: "authenticateWorker (\<lambda>_. Some turn_token) (\<lambda>_. False) (Some ''Bearer t'') = Some turn_token"
    and name: "the (str_field turn_token ''deploymentName'') = ''d''" by code_simp+
  have "plain_name ''d''" by (simp add: plain_name_def)
  from reply_answers_own_turns [OF turn_reply_calls _ ok this _ gone, of turn_reply None] rows gone
  show ?thesis by (auto simp: auth name)
qed

end
