(* ===== verification/Queue_Producer.thy ===== *)
theory Queue_Producer
  imports Runs_Queue
begin

text \<open>
  Putting chat messages on the queue,
  \<^verbatim>\<open>packages/server/src/gateway/infrastructure/queue/queue-producer.ts\<close>. The four identifying
  fields of a payload are a record; the rest of the payload is the parameter type of the queue.
  Numbers of the options are naturals or integers, so that \<^verbatim>\<open>x || d\<close> is \<open>or_default\<close>.
\<close>

section \<open>Operations\<close>

record 'p message =
  mp_platform :: string
  mp_channelId :: string
  mp_conversationId :: string
  mp_messageId :: string
  mp_data :: "'p queue_payload"

record producer_options =
  po_priority :: "int option"
  po_retryLimit :: "nat option"
  po_retryDelay :: "int option"
  po_expireInSeconds :: "int option"
  po_singletonKey :: "string option"
  po_durableSingleton :: bool

record producer =
  pd_queue :: queue_process
  pd_isInitialized :: bool

datatype producer_error = Not_Initialized | No_Message_Id | Queue_Error queue_error

definition or_default :: "'a :: zero option \<Rightarrow> 'a \<Rightarrow> 'a" where
  "or_default x d = (case x of None \<Rightarrow> d | Some v \<Rightarrow> if v = 0 then d else v)"

definition start_producer :: "producer \<Rightarrow> producer" where
  "start_producer p = p\<lparr>pd_isInitialized := True\<rparr>"

definition stop_producer :: "producer \<Rightarrow> producer" where
  "stop_producer p = p\<lparr>pd_isInitialized := False\<rparr>"

definition raw_key :: "'p message \<Rightarrow> string \<Rightarrow> string" where
  "raw_key m messageId = ''message-'' @ mp_platform m @ ''-'' @ mp_channelId m @ ''-''
     @ mp_conversationId m @ ''-'' @ messageId"

definition dash_colons :: "string \<Rightarrow> string" where
  "dash_colons s = map (\<lambda>c. if c = CHR '':'' then CHR ''-'' else c) s"

definition message_options :: "producer_options option \<Rightarrow> string \<Rightarrow> bool \<Rightarrow> queue_options" where
  "message_options options key durable =
     (let get = (\<lambda>f. case options of None \<Rightarrow> None | Some p \<Rightarrow> f p) in
      \<lparr>qo_singletonKey = Some (dash_colons key),
       qo_retryLimit = Some (or_default (case options of None \<Rightarrow> None | Some p \<Rightarrow> po_retryLimit p) 3),
       qo_delayMs = None,
       qo_priority = Some (or_default (get po_priority) 0),
       qo_retryDelay = Some (or_default (get po_retryDelay) 30),
       qo_expireInSeconds = Some (or_default (get po_expireInSeconds) 300),
       qo_actionKey = None, qo_durable = durable\<rparr>)"

definition enqueueMessage ::
    "producer \<Rightarrow> ms \<Rightarrow> 'p message \<Rightarrow> producer_options option \<Rightarrow> 'p queue_db
       \<Rightarrow> producer_error + string \<times> 'p queue_db" where
  "enqueueMessage p now m options db =
     (if \<not> pd_isInitialized p then Inl Not_Initialized
      else
       (let messageId = (if mp_messageId m = [] then show_int now else mp_messageId m);
            key = (case (case options of None \<Rightarrow> None | Some q \<Rightarrow> po_singletonKey q) of
                     None \<Rightarrow> raw_key m messageId | Some k \<Rightarrow> k);
            durable = (case options of None \<Rightarrow> False | Some q \<Rightarrow> po_durableSingleton q) in
        case send (pd_queue p) now ''messages'' (mp_data m) (message_options options key durable) db of
          Inl e \<Rightarrow> Inl (Queue_Error e)
        | Inr (jobId, db') \<Rightarrow> Inr (if jobId = [] then ''job-sent'' else jobId, db')))"

definition enqueueDurableMessage ::
    "producer \<Rightarrow> ms \<Rightarrow> 'p message \<Rightarrow> producer_options option \<Rightarrow> 'p queue_db
       \<Rightarrow> producer_error + disposition \<times> 'p queue_db" where
  "enqueueDurableMessage p now m options db =
     (if \<not> pd_isInitialized p then Inl Not_Initialized
      else if mp_messageId m = [] then Inl No_Message_Id
      else
       (case sendDurable (pd_queue p) now ''messages'' (mp_data m)
               (message_options options (raw_key m (mp_messageId m)) False) db of
          Inl e \<Rightarrow> Inl (Queue_Error e) | Inr x \<Rightarrow> Inr x))"

definition isHealthy :: "producer \<Rightarrow> bool \<Rightarrow> bool" where
  "isHealthy p queueHealthy \<longleftrightarrow> pd_isInitialized p \<and> queueHealthy"

section \<open>What enqueueing does\<close>

definition message_key :: "'p message \<Rightarrow> string" where
  "message_key m = dash_colons (raw_key m (mp_messageId m))"

lemma message_key_nonempty [simp]: "message_key m \<noteq> []"
  by (simp add: message_key_def dash_colons_def raw_key_def)

lemma latest_active_row:
  assumes "key_taken (Some k) db"
  shows "\<exists>r \<in> set (q_runs db). r_key r = Some k \<and> is_active r \<and> latest_active k db = Some (r_id r)"
proof -
  let ?rs = "filter (\<lambda>r. r_key r = Some k \<and> is_active r) (q_runs db)"
  have "?rs \<noteq> []" using assms by (auto simp: key_taken_def list_ex_iff filter_empty_conv)
  then obtain r rs where rs: "?rs = r # rs" by (meson list.exhaust)
  have "foldl max i is \<in> insert i (set is)" for i and "is" :: "nat list"
    by (induction "is" arbitrary: i) (auto simp: max_def)
  from this [of "r_id r" "map r_id rs"] have "foldl max (r_id r) (map r_id rs) \<in> r_id ` set ?rs"
    unfolding rs by auto
  then obtain q where q: "q \<in> set ?rs" "foldl max (r_id r) (map r_id rs) = r_id q" by auto
  from q(2) have "latest_active k db = Some (r_id q)" unfolding latest_active_def rs by simp
  with q(1) show ?thesis by auto
qed

lemma show_int_nonempty [simp]: "show_int n \<noteq> []"
  by (subst show_int.simps) (simp add: Let_def)

text \<open>
  A message that is enqueued without options of its own is either appended as one pending run
  that carries its payload, or joins the unfinished run with its key, and then nothing changes.
\<close>

theorem enqueue_outcome:
  assumes "pd_isInitialized p" "qp_connected (pd_queue p)" "\<not> qp_shuttingDown (pd_queue p)"
    and "mp_messageId m \<noteq> []"
  shows "\<exists>jobId db'. enqueueMessage p now m None db = Inr (jobId, db') \<and>
     (if key_taken (Some (message_key m)) db
      then db' = db \<and> (\<exists>r \<in> set (q_runs db). r_key r = Some (message_key m) \<and> is_active r
             \<and> jobId = show_int (int (r_id r)))
      else (\<exists>r. q_runs db' = q_runs db @ [r] \<and> r_input r = qd_body (mp_data m)
             \<and> r_key r = Some (message_key m) \<and> r_queue r = ''messages'' \<and> r_type r = Chat_Message
             \<and> r_status r = Pending \<and> r_max r = 3 \<and> r_run_at r = now
             \<and> r_expires r = Some (now + 300000) \<and> jobId = show_int (int (r_id r))))"
proof (cases "key_taken (Some (message_key m)) db")
  case True
  then obtain r where r: "r \<in> set (q_runs db)" "r_key r = Some (message_key m)" "is_active r"
    "latest_active (message_key m) db = Some (r_id r)" using latest_active_row by blast
  have "enqueueMessage p now m None db = Inr (show_int (int (r_id r)), db)"
    using assms True r(4)
    by (simp add: enqueueMessage_def send_def sendWithDisposition_def insert_or_join_def insert_run_def
        message_options_def Let_def flip: message_key_def)
  with True r show ?thesis by auto
next
  case False
  then show ?thesis using assms
    by (simp add: enqueueMessage_def send_def sendWithDisposition_def insert_or_join_def insert_run_def
        message_options_def or_default_def new_run_def classifyQueue_def starts_with_def Let_def
        flip: message_key_def)
qed

definition sample_producer :: producer where
  "sample_producer = \<lparr>pd_queue = sample_process ''p'', pd_isInitialized = True\<rparr>"

definition sample_message :: "string \<Rightarrow> string \<Rightarrow> string \<Rightarrow> string \<Rightarrow> string \<Rightarrow> string message" where
  "sample_message org channel conversation i body = \<lparr>mp_platform = ''slack'', mp_channelId = channel,
     mp_conversationId = conversation, mp_messageId = i,
     mp_data = \<lparr>qd_organizationId = Some org, qd_body = body\<rparr>\<rparr>"

lemma enqueue_outcome_witness:
  "\<exists>jobId db' r. enqueueMessage sample_producer 5 (sample_message ''o'' ''c'' ''t'' ''1'' ''hi'') None
       (qs_db (empty_system 0)) = Inr (jobId, db') \<and> q_runs db' = [r] \<and> r_input r = ''hi''"
proof -
  let ?m = "sample_message ''o'' ''c'' ''t'' ''1'' ''hi''" and ?db = "qs_db (empty_system 0) :: string queue_db"
  have "\<not> key_taken (Some (message_key ?m)) ?db"
    by (simp add: key_taken_def empty_system_def)
  moreover have "q_runs ?db = []" by (simp add: empty_system_def)
  moreover have "pd_isInitialized sample_producer" "qp_connected (pd_queue sample_producer)"
    "\<not> qp_shuttingDown (pd_queue sample_producer)" "mp_messageId ?m \<noteq> []" "qd_body (mp_data ?m) = ''hi''"
    by (simp_all add: sample_producer_def sample_process_def sample_message_def)
  ultimately show ?thesis
    using enqueue_outcome [of sample_producer ?m 5 ?db] by auto
qed

text \<open>
  The fields of the key are joined by a character they may contain, and colons become that
  character: messages of two conversations, also of two organisations, can have one key, and the
  second is reported as queued but dropped.
\<close>

lemma other_conversation_dropped:
  "case enqueueMessage sample_producer 5 (sample_message ''o1'' ''C:1'' ''2'' ''7'' ''first'') None
          (qs_db (empty_system 0)) of
     Inl e \<Rightarrow> False
   | Inr (j1, db1) \<Rightarrow>
       (case enqueueMessage sample_producer 6 (sample_message ''o2'' ''C'' ''1-2'' ''7'' ''second'') None db1 of
          Inl e \<Rightarrow> False | Inr (j2, db2) \<Rightarrow> j2 = j1 \<and> map r_input (q_runs db2) = [''first''])"
  by code_simp

text \<open>A durable message is enqueued once, with a receipt.\<close>

lemma durable_needs_id: "mp_messageId m = [] \<Longrightarrow> pd_isInitialized p \<Longrightarrow>
    enqueueDurableMessage p now m options db = Inl No_Message_Id"
  by (simp add: enqueueDurableMessage_def)

end
