(* ===== verification/Json_Equal.thy ===== *)
theory Json_Equal
  imports Worker_Token "HOL-Library.List_Lexorder" "HOL-Library.Char_ord" "HOL-Library.Countable"
begin

text \<open>
  The structural equality of \<^verbatim>\<open>packages/cli/src/commands/_lib/apply/diff.ts\<close>: \<^verbatim>\<open>canonical\<close> and
  \<^verbatim>\<open>deepEqual\<close>. \<^verbatim>\<open>JSON.stringify\<close> on strings is \<open>json_quote\<close>, on numbers the parameter
  \<open>shownum\<close>; the order of \<^verbatim>\<open>localeCompare\<close> is that of the sort keys \<open>collate\<close>. The second half
  proves that two values have the same canonical text exactly if they are the same up to the
  order of object members.
\<close>

section \<open>Canonical text\<close>

definition hex_digit :: "nat \<Rightarrow> char" where
  "hex_digit n = (if n < 10 then char_of (48 + n) else char_of (87 + n))"

text \<open>The escapes of \<^verbatim>\<open>JSON.stringify\<close>: quote, backslash and the control characters.\<close>

definition escape :: "char \<Rightarrow> string" where
  "escape c = (let n = code c in
     if n = 34 then [CHR 0x5C, c]
     else if n = 92 then [CHR 0x5C, c]
     else if n = 8 then [CHR 0x5C, CHR ''b'']
     else if n = 9 then [CHR 0x5C, CHR ''t'']
     else if n = 10 then [CHR 0x5C, CHR ''n'']
     else if n = 12 then [CHR 0x5C, CHR ''f'']
     else if n = 13 then [CHR 0x5C, CHR ''r'']
     else if n < 32 then [CHR 0x5C, CHR ''u'', CHR ''0'', CHR ''0'', hex_digit (n div 16), hex_digit (n mod 16)]
     else [c])"

definition json_quote :: "string \<Rightarrow> string" where
  "json_quote s = CHR 0x22 # concat (map escape s) @ [CHR 0x22]"

fun canonical_value ::
    "(string \<Rightarrow> 'k :: linorder) \<Rightarrow> (rat \<Rightarrow> string) \<Rightarrow> jvalue \<Rightarrow> string" where
  "canonical_value collate shownum JNull = ''null''"
| "canonical_value collate shownum (JBool b) = (if b then ''true'' else ''false'')"
| "canonical_value collate shownum (JNum n) = shownum n"
| "canonical_value collate shownum (JStr s) = json_quote s"
| "canonical_value collate shownum (JArr xs) =
     ''['' @ join '','' (map (canonical_value collate shownum) xs) @ '']''"
| "canonical_value collate shownum (JObj ms) =
     ''{'' @ join '',''
       (map (\<lambda>(k, v). json_quote k @ '':'' @ v)
          (sort_key (\<lambda>(k, v). collate k)
             (map (\<lambda>(k, v). (k, canonical_value collate shownum v)) ms))) @ ''}''"

definition canonical ::
    "(string \<Rightarrow> 'k :: linorder) \<Rightarrow> (rat \<Rightarrow> string) \<Rightarrow> jvalue option \<Rightarrow> string" where
  "canonical collate shownum v =
     (case v of None \<Rightarrow> ''null'' | Some x \<Rightarrow> canonical_value collate shownum x)"

definition deepEqual ::
    "(string \<Rightarrow> 'k :: linorder) \<Rightarrow> (rat \<Rightarrow> string) \<Rightarrow> jvalue option \<Rightarrow> jvalue option \<Rightarrow> bool" where
  "deepEqual collate shownum a b \<longleftrightarrow> canonical collate shownum a = canonical collate shownum b"

section \<open>The same value\<close>

inductive same_value :: "jvalue \<Rightarrow> jvalue \<Rightarrow> bool" where
  same_null: "same_value JNull JNull"
| same_bool: "same_value (JBool b) (JBool b)"
| same_num: "same_value (JNum n) (JNum n)"
| same_str: "same_value (JStr s) (JStr s)"
| same_arr: "list_all2 same_value xs ys \<Longrightarrow> same_value (JArr xs) (JArr ys)"
| same_obj: "(\<And>k. rel_option same_value (map_of ms k) (map_of ns k)) \<Longrightarrow> same_value (JObj ms) (JObj ns)"
monos list.rel_mono option.rel_mono

text \<open>An object has each member once.\<close>

fun wf_value :: "jvalue \<Rightarrow> bool" where
  "wf_value (JArr xs) = list_all wf_value xs"
| "wf_value (JObj ms) = (distinct (map fst ms) \<and> list_all (\<lambda>(k, v). wf_value v) ms)"
| "wf_value v = True"

text \<open>The value with its members in the order of their names.\<close>

fun sorted_value :: "(string \<Rightarrow> 'k :: linorder) \<Rightarrow> jvalue \<Rightarrow> jvalue" where
  "sorted_value collate (JArr xs) = JArr (map (sorted_value collate) xs)"
| "sorted_value collate (JObj ms) =
     JObj (sort_key (\<lambda>(k, v). collate k) (map (\<lambda>(k, v). (k, sorted_value collate v)) ms))"
| "sorted_value collate v = v"

fun printed :: "(rat \<Rightarrow> string) \<Rightarrow> jvalue \<Rightarrow> string" where
  "printed shownum JNull = ''null''"
| "printed shownum (JBool b) = (if b then ''true'' else ''false'')"
| "printed shownum (JNum n) = shownum n"
| "printed shownum (JStr s) = json_quote s"
| "printed shownum (JArr xs) = ''['' @ join '','' (map (printed shownum) xs) @ '']''"
| "printed shownum (JObj ms) =
     ''{'' @ join '','' (map (\<lambda>(k, v). json_quote k @ '':'' @ printed shownum v) ms) @ ''}''"

section \<open>Printing is injective\<close>

definition number_chars :: "char set" where
  "number_chars = set ''0123456789+-.e''"

definition num_ok :: "(rat \<Rightarrow> string) \<Rightarrow> bool" where
  "num_ok shownum \<longleftrightarrow> inj shownum \<and> (\<forall>n. shownum n \<noteq> [] \<and> set (shownum n) \<subseteq> number_chars)"

text \<open>What may follow a value in a text: nothing, or a delimiter.\<close>

fun delimited :: "string \<Rightarrow> bool" where
  "delimited [] = True"
| "delimited (c # cs) = (c \<in> set '',]}'')"

text \<open>Reading one escape back, to see that no escape is a prefix of another.\<close>

definition hex_value :: "char \<Rightarrow> nat" where
  "hex_value c = (if code c < 58 then code c - 48 else code c - 87)"

definition unescape :: "string \<Rightarrow> char \<times> string" where
  "unescape s = (let c = hd s; d = hd (tl s) in
     if code c \<noteq> 92 then (c, tl s)
     else if d = CHR ''u'' then (char_of (16 * hex_value (s ! 4) + hex_value (s ! 5)), drop 6 s)
     else if d = CHR ''b'' then (char_of (8 :: nat), drop 2 s)
     else if d = CHR ''t'' then (char_of (9 :: nat), drop 2 s)
     else if d = CHR ''n'' then (char_of (10 :: nat), drop 2 s)
     else if d = CHR ''f'' then (char_of (12 :: nat), drop 2 s)
     else if d = CHR ''r'' then (char_of (13 :: nat), drop 2 s)
     else (d, drop 2 s))"

lemma hex_value_digit: "n < 16 \<Longrightarrow> hex_value (hex_digit n) = n"
  by (simp add: hex_value_def hex_digit_def code_def)

lemma char_code: "code c = n \<Longrightarrow> char_of n = c"
  by (auto simp: code_def)

lemma escape_head: "escape c = w # ws \<Longrightarrow> w \<noteq> CHR 0x22"
  by (auto simp: escape_def Let_def code_def split: if_splits)

lemma escape_nonempty [simp]: "escape c \<noteq> []"
  by (simp add: escape_def Let_def)

lemma unescape_escape: "unescape (escape c @ x) = (c, x)"
proof -
  have bs: "code (CHR 0x5C) = 92" by (simp add: code_def)
  consider "code c = 34" | "code c = 92" | "code c = 8" | "code c = 9" | "code c = 10" | "code c = 12"
    | "code c = 13" | "code c < 32" "code c \<notin> {8, 9, 10, 12, 13}" | "32 \<le> code c" "code c \<notin> {34, 92}"
    by fastforce
  then show ?thesis
  proof cases
    case 1
    have "char_of (34 :: nat) = CHR 0x22" by code_simp
    with 1 char_code have "c = CHR 0x22" by metis
    then show ?thesis by (simp add: escape_def unescape_def code_def)
  next
    case 2
    have "char_of (92 :: nat) = CHR 0x5C" by code_simp
    with 2 char_code have "c = CHR 0x5C" by metis
    then show ?thesis by (simp add: escape_def unescape_def code_def)
  next
    case 8
    have "code c div 16 < 16" "code c mod 16 < 16" using 8(1) by simp_all
    then have "char_of (16 * (code c div 16) + code c mod 16) = c" using char_code [of c] by simp
    with 8 show ?thesis by (simp add: escape_def unescape_def bs Let_def hex_value_digit)
  next
    case 9
    then show ?thesis by (simp add: escape_def unescape_def Let_def)
  qed (auto simp: escape_def unescape_def bs Let_def intro!: char_code)
qed

lemma escape_prefix: "escape c @ x = escape d @ y \<Longrightarrow> c = d \<and> x = y"
  by (metis unescape_escape prod.inject)

lemma quote_prefix: "json_quote s @ x = json_quote t @ y \<Longrightarrow> s = t \<and> x = y"
proof -
  have "concat (map escape s) @ CHR 0x22 # x = concat (map escape t) @ CHR 0x22 # y \<Longrightarrow> s = t \<and> x = y"
  proof (induction s arbitrary: t)
    case Nil
    then show ?case
      by (cases t; cases "escape (hd t)") (auto dest: escape_head)
  next
    case (Cons c s)
    then obtain d t' where t: "t = d # t'"
      by (cases t; cases "escape c") (auto dest: escape_head)
    with Cons.prems have "escape c @ (concat (map escape s) @ CHR 0x22 # x)
        = escape d @ (concat (map escape t') @ CHR 0x22 # y)" by simp
    from escape_prefix [OF this] Cons.IH [of t'] t show ?case by simp
  qed
  then show "json_quote s @ x = json_quote t @ y \<Longrightarrow> s = t \<and> x = y" by (simp add: json_quote_def)
qed

text \<open>A bracketed list of printed elements, for elements whose text ends where a delimiter begins.\<close>

definition cuts :: "('a \<Rightarrow> string) \<Rightarrow> 'a \<Rightarrow> bool" where
  "cuts f a \<longleftrightarrow> f a \<noteq> [] \<and> hd (f a) \<notin> set '',]}''
     \<and> (\<forall>b x y. f a @ x = f b @ y \<longrightarrow> delimited x \<longrightarrow> delimited y \<longrightarrow> a = b \<and> x = y)"

definition rest :: "('a \<Rightarrow> string) \<Rightarrow> 'a list \<Rightarrow> string \<Rightarrow> string" where
  "rest f xs x = concat (map (\<lambda>a. CHR '','' # f a) xs) @ x"

lemma join_rest: "join '','' (map f (a # as)) @ x = f a @ rest f as x"
  by (induction as arbitrary: a) (simp_all add: rest_def)

lemma rest_delimited: "delimited x \<Longrightarrow> delimited (rest f as x)"
  by (cases as) (simp_all add: rest_def)

lemma rest_inj:
  assumes "\<forall>a \<in> set as. cuts f a" "rest f as (close # x) = rest f bs (close # y)" "close \<in> set '']}''"
  shows "as = bs \<and> x = y"
  using assms(1,2)
proof (induction as arbitrary: bs)
  case Nil
  then show ?case using assms(3) by (cases bs) (auto simp: rest_def)
next
  case (Cons a as)
  then obtain b bs' where bs: "bs = b # bs'" using assms(3) by (cases bs) (auto simp: rest_def)
  have d: "delimited (rest f zs (close # z))" for zs z
    using assms(3) by (intro rest_delimited) auto
  have "f a @ rest f as (close # x) = f b @ rest f bs' (close # y)"
    using Cons.prems(2) by (simp add: bs rest_def)
  with Cons.prems(1) d have "a = b" "rest f as (close # x) = rest f bs' (close # y)"
    by (auto simp: cuts_def)
  with Cons.IH [of bs'] Cons.prems(1) show ?case by (simp add: bs)
qed

lemma head_not_close:
  "f b \<noteq> [] \<Longrightarrow> hd (f b) \<notin> set '',]}'' \<Longrightarrow> close \<in> set '']}'' \<Longrightarrow>
     join '','' (map f (b # bs)) @ z \<noteq> close # x"
  unfolding join_rest by (cases "f b") auto

lemma joined_inj:
  assumes "\<forall>a \<in> set as. cuts f a" "\<forall>b \<in> set bs. f b \<noteq> [] \<and> hd (f b) \<notin> set '',]}''"
    and eq: "join '','' (map f as) @ close # x = join '','' (map f bs) @ close # y" and close: "close \<in> set '']}''"
  shows "as = bs \<and> x = y"
proof (cases "as = [] \<or> bs = []")
  case True
  have "zs = []" if "close # u = join '','' (map f zs) @ close # w"
    "\<forall>b \<in> set zs. f b \<noteq> [] \<and> hd (f b) \<notin> set '',]}''" for zs u w
  proof (rule ccontr)
    assume "zs \<noteq> []"
    then obtain b zs' where zs: "zs = b # zs'" by (cases zs) simp_all
    have "join '','' (map f (b # zs')) @ close # w \<noteq> close # u"
      using that(2) zs close by (intro head_not_close) auto
    with that(1) show False unfolding zs by simp
  qed
  note empty = this
  have "bs = []" if "as = []"
    by (rule empty [of x bs y, OF _ assms(2)]) (use eq that in simp)
  moreover have "as = []" if "bs = []"
  proof (rule empty [of y as x])
    show "close # y = join '','' (map f as) @ close # x" using eq [symmetric] that by simp
    show "\<forall>b \<in> set as. f b \<noteq> [] \<and> hd (f b) \<notin> set '',]}''" using assms(1) by (auto simp: cuts_def)
  qed
  ultimately have "as = [] \<and> bs = []" using True by blast
  with eq show ?thesis by simp
next
  case False
  then obtain a as' b bs' where ab: "as = a # as'" "bs = b # bs'" by (metis list.exhaust)
  from eq have eq': "f a @ rest f as' (close # x) = f b @ rest f bs' (close # y)"
    by (simp only: ab join_rest)
  have d: "delimited (rest f zs (close # z))" for zs z
    using close by (intro rest_delimited) auto
  have "a = b \<and> rest f as' (close # x) = rest f bs' (close # y)"
    using assms(1) ab eq' d by (auto simp: cuts_def)
  with rest_inj [of as' f close x bs' y] assms(1) close ab show ?thesis by simp
qed

abbreviation print_member :: "(rat \<Rightarrow> string) \<Rightarrow> string \<times> jvalue \<Rightarrow> string" where
  "print_member shownum \<equiv> (\<lambda>(k, v). json_quote k @ '':'' @ printed shownum v)"

text \<open>The first character tells the constructor.\<close>

fun head_ok :: "jvalue \<Rightarrow> char \<Rightarrow> bool" where
  "head_ok JNull h = (h = CHR ''n'')"
| "head_ok (JBool b) h = (h = (if b then CHR ''t'' else CHR ''f''))"
| "head_ok (JNum n) h = (h \<in> number_chars)"
| "head_ok (JStr s) h = (h = CHR 0x22)"
| "head_ok (JArr xs) h = (h = CHR ''['')"
| "head_ok (JObj ms) h = (h = CHR ''{'')"

lemma not_number_text [simp]:
  "CHR ''n'' \<notin> number_chars" "CHR ''t'' \<notin> number_chars" "CHR ''f'' \<notin> number_chars"
  "CHR 0x22 \<notin> number_chars" "CHR ''['' \<notin> number_chars" "CHR ''{'' \<notin> number_chars"
  "CHR '','' \<notin> number_chars" "CHR '']'' \<notin> number_chars" "CHR ''}'' \<notin> number_chars"
  by (simp_all add: number_chars_def)

fun constructor :: "jvalue \<Rightarrow> nat" where
  "constructor JNull = 0"
| "constructor (JBool b) = (if b then 1 else 2)"
| "constructor (JNum n) = 3"
| "constructor (JStr s) = 4"
| "constructor (JArr xs) = 5"
| "constructor (JObj ms) = 6"

lemma head_constructor: "head_ok a h \<Longrightarrow> head_ok b h \<Longrightarrow> constructor a = constructor b"
  by (cases a; cases b) (auto split: if_splits)

lemma printed_head:
  assumes "num_ok shownum"
  shows "\<exists>h t. printed shownum v = h # t \<and> head_ok v h \<and> h \<notin> set '',]}''"
proof (cases v)
  case (JNum n)
  obtain h t where ht: "shownum n = h # t" using assms unfolding num_ok_def by (meson list.exhaust)
  then have "h \<in> number_chars" using assms unfolding num_ok_def by (metis insert_subset list.set(2))
  with JNum ht show ?thesis by (auto simp del: not_number_text dest: not_number_text [THEN notE])
qed (auto simp: json_quote_def)

lemma printed_constructor:
  assumes ok: "num_ok shownum" and eq: "printed shownum a @ x = printed shownum b @ y"
  shows "constructor a = constructor b"
proof -
  obtain h t where a: "printed shownum a = h # t" "head_ok a h" using printed_head [OF ok] by blast
  obtain h' t' where b: "printed shownum b = h' # t'" "head_ok b h'" using printed_head [OF ok] by blast
  from a b eq have "h = h'" by simp
  with a(2) b(2) show ?thesis by (blast intro: head_constructor)
qed

lemma number_cut:
  assumes ok: "num_ok shownum" and eq: "shownum n @ x = shownum m @ y" and "delimited x" "delimited y"
  shows "n = m \<and> x = y"
proof -
  have "takeWhile (\<lambda>c. c \<in> number_chars) (shownum i @ z) = shownum i" if "delimited z" for i z
  proof -
    have "\<forall>c \<in> set (shownum i). c \<in> number_chars" using ok by (auto simp: num_ok_def)
    then have "takeWhile (\<lambda>c. c \<in> number_chars) (shownum i @ z) = shownum i @ takeWhile (\<lambda>c. c \<in> number_chars) z"
      by (simp add: takeWhile_append2)
    then show ?thesis using that by (cases z) auto
  qed
  with assms(3,4) eq have "shownum n = shownum m" by metis
  with ok eq show ?thesis by (simp add: num_ok_def inj_eq)
qed

lemma member_cuts: "cuts (printed shownum) v \<Longrightarrow> cuts (print_member shownum) (k, v)"
proof -
  assume v: "cuts (printed shownum) v"
  have "(k, v) = b \<and> x = y" if eq: "print_member shownum (k, v) @ x = print_member shownum b @ y"
    "delimited x" "delimited y" for b x y
  proof -
    obtain k' v' where b: "b = (k', v')" by force
    from eq(1) b have "json_quote k @ (CHR '':'' # printed shownum v @ x) =
        json_quote k' @ (CHR '':'' # printed shownum v' @ y)" by simp
    from quote_prefix [OF this] have "k = k'" "printed shownum v @ x = printed shownum v' @ y" by auto
    with v eq(2,3) b show ?thesis by (auto simp: cuts_def)
  qed
  then show ?thesis by (auto simp: cuts_def json_quote_def)
qed

lemma printed_cuts:
  assumes ok: "num_ok shownum"
  shows "cuts (printed shownum) v"
proof (induction v)
  note con = printed_constructor [OF ok] and head = printed_head [OF ok]
  have cutsI: "cuts (printed shownum) a"
    if "\<And>b x y. printed shownum a @ x = printed shownum b @ y \<Longrightarrow> constructor a = constructor b \<Longrightarrow>
      delimited x \<Longrightarrow> delimited y \<Longrightarrow> a = b \<and> x = y" for a
  proof -
    from head [of a] have "printed shownum a \<noteq> []" "hd (printed shownum a) \<notin> set '',]}''" by auto
    then show ?thesis unfolding cuts_def using that con by blast
  qed
  have heads: "\<forall>b \<in> set ys. printed shownum b \<noteq> [] \<and> hd (printed shownum b) \<notin> set '',]}''" for ys
    using head by (metis list.discI list.sel(1))
  {
    case JNull
    show ?case
    proof (rule cutsI)
      fix b x y assume "printed shownum JNull @ x = printed shownum b @ y" "constructor JNull = constructor b"
      then show "JNull = b \<and> x = y" by (cases b) (simp_all split: if_splits)
    qed
  next
    case (JBool c)
    show ?case
    proof (rule cutsI)
      fix b x y assume "printed shownum (JBool c) @ x = printed shownum b @ y"
        "constructor (JBool c) = constructor b"
      then show "JBool c = b \<and> x = y" by (cases b) (simp_all split: if_splits)
    qed
  next
    case (JNum n)
    show ?case
    proof (rule cutsI)
      fix b x y assume eq: "printed shownum (JNum n) @ x = printed shownum b @ y"
        and con: "constructor (JNum n) = constructor b" and d: "delimited x" "delimited y"
      from con obtain m where b: "b = JNum m" by (cases b) (simp_all split: if_splits)
      with eq have "shownum n @ x = shownum m @ y" by simp
      from number_cut [OF ok this d] b show "JNum n = b \<and> x = y" by simp
    qed
  next
    case (JStr s)
    show ?case
    proof (rule cutsI)
      fix b x y assume eq: "printed shownum (JStr s) @ x = printed shownum b @ y"
        and "constructor (JStr s) = constructor b"
      then obtain t where b: "b = JStr t" by (cases b) (simp_all split: if_splits)
      with eq have "json_quote s @ x = json_quote t @ y" by simp
      from quote_prefix [OF this] b show "JStr s = b \<and> x = y" by simp
    qed
  next
    case (JArr xs)
    show ?case
    proof (rule cutsI)
      fix b x y assume eq: "printed shownum (JArr xs) @ x = printed shownum b @ y"
        and "constructor (JArr xs) = constructor b"
      then obtain ys where b: "b = JArr ys" by (cases b) (simp_all split: if_splits)
      have "xs = ys \<and> x = y"
        by (rule joined_inj [where f = "printed shownum" and close = "CHR '']''"])
          (use JArr heads eq b in auto)
      with b show "JArr xs = b \<and> x = y" by simp
    qed
  next
    case (JObj ms)
    show ?case
    proof (rule cutsI)
      fix b x y assume eq: "printed shownum (JObj ms) @ x = printed shownum b @ y"
        and "constructor (JObj ms) = constructor b"
      then obtain ns where b: "b = JObj ns" by (cases b) (simp_all split: if_splits)
      have el: "\<forall>a \<in> set ms. cuts (print_member shownum) a"
      proof
        fix a assume "a \<in> set ms"
        with JObj have "cuts (printed shownum) (snd a)" by (metis prod_set_simps(2) singletonI prod.collapse)
        then show "cuts (print_member shownum) a" using member_cuts [of shownum "snd a" "fst a"] by simp
      qed
      have hs: "\<forall>b \<in> set ns. print_member shownum b \<noteq> [] \<and> hd (print_member shownum b) \<notin> set '',]}''"
        by (auto simp: json_quote_def)
      from eq b have "join '','' (map (print_member shownum) ms) @ CHR ''}'' # x =
          join '','' (map (print_member shownum) ns) @ CHR ''}'' # y" by simp
      from joined_inj [OF el hs this] b show "JObj ms = b \<and> x = y" by simp
    qed
  }
qed

section \<open>Deep equality is sameness\<close>

lemma insort_key_map: "insort_key f (g a) (map g xs) = map g (insort_key (\<lambda>x. f (g x)) a xs)"
  by (induction xs) simp_all

lemma sort_key_map: "sort_key f (map g xs) = map g (sort_key (\<lambda>x. f (g x)) xs)"
  by (induction xs) (simp_all add: insort_key_map)

lemma canonical_printed: "canonical_value collate shownum v = printed shownum (sorted_value collate v)"
proof (induction v)
  case (JArr xs)
  then show ?case by (simp cong: map_cong)
next
  case (JObj ms)
  then have "map (\<lambda>(k, v). (k, canonical_value collate shownum v)) ms =
      map (\<lambda>(k, v). (k, printed shownum v)) (map (\<lambda>(k, v). (k, sorted_value collate v)) ms)"
    by (force simp: comp_def)
  then have "sort_key (\<lambda>(k, v). collate k) (map (\<lambda>(k, v). (k, canonical_value collate shownum v)) ms) =
      map (\<lambda>(k, v). (k, printed shownum v))
        (sort_key (\<lambda>(k, v). collate k) (map (\<lambda>(k, v). (k, sorted_value collate v)) ms))"
    by (simp only: sort_key_map) (simp add: case_prod_unfold sort_key_map)
  then show ?case by (simp add: comp_def case_prod_unfold)
qed simp_all

lemma sorted_members_eq:
  fixes collate :: "string \<Rightarrow> 'k :: linorder" and ms ns :: "(string \<times> 'v) list"
  assumes inj: "inj collate" and d: "distinct (map fst ms)" "distinct (map fst ns)"
  shows "sort_key (\<lambda>(k, v). collate k) ms = sort_key (\<lambda>(k, v). collate k) ns \<longleftrightarrow> map_of ms = map_of ns"
proof
  assume "sort_key (\<lambda>(k, v). collate k) ms = sort_key (\<lambda>(k, v). collate k) ns"
  then have "set ms = set ns" by (metis set_sort)
  with d show "map_of ms = map_of ns" by (simp add: map_of_inject_set)
next
  assume "map_of ms = map_of ns"
  with d have eq: "set ms = set ns" by (simp add: map_of_inject_set)
  let ?f = "(\<lambda>(k, v). collate k) :: string \<times> 'v \<Rightarrow> 'k"
  have "inj_on ?f (set ns)"
    using inj d(2) by (auto simp: inj_on_def dest: injD eq_key_imp_eq_value)
  moreover have "distinct (map ?f xs)" if "distinct (map fst xs)" for xs
  proof -
    have eq: "map ?f xs = map collate (map fst xs)" by (simp add: case_prod_unfold)
    have "distinct (map collate (map fst xs))"
      using that inj by (subst distinct_map) (auto intro: inj_on_subset)
    then show ?thesis by (simp only: eq)
  qed
  moreover have "distinct (map ?f (sort_key ?f xs)) = distinct (map ?f xs)" for xs :: "(string \<times> 'v) list"
    by (metis distinct_map distinct_sort set_sort)
  ultimately show "sort_key ?f ms = sort_key ?f ns"
    using d eq by (intro map_sorted_distinct_set_unique [of ?f]) simp_all
qed

lemma map_of_map_values: "map_of (map (\<lambda>(k, v). (k, f v)) ms) k = map_option f (map_of ms k)"
  by (induction ms) auto

inductive_cases same_value_cases:
  "same_value JNull b" "same_value (JBool c) b" "same_value (JNum n) b" "same_value (JStr s) b"
  "same_value (JArr xs) b" "same_value (JObj ms) b"

lemma sorted_same:
  fixes collate :: "string \<Rightarrow> 'k :: linorder"
  assumes inj: "inj collate"
  shows "wf_value a \<Longrightarrow> wf_value b \<Longrightarrow> sorted_value collate a = sorted_value collate b \<longleftrightarrow> same_value a b"
proof (induction a arbitrary: b)
  case (JArr xs)
  have elems: "map (sorted_value collate) xs = map (sorted_value collate) ys \<longleftrightarrow> list_all2 same_value xs ys"
    if "list_all wf_value ys" for ys
  proof -
    have "map (sorted_value collate) xs = map (sorted_value collate) ys \<longleftrightarrow>
        list_all2 (\<lambda>x y. sorted_value collate x = sorted_value collate y) xs ys"
      by (auto simp: list_all2_conv_all_nth list_eq_iff_nth_eq)
    also have "\<dots> \<longleftrightarrow> list_all2 same_value xs ys"
      using JArr.IH JArr.prems(1) that
      by (intro list.rel_cong refl) (auto simp: list_all_iff)
    finally show ?thesis .
  qed
  from JArr.prems(2) elems show ?case
    by (cases b) (auto intro: same_value.intros elim: same_value_cases)
next
  case (JObj ms)
  let ?g = "\<lambda>(k, v). (k, sorted_value collate v)"
  have members: "sort_key (\<lambda>(k, v). collate k) (map ?g ms) = sort_key (\<lambda>(k, v). collate k) (map ?g ns)
      \<longleftrightarrow> (\<forall>k. rel_option same_value (map_of ms k) (map_of ns k))"
    if wf: "wf_value (JObj ns)" for ns
  proof -
    have keys: "map (fst \<circ> ?g) xs = map fst xs" for xs by (simp add: case_prod_unfold)
    have "sort_key (\<lambda>(k, v). collate k) (map ?g ms) = sort_key (\<lambda>(k, v). collate k) (map ?g ns)
        \<longleftrightarrow> map_of (map ?g ms) = map_of (map ?g ns)"
      by (rule sorted_members_eq [OF inj]) (use JObj.prems(1) wf in \<open>simp_all add: keys\<close>)
    also have "\<dots> \<longleftrightarrow> (\<forall>k. rel_option same_value (map_of ms k) (map_of ns k))"
    proof -
      have "map_option (sorted_value collate) (map_of ms k) = map_option (sorted_value collate) (map_of ns k)
          \<longleftrightarrow> rel_option same_value (map_of ms k) (map_of ns k)" for k
      proof (cases "map_of ms k"; cases "map_of ns k")
        fix v w assume vw: "map_of ms k = Some v" "map_of ns k = Some w"
        then have "(k, v) \<in> set ms" "(k, w) \<in> set ns" by (auto dest: map_of_SomeD)
        then have "wf_value v" "wf_value w" using JObj.prems(1) wf by (auto simp: list_all_iff)
        with JObj.IH [OF \<open>(k, v) \<in> set ms\<close>, of v w] vw show ?thesis by simp
      qed simp_all
      then show ?thesis by (simp add: fun_eq_iff map_of_map_values)
    qed
    finally show ?thesis .
  qed
  from JObj.prems(2) members show ?case
    by (cases b) (auto intro: same_value.intros elim: same_value_cases)
qed (rename_tac b, case_tac b, auto intro: same_value.intros elim: same_value_cases)+


definition unary_number :: "rat \<Rightarrow> string" where
  "unary_number n = replicate (Suc (to_nat n)) (CHR ''1'')"

lemma unary_ok: "num_ok unary_number"
proof -
  have "inj unary_number" by (rule injI) (simp add: unary_number_def replicate_eq_replicate)
  then show ?thesis by (auto simp: num_ok_def unary_number_def number_chars_def)
qed


end
