(* ===== verification/Apply_Diff.thy ===== *)
theory Apply_Diff
  imports Json_Equal
begin

text \<open>
  The plan of \<^verbatim>\<open>lobu apply\<close>: \<^verbatim>\<open>packages/cli/src/commands/_lib/apply/diff.ts\<close>, which compares
  the state a configuration declares (\<^verbatim>\<open>desired-state.ts\<close>) with what the server has
  (\<^verbatim>\<open>client.ts\<close>). One function \<open>diff...\<close> per kind of resource gives one row of the plan,
  \<open>computeDiff\<close> composes them; a \<^verbatim>\<open>ValidationError\<close> is an \<open>Inl\<close>. An absent field and null are both
  \<open>None\<close> where the code treats them alike (\<^verbatim>\<open>x ?? y\<close>); the long dash of a message is a hyphen; values the code only compares with
  \<^verbatim>\<open>deepEqual\<close> are JSON values. The order of \<^verbatim>\<open>localeCompare\<close> and the text of numbers are the two
  fields of \<open>host\<close>.
\<close>

section \<open>The two states\<close>

record 'k host =
  collate :: "string \<Rightarrow> 'k"
  number_text :: "rat \<Rightarrow> string"

record agent_metadata =
  am_agentId :: string
  am_name :: string
  am_description :: "string option"

text \<open>A settings object: its members, \<open>None\<close> for one that is present but undefined.\<close>

type_synonym settings = "(string \<times> jvalue option) list"

record desired_platform =
  dp_stableId :: string
  dp_type :: string
  dp_config :: "(string \<times> jvalue option) list"

record desired_agent =
  da_metadata :: agent_metadata
  da_settings :: settings
  da_platforms :: "desired_platform list"

record desired_entity_type =
  de_slug :: string
  de_name :: "string option"
  de_description :: "string option"
  de_required :: "jvalue option"
  de_properties :: "jvalue option"
  de_backing :: "jvalue option"

record desired_relationship_type =
  dr_slug :: string
  dr_name :: "string option"
  dr_description :: "string option"
  dr_rules :: "jvalue option"

record desired_watcher =
  dw_slug :: string
  dw_agent :: string
  dw_name :: "string option"
  dw_description :: "string option"
  dw_schedule :: "string option"
  dw_prompt :: string
  dw_extractionSchema :: "jvalue option"
  dw_sources :: "jvalue option"
  dw_reactionScript :: "(string \<times> string) option"
  dw_reactionsGuidance :: "string option"
  dw_deviceWorkerId :: "string option"
  dw_schedulerClientId :: "string option"
  dw_notificationChannel :: "string option"
  dw_notificationPriority :: "string option"
  dw_minCooldownSeconds :: "rat option"
  dw_tags :: "jvalue option"
  dw_agentKind :: "string option"
  dw_jsonTemplate :: "jvalue option"
  dw_keyingConfig :: "jvalue option"
  dw_classifiers :: "jvalue option"
  dw_condensationPrompt :: "string option"
  dw_condensationWindowCount :: "rat option"

record desired_connector_definition =
  dd_key :: "string option"
  dd_sourceFile :: string

record desired_auth_profile =
  du_slug :: string
  du_connector :: string
  du_kind :: string
  du_name :: "string option"
  du_credentials :: "(string \<times> string) list option"
  du_sourceFile :: string

record desired_feed =
  df_feedKey :: string
  df_name :: "string option"
  df_schedule :: "string option"
  df_config :: "jvalue option"

record desired_connection =
  dc_slug :: string
  dc_connector :: string
  dc_name :: "string option"
  dc_authProfileSlug :: "string option"
  dc_appAuthProfileSlug :: "string option"
  dc_config :: "jvalue option"
  dc_deviceWorkerId :: "string option"
  dc_feeds :: "desired_feed list"
  dc_sourceFile :: string

record desired_state =
  ds_agents :: "desired_agent list"
  ds_entityTypes :: "desired_entity_type list"
  ds_relationshipTypes :: "desired_relationship_type list"
  ds_watchers :: "desired_watcher list"
  ds_definitions :: "desired_connector_definition list"
  ds_authProfiles :: "desired_auth_profile list"
  ds_connections :: "desired_connection list"

record remote_agent =
  ra_agentId :: string
  ra_name :: string
  ra_description :: "string option"

record remote_platform =
  rp_id :: string
  rp_platform :: string
  rp_config :: "(string \<times> jvalue option) list option"

record remote_entity_type =
  re_slug :: string
  re_name :: "string option"
  re_description :: "string option"
  re_required :: "jvalue option"
  re_properties :: "jvalue option"
  re_backing :: "jvalue option"
  re_organization_id :: "string option"

record remote_relationship_type =
  rr_slug :: string
  rr_name :: "string option"
  rr_description :: "string option"
  rr_rules :: "jvalue option"
  rr_organization_id :: "string option"

record remote_watcher =
  rw_slug :: string
  rw_name :: "string option"
  rw_description :: "string option"
  rw_agent_id :: "string option"
  rw_schedule :: "string option"
  rw_device_worker_id :: "string option"
  rw_scheduler_client_id :: "string option"
  rw_agent_kind :: "string option"
  rw_notification_channel :: "string option"
  rw_notification_priority :: "string option"
  rw_min_cooldown_seconds :: "rat option"
  rw_tags :: "jvalue option"
  rw_sources :: "jvalue option"
  rw_prompt :: "string option"
  rw_extraction_schema :: "jvalue option"
  rw_classifiers :: "jvalue option"
  rw_json_template :: "jvalue option"
  rw_keying_config :: "jvalue option"
  rw_condensation_prompt :: "string option"
  rw_condensation_window_count :: "rat option"
  rw_reactions_guidance :: "string option"

record remote_connector_definition =
  rd_key :: string
  rd_installed :: bool
  rd_installable :: bool
  rd_source_uri :: "string option"

record remote_auth_profile =
  ru_slug :: string
  ru_display_name :: "string option"
  ru_connector_key :: string
  ru_profile_kind :: string
  ru_status :: string

record remote_connection =
  rc_id :: int
  rc_slug :: string
  rc_connector_key :: string
  rc_display_name :: "string option"
  rc_auth_profile_slug :: "string option"
  rc_app_auth_profile_slug :: "string option"
  rc_config :: "jvalue option"
  rc_device_worker_id :: "string option"

record remote_feed =
  rf_feed_key :: string
  rf_display_name :: "string option"
  rf_schedule :: "string option"
  rf_config :: "jvalue option"

text \<open>What the server has; the Maps keyed by agent or connection id are functions.\<close>

record remote_snapshot =
  rs_agents :: "remote_agent list"
  rs_agentSettings :: "string \<Rightarrow> settings option"
  rs_platformsByAgent :: "string \<Rightarrow> remote_platform list"
  rs_entityTypes :: "remote_entity_type list"
  rs_relationshipTypes :: "remote_relationship_type list"
  rs_watchers :: "remote_watcher list"
  rs_connectorDefinitions :: "remote_connector_definition list"
  rs_authProfiles :: "remote_auth_profile list"
  rs_connections :: "remote_connection list"
  rs_feedsByConnectionId :: "int \<Rightarrow> remote_feed list"

section \<open>Rows of a plan\<close>

datatype verb = Create | Update | Noop | Drift | Delete

record ('d, 'r) base_row =
  row_verb :: verb
  row_id :: string
  row_desired :: "'d option"
  row_remote :: "'r option"
  row_changed :: "string list option"

text \<open>The union of the row types, each with the fields of its own.\<close>

datatype diff_row =
    AgentRow "(agent_metadata, remote_agent) base_row"
  | SettingsRow "(settings, unit) base_row"
  | PlatformRow (pr_agentId: string) (pr_willRestart: "bool option") "(desired_platform, remote_platform) base_row"
  | EntityTypeRow "(desired_entity_type, remote_entity_type) base_row"
  | RelationshipTypeRow "(desired_relationship_type, remote_relationship_type) base_row"
  | WatcherRow (wr_versionBound: "string list option") (wr_script: bool) "(desired_watcher, remote_watcher) base_row"
  | ConnectorRow (cr_installed: "bool option") "(desired_connector_definition, unit) base_row"
  | AuthProfileRow (ar_needsAuth: "bool option") "(desired_auth_profile, remote_auth_profile) base_row"
  | ConnectionRow "(desired_connection, remote_connection) base_row"
  | FeedRow (fr_connectionSlug: string) "(desired_feed, remote_feed) base_row"

text \<open>The verb and the id of a row of any kind.\<close>

fun verb_of :: "diff_row \<Rightarrow> verb" where
  "verb_of (AgentRow r) = row_verb r"
| "verb_of (SettingsRow r) = row_verb r"
| "verb_of (PlatformRow _ _ r) = row_verb r"
| "verb_of (EntityTypeRow r) = row_verb r"
| "verb_of (RelationshipTypeRow r) = row_verb r"
| "verb_of (WatcherRow _ _ r) = row_verb r"
| "verb_of (ConnectorRow _ r) = row_verb r"
| "verb_of (AuthProfileRow _ r) = row_verb r"
| "verb_of (ConnectionRow r) = row_verb r"
| "verb_of (FeedRow _ r) = row_verb r"

record plan_counts =
  n_create :: nat
  n_update :: nat
  n_noop :: nat
  n_drift :: nat
  n_delete :: nat

record diff_plan =
  plan_rows :: "diff_row list"
  plan_counts_of :: plan_counts
  plan_notes :: "string list"

section \<open>Comparing one resource\<close>

abbreviation same_json :: "'k :: linorder host \<Rightarrow> jvalue option \<Rightarrow> jvalue option \<Rightarrow> bool" where
  "same_json h \<equiv> deepEqual (collate h) (number_text h)"

text \<open>\<^verbatim>\<open>x ?? d\<close> on a JSON value.\<close>

fun nullish :: "jvalue option \<Rightarrow> jvalue \<Rightarrow> jvalue option" where
  "nullish None d = Some d"
| "nullish (Some JNull) d = Some d"
| "nullish (Some v) d = Some v"

definition or_empty_text :: "string option \<Rightarrow> string" where
  "or_empty_text s = (case s of None \<Rightarrow> [] | Some t \<Rightarrow> t)"

definition stringChanged :: "string option \<Rightarrow> string option \<Rightarrow> bool" where
  "stringChanged a b \<longleftrightarrow> or_empty_text a \<noteq> or_empty_text b"

definition optionalNameChanged :: "string option \<Rightarrow> string option \<Rightarrow> bool" where
  "optionalNameChanged desired remote =
     (if desired = None \<or> desired = Some [] then False else stringChanged desired remote)"

type_synonym ('d, 'r) diff_field = "string \<times> ('d \<Rightarrow> 'r \<Rightarrow> bool)"

definition buildDiffRow ::
    "string \<Rightarrow> 'd \<Rightarrow> 'r option \<Rightarrow> ('d, 'r) diff_field list \<Rightarrow> ('d, 'r) base_row" where
  "buildDiffRow i d remote fs =
     (case remote of
        None \<Rightarrow> \<lparr> row_verb = Create, row_id = i, row_desired = Some d, row_remote = None, row_changed = None \<rparr>
      | Some r \<Rightarrow>
          (let changed = map fst (filter (\<lambda>(name, differs). differs d r) fs) in
           if changed = []
           then \<lparr> row_verb = Noop, row_id = i, row_desired = Some d, row_remote = Some r, row_changed = None \<rparr>
           else \<lparr> row_verb = Update, row_id = i, row_desired = Some d, row_remote = Some r,
                  row_changed = Some changed \<rparr>))"

definition diffAgent :: "agent_metadata \<Rightarrow> remote_agent option \<Rightarrow> diff_row" where
  "diffAgent d remote = AgentRow (buildDiffRow (am_agentId d) d remote
     [(''name'', \<lambda>d r. am_name d \<noteq> ra_name r),
      (''description'', \<lambda>d r. stringChanged (am_description d) (ra_description r))])"

definition SETTINGS_FIELDS :: "string list" where
  "SETTINGS_FIELDS =
     [''networkConfig'', ''egressConfig'', ''nixConfig'', ''mcpServers'', ''skillsConfig'', ''toolsConfig'',
      ''guardrails'', ''preApprovedTools'', ''providerModelPreferences'', ''installedProviders'',
      ''modelSelection'', ''soulMd'', ''userMd'', ''identityMd'']"

text \<open>The provider ids of a list of installed providers, an absent or null list as it is.\<close>

fun normalizeInstalledProviders :: "jvalue option \<Rightarrow> jvalue option" where
  "normalizeInstalledProviders (Some (JArr ps)) =
     Some (JArr (map (\<lambda>p. case field (Some p) ''providerId'' of Some v \<Rightarrow> v | None \<Rightarrow> JNull) ps))"
| "normalizeInstalledProviders v = None"

definition setting :: "settings \<Rightarrow> string \<Rightarrow> jvalue option" where
  "setting s k = Option.bind (map_of s k) (\<lambda>v. v)"

definition diffSettings ::
    "'k :: linorder host \<Rightarrow> string \<Rightarrow> settings \<Rightarrow> settings option \<Rightarrow> (settings, unit) base_row" where
  "diffSettings h agentId d remote =
     (let rem = (\<lambda>k. Option.bind remote (\<lambda>s. setting s k));
          differs = (\<lambda>k.
            if k = ''installedProviders''
            then \<not> same_json h (normalizeInstalledProviders (setting d k)) (normalizeInstalledProviders (rem k))
            else \<not> same_json h (setting d k) (rem k));
          changed = filter (\<lambda>k. k \<in> set (map fst d) \<and> differs k) SETTINGS_FIELDS in
      if changed = []
      then \<lparr> row_verb = Noop, row_id = agentId, row_desired = Some d, row_remote = None, row_changed = None \<rparr>
      else \<lparr> row_verb = Update, row_id = agentId, row_desired = Some d, row_remote = None,
             row_changed = Some changed \<rparr>)"

definition isOpaqueRemoteConfigValue :: "jvalue option \<Rightarrow> bool" where
  "isOpaqueRemoteConfigValue v =
     (case v of Some (JStr s) \<Rightarrow> starts_with s ''***'' \<or> starts_with s ''secret://'' | _ \<Rightarrow> False)"

definition platformConfigChanged ::
    "'k :: linorder host \<Rightarrow> (string \<times> jvalue option) list \<Rightarrow> (string \<times> jvalue option) list option \<Rightarrow> bool" where
  "platformConfigChanged h d remote =
     (let remoteConfig = AList.delete ''platform'' (case remote of Some r \<Rightarrow> r | None \<Rightarrow> []);
          desiredConfig = AList.delete ''platform'' d;
          keys = map fst desiredConfig @ map fst remoteConfig in
      list_ex (\<lambda>key.
        let dv = setting desiredConfig key; rv = setting remoteConfig key in
        if isOpaqueRemoteConfigValue rv then key \<notin> set (map fst desiredConfig)
        else \<not> same_json h dv rv) keys)"

definition diffPlatform ::
    "'k :: linorder host \<Rightarrow> string \<Rightarrow> desired_platform \<Rightarrow> remote_platform option \<Rightarrow> diff_row" where
  "diffPlatform h agentId d remote =
     (let row = buildDiffRow (dp_stableId d) d remote
        [(''type'', \<lambda>d r. dp_type d \<noteq> rp_platform r),
         (''config'', \<lambda>d r. platformConfigChanged h (dp_config d) (rp_config r))] in
      PlatformRow agentId
        (if remote = None then Some False
         else map_option (\<lambda>changed. ''config'' \<in> set changed \<or> ''type'' \<in> set changed) (row_changed row))
        row)"

definition diffEntityType ::
    "'k :: linorder host \<Rightarrow> desired_entity_type \<Rightarrow> remote_entity_type option \<Rightarrow> diff_row" where
  "diffEntityType h d remote = EntityTypeRow (buildDiffRow (de_slug d) d remote
     [(''name'', \<lambda>d r. stringChanged (de_name d) (re_name r)),
      (''description'', \<lambda>d r. stringChanged (de_description d) (re_description r)),
      (''required'', \<lambda>d r. \<not> same_json h (nullish (de_required d) (JArr [])) (nullish (re_required r) (JArr []))),
      (''properties'', \<lambda>d r. \<not> same_json h (de_properties d) (re_properties r)),
      (''backing'', \<lambda>d r. \<not> same_json h (de_backing d) (re_backing r))])"

definition diffRelationshipType ::
    "'k :: linorder host \<Rightarrow> desired_relationship_type \<Rightarrow> remote_relationship_type option \<Rightarrow> diff_row" where
  "diffRelationshipType h d remote = RelationshipTypeRow (buildDiffRow (dr_slug d) d remote
     [(''name'', \<lambda>d r. stringChanged (dr_name d) (rr_name r)),
      (''description'', \<lambda>d r. stringChanged (dr_description d) (rr_description r)),
      (''rules'', \<lambda>d r. \<not> same_json h (nullish (dr_rules d) (JArr [])) (nullish (rr_rules r) (JArr [])))])"

text \<open>
  A watcher's fields are of two kinds, those of its row and those of its version; an undeclared
  optional field is not compared.
\<close>

definition declared_differs :: "'a option \<Rightarrow> 'a option \<Rightarrow> bool" where
  "declared_differs d r \<longleftrightarrow> d \<noteq> None \<and> d \<noteq> r"

definition declared_json_differs :: "'k :: linorder host \<Rightarrow> jvalue option \<Rightarrow> jvalue option \<Rightarrow> bool" where
  "declared_json_differs h d r \<longleftrightarrow> d \<noteq> None \<and> \<not> same_json h d r"

definition names_of :: "(string \<times> bool) list \<Rightarrow> string list" where
  "names_of fs = map fst (filter snd fs)"

definition watcher_scalar :: "'k :: linorder host \<Rightarrow> desired_watcher \<Rightarrow> remote_watcher \<Rightarrow> string list" where
  "watcher_scalar h d r = names_of
     [(''schedule'', dw_schedule d \<noteq> rw_schedule r),
      (''agent_id'', dw_agent d \<noteq> or_empty_text (rw_agent_id r)),
      (''device_worker_id'', declared_differs (dw_deviceWorkerId d) (rw_device_worker_id r)),
      (''scheduler_client_id'', declared_differs (dw_schedulerClientId d) (rw_scheduler_client_id r)),
      (''notification_channel'', declared_differs (dw_notificationChannel d) (rw_notification_channel r)),
      (''notification_priority'', declared_differs (dw_notificationPriority d) (rw_notification_priority r)),
      (''min_cooldown_seconds'', declared_differs (dw_minCooldownSeconds d) (rw_min_cooldown_seconds r)),
      (''tags'', declared_json_differs h (dw_tags d) (nullish (rw_tags r) (JArr []))),
      (''agent_kind'', declared_differs (dw_agentKind d) (rw_agent_kind r))]"

definition watcher_version_bound :: "'k :: linorder host \<Rightarrow> desired_watcher \<Rightarrow> remote_watcher \<Rightarrow> string list" where
  "watcher_version_bound h d r = names_of
     [(''prompt'', dw_prompt d \<noteq> or_empty_text (rw_prompt r)),
      (''extraction_schema'', \<not> same_json h (nullish (dw_extractionSchema d) (JObj []))
         (nullish (rw_extraction_schema r) (JObj []))),
      (''sources'', declared_json_differs h (dw_sources d) (nullish (rw_sources r) (JArr []))),
      (''reactions_guidance'', declared_differs (dw_reactionsGuidance d) (Some (or_empty_text (rw_reactions_guidance r)))),
      (''json_template'', declared_json_differs h (dw_jsonTemplate d) (rw_json_template r)),
      (''keying_config'', declared_json_differs h (dw_keyingConfig d) (nullish (rw_keying_config r) (JObj []))),
      (''classifiers'', declared_json_differs h (dw_classifiers d) (nullish (rw_classifiers r) (JArr []))),
      (''condensation_prompt'',
         declared_differs (dw_condensationPrompt d) (Some (or_empty_text (rw_condensation_prompt r)))),
      (''condensation_window_count'',
         declared_differs (dw_condensationWindowCount d) (rw_condensation_window_count r))]"

definition diffWatcher :: "'k :: linorder host \<Rightarrow> desired_watcher \<Rightarrow> remote_watcher option \<Rightarrow> diff_row" where
  "diffWatcher h d remote =
     (let scriptDeclared = dw_reactionScript d \<noteq> None in
      case remote of
        None \<Rightarrow> WatcherRow None scriptDeclared
          \<lparr> row_verb = Create, row_id = dw_slug d, row_desired = Some d, row_remote = None, row_changed = None \<rparr>
      | Some r \<Rightarrow>
          (let versionBound = watcher_version_bound h d r;
               changed = watcher_scalar h d r @ versionBound @ (if scriptDeclared then [''reaction_script''] else []) in
           if changed = []
           then WatcherRow None False
             \<lparr> row_verb = Noop, row_id = dw_slug d, row_desired = Some d, row_remote = Some r, row_changed = None \<rparr>
           else WatcherRow (if versionBound \<noteq> [] then Some versionBound else None) scriptDeclared
             \<lparr> row_verb = Update, row_id = dw_slug d, row_desired = Some d, row_remote = Some r,
               row_changed = Some changed \<rparr>))"

section \<open>Connectors\<close>

definition INTERACTIVE_AUTH_KINDS :: "string list" where
  "INTERACTIVE_AUTH_KINDS = [''oauth_account'', ''browser_session'']"

definition connectorDefinitionId :: "desired_connector_definition \<Rightarrow> string" where
  "connectorDefinitionId d = (case dd_key d of Some k \<Rightarrow> k | None \<Rightarrow> dd_sourceFile d)"

definition diffConnectorDefinition :: "desired_connector_definition \<Rightarrow> string set \<Rightarrow> diff_row" where
  "diffConnectorDefinition d installedKeys =
     (let installed = (case dd_key d of Some k \<Rightarrow> k \<noteq> [] \<and> k \<in> installedKeys | None \<Rightarrow> False) in
      ConnectorRow (Some installed)
        \<lparr> row_verb = (if installed then Update else Create), row_id = connectorDefinitionId d,
          row_desired = Some d, row_remote = None, row_changed = None \<rparr>)"

definition diffAuthProfile :: "desired_auth_profile \<Rightarrow> remote_auth_profile option \<Rightarrow> string + diff_row" where
  "diffAuthProfile d remote =
     (let interactive = du_kind d \<in> set INTERACTIVE_AUTH_KINDS in
      case remote of
        None \<Rightarrow> Inr (AuthProfileRow (Some interactive)
          \<lparr> row_verb = Create, row_id = du_slug d, row_desired = Some d, row_remote = None, row_changed = None \<rparr>)
      | Some r \<Rightarrow>
          if ru_connector_key r \<noteq> du_connector d \<or> ru_profile_kind r \<noteq> du_kind d
          then Inl (du_sourceFile d @ '': auth_profile \"'' @ du_slug d @ ''\" is bound to '' @ ru_connector_key r
            @ ''/'' @ ru_profile_kind r @ '' remotely, but the manifest declares '' @ du_connector d @ ''/''
            @ du_kind d @ '' - delete it manually or use a new slug'')
          else
            (let changed = names_of
                  [(''name'', stringChanged (du_name d) (ru_display_name r)),
                   (''credentials'', \<not> interactive \<and> (case du_credentials d of Some cs \<Rightarrow> cs \<noteq> [] | None \<Rightarrow> False))];
                 needsAuth = (interactive \<and> ru_status r \<noteq> ''active'') in
             if changed = [] \<and> \<not> needsAuth
             then Inr (AuthProfileRow None
               \<lparr> row_verb = Noop, row_id = du_slug d, row_desired = Some d, row_remote = Some r, row_changed = None \<rparr>)
             else Inr (AuthProfileRow (if needsAuth then Some True else None)
               \<lparr> row_verb = (if changed \<noteq> [] then Update else Noop), row_id = du_slug d, row_desired = Some d,
                 row_remote = Some r, row_changed = (if changed \<noteq> [] then Some changed else None) \<rparr>)))"

definition diffConnection ::
    "'k :: linorder host \<Rightarrow> desired_connection \<Rightarrow> remote_connection option \<Rightarrow> string + diff_row" where
  "diffConnection h d remote =
     (if (case remote of Some r \<Rightarrow> rc_connector_key r \<noteq> dc_connector d | None \<Rightarrow> False)
      then Inl (dc_sourceFile d @ '': connection \"'' @ dc_slug d @ ''\" is bound to connector \"''
        @ rc_connector_key (the remote) @ ''\" remotely, but the manifest declares \"'' @ dc_connector d
        @ ''\" - delete it manually or use a new slug'')
      else Inr (ConnectionRow (buildDiffRow (dc_slug d) d remote
        [(''name'', \<lambda>d r. optionalNameChanged (dc_name d) (rc_display_name r)),
         (''auth'', \<lambda>d r. dc_authProfileSlug d \<noteq> rc_auth_profile_slug r),
         (''app_auth'', \<lambda>d r. dc_appAuthProfileSlug d \<noteq> rc_app_auth_profile_slug r),
         (''config'', \<lambda>d r. \<not> same_json h (nullish (dc_config d) (JObj [])) (nullish (rc_config r) (JObj []))),
         (''device_worker_id'', \<lambda>d r. dc_deviceWorkerId d \<noteq> rc_device_worker_id r)])))"

definition diffFeed ::
    "'k :: linorder host \<Rightarrow> string \<Rightarrow> desired_feed \<Rightarrow> remote_feed option \<Rightarrow> diff_row" where
  "diffFeed h connectionSlug d remote = FeedRow connectionSlug
     (buildDiffRow (connectionSlug @ ''/'' @ df_feedKey d) d remote
        [(''name'', \<lambda>d r. optionalNameChanged (df_name d) (rf_display_name r)),
         (''schedule'', \<lambda>d r. df_schedule d \<noteq> rf_schedule r),
         (''config'', \<lambda>d r. \<not> same_json h (nullish (df_config d) (JObj [])) (nullish (rf_config r) (JObj [])))])"

section \<open>The plan\<close>

text \<open>\<^verbatim>\<open>new Map(xs.map((x) => [key(x), x]))\<close> and its \<^verbatim>\<open>get\<close>: of equal keys the last one counts.\<close>

definition map_get :: "('a \<Rightarrow> 'k) \<Rightarrow> 'a list \<Rightarrow> 'k \<Rightarrow> 'a option" where
  "map_get key xs k = find (\<lambda>x. key x = k) (rev xs)"

text \<open>A loop over declared resources that stops at the first error.\<close>

fun collect_rows :: "('a \<Rightarrow> 'e + 'b list) \<Rightarrow> 'a list \<Rightarrow> 'e + 'b list" where
  "collect_rows f [] = Inr []"
| "collect_rows f (x # xs) =
     (case f x of
        Inl e \<Rightarrow> Inl e
      | Inr ys \<Rightarrow> (case collect_rows f xs of Inl e \<Rightarrow> Inl e | Inr zs \<Rightarrow> Inr (ys @ zs)))"

definition ownsDefinition :: "string option \<Rightarrow> string option \<Rightarrow> bool" where
  "ownsDefinition orgId definitionOrgId \<longleftrightarrow> orgId = None \<or> definitionOrgId = None \<or> definitionOrgId = orgId"

definition isSystemSlug :: "string \<Rightarrow> bool" where
  "isSystemSlug slug = starts_with slug ''$''"

definition drift_row :: "verb \<Rightarrow> string \<Rightarrow> 'r option \<Rightarrow> ('d, 'r) base_row" where
  "drift_row v i r = \<lparr> row_verb = v, row_id = i, row_desired = None, row_remote = r, row_changed = None \<rparr>"

definition pruned :: "bool \<Rightarrow> string \<Rightarrow> verb" where
  "pruned prune slug = (if prune \<and> \<not> isSystemSlug slug then Delete else Drift)"

text \<open>Agents, their settings and their platforms.\<close>

definition platform_rows ::
    "'k :: linorder host \<Rightarrow> string \<Rightarrow> desired_platform list \<Rightarrow> remote_platform list \<Rightarrow> diff_row list" where
  "platform_rows h agentId ps remotePlatforms =
     map (\<lambda>p. diffPlatform h agentId p (map_get rp_id remotePlatforms (dp_stableId p))) ps
     @ map (\<lambda>r. PlatformRow agentId None (drift_row Drift (rp_id r) (Some r)))
         (filter (\<lambda>r. rp_id r \<notin> set (map dp_stableId ps)) remotePlatforms)"

definition agent_rows :: "'k :: linorder host \<Rightarrow> remote_snapshot \<Rightarrow> desired_agent \<Rightarrow> diff_row list" where
  "agent_rows h remote agent =
     (let agentId = am_agentId (da_metadata agent);
          remoteAgent = map_get ra_agentId (rs_agents remote) agentId;
          settingsRow = diffSettings h agentId (da_settings agent) (rs_agentSettings remote agentId) in
      [diffAgent (da_metadata agent) remoteAgent,
       SettingsRow (if remoteAgent = None then settingsRow \<lparr> row_verb := Create \<rparr> else settingsRow)]
      @ platform_rows h agentId (da_platforms agent) (rs_platformsByAgent remote agentId))"

definition all_agent_rows :: "'k :: linorder host \<Rightarrow> desired_state \<Rightarrow> remote_snapshot \<Rightarrow> diff_row list" where
  "all_agent_rows h d remote =
     concat (map (agent_rows h remote) (ds_agents d))
     @ map (\<lambda>r. AgentRow (drift_row Drift (ra_agentId r) (Some r)))
         (filter (\<lambda>r. ra_agentId r \<notin> set (map (\<lambda>a. am_agentId (da_metadata a)) (ds_agents d))) (rs_agents remote))"

text \<open>Entity types, relationship types and watchers.\<close>

definition memory_rows ::
    "'k :: linorder host \<Rightarrow> bool \<Rightarrow> string option \<Rightarrow> desired_state \<Rightarrow> remote_snapshot \<Rightarrow> diff_row list" where
  "memory_rows h prune orgId d remote =
     (let ownedEntityTypes = filter (\<lambda>e. ownsDefinition orgId (re_organization_id e)) (rs_entityTypes remote);
          ownedRelTypes = filter (\<lambda>r. ownsDefinition orgId (rr_organization_id r)) (rs_relationshipTypes remote) in
      map (\<lambda>e. diffEntityType h e (map_get re_slug ownedEntityTypes (de_slug e))) (ds_entityTypes d)
      @ map (\<lambda>e. EntityTypeRow (drift_row (pruned prune (re_slug e)) (re_slug e) (Some e)))
          (filter (\<lambda>e. re_slug e \<notin> set (map de_slug (ds_entityTypes d))) ownedEntityTypes)
      @ map (\<lambda>r. diffRelationshipType h r (map_get rr_slug ownedRelTypes (dr_slug r))) (ds_relationshipTypes d)
      @ map (\<lambda>r. RelationshipTypeRow (drift_row (pruned prune (rr_slug r)) (rr_slug r) (Some r)))
          (filter (\<lambda>r. rr_slug r \<notin> set (map dr_slug (ds_relationshipTypes d))) ownedRelTypes)
      @ map (\<lambda>w. diffWatcher h w (map_get rw_slug (rs_watchers remote) (dw_slug w))) (ds_watchers d)
      @ map (\<lambda>w. WatcherRow None False (drift_row (pruned prune (rw_slug w)) (rw_slug w) (Some w)))
          (filter (\<lambda>w. rw_slug w \<notin> set (map dw_slug (ds_watchers d))) (rs_watchers remote)))"

text \<open>Connector definitions: the rows and the notes.\<close>

definition installedKeys :: "remote_snapshot \<Rightarrow> string set" where
  "installedKeys remote = set (map rd_key (filter rd_installed (rs_connectorDefinitions remote)))"

definition declaredKeys :: "desired_state \<Rightarrow> string set" where
  "declaredKeys d = set (filter (\<lambda>k. k \<noteq> []) (List.map_filter dd_key (ds_definitions d)))"

definition referencedConnectorKeys :: "desired_state \<Rightarrow> string list" where
  "referencedConnectorKeys d = dedupe (map du_connector (ds_authProfiles d) @ map dc_connector (ds_connections d))"

definition liveConnectorKeys :: "remote_snapshot \<Rightarrow> string set" where
  "liveConnectorKeys remote =
     set (map rc_connector_key (rs_connections remote) @ map ru_connector_key (rs_authProfiles remote))"

definition connector_installs :: "'k :: linorder host \<Rightarrow> desired_state \<Rightarrow> remote_snapshot \<Rightarrow> diff_row list" where
  "connector_installs h d remote =
     (let installable = filter (\<lambda>r. rd_installable r \<and> truthy (rd_source_uri r))
            (sort_key (\<lambda>r. collate h (rd_key r)) (rs_connectorDefinitions remote)) in
      map (\<lambda>key. ConnectorRow None (drift_row Create key None))
        (filter (\<lambda>key. key \<notin> installedKeys remote \<and> key \<notin> declaredKeys d \<and> map_get rd_key installable key \<noteq> None)
          (sort (referencedConnectorKeys d))))"

definition connector_note :: "string \<Rightarrow> string" where
  "connector_note key = ''connector \"'' @ key @ ''\" is installed remotely but not declared in connectors/ - uninstall it manually if it's no longer wanted (lobu apply never auto-uninstalls connectors).''"

text \<open>The installed connectors that no declaration accounts for.\<close>

definition undeclared_connectors ::
    "'k :: linorder host \<Rightarrow> desired_state \<Rightarrow> remote_snapshot \<Rightarrow> remote_connector_definition list" where
  "undeclared_connectors h d remote =
     (if list_ex (\<lambda>c. dd_key c = None) (ds_definitions d) then []
      else filter (\<lambda>r. rd_installed r \<and> \<not> (rd_key r \<in> declaredKeys d \<or> rd_key r \<in> set (referencedConnectorKeys d)))
        (sort_key (\<lambda>r. collate h (rd_key r)) (rs_connectorDefinitions remote)))"

definition removable :: "bool \<Rightarrow> remote_snapshot \<Rightarrow> remote_connector_definition \<Rightarrow> bool" where
  "removable prune remote r \<longleftrightarrow> prune \<and> rd_key r \<notin> liveConnectorKeys remote"

definition connector_rows ::
    "'k :: linorder host \<Rightarrow> bool \<Rightarrow> desired_state \<Rightarrow> remote_snapshot \<Rightarrow> diff_row list" where
  "connector_rows h prune d remote =
     map (\<lambda>c. diffConnectorDefinition c (installedKeys remote)) (ds_definitions d)
     @ connector_installs h d remote
     @ map (\<lambda>r. ConnectorRow None (drift_row Delete (rd_key r) None))
         (filter (removable prune remote) (undeclared_connectors h d remote))"

definition connector_notes ::
    "'k :: linorder host \<Rightarrow> bool \<Rightarrow> desired_state \<Rightarrow> remote_snapshot \<Rightarrow> string list" where
  "connector_notes h prune d remote =
     map (\<lambda>r. connector_note (rd_key r))
       (filter (\<lambda>r. \<not> removable prune remote r) (undeclared_connectors h d remote))"

text \<open>Auth profiles, connections and the feeds of a connection.\<close>

definition feed_rows ::
    "'k :: linorder host \<Rightarrow> remote_snapshot \<Rightarrow> desired_connection \<Rightarrow> remote_connection option \<Rightarrow> diff_row list" where
  "feed_rows h remote conn remoteConn =
     (let remoteFeeds = (case remoteConn of
            Some r \<Rightarrow> sort_key (\<lambda>f. collate h (rf_feed_key f)) (rs_feedsByConnectionId remote (rc_id r)) | None \<Rightarrow> []) in
      map (\<lambda>f. diffFeed h (dc_slug conn) f (map_get rf_feed_key remoteFeeds (df_feedKey f))) (dc_feeds conn)
      @ map (\<lambda>f. FeedRow (dc_slug conn) (drift_row Drift (dc_slug conn @ ''/'' @ rf_feed_key f) (Some f)))
          (filter (\<lambda>f. rf_feed_key f \<notin> set (map df_feedKey (dc_feeds conn))) remoteFeeds))"

definition remote_auth_profile_of :: "'k :: linorder host \<Rightarrow> remote_snapshot \<Rightarrow> string \<Rightarrow> remote_auth_profile option" where
  "remote_auth_profile_of h remote slug = map_get ru_slug (sort_key (\<lambda>p. collate h (ru_slug p)) (rs_authProfiles remote)) slug"

definition auth_profile_rows ::
    "'k :: linorder host \<Rightarrow> desired_state \<Rightarrow> remote_snapshot \<Rightarrow> string + diff_row list" where
  "auth_profile_rows h d remote =
     (let drifted = map (\<lambda>p. AuthProfileRow None (drift_row Drift (ru_slug p) (Some p)))
            (filter (\<lambda>p. ru_slug p \<notin> set (map du_slug (ds_authProfiles d)))
              (sort_key (\<lambda>p. collate h (ru_slug p)) (rs_authProfiles remote))) in
      case collect_rows (\<lambda>p. case diffAuthProfile p (remote_auth_profile_of h remote (du_slug p)) of
             Inl e \<Rightarrow> Inl e | Inr row \<Rightarrow> Inr [row]) (ds_authProfiles d) of
        Inl e \<Rightarrow> Inl e
      | Inr rows \<Rightarrow> Inr (rows @ drifted))"

definition remote_connection_of :: "'k :: linorder host \<Rightarrow> remote_snapshot \<Rightarrow> string \<Rightarrow> remote_connection option" where
  "remote_connection_of h remote slug = map_get rc_slug (sort_key (\<lambda>c. collate h (rc_slug c)) (rs_connections remote)) slug"

definition connection_rows ::
    "'k :: linorder host \<Rightarrow> desired_state \<Rightarrow> remote_snapshot \<Rightarrow> string + diff_row list" where
  "connection_rows h d remote =
     (let drifted = map (\<lambda>c. ConnectionRow (drift_row Drift (rc_slug c) (Some c)))
            (filter (\<lambda>c. rc_slug c \<notin> set (map dc_slug (ds_connections d)))
              (sort_key (\<lambda>c. collate h (rc_slug c)) (rs_connections remote))) in
      case collect_rows (\<lambda>c. case diffConnection h c (remote_connection_of h remote (dc_slug c)) of
             Inl e \<Rightarrow> Inl e
           | Inr row \<Rightarrow> Inr (row # feed_rows h remote c (remote_connection_of h remote (dc_slug c))))
             (ds_connections d) of
        Inl e \<Rightarrow> Inl e
      | Inr rows \<Rightarrow> Inr (rows @ drifted))"

datatype only_kind = Only_agents | Only_memory

record diff_options =
  opt_only :: "only_kind option"
  opt_prune :: bool
  opt_orgId :: "string option"

fun count_verb :: "verb \<Rightarrow> plan_counts \<Rightarrow> plan_counts" where
  "count_verb Create n = n \<lparr> n_create := n_create n + 1 \<rparr>"
| "count_verb Update n = n \<lparr> n_update := n_update n + 1 \<rparr>"
| "count_verb Noop n = n \<lparr> n_noop := n_noop n + 1 \<rparr>"
| "count_verb Drift n = n \<lparr> n_drift := n_drift n + 1 \<rparr>"
| "count_verb Delete n = n \<lparr> n_delete := n_delete n + 1 \<rparr>"

definition make_plan :: "diff_row list \<Rightarrow> string list \<Rightarrow> diff_plan" where
  "make_plan rows notes =
     \<lparr> plan_rows = rows,
       plan_counts_of = fold (\<lambda>row n. count_verb (verb_of row) n) rows
         \<lparr> n_create = 0, n_update = 0, n_noop = 0, n_drift = 0, n_delete = 0 \<rparr>,
       plan_notes = sort notes \<rparr>"

definition computeDiff ::
    "'k :: linorder host \<Rightarrow> desired_state \<Rightarrow> remote_snapshot \<Rightarrow> diff_options \<Rightarrow> string + diff_plan" where
  "computeDiff h d remote opts =
     (let agents = (if opt_only opts \<noteq> Some Only_memory then all_agent_rows h d remote else []);
          memory = (if opt_only opts \<noteq> Some Only_agents
                    then memory_rows h (opt_prune opts) (opt_orgId opts) d remote else []) in
      if opt_only opts \<noteq> None then Inr (make_plan (agents @ memory) [])
      else
        (case auth_profile_rows h d remote of
           Inl e \<Rightarrow> Inl e
         | Inr profiles \<Rightarrow>
             (case connection_rows h d remote of
                Inl e \<Rightarrow> Inl e
              | Inr connections \<Rightarrow>
                  Inr (make_plan
                    (agents @ memory @ connector_rows h (opt_prune opts) d remote @ profiles @ connections)
                    (connector_notes h (opt_prune opts) d remote)))))"

end
