(* ===== verification/Apply_Plan.thy ===== *)
theory Apply_Plan
  imports Apply_Diff
begin

text \<open>
  What the plans of \<open>computeDiff\<close> (\<^verbatim>\<open>Apply_Diff\<close>) promise: that they account for everything
  declared, delete nothing that is not theirs to delete, and when they are refused; and two changes that a plan
  never settles.
\<close>

section \<open>Looking a resource up\<close>

lemma map_get_Some: "map_get key xs k = Some x \<Longrightarrow> x \<in> set xs \<and> key x = k"
  unfolding map_get_def by (auto dest: find_SomeD)

lemma map_get_None [simp]: "map_get key xs k = None \<longleftrightarrow> k \<notin> key ` set xs"
  by (auto simp: map_get_def find_None_iff)

lemma map_get_unique:
  assumes "distinct (map key xs)" "x \<in> set xs"
  shows "map_get key xs (key x) = Some x"
proof (cases "map_get key xs (key x)")
  case None
  with assms(2) show ?thesis by auto
next
  case (Some y)
  from map_get_Some [OF this] have "y \<in> set xs" "key y = key x" by auto
  with assms Some show ?thesis by (auto simp: distinct_map dest: inj_onD)
qed

lemma map_get_sorted:
  assumes "distinct (map key xs)" "x \<in> set xs"
  shows "map_get key (sort_key f xs) (key x) = Some x"
proof (rule map_get_unique)
  show "distinct (map key (sort_key f xs))" using assms(1) by (auto simp: distinct_map)
qed (use assms(2) in simp)

lemma collect_rows_Inr:
  "collect_rows f xs = Inr rows \<Longrightarrow>
     (\<forall>x \<in> set xs. \<exists>ys. f x = Inr ys) \<and> rows = concat (map (\<lambda>x. case f x of Inr ys \<Rightarrow> ys | Inl _ \<Rightarrow> []) xs)"
  by (induction xs arbitrary: rows) (auto split: sum.splits)

lemma collect_rows_mem:
  assumes "collect_rows f xs = Inr rows" "row \<in> set rows"
  obtains x ys where "x \<in> set xs" "f x = Inr ys" "row \<in> set ys"
  using collect_rows_Inr [OF assms(1)] assms(2) by fastforce

lemma collect_rows_Inl: "(\<exists>e. collect_rows f xs = Inl e) \<longleftrightarrow> (\<exists>x \<in> set xs. \<exists>e. f x = Inl e)"
  by (induction xs) (auto split: sum.splits)

section \<open>Rows\<close>

lemma buildDiffRow_shape [simp]:
  "row_verb (buildDiffRow i d r fs) \<noteq> Delete"
  "row_desired (buildDiffRow i d r fs) = Some d" "row_remote (buildDiffRow i d r fs) = r"
  by (auto simp: buildDiffRow_def Let_def split: option.splits)

lemma drift_row_simps [simp]:
  "row_verb (drift_row v i r) = v" "row_id (drift_row v i r) = i" "row_desired (drift_row v i r) = None"
  "row_remote (drift_row v i r) = r" "row_changed (drift_row v i r) = None"
  by (simp_all add: drift_row_def)

lemma drift_row_inject [simp]: "drift_row v i r = drift_row v' i' r' \<longleftrightarrow> v = v' \<and> i = i' \<and> r = r'"
  by (auto simp: drift_row_def)

lemma pruned_cases [simp]: "pruned p s = Drift \<or> pruned p s = Delete"
  by (simp add: pruned_def)

text \<open>The rows of the fallible parts of the plan, once they succeed.\<close>

lemma auth_profile_rows_cases:
  assumes "auth_profile_rows h d remote = Inr rows" "row \<in> set rows"
  obtains (declared) p where "p \<in> set (ds_authProfiles d)"
      "diffAuthProfile p (remote_auth_profile_of h remote (du_slug p)) = Inr row"
  | (drift) p where "p \<in> set (rs_authProfiles remote)" "row = AuthProfileRow None (drift_row Drift (ru_slug p) (Some p))"
      "ru_slug p \<notin> set (map du_slug (ds_authProfiles d))"
  using assms
  by (auto simp: auth_profile_rows_def Let_def split: sum.splits elim!: collect_rows_mem)

lemma connection_rows_cases:
  assumes "connection_rows h d remote = Inr rows" "row \<in> set rows"
  obtains (declared) c where "c \<in> set (ds_connections d)"
      "diffConnection h c (remote_connection_of h remote (dc_slug c)) = Inr row"
  | (feed) c where "c \<in> set (ds_connections d)"
      "row \<in> set (feed_rows h remote c (remote_connection_of h remote (dc_slug c)))"
  | (drift) c where "c \<in> set (rs_connections remote)" "row = ConnectionRow (drift_row Drift (rc_slug c) (Some c))"
      "rc_slug c \<notin> set (map dc_slug (ds_connections d))"
  using assms
  by (auto simp: connection_rows_def Let_def split: sum.splits elim!: collect_rows_mem)

lemma plan_cases:
  assumes "computeDiff h d remote opts = Inr p" "row \<in> set (plan_rows p)"
  obtains (agents) "row \<in> set (all_agent_rows h d remote)" "opt_only opts \<noteq> Some Only_memory"
  | (memory) "row \<in> set (memory_rows h (opt_prune opts) (opt_orgId opts) d remote)" "opt_only opts \<noteq> Some Only_agents"
  | (connectors) "row \<in> set (connector_rows h (opt_prune opts) d remote)" "opt_only opts = None"
  | (profiles) rows where "auth_profile_rows h d remote = Inr rows" "row \<in> set rows" "opt_only opts = None"
  | (connections) rows where "connection_rows h d remote = Inr rows" "row \<in> set rows" "opt_only opts = None"
  using assms
  by (auto simp: computeDiff_def make_plan_def Let_def split: sum.splits if_splits)

section \<open>What the plan says\<close>

text \<open>Which resources of the server a plan may delete.\<close>

fun removal_allowed :: "desired_state \<Rightarrow> remote_snapshot \<Rightarrow> string option \<Rightarrow> diff_row \<Rightarrow> bool" where
  "removal_allowed d remote org (EntityTypeRow b) =
     list_ex (\<lambda>e. row_remote b = Some e \<and> row_id b = re_slug e \<and> ownsDefinition org (re_organization_id e)
       \<and> \<not> isSystemSlug (re_slug e) \<and> re_slug e \<notin> set (map de_slug (ds_entityTypes d))) (rs_entityTypes remote)"
| "removal_allowed d remote org (RelationshipTypeRow b) =
     list_ex (\<lambda>e. row_remote b = Some e \<and> row_id b = rr_slug e \<and> ownsDefinition org (rr_organization_id e)
       \<and> \<not> isSystemSlug (rr_slug e) \<and> rr_slug e \<notin> set (map dr_slug (ds_relationshipTypes d)))
       (rs_relationshipTypes remote)"
| "removal_allowed d remote org (WatcherRow v s b) =
     list_ex (\<lambda>w. row_remote b = Some w \<and> row_id b = rw_slug w \<and> \<not> isSystemSlug (rw_slug w)
       \<and> rw_slug w \<notin> set (map dw_slug (ds_watchers d))) (rs_watchers remote)"
| "removal_allowed d remote org (ConnectorRow i b) =
     (row_id b \<in> installedKeys remote \<and> row_id b \<notin> declaredKeys d \<and> row_id b \<notin> set (referencedConnectorKeys d)
      \<and> row_id b \<notin> liveConnectorKeys remote \<and> list_all (\<lambda>c. dd_key c \<noteq> None) (ds_definitions d))"
| "removal_allowed d remote org _ = False"

lemma pruned_Delete [simp]: "pruned prune slug = Delete \<longleftrightarrow> prune \<and> \<not> isSystemSlug slug"
  by (simp add: pruned_def)

lemma compared_not_deleted [simp]:
  "verb_of (diffAgent m ra) \<noteq> Delete" "verb_of (diffPlatform h a p rp) \<noteq> Delete"
  "verb_of (diffEntityType h e re) \<noteq> Delete" "verb_of (diffRelationshipType h t rr) \<noteq> Delete"
  "verb_of (diffWatcher h w rw) \<noteq> Delete" "verb_of (diffConnectorDefinition c ks) \<noteq> Delete"
  "verb_of (diffFeed h s f rf) \<noteq> Delete"
  by (simp_all add: diffAgent_def diffPlatform_def diffEntityType_def diffRelationshipType_def diffWatcher_def
      diffConnectorDefinition_def diffFeed_def Let_def split: option.splits)

lemma fallible_not_deleted:
  "diffAuthProfile q rq = Inr row \<Longrightarrow> verb_of row \<noteq> Delete"
  "diffConnection h c rc = Inr row \<Longrightarrow> verb_of row \<noteq> Delete"
  by (auto simp: diffAuthProfile_def diffConnection_def Let_def split: option.splits if_splits)

lemma agents_not_deleted: "row \<in> set (all_agent_rows h d remote) \<Longrightarrow> verb_of row \<noteq> Delete"
proof -
  have "row_verb (diffSettings h a s r) \<noteq> Delete" for a s r by (simp add: diffSettings_def Let_def)
  then show "row \<in> set (all_agent_rows h d remote) \<Longrightarrow> verb_of row \<noteq> Delete"
    by (auto simp: all_agent_rows_def agent_rows_def platform_rows_def Let_def split: if_splits)
qed

lemma feeds_not_deleted: "row \<in> set (feed_rows h remote c rc) \<Longrightarrow> verb_of row \<noteq> Delete"
  by (auto simp: feed_rows_def Let_def)

lemma memory_delete:
  "row \<in> set (memory_rows h prune org d remote) \<Longrightarrow> verb_of row = Delete \<Longrightarrow> prune \<and> removal_allowed d remote org row"
  by (auto simp: memory_rows_def Let_def list_ex_iff)

lemma connector_delete:
  "row \<in> set (connector_rows h prune d remote) \<Longrightarrow> verb_of row = Delete \<Longrightarrow> prune \<and> removal_allowed d remote org row"
  by (auto simp: connector_rows_def connector_installs_def undeclared_connectors_def removable_def
      installedKeys_def list_all_iff list_ex_iff Let_def split: if_splits)

text \<open>
  C8: A plan deletes nothing unless the configuration says \<^verbatim>\<open>prune\<close>, and then only definitions:
  an entity type, relationship type or watcher that the configuration does not declare, that is not
  a system definition and (for the types, which the server also lists for other organisations) is
  the organisation's own; or an installed connector that nothing declares or refers to and that
  no connection or auth profile of the server uses. Agents, platforms, connections, auth
  profiles and feeds are never deleted.
\<close>

theorem plan_deletes_only_undeclared:
  assumes "computeDiff h d remote opts = Inr p" "row \<in> set (plan_rows p)" "verb_of row = Delete"
  shows "opt_prune opts \<and> removal_allowed d remote (opt_orgId opts) row"
  using assms(1,2)
proof (cases rule: plan_cases)
  case agents
  with assms(3) agents_not_deleted show ?thesis by blast
next
  case (profiles rows)
  from profiles(1,2) show ?thesis
    by (cases rule: auth_profile_rows_cases) (use assms(3) fallible_not_deleted in \<open>fastforce+\<close>)
next
  case (connections rows)
  from connections(1,2) show ?thesis
    by (cases rule: connection_rows_cases) (use assms(3) fallible_not_deleted feeds_not_deleted in \<open>fastforce+\<close>)
qed (use assms(3) memory_delete connector_delete in blast)+

text \<open>
  The counts of a plan are those of its rows: each verb's count is the number of the rows with
  that verb.
\<close>

definition count_of :: "plan_counts \<Rightarrow> verb \<Rightarrow> nat" where
  "count_of n v = (case v of Create \<Rightarrow> n_create n | Update \<Rightarrow> n_update n | Noop \<Rightarrow> n_noop n
     | Drift \<Rightarrow> n_drift n | Delete \<Rightarrow> n_delete n)"

lemma count_verb_of: "count_of (count_verb w n) v = count_of n v + (if w = v then 1 else 0)"
  by (cases w; cases v) (simp_all add: count_of_def)

lemma fold_counts:
  "count_of (fold (\<lambda>row n. count_verb (verb_of row) n) rows n) v
     = count_of n v + length (filter (\<lambda>row. verb_of row = v) rows)"
  by (induction rows arbitrary: n) (simp_all add: count_verb_of)

lemma plan_counts_rows:
  assumes "computeDiff h d remote opts = Inr p"
  shows "count_of (plan_counts_of p) v = length (filter (\<lambda>row. verb_of row = v) (plan_rows p))"
proof -
  obtain rows ns where p: "p = make_plan rows ns"
    using assms by (auto simp: computeDiff_def Let_def split: sum.splits if_splits)
  show ?thesis unfolding p
    by (simp add: make_plan_def fold_counts) (simp add: count_of_def split: verb.splits)
qed

section \<open>A plan accounts for everything declared\<close>

datatype declared =
    Agent_of agent_metadata
  | Settings_of string settings
  | Platform_of string desired_platform
  | Entity_type_of desired_entity_type
  | Relationship_type_of desired_relationship_type
  | Watcher_of desired_watcher
  | Definition_of desired_connector_definition
  | Auth_profile_of desired_auth_profile
  | Connection_of desired_connection
  | Feed_of string desired_feed

text \<open>The declared resource of a row, and all that a configuration declares.\<close>

fun declared_of :: "diff_row \<Rightarrow> declared option" where
  "declared_of (AgentRow b) = map_option Agent_of (row_desired b)"
| "declared_of (SettingsRow b) = map_option (Settings_of (row_id b)) (row_desired b)"
| "declared_of (PlatformRow a w b) = map_option (Platform_of a) (row_desired b)"
| "declared_of (EntityTypeRow b) = map_option Entity_type_of (row_desired b)"
| "declared_of (RelationshipTypeRow b) = map_option Relationship_type_of (row_desired b)"
| "declared_of (WatcherRow v s b) = map_option Watcher_of (row_desired b)"
| "declared_of (ConnectorRow i b) = map_option Definition_of (row_desired b)"
| "declared_of (AuthProfileRow n b) = map_option Auth_profile_of (row_desired b)"
| "declared_of (ConnectionRow b) = map_option Connection_of (row_desired b)"
| "declared_of (FeedRow c b) = map_option (Feed_of c) (row_desired b)"

definition agent_declares :: "desired_agent \<Rightarrow> declared list" where
  "agent_declares a = (let i = am_agentId (da_metadata a) in
     Agent_of (da_metadata a) # Settings_of i (da_settings a) # map (Platform_of i) (da_platforms a))"

definition connection_declares :: "desired_connection \<Rightarrow> declared list" where
  "connection_declares c = Connection_of c # map (Feed_of (dc_slug c)) (dc_feeds c)"

definition everything_declared :: "desired_state \<Rightarrow> only_kind option \<Rightarrow> declared list" where
  "everything_declared d only =
     (if only \<noteq> Some Only_memory then concat (map agent_declares (ds_agents d)) else [])
     @ (if only \<noteq> Some Only_agents
        then map Entity_type_of (ds_entityTypes d) @ map Relationship_type_of (ds_relationshipTypes d)
          @ map Watcher_of (ds_watchers d) else [])
     @ (if only = None
        then map Definition_of (ds_definitions d) @ map Auth_profile_of (ds_authProfiles d)
          @ concat (map connection_declares (ds_connections d)) else [])"

text \<open>The elements of a list that a partial function keeps.\<close>

lemma keep_simps:
  "List.map_filter f [] = []"
  "List.map_filter f (x # xs) = (case f x of None \<Rightarrow> List.map_filter f xs | Some y \<Rightarrow> y # List.map_filter f xs)"
  by (auto simp: List.map_filter_def)

lemma keep_append: "List.map_filter f (xs @ ys) = List.map_filter f xs @ List.map_filter f ys"
  by (simp add: List.map_filter_def)

lemma keep_concat: "List.map_filter f (concat xss) = concat (map (List.map_filter f) xss)"
  by (induction xss) (simp_all add: keep_simps keep_append)

lemma keep_map: "List.map_filter f (map g xs) = List.map_filter (\<lambda>x. f (g x)) xs"
  by (induction xs) (simp_all add: keep_simps split: option.split)

lemma keep_all: "List.map_filter (\<lambda>x. Some (g x)) xs = map g xs"
  by (simp add: List.map_filter_def)

lemma keep_none: "List.map_filter (\<lambda>x. None) xs = []"
  by (simp add: List.map_filter_def)

lemma collect_rows_keep:
  assumes "\<And>x ys. f x = Inr ys \<Longrightarrow> List.map_filter g ys = k x"
  shows "collect_rows f xs = Inr rows \<Longrightarrow> List.map_filter g rows = concat (map k xs)"
  by (induction xs arbitrary: rows) (auto simp: keep_simps keep_append assms split: sum.splits)

lemmas keep = keep_append keep_concat keep_map keep_all keep_none keep_simps

lemma compared_declared [simp]:
  "declared_of (diffAgent m ra) = Some (Agent_of m)"
  "declared_of (diffPlatform h a p rp) = Some (Platform_of a p)"
  "declared_of (diffEntityType h e re) = Some (Entity_type_of e)"
  "declared_of (diffRelationshipType h t rr) = Some (Relationship_type_of t)"
  "declared_of (diffWatcher h w rw) = Some (Watcher_of w)"
  "declared_of (diffConnectorDefinition x ks) = Some (Definition_of x)"
  "declared_of (diffFeed h s f rf) = Some (Feed_of s f)"
  by (simp_all add: diffAgent_def diffPlatform_def diffEntityType_def diffRelationshipType_def diffWatcher_def
      diffConnectorDefinition_def diffFeed_def Let_def split: option.splits)

lemma compared_profile: "diffAuthProfile q rq = Inr row \<Longrightarrow> declared_of row = Some (Auth_profile_of q)"
  by (auto simp: diffAuthProfile_def Let_def split: option.splits if_splits)

lemma compared_connection: "diffConnection h c rc = Inr row \<Longrightarrow> declared_of row = Some (Connection_of c)"
  by (auto simp: diffConnection_def split: if_splits)

lemma agent_rows_declared: "List.map_filter declared_of (agent_rows h remote a) = agent_declares a"
  by (simp add: agent_rows_def agent_declares_def platform_rows_def diffSettings_def Let_def keep)

lemma all_agent_rows_declared:
  "List.map_filter declared_of (all_agent_rows h d remote) = concat (map agent_declares (ds_agents d))"
  by (simp add: all_agent_rows_def keep agent_rows_declared comp_def)

lemma memory_rows_declared:
  "List.map_filter declared_of (memory_rows h prune org d remote) =
     map Entity_type_of (ds_entityTypes d) @ map Relationship_type_of (ds_relationshipTypes d)
     @ map Watcher_of (ds_watchers d)"
  by (simp add: memory_rows_def Let_def keep)

lemma connector_rows_declared:
  "List.map_filter declared_of (connector_rows h prune d remote) = map Definition_of (ds_definitions d)"
  by (simp add: connector_rows_def connector_installs_def Let_def keep)

lemma feed_rows_declared:
  "List.map_filter declared_of (feed_rows h remote c rc) = map (Feed_of (dc_slug c)) (dc_feeds c)"
  by (simp add: feed_rows_def Let_def keep)

lemma auth_profile_rows_declared:
  assumes "auth_profile_rows h d remote = Inr rows"
  shows "List.map_filter declared_of rows = map Auth_profile_of (ds_authProfiles d)"
proof -
  let ?f = "\<lambda>p. case diffAuthProfile p (remote_auth_profile_of h remote (du_slug p)) of
    Inl e \<Rightarrow> Inl e | Inr row \<Rightarrow> Inr [row]"
  have one: "List.map_filter declared_of ys = [Auth_profile_of p]" if "?f p = Inr ys" for p ys
    using that by (auto simp: keep compared_profile split: sum.splits)
  from assms obtain ys where ys: "collect_rows ?f (ds_authProfiles d) = Inr ys"
    and rows: "List.map_filter declared_of rows = List.map_filter declared_of ys"
    by (auto simp: auth_profile_rows_def Let_def keep split: sum.splits)
  have "List.map_filter declared_of ys = concat (map (\<lambda>p. [Auth_profile_of p]) (ds_authProfiles d))"
    by (rule collect_rows_keep [OF one ys])
  with rows show ?thesis by (simp add: concat_map_singleton)
qed

lemma connection_rows_declared:
  assumes "connection_rows h d remote = Inr rows"
  shows "List.map_filter declared_of rows = concat (map connection_declares (ds_connections d))"
proof -
  let ?f = "\<lambda>c. case diffConnection h c (remote_connection_of h remote (dc_slug c)) of
    Inl e \<Rightarrow> Inl e | Inr row \<Rightarrow> Inr (row # feed_rows h remote c (remote_connection_of h remote (dc_slug c)))"
  have one: "List.map_filter declared_of ys = connection_declares c" if "?f c = Inr ys" for c ys
    using that by (auto simp: keep compared_connection connection_declares_def feed_rows_declared split: sum.splits)
  from assms obtain ys where ys: "collect_rows ?f (ds_connections d) = Inr ys"
    and rows: "List.map_filter declared_of rows = List.map_filter declared_of ys"
    by (auto simp: connection_rows_def Let_def keep split: sum.splits)
  have "List.map_filter declared_of ys = concat (map connection_declares (ds_connections d))"
    by (rule collect_rows_keep [OF one ys])
  with rows show ?thesis by simp
qed

text \<open>
  C37: A plan has exactly one row for every declared agent, settings patch, platform, entity type,
  relationship type, watcher, connector definition, auth profile, connection and feed of the
  kinds it is limited to, in the order of the configuration: nothing declared is left out and
  nothing is planned twice.
\<close>

theorem plan_accounts_for_declared:
  assumes "computeDiff h d remote opts = Inr p"
  shows "List.map_filter declared_of (plan_rows p) = everything_declared d (opt_only opts)"
proof (cases "opt_only opts")
  case None
  with assms obtain profiles connections where
    "auth_profile_rows h d remote = Inr profiles" "connection_rows h d remote = Inr connections"
    "plan_rows p = all_agent_rows h d remote @ memory_rows h (opt_prune opts) (opt_orgId opts) d remote
       @ connector_rows h (opt_prune opts) d remote @ profiles @ connections"
    by (auto simp: computeDiff_def make_plan_def Let_def split: sum.splits)
  with None show ?thesis
    by (simp add: everything_declared_def keep_append all_agent_rows_declared memory_rows_declared
        connector_rows_declared auth_profile_rows_declared connection_rows_declared)
next
  case (Some k)
  with assms have "plan_rows p = (if k \<noteq> Only_memory then all_agent_rows h d remote else [])
      @ (if k \<noteq> Only_agents then memory_rows h (opt_prune opts) (opt_orgId opts) d remote else [])"
    by (auto simp: computeDiff_def make_plan_def Let_def)
  with Some show ?thesis
    by (simp add: everything_declared_def keep_append all_agent_rows_declared memory_rows_declared keep_simps)
qed

section \<open>When a plan is refused\<close>

lemma map_get_sorted_iff:
  assumes "distinct (map key xs)"
  shows "map_get key (sort_key f xs) k = Some x \<longleftrightarrow> x \<in> set xs \<and> key x = k"
proof
  assume "map_get key (sort_key f xs) k = Some x"
  from map_get_Some [OF this] show "x \<in> set xs \<and> key x = k" by simp
next
  assume "x \<in> set xs \<and> key x = k"
  then show "map_get key (sort_key f xs) k = Some x" using map_get_sorted [OF assms] by blast
qed

definition bound_elsewhere :: "desired_auth_profile \<Rightarrow> remote_auth_profile \<Rightarrow> bool" where
  "bound_elsewhere p r \<longleftrightarrow>
     ru_slug r = du_slug p \<and> (ru_connector_key r \<noteq> du_connector p \<or> ru_profile_kind r \<noteq> du_kind p)"

lemma profile_refused:
  "(\<exists>e. diffAuthProfile p rp = Inl e) \<longleftrightarrow>
     (\<exists>r. rp = Some r \<and> (ru_connector_key r \<noteq> du_connector p \<or> ru_profile_kind r \<noteq> du_kind p))"
  by (auto simp: diffAuthProfile_def Let_def split: option.splits)

lemma connection_refused:
  "(\<exists>e. diffConnection h c rc = Inl e) \<longleftrightarrow> (\<exists>r. rc = Some r \<and> rc_connector_key r \<noteq> dc_connector c)"
  by (auto simp: diffConnection_def split: option.splits)

lemma Inl_of_case: "(\<exists>e. (case x of Inl e \<Rightarrow> Inl e | Inr y \<Rightarrow> Inr (g y)) = Inl e) \<longleftrightarrow> (\<exists>e. x = Inl e)"
  by (simp split: sum.split)

lemma auth_profile_rows_refused:
  assumes "distinct (map ru_slug (rs_authProfiles remote))"
  shows "(\<exists>e. auth_profile_rows h d remote = Inl e) \<longleftrightarrow>
     (\<exists>p \<in> set (ds_authProfiles d). \<exists>r \<in> set (rs_authProfiles remote). bound_elsewhere p r)"
proof -
  have "(\<exists>e. auth_profile_rows h d remote = Inl e) \<longleftrightarrow>
      (\<exists>p \<in> set (ds_authProfiles d). \<exists>e. diffAuthProfile p (remote_auth_profile_of h remote (du_slug p)) = Inl e)"
  proof -
    have "(\<exists>e. auth_profile_rows h d remote = Inl e) \<longleftrightarrow>
        (\<exists>e. collect_rows (\<lambda>p. case diffAuthProfile p (remote_auth_profile_of h remote (du_slug p)) of
          Inl e \<Rightarrow> Inl e | Inr row \<Rightarrow> Inr [row]) (ds_authProfiles d) = Inl e)"
      by (simp add: auth_profile_rows_def Let_def split: sum.split)
    then show ?thesis unfolding collect_rows_Inl by (simp add: Inl_of_case)
  qed
  then show ?thesis
    by (auto simp: profile_refused remote_auth_profile_of_def map_get_sorted_iff [OF assms] bound_elsewhere_def)
qed

lemma connection_rows_refused:
  assumes "distinct (map rc_slug (rs_connections remote))"
  shows "(\<exists>e. connection_rows h d remote = Inl e) \<longleftrightarrow>
     (\<exists>c \<in> set (ds_connections d). \<exists>r \<in> set (rs_connections remote).
        rc_slug r = dc_slug c \<and> rc_connector_key r \<noteq> dc_connector c)"
proof -
  have "(\<exists>e. connection_rows h d remote = Inl e) \<longleftrightarrow>
      (\<exists>c \<in> set (ds_connections d). \<exists>e. diffConnection h c (remote_connection_of h remote (dc_slug c)) = Inl e)"
  proof -
    have "(\<exists>e. connection_rows h d remote = Inl e) \<longleftrightarrow>
        (\<exists>e. collect_rows (\<lambda>c. case diffConnection h c (remote_connection_of h remote (dc_slug c)) of
          Inl e \<Rightarrow> Inl e | Inr row \<Rightarrow> Inr (row # feed_rows h remote c (remote_connection_of h remote (dc_slug c))))
          (ds_connections d) = Inl e)"
      by (simp add: connection_rows_def Let_def split: sum.split)
    then show ?thesis unfolding collect_rows_Inl by (simp add: Inl_of_case)
  qed
  then show ?thesis
    by (auto simp: connection_refused remote_connection_of_def map_get_sorted_iff [OF assms])
qed

text \<open>
  A full apply is refused with a validation error exactly if a declared auth profile has the
  slug of one that is bound to another connector or is of another kind on the server, or a
  declared connection the slug of one of another connector; then there is no plan at all. An
  apply limited to agents or memory is never refused.
\<close>

theorem plan_refused_iff:
  assumes "distinct (map ru_slug (rs_authProfiles remote))" "distinct (map rc_slug (rs_connections remote))"
  shows "(\<exists>e. computeDiff h d remote opts = Inl e) \<longleftrightarrow> opt_only opts = None
     \<and> ((\<exists>p \<in> set (ds_authProfiles d). \<exists>r \<in> set (rs_authProfiles remote). bound_elsewhere p r)
        \<or> (\<exists>c \<in> set (ds_connections d). \<exists>r \<in> set (rs_connections remote).
             rc_slug r = dc_slug c \<and> rc_connector_key r \<noteq> dc_connector c))"
  using auth_profile_rows_refused [OF assms(1), of h d] connection_rows_refused [OF assms(2), of h d]
  by (auto simp: computeDiff_def Let_def split: sum.splits)

section \<open>Changes a plan never settles\<close>

text \<open>
  The name and the description of a watcher are not compared: the verb of its row does not depend on them, so a change of
  either after the creation is never applied.
\<close>

lemma renamed_watcher_unnoticed:
  "verb_of (diffWatcher h (w \<lparr> dw_name := n, dw_description := t \<rparr>) (Some r)) = verb_of (diffWatcher h w (Some r))"
  by (simp add: diffWatcher_def watcher_scalar_def watcher_version_bound_def Let_def)

text \<open>
  An auth profile without a name is created with its slug as its display name, and updated without one: every later plan
  updates it again.
\<close>

lemma nameless_profile_updated_again:
  assumes "du_name p = None" "ru_display_name r = Some (du_slug p)" "du_slug p \<noteq> []"
    and "ru_connector_key r = du_connector p" "ru_profile_kind r = du_kind p"
  shows "\<exists>row. diffAuthProfile p (Some r) = Inr row \<and> verb_of row = Update"
  using assms by (simp add: diffAuthProfile_def names_of_def stringChanged_def or_empty_text_def Let_def)

section \<open>Witnesses\<close>

definition sample_host :: "string host" where
  "sample_host = \<lparr> collate = (\<lambda>k. k), number_text = (\<lambda>n. []) \<rparr>"

definition sample_agent :: desired_agent where
  "sample_agent = \<lparr> da_metadata = \<lparr> am_agentId = ''bot'', am_name = ''Bot'', am_description = None \<rparr>,
     da_settings = [(''soulMd'', Some (JStr ''kind''))],
     da_platforms = [\<lparr> dp_stableId = ''bot-slack'', dp_type = ''slack'',
       dp_config = [(''botToken'', Some (JStr ''$TOKEN'')), (''team'', Some (JStr ''T1''))] \<rparr>] \<rparr>"

definition sample_connection :: desired_connection where
  "sample_connection = \<lparr> dc_slug = ''repo'', dc_connector = ''github'', dc_name = None, dc_authProfileSlug = None,
     dc_appAuthProfileSlug = None, dc_config = None, dc_deviceWorkerId = None,
     dc_feeds = [\<lparr> df_feedKey = ''issues'', df_name = None, df_schedule = None, df_config = None \<rparr>],
     dc_sourceFile = ''lobu.config.ts'' \<rparr>"

definition sample_desired :: desired_state where
  "sample_desired = \<lparr> ds_agents = [sample_agent], ds_entityTypes = [], ds_relationshipTypes = [], ds_watchers = [],
     ds_definitions = [], ds_authProfiles = [], ds_connections = [sample_connection] \<rparr>"

text \<open>A server with another entity type than the declared ones, and the connection on another connector.\<close>

definition sample_server :: "string \<Rightarrow> remote_snapshot" where
  "sample_server connector = \<lparr> rs_agents = [], rs_agentSettings = (\<lambda>i. None), rs_platformsByAgent = (\<lambda>i. []),
     rs_entityTypes = [\<lparr> re_slug = ''note'', re_name = None, re_description = None, re_required = None,
       re_properties = None, re_backing = None, re_organization_id = Some ''org1'' \<rparr>,
       \<lparr> re_slug = ''$member'', re_name = None, re_description = None, re_required = None,
       re_properties = None, re_backing = None, re_organization_id = Some ''org1'' \<rparr>],
     rs_relationshipTypes = [], rs_watchers = [], rs_connectorDefinitions = [], rs_authProfiles = [],
     rs_connections = [\<lparr> rc_id = 1, rc_slug = ''repo'', rc_connector_key = connector, rc_display_name = None,
       rc_auth_profile_slug = None, rc_app_auth_profile_slug = None, rc_config = None, rc_device_worker_id = None \<rparr>],
     rs_feedsByConnectionId = (\<lambda>i. []) \<rparr>"

definition prune_all :: diff_options where
  "prune_all = \<lparr> opt_only = None, opt_prune = True, opt_orgId = Some ''org1'' \<rparr>"

definition sample_plan :: diff_plan where
  "sample_plan = (case computeDiff sample_host sample_desired (sample_server ''github'') prune_all of
     Inr p \<Rightarrow> p | Inl e \<Rightarrow> make_plan [] [])"

lemma sample_computed: "computeDiff sample_host sample_desired (sample_server ''github'') prune_all = Inr sample_plan"
  by code_simp

lemma sample_verbs: "map verb_of (plan_rows sample_plan) = [Create, Create, Create, Delete, Drift, Noop, Create]"
  by code_simp

lemma sample_nth: "i < 7 \<Longrightarrow> plan_rows sample_plan ! i \<in> set (plan_rows sample_plan)"
proof -
  have "length (plan_rows sample_plan) = 7" by code_simp
  then show "i < 7 \<Longrightarrow> plan_rows sample_plan ! i \<in> set (plan_rows sample_plan)" by (intro nth_mem) simp
qed

lemma plan_deletes_only_undeclared_witness:
  "removal_allowed sample_desired (sample_server ''github'') (Some ''org1'') (plan_rows sample_plan ! 3)"
proof -
  have "verb_of (plan_rows sample_plan ! 3) = Delete" by code_simp
  with plan_deletes_only_undeclared [OF sample_computed sample_nth, of 3] show ?thesis
    by (simp add: prune_all_def)
qed

lemma plan_accounts_for_declared_witness:
  "List.map_filter declared_of (plan_rows sample_plan) = everything_declared sample_desired None
   \<and> length (everything_declared sample_desired None) = 5"
proof
  show "List.map_filter declared_of (plan_rows sample_plan) = everything_declared sample_desired None"
    using plan_accounts_for_declared [OF sample_computed] by (simp add: prune_all_def)
  show "length (everything_declared sample_desired None) = 5" by code_simp
qed

lemma plan_refused_iff_witness:
  "(\<exists>e. computeDiff sample_host sample_desired (sample_server ''gitlab'') prune_all = Inl e)
   \<and> \<not> (\<exists>e. computeDiff sample_host sample_desired (sample_server ''github'') prune_all = Inl e)"
  by (subst (1 2) plan_refused_iff)
    (simp_all add: sample_server_def sample_desired_def sample_connection_def prune_all_def)

end
