(* ===== verification/Tool_Policy.thy ===== *)
theory Tool_Policy
  imports Regex
begin

text \<open>
  Which tools an agent may call and which shell commands its \<^verbatim>\<open>bash\<close> tool may run:
  \<^verbatim>\<open>packages/agent-worker/src/openclaw/tool-policy.ts\<close>. \<open>splitShellCommands\<close> is the lexer
  that cuts a command line into its sub-commands, \<open>enforceBashCommandPolicy\<close> checks each; a thrown
  error is an \<open>Inl\<close>. The second half states what the check is worth against a grammar of shell
  scripts with their nested substitutions (\<open>script\<close>), and what it misses.
\<close>

section \<open>Patterns\<close>

record tools_config =
  tc_allowedTools :: "string list option"
  tc_deniedTools :: "string list option"
  tc_strictMode :: "bool option"

record bash_policy =
  allowAll :: bool
  allowPrefixes :: "string list"
  denyPrefixes :: "string list"

record tool_policy =
  tp_config :: "tools_config option"
  allowedPatterns :: "string list"
  deniedPatterns :: "string list"
  strictMode :: bool
  bashPolicy :: bash_policy

definition DEFAULT_PACKAGE_MANAGER_DENY_PREFIXES :: "string list" where
  "DEFAULT_PACKAGE_MANAGER_DENY_PREFIXES =
     [''apt '', ''apt-get '', ''yum '', ''dnf '', ''apk '', ''pacman '', ''zypper '', ''brew '', ''nix-shell '',
      ''nix-env '', ''nix profile '', ''sudo apt '', ''sudo apt-get '', ''sudo yum '', ''sudo dnf '', ''sudo apk '',
      ''sudo pacman '', ''sudo zypper '', ''sudo brew '', ''sudo nix-shell '', ''sudo nix-env '',
      ''sudo nix profile '', ''pip install '', ''pip3 install '', ''uv pip install '', ''npm install '', ''npm i '',
      ''pnpm install '', ''pnpm add '', ''yarn install '', ''yarn add '', ''bun install '', ''bun add '',
      ''cargo install '', ''go install '', ''gem install '', ''poetry add '', ''composer require '']"

text \<open>The regular expressions: a start, some words with blanks between them, a word boundary.\<close>

definition command_start :: re where
  "command_start = Alt Line_Start (Cls (\<lambda>c. is_space c \<or> c \<in> {CHR 0x22, CHR 0x27, CHR 0x60, CHR 0x3B, CHR 0x7C, CHR 0x26, CHR 0x28, CHR 0x29}))"

definition blanks :: re where
  "blanks = Rep 1 None (Cls is_space)"

fun one_of :: "string list \<Rightarrow> re" where
  "one_of [] = Cls (\<lambda>_. False)"
| "one_of [w] = literal w"
| "one_of (w # ws) = Alt (literal w) (one_of ws)"

definition DIRECT_PACKAGE_INSTALL_PATTERNS :: "re list" where
  "DIRECT_PACKAGE_INSTALL_PATTERNS =
     [seq_of [command_start, opt (Seq (literal ''sudo'') blanks),
        one_of [''apt'', ''apt-get'', ''yum'', ''dnf'', ''apk'', ''pacman'', ''zypper'', ''brew''], blanks,
        one_of [''install'', ''upgrade'', ''add''], Word_Boundary],
      seq_of [command_start, opt (Seq (literal ''sudo'') blanks), one_of [''nix-shell'', ''nix-env''], Word_Boundary],
      seq_of [command_start, opt (Seq (literal ''sudo'') blanks), literal ''nix'', blanks, literal ''profile'', Word_Boundary],
      seq_of [command_start, one_of [''pip'', ''pip3''], blanks, literal ''install'', Word_Boundary],
      seq_of [command_start, literal ''uv'', blanks, literal ''pip'', blanks, literal ''install'', Word_Boundary],
      seq_of [command_start, literal ''npm'', blanks, one_of [''install'', ''i''], Word_Boundary],
      seq_of [command_start, literal ''pnpm'', blanks, one_of [''install'', ''add''], Word_Boundary],
      seq_of [command_start, literal ''yarn'', blanks,
        Alt (literal ''install'') (Alt (literal ''add'') (seq_of [literal ''global'', blanks, literal ''add''])), Word_Boundary],
      seq_of [command_start, literal ''bun'', blanks, one_of [''install'', ''add''], Word_Boundary],
      seq_of [command_start, literal ''cargo'', blanks, literal ''install'', Word_Boundary],
      seq_of [command_start, literal ''go'', blanks, literal ''install'', Word_Boundary],
      seq_of [command_start, literal ''gem'', blanks, literal ''install'', Word_Boundary],
      seq_of [command_start, literal ''poetry'', blanks, literal ''add'', Word_Boundary],
      seq_of [command_start, literal ''composer'', blanks, literal ''require'', Word_Boundary]]"

definition isDirectPackageInstallCommand :: "string \<Rightarrow> bool" where
  "isDirectPackageInstallCommand command =
     (let trimmed = lower (trim command) in
      if trimmed = [] then False
      else list_ex (\<lambda>prefix. starts_with trimmed (lower prefix)) DEFAULT_PACKAGE_MANAGER_DENY_PREFIXES
        \<or> list_ex (\<lambda>pattern. re_test pattern trimmed) DIRECT_PACKAGE_INSTALL_PATTERNS)"

definition normalizeToolName :: "string \<Rightarrow> string" where
  "normalizeToolName name = lower (trim name)"

text \<open>A list of tool names, or one text of them.\<close>

datatype tool_names = Text string | Names "string list"

fun split_names :: "string \<Rightarrow> string list" where
  "split_names [] = [[]]"
| "split_names (c # cs) =
     (if c = CHR '','' \<or> c = CHR 0x0A then [] # split_names cs
      else (case split_names cs of [] \<Rightarrow> [[c]] | w # ws \<Rightarrow> (c # w) # ws))"

definition normalizeToolList :: "tool_names option \<Rightarrow> string list" where
  "normalizeToolList value =
     (let rawList = (case value of None \<Rightarrow> [] | Some (Names xs) \<Rightarrow> xs
        | Some (Text t) \<Rightarrow> (if t = [] then [] else split_names t)) in
      filter (\<lambda>entry. 0 < length entry) (map trim rawList))"

text \<open>\<^verbatim>\<open>/^Bash\(([^:]+):\*\)$/i\<close>\<close>

definition parseBashFilter :: "string \<Rightarrow> string option" where
  "parseBashFilter pattern =
     (let prefix = drop 5 (take (length pattern - 3) pattern) in
      if lower (take 5 pattern) = ''bash('' \<and> ends_with pattern '':*)'' \<and> 8 < length pattern \<and> CHR '':'' \<notin> set prefix
      then (if trim prefix = [] then None else Some (trim prefix))
      else None)"

definition matchesToolPattern :: "string \<Rightarrow> string \<Rightarrow> bool" where
  "matchesToolPattern toolName pattern =
     (let normalizedTool = normalizeToolName toolName;
          normalizedPattern = trim pattern;
          normalizedPatternLower = lower normalizedPattern in
      if normalizedPattern = ''*'' then True
      else if ends_with normalizedPatternLower ''*'' then starts_with normalizedTool (butlast normalizedPatternLower)
      else normalizedTool = normalizedPatternLower)"

definition buildToolPolicy :: "tools_config option \<Rightarrow> tool_names option \<Rightarrow> tool_names option \<Rightarrow> tool_policy" where
  "buildToolPolicy config allowedTools disallowedTools =
     (let of_config = (\<lambda>f. case Option.bind config f of Some xs \<Rightarrow> xs | None \<Rightarrow> []);
          mergedAllowed = map trim (of_config tc_allowedTools @ normalizeToolList allowedTools);
          mergedDenied = map trim (of_config tc_deniedTools @ normalizeToolList disallowedTools) in
      \<lparr> tp_config = config, allowedPatterns = mergedAllowed, deniedPatterns = mergedDenied,
        strictMode = (Option.bind config tc_strictMode = Some True),
        bashPolicy = \<lparr> allowAll = list_ex (matchesToolPattern ''bash'') mergedAllowed,
          allowPrefixes = List.map_filter parseBashFilter mergedAllowed,
          denyPrefixes = DEFAULT_PACKAGE_MANAGER_DENY_PREFIXES @ List.map_filter parseBashFilter mergedDenied \<rparr> \<rparr>)"

definition isToolAllowedByPolicy :: "string \<Rightarrow> tool_policy \<Rightarrow> bool" where
  "isToolAllowedByPolicy toolName policy =
     (let normalizedName = normalizeToolName toolName in
      if list_ex (\<lambda>pattern. parseBashFilter pattern = None \<and> matchesToolPattern normalizedName pattern)
          (deniedPatterns policy)
      then False
      else if normalizedName = ''bash''
      then (if strictMode policy
            then list_ex (matchesToolPattern normalizedName) (allowedPatterns policy)
              \<or> allowPrefixes (bashPolicy policy) \<noteq> []
            else True)
      else if \<not> strictMode policy then True
      else list_ex (matchesToolPattern normalizedName) (allowedPatterns policy))"

section \<open>Commands\<close>

datatype quoting = Unquoted | Single | Double

text \<open>Ending the current segment: a blank one is dropped.\<close>

definition push_segment :: "string \<Rightarrow> string list \<Rightarrow> string list" where
  "push_segment current segments = (if trim current = [] then segments else trim current # segments)"

text \<open>What one character does: it changes the quoting, cuts the segment (with \<open>n\<close> more characters consumed), or stays.\<close>

datatype effect = Quote quoting | Cut nat | Keep

fun char_effect :: "quoting \<Rightarrow> char \<Rightarrow> string \<Rightarrow> effect" where
  "char_effect Single ch rest = (if ch = CHR 0x27 then Quote Unquoted else Keep)"
| "char_effect Double ch rest =
     (if ch = CHR 0x22 then Quote Unquoted
      else if ch = CHR ''$'' \<and> starts_with rest ''('' then Cut 1
      else if ch = CHR 0x60 then Cut 0
      else Keep)"
| "char_effect Unquoted ch rest =
     (if ch = CHR 0x27 then Quote Single
      else if ch = CHR 0x22 then Quote Double
      else if ch = CHR ''$'' \<and> starts_with rest ''('' then Cut 1
      else if (ch = CHR ''<'' \<or> ch = CHR ''>'') \<and> starts_with rest ''('' then Cut 1
      else if ch = CHR '')'' \<or> ch = CHR 0x60 then Cut 0
      else if ch = CHR 0x0A \<or> ch = CHR '';'' then Cut 0
      else if ch = CHR ''&'' \<or> ch = CHR ''|'' then Cut (if starts_with rest [ch] then 1 else 0)
      else Keep)"

function scan_command :: "quoting \<Rightarrow> string \<Rightarrow> string \<Rightarrow> string list" where
  "scan_command q current [] = push_segment current []"
| "scan_command q current (ch # rest) =
     (case char_effect q ch rest of
        Quote q' \<Rightarrow> scan_command q' current rest
      | Cut n \<Rightarrow> push_segment current (scan_command q [] (drop n rest))
      | Keep \<Rightarrow> scan_command q (current @ [ch]) rest)"
  by pat_completeness auto

termination
  by (relation "measure (\<lambda>(q, current, s). length s)") auto

definition splitShellCommands :: "string \<Rightarrow> string list" where
  "splitShellCommands command = scan_command Unquoted [] command"

definition has_prefix :: "string list \<Rightarrow> string \<Rightarrow> bool" where
  "has_prefix ps segment = list_ex (\<lambda>prefix. starts_with (lower segment) (lower prefix)) ps"

fun check_segments :: "bash_policy \<Rightarrow> string list \<Rightarrow> string + unit" where
  "check_segments policy [] = Inr ()"
| "check_segments policy (segment # segments) =
     (if has_prefix (denyPrefixes policy) segment then Inl ''Bash command denied by policy''
      else if (\<not> allowAll policy \<and> allowPrefixes policy \<noteq> []) \<and> \<not> has_prefix (allowPrefixes policy) segment
      then Inl ''Bash command not allowed by policy''
      else check_segments policy segments)"

definition enforceBashCommandPolicy :: "string \<Rightarrow> bash_policy \<Rightarrow> string + unit" where
  "enforceBashCommandPolicy command policy =
     (if trim command = [] then Inr ()
      else check_segments policy (splitShellCommands command))"

section \<open>What the check is worth\<close>

text \<open>
  Shell scripts, without backslashes: the words of a command (plain, in single or double quotes, with
  substitutions), put side by side, and commands one after the other with an operator between
  them.
\<close>

datatype shell =
    Plain string
  | Single_quoted string
  | Double_quoted string
  | Substitution shell
  | Process_substitution char shell
  | Backtick string
  | Side_by_side shell shell
  | Then shell string shell

fun show_shell :: "shell \<Rightarrow> string" where
  "show_shell (Plain t) = t"
| "show_shell (Single_quoted t) = CHR 0x27 # t @ [CHR 0x27]"
| "show_shell (Double_quoted t) = CHR 0x22 # t @ [CHR 0x22]"
| "show_shell (Substitution s) = ''$('' @ show_shell s @ '')''"
| "show_shell (Process_substitution c s) = c # ''('' @ show_shell s @ '')''"
| "show_shell (Backtick t) = CHR 0x60 # t @ [CHR 0x60]"
| "show_shell (Side_by_side a b) = show_shell a @ show_shell b"
| "show_shell (Then a op b) = show_shell a @ op @ show_shell b"

definition plain_text :: "string \<Rightarrow> bool" where
  "plain_text t \<longleftrightarrow> set t \<inter> set [CHR 0x27, CHR 0x22, CHR 0x60, CHR 0x5C, CHR 0x0A, CHR ''('', CHR '')'', CHR '';'', CHR ''&'', CHR ''|''] = {}"

fun quotable_text :: "string \<Rightarrow> bool" where
  "quotable_text [] = True"
| "quotable_text (c # t) = (c \<notin> {CHR 0x22, CHR 0x60, CHR 0x5C} \<and> \<not> (c = CHR ''$'' \<and> starts_with t ''('') \<and> quotable_text t)"

fun wf_word :: "shell \<Rightarrow> bool" and wf_script :: "shell \<Rightarrow> bool" where
  "wf_word (Plain t) = plain_text t"
| "wf_word (Single_quoted t) = (CHR 0x27 \<notin> set t)"
| "wf_word (Double_quoted t) = quotable_text t"
| "wf_word (Substitution s) = wf_script s"
| "wf_word (Process_substitution c s) = (c \<in> {CHR ''<'', CHR ''>''} \<and> wf_script s)"
| "wf_word (Backtick t) = plain_text t"
| "wf_word (Side_by_side a b) = (wf_word a \<and> wf_word b)"
| "wf_word (Then a op b) = False"
| "wf_script (Then a op b) =
     (wf_word a \<and> op \<in> {'';'', [CHR 0x0A], ''&'', ''|'', ''&&'', ''||''} \<and> wf_script b)"
| "wf_script (Plain t) = wf_word (Plain t)"
| "wf_script (Single_quoted t) = wf_word (Single_quoted t)"
| "wf_script (Double_quoted t) = wf_word (Double_quoted t)"
| "wf_script (Substitution s) = wf_word (Substitution s)"
| "wf_script (Process_substitution c s) = wf_word (Process_substitution c s)"
| "wf_script (Backtick t) = wf_word (Backtick t)"
| "wf_script (Side_by_side a b) = wf_word (Side_by_side a b)"

text \<open>
  The text a command starts with once its quotes are removed, up to its first substitution (whose
  value is not known), and whether there is one; then the commands that run: each command and the
  ones in its substitutions.
\<close>

fun lead :: "shell \<Rightarrow> string \<times> bool" where
  "lead (Plain t) = (t, False)"
| "lead (Single_quoted t) = (t, False)"
| "lead (Double_quoted t) = (t, False)"
| "lead (Side_by_side a b) = (if snd (lead a) then lead a else (fst (lead a) @ fst (lead b), snd (lead b)))"
| "lead s = ([], True)"

fun nested :: "shell \<Rightarrow> string list" and simple_commands :: "shell \<Rightarrow> string list" where
  "nested (Substitution s) = simple_commands s"
| "nested (Process_substitution c s) = simple_commands s"
| "nested (Backtick t) = [t]"
| "nested (Side_by_side a b) = nested a @ nested b"
| "nested (Plain t) = []"
| "nested (Single_quoted t) = []"
| "nested (Double_quoted t) = []"
| "nested (Then a op b) = []"
| "simple_commands (Then a op b) = (fst (lead a) # nested a) @ simple_commands b"
| "simple_commands (Plain t) = [t]"
| "simple_commands (Single_quoted t) = [t]"
| "simple_commands (Double_quoted t) = [t]"
| "simple_commands (Substitution s) = [] # simple_commands s"
| "simple_commands (Process_substitution c s) = [] # simple_commands s"
| "simple_commands (Backtick t) = [[], t]"
| "simple_commands (Side_by_side a b) = fst (lead (Side_by_side a b)) # nested (Side_by_side a b)"

section \<open>The lexer finds every command\<close>

lemma push_append: "push_segment cur (xs @ ys) = push_segment cur xs @ ys"
  by (simp add: push_segment_def)

lemma starts_paren: "starts_with (c # s) ''('' \<longleftrightarrow> c = CHR ''(''" "\<not> starts_with [] ''(''"
  by (auto simp: starts_with_def)

lemma plain_kept:
  assumes "plain_text (c # t)" "\<not> starts_with rest ''(''"
  shows "char_effect Unquoted c (t @ rest) = Keep"
proof -
  have "\<not> starts_with (t @ rest) ''(''"
    using assms by (cases t) (auto simp: starts_paren plain_text_def)
  moreover have "c \<notin> {CHR 0x27, CHR 0x22, CHR 0x60, CHR 0x0A, CHR '')'', CHR '';'', CHR ''&'', CHR ''|''}"
    using assms(1) unfolding plain_text_def by auto
  ultimately show ?thesis by simp
qed

lemma scan_plain:
  "plain_text t \<Longrightarrow> \<not> starts_with rest ''('' \<Longrightarrow> scan_command Unquoted cur (t @ rest) = scan_command Unquoted (cur @ t) rest"
proof (induction t arbitrary: cur)
  case (Cons c t)
  then have "plain_text t" by (simp add: plain_text_def)
  with Cons plain_kept [OF Cons.prems] show ?case by simp
qed simp

lemma scan_single:
  "CHR 0x27 \<notin> set t \<Longrightarrow> scan_command Single cur (t @ CHR 0x27 # rest) = scan_command Unquoted (cur @ t) rest"
  by (induction t arbitrary: cur) auto

lemma quotable_kept: "quotable_text (c # t) \<Longrightarrow> char_effect Double c (t @ CHR 0x22 # rest) = Keep"
  by (cases t) (auto simp: starts_paren)

lemma scan_double:
  "quotable_text t \<Longrightarrow> scan_command Double cur (t @ CHR 0x22 # rest) = scan_command Unquoted (cur @ t) rest"
proof (induction t arbitrary: cur)
  case (Cons c t)
  with quotable_kept [OF Cons.prems, of rest] show ?case by (simp del: char_effect.simps)
qed simp

lemma push_blank [simp]: "push_segment [] xs = xs"
  by (simp add: push_segment_def trim_def)

lemma scan_cut:
  assumes "c \<in> {CHR ''&'', CHR ''|'', CHR '';'', CHR 0x0A}"
  shows "scan_command Unquoted cur (c # rest) =
     push_segment cur (scan_command Unquoted [] (if c \<in> {CHR ''&'', CHR ''|''} \<and> starts_with rest [c] then tl rest else rest))"
proof -
  have "char_effect Unquoted c rest = Cut (if c \<in> {CHR ''&'', CHR ''|''} \<and> starts_with rest [c] then 1 else 0)"
    using assms by auto
  then show ?thesis by (simp add: drop_Suc del: char_effect.simps)
qed

lemma scan_repeated:
  assumes "c \<in> {CHR ''&'', CHR ''|''}"
  shows "scan_command Unquoted [] (c # rest) = scan_command Unquoted [] rest"
proof (induction "length rest" arbitrary: rest rule: less_induct)
  case less
  have cut: "c \<in> {CHR ''&'', CHR ''|'', CHR '';'', CHR 0x0A}" using assms by auto
  show ?case
  proof (cases "starts_with rest [c]")
    case True
    then obtain r where r: "rest = c # r" by (auto simp: starts_with_iff)
    with less.hyps [of r] show ?thesis
      unfolding scan_cut [OF cut, of "[]" rest] using assms by (simp add: starts_with_def)
  next
    case False
    then show ?thesis unfolding scan_cut [OF cut, of "[]" rest] by simp
  qed
qed

lemma scan_operator:
  assumes "op \<in> {'';'', [CHR 0x0A], ''&'', ''|'', ''&&'', ''||''}"
  shows "scan_command Unquoted cur (op @ rest) = push_segment cur (scan_command Unquoted [] rest)"
proof -
  have one: "scan_command Unquoted cur (c # rest) = push_segment cur (scan_command Unquoted [] rest)"
    if c: "c \<in> {CHR ''&'', CHR ''|'', CHR '';'', CHR 0x0A}" for c
  proof (cases "c \<in> {CHR ''&'', CHR ''|''} \<and> starts_with rest [c]")
    case True
    then obtain r where r: "rest = c # r" by (auto simp: starts_with_iff)
    with True scan_repeated [of c r] scan_cut [OF c, of cur rest] show ?thesis
      by (simp del: scan_command.simps)
  next
    case False
    then show ?thesis unfolding scan_cut [OF c] by (simp only: if_False)
  qed
  have two: "scan_command Unquoted cur (c # c # rest) = push_segment cur (scan_command Unquoted [] rest)"
    if "c \<in> {CHR ''&'', CHR ''|''}" for c
    using that scan_cut [of c cur "c # rest"] by (auto simp: starts_with_def)
  from assms consider c where "op = [c]" "c \<in> {CHR ''&'', CHR ''|'', CHR '';'', CHR 0x0A}"
    | c where "op = [c, c]" "c \<in> {CHR ''&'', CHR ''|''}" by auto
  then show ?thesis using one two by cases auto
qed

lemma show_no_paren: "wf_word s \<or> wf_script s \<Longrightarrow> \<not> starts_with rest ''('' \<Longrightarrow> \<not> starts_with (show_shell s @ rest) ''(''"
proof (induction s arbitrary: rest)
  case (Plain t)
  then show ?case by (cases t) (auto simp: plain_text_def starts_with_def)
next
  case (Side_by_side a b)
  from Side_by_side.prems(1) have "wf_word a" "wf_word b" by auto
  with Side_by_side.IH Side_by_side.prems(2) show ?case by simp
next
  case (Then a op b)
  then have "wf_word a" "op \<in> {'';'', [CHR 0x0A], ''&'', ''|'', ''&&'', ''||''}" by auto
  with Then.IH(1) [of "op @ show_shell b @ rest"] show ?case by (auto simp: starts_with_def)
qed (auto simp: starts_with_def)

definition covers :: "string list \<Rightarrow> string \<Rightarrow> bool" where
  "covers segments t \<longleftrightarrow> trim t = [] \<or> trim t \<in> set segments"

lemma covers_more: "covers xs t \<Longrightarrow> covers (ys @ xs @ zs) t"
  by (auto simp: covers_def)

lemma covers_push [simp]: "covers (push_segment t xs) t"
  by (simp add: covers_def push_segment_def)

lemma covers_nil [simp]: "covers xs []"
  by (simp add: covers_def trim_def)

lemma covers_append [intro]: "covers xs t \<Longrightarrow> covers (xs @ ys) t" "covers ys t \<Longrightarrow> covers (xs @ ys) t"
  by (auto simp: covers_def)

lemma covers_pushed [intro]: "covers xs t \<Longrightarrow> covers (push_segment cur xs) t"
  by (auto simp: covers_def push_segment_def)

definition word_scanned :: "shell \<Rightarrow> bool" where
  "word_scanned w \<longleftrightarrow> (\<forall>cur rest. \<not> starts_with rest ''('' \<longrightarrow>
     (\<exists>segs cur'. scan_command Unquoted cur (show_shell w @ rest) = segs @ scan_command Unquoted cur' rest
        \<and> list_all (covers segs) (nested w)
        \<and> (if snd (lead w) then covers segs (cur @ fst (lead w)) else cur' = cur @ fst (lead w))))"

definition script_scanned :: "shell \<Rightarrow> bool" where
  "script_scanned s \<longleftrightarrow> (\<forall>rest. \<not> starts_with rest ''('' \<longrightarrow>
     (\<exists>segs cur'. scan_command Unquoted [] (show_shell s @ rest) = segs @ scan_command Unquoted cur' rest
        \<and> list_all (covers (segs @ push_segment cur' [])) (simple_commands s)))"

lemma word_is_script:
  assumes "word_scanned w" "simple_commands w = fst (lead w) # nested w"
  shows "script_scanned w"
  unfolding script_scanned_def
proof (intro allI impI)
  fix rest assume "\<not> starts_with rest ''(''"
  with assms(1) obtain segs cur' where eq: "scan_command Unquoted [] (show_shell w @ rest) = segs @ scan_command Unquoted cur' rest"
    and nested: "list_all (covers segs) (nested w)"
    and lead: "if snd (lead w) then covers segs (fst (lead w)) else cur' = fst (lead w)"
    unfolding word_scanned_def by (metis append_Nil)
  have "covers (segs @ push_segment cur' []) (fst (lead w))" using lead by (auto split: if_splits)
  moreover have "list_all (covers (segs @ push_segment cur' [])) (nested w)" using nested by (auto simp: list_all_iff)
  ultimately show "\<exists>segs cur'. scan_command Unquoted [] (show_shell w @ rest) = segs @ scan_command Unquoted cur' rest
      \<and> list_all (covers (segs @ push_segment cur' [])) (simple_commands w)"
    using eq assms(2) by (intro exI [of _ segs] exI [of _ cur']) simp
qed

lemma scan_substitution:
  assumes "script_scanned s" "intro = ''$('' \<or> intro = ''<('' \<or> intro = ''>(''"
  shows "\<exists>segs. (\<forall>cur. scan_command Unquoted cur (intro @ show_shell s @ CHR '')'' # rest)
      = push_segment cur (segs @ scan_command Unquoted [] rest)) \<and> list_all (covers segs) (simple_commands s)"
proof -
  have "\<not> starts_with (CHR '')'' # rest) ''(''" by (simp add: starts_paren)
  with assms(1) obtain segs cur' where
    eq: "scan_command Unquoted [] (show_shell s @ CHR '')'' # rest) = segs @ scan_command Unquoted cur' (CHR '')'' # rest)"
    and cov: "list_all (covers (segs @ push_segment cur' [])) (simple_commands s)"
    unfolding script_scanned_def by blast
  have close: "scan_command Unquoted cur' (CHR '')'' # rest) = push_segment cur' (scan_command Unquoted [] rest)" by simp
  have "scan_command Unquoted cur (intro @ show_shell s @ CHR '')'' # rest)
      = push_segment cur (scan_command Unquoted [] (show_shell s @ CHR '')'' # rest))" for cur
    using assms(2) by (auto simp: starts_with_def)
  moreover have "push_segment cur' xs = push_segment cur' [] @ xs" for xs by (simp add: push_segment_def)
  ultimately show ?thesis using eq close cov
    by (intro exI [of _ "segs @ push_segment cur' []"]) (metis append_assoc)
qed

lemma word_substitution:
  assumes "script_scanned s" "intro = ''$('' \<or> intro = ''<('' \<or> intro = ''>(''"
    and w: "show_shell w = intro @ show_shell s @ '')''" "nested w = simple_commands s" "lead w = ([], True)"
  shows "word_scanned w"
  unfolding word_scanned_def
proof (intro allI impI)
  fix cur rest
  from scan_substitution [OF assms(1,2), of rest] obtain segs where
    eq: "scan_command Unquoted cur (intro @ show_shell s @ CHR '')'' # rest)
      = push_segment cur (segs @ scan_command Unquoted [] rest)" and cov: "list_all (covers segs) (simple_commands s)" by blast
  have "list_all (covers (push_segment cur segs)) (nested w)" using cov w(2) by (auto simp: list_all_iff)
  with eq w(1,3) show "\<exists>segs cur'. scan_command Unquoted cur (show_shell w @ rest) = segs @ scan_command Unquoted cur' rest
      \<and> list_all (covers segs) (nested w)
      \<and> (if snd (lead w) then covers segs (cur @ fst (lead w)) else cur' = cur @ fst (lead w))"
    by (intro exI [of _ "push_segment cur segs"] exI [of _ "[]"]) (simp add: push_append)
qed

lemma word_text:
  assumes "\<And>cur rest. \<not> starts_with rest ''('' \<Longrightarrow>
      scan_command Unquoted cur (show_shell w @ rest) = scan_command Unquoted (cur @ t) rest"
    and "nested w = []" "lead w = (t, False)"
  shows "word_scanned w"
  unfolding word_scanned_def
proof (intro allI impI)
  fix cur rest assume "\<not> starts_with rest ''(''"
  with assms show "\<exists>segs cur'. scan_command Unquoted cur (show_shell w @ rest) = segs @ scan_command Unquoted cur' rest
      \<and> list_all (covers segs) (nested w)
      \<and> (if snd (lead w) then covers segs (cur @ fst (lead w)) else cur' = cur @ fst (lead w))"
    by (intro exI [of _ "[]"] exI [of _ "cur @ t"]) simp
qed

lemma word_backtick:
  assumes "plain_text t"
  shows "word_scanned (Backtick t)"
  unfolding word_scanned_def
proof (intro allI impI)
  fix cur rest
  have "scan_command Unquoted [] (t @ CHR 0x60 # rest) = scan_command Unquoted t (CHR 0x60 # rest)"
    using scan_plain [OF assms, of "CHR 0x60 # rest" "[]"] by (simp add: starts_paren del: scan_command.simps)
  then have "scan_command Unquoted cur (show_shell (Backtick t) @ rest)
      = push_segment cur (push_segment t (scan_command Unquoted [] rest))" by simp
  then show "\<exists>segs cur'. scan_command Unquoted cur (show_shell (Backtick t) @ rest) = segs @ scan_command Unquoted cur' rest
      \<and> list_all (covers segs) (nested (Backtick t))
      \<and> (if snd (lead (Backtick t)) then covers segs (cur @ fst (lead (Backtick t))) else cur' = cur @ fst (lead (Backtick t)))"
    by (intro exI [of _ "push_segment cur (push_segment t [])"] exI [of _ "[]"])
      (simp add: push_segment_def covers_def)
qed

lemma word_side_by_side:
  assumes a: "word_scanned a" and b: "word_scanned b" "wf_word b"
  shows "word_scanned (Side_by_side a b)"
  unfolding word_scanned_def
proof (intro allI impI)
  fix cur rest assume rest: "\<not> starts_with rest ''(''"
  then have "\<not> starts_with (show_shell b @ rest) ''(''" using show_no_paren b(2) by blast
  with a obtain sa ca where ea: "scan_command Unquoted cur (show_shell a @ show_shell b @ rest)
        = sa @ scan_command Unquoted ca (show_shell b @ rest)"
    and na: "list_all (covers sa) (nested a)"
    and la: "if snd (lead a) then covers sa (cur @ fst (lead a)) else ca = cur @ fst (lead a)"
    unfolding word_scanned_def by blast
  from b(1) rest obtain sb cb where eb: "scan_command Unquoted ca (show_shell b @ rest) = sb @ scan_command Unquoted cb rest"
    and nb: "list_all (covers sb) (nested b)"
    and lb: "if snd (lead b) then covers sb (ca @ fst (lead b)) else cb = ca @ fst (lead b)"
    unfolding word_scanned_def by blast
  have "list_all (covers (sa @ sb)) (nested (Side_by_side a b))" using na nb by (auto simp: list_all_iff)
  moreover have "if snd (lead (Side_by_side a b)) then covers (sa @ sb) (cur @ fst (lead (Side_by_side a b)))
      else cb = cur @ fst (lead (Side_by_side a b))"
    using la lb by (auto split: if_splits)
  ultimately show "\<exists>segs cur'. scan_command Unquoted cur (show_shell (Side_by_side a b) @ rest)
        = segs @ scan_command Unquoted cur' rest
      \<and> list_all (covers segs) (nested (Side_by_side a b))
      \<and> (if snd (lead (Side_by_side a b)) then covers segs (cur @ fst (lead (Side_by_side a b)))
         else cur' = cur @ fst (lead (Side_by_side a b)))"
    using ea eb by (intro exI [of _ "sa @ sb"] exI [of _ cb]) simp
qed

lemma script_then:
  assumes a: "word_scanned a" and op: "op \<in> {'';'', [CHR 0x0A], ''&'', ''|'', ''&&'', ''||''}" and b: "script_scanned b"
  shows "script_scanned (Then a op b)"
  unfolding script_scanned_def
proof (intro allI impI)
  fix rest assume rest: "\<not> starts_with rest ''(''"
  have "\<not> starts_with (op @ show_shell b @ rest) ''(''" using op by (auto simp: starts_paren)
  with a obtain sa ca where ea: "scan_command Unquoted [] (show_shell a @ op @ show_shell b @ rest)
        = sa @ scan_command Unquoted ca (op @ show_shell b @ rest)"
    and na: "list_all (covers sa) (nested a)"
    and la: "if snd (lead a) then covers sa (fst (lead a)) else ca = fst (lead a)"
    unfolding word_scanned_def by (metis append_Nil)
  from b rest obtain sb cb where eb: "scan_command Unquoted [] (show_shell b @ rest) = sb @ scan_command Unquoted cb rest"
    and cb: "list_all (covers (sb @ push_segment cb [])) (simple_commands b)"
    unfolding script_scanned_def by blast
  let ?segs = "sa @ push_segment ca sb"
  have "covers (?segs @ push_segment cb []) (fst (lead a))"
    using la by (auto simp: push_append [symmetric] split: if_splits)
  moreover have "list_all (covers (?segs @ push_segment cb [])) (nested a)" using na by (auto simp: list_all_iff)
  moreover have "list_all (covers (?segs @ push_segment cb [])) (simple_commands b)"
    using cb by (auto simp: list_all_iff push_append [symmetric])
  ultimately have "list_all (covers (?segs @ push_segment cb [])) (simple_commands (Then a op b))" by simp
  moreover have "scan_command Unquoted [] (show_shell (Then a op b) @ rest) = ?segs @ scan_command Unquoted cb rest"
    using ea eb scan_operator [OF op, of ca "show_shell b @ rest"] by (simp add: push_append)
  ultimately show "\<exists>segs cur'. scan_command Unquoted [] (show_shell (Then a op b) @ rest) = segs @ scan_command Unquoted cur' rest
      \<and> list_all (covers (segs @ push_segment cur' [])) (simple_commands (Then a op b))" by blast
qed

lemma shell_scanned: "(wf_word s \<longrightarrow> word_scanned s) \<and> (wf_script s \<longrightarrow> script_scanned s)"
proof (induction s)
  case (Plain t)
  have "word_scanned (Plain t)" if "plain_text t" by (rule word_text [of _ t]) (simp_all add: scan_plain [OF that] del: scan_command.simps)
  then show ?case using word_is_script [of "Plain t"] by simp
next
  case (Single_quoted t)
  have "word_scanned (Single_quoted t)" if "CHR 0x27 \<notin> set t"
    by (rule word_text [of _ t]) (simp_all add: scan_single [OF that])
  then show ?case using word_is_script [of "Single_quoted t"] by simp
next
  case (Double_quoted t)
  have "word_scanned (Double_quoted t)" if "quotable_text t"
    by (rule word_text [of _ t]) (simp_all add: scan_double [OF that])
  then show ?case using word_is_script [of "Double_quoted t"] by simp
next
  case (Substitution s)
  have "word_scanned (Substitution s)" if "wf_script s"
    by (rule word_substitution [of s "''$(''"]) (use Substitution that in auto)
  then show ?case using word_is_script [of "Substitution s"] by simp
next
  case (Process_substitution c s)
  have "word_scanned (Process_substitution c s)" if "wf_script s" "c \<in> {CHR ''<'', CHR ''>''}"
    by (rule word_substitution [of s "[c, CHR ''('']"]) (use Process_substitution that in auto)
  then show ?case using word_is_script [of "Process_substitution c s"] by simp
next
  case (Backtick t)
  then show ?case using word_is_script [of "Backtick t"] word_backtick by simp
next
  case (Side_by_side a b)
  then have "word_scanned (Side_by_side a b)" if "wf_word a" "wf_word b"
    using that word_side_by_side by blast
  then show ?case using word_is_script [of "Side_by_side a b"] by simp
next
  case (Then a op b)
  then show ?case using script_then [of a op b] by simp
qed

lemma every_command_scanned:
  assumes "wf_script s" "t \<in> set (simple_commands s)" "trim t \<noteq> []"
  shows "trim t \<in> set (splitShellCommands (show_shell s))"
proof -
  have "\<not> starts_with [] ''(''" by (simp add: starts_paren)
  with shell_scanned [of s] assms(1) obtain segs cur' where
    "scan_command Unquoted [] (show_shell s @ []) = segs @ scan_command Unquoted cur' []"
    "list_all (covers (segs @ push_segment cur' [])) (simple_commands s)"
    unfolding script_scanned_def by blast
  with assms(2,3) show ?thesis by (auto simp: splitShellCommands_def list_all_iff covers_def)
qed

section \<open>The check\<close>

lemma check_segments_ok:
  "check_segments policy segments = Inr () \<longleftrightarrow>
     list_all (\<lambda>segment. \<not> has_prefix (denyPrefixes policy) segment
       \<and> (\<not> allowAll policy \<and> allowPrefixes policy \<noteq> [] \<longrightarrow> has_prefix (allowPrefixes policy) segment)) segments"
  by (induction segments) auto

lemma trim_blank: "trim s = [] \<longleftrightarrow> list_all is_space s"
proof
  assume "trim s = []"
  then have "dropWhile is_space (rev (dropWhile is_space s)) = []" by (simp add: trim_def)
  then have all: "\<forall>c \<in> set (dropWhile is_space s). is_space c" by (simp add: dropWhile_eq_Nil_conv)
  have "dropWhile is_space s = []"
  proof (rule ccontr)
    assume "dropWhile is_space s \<noteq> []"
    then show False using hd_dropWhile all hd_in_set by blast
  qed
  then show "list_all is_space s" by (simp add: dropWhile_eq_Nil_conv list_all_iff)
next
  assume "list_all is_space s"
  then have "\<forall>c \<in> set (dropWhile is_space s). is_space c" by (auto simp: list_all_iff dest: set_dropWhileD)
  then show "trim s = []" by (simp add: trim_def)
qed

lemma blank_scans_to_nothing:
  "list_all is_space s \<Longrightarrow> list_all is_space cur \<Longrightarrow> scan_command Unquoted cur s = []"
proof (induction s arbitrary: cur)
  case Nil
  then show ?case by (simp add: push_segment_def trim_blank)
next
  case (Cons c s)
  then have c: "is_space c" by simp
  have "list_all (\<lambda>d. \<not> is_space d)
      [CHR 0x27, CHR 0x22, CHR 0x60, CHR ''$'', CHR ''<'', CHR ''>'', CHR '')'', CHR '';'', CHR ''&'', CHR ''|'']"
    by code_simp
  with c have "c \<notin> {CHR 0x27, CHR 0x22, CHR 0x60, CHR ''$'', CHR ''<'', CHR ''>'', CHR '')'', CHR '';'', CHR ''&'', CHR ''|''}"
    by auto
  then have "char_effect Unquoted c s = (if c = CHR 0x0A then Cut 0 else Keep)" by simp
  with Cons c show ?case by (simp add: push_segment_def trim_blank del: char_effect.simps)
qed

text \<open>
  C6: A command line passes the policy only if every command in it does. For every shell script
  without backslashes, whatever it nests in substitutions and joins with operators: if the check
  accepts its text, then no command that runs, neither a command of the script nor one in a
  substitution, starts with a denied prefix, and with an allowlist every one of them starts with an
  allowed prefix, quotes removed.
\<close>

theorem no_command_escapes_policy:
  assumes "wf_script s" "enforceBashCommandPolicy (show_shell s) policy = Inr ()"
    and "t \<in> set (simple_commands s)" "trim t \<noteq> []"
  shows "\<not> has_prefix (denyPrefixes policy) (trim t)
     \<and> (\<not> allowAll policy \<and> allowPrefixes policy \<noteq> [] \<longrightarrow> has_prefix (allowPrefixes policy) (trim t))"
proof -
  have mem: "trim t \<in> set (splitShellCommands (show_shell s))" by (rule every_command_scanned [OF assms(1,3,4)])
  then have "trim (show_shell s) \<noteq> []"
    using blank_scans_to_nothing [of "show_shell s" "[]"] by (auto simp: trim_blank splitShellCommands_def)
  with assms(2) have "check_segments policy (splitShellCommands (show_shell s)) = Inr ()"
    by (simp add: enforceBashCommandPolicy_def)
  with mem show ?thesis by (simp add: check_segments_ok list_all_iff)
qed

text \<open>\<^verbatim>\<open>git log "a;b" | grep $(git diff)\<close> under an allowlist.\<close>

definition sample_script :: shell where
  "sample_script = Then (Side_by_side (Plain ''git log '') (Double_quoted ''a;b'')) ''|''
     (Side_by_side (Plain ''grep '') (Substitution (Plain ''git diff'')))"

definition sample_policy :: bash_policy where
  "sample_policy = \<lparr> allowAll = False, allowPrefixes = [''git'', ''grep''], denyPrefixes = [''git push''] \<rparr>"

lemma no_command_escapes_policy_witness:
  "has_prefix [''git'', ''grep''] ''git diff''
   \<and> enforceBashCommandPolicy (show_shell sample_script) sample_policy = Inr ()"
proof
  show pass: "enforceBashCommandPolicy (show_shell sample_script) sample_policy = Inr ()" by code_simp
  have "wf_script sample_script" by code_simp
  moreover have "''git diff'' \<in> set (simple_commands sample_script)" by code_simp
  moreover have "trim ''git diff'' = ''git diff''" by code_simp
  ultimately show "has_prefix [''git'', ''grep''] ''git diff''"
    using no_command_escapes_policy [of sample_script sample_policy "''git diff''"] pass
    by (simp add: sample_policy_def)
qed

section \<open>What the check misses\<close>

text \<open>
  A backslash before a quote, a command in a substitution inside double quotes, and a subshell: in
  each of these lines the shell runs \<^verbatim>\<open>rm -rf /\<close>, and a policy that denies \<^verbatim>\<open>rm\<close> accepts it (and so does
  one that allows \<^verbatim>\<open>echo\<close> only, for the first two).
\<close>

definition no_rm :: bash_policy where
  "no_rm = \<lparr> allowAll = True, allowPrefixes = [], denyPrefixes = [''rm ''] \<rparr>"

definition only_echo :: bash_policy where
  "only_echo = \<lparr> allowAll = False, allowPrefixes = [''echo''], denyPrefixes = [''rm ''] \<rparr>"

definition escaped_quote :: string where
  "escaped_quote = ''echo '' @ [CHR 0x5C, CHR 0x22] @ ''; rm -rf / '' @ [CHR 0x5C, CHR 0x22]"

definition quoted_substitution :: string where
  "quoted_substitution = ''echo '' @ [CHR 0x22] @ ''$(echo a; rm -rf /)'' @ [CHR 0x22]"

lemma escaped_quote_hides_command:
  "enforceBashCommandPolicy escaped_quote no_rm = Inr () \<and> enforceBashCommandPolicy escaped_quote only_echo = Inr ()"
  by code_simp

lemma quoted_substitution_hides_command:
  "enforceBashCommandPolicy quoted_substitution no_rm = Inr ()
   \<and> enforceBashCommandPolicy quoted_substitution only_echo = Inr ()"
  by code_simp

lemma subshell_hides_command: "enforceBashCommandPolicy ''(rm -rf /)'' no_rm = Inr ()"
  by code_simp

section \<open>Tools\<close>

lemma denied_tool_not_allowed:
  assumes "p \<in> set (deniedPatterns policy)" "parseBashFilter p = None"
    "matchesToolPattern (normalizeToolName name) p"
  shows "\<not> isToolAllowedByPolicy name policy"
  using assms by (auto simp: isToolAllowedByPolicy_def Let_def list_ex_iff)

lemma normalize_idem [simp]: "normalizeToolName (normalizeToolName name) = normalizeToolName name"
proof -
  have "is_space (lower_char c) = is_space c" for c
    by (auto simp: is_space_def lower_char_def is_upper_def code_def)
  then have "trim (lower s) = lower (trim s)" for s
    by (simp add: trim_def lower_def dropWhile_map rev_map comp_def)
  then show ?thesis by (simp add: normalizeToolName_def)
qed

lemma strict_tool_is_listed:
  assumes "strictMode policy" "isToolAllowedByPolicy name policy" "normalizeToolName name \<noteq> ''bash''"
  shows "list_ex (matchesToolPattern (normalizeToolName name)) (allowedPatterns policy)"
  using assms by (auto simp: isToolAllowedByPolicy_def Let_def split: if_splits)

lemma deny_wins:
  assumes "p \<in> set denied" "trim p = p" "p \<noteq> []" "parseBashFilter p = None"
    "matchesToolPattern (normalizeToolName name) p"
  shows "\<not> isToolAllowedByPolicy name (buildToolPolicy config allowed (Some (Names denied)))"
proof (rule denied_tool_not_allowed [of p])
  show "p \<in> set (deniedPatterns (buildToolPolicy config allowed (Some (Names denied))))"
    using assms(1-3) by (auto simp: buildToolPolicy_def normalizeToolList_def Let_def image_iff)
qed (use assms in simp_all)

end
