(* ===== verification/Turn_Controller.thy ===== *)
theory Turn_Controller
  imports Json_Equal
begin

text \<open>
  The end of an agent's turn: \<^verbatim>\<open>packages/agent-worker/src/openclaw/turn-controller.ts\<close>. The
  controller counts tool calls and aborts a turn that asks the user or runs away; every tool is
  wrapped in \<open>guardedExecute\<close>. The arguments of a call are a JSON value (or absent); their key is the
  text of the value with its members in order (members named like array indexes come first
  in the code, which is as definite an order). The sign in front of a refusal is left out. What the controller does to the outside, the calls of the
  hook and of the abort function, is kept in a list.
\<close>

section \<open>The controller\<close>

definition DEFAULT_MAX_TOOL_CALLS_PER_TURN :: nat where
  "DEFAULT_MAX_TOOL_CALLS_PER_TURN = 50"

definition DEFAULT_MAX_IDENTICAL_TOOL_CALLS :: nat where
  "DEFAULT_MAX_IDENTICAL_TOOL_CALLS = 3"

datatype termination_reason = Ask_user | Identical_tool_loop | Tool_call_cap

datatype turn_effect = On_terminate termination_reason string | Abort_turn

record turn_controller =
  maxToolCallsPerTurn :: nat
  maxIdenticalToolCalls :: nat
  has_hook :: bool
  abort_attached :: bool
  totalToolCalls :: nat
  callCounts :: "(string, nat) jmap"
  terminated :: bool
  terminationReason :: "termination_reason option"
  turn_effects :: "turn_effect list"

definition new_controller :: "nat option \<Rightarrow> nat option \<Rightarrow> bool \<Rightarrow> turn_controller" where
  "new_controller calls identical hook =
     \<lparr> maxToolCallsPerTurn = (case calls of Some n \<Rightarrow> n | None \<Rightarrow> DEFAULT_MAX_TOOL_CALLS_PER_TURN),
       maxIdenticalToolCalls = (case identical of Some n \<Rightarrow> n | None \<Rightarrow> DEFAULT_MAX_IDENTICAL_TOOL_CALLS),
       has_hook = hook, abort_attached = False, totalToolCalls = 0, callCounts = [], terminated = False,
       terminationReason = None, turn_effects = [] \<rparr>"

definition attachAbort :: "turn_controller \<Rightarrow> turn_controller" where
  "attachAbort c = c \<lparr> abort_attached := True \<rparr>"

definition startTurn :: "turn_controller \<Rightarrow> turn_controller" where
  "startTurn c = c \<lparr> totalToolCalls := 0, callCounts := [], terminated := False, terminationReason := None \<rparr>"

definition awaitingHumanDecision :: "turn_controller \<Rightarrow> bool" where
  "awaitingHumanDecision c \<longleftrightarrow> terminationReason c = Some Ask_user"

definition terminate_turn :: "termination_reason \<Rightarrow> string \<Rightarrow> turn_controller \<Rightarrow> turn_controller" where
  "terminate_turn reason message c =
     (if terminated c then c
      else c \<lparr> terminated := True, terminationReason := Some reason,
        turn_effects := turn_effects c @ (if has_hook c then [On_terminate reason message] else [])
          @ (if abort_attached c then [Abort_turn] else []) \<rparr>)"

text \<open>The key of a call: the text of its name and of its arguments with sorted members.\<close>

definition stableArgsKey :: "(rat \<Rightarrow> string) \<Rightarrow> jvalue option \<Rightarrow> string" where
  "stableArgsKey shownum args =
     (case args of None \<Rightarrow> ''undefined'' | Some v \<Rightarrow> printed shownum (sorted_value (\<lambda>k. k) v))"

definition call_key :: "(rat \<Rightarrow> string) \<Rightarrow> string \<Rightarrow> jvalue option \<Rightarrow> string" where
  "call_key shownum toolName args =
     ''['' @ json_quote toolName @ '','' @ json_quote (stableArgsKey shownum args) @ '']''"

definition cap_message :: "nat \<Rightarrow> string" where
  "cap_message n = ''Tool-call cap reached ('' @ show_int (int n)
     @ '' calls in one turn). Aborting to prevent a runaway loop.''"

definition loop_message :: "string \<Rightarrow> nat \<Rightarrow> string" where
  "loop_message toolName n = ''Tool '' @ [CHR 0x22] @ toolName @ [CHR 0x22] @ '' was called '' @ show_int (int n)
     @ '' times with identical arguments in one turn. Aborting to prevent a runaway loop.''"

definition recordToolCall ::
    "(rat \<Rightarrow> string) \<Rightarrow> string \<Rightarrow> jvalue option \<Rightarrow> turn_controller \<Rightarrow> bool \<times> turn_controller" where
  "recordToolCall shownum toolName args c =
     (if terminated c then (False, c)
      else
        (let c = c \<lparr> totalToolCalls := totalToolCalls c + 1 \<rparr> in
         if maxToolCallsPerTurn c < totalToolCalls c
         then (True, terminate_turn Tool_call_cap (cap_message (maxToolCallsPerTurn c)) c)
         else
           (let key = call_key shownum toolName args;
                next_count = (case map_of (callCounts c) key of Some n \<Rightarrow> n | None \<Rightarrow> 0) + 1;
                c = c \<lparr> callCounts := AList.update key next_count (callCounts c) \<rparr> in
            if maxIdenticalToolCalls c < next_count
            then (True, terminate_turn Identical_tool_loop (loop_message toolName next_count) c)
            else (False, c))))"

text \<open>A wrapped tool runs its body or returns a refusal.\<close>

datatype tool_result = Body_run | Blocked string

definition guardedExecute ::
    "(rat \<Rightarrow> string) \<Rightarrow> string \<Rightarrow> jvalue option \<Rightarrow> turn_controller \<Rightarrow> tool_result \<times> turn_controller" where
  "guardedExecute shownum toolName args c =
     (if terminated c then (Blocked (''Turn already ended; '' @ toolName @ '' was not executed.''), c)
      else
        (let (tripped, c) = recordToolCall shownum toolName args c in
         if tripped
         then (Blocked (''Turn aborted: '' @ toolName @ '' was invoked in a runaway loop. ''
             @ (if terminationReason c = Some Tool_call_cap then ''Too many tool calls in one turn.''
                else ''The same call was repeated too many times.'')), c)
         else (Body_run, c)))"

section \<open>A turn\<close>

text \<open>
  What happens in a turn: calls of wrapped tools, in any number and from any assistant message, and
  a tool that ends the turn itself (the question to the user). The calls whose bodies run are
  listed in order.
\<close>

datatype turn_event = Call string "jvalue option" | End_turn termination_reason string

fun guarded_step ::
    "(rat \<Rightarrow> string) \<Rightarrow> turn_event \<Rightarrow> turn_controller \<Rightarrow> (string \<times> jvalue option) list \<times> turn_controller" where
  "guarded_step shownum (Call name args) c =
     (let (result, c') = guardedExecute shownum name args c in
      (if result = Body_run then [(name, args)] else [], c'))"
| "guarded_step shownum (End_turn reason message) c = ([], terminate_turn reason message c)"

fun guarded_run ::
    "(rat \<Rightarrow> string) \<Rightarrow> turn_event list \<Rightarrow> turn_controller \<Rightarrow> (string \<times> jvalue option) list \<times> turn_controller" where
  "guarded_run shownum [] c = ([], c)"
| "guarded_run shownum (e # es) c =
     (let c' = snd (guarded_step shownum e c) in
      (fst (guarded_step shownum e c) @ fst (guarded_run shownum es c'), snd (guarded_run shownum es c')))"

text \<open>The same call: the same tool with the same arguments.\<close>

definition same_args :: "jvalue option \<Rightarrow> jvalue option \<Rightarrow> bool" where
  "same_args = rel_option same_value"

definition wf_args :: "jvalue option \<Rightarrow> bool" where
  "wf_args args = (case args of None \<Rightarrow> True | Some v \<Rightarrow> wf_value v)"

lemma printed_inj: "num_ok shownum \<Longrightarrow> printed shownum x = printed shownum y \<longleftrightarrow> x = y"
  using printed_cuts [of shownum x] unfolding cuts_def by (metis append_Nil2 delimited.simps(1))

lemma printed_defined:
  assumes "num_ok shownum"
  shows "printed shownum v \<noteq> ''undefined''"
proof (cases v)
  case (JNum n)
  have "CHR ''u'' \<notin> number_chars" by (simp add: number_chars_def)
  moreover have "set (shownum n) \<subseteq> number_chars" using assms by (simp add: num_ok_def)
  ultimately have "shownum n \<noteq> ''undefined''" by auto
  with JNum show ?thesis by simp
qed (simp_all add: json_quote_def)

lemma json_quote_inject [simp]: "json_quote s = json_quote t \<longleftrightarrow> s = t"
  using quote_prefix [of s "[]" t "[]"] by auto

lemma call_key_inject:
  "call_key shownum n a = call_key shownum m b \<longleftrightarrow> n = m \<and> stableArgsKey shownum a = stableArgsKey shownum b"
proof
  assume "call_key shownum n a = call_key shownum m b"
  then have "json_quote n @ ('','' @ json_quote (stableArgsKey shownum a) @ '']'')
      = json_quote m @ ('','' @ json_quote (stableArgsKey shownum b) @ '']'')"
    unfolding call_key_def by (simp only: append_Cons append_Nil list.inject)
  from quote_prefix [OF this] show "n = m \<and> stableArgsKey shownum a = stableArgsKey shownum b" by simp
qed (simp add: call_key_def)

lemma same_call_key:
  assumes "num_ok shownum" "wf_args a" "wf_args b"
  shows "call_key shownum n a = call_key shownum m b \<longleftrightarrow> n = m \<and> same_args a b"
proof -
  have "inj (\<lambda>k :: string. k)" by simp
  from sorted_same [OF this] have
    "stableArgsKey shownum a = stableArgsKey shownum b \<longleftrightarrow> same_args a b"
    using assms printed_inj [OF assms(1)] printed_defined [OF assms(1)]
    by (cases a; cases b) (auto simp: stableArgsKey_def same_args_def wf_args_def dest: sym)
  then show ?thesis by (simp add: call_key_inject)
qed

section \<open>Every turn is bounded\<close>

definition calls_with :: "(rat \<Rightarrow> string) \<Rightarrow> string \<Rightarrow> (string \<times> jvalue option) list \<Rightarrow> nat" where
  "calls_with shownum key bodies = length (filter (\<lambda>(n, a). call_key shownum n a = key) bodies)"

definition call_count :: "string \<Rightarrow> turn_controller \<Rightarrow> nat" where
  "call_count key c = (case map_of (callCounts c) key of Some n \<Rightarrow> n | None \<Rightarrow> 0)"

text \<open>The counters of a turn that goes on are exact; those of any turn have stayed within the limits.\<close>

definition turn_inv :: "(rat \<Rightarrow> string) \<Rightarrow> turn_controller \<Rightarrow> (string \<times> jvalue option) list \<Rightarrow> bool" where
  "turn_inv shownum c bodies \<longleftrightarrow>
     length bodies \<le> maxToolCallsPerTurn c \<and> (\<forall>key. calls_with shownum key bodies \<le> maxIdenticalToolCalls c)
     \<and> (\<not> terminated c \<longrightarrow> totalToolCalls c = length bodies \<and> (\<forall>key. call_count key c = calls_with shownum key bodies))"

lemma terminate_turn_simps [simp]:
  "terminated (terminate_turn r m c)" "maxToolCallsPerTurn (terminate_turn r m c) = maxToolCallsPerTurn c"
  "maxIdenticalToolCalls (terminate_turn r m c) = maxIdenticalToolCalls c"
  by (simp_all add: terminate_turn_def)

lemma turn_inv_terminated: "turn_inv shownum c bodies \<Longrightarrow> turn_inv shownum (terminate_turn r m c) bodies"
  by (simp add: turn_inv_def)

lemma turn_inv_call:
  assumes inv: "turn_inv shownum c bodies" and call: "guardedExecute shownum name args c = (result, c')"
  shows "turn_inv shownum c' (bodies @ (if result = Body_run then [(name, args)] else []))"
proof (cases "terminated c")
  case True
  with inv call show ?thesis by (auto simp: guardedExecute_def)
next
  case False
  let ?key = "call_key shownum name args"
  let ?n = "call_count ?key c + 1"
  have counts: "totalToolCalls c = length bodies" "call_count key c = calls_with shownum key bodies" for key
    using inv False by (simp_all add: turn_inv_def)
  have more: "calls_with shownum key (bodies @ [(name, args)]) = calls_with shownum key bodies + (if key = ?key then 1 else 0)" for key
    by (simp add: calls_with_def)
  have limits: "length bodies \<le> maxToolCallsPerTurn c" "calls_with shownum key bodies \<le> maxIdenticalToolCalls c" for key
    using inv by (simp_all add: turn_inv_def)
  consider (cap) "maxToolCallsPerTurn c < totalToolCalls c + 1"
    | (loop) "\<not> maxToolCallsPerTurn c < totalToolCalls c + 1" "maxIdenticalToolCalls c < ?n"
    | (runs) "\<not> maxToolCallsPerTurn c < totalToolCalls c + 1" "\<not> maxIdenticalToolCalls c < ?n" by blast
  then show ?thesis
  proof cases
    case cap
    with False call limits show ?thesis
      by (auto simp: guardedExecute_def recordToolCall_def Let_def turn_inv_def)
  next
    case loop
    with False call limits show ?thesis
      by (auto simp: guardedExecute_def recordToolCall_def Let_def turn_inv_def call_count_def)
  next
    case runs
    have result: "result = Body_run"
      "c' = c \<lparr> totalToolCalls := totalToolCalls c + 1, callCounts := AList.update ?key ?n (callCounts c) \<rparr>"
      using runs False call by (auto simp: guardedExecute_def recordToolCall_def Let_def call_count_def)
    have "call_count key c' = call_count key c + (if key = ?key then 1 else 0)" for key
      unfolding result(2) by (simp add: call_count_def jm_get_set)
    moreover have "calls_with shownum key (bodies @ [(name, args)]) \<le> maxIdenticalToolCalls c" for key
      using runs(2) counts(2) limits(2) by (simp add: more)
    ultimately show ?thesis using result(1) runs(1) counts False
      unfolding turn_inv_def by (simp add: more result(2))
  qed
qed

lemma guarded_step_inv:
  "turn_inv shownum c bodies \<Longrightarrow>
     turn_inv shownum (snd (guarded_step shownum e c)) (bodies @ fst (guarded_step shownum e c))"
  by (cases e) (auto intro: turn_inv_terminated dest: turn_inv_call split: prod.split)

lemma guarded_run_inv:
  "turn_inv shownum c bodies \<Longrightarrow>
     turn_inv shownum (snd (guarded_run shownum es c)) (bodies @ fst (guarded_run shownum es c))"
proof (induction es arbitrary: c bodies)
  case (Cons e es)
  from Cons.IH [OF guarded_step_inv [OF Cons.prems, of e]] show ?case by (simp add: Let_def)
qed simp

lemma guardedExecute_keeps:
  assumes "guardedExecute shownum n a c = (r, c')"
  shows "maxToolCallsPerTurn c' = maxToolCallsPerTurn c" "maxIdenticalToolCalls c' = maxIdenticalToolCalls c"
    "abort_attached c' = abort_attached c" "terminated c \<longrightarrow> terminated c'"
  using assms by (auto simp: guardedExecute_def recordToolCall_def terminate_turn_def Let_def split: if_splits)

lemma guarded_step_keeps [simp]:
  "maxToolCallsPerTurn (snd (guarded_step shownum e c)) = maxToolCallsPerTurn c"
  "maxIdenticalToolCalls (snd (guarded_step shownum e c)) = maxIdenticalToolCalls c"
  "abort_attached (snd (guarded_step shownum e c)) = abort_attached c"
  "terminated c \<Longrightarrow> terminated (snd (guarded_step shownum e c))"
  by (cases e; auto simp: terminate_turn_def guardedExecute_keeps split: prod.split)+

lemma guarded_run_limits [simp]:
  "maxToolCallsPerTurn (snd (guarded_run shownum es c)) = maxToolCallsPerTurn c"
  "maxIdenticalToolCalls (snd (guarded_run shownum es c)) = maxIdenticalToolCalls c"
  by (induction es arbitrary: c) (simp_all add: Let_def)

fun call_ok :: "turn_event \<Rightarrow> bool" where
  "call_ok (Call n a) = wf_args a"
| "call_ok (End_turn r m) = True"

lemma guarded_run_calls:
  "list_all call_ok es \<Longrightarrow> list_all (\<lambda>(n, a). wf_args a) (fst (guarded_run shownum es c))"
proof (induction es arbitrary: c)
  case (Cons e es)
  then show ?case by (cases e) (auto simp: Let_def split: prod.split)
qed simp

text \<open>
  C27: Whatever a model does in a turn, at most \<^verbatim>\<open>maxToolCallsPerTurn\<close> tool bodies run, and at most
  \<^verbatim>\<open>maxIdenticalToolCalls\<close> with the same tool and the same arguments, where arguments are the same
  whatever the order of their members.
\<close>

theorem turn_is_bounded:
  assumes "num_ok shownum" "list_all call_ok es" "wf_args a"
  shows "length (fst (guarded_run shownum es (startTurn c))) \<le> maxToolCallsPerTurn c
    \<and> length (filter (\<lambda>(m, b). m = n \<and> same_args b a) (fst (guarded_run shownum es (startTurn c)))) \<le> maxIdenticalToolCalls c"
proof -
  let ?bodies = "fst (guarded_run shownum es (startTurn c))"
  have "turn_inv shownum (startTurn c) []" by (simp add: turn_inv_def startTurn_def calls_with_def call_count_def)
  from guarded_run_inv [OF this, of es]
  have limits: "length ?bodies \<le> maxToolCallsPerTurn c"
    "calls_with shownum (call_key shownum n a) ?bodies \<le> maxIdenticalToolCalls c"
    by (simp_all add: turn_inv_def) (simp_all add: startTurn_def)
  have "filter (\<lambda>(m, b). m = n \<and> same_args b a) ?bodies = filter (\<lambda>(m, b). call_key shownum m b = call_key shownum n a) ?bodies"
    using guarded_run_calls [OF assms(2), of shownum "startTurn c"] same_call_key [OF assms(1) _ assms(3)]
    by (intro filter_cong) (auto simp: list_all_iff)
  with limits show ?thesis by (simp add: calls_with_def)
qed

lemma turn_is_bounded_witness:
  "length (filter (\<lambda>(m, b). m = ''ask'' \<and> same_args b None)
     (fst (guarded_run unary_number (replicate 9 (Call ''ask'' None)) (startTurn (new_controller None None True))))) \<le> 3"
  using turn_is_bounded [OF unary_ok, of "replicate 9 (Call ''ask'' None)" None "new_controller None None True" "''ask''"]
  by (simp add: wf_args_def new_controller_def DEFAULT_MAX_IDENTICAL_TOOL_CALLS_def list_all_iff)

section \<open>An ended turn stays ended\<close>

lemma terminated_blocks: "terminated c \<Longrightarrow> guarded_run shownum es c = ([], c)"
proof (induction es)
  case (Cons e es)
  then have "guarded_step shownum e c = ([], c)" by (cases e) (simp_all add: guardedExecute_def terminate_turn_def)
  with Cons show ?case by simp
qed simp

lemma guarded_run_append:
  "guarded_run shownum (es @ fs) c =
     (fst (guarded_run shownum es c) @ fst (guarded_run shownum fs (snd (guarded_run shownum es c))),
      snd (guarded_run shownum fs (snd (guarded_run shownum es c))))"
  by (induction es arbitrary: c) (simp_all add: Let_def)

definition aborts :: "turn_controller \<Rightarrow> nat" where
  "aborts c = length (filter (\<lambda>e. e = Abort_turn) (turn_effects c))"

text \<open>An end that has come is one abort, if there is something to abort.\<close>

lemma terminate_aborts:
  "abort_attached c \<Longrightarrow> aborts (terminate_turn r m c) = aborts c + (if terminated c then 0 else 1)"
  by (simp add: terminate_turn_def aborts_def)

lemma recordToolCall_cases:
  assumes "\<not> terminated c"
  obtains (trips) r m c0 where "recordToolCall shownum n a c = (True, terminate_turn r m c0)"
      "turn_effects c0 = turn_effects c" "\<not> terminated c0" "abort_attached c0 = abort_attached c"
  | (counts) c0 where "recordToolCall shownum n a c = (False, c0)"
      "turn_effects c0 = turn_effects c" "\<not> terminated c0"
proof -
  let ?c1 = "c \<lparr> totalToolCalls := totalToolCalls c + 1 \<rparr>"
  let ?k = "call_key shownum n a"
  let ?n = "(case map_of (callCounts c) ?k of Some n \<Rightarrow> n | None \<Rightarrow> 0) + 1"
  let ?c2 = "?c1 \<lparr> callCounts := AList.update ?k ?n (callCounts c) \<rparr>"
  have same: "turn_effects ?c1 = turn_effects c" "turn_effects ?c2 = turn_effects c" "\<not> terminated ?c1" "\<not> terminated ?c2"
    "abort_attached ?c1 = abort_attached c" "abort_attached ?c2 = abort_attached c"
    using assms by simp_all
  have "recordToolCall shownum n a c =
      (if maxToolCallsPerTurn c < totalToolCalls c + 1
       then (True, terminate_turn Tool_call_cap (cap_message (maxToolCallsPerTurn c)) ?c1)
       else if maxIdenticalToolCalls c < ?n
       then (True, terminate_turn Identical_tool_loop (loop_message n ?n) ?c2) else (False, ?c2))"
    using assms by (simp add: recordToolCall_def Let_def)
  with that same show thesis by (simp split: if_splits)
qed

lemma guardedExecute_aborts:
  assumes "guardedExecute shownum n a c = (r, c')" "abort_attached c"
  shows "aborts c' = aborts c + (if terminated c' \<and> \<not> terminated c then 1 else 0)"
proof (cases "terminated c")
  case True
  with assms show ?thesis by (simp add: guardedExecute_def)
next
  case False
  then show ?thesis
  proof (cases rule: recordToolCall_cases [of c shownum n a])
    case (trips reason m c0)
    with assms False have "c' = terminate_turn reason m c0" by (simp add: guardedExecute_def)
    with terminate_aborts [of c0] trips assms(2) False show ?thesis by (simp add: aborts_def)
  next
    case (counts c0)
    with assms False show ?thesis by (simp add: guardedExecute_def aborts_def)
  qed
qed

lemma guarded_step_aborts:
  "abort_attached c \<Longrightarrow> aborts (snd (guarded_step shownum e c))
     = aborts c + (if terminated (snd (guarded_step shownum e c)) \<and> \<not> terminated c then 1 else 0)"
  by (cases e) (auto simp: terminate_aborts dest: guardedExecute_aborts split: prod.split)

lemma guarded_run_aborts:
  "abort_attached c \<Longrightarrow> aborts (snd (guarded_run shownum es c))
       = aborts c + (if terminated (snd (guarded_run shownum es c)) \<and> \<not> terminated c then 1 else 0)
     \<and> (terminated c \<longrightarrow> terminated (snd (guarded_run shownum es c)))"
proof (induction es arbitrary: c)
  case (Cons e es)
  obtain c1 where c1: "c1 = snd (guarded_step shownum e c)" by blast
  have "abort_attached c1" using Cons.prems unfolding c1 by simp
  note IH = Cons.IH [OF this]
  have step: "aborts c1 = aborts c + (if terminated c1 \<and> \<not> terminated c then 1 else 0)"
    unfolding c1 by (rule guarded_step_aborts [OF Cons.prems])
  have stays: "terminated c \<longrightarrow> terminated c1" unfolding c1 using guarded_step_keeps(4) by blast
  have run: "snd (guarded_run shownum (e # es) c) = snd (guarded_run shownum es c1)" by (simp add: c1 Let_def)
  show ?case unfolding run using IH step stays by (cases "terminated c"; cases "terminated c1") simp_all
qed simp

text \<open>
  Once a tool has ended the turn (a question to the user, say), no further tool body runs in it,
  not even one of the same assistant message, and the agent is aborted exactly once however
  often the end is asked for.
\<close>

theorem ended_turn_runs_nothing:
  assumes "abort_attached c"
  shows "fst (guarded_run shownum (es @ End_turn r m # fs) (startTurn c)) = fst (guarded_run shownum es (startTurn c))
    \<and> aborts (snd (guarded_run shownum (es @ End_turn r m # fs) (startTurn c))) = aborts c + 1"
proof -
  let ?c1 = "snd (guarded_run shownum es (startTurn c))"
  have "guarded_run shownum (es @ End_turn r m # fs) (startTurn c)
      = (fst (guarded_run shownum es (startTurn c)), terminate_turn r m ?c1)"
    using terminated_blocks [of "terminate_turn r m ?c1" shownum fs] by (simp add: guarded_run_append)
  moreover have "aborts (terminate_turn r m ?c1) = aborts c + 1"
  proof -
    have "abort_attached (startTurn c)" "\<not> terminated (startTurn c)" "aborts (startTurn c) = aborts c"
      using assms by (simp_all add: startTurn_def aborts_def)
    with guarded_run_aborts [of "startTurn c" shownum "es @ [End_turn r m]"] show ?thesis
      by (simp add: guarded_run_append)
  qed
  ultimately show ?thesis by simp
qed

lemma ended_turn_runs_nothing_witness:
  "fst (guarded_run unary_number [Call ''read'' None, End_turn Ask_user ''?'', Call ''write'' None]
     (startTurn (attachAbort (new_controller None None True)))) = [(''read'', None)]"
  using ended_turn_runs_nothing [of "attachAbort (new_controller None None True)" unary_number "[Call ''read'' None]" Ask_user "''?''"
      "[Call ''write'' None]"]
  by (simp add: attachAbort_def new_controller_def startTurn_def guardedExecute_def recordToolCall_def Let_def
      DEFAULT_MAX_TOOL_CALLS_PER_TURN_def DEFAULT_MAX_IDENTICAL_TOOL_CALLS_def)

end
