(* ===== verification/Worker_Client.thy ===== *)
theory Worker_Client
  imports Json_Equal
begin

text \<open>
  The worker's end of its stream: \<^verbatim>\<open>packages/agent-worker/src/gateway/sse-client.ts\<close>, the reader
  of the event stream and the loop that reconnects. The writer of the stream is \<^verbatim>\<open>sendSSE\<close> of the
  gateway's \<^verbatim>\<open>connection-manager.ts\<close>; \<open>printed\<close> is \<^verbatim>\<open>JSON.stringify\<close>.
\<close>

section \<open>Reading the stream\<close>

abbreviation line_feed :: char where
  "line_feed \<equiv> CHR 0x0A"

text \<open>\<^verbatim>\<open>buffer.split("\n\n")\<close>\<close>

fun split_blank :: "string \<Rightarrow> string list" where
  "split_blank [] = [[]]"
| "split_blank [c] = [[c]]"
| "split_blank (c # d # s) =
     (if c = line_feed \<and> d = line_feed then [] # split_blank s
      else (c # hd (split_blank (d # s))) # tl (split_blank (d # s)))"

text \<open>One chunk of the stream: the events it completes and the rest that stays in the buffer.\<close>

definition read_chunk :: "string \<Rightarrow> string \<Rightarrow> string list \<times> string" where
  "read_chunk buffer chunk = (let events = split_blank (buffer @ chunk) in (butlast events, last events))"

definition parse_line :: "string \<times> string \<Rightarrow> string \<Rightarrow> string \<times> string" where
  "parse_line event line =
     (if starts_with line ''event:'' then (trim (drop 6 line), snd event)
      else if starts_with line ''data:'' then (fst event, trim (drop 5 line))
      else event)"

definition parse_event :: "string \<Rightarrow> (string \<times> string) option" where
  "parse_event event =
     (if trim event = [] then None
      else (let (eventType, eventData) = foldl parse_line (''message'', []) (split_on line_feed event) in
        if eventData \<noteq> [] then Some (eventType, eventData) else None))"

text \<open>The events handed to \<^verbatim>\<open>handleEvent\<close> while the stream delivers its chunks.\<close>

fun read_stream :: "string \<Rightarrow> string list \<Rightarrow> (string \<times> string) list" where
  "read_stream buffer [] = []"
| "read_stream buffer (chunk # chunks) =
     (let (events, rest) = read_chunk buffer chunk in
      List.map_filter parse_event events @ read_stream rest chunks)"

text \<open>What \<^verbatim>\<open>sendSSE\<close> writes for an event.\<close>

definition sse_text :: "(rat \<Rightarrow> string) \<Rightarrow> string \<times> jvalue \<Rightarrow> string" where
  "sse_text shownum e = ''event: '' @ fst e @ [line_feed] @ ''data: '' @ printed shownum (snd e) @ [line_feed, line_feed]"

section \<open>Reconnecting\<close>

text \<open>
  How one \<^verbatim>\<open>connectAndListen\<close> ends: it fails before the stream is open, the open stream ends or
  breaks, or the request is aborted.
\<close>

datatype connection_outcome = Connect_failed | Stream_ended | Aborted

record gateway_client =
  isRunning :: bool
  reconnectAttempts :: nat
  reconnectsExhausted :: bool

definition maxReconnectAttempts :: nat where
  "maxReconnectAttempts = 10"

definition reconnect_delay :: "nat \<Rightarrow> ms" where
  "reconnect_delay attempts = min (1000 * 2 ^ (attempts - 1)) 60000"

text \<open>\<^verbatim>\<open>handleReconnect\<close>: the new state and the wait, if there is one.\<close>

definition handleReconnect :: "gateway_client \<Rightarrow> ms option \<times> gateway_client" where
  "handleReconnect c =
     (if maxReconnectAttempts \<le> reconnectAttempts c
      then (None, c \<lparr> reconnectsExhausted := True, isRunning := False \<rparr>)
      else (Some (reconnect_delay (reconnectAttempts c + 1)), c \<lparr> reconnectAttempts := reconnectAttempts c + 1 \<rparr>))"

text \<open>
  The loop of \<^verbatim>\<open>start\<close> on the outcomes of its connections, \<open>None\<close> when they are used up before it ends:
  its end (\<open>Inl\<close> for the error of exhausted attempts) and the waits in between.
\<close>

fun start_loop :: "connection_outcome list \<Rightarrow> gateway_client \<Rightarrow> (ms list \<times> (unit + unit)) option" where
  "start_loop [] c = (if isRunning c then None else Some ([], if reconnectsExhausted c then Inl () else Inr ()))"
| "start_loop (outcome # outcomes) c =
     (if \<not> isRunning c then Some ([], if reconnectsExhausted c then Inl () else Inr ())
      else
        (case outcome of
           Aborted \<Rightarrow> Some ([], if reconnectsExhausted c then Inl () else Inr ())
         | _ \<Rightarrow>
             (let c = (if outcome = Stream_ended then c \<lparr> reconnectAttempts := 0 \<rparr> else c);
                  (wait, c) = handleReconnect c in
              map_option (\<lambda>(waits, end). ((case wait of Some w \<Rightarrow> w # waits | None \<Rightarrow> waits), end))
                (start_loop outcomes c))))"

definition new_client :: gateway_client where
  "new_client = \<lparr> isRunning = True, reconnectAttempts = 0, reconnectsExhausted = False \<rparr>"

section \<open>The events of a stream\<close>

lemma split_blank_not_Nil [simp]: "split_blank s \<noteq> []"
  by (induction s rule: split_blank.induct) simp_all

lemma split_blank_single: "tl (split_blank s) = [] \<Longrightarrow> hd (split_blank s) = s"
  by (induction s rule: split_blank.induct) (auto split: if_splits)

text \<open>The events of a text that comes in two pieces are those of the whole.\<close>

lemma split_blank_append:
  "split_blank (s @ t) = butlast (split_blank s) @ split_blank (last (split_blank s) @ t)"
proof (induction s rule: split_blank.induct)
  case (3 c d s)
  show ?case
  proof (cases "c = line_feed \<and> d = line_feed")
    case True
    with 3(1) show ?thesis by simp
  next
    case False
    obtain w ws where w: "split_blank (d # s) = w # ws" by (cases "split_blank (d # s)") simp_all
    show ?thesis
    proof (cases ws)
      case Nil
      with w split_blank_single [of "d # s"] have "w = d # s" by simp
      with False w Nil show ?thesis by auto
    next
      case (Cons v vs)
      from False have "split_blank ((c # d # s) @ t) = (c # hd (split_blank ((d # s) @ t))) # tl (split_blank ((d # s) @ t))"
        by simp
      also have "split_blank ((d # s) @ t) = w # butlast ws @ split_blank (last ws @ t)"
        using 3(2) [OF False] w Cons by simp
      finally show ?thesis using False w Cons by auto
    qed
  qed
qed simp_all

lemma split_blank_last: "split_blank (last (split_blank s)) = [last (split_blank s)]"
proof -
  have "butlast (split_blank s) @ split_blank (last (split_blank s)) = butlast (split_blank s) @ [last (split_blank s)]"
    using split_blank_append [of s "[]"] by (simp del: append_butlast_last_id add: append_butlast_last_id [OF split_blank_not_Nil])
  then show ?thesis by (simp only: same_append_eq)
qed

lemma read_stream_concat:
  "split_blank buffer = [buffer] \<Longrightarrow>
     read_stream buffer chunks = List.map_filter parse_event (butlast (split_blank (buffer @ concat chunks)))"
proof (induction chunks arbitrary: buffer)
  case Nil
  then show ?case by (simp add: List.map_filter_def)
next
  case (Cons chunk chunks)
  let ?parts = "split_blank (buffer @ chunk)"
  have "read_stream (last ?parts) chunks = List.map_filter parse_event (butlast (split_blank (last ?parts @ concat chunks)))"
    by (rule Cons.IH [OF split_blank_last])
  moreover have "split_blank (buffer @ concat (chunk # chunks)) = butlast ?parts @ split_blank (last ?parts @ concat chunks)"
    using split_blank_append [of "buffer @ chunk" "concat chunks"] by simp
  ultimately show ?case by (simp add: read_chunk_def Let_def butlast_append List.map_filter_def)
qed

text \<open>The text of an event is one piece of the stream.\<close>

lemma split_blank_line: "line_feed \<notin> set a \<Longrightarrow> split_blank (a @ x) = (a @ hd (split_blank x)) # tl (split_blank x)"
proof (induction a)
  case (Cons c a)
  show ?case
  proof (cases "a @ x")
    case Nil
    with Cons.prems show ?thesis by simp
  next
    case (Cons d s)
    with Cons.IH Cons.prems show ?thesis by auto
  qed
qed simp

lemma split_blank_next: "b \<noteq> [] \<Longrightarrow> line_feed \<notin> set b \<Longrightarrow> split_blank (line_feed # b @ x) = (line_feed # b @ hd (split_blank x)) # tl (split_blank x)"
  using split_blank_line [of b x] by (cases b) auto

lemma split_sse:
  assumes "line_feed \<notin> set a" "line_feed \<notin> set b" "b \<noteq> []"
  shows "split_blank (a @ line_feed # b @ line_feed # line_feed # x) = (a @ line_feed # b) # split_blank x"
  using assms split_blank_line [of a "line_feed # b @ line_feed # line_feed # x"] split_blank_next [of b "line_feed # line_feed # x"]
  by simp

section \<open>What the gateway writes is what the worker reads\<close>

lemma number_char_plain:
  assumes "c \<in> number_chars"
  shows "\<not> is_space c" "c \<noteq> line_feed"
proof -
  have "list_all (\<lambda>c. \<not> is_space c \<and> c \<noteq> line_feed) ''0123456789+-.e''" by code_simp
  with assms show "\<not> is_space c" "c \<noteq> line_feed" by (auto simp: number_chars_def list_all_iff)
qed

lemma escape_plain: "line_feed \<notin> set (escape c)"
proof -
  have nl: "code d = 10" if "d = line_feed" for d using that by (simp add: code_def)
  have hex: "line_feed \<noteq> hex_digit n" if "n < 16" for n
  proof
    assume "line_feed = hex_digit n"
    from nl [OF this [symmetric]] that show False by (simp add: hex_digit_def split: if_splits)
  qed
  have "line_feed \<noteq> hex_digit (code c div 16)" if "code c < 32" by (rule hex) (use that in simp)
  moreover have "line_feed \<noteq> hex_digit (code c mod 16)" by (rule hex) simp
  moreover have "line_feed = c \<Longrightarrow> code c = 10" using nl by blast
  ultimately show ?thesis by (auto simp: escape_def Let_def)
qed

lemma quote_plain: "line_feed \<notin> set (json_quote s)"
  using escape_plain by (auto simp: json_quote_def)

lemma join_plain: "line_feed \<notin> set sep \<Longrightarrow> list_all (\<lambda>x. line_feed \<notin> set x) xs \<Longrightarrow> line_feed \<notin> set (join sep xs)"
  by (induction sep xs rule: join.induct) auto

lemma printed_plain:
  assumes "num_ok shownum"
  shows "line_feed \<notin> set (printed shownum v)"
proof (induction v)
  case (JNum n)
  have "set (shownum n) \<subseteq> number_chars" using assms by (simp add: num_ok_def)
  then show ?case using number_char_plain by auto
next
  case (JArr xs)
  then have "line_feed \<notin> set (join '','' (map (printed shownum) xs))"
    by (intro join_plain) (auto simp: list_all_iff)
  then show ?case by simp
next
  case (JObj ms)
  then have "line_feed \<notin> set (join '','' (map (\<lambda>(k, v). json_quote k @ '':'' @ printed shownum v) ms))"
    using quote_plain by (intro join_plain) (fastforce simp: list_all_iff)+
  then show ?case by simp
qed (simp_all add: quote_plain)

lemma printed_trimmed:
  assumes "num_ok shownum"
  shows "trim (printed shownum v) = printed shownum v" "printed shownum v \<noteq> []"
proof -
  have plain: "list_all (\<lambda>c. \<not> is_space c) ''ntfle[]{}'' \<and> \<not> is_space (CHR 0x22)" by code_simp
  have first: "\<exists>h t. printed shownum v = h # t \<and> \<not> is_space h"
  proof (cases v)
    case (JNum n)
    obtain h t where "shownum n = h # t" "h \<in> number_chars"
      using assms unfolding num_ok_def by (metis insert_subset list.exhaust list.set(2))
    with JNum number_char_plain show ?thesis by simp
  qed (use plain in \<open>auto simp: json_quote_def\<close>)
  have final: "\<exists>h t. printed shownum v = t @ [h] \<and> \<not> is_space h"
  proof (cases v)
    case (JNum n)
    obtain h t where ht: "shownum n = t @ [h]" using assms unfolding num_ok_def by (metis rev_exhaust)
    then have "h \<in> number_chars" using assms unfolding num_ok_def by (metis in_set_conv_decomp subsetD)
    with JNum ht number_char_plain show ?thesis by auto
  qed (use plain in \<open>auto simp: json_quote_def\<close>)
  have "dropWhile is_space (printed shownum v) = printed shownum v" "printed shownum v \<noteq> []" using first by auto
  moreover have "dropWhile is_space (rev (printed shownum v)) = rev (printed shownum v)" using final by auto
  ultimately show "trim (printed shownum v) = printed shownum v" "printed shownum v \<noteq> []"
    by (simp_all add: trim_def)
qed

lemma trim_space: "trim (CHR '' '' # s) = trim s"
proof -
  have "is_space (CHR '' '')" by code_simp
  then show ?thesis by (simp add: trim_def)
qed

text \<open>An event name as the gateway uses them: one word.\<close>

definition event_name :: "string \<Rightarrow> bool" where
  "event_name e \<longleftrightarrow> line_feed \<notin> set e \<and> trim e = e"

lemma parse_sse:
  assumes "num_ok shownum" "event_name (fst e)"
  shows "parse_event (''event: '' @ fst e @ line_feed # ''data: '' @ printed shownum (snd e)) = Some (fst e, printed shownum (snd e))"
proof -
  let ?a = "''event: '' @ fst e" and ?b = "''data: '' @ printed shownum (snd e)"
  have plain: "line_feed \<notin> set ?a" "line_feed \<notin> set ?b"
    using assms(2) printed_plain [OF assms(1), of "snd e"] by (auto simp: event_name_def)
  then have "split_on line_feed (?a @ line_feed # ?b) = [?a, ?b]"
    using split_on_append_sep [of line_feed ?a ?b] split_on_no_sep by simp
  moreover have "trim (?a @ line_feed # ?b) \<noteq> []"
  proof -
    have "\<not> is_space (CHR ''e'')" by code_simp
    then show ?thesis by (auto simp: trim_def dropWhile_eq_Nil_conv)
  qed
  moreover have "parse_line (''message'', []) ?a = (fst e, [])"
    using assms(2) by (simp add: parse_line_def starts_with_def trim_space event_name_def)
  moreover have "parse_line (fst e, []) ?b = (fst e, printed shownum (snd e))"
    using printed_trimmed(1) [OF assms(1)] by (simp add: parse_line_def starts_with_def trim_space)
  ultimately show ?thesis using printed_trimmed(2) [OF assms(1)]
    by (simp add: parse_event_def)
qed

lemma split_sse_stream:
  assumes "num_ok shownum" "list_all (\<lambda>e. event_name (fst e)) es"
  shows "split_blank (concat (map (sse_text shownum) es)) =
    map (\<lambda>e. ''event: '' @ fst e @ line_feed # ''data: '' @ printed shownum (snd e)) es @ [[]]"
  using assms(2)
proof (induction es)
  case (Cons e es)
  let ?a = "''event: '' @ fst e" and ?b = "''data: '' @ printed shownum (snd e)"
  have "line_feed \<notin> set ?a" "line_feed \<notin> set ?b" "?b \<noteq> []"
    using Cons.prems printed_plain [OF assms(1), of "snd e"] by (auto simp: event_name_def)
  from split_sse [OF this, of "concat (map (sse_text shownum) es)"]
  have "split_blank (?a @ line_feed # ?b @ line_feed # line_feed # concat (map (sse_text shownum) es))
      = (?a @ line_feed # ?b) # split_blank (concat (map (sse_text shownum) es))" .
  moreover have "concat (map (sse_text shownum) (e # es))
      = ?a @ line_feed # ?b @ line_feed # line_feed # concat (map (sse_text shownum) es)" by (simp add: sse_text_def)
  moreover have "split_blank (concat (map (sse_text shownum) es)) =
      map (\<lambda>e. ''event: '' @ fst e @ line_feed # ''data: '' @ printed shownum (snd e)) es @ [[]]"
    using Cons.IH Cons.prems by simp
  ultimately show ?case by (simp only: list.map append_assoc append_Cons append_Nil)
qed simp

text \<open>
  C30: However the network cuts the stream into chunks, the worker handles exactly the events the gateway
  wrote, in their order, each with its name and the JSON text of its data; nothing in the data
  can end an event or begin another.
\<close>

theorem worker_reads_what_gateway_writes:
  assumes "num_ok shownum" "list_all (\<lambda>e. event_name (fst e)) es"
    and "concat chunks = concat (map (sse_text shownum) es)"
  shows "read_stream [] chunks = map (\<lambda>e. (fst e, printed shownum (snd e))) es"
proof -
  have "read_stream [] chunks = List.map_filter parse_event
      (map (\<lambda>e. ''event: '' @ fst e @ line_feed # ''data: '' @ printed shownum (snd e)) es)"
    using read_stream_concat [of "[]" chunks] split_sse_stream [OF assms(1,2)] assms(3) by simp
  also have "\<dots> = map (\<lambda>e. (fst e, printed shownum (snd e))) es"
    using assms(2) parse_sse [OF assms(1)] by (induction es) (simp_all add: List.map_filter_def)
  finally show ?thesis .
qed

definition sample_chunks :: "string list" where
  "sample_chunks = [''event: pi'', ''ng'' @ [line_feed] @ ''data: {}'' @ [line_feed], [line_feed] @ ''event: job'' @ [line_feed], ''data: null'' @ [line_feed, line_feed]]"

lemma worker_reads_what_gateway_writes_witness:
  "read_stream [] sample_chunks = [(''ping'', ''{}''), (''job'', ''null'')]"
proof -
  have "list_all (\<lambda>e. event_name (fst e)) [(''ping'', JObj []), (''job'', JNull :: jvalue)]" by code_simp
  moreover have "concat sample_chunks = concat (map (sse_text unary_number) [(''ping'', JObj []), (''job'', JNull)])"
    by (simp add: sample_chunks_def sse_text_def)
  ultimately have "read_stream [] sample_chunks
      = map (\<lambda>e. (fst e, printed unary_number (snd e))) [(''ping'', JObj []), (''job'', JNull)]"
    by (rule worker_reads_what_gateway_writes [OF unary_ok])
  then show ?thesis by simp
qed

section \<open>Giving up\<close>

lemma start_loop_failures:
  "n \<le> maxReconnectAttempts \<Longrightarrow> isRunning c \<Longrightarrow> reconnectAttempts c = maxReconnectAttempts - n \<Longrightarrow>
     start_loop (replicate (Suc n) Connect_failed @ later) c
       = Some (map reconnect_delay [Suc (maxReconnectAttempts - n) ..< Suc maxReconnectAttempts], Inl ())"
proof (induction n arbitrary: c)
  case 0
  then show ?case by (cases later) (simp_all add: handleReconnect_def)
next
  case (Suc n)
  let ?c = "c \<lparr> reconnectAttempts := Suc (reconnectAttempts c) \<rparr>"
  have "start_loop (replicate (Suc n) Connect_failed @ later) ?c
      = Some (map reconnect_delay [Suc (maxReconnectAttempts - n) ..< Suc maxReconnectAttempts], Inl ())"
    using Suc.prems by (intro Suc.IH) simp_all
  moreover have "[Suc (maxReconnectAttempts - Suc n) ..< Suc maxReconnectAttempts]
      = Suc (maxReconnectAttempts - Suc n) # [Suc (maxReconnectAttempts - n) ..< Suc maxReconnectAttempts]"
    using Suc.prems(1) upt_conv_Cons [of "maxReconnectAttempts - n" "Suc maxReconnectAttempts"]
    by (simp add: Suc_diff_Suc del: upt_Suc)
  ultimately show ?case using Suc.prems by (simp add: handleReconnect_def)
qed

text \<open>
  A worker whose connections keep failing gives up with an error after eleven of them in a row,
  having waited 1, 2, 4, 8, 16, 32 and then four times 60 seconds, whatever came before the last
  stream it had open.
\<close>

lemma worker_gives_up:
  assumes "isRunning c"
  shows "start_loop (Stream_ended # replicate 10 Connect_failed @ later) c
    = Some ([1000, 2000, 4000, 8000, 16000, 32000, 60000, 60000, 60000, 60000], Inl ())"
proof -
  let ?c = "c \<lparr> reconnectAttempts := Suc 0 \<rparr>"
  have "start_loop (replicate (Suc 9) Connect_failed @ later) ?c
      = Some (map reconnect_delay [Suc (maxReconnectAttempts - 9) ..< Suc maxReconnectAttempts], Inl ())"
    using assms by (intro start_loop_failures) (simp_all add: maxReconnectAttempts_def)
  moreover have "map reconnect_delay [Suc (maxReconnectAttempts - 9) ..< Suc maxReconnectAttempts]
      = [2000, 4000, 8000, 16000, 32000, 60000, 60000, 60000, 60000]" by code_simp
  moreover have "reconnect_delay 1 = 1000" by code_simp
  ultimately show ?thesis using assms by (simp add: handleReconnect_def maxReconnectAttempts_def)
qed

lemma worker_gives_up_witness:
  "start_loop (Stream_ended # replicate 10 Connect_failed) new_client
    = Some ([1000, 2000, 4000, 8000, 16000, 32000, 60000, 60000, 60000, 60000], Inl ())"
proof -
  have "isRunning new_client" by (simp add: new_client_def)
  from worker_gives_up [OF this, of "[]"] show ?thesis by simp
qed

text \<open>An aborted request ends the loop; nothing reconnects, and no error says so.\<close>

lemma abort_ends_the_worker: "start_loop (Aborted # outcomes) new_client = Some ([], Inr ())"
  by (simp add: new_client_def)

end
