(* ===== verification/Message_Batcher.thy ===== *)
theory Message_Batcher
  imports Json_Equal "HOL-Library.Multiset"
begin

text \<open>
  How a worker collects messages and answers them: \<^verbatim>\<open>packages/agent-worker/src/gateway/message-batcher.ts\<close>
  and, for what it does with a batch, \<^verbatim>\<open>processBatchedMessages\<close> of \<^verbatim>\<open>sse-client.ts\<close>. The code awaits
  the agent run of each group of a batch; what happens meanwhile are the events of \<open>batch_event\<close>, and
  a run ends well or throws as the trace says.
\<close>

section \<open>Messages\<close>

record queued_message =
  qm_timestamp :: int
  qm_messageId :: string
  qm_messageText :: string
  qm_userId :: string
  qm_agentId :: string
  qm_organizationId :: "string option"
  qm_conversationId :: string
  qm_channelId :: string
  qm_teamId :: "string option"
  qm_botId :: string
  qm_platform :: string
  qm_metadata :: jvalue
  qm_resolvedCourseContext :: "jvalue option"
  qm_trustedExecutionScope :: "jvalue option"
  qm_scheduledCourseContext :: "jvalue option"

text \<open>\<^verbatim>\<open>String(a || b)\<close> and \<^verbatim>\<open>String(a ?? b)\<close>; \<open>text_of\<close> is \<^verbatim>\<open>String\<close> on a value that is not a string.\<close>

fun to_text :: "(jvalue \<Rightarrow> string) \<Rightarrow> jvalue \<Rightarrow> string" where
  "to_text text_of (JStr s) = s"
| "to_text text_of v = text_of v"

definition metadata :: "queued_message \<Rightarrow> string \<Rightarrow> jvalue option" where
  "metadata m k = field (Some (qm_metadata m)) k"

definition text_or :: "(jvalue \<Rightarrow> string) \<Rightarrow> jvalue option \<Rightarrow> string \<Rightarrow> string" where
  "text_or text_of v s = (if truthy_value v then to_text text_of (the v) else s)"

definition effective_team :: "queued_message \<Rightarrow> jvalue option" where
  "effective_team m = (case qm_teamId m of Some t \<Rightarrow> Some (JStr t)
     | None \<Rightarrow> (if metadata m ''teamId'' = Some JNull then None else metadata m ''teamId''))"

definition present_members :: "(string \<times> jvalue option) list \<Rightarrow> jvalue" where
  "present_members ms = JObj (List.map_filter (\<lambda>(k, v). map_option (\<lambda>x. (k, x)) v) ms)"

definition message_identity :: "(jvalue \<Rightarrow> string) \<Rightarrow> queued_message \<Rightarrow> jvalue" where
  "message_identity text_of m = present_members
     [(''responseChannel'', Some (JStr (text_or text_of (metadata m ''responseChannel'') (qm_channelId m)))),
      (''responseId'', Some (JStr (text_or text_of (metadata m ''responseId'') (qm_messageId m)))),
      (''botResponseId'', if truthy_value (metadata m ''botResponseId'')
         then Some (JStr (to_text text_of (the (metadata m ''botResponseId'')))) else None),
      (''effectiveTeamId'', if truthy_value (effective_team m)
         then Some (JStr (to_text text_of (the (effective_team m)))) else None),
      (''responseThreadId'', metadata m ''responseThreadId''),
      (''chatId'', metadata m ''chatId''),
      (''connectionId'', metadata m ''connectionId''),
      (''userId'', Some (JStr (qm_userId m))),
      (''agentId'', Some (JStr (qm_agentId m))),
      (''organizationId'', map_option JStr (qm_organizationId m)),
      (''conversationId'', Some (JStr (qm_conversationId m))),
      (''channelId'', Some (JStr (qm_channelId m))),
      (''teamId'', map_option JStr (qm_teamId m)),
      (''botId'', Some (JStr (qm_botId m))),
      (''platform'', Some (JStr (qm_platform m))),
      (''resolvedCourseContext'', qm_resolvedCourseContext m),
      (''trustedExecutionScope'', qm_trustedExecutionScope m),
      (''scheduledCourseContext'', qm_scheduledCourseContext m)]"

definition areBatchCompatible ::
    "(string \<Rightarrow> 'k :: linorder) \<Rightarrow> (rat \<Rightarrow> string) \<Rightarrow> (jvalue \<Rightarrow> string) \<Rightarrow> queued_message \<Rightarrow> queued_message \<Rightarrow> bool" where
  "areBatchCompatible collate shownum text_of first next \<longleftrightarrow>
     \<not> (truthy_value (metadata first ''automationModificationContext'')
        \<or> truthy_value (metadata next ''automationModificationContext''))
     \<and> canonical_value collate shownum (message_identity text_of first)
       = canonical_value collate shownum (message_identity text_of next)"

text \<open>
  The groups of a batch: a message joins the last group if it is compatible with the first message of
  that group.
\<close>

definition add_to_groups ::
    "(queued_message \<Rightarrow> queued_message \<Rightarrow> bool) \<Rightarrow> queued_message list list \<Rightarrow> queued_message \<Rightarrow> queued_message list list" where
  "add_to_groups compatible groups m =
     (if groups \<noteq> [] \<and> last groups \<noteq> [] \<and> compatible (hd (last groups)) m
      then butlast groups @ [last groups @ [m]]
      else groups @ [[m]])"

definition message_groups ::
    "(queued_message \<Rightarrow> queued_message \<Rightarrow> bool) \<Rightarrow> queued_message list \<Rightarrow> queued_message list list" where
  "message_groups compatible batch = foldl (add_to_groups compatible) [] batch"

text \<open>What is asked of the agent for a group, and the messages the answer is for.\<close>

definition combined_prompt :: "queued_message list \<Rightarrow> string" where
  "combined_prompt ms =
     (case ms of
        [m] \<Rightarrow> qm_messageText m
      | _ \<Rightarrow> join [CHR 0x0A, CHR 0x0A] (map (\<lambda>(i, m). ''Message '' @ show_int (int (i + 1)) @ '': '' @ qm_messageText m)
          (enumerate 0 ms)))"

definition processed_ids :: "queued_message list \<Rightarrow> string list" where
  "processed_ids ms = (case ms of [m] \<Rightarrow> [qm_messageId m] | _ \<Rightarrow> filter (\<lambda>i. i \<noteq> []) (map qm_messageId ms))"

section \<open>The batcher\<close>

text \<open>
  The state of the batcher; \<open>running\<close> is what is left of the batch being processed (its first group
  is with the agent). \<open>started\<close> lists the groups given to the agent so far, \<open>dropped\<close> the messages
  that a failing run has taken with it.
\<close>

record batcher =
  messageQueue :: "queued_message list"
  isProcessing :: bool
  batchTimer :: bool
  hasProcessedInitialBatch :: bool
  running :: "queued_message list list"
  started :: "queued_message list list"
  dropped :: "queued_message list"

definition new_batcher :: batcher where
  "new_batcher = \<lparr> messageQueue = [], isProcessing = False, batchTimer = False, hasProcessedInitialBatch = False,
     running = [], started = [], dropped = [] \<rparr>"

text \<open>\<^verbatim>\<open>processBatch\<close> up to its await: the timer is cleared, the messages are taken in order of their time.\<close>

definition processBatch :: "(queued_message \<Rightarrow> queued_message \<Rightarrow> bool) \<Rightarrow> batcher \<Rightarrow> batcher" where
  "processBatch compatible b =
     (let b = b \<lparr> batchTimer := False \<rparr> in
      if messageQueue b = [] then b
      else
        (let groups = message_groups compatible (sort_key qm_timestamp (messageQueue b)) in
         b \<lparr> isProcessing := True, messageQueue := [], running := groups, started := started b @ [hd groups] \<rparr>))"

definition addMessage :: "(queued_message \<Rightarrow> queued_message \<Rightarrow> bool) \<Rightarrow> queued_message \<Rightarrow> batcher \<Rightarrow> batcher" where
  "addMessage compatible m b =
     (let b = b \<lparr> messageQueue := messageQueue b @ [m] \<rparr> in
      if isProcessing b then b
      else if \<not> batchTimer b
      then (if \<not> hasProcessedInitialBatch b
            then processBatch compatible (b \<lparr> hasProcessedInitialBatch := True \<rparr>)
            else b \<lparr> batchTimer := True \<rparr>)
      else b)"

text \<open>
  The run of the current group ends. Well: the next group follows, or the batch is done and a new window
  is opened for what has arrived. With an error: \<^verbatim>\<open>processBatch\<close> rejects.
\<close>

definition run_succeeds :: "batcher \<Rightarrow> batcher" where
  "run_succeeds b =
     (if \<not> isProcessing b then b
      else if tl (running b) \<noteq> []
      then b \<lparr> running := tl (running b), started := started b @ [hd (tl (running b))] \<rparr>
      else b \<lparr> running := [], isProcessing := False, batchTimer := (batchTimer b \<or> messageQueue b \<noteq> []) \<rparr>)"

definition run_fails :: "batcher \<Rightarrow> batcher" where
  "run_fails b =
     (if \<not> isProcessing b then b
      else b \<lparr> running := [], isProcessing := False, dropped := dropped b @ concat (tl (running b)) \<rparr>)"

definition stop_batcher :: "batcher \<Rightarrow> batcher" where
  "stop_batcher b = b \<lparr> batchTimer := False \<rparr>"

datatype batch_event = Arrives queued_message | Window_ends | Run_succeeds | Run_fails | Stop

fun batch_step :: "(queued_message \<Rightarrow> queued_message \<Rightarrow> bool) \<Rightarrow> batch_event \<Rightarrow> batcher \<Rightarrow> batcher" where
  "batch_step compatible (Arrives m) b = addMessage compatible m b"
| "batch_step compatible Window_ends b = (if batchTimer b then processBatch compatible b else b)"
| "batch_step compatible Run_succeeds b = run_succeeds b"
| "batch_step compatible Run_fails b = run_fails b"
| "batch_step compatible Stop b = stop_batcher b"

definition batch_run :: "(queued_message \<Rightarrow> queued_message \<Rightarrow> bool) \<Rightarrow> batch_event list \<Rightarrow> batcher \<Rightarrow> batcher" where
  "batch_run compatible es b = foldl (\<lambda>b e. batch_step compatible e b) b es"

fun arrived :: "batch_event list \<Rightarrow> queued_message list" where
  "arrived [] = []"
| "arrived (Arrives m # es) = m # arrived es"
| "arrived (e # es) = arrived es"

section \<open>Groups\<close>

definition good_group :: "(queued_message \<Rightarrow> queued_message \<Rightarrow> bool) \<Rightarrow> queued_message list \<Rightarrow> bool" where
  "good_group compatible g \<longleftrightarrow> g \<noteq> [] \<and> list_all (compatible (hd g)) (tl g)"

lemma add_to_groups_ok:
  assumes "list_all (good_group compatible) groups"
  shows "list_all (good_group compatible) (add_to_groups compatible groups m)"
    and "concat (add_to_groups compatible groups m) = concat groups @ [m]"
    and "add_to_groups compatible groups m \<noteq> []"
proof -
  have "groups \<noteq> [] \<Longrightarrow> concat groups = concat (butlast groups) @ last groups"
    by (metis append_butlast_last_id concat.simps(1,2) concat_append append_Nil2)
  moreover have "groups \<noteq> [] \<Longrightarrow> list_all (good_group compatible) (butlast groups) \<and> good_group compatible (last groups)"
    using assms by (metis append_butlast_last_id list_all_append list.pred_inject(2))
  ultimately show "list_all (good_group compatible) (add_to_groups compatible groups m)"
    "concat (add_to_groups compatible groups m) = concat groups @ [m]" "add_to_groups compatible groups m \<noteq> []"
    using assms by (auto simp: add_to_groups_def good_group_def)
qed

lemma message_groups_ok:
  "list_all (good_group compatible) (message_groups compatible batch) \<and> concat (message_groups compatible batch) = batch
     \<and> (batch \<noteq> [] \<longrightarrow> message_groups compatible batch \<noteq> [])"
proof (induction batch rule: rev_induct)
  case (snoc m batch)
  then have "list_all (good_group compatible) (message_groups compatible batch)" by blast
  from add_to_groups_ok [OF this, of m] snoc show ?case by (simp add: message_groups_def)
qed (simp add: message_groups_def)

section \<open>No message is lost or answered twice\<close>

text \<open>Where the messages are that have arrived.\<close>

definition accounted :: "batcher \<Rightarrow> queued_message multiset" where
  "accounted b = mset (concat (started b)) + mset (concat (tl (running b))) + mset (messageQueue b) + mset (dropped b)"

definition batcher_inv :: "(queued_message \<Rightarrow> queued_message \<Rightarrow> bool) \<Rightarrow> batcher \<Rightarrow> bool" where
  "batcher_inv compatible b \<longleftrightarrow>
     (isProcessing b \<longleftrightarrow> running b \<noteq> []) \<and> (batchTimer b \<longrightarrow> \<not> isProcessing b)
     \<and> list_all (good_group compatible) (started b) \<and> list_all (good_group compatible) (running b)"

lemma new_batcher_inv: "batcher_inv compatible new_batcher" "accounted new_batcher = {#}"
  by (simp_all add: batcher_inv_def new_batcher_def accounted_def)

lemma processBatch_inv:
  assumes "batcher_inv compatible b" "\<not> isProcessing b"
  shows "batcher_inv compatible (processBatch compatible b)" "accounted (processBatch compatible b) = accounted b"
proof -
  let ?groups = "message_groups compatible (sort_key qm_timestamp (messageQueue b))"
  have empty: "running b = []" using assms by (simp add: batcher_inv_def)
  have groups: "list_all (good_group compatible) ?groups" "concat ?groups = sort_key qm_timestamp (messageQueue b)"
    "messageQueue b \<noteq> [] \<Longrightarrow> ?groups \<noteq> []"
    using message_groups_ok [of compatible "sort_key qm_timestamp (messageQueue b)"]
    by (auto simp del: sort_key_simps) (metis set_empty set_sort)
  have "messageQueue b \<noteq> [] \<Longrightarrow> hd ?groups @ concat (tl ?groups) = sort_key qm_timestamp (messageQueue b)"
    using groups(2,3) by (metis concat.simps(2) list.collapse)
  then have count: "messageQueue b \<noteq> [] \<Longrightarrow> mset (hd ?groups) + mset (concat (tl ?groups)) = mset (messageQueue b)"
    by (metis mset_append mset_sort)
  show "batcher_inv compatible (processBatch compatible b)"
    using assms groups(1,3) by (cases ?groups) (auto simp: batcher_inv_def processBatch_def Let_def)
  show "accounted (processBatch compatible b) = accounted b"
    using count empty by (auto simp: accounted_def processBatch_def Let_def algebra_simps)
qed

lemma batch_step_inv:
  assumes inv: "batcher_inv compatible b"
  shows "batcher_inv compatible (batch_step compatible e b)
    \<and> accounted (batch_step compatible e b) = accounted b + mset (arrived [e])"
proof (cases e)
  case (Arrives m)
  let ?b = "b \<lparr> messageQueue := messageQueue b @ [m] \<rparr>"
  let ?c = "?b \<lparr> hasProcessedInitialBatch := True \<rparr>"
  have b: "batcher_inv compatible ?b" "accounted ?b = accounted b + {#m#}"
    "batcher_inv compatible ?c" "accounted ?c = accounted b + {#m#}"
    using inv by (auto simp: batcher_inv_def accounted_def)
  consider "isProcessing b \<or> batchTimer b" | "\<not> isProcessing b" "\<not> batchTimer b" "hasProcessedInitialBatch b"
    | "\<not> isProcessing b" "\<not> batchTimer b" "\<not> hasProcessedInitialBatch b" by blast
  then show ?thesis
  proof cases
    case 1
    with b Arrives show ?thesis by (auto simp: addMessage_def Let_def)
  next
    case 2
    then have "batcher_inv compatible (?b \<lparr> batchTimer := True \<rparr>)" "accounted (?b \<lparr> batchTimer := True \<rparr>) = accounted ?b"
      using b by (simp_all add: batcher_inv_def accounted_def)
    with 2 b Arrives show ?thesis by (simp add: addMessage_def Let_def)
  next
    case 3
    then have "\<not> isProcessing ?c" by simp
    from processBatch_inv [OF b(3) this] 3 b(4) Arrives show ?thesis by (simp add: addMessage_def Let_def)
  qed
next
  case Window_ends
  have "\<not> isProcessing b" if "batchTimer b" using inv that unfolding batcher_inv_def by blast
  with inv processBatch_inv [OF inv] Window_ends show ?thesis by auto
next
  case Run_succeeds
  show ?thesis
  proof (cases "running b")
    case Nil
    with inv Run_succeeds show ?thesis by (auto simp: batcher_inv_def run_succeeds_def)
  next
    case (Cons g gs)
    with inv Run_succeeds show ?thesis
      by (cases gs) (auto simp: batcher_inv_def run_succeeds_def accounted_def)
  qed
next
  case Run_fails
  with inv show ?thesis by (simp add: batcher_inv_def run_fails_def accounted_def)
next
  case Stop
  with inv show ?thesis by (simp add: batcher_inv_def stop_batcher_def accounted_def)
qed

lemma arrived_append: "arrived (es @ fs) = arrived es @ arrived fs"
  by (induction es rule: arrived.induct) simp_all

lemma batch_run_inv:
  "batcher_inv compatible (batch_run compatible es new_batcher)
   \<and> accounted (batch_run compatible es new_batcher) = mset (arrived es)"
proof (induction es rule: rev_induct)
  case (snoc e es)
  with batch_step_inv [of compatible "batch_run compatible es new_batcher" e] show ?case
    by (simp add: batch_run_def arrived_append)
qed (simp add: batch_run_def new_batcher_inv)

text \<open>Without failures and stops, an idle batcher with messages has its timer running.\<close>

definition benign :: "batch_event \<Rightarrow> bool" where
  "benign e \<longleftrightarrow> e \<noteq> Run_fails \<and> e \<noteq> Stop"

definition no_strand :: "batcher \<Rightarrow> bool" where
  "no_strand b \<longleftrightarrow> dropped b = [] \<and> (\<not> isProcessing b \<longrightarrow> \<not> batchTimer b \<longrightarrow> messageQueue b = [])"

lemma processBatch_no_strand: "dropped b = [] \<Longrightarrow> no_strand (processBatch compatible b)"
  by (simp add: no_strand_def processBatch_def Let_def)

lemma batch_step_no_strand: "benign e \<Longrightarrow> no_strand b \<Longrightarrow> no_strand (batch_step compatible e b)"
proof (cases e)
  case (Arrives m)
  assume "no_strand b"
  then show ?thesis
    using Arrives processBatch_no_strand [of "b \<lparr> messageQueue := messageQueue b @ [m], hasProcessedInitialBatch := True \<rparr>" compatible]
    by (auto simp: addMessage_def Let_def no_strand_def)
next
  case Window_ends
  assume "no_strand b"
  then show ?thesis using Window_ends processBatch_no_strand [of b compatible] by (auto simp: no_strand_def)
qed (auto simp: benign_def no_strand_def run_succeeds_def)

lemma batch_run_no_strand: "list_all benign es \<Longrightarrow> no_strand (batch_run compatible es new_batcher)"
proof (induction es rule: rev_induct)
  case (snoc e es)
  then show ?case using batch_step_no_strand by (simp add: batch_run_def)
qed (simp add: batch_run_def no_strand_def new_batcher_def)

text \<open>
  C26: Every message that arrives is given to the agent at most once, and if nothing disturbs the batcher exactly once. At any
  moment, whatever fails or stops it, the messages that have arrived are, each exactly once, those given to the agent,
  those waiting in the current batch or in the queue, and those a failing run has dropped. As long as no run fails and
  \<^verbatim>\<open>stop\<close> is not called (\<open>benign\<close>), a batcher that has come to rest (nothing running, no
  window open) has given all of them to the agent.
\<close>

theorem messages_answered_once:
  "accounted (batch_run compatible es new_batcher) = mset (arrived es)
   \<and> (list_all benign es \<and> \<not> isProcessing (batch_run compatible es new_batcher)
        \<and> \<not> batchTimer (batch_run compatible es new_batcher)
      \<longrightarrow> mset (concat (started (batch_run compatible es new_batcher))) = mset (arrived es))"
proof -
  let ?b = "batch_run compatible es new_batcher"
  have inv: "batcher_inv compatible ?b" "accounted ?b = mset (arrived es)" using batch_run_inv by blast+
  have "mset (concat (started ?b)) = mset (arrived es)"
    if "list_all benign es" "\<not> isProcessing ?b" "\<not> batchTimer ?b"
    using batch_run_no_strand [OF that(1), of compatible] that(2,3) inv
    by (simp add: no_strand_def accounted_def batcher_inv_def)
  with inv(2) show ?thesis by blast
qed

text \<open>Messages that differ in their time, their id and their sender.\<close>

definition sample_queued :: "int \<Rightarrow> string \<Rightarrow> string \<Rightarrow> queued_message" where
  "sample_queued stamp mid user = \<lparr> qm_timestamp = stamp, qm_messageId = mid, qm_messageText = ''hi'', qm_userId = user,
     qm_agentId = ''a'', qm_organizationId = Some ''o'', qm_conversationId = ''c'', qm_channelId = ''ch'',
     qm_teamId = None, qm_botId = ''b'', qm_platform = ''slack'',
     qm_metadata = JObj [(''responseId'', JStr ''r'')], qm_resolvedCourseContext = None,
     qm_trustedExecutionScope = None, qm_scheduledCourseContext = None \<rparr>"

definition sample_batch_trace :: "batch_event list" where
  "sample_batch_trace = [Arrives (sample_queued 1 ''m1'' ''u''), Arrives (sample_queued 3 ''m3'' ''u''),
     Arrives (sample_queued 2 ''m2'' ''u''), Run_succeeds, Window_ends, Run_succeeds]"

definition by_user :: "queued_message \<Rightarrow> queued_message \<Rightarrow> bool" where
  "by_user m n \<longleftrightarrow> qm_userId m = qm_userId n"

lemma messages_answered_once_witness:
  "mset (concat (started (batch_run by_user sample_batch_trace new_batcher))) = mset (arrived sample_batch_trace)
   \<and> map (map qm_messageId) (started (batch_run by_user sample_batch_trace new_batcher)) = [[''m1''], [''m2'', ''m3'']]"
proof -
  have "list_all benign sample_batch_trace" by code_simp
  moreover have "\<not> isProcessing (batch_run by_user sample_batch_trace new_batcher)" by code_simp
  moreover have "\<not> batchTimer (batch_run by_user sample_batch_trace new_batcher)" by code_simp
  ultimately have "mset (concat (started (batch_run by_user sample_batch_trace new_batcher))) = mset (arrived sample_batch_trace)"
    by (intro mp [OF conjunct2 [OF messages_answered_once]] conjI)
  moreover have "map (map qm_messageId) (started (batch_run by_user sample_batch_trace new_batcher)) = [[''m1''], [''m2'', ''m3'']]"
    by code_simp
  ultimately show ?thesis by blast
qed

text \<open>
  A failing run: what has arrived while it ran waits in the queue with no window open, until some later
  message opens one; and the groups of its batch that were still to come are gone. After \<^verbatim>\<open>stop\<close> the
  end of a batch opens a window all the same.
\<close>

lemma failed_run_strands_messages:
  "(let b = batch_run by_user [Arrives (sample_queued 1 ''m1'' ''u''), Arrives (sample_queued 2 ''m2'' ''u''), Run_fails] new_batcher
    in map qm_messageId (messageQueue b) = [''m2''] \<and> \<not> isProcessing b \<and> \<not> batchTimer b)"
  by code_simp

lemma failed_run_drops_later_groups:
  "(let b = batch_run by_user [Arrives (sample_queued 1 ''m1'' ''u''), Arrives (sample_queued 2 ''m2'' ''u''),
       Arrives (sample_queued 3 ''m3'' ''v''), Run_succeeds, Window_ends, Run_fails] new_batcher
    in map qm_messageId (dropped b) = [''m3''] \<and> messageQueue b = [] \<and> \<not> isProcessing b)"
  by code_simp

lemma stop_does_not_stop_a_running_batch:
  "(let b = batch_run by_user [Arrives (sample_queued 1 ''m1'' ''u''), Arrives (sample_queued 2 ''m2'' ''u''), Stop, Run_succeeds] new_batcher
    in batchTimer b \<and> map qm_messageId (messageQueue b) = [''m2''])"
  by code_simp

section \<open>Who is answered together\<close>

lemma present_member:
  assumes "distinct (map fst ms)"
  shows "field (Some (present_members ms)) k = Option.bind (map_of ms k) (\<lambda>v. v)"
  using assms
proof (induction ms)
  case (Cons m ms)
  obtain j v where m: "m = (j, v)" by (cases m) simp
  have "map_of ms j = None" using Cons.prems m by (simp add: map_of_eq_None_iff)
  with Cons m show ?case by (cases v) (auto simp: present_members_def List.map_filter_def)
qed (simp add: present_members_def List.map_filter_def)

definition wf_opt :: "jvalue option \<Rightarrow> bool" where
  "wf_opt v = (case v of None \<Rightarrow> True | Some x \<Rightarrow> wf_value x)"

lemma wf_opt_simps [simp]:
  "wf_opt (Some (JStr s))" "wf_opt (map_option JStr a)" "wf_opt (if c then Some (JStr s) else None)"
  by (simp_all add: wf_opt_def split: option.splits)

lemma present_wf:
  assumes "distinct (map fst ms)" "list_all (\<lambda>(k, v). wf_opt v) ms"
  shows "wf_value (present_members ms)"
proof -
  have "distinct (map fst (List.map_filter (\<lambda>(k, v). map_option (\<lambda>x. (k, x)) v) ms))
      \<and> set (map fst (List.map_filter (\<lambda>(k, v). map_option (\<lambda>x. (k, x)) v) ms)) \<subseteq> set (map fst ms)
      \<and> list_all (\<lambda>(k, v). wf_value v) (List.map_filter (\<lambda>(k, v). map_option (\<lambda>x. (k, x)) v) ms)"
    using assms
  proof (induction ms)
    case (Cons m ms)
    obtain j v where m: "m = (j, v)" by (cases m) simp
    with Cons show ?case by (cases v) (auto simp: List.map_filter_simps wf_opt_def)
  qed (simp add: List.map_filter_simps)
  then show ?thesis by (simp add: present_members_def)
qed

lemma canonical_same:
  assumes "num_ok shownum" "inj collate" "wf_value a" "wf_value b"
    and "canonical_value collate shownum a = canonical_value collate shownum b"
  shows "same_value a b"
proof -
  have "sorted_value collate a = sorted_value collate b"
    using assms(5) printed_cuts [OF assms(1), of "sorted_value collate a"]
    unfolding cuts_def canonical_printed by (metis append_Nil2 delimited.simps(1))
  with sorted_same [OF assms(2-4)] show ?thesis by simp
qed

lemma same_value_members:
  "same_value (present_members ms) (present_members ns) \<Longrightarrow>
     rel_option same_value (field (Some (present_members ms)) k) (field (Some (present_members ns)) k)"
  unfolding present_members_def by (erule same_value_cases) simp

lemma same_value_str: "same_value (JStr s) (JStr t) \<longleftrightarrow> s = t"
  by (auto intro: same_str elim: same_value_cases)

lemma same_value_opt_str: "rel_option same_value (map_option JStr a) (map_option JStr b) \<longleftrightarrow> a = b"
  by (cases a; cases b) (simp_all add: same_value_str)

text \<open>The messages as they come from JSON: no object has a member twice.\<close>

definition wf_message :: "queued_message \<Rightarrow> bool" where
  "wf_message m \<longleftrightarrow> wf_value (qm_metadata m)
     \<and> list_all wf_opt
         [qm_resolvedCourseContext m, qm_trustedExecutionScope m, qm_scheduledCourseContext m]"

definition same_session :: "queued_message \<Rightarrow> queued_message \<Rightarrow> bool" where
  "same_session m n \<longleftrightarrow>
     qm_userId m = qm_userId n \<and> qm_agentId m = qm_agentId n \<and> qm_organizationId m = qm_organizationId n
     \<and> qm_conversationId m = qm_conversationId n \<and> qm_channelId m = qm_channelId n \<and> qm_teamId m = qm_teamId n
     \<and> qm_botId m = qm_botId n \<and> qm_platform m = qm_platform n
     \<and> rel_option same_value (metadata m ''connectionId'') (metadata n ''connectionId'')
     \<and> rel_option same_value (metadata m ''responseThreadId'') (metadata n ''responseThreadId'')
     \<and> rel_option same_value (qm_resolvedCourseContext m) (qm_resolvedCourseContext n)
     \<and> rel_option same_value (qm_trustedExecutionScope m) (qm_trustedExecutionScope n)
     \<and> rel_option same_value (qm_scheduledCourseContext m) (qm_scheduledCourseContext n)"

lemma metadata_wf: "wf_message m \<Longrightarrow> wf_opt (metadata m k)"
  by (cases "qm_metadata m") (auto simp: wf_message_def metadata_def list_all_iff wf_opt_def split: option.splits dest!: map_of_SomeD)

lemma identity_wf:
  assumes "wf_message m"
  shows "wf_value (message_identity text_of m)"
  unfolding message_identity_def
  by (rule present_wf, simp) (use assms metadata_wf [OF assms] in \<open>simp add: wf_message_def\<close>)

lemma identity_members:
  "field (Some (message_identity text_of x)) ''userId'' = Some (JStr (qm_userId x))"
  "field (Some (message_identity text_of x)) ''agentId'' = Some (JStr (qm_agentId x))"
  "field (Some (message_identity text_of x)) ''organizationId'' = map_option JStr (qm_organizationId x)"
  "field (Some (message_identity text_of x)) ''conversationId'' = Some (JStr (qm_conversationId x))"
  "field (Some (message_identity text_of x)) ''channelId'' = Some (JStr (qm_channelId x))"
  "field (Some (message_identity text_of x)) ''teamId'' = map_option JStr (qm_teamId x)"
  "field (Some (message_identity text_of x)) ''botId'' = Some (JStr (qm_botId x))"
  "field (Some (message_identity text_of x)) ''platform'' = Some (JStr (qm_platform x))"
  "field (Some (message_identity text_of x)) ''connectionId'' = metadata x ''connectionId''"
  "field (Some (message_identity text_of x)) ''responseThreadId'' = metadata x ''responseThreadId''"
  "field (Some (message_identity text_of x)) ''resolvedCourseContext'' = qm_resolvedCourseContext x"
  "field (Some (message_identity text_of x)) ''trustedExecutionScope'' = qm_trustedExecutionScope x"
  "field (Some (message_identity text_of x)) ''scheduledCourseContext'' = qm_scheduledCourseContext x"
  unfolding message_identity_def by (subst present_member; simp)+

lemma compatible_same_session:
  assumes "num_ok shownum" "inj collate" "wf_message m" "wf_message n"
    and "canonical_value collate shownum (message_identity text_of m) = canonical_value collate shownum (message_identity text_of n)"
  shows "same_session m n"
proof -
  have "same_value (message_identity text_of m) (message_identity text_of n)"
    using assms by (intro canonical_same identity_wf) auto
  then have member: "rel_option same_value (field (Some (message_identity text_of m)) k)
      (field (Some (message_identity text_of n)) k)" for k
    unfolding message_identity_def by (rule same_value_members)
  show ?thesis
    unfolding same_session_def
    using member [of "''userId''"] member [of "''agentId''"] member [of "''organizationId''"]
      member [of "''conversationId''"] member [of "''channelId''"] member [of "''teamId''"]
      member [of "''botId''"] member [of "''platform''"] member [of "''connectionId''"]
      member [of "''responseThreadId''"] member [of "''resolvedCourseContext''"]
      member [of "''trustedExecutionScope''"] member [of "''scheduledCourseContext''"]
    by (simp add: identity_members same_value_str same_value_opt_str)
qed

lemma started_arrived:
  assumes "g \<in> set (started (batch_run compatible es new_batcher))" "m \<in> set g"
  shows "m \<in> set (arrived es)"
proof -
  have "m \<in># accounted (batch_run compatible es new_batcher)" using assms by (auto simp: accounted_def)
  then show ?thesis using batch_run_inv [of compatible es] by simp
qed

text \<open>
  C7: Messages are put into one prompt only if they belong to one session: every message of a group given to the
  agent has the user, agent, organisation, conversation, channel, team, bot and platform of
  the first one, and the same connection, thread and execution contexts; and in a group of two or more none
  carries an automation to modify.
\<close>

theorem only_one_session_answered_together:
  assumes "num_ok shownum" "inj collate" "list_all wf_message (arrived es)"
    and "g \<in> set (started (batch_run (areBatchCompatible collate shownum text_of) es new_batcher))"
  shows "g \<noteq> [] \<and> list_all (same_session (hd g)) g
    \<and> (length g = 1 \<or> list_all (\<lambda>m. \<not> truthy_value (metadata m ''automationModificationContext'')) g)"
proof -
  let ?compatible = "areBatchCompatible collate shownum text_of"
  have good: "g \<noteq> []" "list_all (?compatible (hd g)) (tl g)"
    using batch_run_inv [of ?compatible es] assms(4) by (auto simp: batcher_inv_def list_all_iff good_group_def)
  have wf: "wf_message m" if "m \<in> set g" for m
    using started_arrived [OF assms(4) that] assms(3) by (simp add: list_all_iff)
  obtain m ms where g: "g = m # ms" using good(1) by (cases g) auto
  have "same_session m n" if "n \<in> set g" for n
  proof (rule compatible_same_session [OF assms(1,2)])
    show "wf_message m" "wf_message n" using wf g that by simp_all
    show "canonical_value collate shownum (message_identity text_of m)
        = canonical_value collate shownum (message_identity text_of n)"
      using good(2) g that by (auto simp: list_all_iff areBatchCompatible_def)
  qed
  moreover have "length g = 1 \<or> list_all (\<lambda>m. \<not> truthy_value (metadata m ''automationModificationContext'')) g"
    using good(2) g by (cases ms) (auto simp: list_all_iff areBatchCompatible_def)
  ultimately show ?thesis using g by (simp add: list_all_iff)
qed

text \<open>Two messages that arrive while a first one is answered are answered together.\<close>

lemma sample_compatible:
  "areBatchCompatible collate shownum text_of (sample_queued s i u) (sample_queued t j u)"
proof -
  have "message_identity text_of (sample_queued s i u) = message_identity text_of (sample_queued t j u)"
    by (simp add: message_identity_def sample_queued_def metadata_def effective_team_def text_or_def)
  then show ?thesis by (simp add: areBatchCompatible_def sample_queued_def metadata_def)
qed

lemma sample_wf: "wf_message (sample_queued s i u)"
  by (simp add: wf_message_def sample_queued_def wf_opt_def)

lemma only_one_session_answered_together_witness:
  "list_all (same_session (sample_queued 2 ''m2'' ''u'')) [sample_queued 2 ''m2'' ''u'', sample_queued 3 ''m3'' ''u'']"
proof -
  let ?g = "[sample_queued 2 ''m2'' ''u'', sample_queued 3 ''m3'' ''u'']"
  let ?compatible = "areBatchCompatible (\<lambda>k. k) unary_number (\<lambda>v. [])"
  have stamp: "qm_timestamp (sample_queued s i u) = s" for s i u by (simp add: sample_queued_def)
  have "?g \<in> set (started (batch_run ?compatible sample_batch_trace new_batcher))"
    by (simp add: batch_run_def sample_batch_trace_def new_batcher_def addMessage_def processBatch_def run_succeeds_def
        message_groups_def add_to_groups_def Let_def sample_compatible stamp)
  moreover have "list_all wf_message (arrived sample_batch_trace)" by (simp add: sample_batch_trace_def sample_wf)
  moreover have "inj (\<lambda>k :: string. k)" by simp
  ultimately have "list_all (same_session (hd ?g)) ?g"
    using only_one_session_answered_together [OF unary_ok] by blast
  then show ?thesis by (simp only: list.sel)
qed

end
