(* ===== verification/State_Adapter.thy ===== *)
theory State_Adapter
  imports Worker_Token
begin

text \<open>
  The state of the chat adapters in the database: \<^verbatim>\<open>server/src/gateway/connections/state-adapter.ts\<close>.
  A table with a primary key is an association list from the key (prefix and name), the tables of
  lists and queues are their rows in the order of insertion, with the number the sequence gave
  them. The values are JSON texts in the tables and come back as they went in; \<open>'v\<close>, \<open>'e\<close> and
  \<open>'q\<close> are the values of the cache, of the lists and of the queues. \<open>now\<close> is \<^verbatim>\<open>now()\<close> of the
  database and \<open>local\<close> is \<^verbatim>\<open>Date.now()\<close> of the process; a method is a function of the prefix, run by
  \<open>ensureConnected\<close>.
\<close>

section \<open>Tables\<close>

record lock_row =
  lk_token :: string
  lk_expires :: ms

record 'v cache_row =
  ca_value :: 'v
  ca_expires :: "ms option"

record 'e list_row =
  li_prefix :: string
  li_key :: string
  li_seq :: nat
  li_value :: 'e
  li_expires :: "ms option"

record 'q queue_row =
  qu_prefix :: string
  qu_thread :: string
  qu_seq :: nat
  qu_value :: 'q
  qu_expires :: ms

record ('v, 'e, 'q) state_db =
  sd_subscriptions :: "(string \<times> string) list"
  sd_locks :: "(string \<times> string, lock_row) jmap"
  sd_cache :: "(string \<times> string, 'v cache_row) jmap"
  sd_lists :: "'e list_row list"
  sd_queues :: "'q queue_row list"
  sd_list_seq :: nat
  sd_queue_seq :: nat

record adapter =
  keyPrefix :: string
  adapter_connected :: bool

definition new_adapter :: "string option \<Rightarrow> adapter" where
  "new_adapter pre = \<lparr> keyPrefix = (case pre of Some p \<Rightarrow> p | None \<Rightarrow> ''chat-sdk''), adapter_connected = False \<rparr>"

text \<open>\<open>answers\<close>: the database answers \<^verbatim>\<open>SELECT 1\<close>.\<close>

definition connect_adapter :: "bool \<Rightarrow> adapter \<Rightarrow> string + adapter" where
  "connect_adapter answers a =
     (if adapter_connected a then Inr a
      else if answers then Inr (a \<lparr> adapter_connected := True \<rparr>)
      else Inl ''connect failed'')"

definition disconnect_adapter :: "adapter \<Rightarrow> adapter" where
  "disconnect_adapter a = a \<lparr> adapter_connected := False \<rparr>"

definition ensureConnected :: "adapter \<Rightarrow> (string \<Rightarrow> 'a) \<Rightarrow> string + 'a" where
  "ensureConnected a method =
     (if adapter_connected a then Inr (method (keyPrefix a))
      else Inl ''LobuStateAdapter is not connected. Call connect() first.'')"

section \<open>Subscriptions and locks\<close>

definition subscribe :: "string \<Rightarrow> string \<Rightarrow> ('v, 'e, 'q) state_db \<Rightarrow> ('v, 'e, 'q) state_db" where
  "subscribe threadId p db =
     (if (p, threadId) \<in> set (sd_subscriptions db) then db
      else db \<lparr> sd_subscriptions := sd_subscriptions db @ [(p, threadId)] \<rparr>)"

definition unsubscribe :: "string \<Rightarrow> string \<Rightarrow> ('v, 'e, 'q) state_db \<Rightarrow> ('v, 'e, 'q) state_db" where
  "unsubscribe threadId p db = db \<lparr> sd_subscriptions := removeAll (p, threadId) (sd_subscriptions db) \<rparr>"

definition isSubscribed :: "string \<Rightarrow> string \<Rightarrow> ('v, 'e, 'q) state_db \<Rightarrow> bool" where
  "isSubscribed threadId p db \<longleftrightarrow> (p, threadId) \<in> set (sd_subscriptions db)"

record lock =
  lock_threadId :: string
  lock_token :: string
  lock_expiresAt :: ms

definition acquireLock ::
    "ms \<Rightarrow> ms \<Rightarrow> string \<Rightarrow> string \<Rightarrow> ms \<Rightarrow> string \<Rightarrow> ('v, 'e, 'q) state_db \<Rightarrow> lock option \<times> ('v, 'e, 'q) state_db" where
  "acquireLock local now uuid threadId ttlMs p db =
     (let token = ''pg_'' @ uuid; expiresAt = local + ttlMs;
          free = (case map_of (sd_locks db) (p, threadId) of None \<Rightarrow> True | Some row \<Rightarrow> lk_expires row \<le> now) in
      if free
      then (Some \<lparr> lock_threadId = threadId, lock_token = token, lock_expiresAt = expiresAt \<rparr>,
            db \<lparr> sd_locks := AList.update (p, threadId) \<lparr> lk_token = token, lk_expires = expiresAt \<rparr> (sd_locks db) \<rparr>)
      else (None, db))"

definition forceReleaseLock :: "string \<Rightarrow> string \<Rightarrow> ('v, 'e, 'q) state_db \<Rightarrow> ('v, 'e, 'q) state_db" where
  "forceReleaseLock threadId p db = db \<lparr> sd_locks := AList.delete (p, threadId) (sd_locks db) \<rparr>"

definition holds_lock :: "lock \<Rightarrow> string \<Rightarrow> ('v, 'e, 'q) state_db \<Rightarrow> bool" where
  "holds_lock lock p db \<longleftrightarrow>
     (case map_of (sd_locks db) (p, lock_threadId lock) of None \<Rightarrow> False | Some row \<Rightarrow> lk_token row = lock_token lock)"

definition releaseLock :: "lock \<Rightarrow> string \<Rightarrow> ('v, 'e, 'q) state_db \<Rightarrow> ('v, 'e, 'q) state_db" where
  "releaseLock lock p db =
     (if holds_lock lock p db then db \<lparr> sd_locks := AList.delete (p, lock_threadId lock) (sd_locks db) \<rparr> else db)"

definition extendLock ::
    "ms \<Rightarrow> lock \<Rightarrow> ms \<Rightarrow> string \<Rightarrow> ('v, 'e, 'q) state_db \<Rightarrow> bool \<times> ('v, 'e, 'q) state_db" where
  "extendLock now lock ttlMs p db =
     (case map_of (sd_locks db) (p, lock_threadId lock) of
        None \<Rightarrow> (False, db)
      | Some row \<Rightarrow>
          (if lk_token row = lock_token lock \<and> now < lk_expires row
           then (True, db \<lparr> sd_locks := AList.update (p, lock_threadId lock) (row \<lparr> lk_expires := now + ttlMs \<rparr>) (sd_locks db) \<rparr>)
           else (False, db)))"

section \<open>Cache\<close>

text \<open>\<^verbatim>\<open>expires_at IS NULL OR expires_at > now()\<close>; and \<^verbatim>\<open>ttlMs ? new Date(Date.now() + ttlMs) : null\<close>.\<close>

definition not_expired :: "ms \<Rightarrow> ms option \<Rightarrow> bool" where
  "not_expired now expires \<longleftrightarrow> (case expires of None \<Rightarrow> True | Some e \<Rightarrow> now < e)"

definition expiry :: "ms \<Rightarrow> ms option \<Rightarrow> ms option" where
  "expiry local ttlMs = (case ttlMs of None \<Rightarrow> None | Some ttl \<Rightarrow> if ttl = 0 then None else Some (local + ttl))"

definition get_key :: "ms \<Rightarrow> string \<Rightarrow> string \<Rightarrow> ('v, 'e, 'q) state_db \<Rightarrow> 'v option \<times> ('v, 'e, 'q) state_db" where
  "get_key now key p db =
     (case map_of (sd_cache db) (p, key) of
        None \<Rightarrow> (None, db)
      | Some row \<Rightarrow>
          (if not_expired now (ca_expires row) then (Some (ca_value row), db)
           else (None, db \<lparr> sd_cache := AList.delete (p, key) (sd_cache db) \<rparr>)))"

definition set_key ::
    "ms \<Rightarrow> string \<Rightarrow> 'v \<Rightarrow> ms option \<Rightarrow> string \<Rightarrow> ('v, 'e, 'q) state_db \<Rightarrow> ('v, 'e, 'q) state_db" where
  "set_key local key value ttlMs p db =
     db \<lparr> sd_cache := AList.update (p, key) \<lparr> ca_value = value, ca_expires = expiry local ttlMs \<rparr> (sd_cache db) \<rparr>"

definition setIfNotExists ::
    "ms \<Rightarrow> string \<Rightarrow> 'v \<Rightarrow> ms option \<Rightarrow> string \<Rightarrow> ('v, 'e, 'q) state_db \<Rightarrow> bool \<times> ('v, 'e, 'q) state_db" where
  "setIfNotExists local key value ttlMs p db =
     (if map_of (sd_cache db) (p, key) = None then (True, set_key local key value ttlMs p db) else (False, db))"

definition delete_key :: "string \<Rightarrow> string \<Rightarrow> ('v, 'e, 'q) state_db \<Rightarrow> ('v, 'e, 'q) state_db" where
  "delete_key key p db = db \<lparr> sd_cache := AList.delete (p, key) (sd_cache db) \<rparr>"

section \<open>Lists\<close>

definition in_list :: "string \<Rightarrow> string \<Rightarrow> 'e list_row \<Rightarrow> bool" where
  "in_list p key row \<longleftrightarrow> li_prefix row = p \<and> li_key row = key"

text \<open>The rows of a list that \<^verbatim>\<open>maxLength\<close> leaves over, and the three statements of \<^verbatim>\<open>appendToList\<close>.\<close>

definition trim_list :: "string \<Rightarrow> string \<Rightarrow> nat \<Rightarrow> 'e list_row list \<Rightarrow> 'e list_row list" where
  "trim_list p key maxLength rows =
     (let mine = sort_key li_seq (filter (in_list p key) rows);
          oldest = map li_seq (take (length mine - maxLength) mine) in
      filter (\<lambda>r. \<not> (in_list p key r \<and> li_seq r \<in> set oldest)) rows)"

definition appendToList ::
    "ms \<Rightarrow> string \<Rightarrow> 'e \<Rightarrow> nat option \<Rightarrow> ms option \<Rightarrow> string \<Rightarrow> ('v, 'e, 'q) state_db \<Rightarrow> ('v, 'e, 'q) state_db" where
  "appendToList local key value maxLength ttlMs p db =
     (let expiresAt = expiry local ttlMs;
          row = \<lparr> li_prefix = p, li_key = key, li_seq = sd_list_seq db, li_value = value, li_expires = expiresAt \<rparr>;
          rows = sd_lists db @ [row];
          rows = (case maxLength of None \<Rightarrow> rows | Some n \<Rightarrow> if n = 0 then rows else trim_list p key n rows);
          rows = (if expiresAt = None then rows
             else map (\<lambda>r. if in_list p key r then r \<lparr> li_expires := expiresAt \<rparr> else r) rows) in
      db \<lparr> sd_lists := rows, sd_list_seq := sd_list_seq db + 1 \<rparr>)"

definition getList :: "ms \<Rightarrow> string \<Rightarrow> string \<Rightarrow> ('v, 'e, 'q) state_db \<Rightarrow> 'e list" where
  "getList now key p db =
     map li_value (sort_key li_seq (filter (\<lambda>r. in_list p key r \<and> not_expired now (li_expires r)) (sd_lists db)))"

section \<open>Queues\<close>

definition in_queue :: "string \<Rightarrow> string \<Rightarrow> 'q queue_row \<Rightarrow> bool" where
  "in_queue p threadId row \<longleftrightarrow> qu_prefix row = p \<and> qu_thread row = threadId"

definition drop_expired :: "ms \<Rightarrow> string \<Rightarrow> string \<Rightarrow> 'q queue_row list \<Rightarrow> 'q queue_row list" where
  "drop_expired now p threadId rows = filter (\<lambda>r. \<not> (in_queue p threadId r \<and> qu_expires r \<le> now)) rows"

definition live_queue :: "ms \<Rightarrow> string \<Rightarrow> string \<Rightarrow> 'q queue_row list \<Rightarrow> 'q queue_row list" where
  "live_queue now p threadId rows = sort_key qu_seq (filter (\<lambda>r. in_queue p threadId r \<and> now < qu_expires r) rows)"

definition queueDepth :: "ms \<Rightarrow> string \<Rightarrow> string \<Rightarrow> ('v, 'e, 'q) state_db \<Rightarrow> nat" where
  "queueDepth now threadId p db = length (live_queue now p threadId (sd_queues db))"

definition enqueue ::
    "ms \<Rightarrow> string \<Rightarrow> 'q \<Rightarrow> ms \<Rightarrow> int \<Rightarrow> string \<Rightarrow> ('v, 'e, 'q) state_db \<Rightarrow> nat \<times> ('v, 'e, 'q) state_db" where
  "enqueue now threadId entry expiresAt maxSize p db =
     (let rows = drop_expired now p threadId (sd_queues db);
          row = \<lparr> qu_prefix = p, qu_thread = threadId, qu_seq = sd_queue_seq db, qu_value = entry, qu_expires = expiresAt \<rparr>;
          rows = rows @ [row];
          live = live_queue now p threadId rows;
          excess = map qu_seq (take (length live - nat maxSize) live);
          rows = (if 0 < maxSize then filter (\<lambda>r. \<not> (in_queue p threadId r \<and> qu_seq r \<in> set excess)) rows else rows);
          db' = db \<lparr> sd_queues := rows, sd_queue_seq := sd_queue_seq db + 1 \<rparr> in
      (queueDepth now threadId p db', db'))"

definition dequeue :: "ms \<Rightarrow> string \<Rightarrow> string \<Rightarrow> ('v, 'e, 'q) state_db \<Rightarrow> 'q option \<times> ('v, 'e, 'q) state_db" where
  "dequeue now threadId p db =
     (let rows = drop_expired now p threadId (sd_queues db) in
      case live_queue now p threadId rows of
        [] \<Rightarrow> (None, db \<lparr> sd_queues := rows \<rparr>)
      | row # _ \<Rightarrow>
          (Some (qu_value row),
           db \<lparr> sd_queues := filter (\<lambda>r. \<not> (in_queue p threadId r \<and> qu_seq r = qu_seq row)) rows \<rparr>))"

section \<open>The cache is a map with expiry\<close>

text \<open>What a client of a cache relies on; \<open>live\<close> tells whether a read still finds a value that was put at a local time.\<close>

locale expiring_cache =
  fixes look :: "ms \<Rightarrow> 'k \<Rightarrow> 'd \<Rightarrow> 'v option"
    and put :: "ms \<Rightarrow> 'k \<Rightarrow> 'v \<Rightarrow> ms option \<Rightarrow> 'd \<Rightarrow> 'd"
    and del :: "'k \<Rightarrow> 'd \<Rightarrow> 'd"
    and clean :: "ms \<Rightarrow> 'k \<Rightarrow> 'd \<Rightarrow> 'd"
    and live :: "ms \<Rightarrow> ms \<Rightarrow> ms option \<Rightarrow> bool"
  assumes look_put: "look now k (put local k' v ttl d)
      = (if k = k' then (if live now local ttl then Some v else None) else look now k d)"
    and look_del: "look now k (del k' d) = (if k = k' then None else look now k d)"
    and look_clean: "before \<le> now \<Longrightarrow> look now k (clean before k' d) = look now k d"
begin

text \<open>What was put is read until it expires, whatever else is read (and cleaned up) before.\<close>

lemma reads_unseen: "list_all (\<lambda>(t, k'). t \<le> now) reads \<Longrightarrow> look now k (fold (\<lambda>(t, k'). clean t k') reads d) = look now k d"
  by (induction reads arbitrary: d) (auto simp: look_clean)

lemma read_back:
  "live now local ttl \<Longrightarrow> list_all (\<lambda>(t, k'). t \<le> now) reads \<Longrightarrow>
     look now k (fold (\<lambda>(t, k'). clean t k') reads (put local k v ttl d)) = Some v"
  by (simp add: reads_unseen look_put)

end

definition look_key :: "ms \<Rightarrow> string \<times> string \<Rightarrow> ('v, 'e, 'q) state_db \<Rightarrow> 'v option" where
  "look_key now pk db = fst (get_key now (snd pk) (fst pk) db)"

lemma look_key_map_of:
  "look_key now pk db = (case map_of (sd_cache db) pk of None \<Rightarrow> None
     | Some row \<Rightarrow> if not_expired now (ca_expires row) then Some (ca_value row) else None)"
  by (simp add: look_key_def get_key_def split: option.split)

lemma not_expired_mono: "not_expired now e \<Longrightarrow> before \<le> now \<Longrightarrow> not_expired before e"
  by (auto simp: not_expired_def split: option.splits)

interpretation state_cache: expiring_cache look_key
  "\<lambda>local pk v ttl. set_key local (snd pk) v ttl (fst pk)" "\<lambda>pk. delete_key (snd pk) (fst pk)"
  "\<lambda>now pk db. snd (get_key now (snd pk) (fst pk) db)" "\<lambda>now local ttl. not_expired now (expiry local ttl)"
proof unfold_locales
  fix now before :: ms and k k' :: "string \<times> string" and d :: "('a, 'b, 'c) state_db"
  assume "before \<le> now"
  then show "look_key now k (snd (get_key before (snd k') (fst k') d)) = look_key now k d"
    by (auto simp: look_key_map_of get_key_def jm_get_del dest: not_expired_mono split: option.splits if_splits)
qed (auto simp: look_key_map_of set_key_def delete_key_def jm_get_set jm_get_del)

section \<open>Rows by their sequence number\<close>

definition in_sequence :: "('r \<Rightarrow> nat) \<Rightarrow> nat \<Rightarrow> 'r list \<Rightarrow> bool" where
  "in_sequence seq next rows \<longleftrightarrow> sorted_wrt (<) (map seq rows) \<and> list_all (\<lambda>r. seq r < next) rows"

lemma in_sequence_filter: "in_sequence seq n rows \<Longrightarrow> in_sequence seq n (filter P rows)"
  by (auto simp: in_sequence_def sorted_wrt_map sorted_wrt_filter list_all_iff)

lemma in_sequence_snoc: "in_sequence seq n rows \<Longrightarrow> seq r = n \<Longrightarrow> in_sequence seq (Suc n) (rows @ [r])"
  by (auto simp: in_sequence_def sorted_wrt_append list_all_iff)

lemma in_sequence_sort: "in_sequence seq n rows \<Longrightarrow> sort_key seq (filter P rows) = filter P rows"
  using in_sequence_filter [of seq n rows P]
  by (intro sort_key_id_if_sorted) (auto simp: in_sequence_def strict_sorted_imp_sorted)

lemma in_sequence_distinct: "in_sequence seq n rows \<Longrightarrow> distinct (map seq rows)"
  by (auto simp: in_sequence_def strict_sorted_iff)

lemma filter_not_taken: "distinct xs \<Longrightarrow> filter (\<lambda>x. x \<notin> set (take k xs)) xs = drop k xs"
proof -
  assume d: "distinct xs"
  have "filter (\<lambda>x. x \<notin> set (take k xs)) (take k xs @ drop k xs) = drop k xs"
    using set_take_disj_set_drop_if_distinct [OF d order.refl, of k]
    by (subst filter_append) (auto simp: filter_empty_conv intro!: filter_True)
  then show ?thesis by simp
qed

text \<open>Deleting the first rows of a selection by their numbers.\<close>

lemma filter_delete_first:
  assumes "distinct (map seq rows)" "\<And>r. P r \<Longrightarrow> Q r"
  shows "filter P (filter (\<lambda>r. \<not> (Q r \<and> seq r \<in> set (map seq (take k (filter P rows))))) rows) = drop k (filter P rows)"
proof -
  let ?xs = "filter P rows"
  have inj: "inj_on seq (set rows)" and d: "distinct rows" using assms(1) by (simp_all add: distinct_map)
  have taken: "seq r \<in> set (map seq (take k ?xs)) \<longleftrightarrow> r \<in> set (take k ?xs)" if "r \<in> set rows" for r
  proof -
    have "set (take k ?xs) \<subseteq> set rows" by (meson filter_is_subset order_trans set_take_subset)
    then show ?thesis using inj that by (auto simp: inj_on_def)
  qed
  have "filter P (filter (\<lambda>r. \<not> (Q r \<and> seq r \<in> set (map seq (take k ?xs)))) rows)
      = filter (\<lambda>r. r \<notin> set (take k ?xs)) ?xs"
    using assms(2) taken by (auto simp: intro!: filter_cong)
  also have "\<dots> = drop k ?xs" using d by (intro filter_not_taken) simp
  finally show ?thesis .
qed

lemma filter_delete_other:
  assumes "\<And>r. P r \<Longrightarrow> \<not> Q r"
  shows "filter P (filter (\<lambda>r. \<not> (Q r \<and> R r)) rows) = filter P rows"
  using assms by (induction rows) auto

section \<open>The queues are bounded first-in-first-out queues\<close>

text \<open>
  The abstract queue of a thread: its entries with the time they expire, oldest first. Expired entries are
  as good as absent; one that comes too late is kept but never seen.
\<close>

definition fifo_enqueue :: "ms \<Rightarrow> 'q \<Rightarrow> ms \<Rightarrow> int \<Rightarrow> ('q \<times> ms) list \<Rightarrow> nat \<times> ('q \<times> ms) list" where
  "fifo_enqueue now entry expiresAt maxSize q =
     (let live = filter (\<lambda>(x, e). now < e) (q @ [(entry, expiresAt)]);
          kept = (if 0 < maxSize then drop (length live - nat maxSize) live else live) in
      (length kept, kept))"

definition fifo_dequeue :: "ms \<Rightarrow> ('q \<times> ms) list \<Rightarrow> 'q option \<times> ('q \<times> ms) list" where
  "fifo_dequeue now q =
     (case filter (\<lambda>(x, e). now < e) q of [] \<Rightarrow> (None, []) | (x, e) # live \<Rightarrow> (Some x, live))"

datatype 'q queue_op = Enq string string 'q ms int | Deq string string

text \<open>A run of operations at their times, on the tables and on the abstract queues.\<close>

fun queue_op_step :: "ms \<Rightarrow> 'q queue_op \<Rightarrow> ('v, 'e, 'q) state_db \<Rightarrow> (nat + 'q option) \<times> ('v, 'e, 'q) state_db" where
  "queue_op_step now (Enq p t x e m) db = (let (n, db') = enqueue now t x e m p db in (Inl n, db'))"
| "queue_op_step now (Deq p t) db = (let (x, db') = dequeue now t p db in (Inr x, db'))"

fun fifo_op_step ::
    "ms \<Rightarrow> 'q queue_op \<Rightarrow> (string \<times> string \<Rightarrow> ('q \<times> ms) list) \<Rightarrow> (nat + 'q option) \<times> (string \<times> string \<Rightarrow> ('q \<times> ms) list)" where
  "fifo_op_step now (Enq p t x e m) qs = (let (n, q) = fifo_enqueue now x e m (qs (p, t)) in (Inl n, qs((p, t) := q)))"
| "fifo_op_step now (Deq p t) qs = (let (x, q) = fifo_dequeue now (qs (p, t)) in (Inr x, qs((p, t) := q)))"

fun op_answers :: "(ms \<Rightarrow> 'o \<Rightarrow> 's \<Rightarrow> 'r \<times> 's) \<Rightarrow> (ms \<times> 'o) list \<Rightarrow> 's \<Rightarrow> 'r list" where
  "op_answers step [] s = []"
| "op_answers step ((now, c) # cs) s = fst (step now c s) # op_answers step cs (snd (step now c s))"

definition empty_db :: "('v, 'e, 'q) state_db" where
  "empty_db = \<lparr> sd_subscriptions = [], sd_locks = [], sd_cache = [], sd_lists = [], sd_queues = [], sd_list_seq = 1, sd_queue_seq = 1 \<rparr>"

text \<open>
  The tables represent the abstract queues at a time if they agree on what is not expired then (and hence
  at any later time).
\<close>

definition entries :: "ms \<Rightarrow> string \<Rightarrow> string \<Rightarrow> 'q queue_row list \<Rightarrow> ('q \<times> ms) list" where
  "entries now p t rows = map (\<lambda>r. (qu_value r, qu_expires r)) (filter (\<lambda>r. in_queue p t r \<and> now < qu_expires r) rows)"

definition represents :: "ms \<Rightarrow> ('v, 'e, 'q) state_db \<Rightarrow> (string \<times> string \<Rightarrow> ('q \<times> ms) list) \<Rightarrow> bool" where
  "represents now db qs \<longleftrightarrow> in_sequence qu_seq (sd_queue_seq db) (sd_queues db)
     \<and> (\<forall>p t. entries now p t (sd_queues db) = filter (\<lambda>(x, e). now < e) (qs (p, t)))"

lemma entries_later: "before \<le> now \<Longrightarrow> entries now p t rows = filter (\<lambda>(x, e). now < e) (entries before p t rows)"
  by (auto simp: entries_def filter_map intro!: arg_cong [of _ _ "map _"] filter_cong)

lemma represents_later: "represents before db qs \<Longrightarrow> before \<le> now \<Longrightarrow> represents now db qs"
  by (auto simp: represents_def entries_later intro!: filter_cong)

lemma live_queue_entries:
  "in_sequence qu_seq n rows \<Longrightarrow> live_queue now p t rows = filter (\<lambda>r. in_queue p t r \<and> now < qu_expires r) rows"
  unfolding live_queue_def by (rule in_sequence_sort)

lemma entries_drop_expired [simp]: "entries now p t (drop_expired now p' t' rows) = entries now p t rows"
  by (auto simp: entries_def drop_expired_def intro!: arg_cong [of _ _ "map _"] filter_cong)

lemma entries_snoc:
  "entries now p t (rows @ [r]) = entries now p t rows @ (if in_queue p t r \<and> now < qu_expires r then [(qu_value r, qu_expires r)] else [])"
  by (simp add: entries_def)

text \<open>Deleting the oldest of the live rows of one queue.\<close>

lemma entries_delete_first:
  assumes "in_sequence qu_seq n rows"
  shows "entries now p t (filter (\<lambda>r. \<not> (in_queue p' t' r \<and> qu_seq r \<in> set (map qu_seq (take k (live_queue now p' t' rows))))) rows)
    = (if p = p' \<and> t = t' then drop k (entries now p t rows) else entries now p t rows)"
proof (cases "p = p' \<and> t = t'")
  case True
  have "filter (\<lambda>r. in_queue p t r \<and> now < qu_expires r)
      (filter (\<lambda>r. \<not> (in_queue p t r \<and> qu_seq r \<in> set (map qu_seq (take k (filter (\<lambda>r. in_queue p t r \<and> now < qu_expires r) rows))))) rows)
    = drop k (filter (\<lambda>r. in_queue p t r \<and> now < qu_expires r) rows)"
    by (rule filter_delete_first [OF in_sequence_distinct [OF assms]]) simp
  with True show ?thesis unfolding entries_def live_queue_entries [OF assms] by (simp only: drop_map simp_thms if_True)
next
  case False
  then have "\<not> in_queue p' t' r" if "in_queue p t r" for r :: "'a queue_row" using that by (auto simp: in_queue_def)
  then show ?thesis using False unfolding entries_def by (subst filter_delete_other) auto
qed

lemma queue_step_represents:
  assumes rep: "represents now db qs"
  shows "fst (queue_op_step now c db) = fst (fifo_op_step now c qs)
    \<and> represents now (snd (queue_op_step now c db)) (snd (fifo_op_step now c qs))"
proof (cases c)
  case (Enq p t x e m)
  let ?row = "\<lparr> qu_prefix = p, qu_thread = t, qu_seq = sd_queue_seq db, qu_value = x, qu_expires = e \<rparr>"
  define rows where "rows = drop_expired now p t (sd_queues db) @ [?row]"
  define k where "k = length (live_queue now p t rows) - nat m"
  define rows' where "rows' = (if 0 < m then filter (\<lambda>r. \<not> (in_queue p t r \<and> qu_seq r \<in> set (map qu_seq (take k (live_queue now p t rows))))) rows else rows)"
  let ?db = "db \<lparr> sd_queues := rows', sd_queue_seq := sd_queue_seq db + 1 \<rparr>"
  have seq: "in_sequence qu_seq (Suc (sd_queue_seq db)) rows"
    using rep unfolding rows_def represents_def drop_expired_def by (intro in_sequence_snoc in_sequence_filter) simp_all
  then have seq': "in_sequence qu_seq (Suc (sd_queue_seq db)) rows'" unfolding rows'_def by (simp only: in_sequence_filter [OF seq] split: if_split) simp
  have q: "entries now p' t' (sd_queues db) = filter (\<lambda>(x, e). now < e) (qs (p', t'))" for p' t'
    using rep by (simp add: represents_def)
  have all: "entries now p' t' rows = filter (\<lambda>(x, e). now < e) (if p' = p \<and> t' = t then qs (p, t) @ [(x, e)] else qs (p', t'))" for p' t'
    unfolding rows_def by (auto simp: entries_snoc q in_queue_def)
  have len: "length (live_queue now p t rows) = length (entries now p t rows)" by (simp add: live_queue_entries [OF seq] entries_def)
  have kept: "entries now p' t' rows' = (if p' = p \<and> t' = t then snd (fifo_enqueue now x e m (qs (p, t))) else filter (\<lambda>(x, e). now < e) (qs (p', t')))" for p' t'
  proof -
    have "entries now p' t' rows' = (if 0 < m \<and> p' = p \<and> t' = t then drop k (entries now p t rows) else entries now p' t' rows)"
      unfolding rows'_def by (cases "0 < m") (simp_all only: entries_delete_first [OF seq] if_True if_False simp_thms, simp)
    then show ?thesis unfolding k_def len all by (simp add: fifo_enqueue_def Let_def)
  qed
  have step: "queue_op_step now c db = (Inl (queueDepth now t p ?db), ?db)"
    by (simp add: Enq enqueue_def Let_def rows_def k_def rows'_def)
  have spec: "fifo_op_step now c qs = (Inl (fst (fifo_enqueue now x e m (qs (p, t)))), qs((p, t) := snd (fifo_enqueue now x e m (qs (p, t)))))"
    by (simp add: Enq Let_def split: prod.split)
  have "queueDepth now t p ?db = length (entries now p t rows')"
    unfolding queueDepth_def by (simp add: live_queue_entries [OF seq'] entries_def)
  also have "\<dots> = fst (fifo_enqueue now x e m (qs (p, t)))"
    unfolding kept by (simp add: fifo_enqueue_def Let_def)
  finally have "fst (queue_op_step now c db) = fst (fifo_op_step now c qs)"
    unfolding step spec by simp
  moreover have "filter (\<lambda>(x, e). now < e) (snd (fifo_enqueue now x e m q)) = snd (fifo_enqueue now x e m q)" for q
    by (auto simp: fifo_enqueue_def Let_def filter_id_conv dest: in_set_dropD)
  then have "represents now (snd (queue_op_step now c db)) (snd (fifo_op_step now c qs))"
    unfolding step spec using seq' kept by (simp add: represents_def)
  ultimately show ?thesis by blast
next
  case (Deq p t)
  define rows where "rows = drop_expired now p t (sd_queues db)"
  have seq: "in_sequence qu_seq (sd_queue_seq db) rows"
    using rep unfolding rows_def represents_def drop_expired_def by (intro in_sequence_filter) simp
  have q: "entries now p' t' rows = filter (\<lambda>(x, e). now < e) (qs (p', t'))" for p' t'
    using rep unfolding rows_def by (simp add: represents_def)
  have live: "map (\<lambda>r. (qu_value r, qu_expires r)) (live_queue now p t rows) = filter (\<lambda>(x, e). now < e) (qs (p, t))"
    using q [of p t] unfolding live_queue_entries [OF seq] entries_def .
  have step: "queue_op_step now c db = (case live_queue now p t rows of [] \<Rightarrow> (Inr None, db \<lparr> sd_queues := rows \<rparr>)
      | r # _ \<Rightarrow> (Inr (Some (qu_value r)), db \<lparr> sd_queues := filter (\<lambda>s. \<not> (in_queue p t s \<and> qu_seq s = qu_seq r)) rows \<rparr>))"
    by (simp add: Deq dequeue_def rows_def split: list.split)
  have spec: "fifo_op_step now c qs = (Inr (fst (fifo_dequeue now (qs (p, t)))), qs((p, t) := snd (fifo_dequeue now (qs (p, t)))))"
    by (simp add: Deq Let_def split: prod.split)
  show ?thesis
  proof (cases "live_queue now p t rows")
    case Nil
    then have "filter (\<lambda>(x, e). now < e) (qs (p, t)) = []" using live by simp
    then have "fifo_dequeue now (qs (p, t)) = (None, [])" by (simp add: fifo_dequeue_def)
    then show ?thesis using Nil seq q \<open>filter _ (qs (p, t)) = []\<close> unfolding step spec by (simp add: represents_def)
  next
    case (Cons r rs)
    define rows' where "rows' = filter (\<lambda>s. \<not> (in_queue p t s \<and> qu_seq s = qu_seq r)) rows"
    define rest_entries where "rest_entries = map (\<lambda>r. (qu_value r, qu_expires r)) rs"
    have deq: "fifo_dequeue now (qs (p, t)) = (Some (qu_value r), rest_entries)"
      using live Cons by (auto simp: fifo_dequeue_def rest_entries_def split: list.split)
    have "filter (\<lambda>(x, e). now < e) (qs (p, t)) = (qu_value r, qu_expires r) # rest_entries"
      using live Cons by (simp add: rest_entries_def)
    then have drop: "rest_entries = drop 1 (filter (\<lambda>(x, e). now < e) (qs (p, t)))" by simp
    have live_rest: "filter (\<lambda>(x, e). now < e) rest_entries = rest_entries"
      unfolding drop by (auto simp: filter_id_conv dest: in_set_dropD)
    have "take 1 (live_queue now p t rows) = [r]" using Cons by simp
    with entries_delete_first [OF seq, of now _ _ p t 1]
    have "entries now p' t' rows' = (if p' = p \<and> t' = t then drop 1 (entries now p' t' rows) else entries now p' t' rows)" for p' t'
      unfolding rows'_def by auto
    then have kept: "entries now p' t' rows' = (if p' = p \<and> t' = t then rest_entries else filter (\<lambda>(x, e). now < e) (qs (p', t')))" for p' t'
      by (simp add: q drop)
    have "in_sequence qu_seq (sd_queue_seq db) rows'" unfolding rows'_def by (rule in_sequence_filter [OF seq])
    with kept have "represents now (db \<lparr> sd_queues := rows' \<rparr>) (qs((p, t) := rest_entries))"
      by (simp add: represents_def live_rest)
    then show ?thesis unfolding step spec by (simp add: Cons deq rows'_def)
  qed
qed

text \<open>
  C12: The queues of the chat adapters, for all threads and adapters in the same tables, answer every sequence of
  operations as bounded first-in-first-out queues with expiry do: entries of a thread come
  out in their order, once, until they expire, and a full queue loses its oldest.
\<close>

theorem chat_queues_refine_fifo:
  assumes "sorted (map fst cs)"
  shows "op_answers queue_op_step cs empty_db = op_answers fifo_op_step cs (\<lambda>_. [])"
proof -
  have "op_answers queue_op_step cs db = op_answers fifo_op_step cs qs"
    if "represents before db qs" "sorted (map fst cs)" "\<forall>now \<in> fst ` set cs. before \<le> now" for before db and qs
    using that
  proof (induction cs arbitrary: before db qs)
    case (Cons e cs)
    obtain now c where e: "e = (now, c)" by (cases e) simp
    have "represents now db qs" using Cons.prems e by (auto intro: represents_later)
    note step = queue_step_represents [OF this, of c]
    have "op_answers queue_op_step cs (snd (queue_op_step now c db)) = op_answers fifo_op_step cs (snd (fifo_op_step now c qs))"
      using Cons.prems e step by (intro Cons.IH) auto
    with step e show ?case by simp
  qed simp
  moreover have "represents before empty_db (\<lambda>_. [])" for before
    by (simp add: represents_def empty_db_def entries_def in_sequence_def)
  moreover have "\<exists>before. \<forall>now \<in> fst ` set cs. before \<le> now"
    using assms by (cases cs) (auto intro: exI [of _ "fst (hd cs)"])
  ultimately show ?thesis using assms by blast
qed

definition sample_queue_ops :: "(ms \<times> string queue_op) list" where
  "sample_queue_ops = [(0, Enq ''a'' ''t'' ''1'' 5 2), (1, Enq ''a'' ''t'' ''2'' 50 2), (2, Enq ''b'' ''t'' ''x'' 50 0),
     (3, Enq ''a'' ''t'' ''3'' 50 2), (6, Deq ''a'' ''t''), (7, Deq ''b'' ''t''), (8, Deq ''b'' ''t'')]"

lemma chat_queues_refine_fifo_witness:
  "op_answers queue_op_step sample_queue_ops empty_db = [Inl 1, Inl 2, Inl 1, Inl 2, Inr (Some ''2''), Inr (Some ''x''), Inr None]"
proof -
  have "sorted (map fst sample_queue_ops)" by (simp add: sample_queue_ops_def)
  from chat_queues_refine_fifo [OF this]
  have "op_answers queue_op_step sample_queue_ops empty_db = op_answers fifo_op_step sample_queue_ops (\<lambda>_. [])" .
  moreover have "op_answers fifo_op_step sample_queue_ops (\<lambda>_. []) = [Inl 1, Inl 2, Inl 1, Inl 2, Inr (Some ''2''), Inr (Some ''x''), Inr None]"
    by (simp add: sample_queue_ops_def fifo_enqueue_def fifo_dequeue_def Let_def)
  ultimately show ?thesis by simp
qed

section \<open>The lists are sliding windows\<close>

definition newest :: "nat \<Rightarrow> 'a list \<Rightarrow> 'a list" where
  "newest n xs = drop (length xs - n) xs"

lemma newest_snoc: "0 < n \<Longrightarrow> newest n (newest n xs @ [x]) = newest n (xs @ [x])"
  by (cases "length xs < n") (auto simp: newest_def Suc_diff_le)

lemma map_newest: "map f (newest n xs) = newest n (map f xs)"
  by (simp add: newest_def drop_map)

lemma newest_Nil [simp]: "newest n [] = []"
  by (simp add: newest_def)

text \<open>
  A list holds the last values written to it, all with the expiry of the last write: a list that is
  written to again is alive again as a whole.
\<close>

definition window ::
    "string \<Rightarrow> string \<Rightarrow> 'e list \<Rightarrow> ms option \<Rightarrow> ('v, 'e, 'q) state_db \<Rightarrow> bool" where
  "window p key values expires db \<longleftrightarrow> in_sequence li_seq (sd_list_seq db) (sd_lists db)
     \<and> map li_value (filter (in_list p key) (sd_lists db)) = values
     \<and> list_all (\<lambda>r. in_list p key r \<longrightarrow> li_expires r = expires) (sd_lists db)"

lemma window_getList:
  assumes "window p key values expires db"
  shows "getList now key p db = (if not_expired now expires then values else [])"
proof -
  have "filter (\<lambda>r. in_list p key r \<and> not_expired now (li_expires r)) (sd_lists db)
      = (if not_expired now expires then filter (in_list p key) (sd_lists db) else [])"
    using assms by (auto simp: window_def list_all_iff filter_empty_conv intro!: filter_cong)
  moreover have "in_sequence li_seq (sd_list_seq db) (sd_lists db)" using assms by (simp add: window_def)
  ultimately show ?thesis using assms by (simp add: getList_def in_sequence_sort window_def)
qed

lemma trim_list_own:
  assumes "in_sequence li_seq n rows"
  shows "filter (in_list p key) (trim_list p' key' k rows)
    = (if p = p' \<and> key = key' then newest k (filter (in_list p key) rows) else filter (in_list p key) rows)"
proof (cases "p = p' \<and> key = key'")
  case True
  have "filter (in_list p key) (filter (\<lambda>r. \<not> (in_list p key r \<and> li_seq r \<in> set (map li_seq (take j (filter (in_list p key) rows))))) rows)
      = drop j (filter (in_list p key) rows)" for j
    by (rule filter_delete_first [OF in_sequence_distinct [OF assms]])
  with True show ?thesis
    by (simp only: trim_list_def Let_def in_sequence_sort [OF assms] newest_def simp_thms if_True)
next
  case False
  then have "\<not> in_list p' key' r" if "in_list p key r" for r :: "'a list_row" using that by (auto simp: in_list_def)
  then show ?thesis using False unfolding trim_list_def Let_def by (subst filter_delete_other) auto
qed

lemma trim_list_sequence: "in_sequence li_seq n rows \<Longrightarrow> in_sequence li_seq n (trim_list p key k rows)"
  unfolding trim_list_def Let_def by (rule in_sequence_filter)

lemma in_sequence_map: "in_sequence seq n rs \<longleftrightarrow> sorted_wrt (<) (map seq rs) \<and> list_all (\<lambda>s. s < n) (map seq rs)"
  by (simp add: in_sequence_def list.pred_map comp_def)

lemma touch_simps [simp]:
  "li_seq (if c then r \<lparr> li_expires := e \<rparr> else r) = li_seq r"
  "li_value (if c then r \<lparr> li_expires := e \<rparr> else r) = li_value r"
  "in_list p key (r \<lparr> li_expires := e \<rparr>) = in_list p key r"
  "in_list p key (if c then r \<lparr> li_expires := e \<rparr> else r) = in_list p key r"
  by (simp_all add: in_list_def)

lemma touch_sequence:
  fixes rows :: "'a list_row list"
  shows "in_sequence li_seq n (map (\<lambda>r. if P r then r \<lparr> li_expires := e \<rparr> else r) rows) = in_sequence li_seq n rows"
  by (simp add: in_sequence_map comp_def)

lemma touch_own:
  "filter (in_list p key) (map (\<lambda>r. if in_list p' key' r then r \<lparr> li_expires := e \<rparr> else r) rows)
   = map (\<lambda>r. if in_list p' key' r then r \<lparr> li_expires := e \<rparr> else r) (filter (in_list p key) rows)"
  by (induction rows) (auto simp: in_list_def)

lemma append_window:
  assumes win: "window p key values expires db" and n: "0 < n" and ttl: "ttl \<noteq> 0"
  shows "window p key (if p' = p \<and> key' = key then newest n (values @ [x]) else values)
    (if p' = p \<and> key' = key then Some (local + ttl) else expires) (appendToList local key' x (Some n) (Some ttl) p' db)"
proof -
  let ?e = "Some (local + ttl)"
  let ?row = "\<lparr> li_prefix = p', li_key = key', li_seq = sd_list_seq db, li_value = x, li_expires = ?e \<rparr>"
  define rows where "rows = trim_list p' key' n (sd_lists db @ [?row])"
  have "in_sequence li_seq (Suc (sd_list_seq db)) (sd_lists db @ [?row])"
    using win by (intro in_sequence_snoc) (simp_all add: window_def)
  note seq = this trim_list_sequence [OF this, of p' key' n, folded rows_def]
  have db: "appendToList local key' x (Some n) (Some ttl) p' db
      = db \<lparr> sd_lists := map (\<lambda>r. if in_list p' key' r then r \<lparr> li_expires := ?e \<rparr> else r) rows, sd_list_seq := Suc (sd_list_seq db) \<rparr>"
    using n ttl by (simp add: appendToList_def Let_def expiry_def rows_def)
  have own: "filter (in_list p key) rows = (if p' = p \<and> key' = key then newest n (filter (in_list p key) (sd_lists db) @ [?row])
      else filter (in_list p key) (sd_lists db))"
    unfolding rows_def trim_list_own [OF seq(1)] by (auto simp: in_list_def)
  show ?thesis
  proof (cases "p' = p \<and> key' = key")
    case True
    then have "map li_value (filter (in_list p key) rows) = newest n (values @ [x])"
      using own win by (simp add: map_newest window_def)
    with True seq(2) show ?thesis unfolding db by (auto simp: window_def touch_sequence touch_own comp_def list_all_iff)
  next
    case False
    then have other: "\<not> in_list p' key' r" if "in_list p key r" for r :: "'a list_row" using that by (auto simp: in_list_def)
    have "set (filter (in_list p key) rows) = set (filter (in_list p key) (sd_lists db))" using own False by simp
    then have "list_all (\<lambda>r. in_list p key r \<longrightarrow> li_expires r = expires) rows"
      using win by (auto simp: window_def list_all_iff)
    moreover have "map li_value (filter (in_list p key) rows) = values" using own False win by (auto simp: window_def)
    moreover have "filter (in_list p key) (map (\<lambda>r. if in_list p' key' r then r \<lparr> li_expires := ?e \<rparr> else r) rows) = filter (in_list p key) rows"
      unfolding touch_own using other by (intro map_idI) auto
    ultimately show ?thesis using False seq(2) other unfolding db
      by (auto simp: window_def touch_sequence list_all_iff)
  qed
qed

text \<open>The other operations leave the lists alone.\<close>

lemma window_frame:
  "window p key vs e (db \<lparr> sd_cache := c \<rparr>) = window p key vs e db"
  "window p key vs e (db \<lparr> sd_locks := l \<rparr>) = window p key vs e db"
  by (simp_all add: window_def)

lemma window_ops [simp]:
  "window p key vs e (set_key local k v ttl p' db) = window p key vs e db"
  "window p key vs e (delete_key k p' db) = window p key vs e db"
  "window p key vs e (snd (get_key now k p' db)) = window p key vs e db"
  "window p key vs e (snd (setIfNotExists local k v ttl p' db)) = window p key vs e db"
  "window p key vs e (snd (acquireLock local now u t ttl' p' db)) = window p key vs e db"
  "window p key vs e (releaseLock lock p' db) = window p key vs e db"
  by (simp_all add: set_key_def delete_key_def get_key_def setIfNotExists_def acquireLock_def releaseLock_def
      Let_def window_frame split: option.split)

end
