(* ===== verification/Conversation_State.thy ===== *)
theory Conversation_State
  imports State_Adapter
begin

text \<open>
  Sessions and chat history: \<^verbatim>\<open>server/src/gateway/connections/conversation-state-store.ts\<close> over the
  tables of \<^verbatim>\<open>State_Adapter\<close>, with \<^verbatim>\<open>server/src/gateway/session.ts\<close> and
  \<^verbatim>\<open>services/session-manager.ts\<close>. Updates and deletions of a session run under a lock that several
  gateways share; their statements interleave, one event of \<open>session_event\<close> each. Whole
  replacements (\<open>setSession\<close>) and the history take no part in that and are functions. The clocks of the
  gateways and of the database are taken as one here.
\<close>

section \<open>Sessions\<close>

record course_binding =
  cb_courseKey :: string
  cb_courseEntityId :: string
  cb_source :: string
  cb_boundAt :: string
  cb_contextPackId :: "string option"

datatype selection_status = Sel_pending | Sel_claimed | Sel_dispatched

record course_selection =
  cs_pendingId :: string
  cs_version :: ms
  cs_status :: selection_status
  cs_ownerUserId :: string
  cs_agentId :: string
  cs_candidates :: "(string \<times> string) list"
  cs_originalMessage :: string
  cs_createdAt :: ms
  cs_claimedAt :: "ms option"
  cs_dispatchedAt :: "ms option"
  cs_claimedCourseKey :: "string option"
  cs_claimedMessageId :: "string option"

text \<open>\<open>ts_settings\<close> holds the parameters of API sessions and the other members nothing here looks at.\<close>

record thread_session =
  ts_conversationId :: string
  ts_channelId :: string
  ts_userId :: string
  ts_threadCreator :: "string option"
  ts_lastActivity :: ms
  ts_createdAt :: ms
  ts_status :: "string option"
  ts_agentId :: "string option"
  ts_organizationId :: "string option"
  ts_settings :: "(string, jvalue) jmap"
  ts_courseContext :: "course_binding option"
  ts_pendingSelection :: "course_selection option"

definition computeSessionKey :: "string \<Rightarrow> string \<Rightarrow> string" where
  "computeSessionKey channelId conversationId =
     (if starts_with channelId ''api-'' \<or> starts_with channelId ''api_'' \<or> channelId = conversationId
      then conversationId
      else channelId @ '':'' @ conversationId)"

record history_entry =
  he_role :: string
  he_content :: string
  he_authorName :: "string option"
  he_timestamp :: ms

text \<open>What the store keeps in the cache: sessions, the index from threads to sessions, the index of channels with
  history, and the markers of backfilled threads.\<close>

datatype stored = Session thread_session | Thread_index string | History_index "(string, ms) jmap" | Backfilled

type_synonym chat_db = "(stored, history_entry, jvalue) state_db"

definition SESSION_TTL_MS :: ms where "SESSION_TTL_MS = 86400000"
definition HISTORY_TTL_MS :: ms where "HISTORY_TTL_MS = 86400000"
definition MAX_HISTORY_MESSAGES :: nat where "MAX_HISTORY_MESSAGES = 10"
definition HISTORY_INDEX_LOCK_TTL_MS :: ms where "HISTORY_INDEX_LOCK_TTL_MS = 5000"
definition SESSION_LOCK_LEASE_MS :: ms where "SESSION_LOCK_LEASE_MS = 30000"
definition SESSION_LOCK_ACQUIRE_TIMEOUT_MS :: ms where "SESSION_LOCK_ACQUIRE_TIMEOUT_MS = 1000"

definition historyKey :: "string \<Rightarrow> string \<Rightarrow> string" where
  "historyKey connectionId channelId = ''history:'' @ connectionId @ '':'' @ channelId"

definition historyIndexKey :: "string \<Rightarrow> string" where
  "historyIndexKey connectionId = ''history_index:'' @ connectionId"

definition sessionKey :: "string \<Rightarrow> string" where
  "sessionKey sessionId = ''session:'' @ sessionId"

definition threadIndexKey :: "string \<Rightarrow> string \<Rightarrow> string" where
  "threadIndexKey channelId threadTs = ''conversation_index:'' @ channelId @ '':'' @ threadTs"

definition threadBackfillKey :: "string \<Rightarrow> string \<Rightarrow> string" where
  "threadBackfillKey connectionId threadId = ''thread-backfilled:'' @ connectionId @ '':'' @ threadId"

definition sessionLockId :: "string \<Rightarrow> string" where
  "sessionLockId sessionId = ''lock:'' @ sessionKey sessionId"

fun as_session :: "stored option \<Rightarrow> thread_session option" where
  "as_session (Some (Session s)) = Some s"
| "as_session _ = None"

fun as_thread_index :: "stored option \<Rightarrow> string option" where
  "as_thread_index (Some (Thread_index k)) = (if k = [] then None else Some k)"
| "as_thread_index _ = None"

fun as_history_index :: "stored option \<Rightarrow> (string, ms) jmap" where
  "as_history_index (Some (History_index i)) = i"
| "as_history_index _ = []"

definition getSession :: "ms \<Rightarrow> string \<Rightarrow> string \<Rightarrow> chat_db \<Rightarrow> thread_session option \<times> chat_db" where
  "getSession now sessionId p db = (let (v, db) = get_key now (sessionKey sessionId) p db in (as_session v, db))"

definition setSession :: "ms \<Rightarrow> string \<Rightarrow> thread_session \<Rightarrow> string \<Rightarrow> chat_db \<Rightarrow> chat_db" where
  "setSession now sessionId session p db =
     set_key now (threadIndexKey (ts_channelId session) (ts_conversationId session)) (Thread_index sessionId) (Some SESSION_TTL_MS) p
       (set_key now (sessionKey sessionId) (Session session) (Some SESSION_TTL_MS) p db)"

definition getSessionByThread :: "ms \<Rightarrow> string \<Rightarrow> string \<Rightarrow> string \<Rightarrow> chat_db \<Rightarrow> thread_session option \<times> chat_db" where
  "getSessionByThread now channelId threadTs p db =
     (let (v, db) = get_key now (threadIndexKey channelId threadTs) p db in
      case as_thread_index v of None \<Rightarrow> (None, db) | Some sessionId \<Rightarrow> getSession now sessionId p db)"

section \<open>Updates and deletions under the lock\<close>

datatype session_op = Mutate "thread_session \<Rightarrow> thread_session" | Remove

datatype session_outcome = Returned bool | Threw

text \<open>
  Where a call of \<^verbatim>\<open>withSessionLock\<close> stands: it asks for the lock or waits to ask again, until its deadline;
  with the lock it reads, writes or deletes, and releases it. The two writes of \<^verbatim>\<open>setSession\<close> run
  concurrently; the statements that have not ended yet are kept beside, and the session that was read.
\<close>

datatype session_pc =
    Acquiring ms
  | Waiting ms
  | Reading lock
  | Writing lock
  | Deleting lock "thread_session option"
  | Deleting_index lock thread_session
  | Releasing lock session_outcome
  | Finished session_outcome

datatype session_write = Write_session thread_session | Write_index thread_session

record session_process =
  sp_session :: string
  sp_op :: session_op
  sp_uuid :: string
  sp_pc :: session_pc
  sp_writes :: "session_write list"
  sp_current :: "thread_session option"

definition start_process :: "ms \<Rightarrow> string \<Rightarrow> session_op \<Rightarrow> string \<Rightarrow> session_process" where
  "start_process now sessionId op uuid =
     \<lparr> sp_session = sessionId, sp_op = op, sp_uuid = uuid, sp_pc = Acquiring (now + SESSION_LOCK_ACQUIRE_TIMEOUT_MS), sp_writes = [], sp_current = None \<rparr>"

text \<open>The next statement of a call; \<open>ok\<close> tells whether the database executes it or fails.\<close>

definition session_advance :: "ms \<Rightarrow> bool \<Rightarrow> string \<Rightarrow> session_process \<Rightarrow> chat_db \<Rightarrow> session_process \<times> chat_db" where
  "session_advance now ok p pr db =
     (case sp_pc pr of
        Acquiring deadline \<Rightarrow>
          (if \<not> ok then (pr \<lparr> sp_pc := Finished Threw \<rparr>, db)
           else (let (l, db') = acquireLock now now (sp_uuid pr) (sessionLockId (sp_session pr)) SESSION_LOCK_LEASE_MS p db in
             (case l of Some lk \<Rightarrow> (pr \<lparr> sp_pc := Reading lk \<rparr>, db') | None \<Rightarrow> (pr \<lparr> sp_pc := Waiting deadline \<rparr>, db'))))
      | Waiting deadline \<Rightarrow> (pr \<lparr> sp_pc := (if now < deadline then Acquiring deadline else Finished Threw) \<rparr>, db)
      | Reading lk \<Rightarrow>
          (if \<not> ok then (pr \<lparr> sp_pc := Releasing lk Threw \<rparr>, db)
           else (let (s, db') = getSession now (sp_session pr) p db; pr = pr \<lparr> sp_current := s \<rparr> in
             (case sp_op pr of
                Mutate f \<Rightarrow>
                  (case s of
                     None \<Rightarrow> (pr \<lparr> sp_pc := Releasing lk (Returned False) \<rparr>, db')
                   | Some s \<Rightarrow> (pr \<lparr> sp_pc := Writing lk, sp_writes := [Write_session (f s), Write_index (f s)] \<rparr>, db'))
              | Remove \<Rightarrow> (pr \<lparr> sp_pc := Deleting lk s \<rparr>, db'))))
      | Writing lk \<Rightarrow> (if sp_writes pr = [] then (pr \<lparr> sp_pc := Releasing lk (Returned True) \<rparr>, db) else (pr, db))
      | Deleting lk s \<Rightarrow>
          (if \<not> ok then (pr \<lparr> sp_pc := Releasing lk Threw \<rparr>, db)
           else (pr \<lparr> sp_pc := (case s of
                     Some s \<Rightarrow> if ts_conversationId s \<noteq> [] then Deleting_index lk s else Releasing lk (Returned True)
                   | None \<Rightarrow> Releasing lk (Returned True)) \<rparr>, delete_key (sessionKey (sp_session pr)) p db))
      | Deleting_index lk s \<Rightarrow>
          (if \<not> ok then (pr \<lparr> sp_pc := Releasing lk Threw \<rparr>, db)
           else (pr \<lparr> sp_pc := Releasing lk (Returned True) \<rparr>, delete_key (threadIndexKey (ts_channelId s) (ts_conversationId s)) p db))
      | Releasing lk out \<Rightarrow> (pr \<lparr> sp_pc := Finished out \<rparr>, if ok then releaseLock lk p db else db)
      | Finished out \<Rightarrow> (pr, db))"

fun perform_write :: "ms \<Rightarrow> string \<Rightarrow> string \<Rightarrow> session_write \<Rightarrow> chat_db \<Rightarrow> chat_db" where
  "perform_write now sessionId p (Write_session s) db = set_key now (sessionKey sessionId) (Session s) (Some SESSION_TTL_MS) p db"
| "perform_write now sessionId p (Write_index s) db =
     set_key now (threadIndexKey (ts_channelId s) (ts_conversationId s)) (Thread_index sessionId) (Some SESSION_TTL_MS) p db"

text \<open>One of the two writes ends; the first that fails ends the call, the other goes on.\<close>

definition end_write :: "ms \<Rightarrow> nat \<Rightarrow> bool \<Rightarrow> string \<Rightarrow> session_process \<Rightarrow> chat_db \<Rightarrow> session_process \<times> chat_db" where
  "end_write now k ok p pr db =
     (if length (sp_writes pr) \<le> k then (pr, db)
      else
        (let pr' = pr \<lparr> sp_writes := take k (sp_writes pr) @ drop (Suc k) (sp_writes pr) \<rparr> in
         if ok then (pr', perform_write now (sp_session pr) p (sp_writes pr ! k) db)
         else (case sp_pc pr of Writing lk \<Rightarrow> (pr' \<lparr> sp_pc := Releasing lk Threw \<rparr>, db) | _ \<Rightarrow> (pr', db))))"

section \<open>Several calls\<close>

text \<open>The log records which call has changed which session, and how, in the order it happened.\<close>

record session_world =
  sw_now :: ms
  sw_db :: chat_db
  sw_calls :: "session_process list"
  sw_log :: "(nat \<times> string \<times> session_op) list"

datatype session_event = Call_session string session_op string | Advance nat bool | End_write nat nat bool | Pass ms

fun changes_session :: "session_event \<Rightarrow> session_world \<Rightarrow> bool" where
  "changes_session (Advance i ok) w = (i < length (sw_calls w) \<and> ok \<and> (case sp_pc (sw_calls w ! i) of Deleting lk s \<Rightarrow> True | _ \<Rightarrow> False))"
| "changes_session (End_write i k ok) w =
     (i < length (sw_calls w) \<and> ok \<and> k < length (sp_writes (sw_calls w ! i))
      \<and> (case sp_writes (sw_calls w ! i) ! k of Write_session s \<Rightarrow> True | Write_index s \<Rightarrow> False))"
| "changes_session _ w = False"

definition with_call :: "nat \<Rightarrow> bool \<Rightarrow> session_process \<times> chat_db \<Rightarrow> session_world \<Rightarrow> session_world" where
  "with_call i changed r w =
     w \<lparr> sw_calls := (sw_calls w)[i := fst r], sw_db := snd r,
         sw_log := sw_log w @ (if changed then [(i, sp_session (sw_calls w ! i), sp_op (sw_calls w ! i))] else []) \<rparr>"

fun session_step :: "string \<Rightarrow> session_event \<Rightarrow> session_world \<Rightarrow> session_world" where
  "session_step p (Call_session sid op uuid) w = w \<lparr> sw_calls := sw_calls w @ [start_process (sw_now w) sid op uuid] \<rparr>"
| "session_step p (Advance i ok) w =
     (if i < length (sw_calls w)
      then with_call i (changes_session (Advance i ok) w) (session_advance (sw_now w) ok p (sw_calls w ! i) (sw_db w)) w
      else w)"
| "session_step p (End_write i k ok) w =
     (if i < length (sw_calls w)
      then with_call i (changes_session (End_write i k ok) w) (end_write (sw_now w) k ok p (sw_calls w ! i) (sw_db w)) w
      else w)"
| "session_step p (Pass d) w = w \<lparr> sw_now := sw_now w + d \<rparr>"

definition session_run :: "string \<Rightarrow> session_event list \<Rightarrow> session_world \<Rightarrow> session_world" where
  "session_run p es w = foldl (\<lambda>w e. session_step p e w) w es"

section \<open>No update is lost\<close>

text \<open>
  A trace is orderly if the write or deletion of a session ends, or fails, while the lease of its call runs, the write of the
  index beside it does not fail before it, and no two calls share a random token. (The first write that fails releases
  the lock, so a session whose write is then still pending is written without it.) A statement that fails has no effect.
\<close>

fun pc_lock :: "session_pc \<Rightarrow> lock option" where
  "pc_lock (Reading lk) = Some lk"
| "pc_lock (Writing lk) = Some lk"
| "pc_lock (Deleting lk s) = Some lk"
| "pc_lock (Deleting_index lk s) = Some lk"
| "pc_lock (Releasing lk out) = Some lk"
| "pc_lock _ = None"

fun orderly_event :: "session_event \<Rightarrow> session_world \<Rightarrow> bool" where
  "orderly_event (Call_session sid op uuid) w = (uuid \<notin> set (map sp_uuid (sw_calls w)))"
| "orderly_event (Advance i ok) w =
     (i < length (sw_calls w)
      \<and> (case sp_pc (sw_calls w ! i) of Deleting lk s \<Rightarrow> sw_now w < lock_expiresAt lk | _ \<Rightarrow> True))"
| "orderly_event (End_write i k ok) w =
     (i < length (sw_calls w)
      \<and> (k < length (sp_writes (sw_calls w ! i)) \<longrightarrow>
          (case sp_writes (sw_calls w ! i) ! k of
             Write_session s \<Rightarrow> (case sp_pc (sw_calls w ! i) of Writing lk \<Rightarrow> sw_now w < lock_expiresAt lk | _ \<Rightarrow> False)
           | Write_index s \<Rightarrow> ok \<or> list_all (\<lambda>write. case write of Write_session s \<Rightarrow> False | Write_index s \<Rightarrow> True)
               (sp_writes (sw_calls w ! i)))))"
| "orderly_event (Pass d) w = (0 \<le> d)"

fun orderly :: "string \<Rightarrow> session_event list \<Rightarrow> session_world \<Rightarrow> bool" where
  "orderly p [] w = True"
| "orderly p (e # es) w = (orderly_event e w \<and> orderly p es (session_step p e w))"

text \<open>The session of an id, and what the changes of the log make of it, one after the other.\<close>

definition session_at :: "string \<Rightarrow> chat_db \<Rightarrow> string \<Rightarrow> thread_session option" where
  "session_at p db sid = as_session (map_option ca_value (map_of (sd_cache db) (p, sessionKey sid)))"

fun apply_op :: "session_op \<Rightarrow> thread_session option \<Rightarrow> thread_session option" where
  "apply_op (Mutate f) s = map_option f s"
| "apply_op Remove s = None"

definition replay :: "string \<Rightarrow> (nat \<times> string \<times> session_op) list \<Rightarrow> thread_session option \<Rightarrow> thread_session option" where
  "replay sid changes s = foldl (\<lambda>s (i, k, op). if k = sid then apply_op op s else s) s changes"

text \<open>No session expires before the time \<open>T\<close>.\<close>

definition sessions_last :: "string \<Rightarrow> ms \<Rightarrow> chat_db \<Rightarrow> bool" where
  "sessions_last p T db \<longleftrightarrow> (\<forall>sid row. map_of (sd_cache db) (p, sessionKey sid) = Some row \<longrightarrow>
     not_expired T (ca_expires row) \<and> (\<exists>s. ca_value row = Session s))"

text \<open>What holds of a call with its lock, at a time when the lease still runs.\<close>

definition lock_call_ok :: "string \<Rightarrow> ms \<Rightarrow> chat_db \<Rightarrow> session_process \<Rightarrow> bool" where
  "lock_call_ok p now db pr \<longleftrightarrow>
     (case pc_lock (sp_pc pr) of None \<Rightarrow> True
      | Some lk \<Rightarrow> lock_token lk = ''pg_'' @ sp_uuid pr \<and> lock_threadId lk = sessionLockId (sp_session pr)
          \<and> (now < lock_expiresAt lk \<longrightarrow> (case sp_pc pr of Releasing _ _ \<Rightarrow> True | _ \<Rightarrow>
               map_of (sd_locks db) (p, sessionLockId (sp_session pr)) = Some \<lparr> lk_token = lock_token lk, lk_expires = lock_expiresAt lk \<rparr>)))
     \<and> (case sp_pc pr of
          Writing lk \<Rightarrow> (\<forall>s. Write_session s \<in> set (sp_writes pr) \<longrightarrow> now < lock_expiresAt lk \<longrightarrow>
             apply_op (sp_op pr) (session_at p db (sp_session pr)) = Some s \<and> sp_current pr = session_at p db (sp_session pr))
            \<and> length (filter (\<lambda>s. \<exists>s'. s = Write_session s') (sp_writes pr)) \<le> 1
        | Deleting lk s \<Rightarrow> sp_op pr = Remove \<and> (now < lock_expiresAt lk \<longrightarrow> sp_current pr = session_at p db (sp_session pr))
        | _ \<Rightarrow> True)"

text \<open>When a call has made its change.\<close>

definition has_changed :: "session_process \<Rightarrow> bool" where
  "has_changed pr \<longleftrightarrow> (case sp_pc pr of
       Writing lk \<Rightarrow> \<not> (\<exists>s. Write_session s \<in> set (sp_writes pr))
     | Deleting_index lk s \<Rightarrow> True
     | Releasing lk out \<Rightarrow> out = Returned True
     | Finished out \<Rightarrow> out = Returned True
     | _ \<Rightarrow> False)"

definition may_change :: "session_process \<Rightarrow> bool" where
  "may_change pr \<longleftrightarrow> (case sp_pc pr of
       Writing lk \<Rightarrow> (\<exists>s. Write_session s \<in> set (sp_writes pr))
     | Acquiring d \<Rightarrow> True | Waiting d \<Rightarrow> True | Reading lk \<Rightarrow> True | Deleting lk s \<Rightarrow> True
     | _ \<Rightarrow> False)"

text \<open>Every change was computed from the session that the changes before it had left.\<close>

definition changes_seen :: "string \<Rightarrow> chat_db \<Rightarrow> session_world \<Rightarrow> bool" where
  "changes_seen p db0 w \<longleftrightarrow> (\<forall>as i sid op bs. sw_log w = as @ (i, sid, op) # bs \<longrightarrow>
     sp_session (sw_calls w ! i) = sid \<and> sp_op (sw_calls w ! i) = op
     \<and> sp_current (sw_calls w ! i) = replay sid as (session_at p db0 sid))"

definition world_inv :: "string \<Rightarrow> ms \<Rightarrow> chat_db \<Rightarrow> session_world \<Rightarrow> bool" where
  "world_inv p T db0 w \<longleftrightarrow>
     distinct (map sp_uuid (sw_calls w))
     \<and> (\<forall>pr \<in> set (sw_calls w). lock_call_ok p (sw_now w) (sw_db w) pr)
     \<and> sessions_last p T (sw_db w)
     \<and> (\<forall>sid. session_at p (sw_db w) sid = replay sid (sw_log w) (session_at p db0 sid))
     \<and> distinct (map fst (sw_log w))
     \<and> (\<forall>i \<in> fst ` set (sw_log w). i < length (sw_calls w) \<and> \<not> may_change (sw_calls w ! i))
     \<and> (\<forall>i < length (sw_calls w). has_changed (sw_calls w ! i) \<longrightarrow> i \<in> fst ` set (sw_log w))
     \<and> changes_seen p db0 w"

lemma starts_differ [simp]:
  "sessionKey sid = sessionKey sid' \<longleftrightarrow> sid = sid'" "sessionLockId sid = sessionLockId sid' \<longleftrightarrow> sid = sid'"
  "sessionKey sid \<noteq> threadIndexKey c t" "threadIndexKey c t \<noteq> sessionKey sid"
  by (simp_all add: sessionKey_def sessionLockId_def threadIndexKey_def)

text \<open>A session that lasts is found, and finding it cleans nothing up.\<close>

lemma getSession_lasting:
  assumes "sessions_last p T db" "now \<le> T"
  shows "getSession now sid p db = (session_at p db sid, db)"
proof (cases "map_of (sd_cache db) (p, sessionKey sid)")
  case (Some row)
  with assms have "not_expired now (ca_expires row)"
    unfolding sessions_last_def by (blast intro: not_expired_mono)
  with Some show ?thesis by (simp add: getSession_def get_key_def session_at_def)
qed (simp add: getSession_def get_key_def session_at_def)

lemma session_at_ops [simp]:
  "session_at p (db \<lparr> sd_locks := l \<rparr>) sid = session_at p db sid"
  "session_at p (set_key now (sessionKey sid') (Session s) ttl p db) sid = (if sid = sid' then Some s else session_at p db sid)"
  "session_at p (set_key now (threadIndexKey c t) v ttl p db) sid = session_at p db sid"
  "session_at p (delete_key (sessionKey sid') p db) sid = (if sid = sid' then None else session_at p db sid)"
  "session_at p (delete_key (threadIndexKey c t) p db) sid = session_at p db sid"
  by (simp_all add: session_at_def set_key_def delete_key_def jm_get_set jm_get_del)

lemma sessions_last_ops:
  "sessions_last p T db \<Longrightarrow> sessions_last p T (db \<lparr> sd_locks := l \<rparr>)"
  "sessions_last p T db \<Longrightarrow> T < now + SESSION_TTL_MS \<Longrightarrow> sessions_last p T (set_key now (sessionKey sid') (Session s) (Some SESSION_TTL_MS) p db)"
  "sessions_last p T db \<Longrightarrow> sessions_last p T (set_key now (threadIndexKey c t) v ttl p db)"
  "sessions_last p T db \<Longrightarrow> sessions_last p T (delete_key k p db)"
  by (auto simp: sessions_last_def set_key_def delete_key_def jm_get_set jm_get_del not_expired_def expiry_def SESSION_TTL_MS_def split: if_splits)

lemma locks_ops [simp]:
  "sd_locks (set_key now k v ttl p db) = sd_locks db" "sd_locks (delete_key k p db) = sd_locks db"
  by (simp_all add: set_key_def delete_key_def)

section \<open>The steps of one call\<close>

definition leased :: "ms \<Rightarrow> session_process \<Rightarrow> bool" where
  "leased now pr \<longleftrightarrow>
     (case sp_pc pr of Reading lk \<Rightarrow> now < lock_expiresAt lk | Writing lk \<Rightarrow> now < lock_expiresAt lk
      | Deleting lk s \<Rightarrow> now < lock_expiresAt lk | Deleting_index lk s \<Rightarrow> now < lock_expiresAt lk | _ \<Rightarrow> False)"

text \<open>A call whose lease runs holds the lock of its session, so two such calls of one session are the same call.\<close>

lemma leased_holds:
  "lock_call_ok p now db pr \<Longrightarrow> leased now pr \<Longrightarrow>
     \<exists>e. map_of (sd_locks db) (p, sessionLockId (sp_session pr)) = Some \<lparr> lk_token = ''pg_'' @ sp_uuid pr, lk_expires = e \<rparr> \<and> now < e"
  by (cases "sp_pc pr") (auto simp: lock_call_ok_def leased_def)

lemma leased_exclusive:
  assumes "lock_call_ok p now db a" "lock_call_ok p now db b" "leased now a" "leased now b" "sp_session a = sp_session b"
  shows "sp_uuid a = sp_uuid b"
  using leased_holds [OF assms(1,3)] leased_holds [OF assms(2,4)] assms(5) by auto

lemma lock_call_ok_frame:
  assumes "lock_call_ok p now db pr"
    and "leased now pr \<Longrightarrow> map_of (sd_locks db') (p, sessionLockId (sp_session pr)) = map_of (sd_locks db) (p, sessionLockId (sp_session pr))"
    and "leased now pr \<Longrightarrow> session_at p db' (sp_session pr) = session_at p db (sp_session pr)"
  shows "lock_call_ok p now db' pr"
proof (cases "leased now pr")
  case True
  with assms show ?thesis by (cases "sp_pc pr") (simp_all add: lock_call_ok_def)
next
  case False
  with assms(1) show ?thesis
    by (cases "sp_pc pr") (simp_all add: lock_call_ok_def leased_def)
qed

lemma lock_call_ok_later: "lock_call_ok p now db pr \<Longrightarrow> now \<le> later \<Longrightarrow> lock_call_ok p later db pr"
  by (cases "sp_pc pr") (auto simp: lock_call_ok_def)

text \<open>
  What a step of one call does: \<open>kept\<close> says that the other calls are not disturbed and that the session of the call is the
  only one changed, if the step changes one.
\<close>

definition kept :: "string \<Rightarrow> ms \<Rightarrow> ms \<Rightarrow> bool \<Rightarrow> session_process \<Rightarrow> chat_db \<Rightarrow> session_process \<times> chat_db \<Rightarrow> bool" where
  "kept p T now changed pr db r \<longleftrightarrow>
     lock_call_ok p now (snd r) (fst r)
     \<and> (\<forall>other. lock_call_ok p now db other \<longrightarrow> sp_uuid other \<noteq> sp_uuid pr \<longrightarrow> lock_call_ok p now (snd r) other)
     \<and> sessions_last p T (snd r)
     \<and> (\<forall>sid. session_at p (snd r) sid =
          (if changed \<and> sid = sp_session pr then apply_op (sp_op pr) (session_at p db sid) else session_at p db sid))
     \<and> sp_uuid (fst r) = sp_uuid pr \<and> sp_session (fst r) = sp_session pr \<and> sp_op (fst r) = sp_op pr
     \<and> (changed \<longrightarrow> sp_current pr = session_at p db (sp_session pr))
     \<and> (changed \<or> \<not> may_change pr \<longrightarrow> sp_current (fst r) = sp_current pr)
     \<and> (if changed then may_change pr \<and> \<not> may_change (fst r)
        else (may_change (fst r) \<longrightarrow> may_change pr) \<and> (has_changed (fst r) \<longrightarrow> has_changed pr))"

lemma kept_same_db:
  assumes "sessions_last p T db" "lock_call_ok p now db pr'" "sp_uuid pr' = sp_uuid pr"
    and "sp_session pr' = sp_session pr" "sp_op pr' = sp_op pr" "\<not> may_change pr \<Longrightarrow> sp_current pr' = sp_current pr"
    and "may_change pr' \<Longrightarrow> may_change pr" "has_changed pr' \<Longrightarrow> has_changed pr"
  shows "kept p T now False pr db (pr', db)"
  using assms by (simp add: kept_def)

lemma kept_acquire:
  assumes last: "sessions_last p T db" and pc: "sp_pc pr = Acquiring d"
  shows "kept p T now False pr db (session_advance now True p pr db)"
proof -
  let ?k = "(p, sessionLockId (sp_session pr))"
  let ?row = "\<lparr> lk_token = ''pg_'' @ sp_uuid pr, lk_expires = now + SESSION_LOCK_LEASE_MS \<rparr>"
  let ?lk = "\<lparr> lock_threadId = sessionLockId (sp_session pr), lock_token = ''pg_'' @ sp_uuid pr, lock_expiresAt = now + SESSION_LOCK_LEASE_MS \<rparr>"
  show ?thesis
  proof (cases "case map_of (sd_locks db) ?k of None \<Rightarrow> True | Some row \<Rightarrow> lk_expires row \<le> now")
    case True
    let ?db = "db \<lparr> sd_locks := AList.update ?k ?row (sd_locks db) \<rparr>"
    have step: "session_advance now True p pr db = (pr \<lparr> sp_pc := Reading ?lk \<rparr>, ?db)"
      using pc True by (simp add: session_advance_def acquireLock_def Let_def)
    have "lock_call_ok p now ?db other" if ok: "lock_call_ok p now db other" for other
    proof (rule lock_call_ok_frame [OF ok])
      assume "leased now other"
      from leased_holds [OF ok this] True have "sessionLockId (sp_session other) \<noteq> sessionLockId (sp_session pr)" by auto
      then show "map_of (sd_locks ?db) (p, sessionLockId (sp_session other)) = map_of (sd_locks db) (p, sessionLockId (sp_session other))"
        by (simp add: jm_get_set)
    qed simp
    moreover have "lock_call_ok p now ?db (pr \<lparr> sp_pc := Reading ?lk \<rparr>)" by (simp add: lock_call_ok_def jm_get_set)
    ultimately show ?thesis using last pc unfolding step
      by (auto simp: kept_def sessions_last_ops may_change_def has_changed_def)
  next
    case False
    then have "session_advance now True p pr db = (pr \<lparr> sp_pc := Waiting d \<rparr>, db)"
      using pc by (simp add: session_advance_def acquireLock_def Let_def)
    then show ?thesis using last pc by (auto intro!: kept_same_db simp: lock_call_ok_def may_change_def has_changed_def)
  qed
qed

lemma kept_release:
  assumes last: "sessions_last p T db" and ok: "lock_call_ok p now db pr" and pc: "sp_pc pr = Releasing lk out"
  shows "kept p T now False pr db (session_advance now good p pr db)"
proof -
  have lk: "lock_token lk = ''pg_'' @ sp_uuid pr" "lock_threadId lk = sessionLockId (sp_session pr)"
    using ok pc by (simp_all add: lock_call_ok_def)
  let ?db = "if good then releaseLock lk p db else db"
  have step: "session_advance now good p pr db = (pr \<lparr> sp_pc := Finished out \<rparr>, ?db)"
    using pc by (simp add: session_advance_def)
  have "lock_call_ok p now ?db other" if other: "lock_call_ok p now db other" "sp_uuid other \<noteq> sp_uuid pr" for other
  proof (rule lock_call_ok_frame [OF other(1)])
    assume "leased now other"
    from leased_holds [OF other(1) this] other(2) lk
    show "map_of (sd_locks ?db) (p, sessionLockId (sp_session other)) = map_of (sd_locks db) (p, sessionLockId (sp_session other))"
      by (auto simp: releaseLock_def holds_lock_def jm_get_del)
  qed (simp add: releaseLock_def)
  moreover have "sessions_last p T ?db" using last by (simp add: releaseLock_def sessions_last_ops)
  moreover have "session_at p ?db sid = session_at p db sid" for sid by (simp add: releaseLock_def)
  ultimately show ?thesis using pc unfolding step by (simp add: kept_def lock_call_ok_def may_change_def has_changed_def)
qed

lemma kept_read:
  assumes last: "sessions_last p T db" "now \<le> T" and ok: "lock_call_ok p now db pr" and pc: "sp_pc pr = Reading lk"
  shows "kept p T now False pr db (session_advance now good p pr db)"
proof -
  let ?s = "session_at p db (sp_session pr)"
  have step: "session_advance now good p pr db =
      (if \<not> good then pr \<lparr> sp_pc := Releasing lk Threw \<rparr>
       else (case sp_op pr of
           Mutate f \<Rightarrow> (case ?s of None \<Rightarrow> pr \<lparr> sp_current := ?s, sp_pc := Releasing lk (Returned False) \<rparr>
             | Some s \<Rightarrow> pr \<lparr> sp_current := ?s, sp_pc := Writing lk, sp_writes := [Write_session (f s), Write_index (f s)] \<rparr>)
         | Remove \<Rightarrow> pr \<lparr> sp_current := ?s, sp_pc := Deleting lk ?s \<rparr>), db)"
    using pc by (simp add: session_advance_def getSession_lasting [OF last] Let_def split: session_op.split option.split)
  show ?thesis unfolding step
    using ok pc last(1)
    by (intro kept_same_db)
      (auto simp: lock_call_ok_def may_change_def has_changed_def split: session_op.splits option.splits if_splits)
qed

lemma kept_delete:
  assumes last: "sessions_last p T db" and ok: "lock_call_ok p now db pr"
    and pc: "sp_pc pr = Deleting lk s" and lease: "now < lock_expiresAt lk"
  shows "kept p T now True pr db (session_advance now True p pr db)"
proof -
  let ?pc = "case s of Some s \<Rightarrow> if ts_conversationId s \<noteq> [] then Deleting_index lk s else Releasing lk (Returned True)
     | None \<Rightarrow> Releasing lk (Returned True)"
  let ?db = "delete_key (sessionKey (sp_session pr)) p db"
  have step: "session_advance now True p pr db = (pr \<lparr> sp_pc := ?pc \<rparr>, ?db)" using pc by (simp add: session_advance_def)
  have leased: "leased now pr" using pc lease by (simp add: leased_def)
  have "lock_call_ok p now ?db other" if other: "lock_call_ok p now db other" "sp_uuid other \<noteq> sp_uuid pr" for other
    using leased_exclusive [OF ok other(1) leased] other(2) by (intro lock_call_ok_frame [OF other(1)]) auto
  moreover have "lock_call_ok p now ?db (pr \<lparr> sp_pc := ?pc \<rparr>)"
    using ok pc by (auto simp: lock_call_ok_def split: option.split)
  moreover have "sp_op pr = Remove" "sp_current pr = session_at p db (sp_session pr)" using ok pc lease by (simp_all add: lock_call_ok_def)
  moreover have "sessions_last p T ?db" using last by (rule sessions_last_ops)
  ultimately show ?thesis using pc unfolding step
    by (auto simp: kept_def may_change_def split: option.split)
qed

lemma kept_advance:
  assumes last: "sessions_last p T db" "now \<le> T" and ok: "lock_call_ok p now db pr"
    and orderly: "case sp_pc pr of Deleting lk s \<Rightarrow> now < lock_expiresAt lk | _ \<Rightarrow> True"
  shows "kept p T now (good \<and> (case sp_pc pr of Deleting lk s \<Rightarrow> True | _ \<Rightarrow> False)) pr db (session_advance now good p pr db)"
proof (cases "sp_pc pr")
  case (Acquiring d)
  show ?thesis
  proof (cases good)
    case True
    then show ?thesis using kept_acquire [OF last(1) Acquiring] Acquiring by simp
  next
    case False
    then have "session_advance now good p pr db = (pr \<lparr> sp_pc := Finished Threw \<rparr>, db)" using Acquiring by (simp add: session_advance_def)
    then show ?thesis using last Acquiring by (auto intro!: kept_same_db simp: lock_call_ok_def may_change_def has_changed_def)
  qed
next
  case (Waiting d)
  then have "session_advance now good p pr db = (pr \<lparr> sp_pc := (if now < d then Acquiring d else Finished Threw) \<rparr>, db)"
    by (simp add: session_advance_def)
  then show ?thesis using last Waiting by (auto intro!: kept_same_db simp: lock_call_ok_def may_change_def has_changed_def)
next
  case (Reading lk)
  then show ?thesis using kept_read [OF last ok Reading] by simp
next
  case (Writing lk)
  show ?thesis
  proof (cases "sp_writes pr = []")
    case True
    then have "session_advance now good p pr db = (pr \<lparr> sp_pc := Releasing lk (Returned True) \<rparr>, db)" using Writing by (simp add: session_advance_def)
    then show ?thesis using last ok Writing True by (auto intro!: kept_same_db simp: lock_call_ok_def may_change_def has_changed_def)
  next
    case False
    then have "session_advance now good p pr db = (pr, db)" using Writing by (simp add: session_advance_def)
    then show ?thesis using last ok Writing by (auto intro!: kept_same_db)
  qed
next
  case (Deleting lk s)
  show ?thesis
  proof (cases good)
    case True
    then show ?thesis using kept_delete [OF last(1) ok Deleting] orderly Deleting by simp
  next
    case False
    then have "session_advance now good p pr db = (pr \<lparr> sp_pc := Releasing lk Threw \<rparr>, db)" using Deleting by (simp add: session_advance_def)
    then show ?thesis using last ok Deleting False by (auto intro!: kept_same_db simp: lock_call_ok_def may_change_def has_changed_def)
  qed
next
  case (Deleting_index lk s)
  let ?db = "if good then delete_key (threadIndexKey (ts_channelId s) (ts_conversationId s)) p db else db"
  have step: "session_advance now good p pr db = (pr \<lparr> sp_pc := Releasing lk (if good then Returned True else Threw) \<rparr>, ?db)"
    using Deleting_index by (simp add: session_advance_def)
  have "lock_call_ok p now ?db other" if "lock_call_ok p now db other" for other
    by (rule lock_call_ok_frame [OF that]) simp_all
  moreover have "sessions_last p T ?db" using last(1) by (simp add: sessions_last_ops)
  moreover have "lock_call_ok p now ?db (pr \<lparr> sp_pc := Releasing lk out \<rparr>)" for out using ok Deleting_index by (simp add: lock_call_ok_def)
  ultimately show ?thesis unfolding step using Deleting_index
    by (auto simp: kept_def may_change_def has_changed_def)
next
  case (Releasing lk out)
  then show ?thesis using kept_release [OF last(1) ok Releasing] by simp
next
  case (Finished out)
  then have "session_advance now good p pr db = (pr, db)" by (simp add: session_advance_def)
  then show ?thesis using last ok Finished by (auto intro!: kept_same_db)
qed

lemma removed_writes:
  assumes "length (filter P xs) \<le> 1" "k < length xs"
  shows "set (take k xs @ drop (Suc k) xs) \<subseteq> set xs" "length (filter P (take k xs @ drop (Suc k) xs)) \<le> 1"
    "P (xs ! k) \<Longrightarrow> filter P (take k xs @ drop (Suc k) xs) = []"
    "\<not> P (xs ! k) \<Longrightarrow> filter P (take k xs @ drop (Suc k) xs) = filter P xs"
proof -
  have xs: "xs = take k xs @ xs ! k # drop (Suc k) xs" using assms(2) by (rule id_take_nth_drop)
  have all: "filter P xs = filter P (take k xs) @ (if P (xs ! k) then [xs ! k] else []) @ filter P (drop (Suc k) xs)"
    by (subst xs) simp
  show "set (take k xs @ drop (Suc k) xs) \<subseteq> set xs" by (auto dest: in_set_takeD in_set_dropD)
  show "length (filter P (take k xs @ drop (Suc k) xs)) \<le> 1" using assms(1) all by auto
  show "filter P (take k xs @ drop (Suc k) xs) = []" if "P (xs ! k)" using assms(1) all that by simp
  show "filter P (take k xs @ drop (Suc k) xs) = filter P xs" if "\<not> P (xs ! k)" using all that by simp
qed

lemma pending_write: "(\<exists>s. Write_session s \<in> set xs) \<longleftrightarrow> filter (\<lambda>w. \<exists>s. w = Write_session s) xs \<noteq> []"
  by (auto simp: filter_empty_conv)

lemma kept_session_write:
  assumes last: "sessions_last p T db" "T < now + SESSION_TTL_MS" and ok: "lock_call_ok p now db pr"
    and k: "k < length (sp_writes pr)" "sp_writes pr ! k = Write_session s"
    and pc: "sp_pc pr = Writing lk" and lease: "now < lock_expiresAt lk"
  shows "kept p T now good pr db (end_write now k good p pr db)"
proof -
  let ?ws = "take k (sp_writes pr) @ drop (Suc k) (sp_writes pr)"
  let ?pr = "pr \<lparr> sp_writes := ?ws \<rparr>"
  have one: "length (filter (\<lambda>w. \<exists>s. w = Write_session s) (sp_writes pr)) \<le> 1" using ok pc by (simp add: lock_call_ok_def)
  note ws = removed_writes [OF one k(1)]
  have leased: "leased now pr" using pc lease by (simp add: leased_def)
  have pending: "Write_session s \<in> set (sp_writes pr)" using k by (metis nth_mem)
  then have new: "apply_op (sp_op pr) (session_at p db (sp_session pr)) = Some s" "sp_current pr = session_at p db (sp_session pr)"
    using ok pc lease by (auto simp: lock_call_ok_def)
  have none: "\<not> (\<exists>s. Write_session s \<in> set ?ws)" using ws(3) k(2) unfolding pending_write by auto
  have may: "may_change pr" "\<not> may_change ?pr" using pc pending none by (auto simp: may_change_def)
  show ?thesis
  proof (cases good)
    case True
    let ?db = "set_key now (sessionKey (sp_session pr)) (Session s) (Some SESSION_TTL_MS) p db"
    have step: "end_write now k good p pr db = (?pr, ?db)" using True k by (simp add: end_write_def)
    have "lock_call_ok p now ?db other" if other: "lock_call_ok p now db other" "sp_uuid other \<noteq> sp_uuid pr" for other
      using leased_exclusive [OF ok other(1) leased] other(2) by (intro lock_call_ok_frame [OF other(1)]) auto
    moreover have "lock_call_ok p now ?db ?pr" using ok pc none ws(2) by (auto simp: lock_call_ok_def)
    moreover have "sessions_last p T ?db" using last by (intro sessions_last_ops)
    ultimately show ?thesis unfolding step using True new may by (auto simp: kept_def)
  next
    case False
    have step: "end_write now k good p pr db = (?pr \<lparr> sp_pc := Releasing lk Threw \<rparr>, db)" using False k pc by (simp add: end_write_def Let_def)
    have "lock_call_ok p now db (?pr \<lparr> sp_pc := Releasing lk Threw \<rparr>)" using ok pc by (simp add: lock_call_ok_def)
    then have "kept p T now False pr db (?pr \<lparr> sp_pc := Releasing lk Threw \<rparr>, db)"
      by (rule kept_same_db [OF last(1)]) (simp_all add: may_change_def has_changed_def)
    then show ?thesis unfolding step using False by simp
  qed
qed

lemma kept_index_write:
  assumes last: "sessions_last p T db" and ok: "lock_call_ok p now db pr"
    and k: "k < length (sp_writes pr)" "sp_writes pr ! k = Write_index s"
    and alone: "good \<or> (\<forall>s. Write_session s \<notin> set (sp_writes pr))"
  shows "kept p T now False pr db (end_write now k good p pr db)"
proof -
  let ?ws = "take k (sp_writes pr) @ drop (Suc k) (sp_writes pr)"
  let ?pr = "pr \<lparr> sp_writes := ?ws \<rparr>"
  have one: "length (filter (\<lambda>w. \<exists>s. w = Write_session s) (sp_writes pr)) \<le> 1" if "sp_pc pr = Writing lk" for lk
    using ok that by (simp add: lock_call_ok_def)
  have same: "(\<exists>s. Write_session s \<in> set ?ws) \<longleftrightarrow> (\<exists>s. Write_session s \<in> set (sp_writes pr))" if "sp_pc pr = Writing lk" for lk
    using removed_writes(4) [OF one [OF that] k(1)] k(2) unfolding pending_write by auto
  have call: "lock_call_ok p now db ?pr"
  proof (cases "\<exists>lk. sp_pc pr = Writing lk")
    case True
    then obtain lk where lk: "sp_pc pr = Writing lk" by blast
    show ?thesis using ok lk removed_writes(1,2) [OF one [OF lk] k(1)] by (auto simp: lock_call_ok_def)
  next
    case False
    then show ?thesis using ok by (cases "sp_pc pr") (auto simp: lock_call_ok_def)
  qed
  have change: "may_change ?pr = may_change pr" "has_changed ?pr = has_changed pr"
    using same by (cases "sp_pc pr"; simp add: may_change_def has_changed_def)+
  show ?thesis
  proof (cases good)
    case True
    let ?db = "set_key now (threadIndexKey (ts_channelId s) (ts_conversationId s)) (Thread_index (sp_session pr)) (Some SESSION_TTL_MS) p db"
    have step: "end_write now k good p pr db = (?pr, ?db)" using True k by (simp add: end_write_def)
    have "lock_call_ok p now ?db other" if "lock_call_ok p now db other" for other
      by (rule lock_call_ok_frame [OF that]) simp_all
    moreover have "sessions_last p T ?db" using last by (rule sessions_last_ops)
    ultimately show ?thesis unfolding step using call change by (simp add: kept_def)
  next
    case False
    with alone have none: "\<forall>s. Write_session s \<notin> set (sp_writes pr)" by blast
    show ?thesis
    proof (cases "\<exists>lk. sp_pc pr = Writing lk")
      case True
      then obtain lk where lk: "sp_pc pr = Writing lk" by blast
      have step: "end_write now k good p pr db = (?pr \<lparr> sp_pc := Releasing lk Threw \<rparr>, db)" using False k lk by (simp add: end_write_def Let_def)
      have "lock_call_ok p now db (?pr \<lparr> sp_pc := Releasing lk Threw \<rparr>)" using ok lk by (simp add: lock_call_ok_def)
      then show ?thesis unfolding step
        by (rule kept_same_db [OF last]) (simp_all add: may_change_def has_changed_def)
    next
      case False': False
      then have step: "end_write now k good p pr db = (?pr, db)" using False k by (cases "sp_pc pr") (simp_all add: end_write_def Let_def)
      show ?thesis unfolding step using call change by (intro kept_same_db [OF last]) simp_all
    qed
  qed
qed

lemma kept_write:
  assumes last: "sessions_last p T db" "T < now + SESSION_TTL_MS" and ok: "lock_call_ok p now db pr"
    and orderly: "k < length (sp_writes pr) \<longrightarrow>
          (case sp_writes pr ! k of
             Write_session s \<Rightarrow> (case sp_pc pr of Writing lk \<Rightarrow> now < lock_expiresAt lk | _ \<Rightarrow> False)
           | Write_index s \<Rightarrow> good \<or> list_all (\<lambda>write. case write of Write_session s \<Rightarrow> False | Write_index s \<Rightarrow> True) (sp_writes pr))"
  shows "kept p T now (good \<and> k < length (sp_writes pr) \<and> (case sp_writes pr ! k of Write_session s \<Rightarrow> True | Write_index s \<Rightarrow> False)) pr db
    (end_write now k good p pr db)"
proof (cases "k < length (sp_writes pr)")
  case False
  then have "end_write now k good p pr db = (pr, db)" by (simp add: end_write_def)
  with False show ?thesis using last ok by (auto intro!: kept_same_db)
next
  case True
  show ?thesis
  proof (cases "sp_writes pr ! k")
    case (Write_session s)
    with True orderly obtain lk where "sp_pc pr = Writing lk" "now < lock_expiresAt lk" by (auto split: session_pc.splits)
    from kept_session_write [OF last ok True Write_session this] True Write_session show ?thesis by simp
  next
    case (Write_index s)
    with True orderly have "good \<or> (\<forall>s. Write_session s \<notin> set (sp_writes pr))" by (force simp: list_all_iff)
    from kept_index_write [OF last(1) ok True Write_index this] Write_index show ?thesis by simp
  qed
qed

section \<open>All calls\<close>

lemma replay_snoc: "replay sid (changes @ [(i, k, op)]) s = (if k = sid then apply_op op (replay sid changes s) else replay sid changes s)"
  by (simp add: replay_def)

lemma earlier_entry: "xs @ (if c then [z] else []) = as @ y # bs \<Longrightarrow> \<not> (c \<and> bs = []) \<Longrightarrow> \<exists>bs'. xs = as @ y # bs'"
  by (cases c; cases bs rule: rev_cases) auto

lemma with_call_inv:
  assumes inv: "world_inv p T db0 w" and i: "i < length (sw_calls w)"
    and kept: "kept p T (sw_now w) changed (sw_calls w ! i) (sw_db w) r"
  shows "world_inv p T db0 (with_call i changed r w)"
proof -
  let ?pr = "sw_calls w ! i"
  let ?calls = "(sw_calls w)[i := fst r]"
  let ?log = "sw_log w @ (if changed then [(i, sp_session ?pr, sp_op ?pr)] else [])"
  have uuids: "map sp_uuid ?calls = map sp_uuid (sw_calls w)"
    using kept i by (simp add: kept_def map_update list_update_same_conv)
  have calls_ok: "lock_call_ok p (sw_now w) (snd r) pr" if "pr \<in> set ?calls" for pr
  proof -
    from that obtain j where j: "j < length (sw_calls w)" "pr = ?calls ! j" by (auto simp: in_set_conv_nth)
    show ?thesis
    proof (cases "j = i")
      case True
      with j i kept show ?thesis by (simp add: kept_def)
    next
      case False
      then have "sp_uuid (sw_calls w ! j) \<noteq> sp_uuid ?pr"
        using inv i j(1) unfolding world_inv_def by (auto simp: distinct_conv_nth)
      moreover have "lock_call_ok p (sw_now w) (sw_db w) (sw_calls w ! j)" using inv j(1) by (simp add: world_inv_def)
      ultimately show ?thesis using kept j False by (simp add: kept_def)
    qed
  qed
  have replayed: "session_at p (snd r) sid = replay sid ?log (session_at p db0 sid)" for sid
    using kept inv by (simp add: kept_def world_inv_def replay_snoc)
  have "changed \<Longrightarrow> i \<notin> fst ` set (sw_log w)"
    using kept inv by (auto simp: kept_def world_inv_def)
  then have once: "distinct (map fst ?log)" using inv by (auto simp: world_inv_def)
  have spent: "\<forall>j \<in> fst ` set ?log. j < length ?calls \<and> \<not> may_change (?calls ! j)"
  proof
    fix j assume "j \<in> fst ` set ?log"
    then consider "changed" "j = i" | "j \<in> fst ` set (sw_log w)" "j \<noteq> i" | "j \<in> fst ` set (sw_log w)" "j = i" "\<not> changed" by (auto split: if_splits)
    then show "j < length ?calls \<and> \<not> may_change (?calls ! j)"
      by cases (use kept inv i in \<open>auto simp: kept_def world_inv_def\<close>)
  qed
  have logged: "\<forall>j < length ?calls. has_changed (?calls ! j) \<longrightarrow> j \<in> fst ` set ?log"
  proof (intro allI impI)
    fix j assume j: "j < length ?calls" "has_changed (?calls ! j)"
    show "j \<in> fst ` set ?log"
    proof (cases "j = i")
      case True
      show ?thesis
      proof (cases changed)
        case False
        with kept j True i have "has_changed ?pr" by (simp add: kept_def)
        with inv i True have "j \<in> fst ` set (sw_log w)" by (simp add: world_inv_def)
        then show ?thesis by (simp only: set_append image_Un UnI1)
      qed (simp add: True)
    next
      case False
      with j have "has_changed (sw_calls w ! j)" by simp
      with inv j(1) have "j \<in> fst ` set (sw_log w)" by (simp add: world_inv_def)
      then show ?thesis by (simp only: set_append image_Un UnI1)
    qed
  qed
  have seen: "changes_seen p db0 (with_call i changed r w)"
    unfolding changes_seen_def
  proof (intro allI impI)
    fix as j sid op bs assume "sw_log (with_call i changed r w) = as @ (j, sid, op) # bs"
    then have log: "?log = as @ (j, sid, op) # bs" by (simp add: with_call_def)
    show "sp_session (sw_calls (with_call i changed r w) ! j) = sid \<and> sp_op (sw_calls (with_call i changed r w) ! j) = op
        \<and> sp_current (sw_calls (with_call i changed r w) ! j) = replay sid as (session_at p db0 sid)"
    proof (cases "changed \<and> bs = []")
      case True
      then have new: "as = sw_log w" "j = i" "sid = sp_session ?pr" "op = sp_op ?pr" using log by auto
      have "sp_current ?pr = replay sid as (session_at p db0 sid)" using kept True inv new by (simp add: kept_def world_inv_def)
      then show ?thesis using kept True new i by (simp add: kept_def with_call_def)
    next
      case False
      obtain bs' where old: "sw_log w = as @ (j, sid, op) # bs'"
        using earlier_entry [OF log] False that by (cases changed) auto
      then have before: "sp_session (sw_calls w ! j) = sid \<and> sp_op (sw_calls w ! j) = op
          \<and> sp_current (sw_calls w ! j) = replay sid as (session_at p db0 sid)"
        using inv unfolding world_inv_def changes_seen_def by blast
      have "j \<in> fst ` set (sw_log w)" using old by force
      then have "\<not> may_change (sw_calls w ! j)" using inv unfolding world_inv_def by blast
      then show ?thesis using before kept i by (cases "j = i") (simp_all add: kept_def with_call_def)
    qed
  qed
  have w: "sw_calls (with_call i changed r w) = ?calls" "sw_log (with_call i changed r w) = ?log" "sw_db (with_call i changed r w) = snd r"
    "sw_now (with_call i changed r w) = sw_now w"
    by (simp_all add: with_call_def)
  have "distinct (map sp_uuid ?calls)" "sessions_last p T (snd r)"
    using inv kept unfolding uuids by (simp_all add: world_inv_def kept_def)
  then show ?thesis
    unfolding world_inv_def w using calls_ok replayed once spent logged seen by blast
qed

lemma changes_seen_call:
  assumes "changes_seen p db0 w" "\<forall>i \<in> fst ` set (sw_log w). i < length (sw_calls w)"
  shows "changes_seen p db0 (w \<lparr> sw_calls := sw_calls w @ [pr] \<rparr>)"
proof -
  have "i < length (sw_calls w)" if "sw_log w = as @ (i, sid, op) # bs" for as i sid op bs using assms(2) that by auto
  then show ?thesis using assms(1) by (auto simp: changes_seen_def nth_append)
qed

lemma session_step_inv:
  assumes inv: "world_inv p T db0 w" and orderly: "orderly_event e w"
    and time: "sw_now w \<le> T" "T < sw_now w + SESSION_TTL_MS"
  shows "world_inv p T db0 (session_step p e w)"
proof (cases e)
  case (Call_session sid op uuid)
  have new: "lock_call_ok p now db (start_process n sid op uuid)" "\<not> has_changed (start_process n sid op uuid)" for now db n
    by (simp_all add: start_process_def lock_call_ok_def has_changed_def)
  show ?thesis using inv orderly Call_session new
    by (auto simp: world_inv_def nth_append start_process_def less_Suc_eq changes_seen_call)
next
  case (Advance i ok)
  then have i: "i < length (sw_calls w)" using orderly by simp
  have last: "sessions_last p T (sw_db w)" and call: "lock_call_ok p (sw_now w) (sw_db w) (sw_calls w ! i)"
    using inv i by (simp_all add: world_inv_def)
  have "changes_session (Advance i ok) w = (ok \<and> (case sp_pc (sw_calls w ! i) of Deleting lk s \<Rightarrow> True | _ \<Rightarrow> False))"
    using i by simp
  with kept_advance [OF last time(1) call, of ok] orderly Advance
  have "kept p T (sw_now w) (changes_session (Advance i ok) w) (sw_calls w ! i) (sw_db w)
      (session_advance (sw_now w) ok p (sw_calls w ! i) (sw_db w))" by simp
  from with_call_inv [OF inv i this] show ?thesis using i Advance by simp
next
  case (End_write i k ok)
  then have i: "i < length (sw_calls w)" using orderly by simp
  have last: "sessions_last p T (sw_db w)" and call: "lock_call_ok p (sw_now w) (sw_db w) (sw_calls w ! i)"
    using inv i by (simp_all add: world_inv_def)
  have changed: "changes_session (End_write i k ok) w = (ok \<and> k < length (sp_writes (sw_calls w ! i))
      \<and> (case sp_writes (sw_calls w ! i) ! k of Write_session s \<Rightarrow> True | Write_index s \<Rightarrow> False))" using i by simp
  have "kept p T (sw_now w) (changes_session (End_write i k ok) w) (sw_calls w ! i) (sw_db w)
      (end_write (sw_now w) k ok p (sw_calls w ! i) (sw_db w))"
    unfolding changed by (rule kept_write [OF last time(2) call]) (use orderly End_write in simp)
  from with_call_inv [OF inv i this] show ?thesis using i End_write by simp
next
  case (Pass d)
  then show ?thesis using inv orderly by (auto simp: world_inv_def changes_seen_def intro: lock_call_ok_later)
qed

lemma with_call_now [simp]: "sw_now (with_call i c r w) = sw_now w"
  by (simp add: with_call_def)

lemma session_step_now: "orderly_event e w \<Longrightarrow> sw_now w \<le> sw_now (session_step p e w)"
  by (cases e) auto

lemma session_run_Cons [simp]: "session_run p (e # es) w = session_run p es (session_step p e w)" "session_run p [] w = w"
  by (simp_all add: session_run_def)

text \<open>A call keeps its session and its operation.\<close>

lemma advance_op [simp]:
  "sp_session (fst (session_advance now good p pr db)) = sp_session pr" "sp_op (fst (session_advance now good p pr db)) = sp_op pr"
  "sp_session (fst (end_write now k good p pr db)) = sp_session pr" "sp_op (fst (end_write now k good p pr db)) = sp_op pr"
  by (auto simp: session_advance_def end_write_def Let_def case_prod_beta split: session_pc.split session_op.split option.split)

lemma run_calls:
  "map (\<lambda>pr. (sp_session pr, sp_op pr)) (sw_calls (session_run p es w))
   = map (\<lambda>pr. (sp_session pr, sp_op pr)) (sw_calls w)
     @ List.map_filter (\<lambda>e. case e of Call_session sid op uuid \<Rightarrow> Some (sid, op) | _ \<Rightarrow> None) es"
proof (induction es arbitrary: w)
  case (Cons e es)
  show ?case unfolding session_run_Cons Cons.IH
    by (cases e) (simp_all add: List.map_filter_def with_call_def start_process_def map_update list_update_same_conv)
qed (simp add: List.map_filter_def)

lemma session_run_now: "orderly p es w \<Longrightarrow> sw_now w \<le> sw_now (session_run p es w)"
proof (induction es arbitrary: w)
  case (Cons e es)
  then show ?case using session_step_now [of e w p] by (auto intro: order_trans)
qed simp

lemma session_run_inv:
  "world_inv p T db0 w \<Longrightarrow> orderly p es w \<Longrightarrow> sw_now (session_run p es w) \<le> T \<Longrightarrow> T < sw_now w + SESSION_TTL_MS \<Longrightarrow>
     world_inv p T db0 (session_run p es w)"
proof (induction es arbitrary: w)
  case (Cons e es)
  let ?w = "session_step p e w"
  have step: "orderly_event e w" "orderly p es ?w" using Cons.prems(2) by simp_all
  have now: "sw_now w \<le> sw_now ?w" "sw_now ?w \<le> T"
    using session_step_now [OF step(1), of p] session_run_now [OF step(2)] Cons.prems(3) by simp_all
  then have "world_inv p T db0 ?w" using session_step_inv [OF Cons.prems(1) step(1)] Cons.prems(4) by simp
  with Cons.IH [OF this step(2)] Cons.prems(3,4) now show ?case by simp
qed simp

lemma serial_run:
  assumes "sw_calls w = []" "sw_log w = []" "orderly p es w"
    and "sessions_last p (sw_now (session_run p es w)) (sw_db w)"
    and "sw_now (session_run p es w) < sw_now w + SESSION_TTL_MS"
  defines "w' \<equiv> session_run p es w"
  shows "session_at p (sw_db w') sid = replay sid (sw_log w') (session_at p (sw_db w) sid) \<and> changes_seen p (sw_db w) w'
    \<and> distinct (map fst (sw_log w'))
    \<and> (\<forall>i < length (sw_calls w'). sp_pc (sw_calls w' ! i) = Finished (Returned True) \<longrightarrow> i \<in> fst ` set (sw_log w'))"
proof -
  have "world_inv p (sw_now (session_run p es w)) (sw_db w) w"
    using assms(1,2,4) by (simp add: world_inv_def replay_def changes_seen_def)
  from session_run_inv [OF this assms(3) order.refl assms(5)] show ?thesis
    by (auto simp: world_inv_def has_changed_def w'_def)
qed

lemma serial_run_calls:
  assumes "sw_calls w = []" "sw_log w = []" "orderly p es w"
    and "sessions_last p (sw_now (session_run p es w)) (sw_db w)"
    and "sw_now (session_run p es w) < sw_now w + SESSION_TTL_MS"
  shows "\<forall>i \<in> fst ` set (sw_log (session_run p es w)). i < length (sw_calls (session_run p es w))"
proof -
  have "world_inv p (sw_now (session_run p es w)) (sw_db w) w"
    using assms(1,2,4) by (simp add: world_inv_def replay_def changes_seen_def)
  from session_run_inv [OF this assms(3) order.refl assms(5)] show ?thesis unfolding world_inv_def by blast
qed

text \<open>
  C10: Concurrent updates and deletions of sessions, by any number of gateways, take effect one after the other:
  a session is what its changes make of it in the order in which they happened, every change was computed from the session
  its predecessors left, every call changes its session at most once, and a call that reports success has changed it (or
  deleted it). The conditions: every write or deletion of a session ends or fails before the lease of its call runs out, the
  write of the index beside it does not fail while the session's is pending (that failure releases the lock), a statement
  that fails has no effect, tokens differ, and no session expires on the way.
\<close>

theorem session_updates_serialize:
  assumes "sw_calls w = []" "sw_log w = []" "orderly p es w"
    and "sessions_last p (sw_now (session_run p es w)) (sw_db w)"
    and "sw_now (session_run p es w) < sw_now w + SESSION_TTL_MS"
  shows "session_at p (sw_db (session_run p es w)) sid
      = replay sid (sw_log (session_run p es w)) (session_at p (sw_db w) sid)
    \<and> changes_seen p (sw_db w) (session_run p es w)
    \<and> distinct (map fst (sw_log (session_run p es w)))
    \<and> (\<forall>i < length (sw_calls (session_run p es w)).
         sp_pc (sw_calls (session_run p es w) ! i) = Finished (Returned True) \<longrightarrow> i \<in> fst ` set (sw_log (session_run p es w)))"
  using serial_run [OF assms] by blast

definition sample_session :: thread_session where
  "sample_session = \<lparr> ts_conversationId = ''t'', ts_channelId = ''C'', ts_userId = ''u'', ts_threadCreator = Some ''u'',
     ts_lastActivity = 0, ts_createdAt = 0, ts_status = None, ts_agentId = None, ts_organizationId = None, ts_settings = [],
     ts_courseContext = None, ts_pendingSelection = None \<rparr>"

definition set_running :: "thread_session \<Rightarrow> thread_session" where
  "set_running s = s \<lparr> ts_status := Some ''running'' \<rparr>"

definition set_activity :: "ms \<Rightarrow> thread_session \<Rightarrow> thread_session" where
  "set_activity t s = s \<lparr> ts_lastActivity := t \<rparr>"

definition sample_world :: session_world where
  "sample_world = \<lparr> sw_now = 0, sw_db = setSession 0 ''C:t'' sample_session ''p'' empty_db, sw_calls = [], sw_log = [] \<rparr>"

text \<open>Two gateways update one session; the second finds it locked and comes again.\<close>

definition sample_interleaving :: "session_event list" where
  "sample_interleaving =
     [Call_session ''C:t'' (Mutate set_running) ''1'', Call_session ''C:t'' (Mutate (set_activity 7)) ''2'',
      Advance 0 True, Advance 1 True, Advance 0 True, End_write 0 1 True, End_write 0 0 True, Advance 0 True, Advance 0 True,
      Pass 25, Advance 1 True, Advance 1 True, Advance 1 True, End_write 1 0 True, End_write 1 0 True, Advance 1 True, Advance 1 True]"

lemma session_updates_serialize_witness:
  "(let w = session_run ''p'' sample_interleaving sample_world in
     session_at ''p'' (sw_db w) ''C:t'' = replay ''C:t'' (sw_log w) (Some sample_session)
     \<and> map fst (sw_log w) = [0, 1] \<and> session_at ''p'' (sw_db w) ''C:t'' = Some (set_activity 7 (set_running sample_session)))"
proof -
  let ?w = "session_run ''p'' sample_interleaving sample_world"
  have now: "sw_now ?w = 25" by code_simp
  have "orderly ''p'' sample_interleaving sample_world" by code_simp
  moreover have "sessions_last ''p'' (sw_now ?w) (sw_db sample_world)"
    unfolding now by (auto simp: sessions_last_def sample_world_def setSession_def set_key_def empty_db_def jm_get_set
        not_expired_def expiry_def SESSION_TTL_MS_def split: if_splits)
  moreover have "sw_calls sample_world = []" "sw_log sample_world = []" "sw_now sample_world = 0" by (simp_all add: sample_world_def)
  ultimately have "session_at ''p'' (sw_db ?w) ''C:t'' = replay ''C:t'' (sw_log ?w) (session_at ''p'' (sw_db sample_world) ''C:t'')"
    using session_updates_serialize [of sample_world "''p''" sample_interleaving "''C:t''"] now by (simp add: SESSION_TTL_MS_def)
  moreover have "session_at ''p'' (sw_db sample_world) ''C:t'' = Some sample_session"
    by (simp add: sample_world_def setSession_def)
  moreover have "map fst (sw_log ?w) = [0, 1]" by code_simp
  moreover have "session_at ''p'' (sw_db ?w) ''C:t'' = Some (set_activity 7 (set_running sample_session))" by code_simp
  ultimately show ?thesis by (simp only: Let_def simp_thms)
qed

text \<open>
  The lease is needed: a call that stalls after reading until its lease has run out writes what it had read, and
  the change made in between is lost.
\<close>

definition stalled_trace :: "session_event list" where
  "stalled_trace =
     [Call_session ''C:t'' (Mutate set_running) ''1'', Advance 0 True, Advance 0 True, Pass 30000,
      Call_session ''C:t'' (Mutate (set_activity 7)) ''2'', Advance 1 True, Advance 1 True, End_write 1 0 True, End_write 1 0 True,
      Advance 1 True, Advance 1 True, End_write 0 0 True]"

lemma stalled_call_loses_update:
  "(let w = session_run ''p'' stalled_trace sample_world in
    sp_pc (sw_calls w ! 1) = Finished (Returned True)
    \<and> map_option ts_lastActivity (session_at ''p'' (sw_db w) ''C:t'') = Some 0)"
  by code_simp

text \<open>So is the other condition: the write of the index that fails first releases the lock, and the write of the session comes late.\<close>

definition failed_index_trace :: "session_event list" where
  "failed_index_trace =
     [Call_session ''C:t'' (Mutate set_running) ''1'', Advance 0 True, Advance 0 True, End_write 0 1 False, Advance 0 True,
      Call_session ''C:t'' (Mutate (set_activity 7)) ''2'', Advance 1 True, Advance 1 True, End_write 1 0 True, End_write 1 0 True,
      Advance 1 True, Advance 1 True, End_write 0 0 True]"

lemma failed_index_loses_update:
  "(let w = session_run ''p'' failed_index_trace sample_world in
    sp_pc (sw_calls w ! 1) = Finished (Returned True) \<and> sw_now w = 0
    \<and> map_option ts_lastActivity (session_at ''p'' (sw_db w) ''C:t'') = Some 0)"
  by code_simp

end
