(* ===== verification/Chat_History.thy ===== *)
theory Chat_History
  imports Conversation_State
begin

text \<open>
  The history of a chat channel: the rest of \<^verbatim>\<open>server/src/gateway/connections/conversation-state-store.ts\<close>.
  The entries are a list of the state tables, the channels that have some an object in the cache, updated
  under a lock that is asked for three times. Each operation is taken as one step, made at the
  time \<open>now\<close>; \<open>attempts\<close> are the times at which the lock is asked for.
\<close>

section \<open>Operations\<close>

definition getEntries :: "ms \<Rightarrow> string \<Rightarrow> string \<Rightarrow> string \<Rightarrow> chat_db \<Rightarrow> history_entry list" where
  "getEntries now connectionId channelId p db = getList now (historyKey connectionId channelId) p db"

definition history_message :: "history_entry \<Rightarrow> string \<times> string \<times> string option" where
  "history_message e = (he_role e, he_content e, he_authorName e)"

definition getHistory :: "ms \<Rightarrow> string \<Rightarrow> string \<Rightarrow> string \<Rightarrow> chat_db \<Rightarrow> (string \<times> string \<times> string option) list" where
  "getHistory now connectionId channelId p db =
     map history_message (newest MAX_HISTORY_MESSAGES (getEntries now connectionId channelId p db))"

definition hasHistory :: "ms \<Rightarrow> string \<Rightarrow> string \<Rightarrow> string \<Rightarrow> chat_db \<Rightarrow> bool" where
  "hasHistory now connectionId channelId p db \<longleftrightarrow> getEntries now connectionId channelId p db \<noteq> []"

fun ask_lock :: "ms list \<Rightarrow> string \<Rightarrow> string \<Rightarrow> string \<Rightarrow> chat_db \<Rightarrow> lock option \<times> chat_db" where
  "ask_lock [] uuid lockId p db = (None, db)"
| "ask_lock (t # ts) uuid lockId p db =
     (let (l, db) = acquireLock t t uuid lockId HISTORY_INDEX_LOCK_TTL_MS p db in
      case l of Some lk \<Rightarrow> (Some lk, db) | None \<Rightarrow> ask_lock ts uuid lockId p db)"

text \<open>If the lock cannot be had the index is written all the same.\<close>

definition updateHistoryIndex ::
    "ms list \<Rightarrow> string \<Rightarrow> ms \<Rightarrow> string \<Rightarrow> ((string, ms) jmap \<Rightarrow> (string, ms) jmap) \<Rightarrow> string \<Rightarrow> chat_db \<Rightarrow> chat_db" where
  "updateHistoryIndex attempts uuid now connectionId update p db =
     (let (l, db) = ask_lock (take 3 attempts) uuid (''lock:'' @ historyIndexKey connectionId) p db;
          (v, db) = get_key now (historyIndexKey connectionId) p db;
          index = update (as_history_index v);
          db = (if index = [] then delete_key (historyIndexKey connectionId) p db
             else set_key now (historyIndexKey connectionId) (History_index index) (Some HISTORY_TTL_MS) p db) in
      case l of Some lk \<Rightarrow> releaseLock lk p db | None \<Rightarrow> db)"

definition trackHistoryChannel :: "ms list \<Rightarrow> string \<Rightarrow> ms \<Rightarrow> string \<Rightarrow> string \<Rightarrow> string \<Rightarrow> chat_db \<Rightarrow> chat_db" where
  "trackHistoryChannel attempts uuid now connectionId channelId =
     updateHistoryIndex attempts uuid now connectionId (AList.update channelId now)"

definition removeHistoryChannel :: "ms list \<Rightarrow> string \<Rightarrow> ms \<Rightarrow> string \<Rightarrow> string \<Rightarrow> string \<Rightarrow> chat_db \<Rightarrow> chat_db" where
  "removeHistoryChannel attempts uuid now connectionId channelId =
     updateHistoryIndex attempts uuid now connectionId (AList.delete channelId)"

definition appendHistory ::
    "ms list \<Rightarrow> string \<Rightarrow> ms \<Rightarrow> string \<Rightarrow> string \<Rightarrow> history_entry \<Rightarrow> string \<Rightarrow> chat_db \<Rightarrow> chat_db" where
  "appendHistory attempts uuid now connectionId channelId entry p db =
     appendToList now (historyKey connectionId channelId) entry (Some MAX_HISTORY_MESSAGES) (Some HISTORY_TTL_MS) p
       (trackHistoryChannel attempts uuid now connectionId channelId p db)"

definition clearHistory :: "ms list \<Rightarrow> string \<Rightarrow> ms \<Rightarrow> string \<Rightarrow> string \<Rightarrow> string \<Rightarrow> chat_db \<Rightarrow> chat_db" where
  "clearHistory attempts uuid now connectionId channelId p db =
     removeHistoryChannel attempts uuid now connectionId channelId p
       (delete_key (historyKey connectionId channelId) p db)"

definition listHistoryChannels :: "ms \<Rightarrow> string \<Rightarrow> string \<Rightarrow> chat_db \<Rightarrow> string list \<times> chat_db" where
  "listHistoryChannels now connectionId p db =
     (let (v, db) = get_key now (historyIndexKey connectionId) p db in (map fst (as_history_index v), db))"

definition clearAllHistory :: "ms \<Rightarrow> string \<Rightarrow> string \<Rightarrow> chat_db \<Rightarrow> nat \<times> chat_db" where
  "clearAllHistory now connectionId p db =
     (let (channels, db) = listHistoryChannels now connectionId p db in
      (length channels,
       delete_key (historyIndexKey connectionId) p
         (fold (\<lambda>ch. delete_key (historyKey connectionId ch) p) channels db)))"

definition claimThreadBackfill :: "ms \<Rightarrow> string \<Rightarrow> string \<Rightarrow> string \<Rightarrow> chat_db \<Rightarrow> bool \<times> chat_db" where
  "claimThreadBackfill now connectionId threadId =
     setIfNotExists now (threadBackfillKey connectionId threadId) Backfilled (Some HISTORY_TTL_MS)"

definition releaseThreadBackfill :: "string \<Rightarrow> string \<Rightarrow> string \<Rightarrow> chat_db \<Rightarrow> chat_db" where
  "releaseThreadBackfill connectionId threadId = delete_key (threadBackfillKey connectionId threadId)"

section \<open>What the history is\<close>

datatype history_op =
    Append_entry string string history_entry
  | Clear_channel string string
  | Clear_connection string
  | Claim_backfill string string
  | Release_backfill string string

fun history_step :: "ms list \<times> string \<times> ms \<Rightarrow> history_op \<Rightarrow> string \<Rightarrow> chat_db \<Rightarrow> chat_db" where
  "history_step (attempts, uuid, now) (Append_entry c ch e) p db = appendHistory attempts uuid now c ch e p db"
| "history_step (attempts, uuid, now) (Clear_channel c ch) p db = clearHistory attempts uuid now c ch p db"
| "history_step (attempts, uuid, now) (Clear_connection c) p db = snd (clearAllHistory now c p db)"
| "history_step (attempts, uuid, now) (Claim_backfill c t) p db = snd (claimThreadBackfill now c t p db)"
| "history_step (attempts, uuid, now) (Release_backfill c t) p db = releaseThreadBackfill c t p db"

definition history_run :: "string \<Rightarrow> ((ms list \<times> string \<times> ms) \<times> history_op) list \<Rightarrow> chat_db \<Rightarrow> chat_db" where
  "history_run p ops db = foldl (\<lambda>db (at_time, op). history_step at_time op p db) db ops"

text \<open>What has been appended under a key, with the times.\<close>

fun appended :: "string \<Rightarrow> ((ms list \<times> string \<times> ms) \<times> history_op) list \<Rightarrow> (ms \<times> history_entry) list" where
  "appended key [] = []"
| "appended key (((attempts, uuid, now), Append_entry c ch e) # ops) =
     (if historyKey c ch = key then (now, e) # appended key ops else appended key ops)"
| "appended key (_ # ops) = appended key ops"

lemma ask_lock_window [simp]: "window p key vs e (snd (ask_lock ts uuid l p' db)) = window p key vs e db"
proof (induction ts arbitrary: db)
  case (Cons t ts)
  obtain l' db' where acq: "acquireLock t t uuid l HISTORY_INDEX_LOCK_TTL_MS p' db = (l', db')"
    by (cases "acquireLock t t uuid l HISTORY_INDEX_LOCK_TTL_MS p' db") simp
  have "window p key vs e db' = window p key vs e db"
    using window_ops(5) [of p key vs e t t uuid l HISTORY_INDEX_LOCK_TTL_MS p' db] acq by simp
  with acq Cons.IH [of db'] show ?case by (cases l') simp_all
qed simp

lemma index_window [simp]:
  "window p key vs e (updateHistoryIndex attempts uuid now c f p' db) = window p key vs e db"
proof -
  obtain l db1 where ask: "ask_lock (take 3 attempts) uuid (''lock:'' @ historyIndexKey c) p' db = (l, db1)"
    by (cases "ask_lock (take 3 attempts) uuid (''lock:'' @ historyIndexKey c) p' db")
  obtain v db2 where get: "get_key now (historyIndexKey c) p' db1 = (v, db2)" by (cases "get_key now (historyIndexKey c) p' db1")
  have "window p key vs e db1 = window p key vs e db"
    using ask_lock_window ask by (metis snd_conv)
  moreover have "window p key vs e db2 = window p key vs e db1"
    using window_ops(3) [of p key vs e now "historyIndexKey c" p' db1] get by simp
  ultimately show ?thesis using ask get
    by (cases l) (simp_all add: updateHistoryIndex_def Let_def)
qed

lemma fold_delete_window: "window p key vs e (fold (\<lambda>ch. delete_key (f ch) p') chs db) = window p key vs e db"
  by (induction chs arbitrary: db) simp_all

lemma clear_window [simp]:
  "window p key vs e (clearHistory attempts uuid now c ch p' db) = window p key vs e db"
  "window p key vs e (snd (clearAllHistory now c p' db)) = window p key vs e db"
proof -
  obtain v db' where get: "get_key now (historyIndexKey c) p' db = (v, db')" by (cases "get_key now (historyIndexKey c) p' db")
  have "window p key vs e db' = window p key vs e db"
    using window_ops(3) [of p key vs e now "historyIndexKey c" p' db] get by simp
  with get show "window p key vs e (snd (clearAllHistory now c p' db)) = window p key vs e db"
    by (simp add: clearAllHistory_def listHistoryChannels_def fold_delete_window)
qed (simp add: clearHistory_def removeHistoryChannel_def)

text \<open>The expiry a list has after some appends.\<close>

definition list_expiry :: "(ms \<times> 'e) list \<Rightarrow> ms option" where
  "list_expiry es = (if es = [] then None else Some (fst (last es) + HISTORY_TTL_MS))"

lemma history_step_window:
  assumes "window p key (newest MAX_HISTORY_MESSAGES (map snd es)) (list_expiry es) db"
  shows "window p key (newest MAX_HISTORY_MESSAGES (map snd (es @ appended key [(t, op)])))
    (list_expiry (es @ appended key [(t, op)])) (history_step t op p db)"
proof -
  obtain attempts uuid now where t: "t = (attempts, uuid, now)" by (cases t)
  show ?thesis
  proof (cases op)
    case (Append_entry c ch e)
    have "window p key (newest MAX_HISTORY_MESSAGES (map snd es)) (list_expiry es) (trackHistoryChannel attempts uuid now c ch p db)"
      using assms by (simp add: trackHistoryChannel_def)
    from append_window [OF this, of MAX_HISTORY_MESSAGES HISTORY_TTL_MS p "historyKey c ch" e now]
    show ?thesis
      by (simp add: Append_entry t appendHistory_def MAX_HISTORY_MESSAGES_def HISTORY_TTL_MS_def list_expiry_def newest_snoc eq_commute
          split: if_splits)
  qed (use assms t in \<open>simp_all add: claimThreadBackfill_def releaseThreadBackfill_def\<close>)
qed

lemma appended_append: "appended key (xs @ ys) = appended key xs @ appended key ys"
  by (induction xs rule: appended.induct) simp_all

lemma history_run_window:
  "window p key (newest MAX_HISTORY_MESSAGES (map snd (appended key ops))) (list_expiry (appended key ops)) (history_run p ops empty_db)"
proof (induction ops rule: rev_induct)
  case Nil
  then show ?case by (simp add: history_run_def window_def empty_db_def in_sequence_def)
next
  case (snoc x ops)
  obtain t op where x: "x = (t, op)" by (cases x)
  have "history_run p (ops @ [x]) empty_db = history_step t op p (history_run p ops empty_db)"
    by (simp add: history_run_def x)
  with history_step_window [OF snoc.IH, of t op] show ?case by (simp only: x appended_append)
qed

lemma history_window:
  "getHistory now c ch p (history_run p ops empty_db) =
     (let es = appended (historyKey c ch) ops in
      if es \<noteq> [] \<and> now < fst (last es) + HISTORY_TTL_MS
      then map history_message (newest MAX_HISTORY_MESSAGES (map snd es)) else [])"
proof -
  have twice: "newest n (newest n xs) = newest n xs" for n and xs :: "'b list" by (simp add: newest_def)
  show ?thesis
    unfolding getHistory_def getEntries_def window_getList [OF history_run_window]
    by (simp add: Let_def list_expiry_def not_expired_def twice)
qed

fun clears :: "string \<Rightarrow> string \<Rightarrow> history_op \<Rightarrow> bool" where
  "clears c ch (Clear_channel c' ch') = (c' = c \<and> ch' = ch)"
| "clears c ch (Clear_connection c') = (c' = c)"
| "clears c ch _ = False"


definition sample_entry :: "string \<Rightarrow> history_entry" where
  "sample_entry c = \<lparr> he_role = ''user'', he_content = c, he_authorName = None, he_timestamp = 0 \<rparr>"

definition sample_history :: "((ms list \<times> string \<times> ms) \<times> history_op) list" where
  "sample_history = [(([0], ''1'', 0), Append_entry ''c'' ''ch'' (sample_entry ''a'')), (([1], ''2'', 1), Append_entry ''c'' ''other'' (sample_entry ''x'')),
     (([2], ''3'', 2), Clear_channel ''c'' ''other''), (([3], ''4'', 3), Append_entry ''c'' ''ch'' (sample_entry ''b''))]"


section \<open>Clearing does not clear\<close>

text \<open>
  The entries are in the table of the lists; clearing deletes the key from the cache table, where it never
  is. An entry that has expired is not deleted and gets the new expiry with the next append. A marker
  that has expired still counts as present.
\<close>

lemma cleared_history_remains:
  "getHistory 2 ''c'' ''ch'' ''p'' (history_run ''p''
     [(([0], ''1'', 0), Append_entry ''c'' ''ch'' (sample_entry ''secret'')), (([1], ''2'', 1), Clear_channel ''c'' ''ch'')] empty_db)
   = [(''user'', ''secret'', None)]"
  by code_simp

lemma cleared_connection_remains:
  "getHistory 2 ''c'' ''ch'' ''p'' (history_run ''p''
     [(([0], ''1'', 0), Append_entry ''c'' ''ch'' (sample_entry ''secret'')), (([1], ''2'', 1), Clear_connection ''c'')] empty_db)
   = [(''user'', ''secret'', None)]"
  by code_simp

lemma expired_history_returns:
  "(let old = history_run ''p'' [(([0], ''1'', 0), Append_entry ''c'' ''ch'' (sample_entry ''old''))] empty_db;
        new = history_run ''p'' [(([90000000], ''2'', 90000000), Append_entry ''c'' ''ch'' (sample_entry ''new''))] old in
    getHistory 90000000 ''c'' ''ch'' ''p'' old = []
    \<and> getHistory 90000000 ''c'' ''ch'' ''p'' new = [(''user'', ''old'', None), (''user'', ''new'', None)])"
  by code_simp

lemma expired_marker_blocks:
  "(let (first, db) = claimThreadBackfill 0 ''c'' ''t'' ''p'' empty_db;
        (later, db) = claimThreadBackfill 90000000 ''c'' ''t'' ''p'' db in first \<and> \<not> later)"
  by code_simp

end
