(* ===== verification/Session_Manager.thy ===== *)
theory Session_Manager
  imports Conversation_State
begin

text \<open>
  The session manager: \<^verbatim>\<open>server/src/gateway/services/session-manager.ts\<close>. Its updates are functions from a
  session to the new session, which the calls under the lock of \<open>Conversation_State\<close> read, compute and write;
  \<open>None\<close> as the result of a store operation stands for its throwing.
\<close>

section \<open>Creating and looking up\<close>

definition createSession ::
    "ms \<Rightarrow> string \<Rightarrow> string \<Rightarrow> string option \<Rightarrow> string option \<Rightarrow> string \<Rightarrow> chat_db \<Rightarrow> thread_session \<times> chat_db" where
  "createSession now channelId userId conversationId threadCreator p db =
     (let effective = (if truthy conversationId then the conversationId else userId);
          session = \<lparr> ts_conversationId = effective, ts_channelId = channelId, ts_userId = userId,
            ts_threadCreator = Some (if truthy threadCreator then the threadCreator else userId), ts_lastActivity = now,
            ts_createdAt = now, ts_status = None, ts_agentId = None, ts_organizationId = None, ts_settings = [],
            ts_courseContext = None, ts_pendingSelection = None \<rparr> in
      (session, setSession now (computeSessionKey channelId effective) session p db))"

definition findSessionByThread :: "ms \<Rightarrow> string \<Rightarrow> string \<Rightarrow> string \<Rightarrow> chat_db \<Rightarrow> thread_session option" where
  "findSessionByThread now channelId threadTs p db = fst (getSessionByThread now channelId threadTs p db)"

text \<open>The answer: allowed, and the owner if one is known. A failing lookup counts as no session.\<close>

definition validateThreadOwnership :: "thread_session option \<Rightarrow> string \<Rightarrow> bool \<times> string option" where
  "validateThreadOwnership session userId =
     (case session of
        None \<Rightarrow> (True, None)
      | Some s \<Rightarrow>
          (if \<not> truthy (ts_threadCreator s) then (True, None)
           else (the (ts_threadCreator s) = userId, ts_threadCreator s)))"

section \<open>Updates\<close>

definition touchSession :: "ms \<Rightarrow> thread_session \<Rightarrow> thread_session" where
  "touchSession now s = s \<lparr> ts_lastActivity := now \<rparr>"

datatype binding_result = Persisted | Binding_write_failed

definition binding_answer :: "bool option \<Rightarrow> binding_result" where
  "binding_answer r = (if r = Some True then Persisted else Binding_write_failed)"

definition bindActiveCourse :: "course_binding \<Rightarrow> thread_session \<Rightarrow> thread_session" where
  "bindActiveCourse b s = s \<lparr> ts_courseContext := Some b \<rparr>"

definition clearActiveCourse :: "thread_session \<Rightarrow> thread_session" where
  "clearActiveCourse s = s \<lparr> ts_courseContext := None \<rparr>"

text \<open>The members of a selection that its creator gives.\<close>

definition createPendingCourseSelection ::
    "ms \<Rightarrow> string \<Rightarrow> string \<Rightarrow> string \<Rightarrow> (string \<times> string) list \<Rightarrow> string \<Rightarrow> ms \<Rightarrow> thread_session \<Rightarrow> thread_session" where
  "createPendingCourseSelection now uuid owner agent candidates originalMessage createdAt s =
     s \<lparr> ts_pendingSelection := Some \<lparr> cs_pendingId = uuid, cs_version = now, cs_status = Sel_pending, cs_ownerUserId = owner,
       cs_agentId = agent, cs_candidates = candidates, cs_originalMessage = originalMessage, cs_createdAt = createdAt,
       cs_claimedAt = None, cs_dispatchedAt = None, cs_claimedCourseKey = None, cs_claimedMessageId = None \<rparr> \<rparr>"

datatype selection_answer = Ans_persisted | Ans_claimed course_selection | Ans_conflict | Ans_cleared | Ans_stale | Ans_dispatched | Ans_failed

definition selection_matches :: "string \<Rightarrow> string \<Rightarrow> string \<Rightarrow> course_selection \<Rightarrow> bool" where
  "selection_matches pendingId owner agent c \<longleftrightarrow> cs_pendingId c = pendingId \<and> cs_ownerUserId c = owner \<and> cs_agentId c = agent"

text \<open>The update functions of the selection, each with the outcome it leaves behind.\<close>

definition claimPendingCourseSelection ::
    "ms \<Rightarrow> string \<Rightarrow> string \<Rightarrow> string \<Rightarrow> string \<Rightarrow> string \<Rightarrow> thread_session \<Rightarrow> thread_session \<times> selection_answer" where
  "claimPendingCourseSelection now pendingId owner agent courseKey messageId s =
     (case ts_pendingSelection s of
        None \<Rightarrow> (s, Ans_conflict)
      | Some c \<Rightarrow>
          (if \<not> selection_matches pendingId owner agent c then (s, Ans_conflict)
           else if cs_status c = Sel_claimed
           then (s, if cs_claimedCourseKey c = Some courseKey \<and> cs_claimedMessageId c = Some messageId then Ans_claimed c else Ans_conflict)
           else (let claimed = c \<lparr> cs_status := Sel_claimed, cs_claimedAt := Some now, cs_claimedCourseKey := Some courseKey,
                   cs_claimedMessageId := Some messageId \<rparr> in
             (s \<lparr> ts_pendingSelection := Some claimed \<rparr>, Ans_claimed claimed))))"

definition clearPendingCourseSelection ::
    "string \<Rightarrow> string \<Rightarrow> string \<Rightarrow> string option \<Rightarrow> thread_session \<Rightarrow> thread_session \<times> selection_answer" where
  "clearPendingCourseSelection pendingId owner agent messageId s =
     (case ts_pendingSelection s of
        None \<Rightarrow> (s, Ans_stale)
      | Some c \<Rightarrow>
          (if \<not> selection_matches pendingId owner agent c \<or> (truthy messageId \<and> cs_claimedMessageId c \<noteq> messageId) then (s, Ans_stale)
           else (s \<lparr> ts_pendingSelection := None \<rparr>, Ans_cleared)))"

definition markPendingCourseSelectionDispatched ::
    "ms \<Rightarrow> string \<Rightarrow> string \<Rightarrow> string \<Rightarrow> string \<Rightarrow> thread_session \<Rightarrow> thread_session \<times> selection_answer" where
  "markPendingCourseSelectionDispatched now pendingId owner agent messageId s =
     (case ts_pendingSelection s of
        None \<Rightarrow> (s, Ans_stale)
      | Some c \<Rightarrow>
          (if \<not> selection_matches pendingId owner agent c \<or> cs_claimedMessageId c \<noteq> Some messageId then (s, Ans_stale)
           else if cs_status c = Sel_dispatched then (s, Ans_dispatched)
           else if cs_status c \<noteq> Sel_claimed then (s, Ans_stale)
           else (s \<lparr> ts_pendingSelection := Some (c \<lparr> cs_status := Sel_dispatched, cs_dispatchedAt := Some now \<rparr>) \<rparr>, Ans_dispatched)))"

text \<open>What a call answers: the outcome its update left behind if \<^verbatim>\<open>mutate\<close> returns true, and a failure otherwise.\<close>

definition selection_result :: "(thread_session \<Rightarrow> thread_session \<times> selection_answer) \<Rightarrow> session_process \<Rightarrow> selection_answer option" where
  "selection_result update pr =
     (case sp_pc pr of
        Finished out \<Rightarrow> Some (if out = Returned True then (case sp_current pr of Some s \<Rightarrow> snd (update s) | None \<Rightarrow> Ans_failed) else Ans_failed)
      | _ \<Rightarrow> None)"

section \<open>A thread belongs to the user who created it\<close>

text \<open>
  A thread that has been created belongs to its creator while the session lasts: another user is refused, and is told the
  owner.
\<close>

theorem thread_belongs_to_creator:
  assumes "createSession now channelId userId conversationId creator p db = (session, db')"
    and "later < now + SESSION_TTL_MS" "computeSessionKey channelId (ts_conversationId session) \<noteq> []"
    and "owner = (if truthy creator then the creator else userId)" "owner \<noteq> []"
  shows "validateThreadOwnership (findSessionByThread later channelId (ts_conversationId session) p db') other = (other = owner, Some owner)"
proof -
  have session: "db' = setSession now (computeSessionKey channelId (ts_conversationId session)) session p db"
    "ts_channelId session = channelId" "ts_threadCreator session = Some owner"
    using assms(1,4) by (auto simp: createSession_def Let_def)
  have live: "not_expired later (Some (now + SESSION_TTL_MS))" using assms(2) by (simp add: not_expired_def)
  have "findSessionByThread later channelId (ts_conversationId session) p db' = Some session"
    using live assms(3)
    by (simp add: findSessionByThread_def getSessionByThread_def getSession_def get_key_def session(1,2) setSession_def set_key_def
        jm_get_set expiry_def SESSION_TTL_MS_def)
  then show ?thesis using session(3) assms(5) by (auto simp: validateThreadOwnership_def)
qed

lemma thread_belongs_to_creator_witness:
  "(let (s, db) = createSession 0 ''C'' ''alice'' (Some ''t'') None ''p'' empty_db in
     validateThreadOwnership (findSessionByThread 5 ''C'' ''t'' ''p'' db) ''bob'' = (False, Some ''alice''))"
proof -
  obtain s db where new: "createSession 0 ''C'' ''alice'' (Some ''t'') None ''p'' (empty_db :: chat_db) = (s, db)"
    by (cases "createSession 0 ''C'' ''alice'' (Some ''t'') None ''p'' (empty_db :: chat_db)")
  then have "ts_conversationId s = ''t''" by (auto simp: createSession_def Let_def)
  with thread_belongs_to_creator [OF new, of 5 "''alice''" "''bob''"] new show ?thesis
    by (simp add: SESSION_TTL_MS_def computeSessionKey_def)
qed

section \<open>A selection is claimed for one message\<close>

text \<open>The calls of the manager that update a session.\<close>

datatype selection_event =
    Create_selection string string string "(string \<times> string) list" string ms
  | Claim_selection string string string string string
  | Clear_selection string string string "string option"
  | Mark_dispatched string string string string
  | Touch_session
  | Bind_course course_binding
  | Clear_course

fun selection_update :: "ms \<Rightarrow> selection_event \<Rightarrow> thread_session \<Rightarrow> thread_session" where
  "selection_update now (Create_selection uuid owner agent candidates message createdAt) s =
     createPendingCourseSelection now uuid owner agent candidates message createdAt s"
| "selection_update now (Claim_selection pid owner agent course msg) s = fst (claimPendingCourseSelection now pid owner agent course msg s)"
| "selection_update now (Clear_selection pid owner agent msg) s = fst (clearPendingCourseSelection pid owner agent msg s)"
| "selection_update now (Mark_dispatched pid owner agent msg) s = fst (markPendingCourseSelectionDispatched now pid owner agent msg s)"
| "selection_update now Touch_session s = touchSession now s"
| "selection_update now (Bind_course b) s = bindActiveCourse b s"
| "selection_update now Clear_course s = clearActiveCourse s"

text \<open>The id of a selection is random; and a selection that was dispatched is open to claims again.\<close>

fun quiet_event :: "string \<Rightarrow> selection_event \<Rightarrow> bool" where
  "quiet_event pid (Create_selection uuid owner agent candidates message createdAt) = (uuid \<noteq> pid)"
| "quiet_event pid (Mark_dispatched i owner agent msg) = (i \<noteq> pid)"
| "quiet_event pid _ = True"

definition quiet_op :: "string \<Rightarrow> session_op \<Rightarrow> bool" where
  "quiet_op pid op \<longleftrightarrow> op = Remove \<or> (\<exists>now e. op = Mutate (selection_update now e) \<and> quiet_event pid e)"

text \<open>A call that claims the selection \<open>pid\<close>, and was told that it has it.\<close>

definition claims_for :: "string \<Rightarrow> string \<Rightarrow> string \<Rightarrow> session_process \<Rightarrow> bool" where
  "claims_for pid course msg pr \<longleftrightarrow> (\<exists>now owner agent c.
     sp_op pr = Mutate (selection_update now (Claim_selection pid owner agent course msg))
     \<and> selection_result (claimPendingCourseSelection now pid owner agent course msg) pr = Some (Ans_claimed c))"

definition only_claimed_for :: "string \<Rightarrow> string \<Rightarrow> string \<Rightarrow> thread_session option \<Rightarrow> bool" where
  "only_claimed_for pid course msg s \<longleftrightarrow>
     (\<forall>c. Option.bind s ts_pendingSelection = Some c \<longrightarrow> cs_pendingId c = pid \<longrightarrow>
        cs_status c = Sel_claimed \<and> cs_claimedCourseKey c = Some course \<and> cs_claimedMessageId c = Some msg)"

lemma quiet_update_keeps:
  assumes "quiet_event pid e" "only_claimed_for pid course msg (Some t)"
  shows "only_claimed_for pid course msg (Some (selection_update now e t))"
  using assms
  by (cases e; cases "ts_pendingSelection t")
    (auto simp: only_claimed_for_def createPendingCourseSelection_def claimPendingCourseSelection_def touchSession_def
      bindActiveCourse_def clearActiveCourse_def clearPendingCourseSelection_def markPendingCourseSelectionDispatched_def
      selection_matches_def Let_def)

lemma quiet_replay_keeps:
  assumes "only_claimed_for pid course msg s"
    and "\<forall>x \<in> set changes. fst (snd x) = sid \<longrightarrow> quiet_op pid (snd (snd x))"
  shows "only_claimed_for pid course msg (replay sid changes s)"
  using assms
proof (induction changes rule: rev_induct)
  case (snoc x changes)
  obtain i k op where x: "x = (i, k, op)" by (cases x)
  have IH: "only_claimed_for pid course msg (replay sid changes s)" using snoc by simp
  show ?case
  proof (cases "k = sid")
    case True
    then consider "op = Remove" | now e where "op = Mutate (selection_update now e)" "quiet_event pid e"
      using snoc.prems(2) x unfolding quiet_op_def by auto
    then show ?thesis
    proof cases
      case 1
      then show ?thesis using True by (simp add: x replay_snoc only_claimed_for_def)
    next
      case 2
      have "replay sid (changes @ [x]) s = map_option (selection_update now e) (replay sid changes s)"
        using True 2(1) by (simp add: x replay_snoc)
      then show ?thesis using IH quiet_update_keeps [OF 2(2)]
        by (cases "replay sid changes s") (simp_all add: only_claimed_for_def [of _ _ _ None])
    qed
  qed (simp add: x replay_snoc IH)
qed (simp add: replay_def)

lemma claim_answer:
  assumes "snd (claimPendingCourseSelection now pid owner agent course msg t) = Ans_claimed c"
  shows "only_claimed_for pid course msg (Some (selection_update now (Claim_selection pid owner agent course msg) t))"
    and "only_claimed_for pid course' msg' (Some t) \<Longrightarrow> course' = course \<and> msg' = msg"
proof -
  from assms obtain d where d: "ts_pendingSelection t = Some d" "selection_matches pid owner agent d"
    by (cases "ts_pendingSelection t") (auto simp: claimPendingCourseSelection_def split: if_splits)
  show "only_claimed_for pid course msg (Some (selection_update now (Claim_selection pid owner agent course msg) t))"
    using assms d by (auto simp: claimPendingCourseSelection_def only_claimed_for_def Let_def split: if_splits)
  show "course' = course \<and> msg' = msg" if "only_claimed_for pid course' msg' (Some t)"
    using that assms d by (auto simp: claimPendingCourseSelection_def only_claimed_for_def selection_matches_def Let_def split: if_splits)
qed

text \<open>Two claims by one call are the same claim.\<close>

lemma same_call_same_claim:
  assumes "selection_update now (Claim_selection pid owner agent course msg) = selection_update now' (Claim_selection pid owner' agent' course' msg')"
    and "snd (claimPendingCourseSelection now pid owner agent course msg t) = Ans_claimed c"
    and "snd (claimPendingCourseSelection now' pid owner' agent' course' msg' t) = Ans_claimed c'"
  shows "course' = course \<and> msg' = msg"
proof -
  obtain d where d: "ts_pendingSelection (selection_update now (Claim_selection pid owner agent course msg) t) = Some d" "cs_pendingId d = pid"
    using assms(2) by (cases "ts_pendingSelection t")
      (auto simp: claimPendingCourseSelection_def selection_matches_def Let_def split: if_splits)
  from claim_answer(1) [OF assms(2)] claim_answer(1) [OF assms(3)] d show ?thesis
    unfolding assms(1) by (simp add: only_claimed_for_def)
qed

text \<open>A claim that comes after another one, in the order of the changes.\<close>

lemma later_claim:
  assumes log: "changes = as @ (i, sid, op) # bs @ (j, sid, op') # cs"
    and quiet: "\<forall>x \<in> set changes. fst (snd x) = sid \<longrightarrow> quiet_op pid (snd (snd x))"
    and first: "op = Mutate (selection_update now (Claim_selection pid owner agent course msg))" "replay sid as s0 = Some t"
      "snd (claimPendingCourseSelection now pid owner agent course msg t) = Ans_claimed c"
    and second: "replay sid (as @ (i, sid, op) # bs) s0 = Some t'"
      "snd (claimPendingCourseSelection now' pid owner' agent' course' msg' t') = Ans_claimed c'"
  shows "course' = course \<and> msg' = msg"
proof -
  have "replay sid (as @ [(i, sid, op)]) s0 = Some (selection_update now (Claim_selection pid owner agent course msg) t)"
    using first(1,2) by (simp add: replay_snoc)
  with claim_answer(1) [OF first(3)] have "only_claimed_for pid course msg (replay sid (as @ [(i, sid, op)]) s0)" by simp
  then have "only_claimed_for pid course msg (replay sid bs (replay sid (as @ [(i, sid, op)]) s0))"
    by (rule quiet_replay_keeps) (use quiet log in simp)
  moreover have "replay sid bs (replay sid (as @ [(i, sid, op)]) s0) = replay sid (as @ (i, sid, op) # bs) s0" by (simp add: replay_def)
  ultimately have "only_claimed_for pid course msg (Some t')" using second(1) by simp
  with claim_answer(2) [OF second(2)] show ?thesis by blast
qed

lemma two_entries:
  assumes "xs = as @ x # bs" "xs = as' @ y # bs'"
  shows "(as = as' \<and> x = y) \<or> (\<exists>cs. as' = as @ x # cs) \<or> (\<exists>cs. as = as' @ y # cs)"
proof -
  have "as @ x # bs = as' @ y # bs'" using assms by simp
  then obtain us where "as = as' @ us \<and> us @ x # bs = y # bs' \<or> as @ us = as' \<and> x # bs = us @ y # bs'"
    unfolding append_eq_append_conv2 by blast
  then show ?thesis by (cases us) auto
qed

text \<open>
  C29: As long as a course selection is not marked dispatched, in whatever order the steps of the claims, the cleanups and
  the other updates of several gateways interleave and whichever of them fail, all calls that are told that they have
  claimed it were for one course and one message. The conditions are those under which updates are serialised: the write of
  a session ends or fails while the lease of its call runs, the write of the index beside it does not fail
  before it, and the session neither expires nor is replaced by a new one on the way.
\<close>

theorem selection_claimed_once:
  assumes "sw_calls w = []" "sw_log w = []" "orderly p es w"
    and "sessions_last p (sw_now (session_run p es w)) (sw_db w)" "sw_now (session_run p es w) < sw_now w + SESSION_TTL_MS"
    and quiet: "\<forall>pr \<in> set (sw_calls (session_run p es w)). sp_session pr = sid \<longrightarrow> quiet_op pid (sp_op pr)"
    and i: "i < length (sw_calls (session_run p es w))" "sp_session (sw_calls (session_run p es w) ! i) = sid"
      "claims_for pid course msg (sw_calls (session_run p es w) ! i)"
    and j: "j < length (sw_calls (session_run p es w))" "sp_session (sw_calls (session_run p es w) ! j) = sid"
      "claims_for pid course' msg' (sw_calls (session_run p es w) ! j)"
  shows "course' = course \<and> msg' = msg"
proof -
  define w' where "w' = session_run p es w"
  define s0 where "s0 = session_at p (sw_db w) sid"
  note serial = serial_run [OF assms(1-5), folded w'_def]
  have calls: "k < length (sw_calls w') \<and> sp_session (sw_calls w' ! k) = sid' \<and> sp_op (sw_calls w' ! k) = op"
    if "(k, sid', op) \<in> set (sw_log w')" for k sid' op
    using that serial serial_run_calls [OF assms(1-5), folded w'_def]
    unfolding changes_seen_def by (metis split_list image_eqI fst_conv)
  have ops: "\<forall>x \<in> set (sw_log w'). fst (snd x) = sid \<longrightarrow> quiet_op pid (snd (snd x))"
  proof (intro ballI impI)
    fix x assume x: "x \<in> set (sw_log w')" "fst (snd x) = sid"
    obtain k sid' op where "x = (k, sid', op)" by (cases x)
    with calls [of k sid' op] x have "k < length (sw_calls w')" "sp_session (sw_calls w' ! k) = sid" "sp_op (sw_calls w' ! k) = snd (snd x)" by auto
    then show "quiet_op pid (snd (snd x))" using quiet unfolding w'_def [symmetric] by (metis nth_mem)
  qed
  have claim: "\<exists>as op bs t now owner agent c. sw_log w' = as @ (k, sid, op) # bs \<and> replay sid as s0 = Some t
      \<and> op = Mutate (selection_update now (Claim_selection pid owner agent course msg))
      \<and> sp_current (sw_calls w' ! k) = Some t
      \<and> snd (claimPendingCourseSelection now pid owner agent course msg t) = Ans_claimed c"
    if k: "k < length (sw_calls w')" "sp_session (sw_calls w' ! k) = sid" "claims_for pid course msg (sw_calls w' ! k)" for k course msg
  proof -
    obtain now owner agent c where c: "sp_op (sw_calls w' ! k) = Mutate (selection_update now (Claim_selection pid owner agent course msg))"
      "selection_result (claimPendingCourseSelection now pid owner agent course msg) (sw_calls w' ! k) = Some (Ans_claimed c)"
      using k(3) unfolding claims_for_def by blast
    then obtain t where t: "sp_pc (sw_calls w' ! k) = Finished (Returned True)" "sp_current (sw_calls w' ! k) = Some t"
      "snd (claimPendingCourseSelection now pid owner agent course msg t) = Ans_claimed c"
      by (auto simp: selection_result_def split: session_pc.splits if_splits option.splits)
    then have "k \<in> fst ` set (sw_log w')" using serial k(1) by blast
    then obtain sid' op as bs where log: "sw_log w' = as @ (k, sid', op) # bs" by (metis imageE prod.collapse split_list)
    with serial have "sp_session (sw_calls w' ! k) = sid'" "sp_op (sw_calls w' ! k) = op"
      "sp_current (sw_calls w' ! k) = replay sid' as (session_at p (sw_db w) sid')"
      unfolding changes_seen_def by blast+
    with k(2) t c(1) log show ?thesis unfolding s0_def by metis
  qed
  from claim [OF i [folded w'_def]] obtain as op bs t now owner agent c where first: "sw_log w' = as @ (i, sid, op) # bs"
    "replay sid as s0 = Some t" "op = Mutate (selection_update now (Claim_selection pid owner agent course msg))"
    "sp_current (sw_calls w' ! i) = Some t" "snd (claimPendingCourseSelection now pid owner agent course msg t) = Ans_claimed c"
    by blast
  from claim [OF j [folded w'_def]] obtain as' op' bs' t' now' owner' agent' c' where second: "sw_log w' = as' @ (j, sid, op') # bs'"
    "replay sid as' s0 = Some t'" "op' = Mutate (selection_update now' (Claim_selection pid owner' agent' course' msg'))"
    "sp_current (sw_calls w' ! j) = Some t'" "snd (claimPendingCourseSelection now' pid owner' agent' course' msg' t') = Ans_claimed c'"
    by blast
  from two_entries [OF first(1) second(1)]
  consider "(as', op') = (as, op) \<and> i = j" | cs where "as' = as @ (i, sid, op) # cs" | cs where "as = as' @ (j, sid, op') # cs" by blast
  then show ?thesis
  proof cases
    case 1
    then have "selection_update now (Claim_selection pid owner agent course msg) = selection_update now' (Claim_selection pid owner' agent' course' msg')"
      "t' = t"
      using first second by auto
    with same_call_same_claim first(5) second(5) show ?thesis by metis
  next
    case 2
    then have "sw_log w' = as @ (i, sid, op) # cs @ (j, sid, op') # bs'" using second(1) by simp
    from later_claim [OF this ops first(3,2,5)] second(2,5) 2 show ?thesis by blast
  next
    case 3
    then have "sw_log w' = as' @ (j, sid, op') # cs @ (i, sid, op) # bs" using first(1) by simp
    from later_claim [OF this ops second(3,2,5)] first(2,5) 3 show ?thesis by blast
  qed
qed

definition sample_selection :: thread_session where
  "sample_selection = createPendingCourseSelection 0 ''p1'' ''u'' ''a'' [(''k1'', ''One''), (''k2'', ''Two'')] ''hello'' 0 sample_session"

definition selecting_world :: session_world where
  "selecting_world = \<lparr> sw_now = 0, sw_db = setSession 0 ''C:t'' sample_selection ''p'' empty_db, sw_calls = [], sw_log = [] \<rparr>"

text \<open>Two messages claim the selection, the first again; the second claim finds the session locked and waits.\<close>

definition claim_call :: "string \<Rightarrow> string \<Rightarrow> string \<Rightarrow> session_event" where
  "claim_call course msg uuid = Call_session ''C:t'' (Mutate (selection_update 1 (Claim_selection ''p1'' ''u'' ''a'' course msg))) uuid"

definition sample_claims :: "session_event list" where
  "sample_claims =
     [claim_call ''k1'' ''m1'' ''1'', claim_call ''k2'' ''m2'' ''2'', claim_call ''k1'' ''m1'' ''3'',
      Advance 0 True, Advance 1 True, Advance 0 True, End_write 0 0 True, End_write 0 0 True, Advance 0 True, Advance 0 True,
      Pass 25, Advance 1 True, Advance 1 True, Advance 1 True, End_write 1 0 True, End_write 1 0 True, Advance 1 True, Advance 1 True,
      Advance 2 True, Advance 2 True, End_write 2 0 True, End_write 2 0 True, Advance 2 True, Advance 2 True]"

lemma map_nth_facts: "map (\<lambda>x. (f x, g x)) xs = [a, b, c] \<Longrightarrow>
    f (xs ! 0) = fst a \<and> g (xs ! 0) = snd a \<and> f (xs ! 1) = fst b \<and> g (xs ! 1) = snd b \<and> f (xs ! 2) = fst c \<and> g (xs ! 2) = snd c"
  by auto

lemma selection_claimed_once_witness:
  "(let calls = sw_calls (session_run ''p'' sample_claims selecting_world) in
     claims_for ''p1'' ''k1'' ''m1'' (calls ! 0) \<and> claims_for ''p1'' ''k1'' ''m1'' (calls ! 2)
     \<and> \<not> claims_for ''p1'' ''k2'' ''m2'' (calls ! 1))"
proof -
  let ?w = "session_run ''p'' sample_claims selecting_world"
  have now: "sw_now ?w = 25" "length (sw_calls ?w) = 3" by code_simp+
  have calls: "map (\<lambda>pr. (sp_session pr, sp_op pr)) (sw_calls ?w) = [(''C:t'', Mutate (selection_update 1 (Claim_selection ''p1'' ''u'' ''a'' ''k1'' ''m1''))),
      (''C:t'', Mutate (selection_update 1 (Claim_selection ''p1'' ''u'' ''a'' ''k2'' ''m2''))),
      (''C:t'', Mutate (selection_update 1 (Claim_selection ''p1'' ''u'' ''a'' ''k1'' ''m1'')))]"
    unfolding run_calls by (simp add: selecting_world_def sample_claims_def claim_call_def List.map_filter_def)
  from map_nth_facts [OF calls]
  have ops: "sp_op (sw_calls ?w ! 0) = Mutate (selection_update 1 (Claim_selection ''p1'' ''u'' ''a'' ''k1'' ''m1''))"
    "sp_op (sw_calls ?w ! 1) = Mutate (selection_update 1 (Claim_selection ''p1'' ''u'' ''a'' ''k2'' ''m2''))"
    "sp_op (sw_calls ?w ! 2) = Mutate (selection_update 1 (Claim_selection ''p1'' ''u'' ''a'' ''k1'' ''m1''))"
    and sessions: "sp_session (sw_calls ?w ! 0) = ''C:t''" "sp_session (sw_calls ?w ! 1) = ''C:t''"
    by simp_all
  have quiet: "\<forall>pr \<in> set (sw_calls ?w). sp_session pr = ''C:t'' \<longrightarrow> quiet_op ''p1'' (sp_op pr)"
  proof
    fix pr assume "pr \<in> set (sw_calls ?w)"
    then have "sp_op pr \<in> snd ` set (map (\<lambda>pr. (sp_session pr, sp_op pr)) (sw_calls ?w))" by force
    then have "\<exists>e. sp_op pr = Mutate (selection_update 1 e) \<and> quiet_event ''p1'' e" unfolding calls by force
    then show "sp_session pr = ''C:t'' \<longrightarrow> quiet_op ''p1'' (sp_op pr)" unfolding quiet_op_def by blast
  qed
  have orderly: "orderly ''p'' sample_claims selecting_world" by code_simp
  have last: "sessions_last ''p'' (sw_now ?w) (sw_db selecting_world)"
    unfolding now by (auto simp: sessions_last_def selecting_world_def setSession_def set_key_def empty_db_def jm_get_set
        not_expired_def expiry_def SESSION_TTL_MS_def split: if_splits)
  have start: "sw_calls selecting_world = []" "sw_log selecting_world = []" "sw_now selecting_world = 0" by (simp_all add: selecting_world_def)
  have "case selection_result (claimPendingCourseSelection 1 ''p1'' ''u'' ''a'' ''k1'' ''m1'') (sw_calls ?w ! k) of
      Some (Ans_claimed c) \<Rightarrow> True | _ \<Rightarrow> False" if "k = 0 \<or> k = 2" for k
    using that by (elim disjE; simp only:; code_simp)
  then have won: "claims_for ''p1'' ''k1'' ''m1'' (sw_calls ?w ! 0)" "claims_for ''p1'' ''k1'' ''m1'' (sw_calls ?w ! 2)"
    using ops unfolding claims_for_def by (force split: option.splits selection_answer.splits)+
  moreover have "\<not> claims_for ''p1'' ''k2'' ''m2'' (sw_calls ?w ! 1)"
    using selection_claimed_once [OF start(1,2) orderly last _ quiet _ sessions(1) won(1) _ sessions(2), of "''k2''" "''m2''"] start(3) now
    by (auto simp: SESSION_TTL_MS_def)
  ultimately show ?thesis by (simp only: Let_def simp_thms)
qed

text \<open>A selection that has been dispatched for one message can be claimed for another.\<close>

lemma dispatched_selection_claimed_again:
  "(let claimed = selection_update 1 (Claim_selection ''p1'' ''u'' ''a'' ''k1'' ''m1'') sample_selection;
        dispatched = selection_update 2 (Mark_dispatched ''p1'' ''u'' ''a'' ''m1'') claimed in
    case snd (claimPendingCourseSelection 3 ''p1'' ''u'' ''a'' ''k1'' ''m2'' dispatched) of Ans_claimed c \<Rightarrow> True | _ \<Rightarrow> False)"
  by code_simp

end
