(* ===== verification/Tool_Approval.thy ===== *)
theory Tool_Approval
  imports Grants Worker_Token "HOL-Library.List_Lexorder" "HOL-Library.Char_ord"
begin

text \<open>
  Approval of a blocked tool call: \<^verbatim>\<open>server/src/gateway/auth/mcp/tool-approval-service.ts\<close> over the rows of
  \<^verbatim>\<open>pending-tool-store.ts\<close>. Each database statement and each call outside is one step of a
  submission, so submissions of several gateways interleave. The answers of what is not modelled here
  (the release service, the eligibility check, the execution of the tool) come with the step; \<open>sha\<close> is the
  SHA-256 of the canonical JSON of a value, \<open>pending_digest\<close> that of an invocation.
\<close>

section \<open>Pending invocations\<close>

record release_claim =
  rc_environment :: string
  rc_toolboxUserId :: string
  rc_agentId :: string
  rc_releaseId :: string
  rc_releaseSequence :: int
  rc_snapshotDigest :: string
  rc_expiresAt :: string
  rc_capabilityIds :: "string list"

datatype release_state = Rel_unenrolled | Rel_inactive string string | Rel_active release_claim

record mcp_identity =
  mi_upstreamOrigin :: string
  mi_configSource :: string
  mi_configDigest :: string

record release_binding =
  rb_routerMode :: string
  rb_inventoryFingerprint :: string
  rb_releaseId :: string
  rb_releaseSequence :: int
  rb_snapshotDigest :: string
  rb_authorizationExpiresAt :: string
  rb_stableAuthorizationDigest :: string
  rb_eligibilityBindingDigest :: string

record pending_tool =
  pt_mcpId :: string
  pt_toolName :: string
  pt_args :: jvalue
  pt_agentId :: string
  pt_userId :: string
  pt_organizationId :: "string option"
  pt_channelId :: "string option"
  pt_conversationId :: "string option"
  pt_teamId :: "string option"
  pt_connectionId :: "string option"
  pt_originMessageId :: "string option"
  pt_processedMessageIds :: "string list option"
  pt_courseToolScope :: "jvalue option"
  pt_expectedMcpIdentity :: "mcp_identity option"
  pt_releaseState :: "release_state option"
  pt_releaseBinding :: "release_binding option"
  pt_originalRunIdentity :: "(int \<times> string) option"
  pt_personalReminder :: bool

definition or_null :: "('a \<Rightarrow> jvalue) \<Rightarrow> 'a option \<Rightarrow> jvalue" where
  "or_null f v = (case v of None \<Rightarrow> JNull | Some x \<Rightarrow> f x)"

definition identity_json :: "mcp_identity \<Rightarrow> jvalue" where
  "identity_json i = JObj [(''upstreamOrigin'', JStr (mi_upstreamOrigin i)), (''configSource'', JStr (mi_configSource i)),
     (''configDigest'', JStr (mi_configDigest i))]"

definition stableToolEligibilityDigest :: "(jvalue \<Rightarrow> string) \<Rightarrow> pending_tool \<Rightarrow> release_binding \<Rightarrow> string" where
  "stableToolEligibilityDigest sha pt binding = sha (JObj
     [(''mcpId'', JStr (pt_mcpId pt)), (''toolName'', JStr (pt_toolName pt)),
      (''connectionId'', or_null JStr (pt_connectionId pt)),
      (''expectedMcpIdentity'', or_null identity_json (pt_expectedMcpIdentity pt)),
      (''courseToolScope'', or_null (\<lambda>v. v) (pt_courseToolScope pt)),
      (''effectiveInventoryFingerprint'', JStr (rb_inventoryFingerprint binding)),
      (''stableAuthorizationDigest'', JStr (rb_stableAuthorizationDigest binding))])"

definition stableReleaseAuthorizationDigest :: "(jvalue \<Rightarrow> string) \<Rightarrow> release_claim \<Rightarrow> string" where
  "stableReleaseAuthorizationDigest sha c = sha (JObj
     [(''environment'', JStr (rc_environment c)), (''toolboxUserId'', JStr (rc_toolboxUserId c)),
      (''agentId'', JStr (rc_agentId c)), (''releaseId'', JStr (rc_releaseId c)),
      (''releaseSequence'', JNum (of_int (rc_releaseSequence c))),
      (''capabilityIds'', JArr (map JStr (sort (rc_capabilityIds c))))])"

text \<open>What an approved invocation is executed with.\<close>

record execution_options =
  eo_courseToolScope :: "jvalue option"
  eo_expectedMcpIdentity :: "mcp_identity option"
  eo_channelId :: "string option"
  eo_organizationId :: "string option"
  eo_releaseState :: "release_state option"
  eo_originalRunIdentity :: "(int \<times> string) option"
  eo_conversationId :: "string option"
  eo_personalReminder :: bool

definition present :: "string option \<Rightarrow> string option" where
  "present s = (if truthy s then s else None)"

definition buildPendingToolExecutionOptions :: "pending_tool \<Rightarrow> execution_options" where
  "buildPendingToolExecutionOptions pt =
     \<lparr> eo_courseToolScope = pt_courseToolScope pt, eo_expectedMcpIdentity = pt_expectedMcpIdentity pt,
       eo_channelId = present (pt_channelId pt), eo_organizationId = present (pt_organizationId pt),
       eo_releaseState = pt_releaseState pt, eo_originalRunIdentity = pt_originalRunIdentity pt,
       eo_conversationId = present (pt_conversationId pt), eo_personalReminder = pt_personalReminder pt \<rparr>"

section \<open>The rows\<close>

datatype oauth_payload = Pending_tool pending_tool | Other_payload jvalue

record oauth_row =
  or_scope :: string
  or_payload :: oauth_payload
  or_expires :: ms

type_synonym oauth_rows = "(string, oauth_row) jmap"

definition pending_scope :: string where
  "pending_scope = ''pending-tool''"

definition storePendingTool :: "ms \<Rightarrow> string \<Rightarrow> pending_tool \<Rightarrow> int \<Rightarrow> oauth_rows \<Rightarrow> oauth_rows" where
  "storePendingTool now requestId invocation ttlSeconds =
     AList.update requestId \<lparr> or_scope = pending_scope, or_payload = Pending_tool invocation, or_expires = now + ttlSeconds * 1000 \<rparr>"

definition getPendingTool :: "ms \<Rightarrow> string \<Rightarrow> oauth_rows \<Rightarrow> pending_tool option" where
  "getPendingTool now requestId rows =
     (case map_of rows requestId of
        None \<Rightarrow> None
      | Some row \<Rightarrow>
          (if or_scope row = pending_scope \<and> now < or_expires row
           then (case or_payload row of Pending_tool pt \<Rightarrow> Some pt | Other_payload v \<Rightarrow> None) else None))"

definition takePendingTool :: "ms \<Rightarrow> string \<Rightarrow> oauth_rows \<Rightarrow> pending_tool option \<times> oauth_rows" where
  "takePendingTool now requestId rows =
     (case getPendingTool now requestId rows of
        None \<Rightarrow> (None, rows) | Some pt \<Rightarrow> (Some pt, AList.delete requestId rows))"

definition takePendingToolIfUnchanged ::
    "(pending_tool \<Rightarrow> string) \<Rightarrow> ms \<Rightarrow> string \<Rightarrow> pending_tool \<Rightarrow> string \<Rightarrow> oauth_rows \<Rightarrow> pending_tool option \<times> oauth_rows" where
  "takePendingToolIfUnchanged digest now requestId expected expectedDigest rows =
     (if digest expected \<noteq> expectedDigest then (None, rows)
      else
        (case getPendingTool now requestId rows of
           None \<Rightarrow> (None, rows)
         | Some claimed \<Rightarrow>
             (if claimed \<noteq> expected then (None, rows)
              else (if digest claimed = expectedDigest then Some claimed else None, AList.delete requestId rows))))"

section \<open>Is a pending call still good?\<close>

definition isPendingReleaseBindingCurrent ::
    "(jvalue \<Rightarrow> string) \<Rightarrow> (string \<Rightarrow> ms option) \<Rightarrow> pending_tool \<Rightarrow> release_state \<Rightarrow> ms \<Rightarrow> bool" where
  "isPendingReleaseBindingCurrent sha date_parse pt current now \<longleftrightarrow>
     (case (pt_releaseBinding pt, current) of
        (Some binding, Rel_active c) \<Rightarrow>
          (case date_parse (rc_expiresAt c) of None \<Rightarrow> False | Some t \<Rightarrow> now < t)
          \<and> rc_agentId c = pt_agentId pt \<and> rc_toolboxUserId c = pt_userId pt
          \<and> rc_releaseId c = rb_releaseId binding \<and> rc_releaseSequence c = rb_releaseSequence binding
          \<and> stableReleaseAuthorizationDigest sha c = rb_stableAuthorizationDigest binding
      | _ \<Rightarrow> False)"

definition binding_intact :: "(jvalue \<Rightarrow> string) \<Rightarrow> pending_tool \<Rightarrow> release_binding \<Rightarrow> release_claim \<Rightarrow> bool" where
  "binding_intact sha pt binding c \<longleftrightarrow>
     rc_agentId c = pt_agentId pt \<and> rc_toolboxUserId c = pt_userId pt
     \<and> rc_releaseId c = rb_releaseId binding \<and> rc_releaseSequence c = rb_releaseSequence binding
     \<and> rc_snapshotDigest c = rb_snapshotDigest binding \<and> rc_expiresAt c = rb_authorizationExpiresAt binding
     \<and> stableReleaseAuthorizationDigest sha c = rb_stableAuthorizationDigest binding
     \<and> stableToolEligibilityDigest sha pt binding = rb_eligibilityBindingDigest binding"

text \<open>\<open>current\<close> is the state the release service reports, \<open>None\<close> when it or the snapshot throws.\<close>

definition revalidateReleaseBinding ::
    "(jvalue \<Rightarrow> string) \<Rightarrow> (string \<Rightarrow> ms option) \<Rightarrow> ms \<Rightarrow> release_state option \<Rightarrow> pending_tool \<Rightarrow> bool option" where
  "revalidateReleaseBinding sha date_parse now current pt =
     (case pt_releaseBinding pt of
        None \<Rightarrow> Some True
      | Some binding \<Rightarrow>
          (case pt_releaseState pt of
             Some (Rel_active c) \<Rightarrow>
               (if \<not> binding_intact sha pt binding c then Some False
                else map_option (\<lambda>state. isPendingReleaseBindingCurrent sha date_parse pt state now) current)
           | _ \<Rightarrow> Some False))"

definition release_active :: "pending_tool \<Rightarrow> bool" where
  "release_active pt \<longleftrightarrow> (case pt_releaseState pt of Some (Rel_active c) \<Rightarrow> True | _ \<Rightarrow> False)"

text \<open>\<open>eligible\<close> is the answer of the eligibility check, \<open>None\<close> when there is none or it throws.\<close>

definition validatePendingToolContinuation ::
    "(jvalue \<Rightarrow> string) \<Rightarrow> (string \<Rightarrow> ms option) \<Rightarrow> ms \<Rightarrow> release_state option \<Rightarrow> bool option \<Rightarrow> pending_tool \<Rightarrow> bool" where
  "validatePendingToolContinuation sha date_parse now current eligible pt =
     (if pt_releaseBinding pt = None then \<not> release_active pt
      else revalidateReleaseBinding sha date_parse now current pt = Some True \<and> eligible = Some True)"

section \<open>Submissions\<close>

datatype approval_action = Approve_once | Approve_all | Deny_call

record submit_input =
  si_action :: approval_action
  si_approvalId :: string
  si_toolboxUserId :: string
  si_lineUserId :: string
  si_agentId :: string
  si_organizationId :: "string option"

record execution_result =
  er_content :: string
  er_isError :: bool
  er_diagnosticCode :: "string option"

datatype submit_result = Res_expired | Res_forbidden | Res_denied | Res_stale | Res_executed execution_result | Res_threw

text \<open>
  What the service is made with: the ownership of agents by users (\<open>None\<close> without a store), the organisation it falls back to,
  the ambient organisation, and the functions outside.
\<close>

record approval_deps =
  ad_owns :: "(string \<Rightarrow> string \<Rightarrow> string option \<Rightarrow> bool) option"
  ad_organizationId :: "string option"
  ad_ambient :: "string option"
  ad_ascii :: "string \<Rightarrow> string"
  ad_sha :: "jvalue \<Rightarrow> string"
  ad_pending_digest :: "pending_tool \<Rightarrow> string"
  ad_date_parse :: "string \<Rightarrow> ms option"

definition organizationIdFor :: "string option \<Rightarrow> string option \<Rightarrow> string option" where
  "organizationIdFor inp fallback = (case inp of Some org \<Rightarrow> Some org | None \<Rightarrow> fallback)"

definition ownsToolboxAgent :: "approval_deps \<Rightarrow> string \<Rightarrow> string \<Rightarrow> string option \<Rightarrow> bool" where
  "ownsToolboxAgent deps user agent org =
     (case ad_owns deps of None \<Rightarrow> False
      | Some owns \<Rightarrow> owns user agent (organizationIdFor org (ad_organizationId deps)))"

definition specific_pattern :: "pending_tool \<Rightarrow> string" where
  "specific_pattern pt = ''/mcp/'' @ pt_mcpId pt @ ''/tools/'' @ pt_toolName pt"

definition requiresEgressAuthorization :: "pending_tool \<Rightarrow> bool" where
  "requiresEgressAuthorization pt \<longleftrightarrow> pt_releaseBinding pt \<noteq> None \<or> release_active pt"

text \<open>The answers the next step of a submission gets; \<open>sa_completed\<close>: the proxy reports that the execution has completed.\<close>

record step_answers =
  sa_current :: "release_state option"
  sa_eligible :: "bool option"
  sa_result :: "execution_result option"
  sa_completed :: bool

datatype submit_pc =
    Fetch
  | Validate pending_tool
  | Drop pending_tool
  | Take pending_tool
  | Revalidate pending_tool
  | Act pending_tool
  | Execute pending_tool
  | Done submit_result

text \<open>The state all submissions share, with the executions so far.\<close>

record approval_state =
  as_rows :: oauth_rows
  as_grants :: "grant_row list"
  as_executions :: "(string \<times> pending_tool) list"

definition store_grant :: "approval_deps \<Rightarrow> ms \<Rightarrow> string \<Rightarrow> string \<Rightarrow> bool option \<Rightarrow> string option \<Rightarrow> approval_state \<Rightarrow> approval_state option" where
  "store_grant deps now agent pattern denied org s =
     (case grant (ad_ascii deps) (ad_ambient deps) now agent pattern None denied org (as_grants s) of
        Inl e \<Rightarrow> None | Inr grants \<Rightarrow> Some (s \<lparr> as_grants := grants \<rparr>))"

definition submit_step ::
    "approval_deps \<Rightarrow> ms \<Rightarrow> step_answers \<Rightarrow> submit_input \<Rightarrow> submit_pc \<Rightarrow> approval_state \<Rightarrow> submit_pc \<times> approval_state" where
  "submit_step deps now ans inp pc s =
     (let org = organizationIdFor (si_organizationId inp) (ad_organizationId deps);
          digest = ad_pending_digest deps;
          valid = validatePendingToolContinuation (ad_sha deps) (ad_date_parse deps) now (sa_current ans) (sa_eligible ans);
          take_row = (\<lambda>pt. takePendingToolIfUnchanged digest now (si_approvalId inp) pt (digest pt) (as_rows s)) in
      case pc of
        Fetch \<Rightarrow>
          (case getPendingTool now (si_approvalId inp) (as_rows s) of
             None \<Rightarrow> (Done Res_expired, s)
           | Some pt \<Rightarrow>
               (if pt_agentId pt \<noteq> si_agentId inp \<or> pt_userId pt \<noteq> si_toolboxUserId inp
                    \<or> \<not> ownsToolboxAgent deps (si_toolboxUserId inp) (si_agentId inp) (si_organizationId inp)
                then (Done Res_forbidden, s)
                else if pt_releaseBinding pt \<noteq> None
                then (if \<not> truthy org then (Done Res_forbidden, s) else (Validate pt, s))
                else (Take pt, s)))
      | Validate pt \<Rightarrow> (if valid pt then (Take pt, s) else (Drop pt, s))
      | Drop pt \<Rightarrow> (Done Res_stale, s \<lparr> as_rows := snd (take_row pt) \<rparr>)
      | Take pt \<Rightarrow>
          (let s = s \<lparr> as_rows := snd (take_row pt) \<rparr> in
           case fst (take_row pt) of
             None \<Rightarrow> (Done Res_expired, s)
           | Some claimed \<Rightarrow>
               (if pt_agentId claimed \<noteq> pt_agentId pt \<or> pt_userId claimed \<noteq> pt_userId pt then (Done Res_expired, s)
                else if requiresEgressAuthorization claimed
                then (if \<not> truthy org then (Done Res_forbidden, s) else (Revalidate claimed, s))
                else (Act claimed, s)))
      | Revalidate pt \<Rightarrow> (if valid pt then (Act pt, s) else (Done Res_stale, s))
      | Act pt \<Rightarrow>
          (case si_action inp of
             Deny_call \<Rightarrow>
               (case store_grant deps now (pt_agentId pt) (specific_pattern pt) (Some True) org s of
                  None \<Rightarrow> (Done Res_threw, s) | Some s \<Rightarrow> (Done Res_denied, s))
           | Approve_once \<Rightarrow> (Execute pt, s)
           | Approve_all \<Rightarrow>
               (if requiresEgressAuthorization pt then (Execute pt, s)
                else (case store_grant deps now (pt_agentId pt) global_tool_pattern None org s of
                  None \<Rightarrow> (Done Res_threw, s) | Some s \<Rightarrow> (Execute pt, s))))
      | Execute pt \<Rightarrow>
          (let s = s \<lparr> as_executions := as_executions s @ [(si_approvalId inp, pt)] \<rparr>;
               s = (if requiresEgressAuthorization pt \<and> si_action inp = Approve_all \<and> sa_completed ans
                 then (case store_grant deps now (pt_agentId pt) global_tool_pattern None org s of None \<Rightarrow> s | Some s \<Rightarrow> s) else s) in
           case sa_result ans of
             None \<Rightarrow> (Done Res_threw, s)
           | Some r \<Rightarrow> (if er_diagnosticCode r = Some ''approval_inventory_stale'' then (Done Res_stale, s) else (Done (Res_executed r), s)))
      | Done r \<Rightarrow> (Done r, s))"

definition revokeGlobal :: "approval_deps \<Rightarrow> string \<Rightarrow> string \<Rightarrow> string option \<Rightarrow> approval_state \<Rightarrow> bool \<times> approval_state" where
  "revokeGlobal deps user agent org s =
     (if \<not> ownsToolboxAgent deps user agent org then (False, s)
      else (True, s \<lparr> as_grants := revoke (ad_ascii deps) (ad_ambient deps) agent global_tool_pattern
                       (organizationIdFor org (ad_organizationId deps)) (as_grants s) \<rparr>))"

definition getGlobalStatus :: "approval_deps \<Rightarrow> ms \<Rightarrow> string \<Rightarrow> string \<Rightarrow> string option \<Rightarrow> approval_state \<Rightarrow> bool option" where
  "getGlobalStatus deps now user agent org s =
     (if \<not> ownsToolboxAgent deps user agent org then None
      else Some (hasGrant (ad_ascii deps) (ad_ambient deps) now (Some (as_grants s)) agent global_tool_pattern
                   (organizationIdFor org (ad_organizationId deps))))"

section \<open>Many submissions\<close>

text \<open>
  \<open>aw_stored\<close>, \<open>aw_claims\<close>, \<open>aw_valid\<close> and \<open>aw_runs\<close> record the calls that have been stored, which submission
  has claimed which, which has been validated after its claim, and which has executed what.
\<close>

record approval_world =
  aw_now :: ms
  aw_state :: approval_state
  aw_submits :: "(submit_input \<times> submit_pc) list"
  aw_stored :: "(string \<times> pending_tool) list"
  aw_claims :: "(string \<times> nat) list"
  aw_valid :: "nat list"
  aw_runs :: "(nat \<times> string \<times> pending_tool) list"

datatype approval_event =
    Store_call string pending_tool int
  | Submit submit_input
  | Step nat step_answers
  | Take_elsewhere string
  | Time_passes ms

definition claims_row :: "submit_pc \<Rightarrow> submit_pc \<Rightarrow> bool" where
  "claims_row pc pc' \<longleftrightarrow> (case (pc, pc') of (Take pt, Revalidate c) \<Rightarrow> True | (Take pt, Act c) \<Rightarrow> True | _ \<Rightarrow> False)"

definition passes_check :: "submit_pc \<Rightarrow> submit_pc \<Rightarrow> bool" where
  "passes_check pc pc' \<longleftrightarrow> (case (pc, pc') of (Revalidate pt, Act c) \<Rightarrow> True | _ \<Rightarrow> False)"

fun approval_step :: "approval_deps \<Rightarrow> approval_event \<Rightarrow> approval_world \<Rightarrow> approval_world" where
  "approval_step deps (Store_call reqid pt ttl) w =
     w \<lparr> aw_state := (aw_state w) \<lparr> as_rows := storePendingTool (aw_now w) reqid pt ttl (as_rows (aw_state w)) \<rparr>,
         aw_stored := aw_stored w @ [(reqid, pt)] \<rparr>"
| "approval_step deps (Submit inp) w = w \<lparr> aw_submits := aw_submits w @ [(inp, Fetch)] \<rparr>"
| "approval_step deps (Step i ans) w =
     (if i < length (aw_submits w)
      then
        (let (inp, pc) = aw_submits w ! i;
             r = submit_step deps (aw_now w) ans inp pc (aw_state w) in
         w \<lparr> aw_state := snd r, aw_submits := (aw_submits w)[i := (inp, fst r)],
             aw_claims := aw_claims w @ (if claims_row pc (fst r) then [(si_approvalId inp, i)] else []),
             aw_valid := aw_valid w @ (if passes_check pc (fst r) then [i] else []),
             aw_runs := aw_runs w @ (case pc of Execute pt \<Rightarrow> [(i, si_approvalId inp, pt)] | _ \<Rightarrow> []) \<rparr>)
      else w)"
| "approval_step deps (Take_elsewhere reqid) w =
     w \<lparr> aw_state := (aw_state w) \<lparr> as_rows := snd (takePendingTool (aw_now w) reqid (as_rows (aw_state w))) \<rparr> \<rparr>"
| "approval_step deps (Time_passes d) w = w \<lparr> aw_now := aw_now w + d \<rparr>"

definition approval_run :: "approval_deps \<Rightarrow> approval_event list \<Rightarrow> approval_world \<Rightarrow> approval_world" where
  "approval_run deps es w = foldl (\<lambda>w e. approval_step deps e w) w es"

definition approval_start :: "grant_row list \<Rightarrow> approval_world" where
  "approval_start grants = \<lparr> aw_now = 0, aw_state = \<lparr> as_rows = [], as_grants = grants, as_executions = [] \<rparr>,
     aw_submits = [], aw_stored = [], aw_claims = [], aw_valid = [], aw_runs = [] \<rparr>"

text \<open>The ids of the calls that are stored are random: no id comes twice.\<close>

fun stored_ids :: "approval_event list \<Rightarrow> string list" where
  "stored_ids [] = []"
| "stored_ids (Store_call reqid pt ttl # es) = reqid # stored_ids es"
| "stored_ids (e # es) = stored_ids es"

section \<open>Every approval runs once\<close>

definition approved_by :: "approval_deps \<Rightarrow> submit_input \<Rightarrow> pending_tool \<Rightarrow> bool" where
  "approved_by deps inp pt \<longleftrightarrow> pt_agentId pt = si_agentId inp \<and> pt_userId pt = si_toolboxUserId inp
     \<and> ownsToolboxAgent deps (si_toolboxUserId inp) (si_agentId inp) (si_organizationId inp)"

definition submit_ok :: "approval_deps \<Rightarrow> approval_world \<Rightarrow> nat \<Rightarrow> submit_input \<Rightarrow> submit_pc \<Rightarrow> bool" where
  "submit_ok deps w i inp pc \<longleftrightarrow>
     (let read = (\<lambda>pt. (si_approvalId inp, pt) \<in> set (aw_stored w) \<and> approved_by deps inp pt);
          claimed = (\<lambda>pt. read pt \<and> (si_approvalId inp, i) \<in> set (aw_claims w));
          checked = (\<lambda>pt. claimed pt \<and> (requiresEgressAuthorization pt \<longrightarrow> i \<in> set (aw_valid w))) in
      case pc of
        Fetch \<Rightarrow> True | Done r \<Rightarrow> True
      | Validate pt \<Rightarrow> read pt | Drop pt \<Rightarrow> read pt | Take pt \<Rightarrow> read pt
      | Revalidate pt \<Rightarrow> claimed pt
      | Act pt \<Rightarrow> checked pt
      | Execute pt \<Rightarrow> checked pt \<and> si_action inp \<noteq> Deny_call)"

definition run_ok :: "approval_deps \<Rightarrow> approval_world \<Rightarrow> nat \<times> string \<times> pending_tool \<Rightarrow> bool" where
  "run_ok deps w r \<longleftrightarrow>
     (case r of (i, reqid, pt) \<Rightarrow>
        i < length (aw_submits w) \<and> (reqid, i) \<in> set (aw_claims w) \<and> (reqid, pt) \<in> set (aw_stored w)
        \<and> (case aw_submits w ! i of (inp, pc) \<Rightarrow> si_approvalId inp = reqid \<and> approved_by deps inp pt \<and> si_action inp \<noteq> Deny_call
             \<and> (requiresEgressAuthorization pt \<longrightarrow> i \<in> set (aw_valid w)) \<and> (\<exists>r. pc = Done r)))"

definition approval_inv :: "approval_deps \<Rightarrow> approval_world \<Rightarrow> bool" where
  "approval_inv deps w \<longleftrightarrow>
     distinct (map fst (aw_claims w))
     \<and> (\<forall>(reqid, i) \<in> set (aw_claims w). map_of (as_rows (aw_state w)) reqid = None \<and> reqid \<in> fst ` set (aw_stored w)
          \<and> i < length (aw_submits w) \<and> (case snd (aw_submits w ! i) of Fetch \<Rightarrow> False | Validate _ \<Rightarrow> False | Drop _ \<Rightarrow> False | Take _ \<Rightarrow> False | _ \<Rightarrow> True))
     \<and> (\<forall>reqid row. map_of (as_rows (aw_state w)) reqid = Some row \<longrightarrow> (\<exists>pt. or_payload row = Pending_tool pt \<and> (reqid, pt) \<in> set (aw_stored w)))
     \<and> (\<forall>i < length (aw_submits w). submit_ok deps w i (fst (aw_submits w ! i)) (snd (aw_submits w ! i)))
     \<and> list_all (run_ok deps w) (aw_runs w) \<and> distinct (map fst (aw_runs w))
     \<and> as_executions (aw_state w) = map snd (aw_runs w)"

text \<open>Where a step can lead, and what it does to the rows.\<close>

lemma store_grant_keeps:
  "store_grant deps now a pat d org s = Some s' \<Longrightarrow> as_rows s' = as_rows s \<and> as_executions s' = as_executions s"
  by (auto simp: store_grant_def split: sum.splits)

lemma take_unchanged_cases:
  obtains "takePendingToolIfUnchanged digest now reqid pt (digest pt) rows = (None, rows)"
  | "takePendingToolIfUnchanged digest now reqid pt (digest pt) rows = (Some pt, AList.delete reqid rows)"
    "getPendingTool now reqid rows = Some pt"
  by (cases "getPendingTool now reqid rows = Some pt")
    (auto simp: takePendingToolIfUnchanged_def split: option.splits if_splits)

lemma submit_step_moves:
  assumes "submit_step deps now ans inp pc s = (pc', s')"
  shows "case pc of
      Fetch \<Rightarrow> (\<exists>r. pc' = Done r) \<or> (\<exists>pt. getPendingTool now (si_approvalId inp) (as_rows s) = Some pt \<and> approved_by deps inp pt \<and> (pc' = Validate pt \<or> pc' = Take pt))
    | Validate pt \<Rightarrow> pc' = Take pt \<or> pc' = Drop pt
    | Take pt \<Rightarrow> (\<exists>r. pc' = Done r) \<or>
        (getPendingTool now (si_approvalId inp) (as_rows s) = Some pt \<and> as_rows s' = AList.delete (si_approvalId inp) (as_rows s)
         \<and> (if requiresEgressAuthorization pt then pc' = Revalidate pt else pc' = Act pt))
    | Revalidate pt \<Rightarrow> pc' = Act pt \<or> (\<exists>r. pc' = Done r)
    | Act pt \<Rightarrow> (\<exists>r. pc' = Done r) \<or> pc' = Execute pt \<and> si_action inp \<noteq> Deny_call
    | Done r \<Rightarrow> pc' = Done r
    | _ \<Rightarrow> \<exists>r. pc' = Done r"
proof (cases pc)
  case (Take pt)
  show ?thesis
    by (cases rule: take_unchanged_cases [of "ad_pending_digest deps" now "si_approvalId inp" pt "as_rows s"])
      (use assms Take in \<open>auto simp: submit_step_def Let_def split: if_splits\<close>)
qed (use assms in \<open>auto simp: submit_step_def Let_def approved_by_def split: option.splits if_splits approval_action.splits\<close>)

lemma submit_step_rows:
  assumes "submit_step deps now ans inp pc s = (pc', s')"
  shows "as_rows s' = as_rows s \<or> as_rows s' = AList.delete (si_approvalId inp) (as_rows s)"
proof (cases pc)
  case (Take pt)
  show ?thesis
    by (cases rule: take_unchanged_cases [of "ad_pending_digest deps" now "si_approvalId inp" pt "as_rows s"])
      (use assms Take in \<open>auto simp: submit_step_def Let_def split: if_splits\<close>)
next
  case (Drop pt)
  show ?thesis
    by (cases rule: take_unchanged_cases [of "ad_pending_digest deps" now "si_approvalId inp" pt "as_rows s"])
      (use assms Drop in \<open>auto simp: submit_step_def Let_def\<close>)
qed (use assms in \<open>auto simp: submit_step_def Let_def dest: store_grant_keeps split: option.splits if_splits approval_action.splits\<close>)

lemma submit_step_executions:
  assumes "submit_step deps now ans inp pc s = (pc', s')"
  shows "as_executions s' = as_executions s @ (case pc of Execute pt \<Rightarrow> [(si_approvalId inp, pt)] | _ \<Rightarrow> [])"
proof (cases pc)
  case (Take pt)
  show ?thesis
    by (cases rule: take_unchanged_cases [of "ad_pending_digest deps" now "si_approvalId inp" pt "as_rows s"])
      (use assms Take in \<open>auto simp: submit_step_def Let_def split: if_splits\<close>)
qed (use assms in \<open>auto simp: submit_step_def Let_def dest: store_grant_keeps split: option.splits if_splits approval_action.splits\<close>)

lemma submit_ok_mono:
  assumes "submit_ok deps w i inp pc" "set (aw_stored w) \<subseteq> set (aw_stored w')" "set (aw_claims w) \<subseteq> set (aw_claims w')"
    "set (aw_valid w) \<subseteq> set (aw_valid w')"
  shows "submit_ok deps w' i inp pc"
  using assms by (cases pc) (auto simp: submit_ok_def Let_def)

lemma getPendingTool_row:
  "getPendingTool now reqid rows = Some pt \<Longrightarrow> \<exists>row. map_of rows reqid = Some row \<and> or_payload row = Pending_tool pt"
  by (auto simp: getPendingTool_def split: option.splits if_splits oauth_payload.splits)

lemma submit_inv:
  assumes inv: "approval_inv deps w" and i: "i < length (aw_submits w)" and sub: "aw_submits w ! i = (inp, pc)"
    and step: "submit_step deps (aw_now w) ans inp pc (aw_state w) = (pc', s')"
  shows "approval_inv deps (approval_step deps (Step i ans) w)"
proof -
  define w' where "w' = approval_step deps (Step i ans) w"
  have w': "aw_state w' = s'" "aw_submits w' = (aw_submits w)[i := (inp, pc')]" "aw_stored w' = aw_stored w"
    "aw_claims w' = aw_claims w @ (if claims_row pc pc' then [(si_approvalId inp, i)] else [])"
    "aw_valid w' = aw_valid w @ (if passes_check pc pc' then [i] else [])"
    "aw_runs w' = aw_runs w @ (case pc of Execute pt \<Rightarrow> [(i, si_approvalId inp, pt)] | _ \<Rightarrow> [])"
    unfolding w'_def using i sub step by simp_all
  let ?rows = "as_rows (aw_state w)" and ?rows' = "as_rows s'" and ?id = "si_approvalId inp"
  note moves = submit_step_moves [OF step] and rows = submit_step_rows [OF step]
  have claims: "map_of ?rows reqid = None" "reqid \<in> fst ` set (aw_stored w)" "j < length (aw_submits w)"
    "case snd (aw_submits w ! j) of Fetch \<Rightarrow> False | Validate _ \<Rightarrow> False | Drop _ \<Rightarrow> False | Take _ \<Rightarrow> False | _ \<Rightarrow> True"
    if "(reqid, j) \<in> set (aw_claims w)" for reqid j
    using inv that by (auto simp: approval_inv_def)
  have stored: "\<exists>pt. or_payload row = Pending_tool pt \<and> (reqid, pt) \<in> set (aw_stored w)" if "map_of ?rows reqid = Some row" for reqid row
    using inv that by (simp add: approval_inv_def)
  have read: "(?id, pt) \<in> set (aw_stored w)" if "getPendingTool (aw_now w) ?id ?rows = Some pt" for pt
    using getPendingTool_row [OF that] stored by fastforce
  have ok: "submit_ok deps w j (fst (aw_submits w ! j)) (snd (aw_submits w ! j))" if "j < length (aw_submits w)" for j
    using inv that by (simp add: approval_inv_def)
  have oki: "submit_ok deps w i inp pc" using ok [OF i] sub by simp
  have new: "\<exists>pt. pc = Take pt \<and> getPendingTool (aw_now w) ?id ?rows = Some pt \<and> ?rows' = AList.delete ?id ?rows
      \<and> (pc' = Revalidate pt \<or> pc' = Act pt)" if "claims_row pc pc'"
    using that moves by (cases pc; cases pc') (auto simp: claims_row_def split: if_splits)
  have rows_sub: "map_of ?rows' reqid = Some row \<Longrightarrow> map_of ?rows reqid = Some row" for reqid row
    using rows by (auto simp: jm_get_del split: if_splits)
  have "distinct (map fst (aw_claims w'))"
  proof (cases "claims_row pc pc'")
    case True
    with new have "map_of ?rows ?id \<noteq> None" using getPendingTool_row by fastforce
    then have "?id \<notin> fst ` set (aw_claims w)" using claims(1) by auto
    with inv show ?thesis by (simp add: w'(4) approval_inv_def)
  qed (use inv in \<open>simp add: w'(4) approval_inv_def\<close>)
  moreover have "map_of ?rows' reqid = None \<and> reqid \<in> fst ` set (aw_stored w) \<and> j < length (aw_submits w')
      \<and> (case snd (aw_submits w' ! j) of Fetch \<Rightarrow> False | Validate _ \<Rightarrow> False | Drop _ \<Rightarrow> False | Take _ \<Rightarrow> False | _ \<Rightarrow> True)"
    if "(reqid, j) \<in> set (aw_claims w')" for reqid j
  proof (cases "(reqid, j) \<in> set (aw_claims w)")
    case True
    note c = claims [OF True]
    have "map_of ?rows' reqid = None" using c(1) rows_sub by (metis not_None_eq)
    moreover have "case pc' of Fetch \<Rightarrow> False | Validate _ \<Rightarrow> False | Drop _ \<Rightarrow> False | Take _ \<Rightarrow> False | _ \<Rightarrow> True" if "j = i"
      using c(4) that sub moves by (cases pc) auto
    ultimately show ?thesis using c by (cases "j = i") (simp_all add: w'(2))
  next
    case False
    with that have "claims_row pc pc'" "reqid = ?id" "j = i" by (auto simp: w'(4) split: if_splits)
    with new obtain pt where pt: "getPendingTool (aw_now w) ?id ?rows = Some pt" "?rows' = AList.delete ?id ?rows" "pc' = Revalidate pt \<or> pc' = Act pt"
      by blast
    have "?id \<in> fst ` set (aw_stored w)" using read [OF pt(1)] by force
    with pt(2,3) i \<open>reqid = ?id\<close> \<open>j = i\<close> show ?thesis by (auto simp: w'(2) jm_get_del)
  qed
  moreover have "\<exists>pt. or_payload row = Pending_tool pt \<and> (reqid, pt) \<in> set (aw_stored w)" if "map_of ?rows' reqid = Some row" for reqid row
    by (rule stored [OF rows_sub [OF that]])
  moreover have "submit_ok deps w' j (fst (aw_submits w' ! j)) (snd (aw_submits w' ! j))" if j: "j < length (aw_submits w')" for j
  proof (cases "j = i")
    case False
    with j ok [of j] have "submit_ok deps w j (fst (aw_submits w' ! j)) (snd (aw_submits w' ! j))" by (simp add: w'(2))
    then show ?thesis by (rule submit_ok_mono) (auto simp: w')
  next
    case True
    have "submit_ok deps w' i inp pc'"
    proof (cases pc)
      case Fetch
      with moves read show ?thesis by (auto simp: submit_ok_def w')
    next
      case (Take pt)
      with moves oki read show ?thesis by (auto simp: submit_ok_def w' claims_row_def split: if_splits)
    next
      case (Revalidate pt)
      with moves oki show ?thesis by (auto simp: submit_ok_def w' passes_check_def)
    next
      case (Act pt)
      with moves oki show ?thesis by (auto simp: submit_ok_def w')
    qed (use moves oki in \<open>auto simp: submit_ok_def w'\<close>)
    with True i show ?thesis by (simp add: w'(2))
  qed
  moreover have "run_ok deps w' r" if r: "r \<in> set (aw_runs w')" for r
  proof (cases "r \<in> set (aw_runs w)")
    case True
    then have old: "run_ok deps w r" using inv by (simp add: approval_inv_def list_all_iff)
    obtain j reqid pt where rr: "r = (j, reqid, pt)" by (cases r)
    show ?thesis
    proof (cases "j = i")
      case True
      with old rr sub obtain res where "pc = Done res" by (auto simp: run_ok_def)
      with moves have "pc' = pc" by simp
      with old rr True sub i show ?thesis by (auto simp: run_ok_def w')
    next
      case False
      with old rr show ?thesis by (auto simp: run_ok_def w')
    qed
  next
    case False
    with r obtain pt where pt: "pc = Execute pt" "r = (i, ?id, pt)" by (cases pc) (auto simp: w'(6))
    with moves obtain res where "pc' = Done res" by auto
    with pt oki i show ?thesis by (auto simp: run_ok_def w' submit_ok_def)
  qed
  moreover have "distinct (map fst (aw_runs w'))"
  proof (cases "\<exists>pt. pc = Execute pt")
    case True
    have "i \<notin> fst ` set (aw_runs w)"
    proof
      assume "i \<in> fst ` set (aw_runs w)"
      then obtain r where "r \<in> set (aw_runs w)" "fst r = i" by auto
      then have "run_ok deps w r" "fst r = i" using inv by (simp_all add: approval_inv_def list_all_iff)
      with sub True show False by (auto simp: run_ok_def)
    qed
    moreover have "distinct (map fst (aw_runs w))" using inv by (simp add: approval_inv_def)
    moreover obtain pt where "pc = Execute pt" using True by blast
    ultimately show ?thesis by (simp add: w'(6))
  next
    case False
    then have "aw_runs w' = aw_runs w" by (cases pc) (simp_all add: w'(6))
    with inv show ?thesis by (simp add: approval_inv_def)
  qed
  moreover have "as_executions s' = map snd (aw_runs w')"
    using submit_step_executions [OF step] inv by (cases pc) (simp_all add: w'(6) approval_inv_def)
  ultimately show ?thesis
    unfolding w'_def [symmetric] approval_inv_def by (simp add: w'(1,3) list_all_iff case_prod_unfold) auto
qed

lemma approval_step_inv:
  assumes inv: "approval_inv deps w" and fresh: "\<And>reqid pt ttl. e = Store_call reqid pt ttl \<Longrightarrow> reqid \<notin> fst ` set (aw_stored w)"
  shows "approval_inv deps (approval_step deps e w)"
proof (cases e)
  case (Store_call reqid pt ttl)
  then have new: "reqid \<notin> fst ` set (aw_stored w)" using fresh by blast
  have "submit_ok deps (approval_step deps e w) i inp pc" if "submit_ok deps w i inp pc" for i inp pc
    using that by (rule submit_ok_mono) (auto simp: Store_call)
  moreover have "run_ok deps (approval_step deps e w) r" if "run_ok deps w r" for r
    using that by (auto simp: run_ok_def Store_call)
  moreover have "(reqid, i) \<notin> set (aw_claims w)" for i using inv new by (auto simp: approval_inv_def)
  ultimately show ?thesis using inv
    by (auto simp: approval_inv_def Store_call storePendingTool_def jm_get_set list_all_iff)
next
  case (Submit inp)
  have "submit_ok deps (approval_step deps e w) i inp pc" if "submit_ok deps w i inp pc" for i inp pc
    using that by (rule submit_ok_mono) (auto simp: Submit)
  moreover have "run_ok deps (approval_step deps e w) r" if "run_ok deps w r" for r
    using that by (auto simp: run_ok_def Submit nth_append)
  moreover have "submit_ok deps w' i inp Fetch" for w' i by (simp add: submit_ok_def)
  ultimately show ?thesis using inv
    by (auto simp: approval_inv_def Submit list_all_iff nth_append less_Suc_eq)
next
  case (Step i ans)
  show ?thesis
  proof (cases "i < length (aw_submits w)")
    case True
    obtain inp pc where "aw_submits w ! i = (inp, pc)" by (cases "aw_submits w ! i")
    moreover obtain pc' s' where "submit_step deps (aw_now w) ans inp pc (aw_state w) = (pc', s')"
      by (cases "submit_step deps (aw_now w) ans inp pc (aw_state w)")
    ultimately show ?thesis unfolding Step by (rule submit_inv [OF inv True])
  qed (simp add: Step inv)
next
  case (Take_elsewhere reqid)
  let ?rows = "as_rows (aw_state w)" and ?rows' = "snd (takePendingTool (aw_now w) reqid (as_rows (aw_state w)))"
  have sub: "map_of ?rows' k = Some row \<Longrightarrow> map_of ?rows k = Some row" for k row
    by (auto simp: takePendingTool_def jm_get_del split: option.splits if_splits)
  then have "map_of ?rows k = None \<Longrightarrow> map_of ?rows' k = None" for k by (metis not_None_eq)
  moreover have "submit_ok deps (approval_step deps e w) i inp pc" if "submit_ok deps w i inp pc" for i inp pc
    using that by (rule submit_ok_mono) (auto simp: Take_elsewhere)
  moreover have "run_ok deps (approval_step deps e w) r" if "run_ok deps w r" for r
    using that by (auto simp: run_ok_def Take_elsewhere)
  ultimately show ?thesis using inv sub
    by (auto simp: approval_inv_def Take_elsewhere list_all_iff)
next
  case (Time_passes d)
  have "submit_ok deps (approval_step deps e w) i inp pc" if "submit_ok deps w i inp pc" for i inp pc
    using that by (rule submit_ok_mono) (auto simp: Time_passes)
  moreover have "run_ok deps (approval_step deps e w) r" if "run_ok deps w r" for r
    using that by (auto simp: run_ok_def Time_passes)
  ultimately show ?thesis using inv by (auto simp: approval_inv_def Time_passes list_all_iff)
qed

lemma approval_step_stored: "map fst (aw_stored (approval_step deps e w)) = map fst (aw_stored w) @ stored_ids [e]"
  by (cases e) (auto simp: Let_def split: prod.split)

lemma stored_ids_append: "stored_ids (es @ fs) = stored_ids es @ stored_ids fs"
  by (induction es rule: stored_ids.induct) simp_all

lemma approval_run_inv:
  "distinct (stored_ids es) \<Longrightarrow>
     approval_inv deps (approval_run deps es (approval_start grants))
     \<and> map fst (aw_stored (approval_run deps es (approval_start grants))) = stored_ids es"
proof (induction es rule: rev_induct)
  case Nil
  then show ?case by (simp add: approval_run_def approval_start_def approval_inv_def)
next
  case (snoc e es)
  let ?w = "approval_run deps es (approval_start grants)"
  have IH: "approval_inv deps ?w" "map fst (aw_stored ?w) = stored_ids es"
    using snoc by (simp_all add: stored_ids_append)
  have step: "approval_run deps (es @ [e]) (approval_start grants) = approval_step deps e ?w" by (simp add: approval_run_def)
  have "reqid \<notin> fst ` set (aw_stored ?w)" if "e = Store_call reqid pt ttl" for reqid pt ttl
    using snoc.prems that IH(2) by (auto simp: stored_ids_append simp flip: set_map)
  from approval_step_inv [OF IH(1) this] show ?case
    unfolding step approval_step_stored IH(2) by (simp add: stored_ids_append)
qed

text \<open>An execution a submission accounts for.\<close>

definition executed_rightly :: "approval_deps \<Rightarrow> approval_world \<Rightarrow> string \<times> pending_tool \<Rightarrow> bool" where
  "executed_rightly deps w e \<longleftrightarrow> e \<in> set (aw_stored w)
     \<and> list_ex (\<lambda>i. let inp = fst (aw_submits w ! i) in
          si_approvalId inp = fst e \<and> si_action inp \<noteq> Deny_call \<and> approved_by deps inp (snd e)
          \<and> (\<not> requiresEgressAuthorization (snd e) \<or> i \<in> set (aw_valid w))) [0..<length (aw_submits w)]"

lemma run_executed_rightly: "run_ok deps w r \<Longrightarrow> executed_rightly deps w (snd r)"
  by (auto simp: run_ok_def executed_rightly_def list_ex_iff Let_def split: prod.splits intro!: bexI [of _ "fst r"])

text \<open>
  C11: However the submissions of several gateways, retries and second clicks interleave, an approved tool call is
  executed at most once; and what is executed is a call that was stored under the approval, for the agent
  and the user of the submission, who owns the agent, with an action other than deny,
  and for a call bound to a release after it has been validated once more since it was claimed.
\<close>

theorem approval_executes_once:
  assumes "distinct (stored_ids es)" "w = approval_run deps es (approval_start grants)"
  shows "distinct (map fst (as_executions (aw_state w)))
    \<and> list_all (executed_rightly deps w) (as_executions (aw_state w))"
proof -
  have inv: "approval_inv deps w" using approval_run_inv [OF assms(1)] assms(2) by simp
  then have runs: "as_executions (aw_state w) = map snd (aw_runs w)" and ok: "list_all (run_ok deps w) (aw_runs w)"
    and d: "distinct (map fst (aw_runs w))" and claims: "distinct (map fst (aw_claims w))"
    by (simp_all add: approval_inv_def)
  have "inj_on (fst \<circ> snd) (set (aw_runs w))"
  proof (rule inj_onI)
    fix a b assume a: "a \<in> set (aw_runs w)" and b: "b \<in> set (aw_runs w)" and eq: "(fst \<circ> snd) a = (fst \<circ> snd) b"
    obtain i r pt j r' pt' where ab: "a = (i, r, pt)" "b = (j, r', pt')" by (cases a; cases b)
    have "(r, i) \<in> set (aw_claims w)" "(r, j) \<in> set (aw_claims w)"
      using a b ab eq ok by (auto simp: list_all_iff run_ok_def)
    then have "i = j" using claims by (rule eq_key_imp_eq_value [rotated])
    moreover have "inj_on fst (set (aw_runs w))" using d by (simp add: distinct_map)
    ultimately show "a = b" using inj_onD [OF _ _ a b] ab by (metis fst_conv)
  qed
  moreover have "distinct (aw_runs w)" using d by (simp add: distinct_map)
  ultimately have "distinct (map fst (as_executions (aw_state w)))"
    unfolding runs by (simp add: distinct_map)
  moreover have "list_all (executed_rightly deps w) (map snd (aw_runs w))"
    using ok run_executed_rightly by (auto simp: list_all_iff)
  ultimately show ?thesis unfolding runs by blast
qed

definition sample_call :: pending_tool where
  "sample_call = \<lparr> pt_mcpId = ''m'', pt_toolName = ''drop'', pt_args = JObj [], pt_agentId = ''a'', pt_userId = ''u'',
     pt_organizationId = Some ''o'', pt_channelId = None, pt_conversationId = None, pt_teamId = None, pt_connectionId = None,
     pt_originMessageId = None, pt_processedMessageIds = None, pt_courseToolScope = None, pt_expectedMcpIdentity = None,
     pt_releaseState = None, pt_releaseBinding = None, pt_originalRunIdentity = None, pt_personalReminder = False \<rparr>"

definition sample_deps :: approval_deps where
  "sample_deps = \<lparr> ad_owns = Some (\<lambda>u a org. u = ''u'' \<and> a = ''a''), ad_organizationId = Some ''o'', ad_ambient = None, ad_ascii = (\<lambda>s. s),
     ad_sha = (\<lambda>v. []), ad_pending_digest = pt_toolName, ad_date_parse = (\<lambda>s. None) \<rparr>"

definition sample_answers :: step_answers where
  "sample_answers = \<lparr> sa_current = None, sa_eligible = None,
     sa_result = Some \<lparr> er_content = ''ok'', er_isError = False, er_diagnosticCode = None \<rparr>, sa_completed = True \<rparr>"

definition sample_click :: "string \<Rightarrow> submit_input" where
  "sample_click user = \<lparr> si_action = Approve_once, si_approvalId = ''ta'', si_toolboxUserId = user, si_lineUserId = [], si_agentId = ''a'',
     si_organizationId = None \<rparr>"

text \<open>Two clicks of the owner and one of somebody else, all read before the first is claimed.\<close>

definition sample_clicks :: "approval_event list" where
  "sample_clicks = [Store_call ''ta'' sample_call 60, Submit (sample_click ''u''), Submit (sample_click ''u''), Submit (sample_click ''v''),
     Step 0 sample_answers, Step 1 sample_answers, Step 2 sample_answers, Step 1 sample_answers, Step 0 sample_answers,
     Step 1 sample_answers, Step 1 sample_answers, Step 0 sample_answers]"

lemma approval_executes_once_witness:
  "(let w = approval_run sample_deps sample_clicks (approval_start []) in
     distinct (map fst (as_executions (aw_state w))) \<and> as_executions (aw_state w) = [(''ta'', sample_call)]
     \<and> map snd (aw_submits w) = [Done Res_expired, Done (Res_executed (the (sa_result sample_answers))), Done Res_forbidden])"
proof -
  have "distinct (stored_ids sample_clicks)" by code_simp
  from conjunct1 [OF approval_executes_once [OF this refl]]
  have "distinct (map fst (as_executions (aw_state (approval_run sample_deps sample_clicks (approval_start [])))))" .
  moreover have "as_executions (aw_state (approval_run sample_deps sample_clicks (approval_start []))) = [(''ta'', sample_call)]"
    by code_simp
  moreover have "map snd (aw_submits (approval_run sample_deps sample_clicks (approval_start [])))
      = [Done Res_expired, Done (Res_executed (the (sa_result sample_answers))), Done Res_forbidden]" by code_simp
  ultimately show ?thesis by (simp only: Let_def simp_thms)
qed

text \<open>
  The organisation of the call is not compared with that of the submission: with an owner of the same agent id in
  another organisation the call runs, with the options of its own organisation.
\<close>

lemma approval_of_other_organization:
  "(let w = approval_run (sample_deps \<lparr> ad_organizationId := None \<rparr>)
       [Store_call ''ta'' sample_call 60, Submit ((sample_click ''u'') \<lparr> si_organizationId := Some ''other'' \<rparr>),
        Step 0 sample_answers, Step 0 sample_answers, Step 0 sample_answers, Step 0 sample_answers] (approval_start []) in
     map (eo_organizationId \<circ> buildPendingToolExecutionOptions \<circ> snd) (as_executions (aw_state w)) = [Some ''o''])"
  by code_simp

end
