(* ===== verification/Tool_Access.thy ===== *)
theory Tool_Access
  imports Worker_Token
begin

text \<open>
  Who may call which tool of the server: the policy tables of \<^verbatim>\<open>server/src/auth/tool-access.ts\<close>, the gate
  before every tool (\<^verbatim>\<open>tools/execute.ts\<close>), the gate before every action of a tool with actions
  (\<^verbatim>\<open>tools/admin/action-router.ts\<close>), the registry with its listings (\<^verbatim>\<open>tools/registry.ts\<close>,
  \<^verbatim>\<open>tools/admin/index.ts\<close>) and the listings of the two front ends (\<^verbatim>\<open>mcp-handler.ts\<close>,
  \<^verbatim>\<open>rest-api.ts\<close>). Arguments are JSON values; keys that every object inherits
  (\<^verbatim>\<open>__proto__\<close>, \<^verbatim>\<open>toString\<close>) are left out.
\<close>

section \<open>The policy\<close>

datatype access_level = Lv_read | Lv_write | Lv_admin

fun accessLevelRank :: "access_level \<Rightarrow> nat" where
  "accessLevelRank Lv_read = 1"
| "accessLevelRank Lv_write = 2"
| "accessLevelRank Lv_admin = 3"

instantiation access_level :: linorder
begin

definition less_eq_access_level :: "access_level \<Rightarrow> access_level \<Rightarrow> bool" where
  "less_eq_access_level a b \<longleftrightarrow> accessLevelRank a \<le> accessLevelRank b"

definition less_access_level :: "access_level \<Rightarrow> access_level \<Rightarrow> bool" where
  "less_access_level a b \<longleftrightarrow> accessLevelRank a < accessLevelRank b"

instance
proof
  fix a b :: access_level
  assume "a \<le> b" "b \<le> a"
  then show "a = b" by (cases a; cases b) (simp_all add: less_eq_access_level_def)
qed (auto simp: less_eq_access_level_def less_access_level_def)

end

lemma level_le [simp]:
  "Lv_read \<le> l" "l \<le> Lv_admin" "Lv_write \<le> l \<longleftrightarrow> l \<noteq> Lv_read" "Lv_admin \<le> l \<longleftrightarrow> l = Lv_admin"
  "l \<le> Lv_read \<longleftrightarrow> l = Lv_read" "l \<le> Lv_write \<longleftrightarrow> l \<noteq> Lv_admin"
  by (cases l; simp add: less_eq_access_level_def)+

text \<open>A table maps tools to their actions, \<open>None\<close> stands for all of them.\<close>

type_synonym policy = "(string \<times> string list option) list"

definition MEMBER_WRITE_ACTIONS :: policy where
  "MEMBER_WRITE_ACTIONS =
     [(''save_memory'', None),
      (''run_sdk'', None),
      (''manage_entity'', Some [''create'', ''update'', ''link'', ''unlink'', ''update_link'']),
      (''manage_connections'', Some [''create'', ''update'', ''reauthenticate'']),
      (''manage_auth_profiles'', Some [''create_auth_profile'', ''update_auth_profile'', ''test_auth_profile'', ''get_auth_profile''])]"

definition OWNER_ADMIN_ACTIONS :: policy where
  "OWNER_ADMIN_ACTIONS =
     [(''manage_entity'', Some [''delete'']),
      (''manage_entity_schema'', Some [''create'', ''update'', ''delete'', ''add_rule'', ''remove_rule'']),
      (''manage_connections'', Some [''delete'', ''connect'', ''test'', ''install_connector'', ''uninstall_connector'',
         ''toggle_connector_login'', ''update_connector_auth'', ''update_connector_default_config'',
         ''update_connector_default_repair_agent'', ''set_connector_entity_link_overrides'']),
      (''manage_feeds'', Some [''create_feed'', ''update_feed'', ''delete_feed'', ''trigger_feed'']),
      (''manage_auth_profiles'', Some [''get_auth_profile'', ''test_auth_profile'', ''delete_auth_profile'', ''set_default_auth_profile'']),
      (''manage_operations'', Some [''execute'', ''approve'', ''reject'']),
      (''manage_watchers'', Some [''create'', ''update'', ''create_version'', ''upgrade'', ''complete_window'', ''trigger'',
         ''delete'', ''set_reaction_script'', ''submit_feedback'', ''create_from_version'']),
      (''manage_classifiers'', Some [''create'', ''create_version'', ''set_current_version'', ''generate_embeddings'', ''delete'', ''classify'']),
      (''manage_view_templates'', Some [''set'', ''rollback'', ''remove_tab''])]"

definition PUBLIC_READ_ACTIONS :: policy where
  "PUBLIC_READ_ACTIONS =
     [(''resolve_path'', None), (''search_memory'', None), (''search_sdk'', None), (''read_knowledge'', None),
      (''get_watcher'', None), (''list_watchers'', None),
      (''manage_entity'', Some [''list'', ''get'', ''list_links'']),
      (''manage_entity_schema'', Some [''list'', ''get'', ''audit'', ''list_rules'']),
      (''manage_connections'', Some [''list'', ''get'', ''list_connector_definitions'']),
      (''manage_feeds'', Some [''list_feeds'', ''get_feed'']),
      (''manage_auth_profiles'', Some [''list_auth_profiles'']),
      (''manage_operations'', Some [''list_available'', ''list_runs'', ''get_run'']),
      (''manage_watchers'', Some [''get_versions'', ''get_version_details'', ''get_component_reference'', ''get_feedback'']),
      (''manage_classifiers'', Some [''list'', ''get_versions'']),
      (''manage_view_templates'', Some [''get''])]"

definition getAction :: "jvalue \<Rightarrow> string option" where
  "getAction args = str_field args ''action''"

definition actionMatches :: "policy \<Rightarrow> string \<Rightarrow> jvalue \<Rightarrow> bool" where
  "actionMatches pol toolName args =
     (case map_of pol toolName of
        None \<Rightarrow> False
      | Some None \<Rightarrow> True
      | Some (Some allowedActions) \<Rightarrow>
          (case getAction args of None \<Rightarrow> False | Some action \<Rightarrow> action \<noteq> [] \<and> action \<in> set allowedActions))"

definition requiresOwnerAdmin :: "string \<Rightarrow> jvalue \<Rightarrow> bool \<Rightarrow> bool" where
  "requiresOwnerAdmin toolName args readOnlyHint \<longleftrightarrow>
     actionMatches OWNER_ADMIN_ACTIONS toolName args
     \<or> \<not> readOnlyHint \<and> \<not> (toolName \<in> fst ` set OWNER_ADMIN_ACTIONS \<or> toolName \<in> fst ` set MEMBER_WRITE_ACTIONS)"

definition requiresMemberWrite :: "string \<Rightarrow> jvalue \<Rightarrow> bool \<Rightarrow> bool" where
  "requiresMemberWrite toolName args readOnlyHint \<longleftrightarrow>
     \<not> requiresOwnerAdmin toolName args readOnlyHint \<and> actionMatches MEMBER_WRITE_ACTIONS toolName args"

definition getRequiredAccessLevel :: "string \<Rightarrow> jvalue \<Rightarrow> bool \<Rightarrow> access_level" where
  "getRequiredAccessLevel toolName args readOnlyHint =
     (if toolName = ''list_organizations'' then Lv_read
      else if requiresOwnerAdmin toolName args readOnlyHint then Lv_admin
      else if requiresMemberWrite toolName args readOnlyHint then Lv_write
      else Lv_read)"

definition hasRequiredMcpScope :: "access_level \<Rightarrow> string list option \<Rightarrow> bool" where
  "hasRequiredMcpScope requiredAccess scopes =
     (case scopes of
        None \<Rightarrow> True
      | Some ss \<Rightarrow>
          (case requiredAccess of
             Lv_read \<Rightarrow> ''mcp:read'' \<in> set ss \<or> ''mcp:write'' \<in> set ss \<or> ''mcp:admin'' \<in> set ss
           | Lv_write \<Rightarrow> ''mcp:write'' \<in> set ss \<or> ''mcp:admin'' \<in> set ss
           | Lv_admin \<Rightarrow> ''mcp:admin'' \<in> set ss))"

definition isPublicReadable :: "string \<Rightarrow> jvalue \<Rightarrow> bool" where
  "isPublicReadable toolName args = actionMatches PUBLIC_READ_ACTIONS toolName args"

definition getPublicReadableActions :: "string \<Rightarrow> string list option option" where
  "getPublicReadableActions toolName = map_of PUBLIC_READ_ACTIONS toolName"

section \<open>The caller\<close>

datatype token_type = Tk_oauth | Tk_session | Tk_pat | Tk_anonymous

record tool_context =
  tc_organizationId :: "string option"
  tc_tokenOrganizationId :: "string option"
  tc_userId :: "string option"
  tc_memberRole :: "string option"
  tc_agentId :: "string option"
  tc_isAuthenticated :: bool
  tc_scopes :: "string list option"
  tc_tokenType :: token_type
  tc_scopedToOrg :: bool
  tc_allowCrossOrg :: bool

record auth_context = tool_context +
  ac_allowInternalTools :: bool

definition isVerifiedOrganizationAdminPat :: "'a tool_context_scheme \<Rightarrow> bool" where
  "isVerifiedOrganizationAdminPat ctx \<longleftrightarrow>
     tc_isAuthenticated ctx \<and> tc_tokenType ctx = Tk_pat \<and> \<not> tc_allowCrossOrg ctx
     \<and> truthy (tc_organizationId ctx) \<and> tc_tokenOrganizationId ctx = tc_organizationId ctx
     \<and> (case tc_scopes ctx of None \<Rightarrow> False | Some ss \<Rightarrow> ''mcp:admin'' \<in> set ss)"

definition isDirectAuthMemberScheduleWrite :: "string \<Rightarrow> 'a tool_context_scheme \<Rightarrow> bool" where
  "isDirectAuthMemberScheduleWrite toolName ctx \<longleftrightarrow>
     toolName = ''manage_schedules'' \<and> tc_memberRole ctx = Some ''member'' \<and> tc_agentId ctx \<noteq> None
     \<and> (case tc_scopes ctx of None \<Rightarrow> False | Some ss \<Rightarrow> ''mcp:write'' \<in> set ss)"

definition has_admin_role :: "'a tool_context_scheme \<Rightarrow> bool" where
  "has_admin_role ctx \<longleftrightarrow> tc_memberRole ctx = Some ''owner'' \<or> tc_memberRole ctx = Some ''admin''"

definition toToolContext :: "auth_context \<Rightarrow> tool_context" where
  "toToolContext authCtx = tool_context.truncate authCtx"

section \<open>The registry\<close>

text \<open>The schema of a tool: one variant per action, or one object, with the actions its \<open>action\<close> property enumerates, if it does.\<close>

datatype tool_schema = Variants "string list" | Object_schema "string list option"

record tool_def =
  td_name :: string
  td_readOnly :: bool
  td_internal :: bool
  td_schema :: tool_schema

definition internal_tool :: "string \<Rightarrow> bool \<Rightarrow> tool_schema \<Rightarrow> tool_def" where
  "internal_tool name readOnly schema = \<lparr> td_name = name, td_readOnly = readOnly, td_internal = True, td_schema = schema \<rparr>"

definition connection_actions :: "string list" where
  "connection_actions =
     [''list'', ''list_connector_definitions'', ''get'', ''create'', ''connect'', ''update'', ''delete'', ''reauthenticate'', ''test'',
      ''install_connector'', ''uninstall_connector'', ''toggle_connector_login'', ''update_connector_auth'',
      ''update_connector_default_config'', ''update_connector_default_repair_agent'', ''set_connector_entity_link_overrides'']"

definition feed_actions :: "string list" where
  "feed_actions = [''list_feeds'', ''get_feed'', ''create_feed'', ''update_feed'', ''delete_feed'', ''trigger_feed'']"

definition auth_profile_actions :: "string list" where
  "auth_profile_actions = [''list_auth_profiles'', ''get_auth_profile'', ''test_auth_profile'', ''create_auth_profile'',
     ''update_auth_profile'', ''delete_auth_profile'', ''set_default_auth_profile'']"

definition operation_actions :: "string list" where
  "operation_actions = [''list_available'', ''execute'', ''list_runs'', ''get_run'', ''approve'', ''reject'']"

definition entity_actions :: "string list" where
  "entity_actions = [''create'', ''update'', ''list'', ''get'', ''delete'', ''link'', ''unlink'', ''update_link'', ''list_links'']"

definition entity_schema_actions :: "string list" where
  "entity_schema_actions =
     [''list'', ''get'', ''create'', ''update'', ''delete'', ''audit'', ''add_rule'', ''remove_rule'', ''list_rules'']"

definition watcher_actions :: "string list" where
  "watcher_actions = [''create'', ''update'', ''create_version'', ''upgrade'', ''complete_window'', ''trigger'', ''delete'',
     ''set_reaction_script'', ''get_versions'', ''get_version_details'', ''get_component_reference'', ''submit_feedback'',
     ''get_feedback'', ''create_from_version'']"

definition classifier_actions :: "string list" where
  "classifier_actions = [''create'', ''create_version'', ''list'', ''get_versions'', ''set_current_version'',
     ''generate_embeddings'', ''delete'', ''classify'']"

definition view_template_actions :: "string list" where
  "view_template_actions = [''set'', ''get'', ''rollback'', ''remove_tab'']"

definition INTERNAL_REST_TOOLS :: "tool_def list" where
  "INTERNAL_REST_TOOLS =
     [internal_tool ''manage_entity'' False (Object_schema (Some entity_actions)),
      internal_tool ''manage_entity_schema'' False (Object_schema (Some entity_schema_actions)),
      internal_tool ''manage_connections'' False (Variants connection_actions),
      internal_tool ''manage_feeds'' False (Variants feed_actions),
      internal_tool ''manage_auth_profiles'' False (Variants auth_profile_actions),
      internal_tool ''manage_operations'' False (Variants operation_actions),
      internal_tool ''notify'' False (Object_schema (Some [''send''])),
      internal_tool ''manage_schedules'' False (Object_schema None),
      internal_tool ''manage_watchers'' False (Object_schema (Some watcher_actions)),
      internal_tool ''list_watchers'' True (Object_schema None),
      internal_tool ''get_watcher'' True (Object_schema None),
      internal_tool ''read_knowledge'' True (Object_schema None),
      internal_tool ''manage_classifiers'' False (Object_schema (Some classifier_actions)),
      internal_tool ''manage_view_templates'' False (Object_schema (Some view_template_actions))]"

definition public_tool :: "string \<Rightarrow> bool \<Rightarrow> tool_def" where
  "public_tool name readOnly = \<lparr> td_name = name, td_readOnly = readOnly, td_internal = False, td_schema = Object_schema None \<rparr>"

definition TOOLS :: "tool_def list" where
  "TOOLS =
     [public_tool ''search_memory'' True, public_tool ''save_memory'' False, public_tool ''list_organizations'' True,
      public_tool ''search_sdk'' True, public_tool ''query_sdk'' True, public_tool ''query_sql'' True,
      internal_tool ''metric_series'' True (Object_schema None), public_tool ''run_sdk'' False]
     @ INTERNAL_REST_TOOLS @ [internal_tool ''resolve_path'' True (Object_schema None)]"

definition getTool :: "string \<Rightarrow> tool_def option" where
  "getTool name = find (\<lambda>t. td_name t = name) TOOLS"

section \<open>The gate before a tool\<close>

datatype access_error =
    Authentication_required
  | Organization_required
  | User_required
  | Not_registered string
  | Tool_not_found string
  | Needs_organization_admin string
  | Read_only_for_account
  | Read_only_for_anonymous
  | Needs_admin_role
  | Missing_scope access_level
  | Invalid_arguments string
  | Unknown_action
  | Needs_membership

definition ORG_AGNOSTIC_TOOLS :: "string list" where
  "ORG_AGNOSTIC_TOOLS = [''list_organizations'']"

definition MEMBER_INTERNAL_TOOL_WHITELIST :: "string list" where
  "MEMBER_INTERNAL_TOOL_WHITELIST = [''manage_schedules'', ''save_memory'', ''search_memory'', ''read_knowledge'']"

definition effective_access :: "string \<Rightarrow> 'a tool_context_scheme \<Rightarrow> access_level \<Rightarrow> access_level" where
  "effective_access toolName ctx requiredAccess =
     (if isDirectAuthMemberScheduleWrite toolName ctx \<and> requiredAccess = Lv_admin then Lv_write else requiredAccess)"

text \<open>\<open>None\<close>: the call is let through.\<close>

definition checkToolAccess :: "string \<Rightarrow> jvalue \<Rightarrow> auth_context \<Rightarrow> access_error option" where
  "checkToolAccess toolName args authCtx =
     (if toolName \<in> set ORG_AGNOSTIC_TOOLS
      then (if \<not> tc_isAuthenticated authCtx then Some Authentication_required
            else if \<not> hasRequiredMcpScope Lv_read (tc_scopes authCtx) then Some (Missing_scope Lv_read)
            else None)
      else if \<not> truthy (tc_organizationId authCtx) then Some Organization_required
      else
        (case getTool toolName of
           None \<Rightarrow> Some (Not_registered toolName)
         | Some tool \<Rightarrow>
             (let requiredAccess = getRequiredAccessLevel toolName args (td_readOnly tool);
                  effectiveAccess = effective_access toolName authCtx requiredAccess;
                  isTrustedSchedulePat = (toolName = ''manage_schedules'' \<and> isVerifiedOrganizationAdminPat authCtx) in
              if td_internal tool \<and> \<not> ac_allowInternalTools authCtx then Some (Tool_not_found toolName)
              else if td_internal tool \<and> ac_allowInternalTools authCtx \<and> \<not> has_admin_role authCtx
                \<and> \<not> hasRequiredMcpScope Lv_admin (tc_scopes authCtx)
                \<and> toolName \<notin> set MEMBER_INTERNAL_TOOL_WHITELIST \<and> \<not> isPublicReadable toolName args
              then Some (Needs_organization_admin toolName)
              else if \<not> truthy (tc_memberRole authCtx) \<and> \<not> isPublicReadable toolName args
              then Some (if truthy (tc_userId authCtx) then Read_only_for_account else Read_only_for_anonymous)
              else if effectiveAccess = Lv_admin \<and> \<not> has_admin_role authCtx \<and> \<not> isTrustedSchedulePat
              then Some Needs_admin_role
              else if \<not> hasRequiredMcpScope effectiveAccess (tc_scopes authCtx) then Some (Missing_scope effectiveAccess)
              else None)))"

text \<open>NUL characters are removed from the arguments a handler gets, keys included.\<close>

definition stripNul :: "string \<Rightarrow> string" where
  "stripNul s = filter (\<lambda>c. c \<noteq> CHR 0x00) s"

fun sanitizeToolInput :: "jvalue \<Rightarrow> jvalue" where
  "sanitizeToolInput (JStr s) = JStr (stripNul s)"
| "sanitizeToolInput (JArr vs) = JArr (map sanitizeToolInput vs)"
| "sanitizeToolInput (JObj ms) =
     JObj (fold (\<lambda>(k, v) out. AList.update k v out) (map (\<lambda>(k, v). (stripNul k, sanitizeToolInput v)) ms) [])"
| "sanitizeToolInput v = v"

definition VALIDATED_TOOLS :: "string list" where
  "VALIDATED_TOOLS = [''query_sdk'', ''run_sdk'']"

text \<open>What a call comes down to: the list of organisations, or the handler of a tool with its arguments.\<close>

datatype tool_call = List_organizations string "string option" | Handler_call string jvalue tool_context

text \<open>\<open>schema_ok\<close> is the check of the arguments by the schema library.\<close>

definition executeTool ::
    "(string \<Rightarrow> jvalue \<Rightarrow> bool) \<Rightarrow> string \<Rightarrow> jvalue \<Rightarrow> auth_context \<Rightarrow> access_error + tool_call" where
  "executeTool schema_ok toolName args authCtx =
     (case checkToolAccess toolName args authCtx of
        Some e \<Rightarrow> Inl e
      | None \<Rightarrow>
          (if toolName \<in> set ORG_AGNOSTIC_TOOLS
           then (case tc_userId authCtx of
                   Some user \<Rightarrow> if user = [] then Inl User_required else Inr (List_organizations user (tc_organizationId authCtx))
                 | None \<Rightarrow> Inl User_required)
           else if toolName \<in> set VALIDATED_TOOLS \<and> \<not> schema_ok toolName args then Inl (Invalid_arguments toolName)
           else Inr (Handler_call toolName (sanitizeToolInput args) (toToolContext authCtx))))"

section \<open>The gate before an action\<close>

definition isSystemContext :: "'a tool_context_scheme \<Rightarrow> bool" where
  "isSystemContext ctx \<longleftrightarrow> tc_isAuthenticated ctx \<and> tc_userId ctx = None \<and> tc_memberRole ctx = None"

definition isPrivilegedToolContext :: "'a tool_context_scheme \<Rightarrow> bool" where
  "isPrivilegedToolContext ctx \<longleftrightarrow> has_admin_role ctx \<or> isVerifiedOrganizationAdminPat ctx"

definition enforceActionAccess :: "string \<Rightarrow> jvalue \<Rightarrow> 'a tool_context_scheme \<Rightarrow> access_error option" where
  "enforceActionAccess toolName action ctx =
     (if isSystemContext ctx then None
      else
        (let effectiveAccess = effective_access toolName ctx (getRequiredAccessLevel toolName (JObj [(''action'', action)]) False) in
         if effectiveAccess = Lv_admin \<and> \<not> isPrivilegedToolContext ctx then Some Needs_admin_role
         else if effectiveAccess = Lv_write \<and> \<not> truthy (tc_memberRole ctx) then Some Needs_membership
         else if \<not> hasRequiredMcpScope effectiveAccess (tc_scopes ctx) then Some (Missing_scope effectiveAccess)
         else None))"

text \<open>
  \<^verbatim>\<open>handlers[action]\<close>: the name an action is converted to. An array of one string gives that string;
  \<open>None\<close> stands for names that no handler has (with commas, brackets or digits, \<^verbatim>\<open>null\<close>, \<^verbatim>\<open>true\<close>).
\<close>

fun handler_key :: "jvalue \<Rightarrow> string option" where
  "handler_key (JStr s) = Some s"
| "handler_key (JArr [v]) = handler_key v"
| "handler_key _ = None"

text \<open>The action whose handler runs.\<close>

definition routeAction :: "string \<Rightarrow> jvalue option \<Rightarrow> 'a tool_context_scheme \<Rightarrow> string list \<Rightarrow> access_error + string" where
  "routeAction toolName action ctx handlers =
     (case Option.bind action handler_key of
        None \<Rightarrow> Inl Unknown_action
      | Some key \<Rightarrow>
          (if key \<notin> set handlers then Inl Unknown_action
           else (case enforceActionAccess toolName (the action) ctx of Some e \<Rightarrow> Inl e | None \<Rightarrow> Inr key)))"

text \<open>The actions each tool routes; those of the others are \<open>None\<close>.\<close>

definition routed_table :: "(string \<times> string list) list" where
  "routed_table =
     [(''manage_entity'', [''create'', ''update'', ''list'', ''get'', ''delete'', ''link'', ''unlink'', ''update_link'', ''list_links'']),
      (''manage_connections'', connection_actions),
      (''manage_feeds'', feed_actions),
      (''manage_auth_profiles'', auth_profile_actions),
      (''manage_operations'', operation_actions),
      (''notify'', [''send'']),
      (''manage_schedules'', [''create'', ''get_by_creation_key'', ''activate'', ''list'', ''pause'', ''cancel'']),
      (''manage_watchers'', [''create'', ''update'', ''create_version'', ''upgrade'', ''complete_window'', ''trigger'', ''delete'',
         ''set_reaction_script'', ''get_versions'', ''get_version_details'', ''get_component_reference'', ''submit_feedback'',
         ''get_feedback'', ''create_from_version'']),
      (''manage_classifiers'', [''create'', ''create_version'', ''list'', ''get_versions'', ''set_current_version'',
         ''generate_embeddings'', ''delete'', ''classify'']),
      (''manage_view_templates'', [''set'', ''get'', ''rollback'', ''remove_tab''])]"

definition schema_actions :: "jvalue \<Rightarrow> string list" where
  "schema_actions args =
     (if str_field args ''schema_type'' = Some ''entity_type''
      then [''list'', ''get'', ''create'', ''update'', ''delete'', ''audit'']
      else [''list'', ''get'', ''create'', ''update'', ''delete'', ''add_rule'', ''remove_rule'', ''list_rules''])"

definition routed_actions :: "string \<Rightarrow> jvalue \<Rightarrow> string list option" where
  "routed_actions toolName args =
     (if toolName = ''manage_entity_schema'' then Some (schema_actions args) else map_of routed_table toolName)"

text \<open>A call from outside of a tool that routes actions.\<close>

definition call_action ::
    "(string \<Rightarrow> jvalue \<Rightarrow> bool) \<Rightarrow> string \<Rightarrow> jvalue \<Rightarrow> auth_context \<Rightarrow> access_error + string" where
  "call_action schema_ok toolName args authCtx =
     (case executeTool schema_ok toolName args authCtx of
        Inl e \<Rightarrow> Inl e
      | Inr (List_organizations user org) \<Rightarrow> Inl Unknown_action
      | Inr (Handler_call name clean ctx) \<Rightarrow>
          (case routed_actions name clean of
             None \<Rightarrow> Inl Unknown_action
           | Some handlers \<Rightarrow> routeAction name (field (Some clean) ''action'') ctx handlers))"

section \<open>Who may do what\<close>

definition listed :: "policy \<Rightarrow> string \<Rightarrow> string \<Rightarrow> bool" where
  "listed pol tool action \<longleftrightarrow> (case map_of pol tool of Some (Some actions) \<Rightarrow> action \<in> set actions | _ \<Rightarrow> False)"

text \<open>
  A caller may perform the public actions with a scope that reads, the actions of members as a member with a scope that writes,
  and every action as an administrator with a scope for it; the agents of members write schedules.
\<close>

definition may_perform :: "'a tool_context_scheme \<Rightarrow> string \<Rightarrow> string \<Rightarrow> bool" where
  "may_perform ctx tool action \<longleftrightarrow>
     hasRequiredMcpScope Lv_read (tc_scopes ctx) \<and> listed PUBLIC_READ_ACTIONS tool action
     \<or> truthy (tc_memberRole ctx) \<and> hasRequiredMcpScope Lv_write (tc_scopes ctx)
         \<and> listed MEMBER_WRITE_ACTIONS tool action \<and> \<not> listed OWNER_ADMIN_ACTIONS tool action
     \<or> (has_admin_role ctx \<or> isVerifiedOrganizationAdminPat ctx) \<and> hasRequiredMcpScope Lv_admin (tc_scopes ctx)
     \<or> isDirectAuthMemberScheduleWrite tool ctx"

text \<open>No action that a tool routes is missing from the tables: one that needs no more than reading is public.\<close>

definition classified :: "string \<Rightarrow> string \<Rightarrow> bool" where
  "classified tool action \<longleftrightarrow>
     (case getRequiredAccessLevel tool (JObj [(''action'', JStr action)]) False of
        Lv_read \<Rightarrow> listed PUBLIC_READ_ACTIONS tool action
      | Lv_write \<Rightarrow> listed MEMBER_WRITE_ACTIONS tool action \<and> \<not> listed OWNER_ADMIN_ACTIONS tool action
      | Lv_admin \<Rightarrow> True)"

lemma classified_table:
  "list_all (\<lambda>(tool, actions). list_all (classified tool) actions) routed_table"
  "list_all (classified ''manage_entity_schema'')
     [''list'', ''get'', ''create'', ''update'', ''delete'', ''audit'', ''add_rule'', ''remove_rule'', ''list_rules'']"
  by code_simp+

lemma routed_classified:
  assumes "routed_actions tool args = Some handlers" "action \<in> set handlers"
  shows "classified tool action"
proof (cases "tool = ''manage_entity_schema''")
  case True
  moreover have "set (schema_actions args)
      \<subseteq> set [''list'', ''get'', ''create'', ''update'', ''delete'', ''audit'', ''add_rule'', ''remove_rule'', ''list_rules'']"
    by (simp add: schema_actions_def)
  ultimately show ?thesis using assms classified_table(2) unfolding list_all_iff routed_actions_def by fastforce
next
  case False
  then have "(tool, handlers) \<in> set routed_table" using assms(1) by (auto simp: routed_actions_def dest: map_of_SomeD)
  with classified_table(1) assms(2) show ?thesis unfolding list_all_iff by blast
qed

lemma routeAction_runs:
  assumes "routeAction tool (Some (JStr s)) ctx handlers = Inr action"
  shows "s = action" "action \<in> set handlers" "enforceActionAccess tool (JStr action) ctx = None"
  using assms by (auto simp: routeAction_def split: if_splits option.splits)

lemma enforced_may_perform:
  assumes "enforceActionAccess tool (JStr action) ctx = None" "\<not> isSystemContext ctx" "classified tool action"
  shows "may_perform ctx tool action"
proof -
  let ?l = "getRequiredAccessLevel tool (JObj [(''action'', JStr action)]) False"
  show ?thesis
  proof (cases "isDirectAuthMemberScheduleWrite tool ctx")
    case False
    then show ?thesis
      using assms
      by (cases ?l rule: access_level.exhaust)
        (auto simp: enforceActionAccess_def effective_access_def classified_def may_perform_def isPrivilegedToolContext_def split: if_splits)
  qed (simp add: may_perform_def)
qed

lemma has_admin_role_truncate [simp]: "has_admin_role (toToolContext a) = has_admin_role a"
  by (simp add: has_admin_role_def toToolContext_def tool_context.truncate_def)

lemma truncate_fields [simp]:
  "tc_scopes (toToolContext a) = tc_scopes a" "tc_memberRole (toToolContext a) = tc_memberRole a"
  "tc_userId (toToolContext a) = tc_userId a" "tc_isAuthenticated (toToolContext a) = tc_isAuthenticated a"
  by (simp_all add: toToolContext_def tool_context.truncate_def)

lemma may_perform_truncate: "may_perform (toToolContext a) tool action = may_perform a tool action"
  by (simp add: may_perform_def has_admin_role_def isVerifiedOrganizationAdminPat_def isDirectAuthMemberScheduleWrite_def
      toToolContext_def tool_context.truncate_def)

lemma executeTool_handler:
  assumes "executeTool schema_ok tool args auth = Inr (Handler_call name clean ctx)"
  shows "name = tool" "clean = sanitizeToolInput args" "ctx = toToolContext auth" "checkToolAccess tool args auth = None"
  using assms by (auto simp: executeTool_def split: option.splits if_splits)

text \<open>
  Whatever arguments a caller from outside sends, NUL characters included, a tool runs the handler of an action
  only if the role and the scopes of the caller allow that action, provided the action it is given is a string
  and the caller is not the system itself (authenticated without user and role).
\<close>

lemma string_action_may_perform:
  assumes run: "call_action schema_ok tool args auth = Inr action"
    and string: "str_field (sanitizeToolInput args) ''action'' \<noteq> None"
    and outside: "\<not> isSystemContext auth"
  shows "may_perform auth tool action"
proof -
  obtain name clean ctx where call: "executeTool schema_ok tool args auth = Inr (Handler_call name clean ctx)"
    using run by (auto simp: call_action_def split: sum.splits tool_call.splits)
  note parts = executeTool_handler [OF call]
  obtain handlers where handlers: "routed_actions tool clean = Some handlers"
    and route: "routeAction tool (field (Some clean) ''action'') ctx handlers = Inr action"
    using run call parts(1) by (auto simp: call_action_def split: option.splits)
  obtain s where "field (Some clean) ''action'' = Some (JStr s)"
    using string parts(2) by (auto simp: str_field_def split: option.splits json.splits)
  with route have "routeAction tool (Some (JStr s)) ctx handlers = Inr action" by simp
  note r = routeAction_runs [OF this]
  have "\<not> isSystemContext ctx" using outside parts(3) by (simp add: isSystemContext_def)
  from enforced_may_perform [OF r(3) this routed_classified [OF handlers r(2)]] show ?thesis
    by (simp add: parts(3) may_perform_truncate)
qed

definition sample_member :: auth_context where
  "sample_member = \<lparr> tc_organizationId = Some ''org'', tc_tokenOrganizationId = None, tc_userId = Some ''u'', tc_memberRole = Some ''member'',
     tc_agentId = None, tc_isAuthenticated = True, tc_scopes = None, tc_tokenType = Tk_session, tc_scopedToOrg = True,
     tc_allowCrossOrg = False, ac_allowInternalTools = True \<rparr>"

text \<open>
  An action given as an array of one string is converted to that string where the handler is looked up, and is no action where
  the tier is looked up: a member deletes entities and uninstalls connectors.
\<close>

lemma array_action_escapes_tier:
  "call_action (\<lambda>t a. True) ''manage_entity'' (JObj [(''action'', JStr ''delete'')]) sample_member = Inl Needs_admin_role"
  "call_action (\<lambda>t a. True) ''manage_entity'' (JObj [(''action'', JArr [JStr ''delete''])]) sample_member = Inr ''delete''"
  "\<not> may_perform sample_member ''manage_entity'' ''delete''"
  by code_simp+

definition sample_visitor :: auth_context where
  "sample_visitor = sample_member \<lparr> tc_userId := None, tc_memberRole := None, tc_isAuthenticated := False, tc_tokenType := Tk_anonymous \<rparr>"

text \<open>
  The first gate sees the arguments before the NUL characters are removed. A second key that becomes \<^verbatim>\<open>action\<close> only
  then lets even an anonymous visitor of a public workspace run any action, and a member session whose scopes are limited
  leave the list of internal tools it may use.
\<close>

definition smuggled :: "jvalue \<Rightarrow> jvalue" where
  "smuggled action = JObj [(''action'', JStr ''list''), (''act'' @ [CHR 0x00] @ ''ion'', action)]"

lemma smuggled_action_escapes_gate:
  "call_action (\<lambda>t a. True) ''manage_connections'' (smuggled (JArr [JStr ''uninstall_connector''])) sample_visitor = Inr ''uninstall_connector''"
  "call_action (\<lambda>t a. True) ''manage_connections'' (JObj [(''action'', JStr ''create'')]) (sample_member \<lparr> tc_scopes := Some [''mcp:read'', ''mcp:write''] \<rparr>)
     = Inl (Needs_organization_admin ''manage_connections'')"
  "call_action (\<lambda>t a. True) ''manage_connections'' (smuggled (JStr ''create'')) (sample_member \<lparr> tc_scopes := Some [''mcp:read'', ''mcp:write''] \<rparr>)
     = Inr ''create''"
  by code_simp+

text \<open>Two actions of \<^verbatim>\<open>manage_auth_profiles\<close> stand in the table of members and in that of administrators, which wins.\<close>

lemma member_action_shadowed:
  "list_all (\<lambda>a. listed MEMBER_WRITE_ACTIONS ''manage_auth_profiles'' a
      \<and> call_action (\<lambda>t a. True) ''manage_auth_profiles'' (JObj [(''action'', JStr a)]) sample_member = Inl Needs_admin_role)
     [''test_auth_profile'', ''get_auth_profile'']"
  by code_simp

section \<open>The listings\<close>

definition filterSchemaForPublicActions :: "string \<Rightarrow> tool_schema \<Rightarrow> tool_schema option" where
  "filterSchemaForPublicActions toolName schema =
     (case getPublicReadableActions toolName of
        None \<Rightarrow> None
      | Some None \<Rightarrow> Some schema
      | Some (Some allowedActions) \<Rightarrow>
          (case schema of
             Object_schema _ \<Rightarrow> Some schema
           | Variants actions \<Rightarrow>
               (let kept = filter (\<lambda>a. a \<in> set allowedActions) actions in if kept = [] then None else Some (Variants kept))))"

definition filterSchemaForAccessLevel :: "string \<Rightarrow> tool_schema \<Rightarrow> bool \<Rightarrow> access_level \<Rightarrow> tool_schema option" where
  "filterSchemaForAccessLevel toolName schema readOnlyHint maxAccessLevel =
     (if getRequiredAccessLevel toolName (JObj []) readOnlyHint \<le> maxAccessLevel
      then
        (case schema of
           Object_schema _ \<Rightarrow> Some schema
         | Variants actions \<Rightarrow>
             (let kept = filter (\<lambda>a. getRequiredAccessLevel toolName (JObj [(''action'', JStr a)]) readOnlyHint \<le> maxAccessLevel) actions in
              if kept = [] then None else Some (Variants kept)))
      else None)"

text \<open>An entry of a listing: the name of a tool, and the actions its schema enumerates; variants are flattened to one object.\<close>

fun flattenUnionSchema :: "tool_schema \<Rightarrow> tool_schema" where
  "flattenUnionSchema (Variants actions) = Object_schema (Some actions)"
| "flattenUnionSchema (Object_schema actions) = Object_schema actions"

fun enumerated :: "tool_schema \<Rightarrow> string list option" where
  "enumerated (Variants actions) = Some actions"
| "enumerated (Object_schema actions) = actions"

definition list_entry :: "bool \<Rightarrow> access_level \<Rightarrow> tool_def \<Rightarrow> (string \<times> string list option) option" where
  "list_entry publicOnly maxAccessLevel tool =
     (case (if publicOnly then filterSchemaForPublicActions (td_name tool) (td_schema tool) else Some (td_schema tool)) of
        None \<Rightarrow> None
      | Some schema \<Rightarrow>
          map_option (\<lambda>schema. (td_name tool, enumerated (flattenUnionSchema schema)))
            (filterSchemaForAccessLevel (td_name tool) schema (td_readOnly tool) maxAccessLevel))"

definition computeAllTools :: "bool \<Rightarrow> bool \<Rightarrow> access_level \<Rightarrow> (string \<times> string list option) list" where
  "computeAllTools includeInternalTools publicOnly maxAccessLevel =
     List.map_filter (list_entry publicOnly maxAccessLevel)
       (filter (\<lambda>tool. (includeInternalTools \<or> \<not> td_internal tool)
          \<and> (\<not> publicOnly \<or> getPublicReadableActions (td_name tool) \<noteq> None)) TOOLS)"

definition roleAccessLevel :: "'a tool_context_scheme \<Rightarrow> access_level" where
  "roleAccessLevel ctx = (if \<not> truthy (tc_memberRole ctx) then Lv_read else if has_admin_role ctx then Lv_admin else Lv_write)"

definition scopeAccessLevel :: "'a tool_context_scheme \<Rightarrow> access_level" where
  "scopeAccessLevel ctx =
     (case tc_scopes ctx of
        None \<Rightarrow> Lv_admin
      | Some ss \<Rightarrow> if ''mcp:admin'' \<in> set ss then Lv_admin else if ''mcp:write'' \<in> set ss then Lv_write else Lv_read)"

definition maxAccessLevel :: "'a tool_context_scheme \<Rightarrow> access_level" where
  "maxAccessLevel ctx =
     (if roleAccessLevel ctx = Lv_read \<or> scopeAccessLevel ctx = Lv_read then Lv_read
      else if roleAccessLevel ctx = Lv_write \<or> scopeAccessLevel ctx = Lv_write then Lv_write
      else Lv_admin)"

definition list_mcp_tools :: "auth_context \<Rightarrow> (string \<times> string list option) list" where
  "list_mcp_tools authCtx =
     (let includeInternalTools = ac_allowInternalTools authCtx;
          publicOnly = (truthy (tc_organizationId authCtx) \<and> \<not> truthy (tc_memberRole authCtx));
          staticTools = computeAllTools includeInternalTools publicOnly (maxAccessLevel authCtx);
          isPrivileged = (roleAccessLevel authCtx = Lv_admin \<or> scopeAccessLevel authCtx = Lv_admin);
          memberScoped = (includeInternalTools \<and> \<not> isPrivileged);
          filtered = (if memberScoped
            then filter (\<lambda>t. (case getTool (fst t) of Some src \<Rightarrow> \<not> td_internal src | None \<Rightarrow> True)
              \<or> fst t \<in> set MEMBER_INTERNAL_TOOL_WHITELIST) staticTools
            else staticTools) in
      if includeInternalTools \<and> isDirectAuthMemberScheduleWrite ''manage_schedules'' authCtx
        \<and> ''manage_schedules'' \<notin> fst ` set filtered
      then (case find (\<lambda>t. fst t = ''manage_schedules'') (computeAllTools True publicOnly Lv_admin) of
              Some scheduleEntry \<Rightarrow> filtered @ [scheduleEntry] | None \<Rightarrow> filtered)
      else filtered)"

text \<open>\<open>None\<close>: no organisation. The flag tells the internal tools.\<close>

definition restListTools :: "auth_context \<Rightarrow> (string \<times> string list option \<times> bool) list option" where
  "restListTools authCtx =
     (if \<not> truthy (tc_organizationId authCtx) then None
      else Some (map (\<lambda>(name, actions). (name, actions, (case getTool name of Some t \<Rightarrow> td_internal t | None \<Rightarrow> False)))
        (computeAllTools True False (maxAccessLevel authCtx))))"

section \<open>What is listed can be called\<close>

text \<open>The calls an entry offers: one for each action it enumerates, or the call without an action.\<close>

fun offered_calls :: "string \<times> string list option \<Rightarrow> jvalue list" where
  "offered_calls (name, Some actions) = map (\<lambda>a. JObj [(''action'', JStr a)]) actions"
| "offered_calls (name, None) = [JObj []]"

lemma action_of_call [simp]: "getAction (JObj [(''action'', JStr a)]) = Some a" "getAction (JObj []) = None"
  by (simp_all add: getAction_def str_field_def)

lemma TOOLS_names: "distinct (map td_name TOOLS)" by code_simp

lemma getTool_mem: "t \<in> set TOOLS \<Longrightarrow> getTool (td_name t) = Some t"
  unfolding getTool_def by (intro find_unique) (use TOOLS_names in \<open>auto simp: distinct_map inj_on_def\<close>)

lemma level_scope:
  assumes "hasRequiredMcpScope Lv_read (tc_scopes ctx)" "l \<le> maxAccessLevel ctx"
  shows "hasRequiredMcpScope l (tc_scopes ctx)" "l = Lv_admin \<Longrightarrow> has_admin_role ctx"
  using assms
  by (cases l; auto simp: hasRequiredMcpScope_def maxAccessLevel_def roleAccessLevel_def scopeAccessLevel_def split: if_splits option.splits)+

lemma no_empty_action: "map_of PUBLIC_READ_ACTIONS tool = Some (Some actions) \<Longrightarrow> [] \<notin> set actions"
proof -
  assume "map_of PUBLIC_READ_ACTIONS tool = Some (Some actions)"
  then have "(tool, Some actions) \<in> set PUBLIC_READ_ACTIONS" by (rule map_of_SomeD)
  moreover have "list_all (\<lambda>(t, as). case as of None \<Rightarrow> True | Some as \<Rightarrow> list_all (\<lambda>a. a \<noteq> []) as) PUBLIC_READ_ACTIONS" by code_simp
  ultimately show ?thesis unfolding list_all_iff by fastforce
qed

text \<open>The tools whose schema is one object that enumerates actions: no listing takes actions out of it.\<close>

definition lists_all_actions :: "string \<Rightarrow> bool" where
  "lists_all_actions name \<longleftrightarrow> (\<exists>t actions. getTool name = Some t \<and> td_schema t = Object_schema (Some actions))"

definition call_level :: "string \<Rightarrow> jvalue \<Rightarrow> access_level" where
  "call_level name args = getRequiredAccessLevel name args (case getTool name of Some t \<Rightarrow> td_readOnly t | None \<Rightarrow> False)"

lemma whole_actions:
  assumes "t \<in> set TOOLS" "td_schema t = Object_schema (Some actions)" "a \<in> set actions"
  shows "isPublicReadable (td_name t) (JObj [(''action'', JStr a)])
    \<longleftrightarrow> getRequiredAccessLevel (td_name t) (JObj [(''action'', JStr a)]) (td_readOnly t) = Lv_read"
    "td_name t \<notin> set ORG_AGNOSTIC_TOOLS" "td_name t \<noteq> ''manage_schedules''"
proof -
  have "list_all (\<lambda>t. case td_schema t of Object_schema (Some as) \<Rightarrow> td_name t \<notin> set ORG_AGNOSTIC_TOOLS \<and> td_name t \<noteq> ''manage_schedules''
      \<and> list_all (\<lambda>a. isPublicReadable (td_name t) (JObj [(''action'', JStr a)])
        \<longleftrightarrow> getRequiredAccessLevel (td_name t) (JObj [(''action'', JStr a)]) (td_readOnly t) = Lv_read) as | _ \<Rightarrow> True) TOOLS"
    by code_simp
  with assms(1,2) have "td_name t \<notin> set ORG_AGNOSTIC_TOOLS \<and> td_name t \<noteq> ''manage_schedules''
      \<and> list_all (\<lambda>a. isPublicReadable (td_name t) (JObj [(''action'', JStr a)])
        \<longleftrightarrow> getRequiredAccessLevel (td_name t) (JObj [(''action'', JStr a)]) (td_readOnly t) = Lv_read) actions"
    unfolding list_all_iff by fastforce
  with assms(3) show "isPublicReadable (td_name t) (JObj [(''action'', JStr a)])
    \<longleftrightarrow> getRequiredAccessLevel (td_name t) (JObj [(''action'', JStr a)]) (td_readOnly t) = Lv_read"
    "td_name t \<notin> set ORG_AGNOSTIC_TOOLS" "td_name t \<noteq> ''manage_schedules''"
    unfolding list_all_iff by blast+
qed

lemma filters_keep_objects:
  "filterSchemaForPublicActions n sch = Some (Object_schema actions) \<Longrightarrow> sch = Object_schema actions"
  "filterSchemaForPublicActions n (Object_schema actions) = Some sch' \<Longrightarrow> sch' = Object_schema actions"
  "filterSchemaForAccessLevel n (Object_schema actions) r l = Some sch' \<Longrightarrow> sch' = Object_schema actions"
  by (auto simp: filterSchemaForPublicActions_def filterSchemaForAccessLevel_def Let_def split: if_splits option.splits tool_schema.splits)

lemma list_entry_call:
  assumes "list_entry publicOnly l t = Some e" "args \<in> set (offered_calls e)"
  shows "fst e = td_name t"
    "(\<And>actions. td_schema t = Object_schema (Some actions) \<Longrightarrow> getRequiredAccessLevel (td_name t) args (td_readOnly t) \<le> l)
       \<Longrightarrow> getRequiredAccessLevel (td_name t) args (td_readOnly t) \<le> l"
proof -
  obtain sch where sch: "sch = td_schema t \<or> filterSchemaForPublicActions (td_name t) (td_schema t) = Some sch"
    and e: "map_option (\<lambda>schema. (td_name t, enumerated (flattenUnionSchema schema)))
        (filterSchemaForAccessLevel (td_name t) sch (td_readOnly t) l) = Some e"
    using assms(1) by (auto simp: list_entry_def split: if_splits option.splits)
  show "fst e = td_name t" using e by auto
  assume whole: "\<And>actions. td_schema t = Object_schema (Some actions) \<Longrightarrow> getRequiredAccessLevel (td_name t) args (td_readOnly t) \<le> l"
  show "getRequiredAccessLevel (td_name t) args (td_readOnly t) \<le> l"
  proof (cases "\<exists>actions. td_schema t = Object_schema (Some actions)")
    case False
    have "sch \<noteq> Object_schema (Some actions)" for actions using sch False filters_keep_objects(1) by metis
    then obtain variants where "sch = Variants variants \<or> sch = Object_schema None" by (metis tool_schema.exhaust option.exhaust)
    then show ?thesis using e assms(2)
      by (auto simp: filterSchemaForAccessLevel_def Let_def split: if_splits)
  qed (use whole in blast)
qed

lemma list_entry_whole:
  assumes "list_entry publicOnly l t = Some e" "args \<in> set (offered_calls e)" "td_schema t = Object_schema (Some actions)"
  obtains a where "a \<in> set actions" "args = JObj [(''action'', JStr a)]"
proof -
  obtain sch where sch: "sch = td_schema t \<or> filterSchemaForPublicActions (td_name t) (td_schema t) = Some sch"
    and e: "map_option (\<lambda>schema. (td_name t, enumerated (flattenUnionSchema schema)))
        (filterSchemaForAccessLevel (td_name t) sch (td_readOnly t) l) = Some e"
    using assms(1) by (auto simp: list_entry_def split: if_splits option.splits)
  have "sch = Object_schema (Some actions)" using sch assms(3) filters_keep_objects(2) by auto
  with e have "e = (td_name t, Some actions)" by (auto dest: filters_keep_objects(3))
  then show ?thesis using assms(2) that by auto
qed

lemma list_entry_public:
  assumes "list_entry True l t = Some e" "args \<in> set (offered_calls e)" "args \<noteq> JObj []" "t \<in> set TOOLS"
    and level: "getRequiredAccessLevel (td_name t) args (td_readOnly t) \<le> Lv_read"
  shows "isPublicReadable (td_name t) args"
proof (cases "\<exists>actions. td_schema t = Object_schema (Some actions)")
  case True
  then obtain actions where whole: "td_schema t = Object_schema (Some actions)" by blast
  from list_entry_whole [OF assms(1,2) whole] obtain a where a: "a \<in> set actions" "args = JObj [(''action'', JStr a)]" by blast
  show ?thesis using whole_actions(1) [OF assms(4) whole a(1)] level a(2) by simp
next
  case False
  show ?thesis
  proof (cases "map_of PUBLIC_READ_ACTIONS (td_name t)")
    case None
    with assms(1) show ?thesis by (simp add: list_entry_def filterSchemaForPublicActions_def getPublicReadableActions_def)
  next
    case (Some allowed)
    show ?thesis
    proof (cases allowed)
      case None
      with Some show ?thesis by (simp add: isPublicReadable_def actionMatches_def)
    next
      case (Some actions)
      with \<open>map_of PUBLIC_READ_ACTIONS (td_name t) = Some allowed\<close>
      have m: "map_of PUBLIC_READ_ACTIONS (td_name t) = Some (Some actions)" by simp
      obtain variants where v: "td_schema t = Variants variants \<or> td_schema t = Object_schema None"
        using False by (metis tool_schema.exhaust option.exhaust)
      show ?thesis
        using assms(1-3) no_empty_action [OF m] m v
        by (auto simp: list_entry_def filterSchemaForPublicActions_def getPublicReadableActions_def filterSchemaForAccessLevel_def
            Let_def isPublicReadable_def actionMatches_def split: if_splits)
    qed
  qed
qed

lemma computeAllTools_mem:
  assumes "e \<in> set (computeAllTools inc pub l)"
  obtains t where "t \<in> set TOOLS" "inc \<or> \<not> td_internal t" "pub \<Longrightarrow> getPublicReadableActions (td_name t) \<noteq> None"
    "list_entry pub l t = Some e"
  using assms by (auto simp: computeAllTools_def List.map_filter_def)

lemma effective_scope:
  assumes "hasRequiredMcpScope l (tc_scopes ctx)"
  shows "hasRequiredMcpScope (effective_access tool ctx l) (tc_scopes ctx)"
  using assms by (auto simp: effective_access_def isDirectAuthMemberScheduleWrite_def hasRequiredMcpScope_def split: option.splits)

lemma effective_admin: "effective_access tool ctx l = Lv_admin \<Longrightarrow> l = Lv_admin"
  by (simp add: effective_access_def split: if_splits)

lemma checkToolAccess_passes:
  assumes "name \<notin> set ORG_AGNOSTIC_TOOLS" "truthy (tc_organizationId auth)" "getTool name = Some t"
    and "td_internal t \<Longrightarrow> ac_allowInternalTools auth"
    and "td_internal t \<Longrightarrow> has_admin_role auth \<or> hasRequiredMcpScope Lv_admin (tc_scopes auth)
           \<or> name \<in> set MEMBER_INTERNAL_TOOL_WHITELIST \<or> isPublicReadable name args"
    and "truthy (tc_memberRole auth) \<or> isPublicReadable name args"
    and "effective_access name auth (getRequiredAccessLevel name args (td_readOnly t)) = Lv_admin \<Longrightarrow> has_admin_role auth"
    and "hasRequiredMcpScope (effective_access name auth (getRequiredAccessLevel name args (td_readOnly t))) (tc_scopes auth)"
  shows "checkToolAccess name args auth = None"
  using assms by (auto simp: checkToolAccess_def Let_def)

lemma not_privileged:
  assumes "\<not> has_admin_role auth" "\<not> hasRequiredMcpScope Lv_admin (tc_scopes auth)"
  shows "roleAccessLevel auth \<noteq> Lv_admin" "scopeAccessLevel auth \<noteq> Lv_admin"
  using assms by (auto simp: roleAccessLevel_def scopeAccessLevel_def hasRequiredMcpScope_def split: option.splits)

lemma static_entry_passes:
  assumes org: "truthy (tc_organizationId auth)" and auth: "truthy (tc_memberRole auth) \<Longrightarrow> tc_isAuthenticated auth"
    and scope: "hasRequiredMcpScope Lv_read (tc_scopes auth)"
    and e: "e \<in> set (computeAllTools (ac_allowInternalTools auth) (\<not> truthy (tc_memberRole auth)) (maxAccessLevel auth))"
    and kept: "ac_allowInternalTools auth \<Longrightarrow> roleAccessLevel auth \<noteq> Lv_admin \<Longrightarrow> scopeAccessLevel auth \<noteq> Lv_admin \<Longrightarrow>
      (case getTool (fst e) of Some src \<Rightarrow> \<not> td_internal src | None \<Rightarrow> True) \<or> fst e \<in> set MEMBER_INTERNAL_TOOL_WHITELIST"
    and args: "args \<in> set (offered_calls e)" and shown: "truthy (tc_memberRole auth) \<or> args \<noteq> JObj []"
    and within: "lists_all_actions (fst e) \<Longrightarrow> call_level (fst e) args \<le> maxAccessLevel auth"
  shows "checkToolAccess (fst e) args auth = None"
proof -
  obtain t where t: "t \<in> set TOOLS" "ac_allowInternalTools auth \<or> \<not> td_internal t"
    "\<not> truthy (tc_memberRole auth) \<Longrightarrow> getPublicReadableActions (td_name t) \<noteq> None"
    "list_entry (\<not> truthy (tc_memberRole auth)) (maxAccessLevel auth) t = Some e"
    using computeAllTools_mem [OF e] by metis
  have name: "fst e = td_name t" by (rule list_entry_call(1) [OF t(4) args])
  have tool: "getTool (fst e) = Some t" using getTool_mem [OF t(1)] name by simp
  have "getRequiredAccessLevel (td_name t) args (td_readOnly t) \<le> maxAccessLevel auth"
    by (rule list_entry_call(2) [OF t(4) args]) (use within tool name in \<open>auto simp: lists_all_actions_def call_level_def\<close>)
  note call = name this
  note level = level_scope [OF scope call(2)]
  have public: "truthy (tc_memberRole auth) \<or> isPublicReadable (fst e) args"
  proof (cases "truthy (tc_memberRole auth)")
    case False
    then have "maxAccessLevel auth = Lv_read" by (simp add: maxAccessLevel_def roleAccessLevel_def)
    then show ?thesis using list_entry_public [OF _ args _ t(1)] t(4) shown call False by simp
  qed simp
  show ?thesis
  proof (cases "fst e \<in> set ORG_AGNOSTIC_TOOLS")
    case True
    then have "td_name t = ''list_organizations''" by (simp add: ORG_AGNOSTIC_TOOLS_def call(1))
    moreover have "getPublicReadableActions ''list_organizations'' = None" by code_simp
    ultimately have "truthy (tc_memberRole auth)" using t(3) by auto
    with True scope auth show ?thesis by (simp add: checkToolAccess_def)
  next
    case False
    show ?thesis
    proof (rule checkToolAccess_passes [OF False org tool])
      show "td_internal t \<Longrightarrow> ac_allowInternalTools auth" using t(2) by blast
      show "has_admin_role auth \<or> hasRequiredMcpScope Lv_admin (tc_scopes auth)
           \<or> fst e \<in> set MEMBER_INTERNAL_TOOL_WHITELIST \<or> isPublicReadable (fst e) args" if "td_internal t"
        using kept not_privileged that t(2) tool by auto
      show "truthy (tc_memberRole auth) \<or> isPublicReadable (fst e) args" by (rule public)
      show "has_admin_role auth"
        if "effective_access (fst e) auth (getRequiredAccessLevel (fst e) args (td_readOnly t)) = Lv_admin"
        using effective_admin [OF that] level(2) call(1) by simp
      show "hasRequiredMcpScope (effective_access (fst e) auth (getRequiredAccessLevel (fst e) args (td_readOnly t))) (tc_scopes auth)"
        using effective_scope [OF level(1)] call(1) by simp
    qed
  qed
qed

lemma schedules_tool: "getTool ''manage_schedules'' = Some (internal_tool ''manage_schedules'' False (Object_schema None))"
  by code_simp

lemma schedule_entry_passes:
  assumes "truthy (tc_organizationId auth)" "ac_allowInternalTools auth" "isDirectAuthMemberScheduleWrite ''manage_schedules'' auth"
  shows "checkToolAccess ''manage_schedules'' args auth = None"
proof -
  note tool = schedules_tool
  have role: "tc_memberRole auth = Some ''member''" and scope: "hasRequiredMcpScope Lv_write (tc_scopes auth)"
    using assms(3) by (auto simp: isDirectAuthMemberScheduleWrite_def hasRequiredMcpScope_def split: option.splits)
  have "hasRequiredMcpScope Lv_read (tc_scopes auth)" using scope by (auto simp: hasRequiredMcpScope_def split: option.splits)
  then have eff: "effective_access ''manage_schedules'' auth l \<noteq> Lv_admin"
    "hasRequiredMcpScope (effective_access ''manage_schedules'' auth l) (tc_scopes auth)" for l
    using scope assms(3) by (cases l; simp add: effective_access_def)+
  show ?thesis
    by (rule checkToolAccess_passes [OF _ assms(1) tool])
      (use assms(2) role eff in \<open>simp_all add: ORG_AGNOSTIC_TOOLS_def MEMBER_INTERNAL_TOOL_WHITELIST_def\<close>)
qed

text \<open>An action that needs more than the caller has is refused, listed or not.\<close>

lemma beyond_level_refused:
  assumes tool: "getTool name = Some t" "td_name t = name" "t \<in> set TOOLS" and whole: "td_schema t = Object_schema (Some actions)" "a \<in> set actions"
    and beyond: "\<not> getRequiredAccessLevel name (JObj [(''action'', JStr a)]) (td_readOnly t) \<le> maxAccessLevel auth"
  shows "checkToolAccess name (JObj [(''action'', JStr a)]) auth \<noteq> None"
proof
  let ?args = "JObj [(''action'', JStr a)]" and ?l = "getRequiredAccessLevel name (JObj [(''action'', JStr a)]) (td_readOnly t)"
  assume pass: "checkToolAccess name ?args auth = None"
  note facts = whole_actions [OF tool(3) whole, unfolded tool(2)]
  have eff: "effective_access name auth ?l = ?l" using facts(3) by (simp add: effective_access_def isDirectAuthMemberScheduleWrite_def)
  have checks: "truthy (tc_memberRole auth) \<or> isPublicReadable name ?args" "?l = Lv_admin \<longrightarrow> has_admin_role auth"
    "hasRequiredMcpScope ?l (tc_scopes auth)"
    using pass facts(2,3) tool(1) eff by (auto simp: checkToolAccess_def Let_def split: if_splits)
  then show False
    using beyond facts(1)
    by (cases ?l; auto simp: maxAccessLevel_def roleAccessLevel_def scopeAccessLevel_def hasRequiredMcpScope_def has_admin_role_def
        split: if_splits option.splits)
qed

lemma static_entry_beyond:
  assumes e: "e \<in> set (computeAllTools inc pub l)" and args: "args \<in> set (offered_calls e)"
    and whole: "lists_all_actions (fst e)" and beyond: "\<not> call_level (fst e) args \<le> maxAccessLevel auth"
  shows "checkToolAccess (fst e) args auth \<noteq> None"
proof -
  obtain t where t: "t \<in> set TOOLS" "list_entry pub l t = Some e" using computeAllTools_mem [OF e] by metis
  have name: "fst e = td_name t" by (rule list_entry_call(1) [OF t(2) args])
  have tool: "getTool (fst e) = Some t" using getTool_mem [OF t(1)] name by simp
  with whole obtain actions where schema: "td_schema t = Object_schema (Some actions)" by (auto simp: lists_all_actions_def)
  from list_entry_whole [OF t(2) args schema] obtain a where a: "a \<in> set actions" "args = JObj [(''action'', JStr a)]" by blast
  show ?thesis
    using beyond_level_refused [OF tool name [symmetric] t(1) schema a(1)] beyond tool a(2) by (simp add: call_level_def)
qed



text \<open>A member is shown the action \<^verbatim>\<open>delete\<close> of \<^verbatim>\<open>manage_entity\<close>, and refused when calling it.\<close>

lemma listed_delete_refused:
  "(''manage_entity'', Some entity_actions) \<in> set (list_mcp_tools sample_member)" "''delete'' \<in> set entity_actions"
  "checkToolAccess ''manage_entity'' (JObj [(''action'', JStr ''delete'')]) sample_member = Some Needs_admin_role"
  by code_simp+

text \<open>
  Two listings that promise more than the gate allows: a session whose scopes do not read at all is shown the tools that
  read, and \<^verbatim>\<open>GET tools\<close> shows someone who is no member the tools only members can call.
\<close>

lemma listing_without_read_scope:
  "list_all (\<lambda>e. list_all (\<lambda>args. checkToolAccess (fst e) args (sample_member \<lparr> tc_scopes := Some [''profile:read''] \<rparr>) = Some (Missing_scope Lv_read))
     (offered_calls e)) [(''query_sql'', None), (''search_memory'', None)]"
  "list_all (\<lambda>e. e \<in> set (list_mcp_tools (sample_member \<lparr> tc_scopes := Some [''profile:read''] \<rparr>))) [(''query_sql'', None), (''search_memory'', None)]"
  by code_simp+

lemma rest_listing_for_visitor:
  "(''query_sql'', None, False) \<in> set (the (restListTools sample_visitor))"
  "checkToolAccess ''query_sql'' (JObj []) sample_visitor = Some Read_only_for_anonymous"
  by code_simp+

end
