(* ===== verification/Tenant_Auth.thy ===== *)
theory Tenant_Auth
  imports Tool_Access State_Adapter
begin

text \<open>
  Who a request comes from and for which organisation it acts: \<^verbatim>\<open>MultiTenantProvider.resolveAuth\<close>
  (\<^verbatim>\<open>server/src/workspace/multi-tenant.ts\<close>) with its caches (\<^verbatim>\<open>utils/ttl-cache.ts\<close>), and
  \<^verbatim>\<open>extractAuthContext\<close> (\<^verbatim>\<open>tools/execute.ts\<close>). The tables are association lists; the services that verify
  tokens and sessions are arguments.
\<close>

section \<open>Caches with a lifetime\<close>

record 'v ttl_entry =
  te_value :: 'v
  te_expiresAt :: ms

type_synonym 'v ttl_cache = "(string, 'v ttl_entry) jmap"

definition cache_get :: "ms \<Rightarrow> string \<Rightarrow> 'v ttl_cache \<Rightarrow> 'v option \<times> 'v ttl_cache" where
  "cache_get now key store =
     (case map_of store key of
        None \<Rightarrow> (None, store)
      | Some entry \<Rightarrow> if te_expiresAt entry < now then (None, AList.delete key store) else (Some (te_value entry), store))"

definition cache_set :: "ms \<Rightarrow> ms \<Rightarrow> string \<Rightarrow> 'v \<Rightarrow> 'v ttl_cache \<Rightarrow> 'v ttl_cache" where
  "cache_set ttlMs now key value = AList.update key \<lparr> te_value = value, te_expiresAt = now + ttlMs \<rparr>"

definition cache_delete :: "string \<Rightarrow> 'v ttl_cache \<Rightarrow> 'v ttl_cache" where
  "cache_delete key = AList.delete key"

definition cache_clear :: "'v ttl_cache \<Rightarrow> 'v ttl_cache" where
  "cache_clear store = []"

definition cache_look :: "ms \<Rightarrow> string \<Rightarrow> 'v ttl_cache \<Rightarrow> 'v option" where
  "cache_look now key store = fst (cache_get now key store)"

lemma cache_look_map_of:
  "cache_look now key store = (case map_of store key of None \<Rightarrow> None
     | Some e \<Rightarrow> if te_expiresAt e < now then None else Some (te_value e))"
  by (simp add: cache_look_def cache_get_def split: option.split)

text \<open>The cache of 60 seconds that the roles and the organisations are kept in.\<close>

definition ORG_TTL_MS :: ms where
  "ORG_TTL_MS = 60000"

interpretation ttl_cache: expiring_cache cache_look
  "\<lambda>local key v ttl. cache_set ORG_TTL_MS local key v" cache_delete "\<lambda>now key store. snd (cache_get now key store)"
  "\<lambda>now local ttl. now \<le> local + ORG_TTL_MS"
proof unfold_locales
  fix now before :: ms and k k' :: string and d :: "'a ttl_cache"
  assume "before \<le> now"
  then show "cache_look now k (snd (cache_get before k' d)) = cache_look now k d"
    by (auto simp: cache_look_map_of cache_get_def jm_get_del split: option.splits)
qed (auto simp: cache_look_map_of cache_set_def cache_delete_def jm_get_set jm_get_del)

section \<open>Requests, tables and services\<close>

datatype info_type = Info_access_token | Info_pat

record auth_info =
  ai_userId :: string
  ai_organizationId :: "string option"
  ai_scopes :: "string list"
  ai_tokenType :: info_type
  ai_agentId :: "string option"

record http_request =
  rq_authorization :: "string option"
  rq_memoryDirect :: "string option"
  rq_path :: string
  rq_orgParam :: "string option"
  rq_subdomainOrg :: "string option"
  rq_toolName :: "string option"
  rq_method :: string
  rq_contentType :: "string option"
  rq_body :: "jvalue option"

record tenant_db =
  tn_organizations :: "(string \<times> string \<times> string option) list"
  tn_members :: "((string \<times> string) \<times> string) list"
  tn_agents :: "((string \<times> string) \<times> string option) list"

record tenant_caches =
  orgSlugCache :: "(string \<times> string) ttl_cache"
  memberRoleCache :: "string option ttl_cache"

text \<open>A worker token gives its agent and its user; \<open>sv_memberAgents\<close> is the flag for agents of members.\<close>

record auth_services =
  sv_worker :: "string \<Rightarrow> (string option \<times> string) option"
  sv_pat :: "string \<Rightarrow> auth_info option"
  sv_oauth :: "string \<Rightarrow> auth_info option"
  sv_session :: "http_request \<Rightarrow> string option"
  sv_memberAgents :: bool

record auth_vars =
  av_info :: "auth_info option"
  av_authenticated :: bool
  av_organizationId :: "string option"
  av_memberRole :: "string option"
  av_session :: "string option"

datatype auth_outcome = Refused nat | Continue auth_vars

definition UNSCOPED_PATH_PREFIXES :: "string list" where
  "UNSCOPED_PATH_PREFIXES = [''/mcp/'', ''/api/me/'', ''/api/workers/'']"

definition isMcpRoute :: "http_request \<Rightarrow> bool" where
  "isMcpRoute rq \<longleftrightarrow> rq_path rq = ''/mcp'' \<or> starts_with (rq_path rq) ''/mcp/''"

definition isUnscopedRoute :: "http_request \<Rightarrow> bool" where
  "isUnscopedRoute rq \<longleftrightarrow> list_ex (starts_with (rq_path rq)) UNSCOPED_PATH_PREFIXES \<or> rq_path rq = ''/mcp''"

definition requestedOrgSlug :: "http_request \<Rightarrow> string option" where
  "requestedOrgSlug rq =
     (if truthy (rq_orgParam rq) then rq_orgParam rq else if truthy (rq_subdomainOrg rq) then rq_subdomainOrg rq else None)"

definition has_substring :: "string \<Rightarrow> string \<Rightarrow> bool" where
  "has_substring s p \<longleftrightarrow> list_ex (\<lambda>i. starts_with (drop i s) p) [0..<Suc (length s)]"

definition canAccessPublicOrgRequest :: "http_request \<Rightarrow> bool" where
  "canAccessPublicOrgRequest rq \<longleftrightarrow>
     (case rq_toolName rq of
        None \<Rightarrow> False
      | Some toolName \<Rightarrow>
          toolName \<noteq> [] \<and> \<not> isMcpRoute rq \<and> upper (rq_method rq) \<in> {''POST'', ''PUT'', ''PATCH''}
          \<and> has_substring (lower (case rq_contentType rq of Some t \<Rightarrow> t | None \<Rightarrow> [])) ''application/json''
          \<and> (case rq_body rq of
               None \<Rightarrow> False
             | Some payload \<Rightarrow> isPublicReadable toolName (case payload of JObj ms \<Rightarrow> payload | _ \<Rightarrow> JObj [])))"

section \<open>Lookups\<close>

text \<open>The organisation of a slug with its visibility; \<open>None\<close>: there is none.\<close>

definition resolve_org :: "ms \<Rightarrow> string \<Rightarrow> tenant_db \<Rightarrow> tenant_caches \<Rightarrow> (string \<times> string) option \<times> tenant_caches" where
  "resolve_org now slug db caches =
     (case cache_get now slug (orgSlugCache caches) of
        (Some org, store) \<Rightarrow> (Some org, caches \<lparr> orgSlugCache := store \<rparr>)
      | (None, store) \<Rightarrow>
          (case map_of (tn_organizations db) slug of
             None \<Rightarrow> (None, caches \<lparr> orgSlugCache := store \<rparr>)
           | Some (orgid, visibility) \<Rightarrow>
               (let org = (orgid, case visibility of Some v \<Rightarrow> v | None \<Rightarrow> ''private'') in
                (Some org, caches \<lparr> orgSlugCache := cache_set ORG_TTL_MS now slug org store \<rparr>))))"

definition role_key :: "string \<Rightarrow> string \<Rightarrow> string" where
  "role_key orgId userId = orgId @ '':'' @ userId"

definition getMembershipRole ::
    "ms \<Rightarrow> bool \<Rightarrow> string \<Rightarrow> string \<Rightarrow> tenant_db \<Rightarrow> tenant_caches \<Rightarrow> string option \<times> tenant_caches" where
  "getMembershipRole now bypassCache orgId userId db caches =
     (let key = role_key orgId userId;
          (cached, store) = (if bypassCache then (None, memberRoleCache caches) else cache_get now key (memberRoleCache caches)) in
      case cached of
        Some role \<Rightarrow> (role, caches \<lparr> memberRoleCache := store \<rparr>)
      | None \<Rightarrow>
          (let role = map_of (tn_members db) (orgId, userId) in
           (role, caches \<lparr> memberRoleCache := cache_set ORG_TTL_MS now key role store \<rparr>)))"

definition getCachedMembershipRole ::
    "ms \<Rightarrow> string \<Rightarrow> string option \<Rightarrow> tenant_db \<Rightarrow> tenant_caches \<Rightarrow> string option \<times> tenant_caches" where
  "getCachedMembershipRole now orgId userId db caches =
     (case userId of
        None \<Rightarrow> (None, caches)
      | Some user \<Rightarrow> if user = [] then (None, caches) else getMembershipRole now False orgId user db caches)"

definition invalidateMembershipRoleCache :: "string \<Rightarrow> string option \<Rightarrow> tenant_caches \<Rightarrow> tenant_caches" where
  "invalidateMembershipRoleCache orgId userId caches =
     (case userId of
        None \<Rightarrow> caches
      | Some user \<Rightarrow> if user = [] then caches else caches \<lparr> memberRoleCache := cache_delete (role_key orgId user) (memberRoleCache caches) \<rparr>)"

definition invalidateOrgSlugCache :: "string option \<Rightarrow> tenant_caches \<Rightarrow> tenant_caches" where
  "invalidateOrgSlugCache slug caches =
     (case slug of
        None \<Rightarrow> caches
      | Some s \<Rightarrow> if s = [] then caches else caches \<lparr> orgSlugCache := cache_delete s (orgSlugCache caches) \<rparr>)"

section \<open>Authentication\<close>

definition bearer_token :: "http_request \<Rightarrow> string option" where
  "bearer_token rq =
     (case rq_authorization rq of
        None \<Rightarrow> None | Some h \<Rightarrow> if starts_with h ''Bearer '' then Some (drop 7 h) else None)"

definition no_vars :: auth_vars where
  "no_vars = \<lparr> av_info = None, av_authenticated = False, av_organizationId = None, av_memberRole = None, av_session = None \<rparr>"

text \<open>The worker of an agent: the session of the user who owns the agent, if the organisation lets that user in.\<close>

definition direct_auth :: "auth_services \<Rightarrow> string option \<Rightarrow> tenant_db \<Rightarrow> string \<Rightarrow> auth_outcome" where
  "direct_auth sv requestedOrgId db token =
     (case sv_worker sv token of
        None \<Rightarrow> Refused 401
      | Some (agentId, tokenUser) \<Rightarrow>
          (case requestedOrgId of
             None \<Rightarrow> Refused 400
           | Some org \<Rightarrow>
               (if \<not> truthy agentId then Refused 401
                else
                  (case map_of (tn_agents db) (the agentId, org) of
                     None \<Rightarrow> Refused 403
                   | Some owner \<Rightarrow>
                       (let user = (case owner of Some u \<Rightarrow> u | None \<Rightarrow> tokenUser);
                            role = map_of (tn_members db) (org, user);
                            isAdminRole = (role = Some ''owner'' \<or> role = Some ''admin'') in
                        if \<not> isAdminRole \<and> \<not> (sv_memberAgents sv \<and> role = Some ''member'') then Refused 403
                        else Continue
                          \<lparr> av_info = Some \<lparr> ai_userId = user, ai_organizationId = Some org,
                              ai_scopes = (if isAdminRole then [''mcp:read'', ''mcp:write'', ''mcp:admin''] else [''mcp:read'', ''mcp:write'']),
                              ai_tokenType = Info_pat, ai_agentId = agentId \<rparr>,
                            av_authenticated = True, av_organizationId = Some org, av_memberRole = role, av_session = None \<rparr>)))))"

definition is_pat :: "string \<Rightarrow> bool" where
  "is_pat token \<longleftrightarrow> starts_with token ''owl_pat_''"

definition verify_bearer :: "auth_services \<Rightarrow> string \<Rightarrow> auth_info option" where
  "verify_bearer sv token = (if is_pat token then sv_pat sv token else sv_oauth sv token)"

text \<open>The organisation a token acts for; \<open>Inl ()\<close>: a personal token of another organisation.\<close>

definition effective_org :: "bool \<Rightarrow> auth_info \<Rightarrow> string option \<Rightarrow> unit + string option" where
  "effective_org isPat info requestedOrgId =
     (if truthy (ai_organizationId info)
      then (if truthy requestedOrgId \<and> requestedOrgId \<noteq> ai_organizationId info
            then (if isPat then Inl () else Inr requestedOrgId)
            else Inr (ai_organizationId info))
      else Inr requestedOrgId)"

definition bearer_auth ::
    "ms \<Rightarrow> http_request \<Rightarrow> (string \<times> string) option \<Rightarrow> tenant_db \<Rightarrow> bool \<Rightarrow> auth_info \<Rightarrow> tenant_caches \<Rightarrow> auth_outcome \<times> tenant_caches" where
  "bearer_auth now rq requested db isPat info caches =
     (if ai_userId info = [] then (Refused 401, caches)
      else
        (case effective_org isPat info (map_option fst requested) of
           Inl _ \<Rightarrow> (Refused 403, caches)
         | Inr None \<Rightarrow>
             (if isUnscopedRoute rq then (Continue (no_vars \<lparr> av_info := Some info, av_authenticated := True \<rparr>), caches)
              else (Refused 400, caches))
         | Inr (Some org) \<Rightarrow>
             (let (role, caches) = getMembershipRole now True org (ai_userId info) db caches;
                  allowPublicOrgWithoutMembership = (\<not> truthy role \<and> map_option fst requested = Some org
                    \<and> map_option snd requested = Some ''public'' \<and> isMcpRoute rq) in
              if \<not> truthy role \<and> \<not> allowPublicOrgWithoutMembership then (Refused 403, caches)
              else (Continue (no_vars \<lparr> av_info := Some info, av_authenticated := True, av_organizationId := Some org,
                      av_memberRole := role \<rparr>), caches))))"

definition public_request :: "http_request \<Rightarrow> (string \<times> string) option \<Rightarrow> bool" where
  "public_request rq requested \<longleftrightarrow>
     map_option snd requested = Some ''public'' \<and> (canAccessPublicOrgRequest rq \<or> isMcpRoute rq)"

definition session_auth ::
    "ms \<Rightarrow> http_request \<Rightarrow> (string \<times> string) option \<Rightarrow> tenant_db \<Rightarrow> string \<Rightarrow> tenant_caches \<Rightarrow> auth_outcome \<times> tenant_caches" where
  "session_auth now rq requested db user caches =
     (case requested of
        None \<Rightarrow>
          (if isUnscopedRoute rq then (Continue (no_vars \<lparr> av_authenticated := True, av_session := Some user \<rparr>), caches)
           else (Refused 400, caches))
      | Some (org, visibility) \<Rightarrow>
          (let (role, caches) = getMembershipRole now False org user db caches in
           if truthy role
           then (Continue (no_vars \<lparr> av_authenticated := True, av_organizationId := Some org, av_memberRole := role, av_session := Some user \<rparr>), caches)
           else if \<not> public_request rq requested then (Refused 403, caches)
           else (Continue (no_vars \<lparr> av_organizationId := Some org, av_session := Some user \<rparr>), caches)))"

definition anonymous_auth :: "http_request \<Rightarrow> (string \<times> string) option \<Rightarrow> auth_outcome" where
  "anonymous_auth rq requested =
     (if bearer_token rq \<noteq> None then Refused 401
      else
        (case requested of
           None \<Rightarrow> Continue no_vars
         | Some (org, visibility) \<Rightarrow>
             (if \<not> public_request rq requested then Refused 401 else Continue (no_vars \<lparr> av_organizationId := Some org \<rparr>))))"

definition after_bearer ::
    "ms \<Rightarrow> auth_services \<Rightarrow> http_request \<Rightarrow> (string \<times> string) option \<Rightarrow> tenant_db \<Rightarrow> tenant_caches \<Rightarrow> auth_outcome \<times> tenant_caches" where
  "after_bearer now sv rq requested db caches =
     (case sv_session sv rq of
        Some user \<Rightarrow> session_auth now rq requested db user caches
      | None \<Rightarrow> (anonymous_auth rq requested, caches))"

definition authenticate ::
    "ms \<Rightarrow> auth_services \<Rightarrow> http_request \<Rightarrow> (string \<times> string) option \<Rightarrow> tenant_db \<Rightarrow> tenant_caches \<Rightarrow> auth_outcome \<times> tenant_caches" where
  "authenticate now sv rq requested db caches =
     (case bearer_token rq of
        None \<Rightarrow> after_bearer now sv rq requested db caches
      | Some token \<Rightarrow>
          (if rq_memoryDirect rq = Some ''1'' then (direct_auth sv (map_option fst requested) db token, caches)
           else
             (case verify_bearer sv token of
                None \<Rightarrow> if is_pat token then (Refused 401, caches) else after_bearer now sv rq requested db caches
              | Some info \<Rightarrow> bearer_auth now rq requested db (is_pat token) info caches)))"

definition resolveAuth ::
    "ms \<Rightarrow> auth_services \<Rightarrow> tenant_db \<Rightarrow> http_request \<Rightarrow> tenant_caches \<Rightarrow> auth_outcome \<times> tenant_caches" where
  "resolveAuth now sv db rq caches =
     (case requestedOrgSlug rq of
        None \<Rightarrow> authenticate now sv rq None db caches
      | Some slug \<Rightarrow>
          (case resolve_org now slug db caches of
             (None, caches) \<Rightarrow> (Refused 404, caches)
           | (Some org, caches) \<Rightarrow> authenticate now sv rq (Some org) db caches))"

definition extractAuthContext :: "http_request \<Rightarrow> auth_vars \<Rightarrow> auth_context" where
  "extractAuthContext rq v =
     (let tokenType = (case av_info v of
            Some info \<Rightarrow> (case ai_tokenType info of Info_pat \<Rightarrow> Tk_pat | Info_access_token \<Rightarrow> Tk_oauth)
          | None \<Rightarrow> if truthy (av_session v) then Tk_session else Tk_anonymous);
          user = (case av_info v of Some info \<Rightarrow> if ai_userId info \<noteq> [] then Some (ai_userId info) else av_session v | None \<Rightarrow> av_session v);
          scopedToOrg = truthy (rq_orgParam rq) in
      \<lparr> tc_organizationId = av_organizationId v,
        tc_tokenOrganizationId = Option.bind (av_info v) ai_organizationId,
        tc_userId = (if truthy user then user else None),
        tc_memberRole = av_memberRole v,
        tc_agentId = Option.bind (av_info v) ai_agentId,
        tc_isAuthenticated = av_authenticated v,
        tc_scopes = map_option ai_scopes (av_info v),
        tc_tokenType = tokenType, tc_scopedToOrg = scopedToOrg,
        tc_allowCrossOrg = (tokenType = Tk_oauth \<and> \<not> scopedToOrg),
        ac_allowInternalTools = (\<not> starts_with (rq_path rq) ''/mcp'' \<or> rq_memoryDirect rq = Some ''1'') \<rparr>)"

section \<open>A session acts for a member, or on public ground\<close>

definition org_of_slug :: "tenant_db \<Rightarrow> string \<Rightarrow> (string \<times> string) option" where
  "org_of_slug db slug =
     map_option (\<lambda>(orgid, visibility). (orgid, case visibility of Some v \<Rightarrow> v | None \<Rightarrow> ''private'')) (map_of (tn_organizations db) slug)"

definition public_org :: "tenant_db \<Rightarrow> string \<Rightarrow> bool" where
  "public_org db org \<longleftrightarrow> (\<exists>slug. org_of_slug db slug = Some (org, ''public''))"

text \<open>
  The server over time: the tables change, requests are served, entries of the caches are dropped. The roles and organisations
  a request is decided on are those of the tables now, or of tables that an earlier event found less than a minute ago.
\<close>

datatype tenant_event =
    Change_tables tenant_db
  | Forget_role string "string option"
  | Forget_org "string option"
  | Look_role string "string option"
  | Serve auth_services http_request

fun tenant_step :: "ms \<Rightarrow> tenant_event \<Rightarrow> tenant_db \<times> tenant_caches \<Rightarrow> tenant_db \<times> tenant_caches" where
  "tenant_step now (Change_tables db') (db, caches) = (db', caches)"
| "tenant_step now (Forget_role org user) (db, caches) = (db, invalidateMembershipRoleCache org user caches)"
| "tenant_step now (Forget_org slug) (db, caches) = (db, invalidateOrgSlugCache slug caches)"
| "tenant_step now (Look_role org user) (db, caches) = (db, snd (getCachedMembershipRole now org user db caches))"
| "tenant_step now (Serve sv rq) (db, caches) = (db, snd (resolveAuth now sv db rq caches))"

definition no_caches :: tenant_caches where
  "no_caches = \<lparr> orgSlugCache = [], memberRoleCache = [] \<rparr>"

definition tenant_run :: "tenant_db \<Rightarrow> (ms \<times> tenant_event) list \<Rightarrow> tenant_db \<times> tenant_caches" where
  "tenant_run db0 es = fold (\<lambda>(t, e). tenant_step t e) es (db0, no_caches)"

definition recent :: "tenant_db \<Rightarrow> (ms \<times> tenant_event) list \<Rightarrow> ms \<Rightarrow> tenant_db \<Rightarrow> bool" where
  "recent db0 es now db \<longleftrightarrow> db = fst (tenant_run db0 es)
     \<or> (\<exists>as t e bs. es = as @ (t, e) # bs \<and> db = fst (tenant_run db0 as) \<and> now \<le> t + ORG_TTL_MS)"

text \<open>Ids of organisations have no colon in them, and no member has an empty user id.\<close>

definition clean_db :: "tenant_db \<Rightarrow> bool" where
  "clean_db db \<longleftrightarrow> list_all (\<lambda>(slug, org, visibility). CHR '':'' \<notin> set org) (tn_organizations db)
     \<and> list_all (\<lambda>((org, user), role). CHR '':'' \<notin> set org \<and> user \<noteq> '''') (tn_members db)"

fun clean_event :: "tenant_event \<Rightarrow> bool" where
  "clean_event (Change_tables db) = clean_db db"
| "clean_event _ = True"

text \<open>What the caches hold at a time stems from tables that satisfy \<open>R\<close>.\<close>

definition cached_from :: "(tenant_db \<Rightarrow> bool) \<Rightarrow> ms \<Rightarrow> tenant_caches \<Rightarrow> bool" where
  "cached_from R now caches \<longleftrightarrow>
     (\<forall>slug org. cache_look now slug (orgSlugCache caches) = Some org \<longrightarrow> (\<exists>db. R db \<and> org_of_slug db slug = Some org))
     \<and> (\<forall>k role. cache_look now k (memberRoleCache caches) = Some (Some role) \<longrightarrow>
          (\<exists>db org user. R db \<and> k = role_key org user \<and> map_of (tn_members db) (org, user) = Some role))"

lemma cached_from_mono: "cached_from R now caches \<Longrightarrow> (\<And>db. R db \<Longrightarrow> R' db) \<Longrightarrow> cached_from R' now caches"
  unfolding cached_from_def by meson

lemma look_after_get: "cache_look now k (snd (cache_get t k' d)) = Some v \<Longrightarrow> cache_look now k d = Some v"
  by (auto simp: cache_look_map_of cache_get_def jm_get_del split: option.splits if_splits)

lemma cached_from_role:
  assumes "cached_from R now caches"
  shows "cached_from (\<lambda>d. R d \<or> d = db \<and> now \<le> t + ORG_TTL_MS) now (snd (getMembershipRole t bypass org user db caches))"
proof -
  obtain cached store where get: "(if bypass then (None, memberRoleCache caches) else cache_get t (role_key org user) (memberRoleCache caches)) = (cached, store)"
    by fastforce
  have store: "cache_look now k store = Some v \<Longrightarrow> cache_look now k (memberRoleCache caches) = Some v" for k v
    using get look_after_get [of now k t "role_key org user" "memberRoleCache caches"] by (auto split: if_splits)
  show ?thesis
  proof (cases cached)
    case (Some r)
    then have "snd (getMembershipRole t bypass org user db caches) = caches \<lparr> memberRoleCache := store \<rparr>"
      using get by (simp add: getMembershipRole_def Let_def)
    then show ?thesis using assms store unfolding cached_from_def by (simp, meson)
  next
    case None
    then have "snd (getMembershipRole t bypass org user db caches) = caches \<lparr> memberRoleCache :=
        cache_set ORG_TTL_MS t (role_key org user) (map_of (tn_members db) (org, user)) store \<rparr>"
      using get by (simp add: getMembershipRole_def Let_def)
    moreover have "\<exists>d o' u. (R d \<or> d = db \<and> now \<le> t + ORG_TTL_MS) \<and> k = role_key o' u \<and> map_of (tn_members d) (o', u) = Some r"
      if look: "cache_look now k (cache_set ORG_TTL_MS t (role_key org user) (map_of (tn_members db) (org, user)) store) = Some (Some r)" for k r
    proof (cases "k = role_key org user \<and> now \<le> t + ORG_TTL_MS")
      case True
      with look have "map_of (tn_members db) (org, user) = Some r" by (simp add: ttl_cache.look_put split: if_splits)
      with True show ?thesis by blast
    next
      case False
      with look have "cache_look now k store = Some (Some r)" by (auto simp: ttl_cache.look_put split: if_splits)
      with store assms show ?thesis unfolding cached_from_def by meson
    qed
    ultimately show ?thesis using assms unfolding cached_from_def by (simp, meson)
  qed
qed

lemma cached_from_org:
  assumes "cached_from R now caches"
  shows "cached_from (\<lambda>d. R d \<or> d = db \<and> now \<le> t + ORG_TTL_MS) now (snd (resolve_org t slug db caches))"
proof -
  obtain cached store where get: "cache_get t slug (orgSlugCache caches) = (cached, store)" by fastforce
  have store: "cache_look now k store = Some v \<Longrightarrow> cache_look now k (orgSlugCache caches) = Some v" for k v
    using get look_after_get [of now k t slug "orgSlugCache caches"] by simp
  have old: "cached_from (\<lambda>d. R d \<or> d = db \<and> now \<le> t + ORG_TTL_MS) now (caches \<lparr> orgSlugCache := store \<rparr>)"
    using assms store unfolding cached_from_def by (simp, meson)
  show ?thesis
  proof (cases "cached = None \<and> map_of (tn_organizations db) slug \<noteq> None")
    case False
    then have "snd (resolve_org t slug db caches) = caches \<lparr> orgSlugCache := store \<rparr>"
      using get by (auto simp: resolve_org_def split: option.splits)
    then show ?thesis using old by simp
  next
    case True
    then obtain org vis where "map_of (tn_organizations db) slug = Some (org, vis)" by auto
    then have "org_of_slug db slug = Some (org, case vis of Some v \<Rightarrow> v | None \<Rightarrow> ''private'')"
      "snd (resolve_org t slug db caches) = caches \<lparr> orgSlugCache :=
        cache_set ORG_TTL_MS t slug (org, case vis of Some v \<Rightarrow> v | None \<Rightarrow> ''private'') store \<rparr>"
      using True get by (auto simp: resolve_org_def org_of_slug_def Let_def)
    moreover have "\<exists>d. (R d \<or> d = db \<and> now \<le> t + ORG_TTL_MS) \<and> org_of_slug d k = Some v"
      if look: "cache_look now k (cache_set ORG_TTL_MS t slug (org, case vis of Some v \<Rightarrow> v | None \<Rightarrow> ''private'') store) = Some v" for k v
    proof (cases "k = slug \<and> now \<le> t + ORG_TTL_MS")
      case True
      with look have "v = (org, case vis of Some v \<Rightarrow> v | None \<Rightarrow> ''private'')" by (simp add: ttl_cache.look_put split: if_splits)
      with True calculation(1) show ?thesis by auto
    next
      case False
      with look have "cache_look now k store = Some v" by (auto simp: ttl_cache.look_put split: if_splits)
      with store assms show ?thesis unfolding cached_from_def by meson
    qed
    ultimately show ?thesis using assms unfolding cached_from_def by (simp, meson)
  qed
qed

lemma session_caches:
  "snd (session_auth t rq requested db user caches) = caches
   \<or> (\<exists>org. snd (session_auth t rq requested db user caches) = snd (getMembershipRole t False org user db caches))"
proof (cases requested)
  case (Some o')
  then show ?thesis by (cases o') (auto simp: session_auth_def Let_def case_prod_beta)
qed (simp add: session_auth_def)

lemma bearer_caches:
  "snd (bearer_auth t rq requested db isPat info caches) = caches
   \<or> (\<exists>org user. snd (bearer_auth t rq requested db isPat info caches) = snd (getMembershipRole t True org user db caches))"
  by (cases "effective_org isPat info (map_option fst requested)"; cases "projr (effective_org isPat info (map_option fst requested))")
    (auto simp: bearer_auth_def Let_def case_prod_beta)

lemma authenticate_caches:
  "snd (authenticate t sv rq requested db caches) = caches
   \<or> (\<exists>bypass org user. snd (authenticate t sv rq requested db caches) = snd (getMembershipRole t bypass org user db caches))"
proof -
  have after: "snd (after_bearer t sv rq requested db caches) = caches
     \<or> (\<exists>bypass org user. snd (after_bearer t sv rq requested db caches) = snd (getMembershipRole t bypass org user db caches))"
    using session_caches [of t rq requested db _ caches] by (cases "sv_session sv rq") (simp_all add: after_bearer_def, blast)
  show ?thesis
  proof (cases "bearer_token rq")
    case None
    with after show ?thesis by (simp add: authenticate_def)
  next
    case (Some token)
    then show ?thesis using after bearer_caches [of t rq requested db "is_pat token" _ caches]
      by (cases "rq_memoryDirect rq = Some ''1''"; cases "verify_bearer sv token") (simp_all add: authenticate_def, blast)
  qed
qed

lemma cached_from_resolve:
  assumes "cached_from R now caches"
  shows "cached_from (\<lambda>d. R d \<or> d = db \<and> now \<le> t + ORG_TTL_MS) now (snd (resolveAuth t sv db rq caches))"
proof -
  let ?R = "\<lambda>d. R d \<or> d = db \<and> now \<le> t + ORG_TTL_MS"
  have auth: "cached_from ?R now (snd (authenticate t sv rq requested db c))" if "cached_from ?R now c" for requested c
    using authenticate_caches [of t sv rq requested db c] cached_from_role [OF that, of db t] that
    by (auto intro: cached_from_mono)
  have old: "cached_from ?R now caches" by (rule cached_from_mono [OF assms]) simp
  show ?thesis
  proof (cases "requestedOrgSlug rq")
    case None
    with auth [OF old] show ?thesis by (simp add: resolveAuth_def)
  next
    case (Some slug)
    obtain org c where org: "resolve_org t slug db caches = (org, c)" by fastforce
    with cached_from_org [OF assms, of db t slug] have c: "cached_from ?R now c" by simp
    show ?thesis using Some org c auth [OF c] by (cases org) (simp_all add: resolveAuth_def)
  qed
qed

lemma tenant_run_snoc: "tenant_run db0 (es @ [(t, e)]) = tenant_step t e (tenant_run db0 es)"
  by (simp add: tenant_run_def)

lemma run_cached:
  "cached_from (\<lambda>db. \<exists>as t e bs. es = as @ (t, e) # bs \<and> db = fst (tenant_run db0 as) \<and> now \<le> t + ORG_TTL_MS) now (snd (tenant_run db0 es))"
proof (induction es rule: rev_induct)
  case Nil
  show ?case by (simp add: tenant_run_def no_caches_def cached_from_def cache_look_map_of)
next
  case (snoc x es)
  let ?R = "\<lambda>es db. \<exists>as t e bs. es = as @ (t, e) # bs \<and> db = fst (tenant_run db0 as) \<and> now \<le> t + ORG_TTL_MS"
  obtain t e where x: "x = (t, e)" by fastforce
  obtain db caches where st: "tenant_run db0 es = (db, caches)" by fastforce
  have mono: "?R es d \<or> d = db \<and> now \<le> t + ORG_TTL_MS \<Longrightarrow> ?R (es @ [(t, e)]) d" for d
  proof (elim disjE conjE exE)
    fix as t' e' bs assume "es = as @ (t', e') # bs" "d = fst (tenant_run db0 as)" "now \<le> t' + ORG_TTL_MS"
    then have "es @ [(t, e)] = as @ (t', e') # (bs @ [(t, e)]) \<and> d = fst (tenant_run db0 as) \<and> now \<le> t' + ORG_TTL_MS" by simp
    then show "?R (es @ [(t, e)]) d" by blast
  next
    assume "d = db" "now \<le> t + ORG_TTL_MS"
    then have "es @ [(t, e)] = es @ (t, e) # [] \<and> d = fst (tenant_run db0 es) \<and> now \<le> t + ORG_TTL_MS" using st by simp
    then show "?R (es @ [(t, e)]) d" by blast
  qed
  have "cached_from (\<lambda>d. ?R es d \<or> d = db \<and> now \<le> t + ORG_TTL_MS) now (snd (tenant_step t e (db, caches)))"
  proof (cases e)
    case (Change_tables db')
    then show ?thesis using cached_from_mono [OF snoc] st by simp
  next
    case (Forget_role org user)
    have "cached_from (?R es) now (invalidateMembershipRoleCache org user caches)"
      using snoc st by (auto simp: invalidateMembershipRoleCache_def cached_from_def ttl_cache.look_del split: option.splits if_splits)
    then show ?thesis using Forget_role by (auto intro: cached_from_mono)
  next
    case (Forget_org slug)
    have "cached_from (?R es) now (invalidateOrgSlugCache slug caches)"
      using snoc st by (auto simp: invalidateOrgSlugCache_def cached_from_def ttl_cache.look_del split: option.splits if_splits)
    then show ?thesis using Forget_org by (auto intro: cached_from_mono)
  next
    case (Look_role org user)
    have "snd (getCachedMembershipRole t org user db caches) = caches
        \<or> (\<exists>u. snd (getCachedMembershipRole t org user db caches) = snd (getMembershipRole t False org u db caches))"
      by (auto simp: getCachedMembershipRole_def split: option.splits)
    then show ?thesis
      using Look_role cached_from_role [of "?R es" now caches db t False org] cached_from_mono [OF snoc] snoc st by auto
  next
    case (Serve sv rq)
    then show ?thesis using cached_from_resolve [of "?R es" now caches db t sv rq] snoc st by simp
  qed
  then show ?case unfolding x tenant_run_snoc st by (rule cached_from_mono) (rule mono)
qed

lemma recent_cached: "cached_from (recent db0 es now) now (snd (tenant_run db0 es))"
  by (rule cached_from_mono [OF run_cached]) (auto simp: recent_def)

lemma run_tables:
  assumes "clean_db db0" "list_all (\<lambda>(t, e). clean_event e) es"
  shows "clean_db (fst (tenant_run db0 es))"
  using assms
proof (induction es rule: rev_induct)
  case (snoc x es)
  obtain t e where x: "x = (t, e)" by fastforce
  obtain db caches where st: "tenant_run db0 es = (db, caches)" by fastforce
  have "clean_db db" "clean_event e" using snoc st x by auto
  then show ?case unfolding x tenant_run_snoc st by (cases e) auto
qed (simp add: tenant_run_def)

lemma recent_clean:
  assumes "clean_db db0" "list_all (\<lambda>(t, e). clean_event e) es" "recent db0 es now db"
  shows "clean_db db"
  using assms(3) run_tables [OF assms(1)] assms(2) unfolding recent_def by auto

lemma clean_member: "clean_db db \<Longrightarrow> map_of (tn_members db) (org, user) = Some role \<Longrightarrow> CHR '':'' \<notin> set org \<and> user \<noteq> ''''"
  unfolding clean_db_def list_all_iff by (auto dest!: map_of_SomeD)

lemma clean_org: "clean_db db \<Longrightarrow> org_of_slug db slug = Some (org, visibility) \<Longrightarrow> CHR '':'' \<notin> set org"
  unfolding clean_db_def list_all_iff org_of_slug_def by (auto dest!: map_of_SomeD split: option.splits)

lemma role_key_inject:
  assumes "role_key org user = role_key org' user'" "CHR '':'' \<notin> set org" "CHR '':'' \<notin> set org'"
  shows "org = org' \<and> user = user'"
proof -
  have "org = takeWhile (\<lambda>c. c \<noteq> CHR '':'') (role_key org user)" if "CHR '':'' \<notin> set org" for org user
    using that by (auto simp: role_key_def takeWhile_append)
  with assms have "org = org'" by metis
  then show ?thesis using assms(1) by (simp add: role_key_def)
qed

text \<open>
  The outcome of authentication for the organisation of the request (and whether it is public), by tables \<open>R\<close>; for a token the
  role is that of the tables \<open>db\<close> of the moment.
\<close>

definition vars_ok :: "(tenant_db \<Rightarrow> bool) \<Rightarrow> tenant_db \<Rightarrow> http_request \<Rightarrow> auth_vars \<Rightarrow> bool" where
  "vars_ok R db rq v \<longleftrightarrow>
     (let auth = extractAuthContext rq v in
      (tc_isAuthenticated auth \<longrightarrow> tc_userId auth \<noteq> None)
      \<and> (\<forall>org. tc_organizationId auth = Some org \<longrightarrow>
           (case tc_memberRole auth of
              Some role \<Rightarrow> (\<exists>user db'. R db' \<and> (av_info v \<noteq> None \<longrightarrow> db' = db) \<and> tc_userId auth = Some user
                \<and> map_of (tn_members db') (org, user) = Some role)
            | None \<Rightarrow> (\<exists>db'. R db' \<and> public_org db' org))))"


lemma vars_okI:
  assumes "av_authenticated v \<Longrightarrow> tc_userId (extractAuthContext rq v) \<noteq> None"
    and "\<And>org role. av_organizationId v = Some org \<Longrightarrow> av_memberRole v = Some role \<Longrightarrow>
      \<exists>user db'. R db' \<and> (av_info v \<noteq> None \<longrightarrow> db' = db) \<and> tc_userId (extractAuthContext rq v) = Some user
        \<and> map_of (tn_members db') (org, user) = Some role"
    and "\<And>org. av_organizationId v = Some org \<Longrightarrow> av_memberRole v = None \<Longrightarrow> \<exists>db'. R db' \<and> public_org db' org"
  shows "vars_ok R db rq v"
proof -
  have fields: "tc_isAuthenticated (extractAuthContext rq v) = av_authenticated v"
    "tc_organizationId (extractAuthContext rq v) = av_organizationId v" "tc_memberRole (extractAuthContext rq v) = av_memberRole v"
    by (simp_all add: extractAuthContext_def Let_def)
  show ?thesis unfolding vars_ok_def Let_def fields using assms by (auto split: option.splits)
qed

lemma user_of_info: "av_info v = Some info \<Longrightarrow> ai_userId info \<noteq> [] \<Longrightarrow> tc_userId (extractAuthContext rq v) = Some (ai_userId info)"
  by (simp add: extractAuthContext_def Let_def)

lemma user_of_session: "av_info v = None \<Longrightarrow> av_session v = Some user \<Longrightarrow> user \<noteq> [] \<Longrightarrow> tc_userId (extractAuthContext rq v) = Some user"
  by (simp add: extractAuthContext_def Let_def)

text \<open>A view of the tables: those of now are in it, and all of them are clean.\<close>

definition table_view :: "(tenant_db \<Rightarrow> bool) \<Rightarrow> tenant_db \<Rightarrow> bool" where
  "table_view R db \<longleftrightarrow> R db \<and> (\<forall>db'. R db' \<longrightarrow> clean_db db')"

definition found_org :: "(tenant_db \<Rightarrow> bool) \<Rightarrow> (string \<times> string) option \<Rightarrow> bool" where
  "found_org R requested \<longleftrightarrow> (\<forall>org. requested = Some org \<longrightarrow> (\<exists>db slug. R db \<and> org_of_slug db slug = Some org))"

lemma found_public: "found_org R (Some (org, ''public'')) \<Longrightarrow> \<exists>db. R db \<and> public_org db org"
  unfolding found_org_def public_org_def by blast

lemma found_clean: "table_view R db \<Longrightarrow> found_org R (Some (org, vis)) \<Longrightarrow> CHR '':'' \<notin> set org"
  unfolding table_view_def found_org_def using clean_org by blast

lemma resolve_org_true:
  assumes cached: "cached_from R now caches" and view: "table_view R db" and found: "resolve_org now slug db caches = (Some org, caches')"
  shows "found_org R (Some org)" "memberRoleCache caches' = memberRoleCache caches"
proof -
  have look: "\<exists>d. R d \<and> org_of_slug d slug = Some o'" if "cache_look now slug (orgSlugCache caches) = Some o'" for o'
    using cached that unfolding cached_from_def by blast
  obtain stored store where get: "cache_get now slug (orgSlugCache caches) = (stored, store)" by fastforce
  have "(\<exists>d. R d \<and> org_of_slug d slug = Some org) \<and> memberRoleCache caches' = memberRoleCache caches"
  proof (cases stored)
    case None
    with get found have "org_of_slug db slug = Some org \<and> memberRoleCache caches' = memberRoleCache caches"
      by (cases "map_of (tn_organizations db) slug") (auto simp: resolve_org_def org_of_slug_def Let_def)
    then show ?thesis using view unfolding table_view_def by blast
  next
    case (Some o')
    with get found look show ?thesis by (auto simp: resolve_org_def cache_look_def)
  qed
  then show "found_org R (Some org)" "memberRoleCache caches' = memberRoleCache caches"
    unfolding found_org_def by blast+
qed

lemma bypassed_role: "fst (getMembershipRole now True org user db caches) = map_of (tn_members db) (org, user)"
  by (simp add: getMembershipRole_def Let_def)

lemma cached_role:
  assumes cached: "cached_from R now caches" and view: "table_view R db" and colon: "CHR '':'' \<notin> set org"
    and same: "memberRoleCache caches' = memberRoleCache caches"
    and role: "fst (getMembershipRole now False org user db caches') = Some role"
  shows "\<exists>db'. R db' \<and> map_of (tn_members db') (org, user) = Some role"
proof (cases "cache_look now (role_key org user) (memberRoleCache caches)")
  case None
  then have "map_of (tn_members db) (org, user) = Some role"
    using role same by (auto simp: getMembershipRole_def cache_look_def Let_def split: prod.splits option.splits)
  then show ?thesis using view unfolding table_view_def by blast
next
  case (Some r)
  then have "r = Some role"
    using role same by (auto simp: getMembershipRole_def cache_look_def Let_def split: prod.splits option.splits)
  with Some cached obtain d org' user' where d: "R d" "role_key org user = role_key org' user'"
      "map_of (tn_members d) (org', user') = Some role"
    unfolding cached_from_def by blast
  then have "CHR '':'' \<notin> set org'" using view clean_member unfolding table_view_def by blast
  from role_key_inject [OF d(2) colon this] d show ?thesis by blast
qed

lemma direct_auth_ok:
  assumes view: "table_view R db" and run: "direct_auth sv requested db token = Continue v"
  shows "vars_ok R db rq v"
proof -
  obtain org user role info where v: "v = \<lparr> av_info = Some info, av_authenticated = True, av_organizationId = Some org,
      av_memberRole = Some role, av_session = None \<rparr>" "ai_userId info = user" "map_of (tn_members db) (org, user) = Some role"
    using run by (auto simp: direct_auth_def Let_def split: option.splits if_splits)
  have R: "R db" "clean_db db" using view by (simp_all add: table_view_def)
  have "user \<noteq> []" using clean_member [OF R(2) v(3)] by simp
  then show ?thesis using v R(1) user_of_info [of v info] by (intro vars_okI) auto
qed

lemma bearer_auth_ok:
  assumes view: "table_view R db" and req: "found_org R requested"
    and run: "fst (bearer_auth now rq requested db isPat info caches) = Continue v"
  shows "vars_ok R db rq v"
proof -
  have user: "ai_userId info \<noteq> []" and v: "av_info v = Some info"
    using run by (auto simp: bearer_auth_def no_vars_def Let_def split: if_splits sum.splits option.splits prod.splits)
  note id = user_of_info [OF v user]
  show ?thesis
  proof (rule vars_okI)
    fix org role assume "av_organizationId v = Some org" "av_memberRole v = Some role"
    then have "map_of (tn_members db) (org, ai_userId info) = Some role"
      using run bypassed_role [of now org "ai_userId info" db caches]
      by (auto simp: bearer_auth_def no_vars_def Let_def split: if_splits sum.splits option.splits prod.splits)
    then show "\<exists>user db'. R db' \<and> (av_info v \<noteq> None \<longrightarrow> db' = db) \<and> tc_userId (extractAuthContext rq v) = Some user
        \<and> map_of (tn_members db') (org, user) = Some role"
      using view id unfolding table_view_def by blast
  next
    fix org assume "av_organizationId v = Some org" "av_memberRole v = None"
    then have "requested = Some (org, ''public'')"
      using run by (auto simp: bearer_auth_def no_vars_def Let_def split: if_splits sum.splits option.splits prod.splits)
    with req show "\<exists>db'. R db' \<and> public_org db' org" by (simp add: found_public)
  qed (use id in simp)
qed

lemma session_auth_ok:
  assumes cached: "cached_from R now caches" and view: "table_view R db" and same: "memberRoleCache caches' = memberRoleCache caches"
    and req: "found_org R requested" and user: "user \<noteq> []"
    and run: "fst (session_auth now rq requested db user caches') = Continue v"
  shows "vars_ok R db rq v"
proof -
  have v: "av_info v = None" "av_session v = Some user"
    using run by (auto simp: session_auth_def no_vars_def Let_def split: if_splits option.splits prod.splits)
  note id = user_of_session [OF v user]
  show ?thesis
  proof (rule vars_okI)
    fix org role assume org: "av_organizationId v = Some org" "av_memberRole v = Some role"
    then obtain vis where vis: "requested = Some (org, vis)" and role: "fst (getMembershipRole now False org user db caches') = Some role"
      using run by (auto simp: session_auth_def no_vars_def Let_def split: if_splits option.splits prod.splits)
    from cached_role [OF cached view found_clean [OF view req [unfolded vis]] same role]
    show "\<exists>user db'. R db' \<and> (av_info v \<noteq> None \<longrightarrow> db' = db) \<and> tc_userId (extractAuthContext rq v) = Some user
        \<and> map_of (tn_members db') (org, user) = Some role"
      using id v(1) by auto
  next
    fix org assume org: "av_organizationId v = Some org" "av_memberRole v = None"
    then have "requested = Some (org, ''public'')"
      using run by (auto simp: session_auth_def public_request_def no_vars_def Let_def split: if_splits option.splits prod.splits)
    with req show "\<exists>db'. R db' \<and> public_org db' org" by (simp add: found_public)
  qed (use id in simp)
qed

lemma anonymous_auth_ok:
  assumes req: "found_org R requested" and run: "anonymous_auth rq requested = Continue v"
  shows "vars_ok R db rq v"
proof (rule vars_okI)
  fix org assume "av_organizationId v = Some org" "av_memberRole v = None"
  then have "requested = Some (org, ''public'')"
    using run by (auto simp: anonymous_auth_def public_request_def no_vars_def split: if_splits option.splits prod.splits)
  with req show "\<exists>db'. R db' \<and> public_org db' org" by (simp add: found_public)
qed (use run in \<open>auto simp: anonymous_auth_def no_vars_def split: if_splits option.splits prod.splits\<close>)

lemma authenticate_ok:
  assumes cached: "cached_from R now caches" and view: "table_view R db" and same: "memberRoleCache caches' = memberRoleCache caches"
    and req: "found_org R requested" and user: "sv_session sv rq \<noteq> Some ''''"
    and run: "fst (authenticate now sv rq requested db caches') = Continue v"
  shows "vars_ok R db rq v"
proof -
  have after: "fst (after_bearer now sv rq requested db caches') = Continue v \<Longrightarrow> vars_ok R db rq v"
    using session_auth_ok [OF cached view same req] anonymous_auth_ok [OF req] user
    by (auto simp: after_bearer_def split: option.splits)
  then show ?thesis
    using run direct_auth_ok [OF view] bearer_auth_ok [OF view req]
    by (auto simp: authenticate_def split: option.splits if_splits)
qed

lemma resolveAuth_ok:
  assumes cached: "cached_from R now caches" and view: "table_view R db" and user: "sv_session sv rq \<noteq> Some ''''"
    and run: "fst (resolveAuth now sv db rq caches) = Continue v"
  shows "vars_ok R db rq v"
proof (cases "requestedOrgSlug rq")
  case None
  with run show ?thesis by (intro authenticate_ok [OF cached view refl _ user]) (auto simp: resolveAuth_def found_org_def)
next
  case (Some slug)
  with run obtain org caches' where org: "resolve_org now slug db caches = (Some org, caches')"
    and auth: "fst (authenticate now sv rq (Some org) db caches') = Continue v"
    by (auto simp: resolveAuth_def split: prod.splits option.splits)
  from resolve_org_true [OF cached view org] show ?thesis
    by (intro authenticate_ok [OF cached view _ _ user auth])
qed

lemma call_action_org:
  assumes "call_action schema_ok tool args auth = Inr action"
  shows "truthy (tc_organizationId auth)"
proof -
  obtain name clean ctx where call: "executeTool schema_ok tool args auth = Inr (Handler_call name clean ctx)"
    using assms by (auto simp: call_action_def split: sum.splits tool_call.splits)
  have "tool \<notin> set ORG_AGNOSTIC_TOOLS" using call by (auto simp: executeTool_def split: option.splits if_splits)
  with executeTool_handler(4) [OF call] show ?thesis by (auto simp: checkToolAccess_def split: if_splits)
qed


definition sample_tenants :: tenant_db where
  "sample_tenants = \<lparr> tn_organizations = [(''acme'', ''o1'', Some ''public'')], tn_members = [((''o1'', ''ann''), ''member'')], tn_agents = [] \<rparr>"

definition sample_services :: auth_services where
  "sample_services = \<lparr> sv_worker = (\<lambda>t. None), sv_pat = (\<lambda>t. None), sv_oauth = (\<lambda>t. None),
     sv_session = (\<lambda>rq. if rq_authorization rq = None \<and> rq_memoryDirect rq = None then Some ''ann'' else None), sv_memberAgents = False \<rparr>"

definition sample_http :: http_request where
  "sample_http = \<lparr> rq_authorization = None, rq_memoryDirect = None, rq_path = ''/api/acme/manage_entity'', rq_orgParam = Some ''acme'',
     rq_subdomainOrg = None, rq_toolName = Some ''manage_entity'', rq_method = ''POST'', rq_contentType = Some ''application/json'',
     rq_body = Some (JObj [(''action'', JStr ''create'')]) \<rparr>"

definition sample_vars :: auth_vars where
  "sample_vars = \<lparr> av_info = None, av_authenticated = True, av_organizationId = Some ''o1'', av_memberRole = Some ''member'', av_session = Some ''ann'' \<rparr>"


text \<open>A personal token never acts for another organisation than the one it was minted for.\<close>

lemma pat_stays_in_its_organization:
  assumes "fst (bearer_auth now rq requested db True info caches) = Continue v" "truthy (ai_organizationId info)"
  shows "av_organizationId v = ai_organizationId info"
  using assms
  by (cases "ai_organizationId info")
    (auto simp: bearer_auth_def effective_org_def no_vars_def Let_def split: if_splits option.splits prod.splits)

text \<open>The worker of an agent gets administrator scopes only if the owner of the agent is an administrator of the organisation.\<close>

lemma direct_auth_admin:
  assumes "direct_auth sv requested db token = Continue v" "av_info v = Some info" "''mcp:admin'' \<in> set (ai_scopes info)"
  shows "\<exists>org agent owner. requested = Some org \<and> map_of (tn_agents db) (agent, org) = Some owner
    \<and> map_of (tn_members db) (org, ai_userId info) \<in> {Some ''owner'', Some ''admin''}"
  using assms by (auto simp: direct_auth_def Let_def split: option.splits if_splits) blast+

text \<open>After the role of a member has changed and its entry was invalidated, the next request sees the table.\<close>

lemma role_after_invalidation:
  assumes "user \<noteq> []"
  shows "fst (getMembershipRole now bypass org user db (invalidateMembershipRoleCache org (Some user) caches)) = map_of (tn_members db) (org, user)"
  using assms by (simp add: getMembershipRole_def invalidateMembershipRoleCache_def cache_delete_def cache_get_def jm_get_del Let_def)

text \<open>A role that was read is used for at most a minute.\<close>

lemma cached_role_expires:
  "local + ORG_TTL_MS < now \<Longrightarrow> cache_look now key (cache_set ORG_TTL_MS local key role store) = None"
  by (simp add: ttl_cache.look_put)

text \<open>
  The header that marks the worker's own connection opens the internal tools also where no token was checked: an anonymous
  request with it is shown the tools that are hidden from \<^verbatim>\<open>/mcp\<close>, and may call the readable ones.
\<close>

definition header_request :: http_request where
  "header_request = sample_http \<lparr> rq_path := ''/mcp/acme'', rq_toolName := None, rq_memoryDirect := Some ''1'' \<rparr>"

definition visitor_vars :: auth_vars where
  "visitor_vars = no_vars \<lparr> av_organizationId := Some ''o1'' \<rparr>"

lemma header_opens_internal_tools:
  "fst (resolveAuth 0 sample_services sample_tenants header_request no_caches) = Continue visitor_vars"
  "checkToolAccess ''list_watchers'' (JObj []) (extractAuthContext header_request visitor_vars) = None"
  "checkToolAccess ''list_watchers'' (JObj []) (extractAuthContext (header_request \<lparr> rq_memoryDirect := None \<rparr>) visitor_vars)
     = Some (Tool_not_found ''list_watchers'')"
proof -
  show "fst (resolveAuth 0 sample_services sample_tenants header_request no_caches) = Continue visitor_vars"
    by (simp add: resolveAuth_def requestedOrgSlug_def sample_http_def header_request_def resolve_org_def no_caches_def cache_get_def
        sample_tenants_def authenticate_def bearer_token_def after_bearer_def sample_services_def anonymous_auth_def public_request_def
        isMcpRoute_def starts_with_def visitor_vars_def Let_def)
qed code_simp+

end
