(* ===== verification/Rate_Limiter.thy ===== *)
theory Rate_Limiter
  imports JS_Prelude Complex_Main
begin

text \<open>
  The rate limiter of the server's public routes: \<^verbatim>\<open>server/src/utils/rate-limiter.ts\<close>. Per key it keeps
  the number of requests of two windows and weighs the older one by the part of it that a sliding
  window still covers. Quotients are exact rationals here and floating-point numbers in the code. The
  timer that calls \<open>cleanup\<close> is an event of the trace.
\<close>

section \<open>The limiter\<close>

record rate_config =
  rl_limit :: int
  rl_windowSeconds :: int
  rl_errorMessage :: "string option"

record rate_result =
  rr_allowed :: bool
  rr_count :: int
  rr_limit :: int
  rr_resetInSeconds :: int
  rr_errorMessage :: "string option"

record window_state =
  prevCount :: int
  currCount :: int
  windowStart :: int

type_synonym rate_windows = "(string, window_state) jmap"

definition next_window :: "int \<Rightarrow> int \<Rightarrow> window_state option \<Rightarrow> window_state" where
  "next_window currentWindow windowSeconds state =
     (case state of
        None \<Rightarrow> \<lparr> prevCount = 0, currCount = 1, windowStart = currentWindow \<rparr>
      | Some st \<Rightarrow>
          (if windowStart st + windowSeconds < currentWindow
           then \<lparr> prevCount = 0, currCount = 1, windowStart = currentWindow \<rparr>
           else if windowStart st < currentWindow
           then \<lparr> prevCount = currCount st, currCount = 1, windowStart = currentWindow \<rparr>
           else st \<lparr> currCount := currCount st + 1 \<rparr>))"

definition rate_result_of :: "rate_config \<Rightarrow> int \<Rightarrow> window_state \<Rightarrow> rate_result" where
  "rate_result_of config now st =
     (let elapsed = now - windowStart st;
          effectiveCount = of_int (prevCount st) * max 0 (of_int (rl_windowSeconds config - elapsed) / of_int (rl_windowSeconds config))
            + (of_int (currCount st) :: rat);
          allowed = (effectiveCount \<le> of_int (rl_limit config));
          resetInSeconds = max 0 (rl_windowSeconds config - elapsed) in
      \<lparr> rr_allowed = allowed, rr_count = ceiling effectiveCount, rr_limit = rl_limit config, rr_resetInSeconds = resetInSeconds,
        rr_errorMessage = (if allowed then None
          else if truthy (rl_errorMessage config) then rl_errorMessage config
          else Some (''Rate limit exceeded. Try again in '' @ show_int resetInSeconds @ '' seconds.'')) \<rparr>)"

definition checkLimit :: "ms \<Rightarrow> string \<Rightarrow> rate_config \<Rightarrow> rate_windows \<Rightarrow> rate_result \<times> rate_windows" where
  "checkLimit nowMs key config windows =
     (let now = nowMs div 1000;
          currentWindow = now - now mod rl_windowSeconds config;
          st = next_window currentWindow (rl_windowSeconds config) (map_of windows key) in
      (rate_result_of config now st, AList.update key st windows))"

definition cleanup :: "ms \<Rightarrow> int \<Rightarrow> rate_windows \<Rightarrow> nat \<times> rate_windows" where
  "cleanup nowMs maxAgeSeconds windows =
     (let cutoff = nowMs div 1000 - maxAgeSeconds;
          stale = filter (\<lambda>(key, st). windowStart st < cutoff) windows in
      (length stale, filter (\<lambda>(key, st). \<not> windowStart st < cutoff) windows))"

definition API_PER_IP_MINUTE :: rate_config where
  "API_PER_IP_MINUTE = \<lparr> rl_limit = 60, rl_windowSeconds = 60,
     rl_errorMessage = Some ''API rate limit exceeded. Maximum 60 requests per minute.'' \<rparr>"

definition DISCOVERY_PER_IP_HOUR :: rate_config where
  "DISCOVERY_PER_IP_HOUR = \<lparr> rl_limit = 5, rl_windowSeconds = 3600,
     rl_errorMessage = Some ''Discovery rate limit exceeded. Maximum 5 discoveries per hour.'' \<rparr>"

definition OAUTH_REGISTER_PER_IP_HOUR :: rate_config where
  "OAUTH_REGISTER_PER_IP_HOUR = \<lparr> rl_limit = 10, rl_windowSeconds = 3600,
     rl_errorMessage = Some ''OAuth client registration rate limit exceeded. Maximum 10 registrations per hour.'' \<rparr>"

definition DEVICE_EMAIL_PER_IP_HOUR :: rate_config where
  "DEVICE_EMAIL_PER_IP_HOUR = \<lparr> rl_limit = 10, rl_windowSeconds = 3600,
     rl_errorMessage = Some ''Device email rate limit exceeded. Maximum 10 confirmation emails per hour.'' \<rparr>"

definition INVITATION_PREVIEW_PER_IP_MINUTE :: rate_config where
  "INVITATION_PREVIEW_PER_IP_MINUTE = \<lparr> rl_limit = 5, rl_windowSeconds = 60,
     rl_errorMessage = Some ''Too many invitation lookups. Try again shortly.'' \<rparr>"

definition JOIN_PUBLIC_ORG_PER_IP_HOUR :: rate_config where
  "JOIN_PUBLIC_ORG_PER_IP_HOUR = \<lparr> rl_limit = 10, rl_windowSeconds = 3600,
     rl_errorMessage = Some ''Join rate limit exceeded. Maximum 10 join attempts per hour.'' \<rparr>"

definition INSTALL_AGENT_PER_USER_HOUR :: rate_config where
  "INSTALL_AGENT_PER_USER_HOUR = \<lparr> rl_limit = 20, rl_windowSeconds = 3600,
     rl_errorMessage = Some ''Install rate limit exceeded. Maximum 20 installs per hour.'' \<rparr>"

definition RateLimitPresets :: "rate_config list" where
  "RateLimitPresets = [API_PER_IP_MINUTE, DISCOVERY_PER_IP_HOUR, OAUTH_REGISTER_PER_IP_HOUR, DEVICE_EMAIL_PER_IP_HOUR,
     INVITATION_PREVIEW_PER_IP_MINUTE, JOIN_PUBLIC_ORG_PER_IP_HOUR, INSTALL_AGENT_PER_USER_HOUR]"

text \<open>The key of an anonymous client: an address from the headers of the request.\<close>

definition getClientIP :: "bool \<Rightarrow> string option \<Rightarrow> string option \<Rightarrow> string option \<Rightarrow> string" where
  "getClientIP trustForwarded xff cf xreal =
     (let parts = (case xff of None \<Rightarrow> [] | Some s \<Rightarrow> filter (\<lambda>p. p \<noteq> []) (map trim (split_on (CHR '','') s))) in
      if truthy xff \<and> parts \<noteq> [] then (if trustForwarded then last parts else hd parts)
      else if truthy cf then trim (the cf)
      else if truthy xreal then trim (the xreal)
      else ''unknown'')"

section \<open>Traces\<close>

datatype rate_event = Check ms string | Clean ms

fun request_time :: "rate_event \<Rightarrow> ms" where
  "request_time (Check t key) = t"
| "request_time (Clean t) = t"

text \<open>Every key is checked against one configuration, \<open>cfg key\<close>.\<close>

fun rate_run :: "(string \<Rightarrow> rate_config) \<Rightarrow> rate_event list \<Rightarrow> rate_windows \<Rightarrow> rate_result list" where
  "rate_run cfg [] windows = []"
| "rate_run cfg (Check t key # es) windows =
     (let (r, windows) = checkLimit t key (cfg key) windows in r # rate_run cfg es windows)"
| "rate_run cfg (Clean t # es) windows = rate_run cfg es (snd (cleanup t 86400 windows))"

text \<open>
  The reference keeps the time of every request and counts those of the current window and of the one before. It never forgets.
\<close>

definition requests_in :: "int \<Rightarrow> int \<Rightarrow> int list \<Rightarrow> int" where
  "requests_in w k reqs = int (length (filter (\<lambda>t. t div w = k) reqs))"

definition counted :: "int \<Rightarrow> int \<Rightarrow> int list \<Rightarrow> window_state" where
  "counted w k reqs = \<lparr> prevCount = requests_in w (k - 1) reqs, currCount = requests_in w k reqs, windowStart = w * k \<rparr>"

fun reference_run :: "(string \<Rightarrow> rate_config) \<Rightarrow> rate_event list \<Rightarrow> (string \<Rightarrow> int list) \<Rightarrow> rate_result list" where
  "reference_run cfg [] history = []"
| "reference_run cfg (Check t key # es) history =
     (let now = t div 1000; reqs = now # history key in
      rate_result_of (cfg key) now (counted (rl_windowSeconds (cfg key)) (now div rl_windowSeconds (cfg key)) reqs)
        # reference_run cfg es (history(key := reqs)))"
| "reference_run cfg (Clean t # es) history = reference_run cfg es history"

section \<open>Two counters are enough\<close>

lemma requests_in_Cons: "requests_in w k (t # ts) = requests_in w k ts + (if t div w = k then 1 else 0)"
  by (simp add: requests_in_def)

lemma requests_in_none: "\<forall>t \<in> set ts. t div w \<noteq> k \<Longrightarrow> requests_in w k ts = 0"
  by (simp add: requests_in_def)

text \<open>What a stored window says of the requests so far: they are counted, or too old to count.\<close>

definition window_ok :: "int \<Rightarrow> int \<Rightarrow> window_state option \<Rightarrow> int list \<Rightarrow> bool" where
  "window_ok now w st reqs \<longleftrightarrow>
     (case st of
        None \<Rightarrow> (\<forall>t \<in> set reqs. w * (t div w) < now - 86400)
      | Some s \<Rightarrow> (\<exists>k. k \<le> now div w \<and> s = counted w k reqs \<and> (\<forall>t \<in> set reqs. t div w \<le> k)))"

lemma window_ok_later:
  assumes "window_ok now w st reqs" "now \<le> later" "0 < w"
  shows "window_ok later w st reqs"
proof (cases st)
  case None
  with assms show ?thesis by (fastforce simp: window_ok_def)
next
  case (Some s)
  then obtain k where "k \<le> now div w" "s = counted w k reqs" "\<forall>t \<in> set reqs. t div w \<le> k"
    using assms(1) by (auto simp: window_ok_def)
  moreover have "now div w \<le> later div w" using assms(2,3) by (rule zdiv_mono1)
  ultimately have "k \<le> later div w \<and> s = counted w k reqs \<and> (\<forall>t \<in> set reqs. t div w \<le> k)" by simp
  then show ?thesis using Some unfolding window_ok_def by (simp only: option.case) blast
qed

lemma next_window_counts:
  assumes ok: "window_ok now w st reqs" and w: "0 < w" "w \<le> 43200"
  shows "next_window (now - now mod w) w st = counted w (now div w) (now # reqs)"
    "window_ok now w (Some (counted w (now div w) (now # reqs))) (now # reqs)"
proof -
  have start: "now - now mod w = w * (now div w)" by (simp add: minus_mod_eq_mult_div)
  have upto: "\<forall>t \<in> set reqs. t div w \<le> now div w"
    using ok w
  proof (cases st)
    case None
    show ?thesis
    proof
      fix t assume "t \<in> set reqs"
      with ok None have "w * (t div w) < now - 86400" by (simp add: window_ok_def)
      also have "now - 86400 < w * (now div w)"
        using pos_mod_bound [OF w(1), of now] w(2) start by linarith
      finally show "t div w \<le> now div w" using w(1) by (simp add: mult_less_cancel_left_pos)
    qed
  qed (auto simp: window_ok_def intro: order_trans)
  then show "window_ok now w (Some (counted w (now div w) (now # reqs))) (now # reqs)"
    by (auto simp: window_ok_def)
  show "next_window (now - now mod w) w st = counted w (now div w) (now # reqs)"
  proof (cases st)
    case None
    have "w * (t div w) < w * (now div w - 1)" if "t \<in> set reqs" for t
    proof -
      have "w * (t div w) < now - 86400" using ok None that by (simp add: window_ok_def)
      also have "now - 86400 \<le> w * (now div w - 1)"
        using pos_mod_bound [OF w(1), of now] w(2) start by (simp add: right_diff_distrib)
      finally show ?thesis .
    qed
    then have "\<forall>t \<in> set reqs. t div w < now div w - 1" using w(1) by (simp add: mult_less_cancel_left_pos)
    then have "requests_in w (now div w - 1) reqs = 0" "requests_in w (now div w) reqs = 0"
      by (fastforce intro: requests_in_none)+
    with None show ?thesis by (simp add: next_window_def start counted_def requests_in_Cons)
  next
    case (Some s)
    then obtain k where k: "k \<le> now div w" "s = counted w k reqs" "\<forall>t \<in> set reqs. t div w \<le> k"
      using ok by (auto simp: window_ok_def)
    have gt: "w * k + w < w * (now div w) \<longleftrightarrow> k + 1 < now div w" "w * k < w * (now div w) \<longleftrightarrow> k < now div w"
      using w(1) mult_less_cancel_left_pos [OF w(1), of "k + 1" "now div w"] by (simp_all add: distrib_left mult_less_cancel_left_pos)
    have fresh: "k < j \<Longrightarrow> requests_in w j reqs = 0" for j using k(3) by (fastforce intro: requests_in_none)
    consider "k + 1 < now div w" | "now div w = k + 1" | "now div w = k" using k(1) by linarith
    then show ?thesis
      using Some k(2) fresh [of "now div w"] fresh [of "now div w - 1"] gt
      by cases (simp_all add: next_window_def start counted_def requests_in_Cons)
  qed
qed

text \<open>All keys at a time \<open>now\<close>, in seconds.\<close>

definition windows_ok :: "(string \<Rightarrow> rate_config) \<Rightarrow> int \<Rightarrow> rate_windows \<Rightarrow> (string \<Rightarrow> int list) \<Rightarrow> bool" where
  "windows_ok cfg now windows history \<longleftrightarrow> distinct (map fst windows)
     \<and> (\<forall>key. window_ok now (rl_windowSeconds (cfg key)) (map_of windows key) (history key))"

lemma map_of_filter_values:
  "distinct (map fst xs) \<Longrightarrow>
     map_of (filter (\<lambda>(k, v). P v) xs) key = (case map_of xs key of None \<Rightarrow> None | Some v \<Rightarrow> if P v then Some v else None)"
  by (induction xs) (auto split: option.splits simp: map_of_eq_None_iff image_iff)

definition configs_ok :: "(string \<Rightarrow> rate_config) \<Rightarrow> bool" where
  "configs_ok cfg \<longleftrightarrow> (\<forall>key. 0 < rl_windowSeconds (cfg key) \<and> rl_windowSeconds (cfg key) \<le> 43200)"

lemma windows_ok_later: "windows_ok cfg now windows history \<Longrightarrow> now \<le> later \<Longrightarrow> configs_ok cfg \<Longrightarrow> windows_ok cfg later windows history"
  by (auto simp: windows_ok_def configs_ok_def intro: window_ok_later)

lemma checkLimit_counts:
  fixes cfg :: "string \<Rightarrow> rate_config" and key :: string and t :: ms
  assumes ok: "windows_ok cfg (t div 1000) windows history" and cfg: "configs_ok cfg"
  defines "now \<equiv> t div 1000" and "w \<equiv> rl_windowSeconds (cfg key)"
  defines "st \<equiv> counted w (now div w) (now # history key)"
  shows "checkLimit t key (cfg key) windows = (rate_result_of (cfg key) now st, AList.update key st windows)"
    "windows_ok cfg now (AList.update key st windows) (history(key := now # history key))"
proof -
  have w: "0 < w" "w \<le> 43200" using cfg by (simp_all add: configs_ok_def w_def)
  have "window_ok now w (map_of windows key) (history key)" using ok by (simp add: windows_ok_def now_def w_def)
  note counts = next_window_counts [OF this w]
  show "checkLimit t key (cfg key) windows = (rate_result_of (cfg key) now st, AList.update key st windows)"
    using counts(1) by (simp add: checkLimit_def Let_def now_def w_def st_def)
  show "windows_ok cfg now (AList.update key st windows) (history(key := now # history key))"
    using ok counts(2) by (auto simp: windows_ok_def jm_get_set now_def w_def st_def distinct_update)
qed

lemma cleanup_unseen:
  assumes ok: "windows_ok cfg (t div 1000) windows history" and cfg: "configs_ok cfg"
  shows "windows_ok cfg (t div 1000) (snd (cleanup t 86400 windows)) history"
proof -
  let ?keep = "\<lambda>st. \<not> windowStart st < t div 1000 - 86400"
  have d: "distinct (map fst windows)" using ok by (simp add: windows_ok_def)
  have kept: "snd (cleanup t 86400 windows) = filter (\<lambda>(k, st). ?keep st) windows" by (simp add: cleanup_def Let_def)
  have "window_ok (t div 1000) (rl_windowSeconds (cfg key)) (map_of (filter (\<lambda>(k, st). ?keep st) windows) key) (history key)" for key
  proof -
    have w: "0 < rl_windowSeconds (cfg key)" using cfg by (simp add: configs_ok_def)
    have now: "window_ok (t div 1000) (rl_windowSeconds (cfg key)) (map_of windows key) (history key)" using ok by (simp add: windows_ok_def)
    show ?thesis
    proof (cases "map_of windows key")
      case (Some st)
      then obtain k where k: "st = counted (rl_windowSeconds (cfg key)) k (history key)"
          "\<forall>u \<in> set (history key). u div rl_windowSeconds (cfg key) \<le> k"
        using now by (auto simp: window_ok_def)
      have "window_ok (t div 1000) (rl_windowSeconds (cfg key)) None (history key)" if "\<not> ?keep st"
        unfolding window_ok_def option.case
      proof
        fix u assume "u \<in> set (history key)"
        then have "rl_windowSeconds (cfg key) * (u div rl_windowSeconds (cfg key)) \<le> rl_windowSeconds (cfg key) * k"
          using k(2) w by (simp add: mult_left_mono)
        also have "\<dots> < t div 1000 - 86400" using that k(1) by (simp add: counted_def)
        finally show "rl_windowSeconds (cfg key) * (u div rl_windowSeconds (cfg key)) < t div 1000 - 86400" .
      qed
      with now Some show ?thesis by (simp add: map_of_filter_values [OF d])
    qed (use now in \<open>simp add: map_of_filter_values [OF d]\<close>)
  qed
  then show ?thesis unfolding kept using d by (simp add: windows_ok_def distinct_map_filter)
qed

lemma rate_run_reference:
  assumes "windows_ok cfg now windows history" "configs_ok cfg" "sorted (map request_time es)"
    "\<forall>e \<in> set es. now \<le> request_time e div 1000"
  shows "rate_run cfg es windows = reference_run cfg es history"
  using assms
proof (induction es arbitrary: now windows history)
  case (Cons e es)
  have ok: "windows_ok cfg (request_time e div 1000) windows history"
    using Cons.prems by (auto intro: windows_ok_later)
  have later: "sorted (map request_time es)" "\<forall>e' \<in> set es. request_time e div 1000 \<le> request_time e' div 1000"
    using Cons.prems(3) by (auto intro: zdiv_mono1)
  show ?case
  proof (cases e)
    case (Check t key)
    with ok have "windows_ok cfg (t div 1000) windows history" by simp
    note step = checkLimit_counts [OF this Cons.prems(2), of key]
    show ?thesis using Cons.IH [OF step(2) Cons.prems(2) later(1)] later(2) step(1) Check by (simp add: Let_def fun_upd_def)
  next
    case (Clean t)
    with ok have "windows_ok cfg (t div 1000) windows history" by simp
    from Cons.IH [OF cleanup_unseen [OF this Cons.prems(2)] Cons.prems(2) later(1)] later(2) Clean show ?thesis by simp
  qed
qed simp

text \<open>The requests of a key that are allowed in a window, given the results of the checks of a trace.\<close>

fun admitted :: "(string \<Rightarrow> rate_config) \<Rightarrow> string \<Rightarrow> int \<Rightarrow> rate_event list \<Rightarrow> rate_result list \<Rightarrow> int" where
  "admitted cfg key k (Check t key' # es) (r # rs) =
     (if key' = key \<and> (t div 1000) div rl_windowSeconds (cfg key) = k \<and> rr_allowed r then 1 else 0) + admitted cfg key k es rs"
| "admitted cfg key k (Clean t # es) rs = admitted cfg key k es rs"
| "admitted cfg key k es rs = 0"

lemma allowed_below_limit:
  assumes "rr_allowed (rate_result_of config now (counted w k reqs))"
  shows "requests_in w k reqs \<le> rl_limit config"
proof -
  have "0 \<le> (of_int (requests_in w (k - 1) reqs) :: rat)" by (simp add: requests_in_def)
  then have "0 \<le> of_int (requests_in w (k - 1) reqs) * max 0 (of_int (rl_windowSeconds config - (now - w * k)) / of_int (rl_windowSeconds config) :: rat)"
    by simp
  moreover have "of_int (requests_in w (k - 1) reqs) * max 0 (of_int (rl_windowSeconds config - (now - w * k)) / of_int (rl_windowSeconds config) :: rat)
      + of_int (requests_in w k reqs) \<le> of_int (rl_limit config)"
    using assms by (simp add: rate_result_of_def counted_def Let_def)
  ultimately have "(of_int (requests_in w k reqs) :: rat) \<le> of_int (rl_limit config)" by linarith
  then show ?thesis by simp
qed

lemma reference_admits:
  "admitted cfg key k es (reference_run cfg es history) \<le> max 0 (rl_limit (cfg key) - requests_in (rl_windowSeconds (cfg key)) k (history key))"
proof (induction es arbitrary: history)
  case (Cons e es)
  show ?case
  proof (cases e)
    case (Check t key')
    define now where "now = t div 1000"
    define w where "w = rl_windowSeconds (cfg key)"
    show ?thesis
    proof (cases "key' = key")
      case True
      let ?h = "now # history key"
      have IH: "admitted cfg key k es (reference_run cfg es (history(key := ?h))) \<le> max 0 (rl_limit (cfg key) - requests_in w k ?h)"
        using Cons.IH [of "history(key := ?h)"] by (simp add: w_def fun_upd_def)
      have "now div w = k \<Longrightarrow> rr_allowed (rate_result_of (cfg key) now (counted w (now div w) ?h)) \<Longrightarrow>
          requests_in w k ?h \<le> rl_limit (cfg key)"
        using allowed_below_limit by blast
      with IH show ?thesis using Check True by (auto simp: Let_def now_def [symmetric] w_def [symmetric] requests_in_Cons max_def split: if_splits)
    next
      case False
      then show ?thesis
        using Check Cons.IH [of "history(key' := now # history key')"] by (simp add: Let_def now_def fun_upd_def)
    qed
  next
    case (Clean t)
    then show ?thesis using Cons.IH by simp
  qed
qed simp

text \<open>
  C32: The two counters of a key, dropped when they are a day old, give every request the answer that a log of all requests gives: the count of
  the window so far plus the weighted count of the one before; so in each window no
  more requests are allowed than the limit.
\<close>

theorem rate_limiter_counts_requests:
  assumes "configs_ok cfg" "sorted (map request_time es)"
  shows "rate_run cfg es [] = reference_run cfg es (\<lambda>key. [])
    \<and> admitted cfg key k es (rate_run cfg es []) \<le> max 0 (rl_limit (cfg key))"
proof -
  define now where "now = (case es of [] \<Rightarrow> 0 | e # _ \<Rightarrow> request_time e div 1000)"
  have "windows_ok cfg now [] (\<lambda>key. [])" by (simp add: windows_ok_def window_ok_def)
  moreover have "\<forall>e \<in> set es. now \<le> request_time e div 1000"
    using assms(2) by (cases es) (auto simp: now_def intro: zdiv_mono1)
  ultimately have run: "rate_run cfg es [] = reference_run cfg es (\<lambda>key. [])"
    using assms by (intro rate_run_reference)
  then show ?thesis using reference_admits [of cfg key k es "\<lambda>key. []"] by (simp add: requests_in_def)
qed

definition nine_requests :: "rate_event list" where
  "nine_requests = replicate 6 (Check 59000 ''ip'') @ [Clean 60000] @ replicate 5 (Check 118000 ''ip'')"

lemma rate_limiter_counts_requests_witness:
  "rate_run (\<lambda>key. INVITATION_PREVIEW_PER_IP_MINUTE) nine_requests [] = reference_run (\<lambda>key. INVITATION_PREVIEW_PER_IP_MINUTE) nine_requests (\<lambda>key. [])
   \<and> admitted (\<lambda>key. INVITATION_PREVIEW_PER_IP_MINUTE) ''ip'' 1 nine_requests (rate_run (\<lambda>key. INVITATION_PREVIEW_PER_IP_MINUTE) nine_requests []) \<le> 5"
proof -
  have cfg: "configs_ok (\<lambda>key. INVITATION_PREVIEW_PER_IP_MINUTE)" by (simp add: configs_ok_def INVITATION_PREVIEW_PER_IP_MINUTE_def)
  have sorted: "sorted (map request_time nine_requests)" by code_simp
  have limit: "max 0 (rl_limit INVITATION_PREVIEW_PER_IP_MINUTE) = 5" by (simp add: INVITATION_PREVIEW_PER_IP_MINUTE_def)
  from rate_limiter_counts_requests [OF cfg sorted, of "''ip''" 1] show ?thesis unfolding limit .
qed

text \<open>Within sixty seconds nine requests are allowed where the preset says five a minute.\<close>

lemma burst_allows_more:
  "map rr_allowed (rate_run (\<lambda>key. INVITATION_PREVIEW_PER_IP_MINUTE)
     (replicate 5 (Check 59000 ''ip'') @ replicate 4 (Check 118000 ''ip'')) []) = replicate 9 True"
  by code_simp

end
